(* ===== verification/Prelude.thy ===== *)
theory Prelude
  imports Main "HOL-Library.Word" "HOL-Library.Monad_Syntax" "HOL-Library.Multiset"
begin

text \<open>
  What the component theories share: the names of the machine integer types of
  \<^verbatim>\<open>Common/Platform.h\<close>, array reads that say what happens out of range, list scans the
  code writes as \<^verbatim>\<open>for\<close> loops over an iterator, and the theorem collections the component
  proofs draw on.  A C++ array read outside the array is undefined behaviour: the model
  returns \<open>None\<close> for it, and a safety theorem of a component says when that cannot happen.
\<close>

section \<open>Machine integers\<close>

type_synonym u8 = "8 word"
type_synonym u16 = "16 word"
type_synonym u32 = "32 word"
type_synonym u64 = "64 word"

text \<open>Reading a byte as an integer.\<close>

lemma uint_u8_bound [simp]: "uint (x::u8) < 256" "0 \<le> uint (x::u8)" using uint_lt2p [of x] by simp_all

lemma uint_u8_minus1: "uint (x - 1 :: u8) = (uint x - 1) mod 256"
  by (simp add: uint_word_ariths)

lemma uint_u8_plus1: "uint (x + 1 :: u8) = (uint x + 1) mod 256"
  by (simp add: uint_word_ariths)

lemma u8_even: "(y::u8) mod 2 = 0 \<longleftrightarrow> uint y mod 2 = 0"
  by (simp add: word_uint_eq_iff uint_mod)

lemma u8_odd: "(y::u8) mod 2 = 1 \<longleftrightarrow> uint y mod 2 = 1"
  by (simp add: word_uint_eq_iff uint_mod)

lemma u8_pred_mod: "(uint (x::u8) - 1) mod 256 = (if uint x = 0 then 255 else uint x - 1)"
proof (cases "uint x = 0")
  case True
  then show ?thesis by (simp add: zmod_minus1)
next
  case False
  then have "0 \<le> uint x - 1" "uint x - 1 < 256" using uint_u8_bound [of x] by linarith+
  with False show ?thesis by simp
qed

lemma unat_u8_less: "unat (n :: u8) < 256"
  using uint_u8_bound(1) [of n] by (simp only: unat_eq_nat_uint nat_less_iff uint_u8_bound(2))

lemma unat_of_nat_u8: "k < 256 \<Longrightarrow> unat (of_nat k :: u8) = k"
  by (simp only: unat_of_nat) simp

section \<open>Theorem collections\<close>

named_theorems frame_simps \<open>operations that leave a part of the state alone\<close>
named_theorems safe_simps \<open>reads that are in range on a well-formed state\<close>
named_theorems codec_simps \<open>byte layouts and their lengths\<close>

section \<open>Arrays\<close>

definition nth_opt :: "'a list \<Rightarrow> nat \<Rightarrow> 'a option" where
  "nth_opt xs i = (if i < length xs then Some (xs ! i) else None)"

lemma nth_opt_in [simp]: "i < length xs \<Longrightarrow> nth_opt xs i = Some (xs ! i)"
  by (simp add: nth_opt_def)

lemma nth_opt_out [simp]: "length xs \<le> i \<Longrightarrow> nth_opt xs i = None"
  by (simp add: nth_opt_def)

lemma nth_opt_Some_iff: "nth_opt xs i = Some x \<longleftrightarrow> i < length xs \<and> x = xs ! i"
  by (auto simp: nth_opt_def)

lemma nth_opt_update:
  "nth_opt (xs[i := x]) j = (if i = j \<and> j < length xs then Some x else nth_opt xs j)"
  by (simp add: nth_opt_def)

definition upd_opt :: "'a list \<Rightarrow> nat \<Rightarrow> 'a \<Rightarrow> 'a list option" where
  "upd_opt xs i x = (if i < length xs then Some (xs[i := x]) else None)"

lemma upd_opt_in [simp]: "i < length xs \<Longrightarrow> upd_opt xs i x = Some (xs[i := x])"
  by (simp add: upd_opt_def)

lemma upd_opt_Some_iff: "upd_opt xs i x = Some ys \<longleftrightarrow> i < length xs \<and> ys = xs[i := x]"
  by (auto simp: upd_opt_def)

text \<open>A row-major cell index stays below the area of its grid.\<close>

lemma row_major_less:
  fixes x y w h :: nat
  assumes "x < w" "y < h"
  shows "x + y * w < w * h"
proof -
  have "x + y * w < w + y * w" using assms(1) by simp
  also have "\<dots> = Suc y * w" by simp
  also have "\<dots> \<le> h * w" using assms(2) by (intro mult_le_mono1) simp
  finally show ?thesis by (simp add: mult.commute)
qed

lemma row_major_inj:
  fixes x y w :: nat
  assumes "x < w" "x' < w" "x + y * w = x' + y' * w"
  shows "x = x' \<and> y = y'"
proof -
  have "x = x'"
    using arg_cong [OF assms(3), where f = "\<lambda>n. n mod w"] assms(1,2) by simp
  moreover from this assms have "y = y'" by simp
  ultimately show ?thesis by simp
qed

section \<open>Iterator scans\<close>

text \<open>\<open>update_first\<close> is a write through the pointer a linear search returned.\<close>

fun update_first :: "('a \<Rightarrow> bool) \<Rightarrow> ('a \<Rightarrow> 'a) \<Rightarrow> 'a list \<Rightarrow> 'a list" where
  "update_first P f [] = []"
| "update_first P f (x # xs) = (if P x then f x # xs else x # update_first P f xs)"

lemma length_update_first [simp]: "length (update_first P f xs) = length xs"
  by (induction xs) auto

lemma map_update_first_same:
  "(\<And>x. P x \<Longrightarrow> h (f x) = h x) \<Longrightarrow> map h (update_first P f xs) = map h xs"
  by (induction xs) auto

lemma set_update_first_subset:
  "x \<in> set (update_first P f xs) \<Longrightarrow> x \<in> set xs \<or> (\<exists>y \<in> set xs. P y \<and> x = f y)"
  by (induction xs) (auto split: if_splits)

lemma update_first_id: "find P xs = None \<Longrightarrow> update_first P f xs = xs"
  by (induction xs) (auto split: if_splits)

text \<open>\<open>remove_first\<close> is an erase at the position a linear search stopped at.\<close>

fun remove_first :: "('a \<Rightarrow> bool) \<Rightarrow> 'a list \<Rightarrow> 'a list" where
  "remove_first P [] = []"
| "remove_first P (x # xs) = (if P x then xs else x # remove_first P xs)"

lemma set_remove_first_subset: "set (remove_first P xs) \<subseteq> set xs"
  by (induction xs) auto

lemma mset_remove_first:
  "find P xs = Some x \<Longrightarrow> mset xs = add_mset x (mset (remove_first P xs))"
  by (induction xs) (auto split: if_splits)

lemma remove_first_id: "find P xs = None \<Longrightarrow> remove_first P xs = xs"
  by (induction xs) (auto split: if_splits)

lemma find_in_set: "find P xs = Some x \<Longrightarrow> x \<in> set xs \<and> P x"
  by (induction xs) (auto split: if_splits)

lemma find_None_set: "find P xs = None \<longleftrightarrow> (\<forall>x \<in> set xs. \<not> P x)"
  by (induction xs) auto

lemma find_exists: "x \<in> set xs \<Longrightarrow> P x \<Longrightarrow> \<exists>y. find P xs = Some y"
  by (induction xs) auto

lemma find_map: "find P (map f xs) = map_option f (find (\<lambda>x. P (f x)) xs)"
  by (induction xs) auto

text \<open>With distinct keys, a search for a key finds the one element that has it.\<close>

lemma find_key_unique:
  assumes "distinct (map k xs)" "x \<in> set xs"
  shows "find (\<lambda>y. k y = k x) xs = Some x"
  using assms by (induction xs) (auto simp: image_iff)

text \<open>A loop that keeps the elements a fallible test accepts.\<close>

fun filter_opt :: "('a \<Rightarrow> bool option) \<Rightarrow> 'a list \<Rightarrow> 'a list option" where
  "filter_opt t [] = Some []"
| "filter_opt t (x # xs) =
     do { b \<leftarrow> t x; ys \<leftarrow> filter_opt t xs; Some (if b then x # ys else ys) }"

lemma filter_opt_total:
  "(\<And>x. x \<in> set xs \<Longrightarrow> t x = Some (P x)) \<Longrightarrow> filter_opt t xs = Some (filter P xs)"
  by (induction xs) auto

lemma filter_opt_subset: "filter_opt t xs = Some ys \<Longrightarrow> set ys \<subseteq> set xs"
  by (induction xs arbitrary: ys) (fastforce simp: bind_eq_Some_conv split: if_splits)+

text \<open>A loop that returns at the first element a fallible test accepts.\<close>

fun exists_opt :: "('a \<Rightarrow> bool option) \<Rightarrow> 'a list \<Rightarrow> bool option" where
  "exists_opt t [] = Some False"
| "exists_opt t (x # xs) = do { b \<leftarrow> t x; if b then Some True else exists_opt t xs }"

lemma exists_opt_total:
  "(\<And>x. x \<in> set xs \<Longrightarrow> t x = Some (P x)) \<Longrightarrow> exists_opt t xs = Some (\<exists>x \<in> set xs. P x)"
  by (induction xs) auto

text \<open>A loop over a list that threads a state and may fail.\<close>

fun foldm :: "('s \<Rightarrow> 'a \<Rightarrow> 's option) \<Rightarrow> 's \<Rightarrow> 'a list \<Rightarrow> 's option" where
  "foldm f s [] = Some s"
| "foldm f s (x # xs) = do { s' \<leftarrow> f s x; foldm f s' xs }"

lemma foldm_append: "foldm f s (xs @ ys) = do { s' \<leftarrow> foldm f s xs; foldm f s' ys }"
  by (induction xs arbitrary: s) (auto simp: Option.bind_assoc)

lemma foldm_inv:
  assumes "foldm f s xs = Some s'" and "I s"
    and "\<And>s x s'. x \<in> set xs \<Longrightarrow> I s \<Longrightarrow> f s x = Some s' \<Longrightarrow> I s'"
  shows "I s'"
  using assms
proof (induction xs arbitrary: s)
  case Nil
  then show ?case by simp
next
  case (Cons x xs)
  from Cons.prems(1) obtain s1 where s1: "f s x = Some s1" "foldm f s1 xs = Some s'"
    by (auto simp: bind_eq_Some_conv)
  have "I s1" by (rule Cons.prems(3) [OF _ Cons.prems(2) s1(1)]) simp
  moreover have "\<And>s x s'. x \<in> set xs \<Longrightarrow> I s \<Longrightarrow> f s x = Some s' \<Longrightarrow> I s'"
    using Cons.prems(3) by (meson list.set_intros(2))
  ultimately show ?case using Cons.IH [OF s1(2)] by blast
qed

lemma foldm_total:
  assumes "I s"
    and "\<And>s x. x \<in> set xs \<Longrightarrow> I s \<Longrightarrow> \<exists>s'. f s x = Some s' \<and> I s'"
  shows "\<exists>s'. foldm f s xs = Some s' \<and> I s'"
  using assms
proof (induction xs arbitrary: s)
  case Nil
  then show ?case by simp
next
  case (Cons x xs)
  from Cons.prems obtain s1 where "f s x = Some s1" "I s1" by (meson list.set_intros(1))
  with Cons.IH [of s1] Cons.prems(2) show ?case by auto
qed

text \<open>The verdict on an operation that may be undefined: \<open>delivers d r P\<close> says that a result satisfies \<open>P\<close>,
  and that there is one if \<open>d\<close> holds.\<close>

definition delivers :: "bool \<Rightarrow> 'a option \<Rightarrow> ('a \<Rightarrow> bool) \<Rightarrow> bool" where
  "delivers d r P \<longleftrightarrow> (case r of None \<Rightarrow> \<not> d | Some x \<Rightarrow> P x)"

lemma delivers_simps [simp]: "delivers d None P \<longleftrightarrow> \<not> d" "delivers d (Some x) P \<longleftrightarrow> P x"
  by (simp_all add: delivers_def)

lemma deliversD: "delivers d r P \<Longrightarrow> r = Some x \<Longrightarrow> P x"
  by simp

lemma delivers_result: "delivers d r P \<Longrightarrow> d \<Longrightarrow> \<exists>x. r = Some x \<and> P x"
  by (cases r) simp_all

lemma delivers_total: "\<exists>x. r = Some x \<and> P x \<Longrightarrow> delivers d r P"
  by auto

lemma delivers_mono: "delivers d r P \<Longrightarrow> (\<And>x. r = Some x \<Longrightarrow> P x \<Longrightarrow> Q x) \<Longrightarrow> delivers d r Q"
  by (cases r) simp_all

lemma delivers_bind: "delivers d r P \<Longrightarrow> (\<And>x. r = Some x \<Longrightarrow> P x \<Longrightarrow> delivers d (f x) Q) \<Longrightarrow> delivers d (Option.bind r f) Q"
  by (cases r) simp_all

lemma delivers_foldm:
  assumes "I s" and "\<And>s x. x \<in> set xs \<Longrightarrow> I s \<Longrightarrow> delivers d (f s x) I"
  shows "delivers d (foldm f s xs) I"
  using assms
proof (induction xs arbitrary: s)
  case (Cons x xs)
  have "delivers d (f s x) I" using Cons.prems by simp
  then show ?case unfolding foldm.simps by (rule delivers_bind) (use Cons in auto)
qed simp

lemma foldm_undefined:
  assumes "I s" "\<And>s x. x \<in> set xs \<Longrightarrow> I s \<Longrightarrow> delivers False (f s x) I" "x \<in> set xs" "\<And>s. I s \<Longrightarrow> f s x = None"
  shows "foldm f s xs = None"
  using assms(1-3)
proof (induction xs arbitrary: s)
  case (Cons y ys)
  show ?case
  proof (cases "f s y")
    case (Some s')
    then have "I s'" using Cons.prems(1) Cons.prems(2) [of y s] by simp
    moreover have "x \<in> set ys" using assms(4) [OF Cons.prems(1)] Cons.prems(3) Some by auto
    ultimately show ?thesis using Cons.IH [of s'] Cons.prems(2) Some by simp
  qed simp
qed simp

section \<open>Keyed stores\<close>

text \<open>What a client of a map relies on: a lookup after a write, a lookup after an erase, and that
  both keep the store well formed.\<close>

locale keyed_store =
  fixes get :: "'s \<Rightarrow> 'k \<Rightarrow> 'v option"
    and put :: "'k \<Rightarrow> 'v \<Rightarrow> 's \<Rightarrow> 's"
    and drop_key :: "'k \<Rightarrow> 's \<Rightarrow> 's"
    and ok :: "'s \<Rightarrow> bool"
  assumes get_put: "ok s \<Longrightarrow> get (put k v s) k' = (if k = k' then Some v else get s k')"
    and get_drop: "ok s \<Longrightarrow> get (drop_key k s) k' = (if k = k' then None else get s k')"
    and ok_put: "ok s \<Longrightarrow> ok (put k v s)"
    and ok_drop: "ok s \<Longrightarrow> ok (drop_key k s)"
begin

lemma get_put_same: "ok s \<Longrightarrow> get (put k v s) k = Some v"
  by (simp add: get_put)

lemma get_put_other: "ok s \<Longrightarrow> k \<noteq> k' \<Longrightarrow> get (put k v s) k' = get s k'"
  by (simp add: get_put)

lemma put_commute_get: "ok s \<Longrightarrow> k \<noteq> k' \<Longrightarrow> get (put k v (put k' v' s)) x = get (put k' v' (put k v s)) x"
  by (auto simp: get_put ok_put)

lemma ok_fold_put: "ok s \<Longrightarrow> ok (fold (\<lambda>(k, v). put k v) kvs s)"
  by (induction kvs arbitrary: s) (auto simp: ok_put split: prod.splits)

text \<open>A run of writes under different keys can be read back.\<close>

lemma get_fold_put:
  assumes "ok s" "distinct (map fst kvs)"
  shows "get (fold (\<lambda>(k, v). put k v) kvs s) x = (case map_of kvs x of Some v \<Rightarrow> Some v | None \<Rightarrow> get s x)"
  using assms
proof (induction kvs arbitrary: s)
  case (Cons kv kvs)
  obtain k v where kv: "kv = (k, v)" by (cases kv)
  have "map_of kvs k = None" using Cons.prems(2) kv by (simp add: map_of_eq_None_iff)
  with Cons.IH [OF ok_put [OF Cons.prems(1)]] Cons.prems kv show ?case
    by (auto simp: get_put split: option.splits)
qed simp

end

text \<open>A \<^verbatim>\<open>std::map\<close> as the list of its entries in key order.\<close>

fun omap_put :: "'k::linorder \<Rightarrow> 'v \<Rightarrow> ('k \<times> 'v) list \<Rightarrow> ('k \<times> 'v) list" where
  "omap_put k v [] = [(k, v)]"
| "omap_put k v ((k', v') # m) =
     (if k' < k then (k', v') # omap_put k v m
      else if k' = k then (k, v) # m
      else (k, v) # (k', v') # m)"

definition omap_del :: "'k \<Rightarrow> ('k \<times> 'v) list \<Rightarrow> ('k \<times> 'v) list" where
  "omap_del k m = filter (\<lambda>e. fst e \<noteq> k) m"

definition omap_ok :: "('k::linorder \<times> 'v) list \<Rightarrow> bool" where
  "omap_ok m \<longleftrightarrow> sorted_wrt (<) (map fst m)"

lemma omap_put_get: "map_of (omap_put k v m) k' = (if k = k' then Some v else map_of m k')"
  by (induction k v m rule: omap_put.induct) auto

lemma omap_put_put: "omap_put k v (omap_put k w m) = omap_put k v m"
  by (induction k w m rule: omap_put.induct) auto

lemma omap_put_keys: "fst ` set (omap_put k v m) = insert k (fst ` set m)"
  by (induction k v m rule: omap_put.induct) auto

lemma omap_put_ok: "omap_ok m \<Longrightarrow> omap_ok (omap_put k v m)"
proof (induction k v m rule: omap_put.induct)
  case (2 k v k' v' m)
  have "\<forall>a \<in> fst ` set m. k' < a" using 2(2) by (auto simp: omap_ok_def)
  then have "k' < k \<Longrightarrow> \<forall>a \<in> set (map fst (omap_put k v m)). k' < a"
    unfolding set_map omap_put_keys by auto
  then show ?case using 2 by (auto simp: omap_ok_def)
qed (simp add: omap_ok_def)

lemma omap_del_get: "map_of (omap_del k m) k' = (if k = k' then None else map_of m k')"
  by (induction m) (auto simp: omap_del_def)

lemma omap_del_ok: "omap_ok m \<Longrightarrow> omap_ok (omap_del k m)"
  by (induction m) (auto simp: omap_ok_def omap_del_def)

interpretation omap: keyed_store "\<lambda>m. map_of m" omap_put omap_del omap_ok
  by unfold_locales (simp_all add: omap_put_get omap_del_get omap_put_ok omap_del_ok)

lemma omap_del_absent: "k \<notin> fst ` set m \<Longrightarrow> omap_del k m = m"
  by (induction m) (auto simp: omap_del_def)

lemma omap_ok_distinct: "omap_ok m \<Longrightarrow> distinct (map fst m)"
  unfolding omap_ok_def by (simp add: strict_sorted_iff)

lemma omap_put_id: "omap_ok m \<Longrightarrow> map_of m k = Some v \<Longrightarrow> omap_put k v m = m"
proof (induction k v m rule: omap_put.induct)
  case (2 k v k' v' m)
  have "k' < k" if "k \<noteq> k'"
  proof -
    have "(k, v) \<in> set m" using 2(3) that by (auto dest: map_of_SomeD)
    then show ?thesis using 2(2) by (force simp: omap_ok_def)
  qed
  then show ?case using 2 by (auto simp: omap_ok_def)
qed simp

lemma omap_member: "omap_ok m \<Longrightarrow> (k, v) \<in> set m \<longleftrightarrow> map_of m k = Some v"
  using omap_ok_distinct [of m] by (auto intro: map_of_is_SomeI dest: map_of_SomeD)

end
