(* ===== verification/ByteStream.thy ===== *)
theory ByteStream
  imports Prelude
begin

text \<open>
  The byte stream of \<^verbatim>\<open>Common/Stream.h\<close>: a growing buffer with a read position, in which packets are
  composed and taken apart.  Integers lie in the buffer as they lie in memory, least significant byte
  first.  \<^verbatim>\<open>size_t\<close> is 64 bits wide; positions and sizes are natural numbers and the one subtraction that
  can wrap around, in \<^verbatim>\<open>left\<close> and \<^verbatim>\<open>read\<close>, is written out.  Reading outside the buffer is
  \<open>None\<close>.
\<close>

section \<open>Bytes of a value\<close>

primrec le_bytes :: "nat \<Rightarrow> nat \<Rightarrow> u8 list" where
  "le_bytes 0 n = []"
| "le_bytes (Suc k) n = of_nat (n mod 256) # le_bytes k (n div 256)"

primrec le_value :: "u8 list \<Rightarrow> nat" where
  "le_value [] = 0"
| "le_value (b # bs) = unat b + 256 * le_value bs"

lemma length_le_bytes [simp, codec_simps]: "length (le_bytes k n) = k"
  by (induction k arbitrary: n) simp_all

lemma le_bytes_numeral:
  "le_bytes (numeral k) n = of_nat (n mod 256) # le_bytes (pred_numeral k) (n div 256)"
  by (simp only: numeral_eq_Suc le_bytes.simps)

lemma unat_byte: "unat (of_nat (n mod 256) :: u8) = n mod 256"
  by (simp add: unat_of_nat)

lemma le_value_bytes [codec_simps]: "le_value (le_bytes k n) = n mod 256 ^ k"
proof (induction k arbitrary: n)
  case (Suc k)
  have "le_value (le_bytes (Suc k) n) = n mod 256 + 256 * (n div 256 mod 256 ^ k)"
    by (simp only: le_bytes.simps le_value.simps unat_byte Suc)
  then show ?case by (simp add: mod_mult2_eq)
qed simp

lemma le_value_bound: "le_value bs < 256 ^ length bs"
proof (induction bs)
  case (Cons b bs)
  have "unat b < 256" using uint_u8_bound(1) [of b] by (simp only: unat_eq_nat_uint nat_less_iff uint_u8_bound(2))
  then have "unat b + 256 * le_value bs < 256 * (le_value bs + 1)" by simp
  also have "\<dots> \<le> 256 * 256 ^ length bs" using Cons by (intro mult_le_mono2) simp
  finally show ?case by simp
qed simp

lemma le_bytes_value [codec_simps]: "le_bytes (length bs) (le_value bs) = bs"
proof (induction bs)
  case (Cons b bs)
  have "unat b < 256" using uint_u8_bound(1) [of b] by (simp only: unat_eq_nat_uint nat_less_iff uint_u8_bound(2))
  then show ?case using Cons by simp
qed simp

definition word_bytes :: "nat \<Rightarrow> 'w::len word \<Rightarrow> u8 list" where
  "word_bytes k w = le_bytes k (unat w)"

definition word_of_bytes :: "u8 list \<Rightarrow> 'w::len word" where
  "word_of_bytes bs = of_nat (le_value bs)"

lemma length_word_bytes [simp]: "length (word_bytes k w) = k"
  by (simp add: word_bytes_def)

lemma word_bytes_inverse:
  fixes w :: "'w::len word"
  assumes "LENGTH('w) = 8 * k"
  shows "word_of_bytes (word_bytes k w) = w"
proof -
  have "unat w < 2 ^ (8 * k)" using unsigned_less [of w] assms by simp
  then have "unat w mod 256 ^ k = unat w" by (simp add: power_mult)
  then show ?thesis by (simp add: word_bytes_def word_of_bytes_def le_value_bytes)
qed

section \<open>The stream\<close>

record stream =
  st_pos :: nat
  st_buf :: "u8 list"

definition stream_empty :: stream where
  "stream_empty = \<lparr>st_pos = 0, st_buf = []\<rparr>"

definition stream_init :: "u8 \<Rightarrow> u8 \<Rightarrow> stream \<Rightarrow> stream" where
  "stream_init cmd magic s = s\<lparr>st_buf := [0, 0, magic, cmd]\<rparr>"

definition stream_size :: "stream \<Rightarrow> nat" where "stream_size s = length (st_buf s)"

definition stream_left :: "stream \<Rightarrow> u64" where
  "stream_left s = of_nat (stream_size s) - of_nat (st_pos s)"

definition stream_clear :: "stream \<Rightarrow> stream" where
  "stream_clear s = s\<lparr>st_buf := [], st_pos := 0\<rparr>"

definition stream_first_of :: "u8 \<Rightarrow> stream \<Rightarrow> u64" where
  "stream_first_of b s =
     (case find (\<lambda>i. st_buf s ! i = b) [0 ..< length (st_buf s)] of Some i \<Rightarrow> of_nat i | None \<Rightarrow> - 1)"

definition stream_pop_front :: "nat \<Rightarrow> stream \<Rightarrow> stream" where
  "stream_pop_front n s =
     (if n \<ge> length (st_buf s) then s\<lparr>st_buf := []\<rparr> else s\<lparr>st_buf := drop n (st_buf s)\<rparr>)"

definition stream_remove :: "nat \<Rightarrow> nat \<Rightarrow> stream \<Rightarrow> stream" where
  "stream_remove p n s =
     (if p \<ge> length (st_buf s) then s
      else let n' = (if p + n > length (st_buf s) then length (st_buf s) - p else n)
           in s\<lparr>st_buf := take p (st_buf s) @ drop (p + n') (st_buf s)\<rparr>)"

definition stream_append :: "u8 list \<Rightarrow> stream \<Rightarrow> stream" where
  "stream_append bs s = s\<lparr>st_buf := st_buf s @ bs\<rparr>"

definition stream_append_zero :: "nat \<Rightarrow> stream \<Rightarrow> stream" where
  "stream_append_zero n s = (if n > 0 then s\<lparr>st_buf := st_buf s @ replicate n 0\<rparr> else s)"

definition stream_prepend :: "u8 list \<Rightarrow> stream \<Rightarrow> stream" where
  "stream_prepend bs s = s\<lparr>st_buf := bs @ st_buf s\<rparr>"

text \<open>\<^verbatim>\<open>read\<close>: the bytes copied and the stream.  When the position lies behind the end, the length
  computed from the difference is huge and the copy leaves the buffer.\<close>

definition stream_read :: "nat \<Rightarrow> stream \<Rightarrow> (u8 list \<times> stream) option" where
  "stream_read len s =
     (let len' = (if st_pos s + len > stream_size s then unat (stream_left s) else len)
      in if len' = 0 then Some ([], s)
         else if st_pos s + len' > stream_size s then None
         else Some (take len' (drop (st_pos s) (st_buf s)), s\<lparr>st_pos := st_pos s + len'\<rparr>))"

text \<open>\<^verbatim>\<open>operator>>\<close> into a variable that holds the bytes \<open>old\<close>: a short read leaves the rest.\<close>

definition stream_get :: "u8 list \<Rightarrow> stream \<Rightarrow> (u8 list \<times> stream) option" where
  "stream_get old s =
     do { r \<leftarrow> stream_read (length old) s; Some (fst r @ drop (length (fst r)) old, snd r) }"

definition stream_put :: "u8 list \<Rightarrow> stream \<Rightarrow> stream" where
  "stream_put bs s = stream_append bs s"

text \<open>The two overloads for a vector of bytes write no number of elements: the one appends the bytes, the
  other reads as many as the vector it is given has, and takes the address of its first element, which an
  empty vector has not.\<close>

definition stream_put_bytes :: "u8 list \<Rightarrow> stream \<Rightarrow> stream" where
  "stream_put_bytes v s = s\<lparr>st_buf := st_buf s @ v\<rparr>"

definition stream_get_bytes :: "u8 list \<Rightarrow> stream \<Rightarrow> (u8 list \<times> stream) option" where
  "stream_get_bytes v s = (if v = [] then None else stream_get v s)"

text \<open>The template for the other vectors, of integers of \<open>k\<close> bytes, with the number of elements before
  them in four bytes.  It too takes the address of the first element.\<close>

definition stream_put_vector :: "nat \<Rightarrow> 'w::len word list \<Rightarrow> stream \<Rightarrow> stream option" where
  "stream_put_vector k ws s =
     (let t = stream_put (word_bytes 4 (of_nat (length ws) :: u32)) s
      in if ws = [] then None else Some (stream_append (concat (map (word_bytes k) ws)) t))"

primrec chunks :: "nat \<Rightarrow> nat \<Rightarrow> u8 list \<Rightarrow> u8 list list" where
  "chunks k 0 bs = []"
| "chunks k (Suc n) bs = take k bs # chunks k n (drop k bs)"

text \<open>\<^verbatim>\<open>n\<close> is not initialised before it is read into; \<open>junk\<close> is what it holds.  The elements of the
  resized vector are zero before the read.\<close>

definition stream_get_vector ::
  "u8 list \<Rightarrow> nat \<Rightarrow> stream \<Rightarrow> ('w::len word list \<times> stream) option" where
  "stream_get_vector junk k s =
     do { r \<leftarrow> stream_get junk s;
          let n = unat (word_of_bytes (fst r) :: u32)
          in if n > 0
             then do { q \<leftarrow> stream_get (replicate (k * n) 0) (snd r);
                       Some (map word_of_bytes (chunks k n (fst q)), snd q) }
             else Some ([], snd r) }"

definition stream_put_string :: "u8 list \<Rightarrow> stream \<Rightarrow> stream" where
  "stream_put_string v s = stream_append v (stream_put (word_bytes 2 (of_nat (length v) :: u16)) s)"

definition stream_get_string :: "u8 list \<Rightarrow> stream \<Rightarrow> (u8 list \<times> stream) option" where
  "stream_get_string junk s =
     do { r \<leftarrow> stream_get junk s;
          let l = (word_of_bytes (fst r) :: u16);
              lft = (ucast (stream_left (snd r)) :: u32);
              l' = unat (if ucast l > lft then ucast lft else l);
              p = st_pos (snd r)
          in if l' > 0 \<and> p + l' > stream_size (snd r) then None
             else Some (take l' (drop p (st_buf (snd r))), (snd r)\<lparr>st_pos := p + l'\<rparr>) }"

text \<open>A C string; \<^verbatim>\<open>NULL\<close> is written as the empty one, and the bytes appended are only as many as the
  length written.\<close>

definition stream_put_cstring :: "u8 list option \<Rightarrow> stream \<Rightarrow> stream" where
  "stream_put_cstring v s =
     (case v of
        None \<Rightarrow> stream_put (word_bytes 2 (0 :: u16)) s
      | Some cs \<Rightarrow>
          let len = (of_nat (length cs) :: u16)
          in stream_append (take (unat len) cs) (stream_put (word_bytes 2 len) s))"

definition stream_skip :: "u32 \<Rightarrow> stream \<Rightarrow> stream" where
  "stream_skip n s =
     (let p = st_pos s + unat n in s\<lparr>st_pos := (if p > stream_size s then stream_size s else p)\<rparr>)"

definition stream_back :: "u32 \<Rightarrow> stream \<Rightarrow> stream" where
  "stream_back n s = s\<lparr>st_pos := (if st_pos s < unat n then 0 else st_pos s - unat n)\<rparr>"

text \<open>An assignment through \<^verbatim>\<open>data<T>(offset)\<close>; out of range it goes to a static variable.\<close>

definition stream_set_data :: "nat \<Rightarrow> u8 list \<Rightarrow> stream \<Rightarrow> stream" where
  "stream_set_data off bs s =
     (if off + length bs > stream_size s then s
      else s\<lparr>st_buf := take off (st_buf s) @ bs @ drop (off + length bs) (st_buf s)\<rparr>)"

definition stream_eos :: "stream \<Rightarrow> stream" where
  "stream_eos s = stream_set_data 0 (word_bytes 2 (of_nat (stream_size s) - 4 :: u16)) s"

section \<open>Reading back what was written\<close>

definition stream_ok :: "stream \<Rightarrow> bool" where
  "stream_ok s \<longleftrightarrow> st_pos s \<le> stream_size s"

lemma stream_read_whole:
  "st_pos s + len \<le> stream_size s \<Longrightarrow>
   stream_read len s = Some (take len (drop (st_pos s) (st_buf s)), s\<lparr>st_pos := st_pos s + len\<rparr>)"
  by (simp add: stream_read_def stream_size_def)

lemma stream_get_whole:
  assumes "drop (st_pos s) (st_buf s) = bs @ rest" "st_pos s \<le> stream_size s" "length old = length bs"
  shows "stream_get old s = Some (bs, s\<lparr>st_pos := st_pos s + length bs\<rparr>)"
proof -
  have "length (drop (st_pos s) (st_buf s)) = length bs + length rest" by (simp add: assms(1))
  then have "st_pos s + length bs \<le> stream_size s" using assms(2) by (simp add: stream_size_def)
  then show ?thesis using assms(1,3) by (simp add: stream_get_def stream_read_whole)
qed

lemma stream_read_short:
  assumes "stream_ok s" "stream_size s < 2 ^ 64"
  shows "stream_read len s = Some (take len (drop (st_pos s) (st_buf s)), s\<lparr>st_pos := min (st_pos s + len) (stream_size s)\<rparr>)"
proof (cases "st_pos s + len \<le> stream_size s")
  case True
  then show ?thesis using stream_read_whole by (simp add: min_def)
next
  case False
  have le: "st_pos s \<le> stream_size s" using assms(1) by (simp add: stream_ok_def)
  have "stream_left s = of_nat (stream_size s - st_pos s)" using le by (simp add: stream_left_def of_nat_diff)
  moreover have "stream_size s - st_pos s < 2 ^ 64" using assms(2) by linarith
  ultimately have l: "unat (stream_left s) = stream_size s - st_pos s" by (simp add: unat_of_nat)
  have "take len (drop (st_pos s) (st_buf s)) = drop (st_pos s) (st_buf s)"
    using False by (simp add: stream_size_def)
  moreover have "take (stream_size s - st_pos s) (drop (st_pos s) (st_buf s)) = drop (st_pos s) (st_buf s)"
    by (simp add: stream_size_def)
  moreover have "stream_size s = st_pos s \<Longrightarrow> drop (st_pos s) (st_buf s) = []" by (simp add: stream_size_def)
  ultimately show ?thesis using False le l by (auto simp: stream_read_def min_def Let_def)
qed

lemma word_bytes_16: "length bs < 65536 \<Longrightarrow> unat (word_of_bytes (word_bytes 2 (of_nat (length bs) :: u16)) :: u16) = length bs"
  by (simp add: word_bytes_inverse unat_of_nat)

lemma stream_put_pos [frame_simps]: "st_pos (stream_put bs s) = st_pos s" "st_pos (stream_append bs s) = st_pos s"
  "st_buf (stream_put bs s) = st_buf s @ bs" "st_buf (stream_append bs s) = st_buf s @ bs"
  by (simp_all add: stream_put_def stream_append_def)

lemma chunks_concat:
  "\<forall>x \<in> set xs. length (f x) = k \<Longrightarrow> chunks k (length xs) (concat (map f xs)) = map f xs"
  by (induction xs) auto

lemma length_concat_words: "length (concat (map (word_bytes k) ws)) = k * length ws"
  by (induction ws) simp_all

lemma stream_get_put:
  assumes "st_pos s = stream_size s" "length old = length bs"
  shows "stream_get old (stream_put bs s) = Some (bs, (stream_put bs s)\<lparr>st_pos := st_pos s + length bs\<rparr>)"
  using stream_get_whole [of "stream_put bs s" bs "[]" old] assms by (simp add: frame_simps stream_size_def)

lemma ucast_of_short: "n < 65536 \<Longrightarrow> (ucast (of_nat n :: u64) :: u32) = of_nat n"
  by (simp add: unsigned_of_nat take_bit_nat_eq_self)

lemma stream_get_string_whole:
  assumes "stream_get junk s = Some (n, t)"
    "unat (if (ucast (word_of_bytes n :: u16) :: u32) > ucast (stream_left t)
       then ucast (ucast (stream_left t) :: u32) else (word_of_bytes n :: u16)) = l"
    "st_pos t + l \<le> stream_size t"
  shows "stream_get_string junk s = Some (take l (drop (st_pos t) (st_buf t)), t\<lparr>st_pos := st_pos t + l\<rparr>)"
  unfolding stream_get_string_def assms(1) using assms(2,3) by (simp only: Let_def bind.bind_lunit fst_conv snd_conv) simp

lemma stream_string_round_trip:
  assumes "st_pos s = stream_size s" "length v < 65536" "length junk = 2"
  shows "\<exists>t. stream_get_string junk (stream_put_string v s) = Some (v, t) \<and> st_pos t = stream_size t"
proof -
  let ?s = "stream_put_string v s" and ?n = "word_bytes 2 (of_nat (length v) :: u16)"
  let ?t = "?s\<lparr>st_pos := st_pos s + 2\<rparr>"
  have b: "st_buf ?s = st_buf s @ ?n @ v" "st_pos ?s = st_pos s"
    by (simp_all add: stream_put_string_def frame_simps)
  have g: "stream_get junk ?s = Some (?n, ?t)"
    using stream_get_whole [of ?s ?n v junk] assms(1,3) b by (simp add: stream_size_def)
  have w: "unat (word_of_bytes ?n :: u16) = length v" using word_bytes_16 [OF assms(2)] .
  have l: "stream_left ?t = of_nat (length v)"
    using assms(1) b by (simp add: stream_left_def stream_size_def)
  have "(ucast (word_of_bytes ?n :: u16) :: u32) = of_nat (length v)"
    using of_nat_unat [of "word_of_bytes ?n :: u16", where 'a = u32] w by simp
  then have "unat (if (ucast (word_of_bytes ?n :: u16) :: u32) > ucast (stream_left ?t)
      then ucast (ucast (stream_left ?t) :: u32) else (word_of_bytes ?n :: u16)) = length v"
    using w l ucast_of_short [OF assms(2)] by simp
  then have "stream_get_string junk ?s =
      Some (take (length v) (drop (st_pos ?t) (st_buf ?t)), ?t\<lparr>st_pos := st_pos ?t + length v\<rparr>)"
    using assms(1) b by (intro stream_get_string_whole [OF g]) (simp_all add: stream_size_def)
  then show ?thesis using b assms(1) by (simp add: stream_size_def)
qed

lemma stream_vector_round_trip:
  fixes ws :: "'w::len word list"
  assumes "st_pos s = stream_size s" "LENGTH('w) = 8 * k" "ws \<noteq> []" "length ws < 2 ^ 32" "length junk = 4"
  shows "\<exists>u t. stream_put_vector k ws s = Some u \<and> stream_get_vector junk k u = Some (ws, t) \<and>
    st_pos t = stream_size t"
proof -
  let ?s = "stream_append (concat (map (word_bytes k) ws)) (stream_put (word_bytes 4 (of_nat (length ws) :: u32)) s)" and ?n = "word_bytes 4 (of_nat (length ws) :: u32)"
  let ?c = "concat (map (word_bytes k) ws)" and ?t = "?s\<lparr>st_pos := st_pos s + 4\<rparr>"
  have b: "st_buf ?s = st_buf s @ ?n @ ?c" "st_pos ?s = st_pos s"
    by (simp_all add: frame_simps)
  have g: "stream_get junk ?s = Some (?n, ?t)"
    using stream_get_whole [of ?s ?n ?c junk] assms(1,5) b by (simp add: stream_size_def)
  have n: "unat (word_of_bytes ?n :: u32) = length ws"
    using assms(4) by (simp add: word_bytes_inverse unat_of_nat)
  have g2: "stream_get (replicate (k * length ws) 0) ?t = Some (?c, ?t\<lparr>st_pos := st_pos ?t + length ?c\<rparr>)"
    by (rule stream_get_whole [where rest = "[]"])
       (use assms(1) b in \<open>simp_all add: stream_size_def length_concat_words\<close>)
  have "map word_of_bytes (chunks k (length ws) ?c) = ws"
    using word_bytes_inverse [OF assms(2)] by (simp add: chunks_concat map_idI)
  then have "\<exists>t. stream_get_vector junk k ?s = Some (ws, t) \<and> st_pos t = stream_size t"
    using g g2 n b assms(1,3) by (simp add: stream_get_vector_def Let_def stream_size_def length_concat_words)
  moreover have "stream_put_vector k ws s = Some ?s"
    using assms(3) by (simp add: stream_put_vector_def Let_def)
  ultimately show ?thesis by blast
qed

lemma stream_bytes_round_trip:
  assumes "st_pos s = stream_size s" "bs \<noteq> []" "length old = length bs"
  shows "\<exists>t. stream_get_bytes old (stream_put_bytes bs s) = Some (bs, t) \<and> st_pos t = stream_size t"
proof -
  have "stream_put_bytes bs s = stream_put bs s"
    by (simp add: stream_put_bytes_def stream_put_def stream_append_def)
  moreover have "old \<noteq> []" using assms(2,3) by auto
  ultimately show ?thesis
    using stream_get_put [OF assms(1,3)] assms(1) by (simp add: stream_get_bytes_def frame_simps stream_size_def)
qed

text \<open>The bytes of a vector of bytes are read back by the same overload only into a vector of the right
  size: into a longer one a prefix of the next field goes too.\<close>

lemma stream_bytes_no_count:
  "stream_get_bytes [0, 0, 0] (stream_put [7] (stream_put_bytes [5, 6] stream_empty)) =
     Some ([5, 6, 7], \<lparr>st_pos = 3, st_buf = [5, 6, 7]\<rparr>)"
  by (simp add: stream_get_bytes_def stream_get_def stream_read_def stream_put_bytes_def stream_put_def
      stream_append_def stream_empty_def stream_size_def Let_def)


text \<open>\<^verbatim>\<open>pop_front\<close> leaves the position where it is, so that a read afterwards may start behind the end.\<close>

lemma pop_front_keeps_position:
  "stream_read 1 (stream_pop_front 3 \<lparr>st_pos = 2, st_buf = [7, 8, 9, 10]\<rparr>) = None"
  by (simp add: stream_pop_front_def stream_read_def stream_size_def stream_left_def Let_def
      unsigned_minus_1_eq_mask mask_eq_exp_minus_1)

section \<open>Properties\<close>



text \<open>A packet built with \<^verbatim>\<open>init\<close>, a body and \<^verbatim>\<open>eos\<close> carries the length of its body in its first two
  bytes, then the magic byte and the command, then the body itself, for bodies of fewer than 65536 bytes;
  \<^verbatim>\<open>eos\<close> changes neither the size nor the position.\<close>

theorem stream_eos_header:
  assumes "length body < 65536"
  shows "st_buf (stream_eos (stream_append body (stream_init cmd magic s))) =
           word_bytes 2 (of_nat (length body) :: u16) @ [magic, cmd] @ body \<and>
         st_pos (stream_eos (stream_append body (stream_init cmd magic s))) = st_pos s \<and>
         le_value (take 2 (st_buf (stream_eos (stream_append body (stream_init cmd magic s))))) = length body"
proof -
  have "st_buf (stream_eos (stream_append body (stream_init cmd magic s))) =
      word_bytes 2 (of_nat (length body) :: u16) @ [magic, cmd] @ body"
    by (simp add: stream_eos_def stream_set_data_def stream_append_def stream_init_def stream_size_def)
  moreover have "st_pos (stream_eos (stream_append body (stream_init cmd magic s))) = st_pos s"
    by (simp add: stream_eos_def stream_set_data_def stream_append_def stream_init_def stream_size_def)
  moreover have "le_value (word_bytes 2 (of_nat (length body) :: u16)) = length body"
    using assms by (simp add: word_bytes_def le_value_bytes unat_of_nat)
  ultimately show ?thesis by simp
qed

lemma stream_eos_header_witness:
  "st_buf (stream_eos (stream_append [5, 6, 7] (stream_init 32 255 stream_empty))) =
     word_bytes 2 (of_nat (length [5, 6, 7 :: u8]) :: u16) @ [255, 32] @ [5, 6, 7] \<and>
   st_pos (stream_eos (stream_append [5, 6, 7] (stream_init 32 255 stream_empty))) = st_pos stream_empty \<and>
   le_value (take 2 (st_buf (stream_eos (stream_append [5, 6, 7] (stream_init 32 255 stream_empty))))) =
     length [5, 6, 7 :: u8]"
  by (rule stream_eos_header) simp

end
