(* ===== verification/MsgIds.thy ===== *)
theory MsgIds
  imports Prelude
begin

text \<open>
  The message numbers of \<^verbatim>\<open>MsgID.h\<close>, one table for each name space, in the order of the file.  An entry is
  the name of the constant, the width of its type in bits and its value.
\<close>

type_synonym id_table = "(string \<times> nat \<times> int) list"

definition req_ids_1 :: id_table where
  "req_ids_1 =
    [(''CHAT'', 8, 6), (''SIGN'', 8, 16), (''SIGN_INFO'', 8, 17), (''ENCHART'', 8, 32),
     (''ENCHARTSOLDIER'', 8, 33), (''ENCHART_CD'', 8, 34), (''PACKAGE_INFO'', 8, 48),
     (''FIND_FIGHTER'', 8, 49), (''FIND_INFO'', 8, 50), (''UP_FIGHTER'', 8, 51),
     (''BATTLE_REPORT_REQ'', 8, 128), (''BATTLE_REPORT_REQ1'', 8, 129), (''BATTLE_ARENA'', 8, 131),
     (''BATTLE_BARRIER'', 8, 132), (''LOGIN'', 8, 224), (''CREATE_ROLE'', 8, 225),
     (''NEW_HAND_STEP'', 8, 227), (''USER_INFO'', 8, 228), (''CREATE_ACCOUNT'', 8, 229),
     (''IDENTIFY_ACCOUNT'', 8, 230), (''GMHAND'', 8, 239), (''FRIEND_LIST'', 8, 64),
     (''FRIEND_FIND'', 8, 65), (''FRIEND_APPLY'', 8, 66), (''FRIEND_ADD'', 8, 67),
     (''FRIEND_DELETE'', 8, 68), (''FRIEND_RECOMMAND'', 8, 69), (''FRIEND_BASEINFO'', 8, 70),
     (''MAIL'', 8, 80), (''MAIL_GET'', 8, 81), (''MAIL_DELETE'', 8, 82), (''MAIL_NOTICE'', 8, 82),
     (''MAIL_GET_ALL'', 8, 83), (''MAIL_DELETE_ALL'', 8, 84), (''CLAN_LIST'', 8, 112),
     (''CLAN_CREATE'', 8, 113), (''CLAN_INFO'', 8, 114), (''CLAN_OPTION'', 8, 115),
     (''CLAN_APPLY'', 8, 116), (''CLAN_LEAVE'', 8, 117), (''GOVERN_REPLACE'', 8, 96),
     (''GOVERN_OFFLIEN_GAIN'', 8, 97), (''GOVERN_SPEEDUP'', 8, 98), (''GOVERN_INFO'', 8, 99),
     (''GOVERN_ONLINE_GAIN'', 8, 100), (''BATTLE_AWARD'', 8, 130), (''CLAN_BATTLE_JOIN'', 8, 160),
     (''CLAN_BATTLE_ADDFIGHTER'', 8, 161), (''CLAN_BATTLE_MOVEFIGHTER'', 8, 162),
     (''CLAN_BATTLE_CANCELFIGHTER'', 8, 163), (''CLAN_BATTLE_ORDERS'', 8, 164),
     (''CLAN_BATTLE_COMMENTS'', 8, 165), (''CLAN_BATTLE_REPORT'', 8, 166), (''CLAN_BATTLE_INFO'', 8, 167),
     (''CLAN_BATTLE_REPORTList'', 8, 168), (''CLAN_BATTLE_RANK'', 8, 169),
     (''CLAN_BATTLE_RESULTINFO'', 8, 170), (''CLAN_BATTLE_SELFINFO'', 8, 171),
     (''CLAN_BATTLE_PROCESS'', 8, 172), (''EXPLOIT_REPLACE_FIGHTER'', 8, 176),
     (''EXPLOIT_COLLECT'', 8, 177), (''EXPLOIT_SPEEDUP'', 8, 178), (''EXPLOIT_GRADEUP'', 8, 179),
     (''EXPLOIT_INFO'', 8, 180), (''STOREA_INFO'', 8, 192), (''STOREA_FRESH'', 8, 193),
     (''STOREA_BUY'', 8, 194), (''STOREA_AUTO_FRESH'', 8, 195), (''QUIET_INFO'', 8, 208)]"

definition req_ids_2 :: id_table where
  "req_ids_2 =
    [(''QUIET_PUTFIGHTER'', 8, 209), (''QUIET_SPEEDUP'', 8, 210), (''QUIET_GET'', 8, 211),
     (''QUIET_GRADEUP'', 8, 212), (''KEEP_ALIVE'', 8, 0), (''RECONNECT'', 8, 1), (''HEROMEMO'', 8, 6),
     (''CFRIEND'', 8, 7), (''OFFLINEEXP'', 8, 8), (''TOKEN'', 8, 9), (''RC7DAY'', 8, 11),
     (''SSAWARD'', 8, 12), (''USESOUL'', 8, 13), (''SVRST'', 8, 17), (''YBBUF'', 8, 18),
     (''GETAWARD'', 8, 19), (''LUCKY_RANK'', 8, 20), (''COUNTRY_ACT'', 8, 27), (''NEWRC7DAY'', 8, 28),
     (''EXJOB'', 8, 29), (''JOBHUNTER'', 8, 30), (''AUTOJOBHUNTER'', 8, 42), (''DREAMER'', 8, 41),
     (''ACHIEVEMENT'', 8, 240), (''CAMPS_CHOICE'', 8, 241), (''RF7DAY'', 8, 21),
     (''STATE_CHANGE'', 8, 22), (''BOOK_LIST'', 8, 236), (''BOOK_BUY'', 8, 237),
     (''READ_BATTLE'', 8, 238), (''BATTLE_CHECK'', 8, 239), (''CHANGE_EQ'', 8, 208),
     (''HIRE_HERO'', 8, 209), (''HERO_INFO'', 8, 210), (''HOTEL_LIST'', 8, 211), (''FIRE_HERO'', 8, 212),
     (''ACCEPT_FIGHTER'', 8, 213), (''PACK_USE_OTHER'', 8, 215), (''ADD_HP'', 8, 222),
     (''POTENTIAL'', 8, 223), (''TRAIN_FIGHTER_OP'', 8, 55), (''PACK_INFO'', 8, 192),
     (''TEMPITEM_INFO'', 8, 250), (''MOFANG_INFO'', 8, 251), (''PACK_TRIPOD'', 8, 193),
     (''PACK_SELL'', 8, 194), (''PACK_USE'', 8, 195), (''PACK_EXTEND'', 8, 196), (''REWARD'', 8, 207),
     (''TRIPOD_INFO'', 8, 206), (''LUCKYDRAW_INFO'', 8, 61), (''LUCKYDRAW'', 8, 62),
     (''EQ_ENHANCE'', 8, 176), (''EQ_PUNCH'', 8, 177), (''EQ_EMBED'', 8, 178), (''EQ_UN_EMBED'', 8, 179),
     (''EQ_UN_SINGLE'', 8, 69), (''EQ_EXCHANGE'', 8, 70), (''EQ_PURIFY'', 8, 180),
     (''EQ_DECOMPOSE'', 8, 181), (''EQ_EXCHANGE_POS'', 8, 74), (''GEM_UPGRADE'', 8, 182),
     (''EQ_ACTIVE'', 8, 76), (''MAP_LOCATE'', 8, 160), (''MAP_TRANSPORT'', 8, 161),
     (''MODIFY_MOUNT'', 8, 170), (''BABEL_UPDATE'', 8, 171), (''BABEL_START'', 8, 172),
     (''BABEL_AUTO_START'', 8, 173), (''BABEL_END'', 8, 174), (''DAILY'', 8, 175)]"

definition req_ids_3 :: id_table where
  "req_ids_3 =
    [(''CAMPS_WAR_JOIN'', 8, 144), (''CAMPS_WAR_INFO'', 8, 145), (''NEW_CAMPS_WAR_JOIN'', 8, 43),
     (''COPY_DATA'', 8, 148), (''FORMATION_DATA'', 8, 149), (''AUTO_COPY'', 8, 150),
     (''AUTO_FRONTMAP'', 8, 152), (''FIGHT_REPORT'', 8, 154), (''TASK_HOOK'', 8, 157),
     (''TASK_HOOK_STOP'', 8, 158), (''TASK_HOOK_ADD'', 8, 159), (''LANCHCHALLENGE'', 8, 114),
     (''REQUESTCHALLENGE'', 8, 115), (''MARRYBOARD'', 8, 116), (''FIGHT_EXIT'', 8, 156),
     (''CLAN_BATTLE'', 8, 121), (''CLANCITYBATTLELIST'', 8, 122), (''DIALOG_START'', 8, 80),
     (''NPC_INTERACT'', 8, 81), (''CURR_TASK_LIST'', 8, 82), (''CURR_AVAILABLE_TASK'', 8, 83),
     (''TASK_ACTION'', 8, 84), (''CONVEYBATTLE'', 8, 136), (''COLLECTNPCACTION'', 8, 137),
     (''TASK_CYC_REFRESH'', 8, 87), (''ACT'', 8, 139), (''DAYTASKAUTOCOMPLETED'', 8, 140),
     (''AUTO_COMPLETED_TASK'', 8, 141), (''QUERYDAYTASK'', 8, 143), (''_CLAN_LIST'', 8, 96),
     (''CLAN_OPERATE'', 8, 100), (''CLAN_INFO_CHANGE'', 8, 101), (''CLAN_REQ_OTHER'', 8, 102),
     (''CLAN_PLAYER_LIST'', 8, 103), (''CLAN_SKILL'', 8, 105), (''CLAN_BUILD'', 8, 106),
     (''CLAN_PACKAGE'', 8, 107), (''CLAN_PACKAGE_RECORD'', 8, 108), (''CLAN_QQ'', 8, 109),
     (''FARIY_SPAR'', 8, 110), (''CLAN_SPIRIT_TREE'', 8, 111), (''CLANREWARD'', 8, 156),
     (''GET_CLANREWARD'', 8, 251), (''ALLOCATECLANREWARD'', 8, 158), (''CLANALLOCRECORD'', 8, 159),
     (''CLAN_COPY'', 8, 92), (''CLAN_FAIRYLAND'', 8, 93), (''BROTHER'', 8, 94), (''RACE_BATTLE'', 8, 74),
     (''ACTIVITY_REWARD'', 8, 75), (''ACTIVITY_SIGNIN'', 8, 76), (''STRENGTHEN_LIST'', 8, 77),
     (''SERVERWAR_ARENA_OP'', 8, 78), (''STORE_LIST'', 8, 220), (''STORE_BUY'', 8, 221),
     (''TRADE_DATA'', 8, 129), (''TRADE_LAUNCH'', 8, 130), (''TRADE_REPLY'', 8, 131),
     (''TRADE_OPERATE'', 8, 132)]"

definition req_ids_4 :: id_table where
  "req_ids_4 =
    [(''SALE_LIST'', 8, 133), (''SALE_SELL'', 8, 134), (''SALE_OP'', 8, 135), (''HERO_ISLAND'', 8, 151),
     (''NEWHERO_ISLAND'', 8, 166), (''OP_PWD'', 8, 205), (''PWD_QUESTION'', 8, 203),
     (''PWD_LOCK'', 8, 204), (''ARENA_INFO'', 8, 197), (''ATHLETICS_CHALLENGE'', 8, 198),
     (''ATHLETICS_REFRESH_MARTIAL'', 8, 199), (''ATHLETICS_GET_AWARD'', 8, 200),
     (''ATHLETICS_PAGING'', 8, 201), (''ATHLETICS_KILLCD'', 8, 202), (''ATTACK_BLOCKBOSS'', 8, 214),
     (''PLACE_INFO'', 8, 48), (''PRACTICE_PAGE_CHANGE'', 8, 49), (''PLACE_ROB'', 8, 50),
     (''PLACE_OCCUPY'', 8, 51), (''PRACTICE_START'', 8, 52), (''PRACTICE_STOP'', 8, 53),
     (''PRACTICE_HOOK_ADD'', 8, 54), (''WBOSSOPT'', 8, 58), (''SORT_LIST'', 8, 218),
     (''SORT_PERSON'', 8, 219), (''SERVER_ARENA_INFO'', 8, 234), (''SERVER_ARENA_LB'', 8, 235),
     (''SERVER_ARENA_EXTRA_ACT'', 8, 231), (''SERVER_ARENA_OP'', 8, 232), (''WHISPER'', 8, 33),
     (''FLAUNT'', 8, 35), (''BUG'', 8, 37), (''EXTEND_PROTOCAOL'', 8, 39), (''YD_GETPACKS'', 8, 45),
     (''YD_INFO'', 8, 46), (''YD_AWARD_RCV'', 8, 47), (''CLAN_RANKBATTLE_REQINIT'', 8, 89),
     (''CLAN_RANKBATTLE_REQ'', 8, 90), (''CLAN_RANKBATTLE_SORTLIST'', 8, 91),
     (''EQ_TRUMP_UPGRADE'', 8, 183), (''EQ_TRUMP_L_ORDER'', 8, 184), (''EQ_UPGRADE'', 8, 185),
     (''EQ_SPIRIT'', 8, 186), (''EQ_ACTIVATE'', 8, 187), (''EQ_MOVE'', 8, 188), (''EQ_LINGBAO'', 8, 189),
     (''EQ_DELUEGEM'', 8, 190), (''EQ_XINMO'', 8, 191), (''TEAM_COPY_REQ'', 8, 153),
     (''PET_TEAM_COPY'', 8, 118), (''MO_BAO'', 8, 120), (''DUOBAO_REQ'', 8, 126),
     (''KANGJITIANMO_REQ'', 8, 127), (''FIGHT_REPORT2'', 8, 15), (''COMPARE_BP'', 8, 167),
     (''FAIRY_PET'', 8, 168), (''TOWN_DEAMON'', 8, 169), (''SECOND_SOUL'', 8, 142),
     (''GUIDEUDP'', 8, 244), (''RP_SERVER'', 8, 254), (''FOURCOP'', 8, 31), (''NEWRELATION'', 8, 23),
     (''SKILLSTRENGTHEN'', 8, 24), (''TIANJIE'', 8, 25), (''ACTIVE'', 8, 139), (''SINGLE_HERO'', 8, 165),
     (''CLANBOSS'', 8, 248), (''CCB'', 8, 38), (''MARRYMGR'', 8, 117), (''MARRIEDMGR'', 8, 119),
     (''XJFRONTMAP'', 8, 230), (''COLLECTCARD'', 8, 95)]"

definition req_ids :: id_table where
  "req_ids = req_ids_1 @ req_ids_2 @ req_ids_3 @ req_ids_4"

definition rep_ids_1 :: id_table where
  "rep_ids_1 =
    [(''CHAT'', 8, 6), (''SIGN'', 8, 16), (''SIGN_INFO'', 8, 17), (''ENCHART'', 8, 32),
     (''ENCHARTSOLDIER'', 8, 33), (''ENCHART_CD'', 8, 34), (''PACKAGE_INFO'', 8, 48),
     (''FIND_FIGHTER'', 8, 49), (''FIND_INFO'', 8, 50), (''UP_FIGHTER'', 8, 51),
     (''BATTLE_ARENA'', 8, 131), (''FRIEND_LIST'', 8, 64), (''FRIEND_FIND'', 8, 65),
     (''FRIEND_APPLY'', 8, 66), (''FRIEND_ADD'', 8, 67), (''FRIEND_DELETE'', 8, 68),
     (''FRIEND_RECOMMAND'', 8, 69), (''FRIEND_BASEINFO'', 8, 70), (''MAIL'', 8, 80),
     (''MAIL_GET'', 8, 81), (''MAIL_DELETE'', 8, 82), (''MAIL_NOTICE'', 8, 82), (''MAIL_GET_ALL'', 8, 83),
     (''MAIL_DELETE_ALL'', 8, 84), (''GOVERN_REPLACE'', 8, 96), (''GOVERN_OFFLINE_GAIN'', 8, 97),
     (''GOVERN_SPEEDUP'', 8, 98), (''GOVERN_INFO'', 8, 99), (''GOVERN_ONLINE_GAIN'', 8, 100),
     (''CLAN_LIST'', 8, 112), (''CLAN_CREATE'', 8, 113), (''CLAN_OPTION'', 8, 115),
     (''CLAN_INFO'', 8, 114), (''BATTLE_AWARD'', 8, 130), (''CLAN_BATTLE_JOIN'', 8, 160),
     (''CLAN_BATTLE_ADDFIGHTER'', 8, 161), (''CLAN_BATTLE_MOVEFIGHTER'', 8, 162),
     (''CLAN_BATTLE_CANCELFIGHTER'', 8, 163), (''CLAN_BATTLE_ORDERS'', 8, 164),
     (''CLAN_BATTLE_COMMENTS'', 8, 165), (''CLAN_BATTLE_REPORT'', 8, 166), (''CLAN_BATTLE_INFO'', 8, 167),
     (''CLAN_BATTLE_REPORTList'', 8, 168), (''CLAN_APPLY'', 8, 116),
     (''EXPLOIT_REPLACE_FIGHTER'', 8, 176), (''EXPLOIT_COLLECT'', 8, 177), (''EXPLOIT_SPEEDUP'', 8, 178),
     (''EXPLOIT_GRADEUP'', 8, 179), (''EXPLOIT_INFO'', 8, 180), (''STOREA_INFO'', 8, 192),
     (''STOREA_FRESH'', 8, 193), (''STOREA_BUY'', 8, 194), (''STOREA_AUTO_FRESH'', 8, 195),
     (''QUIET_INFO'', 8, 208), (''QUIET_PUTFIGHTER'', 8, 209), (''QUIET_SPEEDUP'', 8, 210),
     (''QUIET_GET'', 8, 211), (''QUIET_GRADEUP'', 8, 212), (''KEEP_ALIVE'', 8, 0), (''RECONNECT'', 8, 1),
     (''ENTER_ARENA'', 8, 2), (''LINEUP_CHANGE'', 8, 3), (''NEXT_ARENA'', 8, 4), (''CHKMARK'', 8, 5),
     (''HEROMEMO'', 8, 6), (''CFRIEND'', 8, 7), (''OFFLINEEXP'', 8, 8), (''TOKEN'', 8, 9),
     (''ACHIEVEMENT'', 8, 240), (''CAMP_SELECT'', 8, 241), (''BE_DISCONNECT'', 8, 242),
     (''ALERT_MSG'', 8, 243), (''LOGIN'', 8, 224), (''NEW_CHARACTER'', 8, 225),
     (''USER_INFO_CHANGE'', 8, 227), (''CREATE_ACCOUNT'', 8, 229), (''IDENTIFY_ACCOUNT'', 8, 230),
     (''GMHAND'', 8, 239), (''WALLOW_VERIFY'', 8, 226)]"

definition rep_ids_2 :: id_table where
  "rep_ids_2 =
    [(''USER_INFO'', 8, 228), (''STATE_CHANGE'', 8, 22), (''RF7DAY'', 8, 21),
     (''BOOK_SHOP_LIST'', 8, 236), (''ARENAPRILIMINARY'', 8, 233), (''BOOK_SHOP_BUY'', 8, 237),
     (''RANK_DATA'', 8, 238), (''RANK_SETTING'', 8, 239), (''CHANGE_EQUIPMENT'', 8, 208),
     (''HOTEL_PUB_HIRE'', 8, 209), (''FIGHTER_INFO'', 8, 210), (''HOTEL_PUB_LIST'', 8, 211),
     (''FIGHTER_DISMISS'', 8, 212), (''FIGHTER_ACCEPT'', 8, 213), (''PACK_USE_OTHER'', 8, 215),
     (''PUB_LIST'', 8, 42), (''POTENCIAL'', 8, 223), (''TRAIN_FIGHTER_OP'', 8, 55),
     (''PACK_INFO'', 8, 192), (''MOFANG_INFO'', 8, 251), (''TEMPITEM_INFO'', 8, 250),
     (''PACK_USE'', 8, 195), (''PACK_EXTEND'', 8, 196), (''ATHLETICS_REFRESH_MARTIAL'', 8, 199),
     (''REWARD_DRAW'', 8, 207), (''TRIPOD_INFO'', 8, 206), (''LUCKYDRAW_INFO'', 8, 61),
     (''LUCKYDRAW'', 8, 62), (''LUCKYDRAW_OTH'', 8, 63), (''EQ_TO_STRONG'', 8, 176),
     (''EQ_TO_PUNCH'', 8, 177), (''EQ_EMBED'', 8, 178), (''EQ_UN_EMBED'', 8, 179),
     (''EQ_UN_SINGLE'', 8, 69), (''EQ_EXCHANGE'', 8, 70), (''EQ_PURIFY'', 8, 180),
     (''EQ_BATCH_DECOMPOSE'', 8, 181), (''EQ_EXCHANGE_POS'', 8, 74), (''GEM_BATCH_UPGRADE'', 8, 182),
     (''EQ_ACTIVE'', 8, 76), (''EQ_TRUMP_UPGRADE'', 8, 183), (''EQ_TRUMP_L_ORDER'', 8, 184),
     (''EQ_UPGRADE'', 8, 185), (''EQ_SPIRIT'', 8, 186), (''EQ_ACTIVATE'', 8, 187), (''EQ_MOVE'', 8, 188),
     (''EQ_LINGBAO'', 8, 189), (''EQ_DELUEGEM'', 8, 190), (''EQ_XINMO'', 8, 191),
     (''CITY_INSIDE_MOVE'', 8, 160), (''MAP_TRANSPORT'', 8, 161), (''MAP_TRANSPORT_UPDATE'', 8, 162),
     (''MAP_SAMPLEUSER'', 8, 163), (''MAP_POINT_JOIN'', 8, 164), (''MODIFY_MOUNT'', 8, 170),
     (''COPY_DATA_UPDATE'', 8, 171), (''COPY_FIGHT_RESULT'', 8, 172), (''COPY_AUTO_FIGHT'', 8, 173),
     (''COPY_END_FIGHT'', 8, 174), (''DAILY_DATA'', 8, 175), (''COUNTRY_WAR_JOIN'', 8, 144),
     (''COUNTRY_WAR_PROCESS'', 8, 145), (''COUNTRY_WAR_RESULT'', 8, 146),
     (''COUNTRY_WAR_STRING'', 8, 147), (''COPY_INFO'', 8, 148), (''FORMATTON_INFO'', 8, 149),
     (''AUTO_COPY'', 8, 150), (''AUTO_FRONTMAP'', 8, 152), (''FIGHT_START'', 8, 154),
     (''ATTACK_NPC'', 8, 155), (''TASK_RESPONSE_HOOK'', 8, 157), (''LANCHCHALLENGE'', 8, 114),
     (''REQUESTCHALLENGE'', 8, 115), (''MARRYBOARD'', 8, 116), (''CLAN_TECH'', 8, 120),
     (''CLAN_BATTLE'', 8, 121), (''CLAN_OPEN'', 8, 122), (''CLAN_BATTLE_END'', 8, 123),
     (''CLAN_DINFO_UPDATE'', 8, 125), (''DIALOG_START'', 8, 80), (''DIALOG_INTERACTION'', 8, 81),
     (''GET_TASK_LIST'', 8, 82), (''GET_USABLE_TASK'', 8, 83), (''PLAYER_ABANDON_TASK'', 8, 84),
     (''UPDATE_TASK_PROCESS'', 8, 85), (''NEW_TASK'', 8, 86), (''CONVEYBATTLE'', 8, 136),
     (''COLLECTNPCACTION'', 8, 137), (''TASK_CYC_STATE'', 8, 138), (''TASK_CYC_FRESH'', 8, 87),
     (''ACT'', 8, 139), (''AUTO_COMPLETED_TASK'', 8, 141), (''QUERYDAYTASK'', 8, 143),
     (''CLAN_REQ_LIST'', 8, 96), (''CLAN_JOIN_IN'', 8, 99), (''CLAN_MEMBER_OPERATE'', 8, 100),
     (''CLAN_INFO_CHANGE'', 8, 101), (''CLAN_REQ_ITEM'', 8, 102), (''CLAN_MEMBER_LIST'', 8, 103),
     (''CLAN_INFO_UPDATE'', 8, 104), (''CLAN_SKILL'', 8, 105), (''CLAN_BUILD'', 8, 106),
     (''CLAN_PACKAGE'', 8, 107), (''CLAN_PACKAGE_RECORD'', 8, 108), (''CLAN_QQ'', 8, 109),
     (''FARIY_SPAR'', 8, 110), (''CLAN_SPIRIT_TREE'', 8, 111), (''HERO_ISLAND'', 8, 151),
     (''NEWHERO_ISLAND'', 8, 166), (''CLANREWARD'', 8, 156), (''GET_CLANREWARD'', 8, 157),
     (''ALLOCATECLANREWARD'', 8, 158), (''CLANALLOCRECORD'', 8, 159), (''CLAN_COPY'', 8, 92),
     (''CLAN_FAIRYLAND'', 8, 93), (''BROTHER'', 8, 94), (''MAIL_ID_LIST'', 8, 64), (''MAIL_LIST'', 8, 65),
     (''MAIL_CONTENTS'', 8, 66), (''MAIL_SEND'', 8, 68), (''MAIL_NEW'', 8, 69), (''MAIL_CHANGE'', 8, 70)]"

definition rep_ids_3 :: id_table where
  "rep_ids_3 =
    [(''RACE_BATTLE'', 8, 74), (''ACTIVITY_REWARD'', 8, 75), (''ACTIVITY_SIGNIN'', 8, 76),
     (''STRENGTHEN_LIST'', 8, 77), (''SERVERWAR_ARENA_OP'', 8, 78), (''FRIEND_ACTION'', 8, 217),
     (''STORE_LIST'', 8, 220), (''STORE_BUY'', 8, 221), (''STORE_LIST_EXCHANGE'', 8, 222),
     (''STORE_DISLIMIT'', 8, 10), (''RC7DAY'', 8, 11), (''SSAWARD'', 8, 12), (''USESOUL'', 8, 13),
     (''SVRST'', 8, 17), (''YBBUF'', 8, 18), (''GETAWARD'', 8, 19), (''LUCKY_RANK'', 8, 20),
     (''COUNTRY_ACT'', 8, 27), (''NEWRC7DAY'', 8, 28), (''EXJOB'', 8, 29), (''JOBHUNTER'', 8, 30),
     (''AUTOJOBHUNTER'', 8, 42), (''DREAMER'', 8, 41), (''TRADE_LIST'', 8, 128), (''TRADE_DATA'', 8, 129),
     (''TRADE_LAUNCH'', 8, 130), (''TRADE_OPERATE'', 8, 132), (''SALE_LIST'', 8, 133),
     (''SALE_SELL'', 8, 134), (''OP_PWD'', 8, 205), (''SECOND_PWD'', 8, 203), (''PWD_DAILOG'', 8, 202),
     (''PWD_LOCK'', 8, 204), (''ARENA_IFNO'', 8, 197), (''FIGHT_INFO_CHANGE'', 8, 198),
     (''PRACTICE_PLACE_IFNO'', 8, 48), (''PRACTICE_PAGE'', 8, 49), (''PRACTICE_ROB'', 8, 50),
     (''PRACTICE_OCCUPY'', 8, 51), (''PRACTICE_START'', 8, 52), (''PRACTICE_STOP'', 8, 53),
     (''PRACTICE_HOOK_ADD'', 8, 54), (''WBOSSOPT'', 8, 58), (''SORT_LIST'', 8, 218),
     (''SORT_PERSONAL'', 8, 219), (''SERVER_ARENA_INFO'', 8, 234), (''SERVER_ARENA_LB'', 8, 235),
     (''CHAT_PRIVATE'', 8, 33), (''FLAUNT_GOOD'', 8, 35), (''SYSTEM_INFO'', 8, 36), (''BUG_INFO'', 8, 37),
     (''EXTEND_PROTOCAOL'', 8, 39), (''YD_GETPACKS'', 8, 45), (''YD_INFO'', 8, 46),
     (''YD_AWARD_RCV'', 8, 47), (''NEW_CAMPS_WAR_JOIN'', 8, 43), (''SERVER_ARENA_EXTRA_ACT'', 8, 231),
     (''SERVER_ARENA_OP'', 8, 232), (''ATHLETICS_CHALLENGE'', 8, 245), (''WINSTREAK'', 8, 246),
     (''GETBOX'', 8, 247), (''BLOCKBOSS'', 8, 249), (''CLANBOSS'', 8, 248),
     (''CLAN_RANKBATTLE_REPINIT'', 8, 89), (''CLAN_RANKBATTLE_REP'', 8, 90),
     (''CLAN_RANKBATTLE_SORTLIST'', 8, 91), (''TEAM_COPY_REQ'', 8, 153), (''PET_TEAM_COPY'', 8, 118),
     (''MO_BAO'', 8, 120), (''DUOBAO_REP'', 8, 126), (''KANGJITIANMO_REP'', 8, 127),
     (''FIGHT_REPORT2'', 8, 15), (''SYSDAILOG'', 8, 14), (''COMPARE_BP'', 8, 167),
     (''FAIRY_PET'', 8, 168), (''TOWN_DEAMON'', 8, 169), (''SECOND_SOUL'', 8, 142),
     (''RP_SERVER'', 8, 254), (''FOURCOP'', 8, 31), (''NEWRELATION'', 8, 23),
     (''SKILLSTRENGTHEN'', 8, 24), (''TIANJIE'', 8, 25), (''ACTIVE'', 8, 139), (''SINGLE_HERO'', 8, 165),
     (''CCB'', 8, 38), (''MARRYMGR'', 8, 117), (''MARRIEDMGR'', 8, 119), (''XJFRONTMAP'', 8, 230),
     (''COLLECTCARD'', 8, 95)]"

definition rep_ids :: id_table where
  "rep_ids = rep_ids_1 @ rep_ids_2 @ rep_ids_3"

definition speq_ids :: id_table where
  "speq_ids =
    [(''SOCK_ADDR'', 8, 2), (''PLAYERIDAUTH'', 8, 252), (''WORLDANNOUNCE'', 8, 253),
     (''USERRECHARGE'', 16, 261), (''KILLUSER'', 16, 260), (''LOCKUSER'', 16, 256),
     (''UNLOCKUSER'', 16, 257), (''GMHANDLERFROMBS'', 16, 258), (''MAILFROMBS'', 16, 263),
     (''BANCHATFROMBS'', 16, 259), (''ADDITEMFROMBS'', 16, 264), (''BATTLEREPORT'', 16, 262),
     (''RERECHARGE'', 16, 265), (''ONLINE'', 16, 266), (''SETLEVEL'', 16, 267),
     (''ADDITEMTOALL'', 16, 268), (''SETPROPS'', 16, 269), (''SETMONEY'', 16, 270),
     (''LOADLUA'', 16, 271), (''SETVIPL'', 16, 272), (''CLSTASK'', 16, 273), (''SALE_ONOFF'', 16, 274),
     (''PLAYERINFO'', 16, 275), (''WBOSS'', 16, 276), (''ONLINEPF'', 16, 277),
     (''ADDITEMFROMBSBYID'', 16, 278), (''ADDFIGHTER'', 16, 279), (''GETMONEY'', 16, 280),
     (''SYSDAILOG'', 16, 281), (''PWDINFO'', 16, 282), (''PWDRESET'', 16, 283), (''MAILVIP'', 16, 284),
     (''JASON'', 16, 285), (''CFRIEND'', 16, 286), (''ADDITEMFROMBSBYCOUNTRY'', 16, 287),
     (''GMCMD'', 16, 288), (''ADDDISCOUNT'', 16, 289), (''QUERYDISCOUNT'', 16, 290),
     (''CLEARDISCOUNT'', 16, 291), (''REALAWARDINFO'', 16, 292), (''ADDREALAWARD'', 16, 293),
     (''ADDCLANAWARD'', 16, 296), (''MANUALOPENTJ'', 16, 297), (''SHSTAGEONOFF'', 16, 304),
     (''QUERYSHSTAGEONOFF'', 16, 305), (''BIGLOCKUSER'', 16, 306), (''BIGUNLOCKUSER'', 16, 307),
     (''CLSTASKALL'', 16, 308), (''FORBIDSALE'', 16, 309), (''UNFORBIDSALE'', 16, 310),
     (''QUERYLOCKUSER'', 16, 311), (''SETLOGINLIMIT'', 16, 312), (''DELETEGOLD'', 16, 313),
     (''ADDRECHARGESCORE'', 16, 320), (''SYSUPDATE'', 16, 321), (''FB_SPECIFY_FIND'', 16, 322),
     (''ACTIVITYONOFF'', 16, 323), (''QUERYACTIVITYONOFF'', 16, 324), (''OPENCB'', 16, 325),
     (''TOTALRECHARGEACT'', 16, 326), (''SETTOTALRECHARGEACT'', 16, 327), (''SETMAXNEWUSER'', 16, 328),
     (''GETMAXNEWUSER'', 16, 329), (''SETRECHARGERANK'', 16, 330), (''OFFQQOPENID'', 16, 331),
     (''GETQQCLANTALK'', 16, 332), (''SETVAR'', 16, 333), (''VIAPLAYERINFO'', 16, 334),
     (''SETMARRYBOARD'', 16, 335), (''WORLDCUP'', 16, 337)]"

definition spep_ids :: id_table where
  "spep_ids =
    [(''LOCKUSER'', 8, 0), (''UNLOCKUSER'', 8, 1), (''GMHANDLERFROMBS'', 8, 2), (''USERRECHARGE'', 8, 5),
     (''MAILFROMBS'', 8, 7), (''BANCHATFROMBS'', 8, 3), (''ADDITEMFROMBS'', 8, 8), (''RERECHARGE'', 8, 9),
     (''ONLINE'', 8, 10), (''SETLEVEL'', 8, 11), (''ADDITEMTOALL'', 8, 12), (''SETPROPS'', 8, 13),
     (''SETMONEY'', 8, 14), (''LOADLUA'', 8, 15), (''SETVIPL'', 8, 16), (''CLSTASK'', 8, 17),
     (''PLAYERIDAUTH'', 8, 252), (''SALE_ONOFF'', 8, 18), (''PLAYERINFO'', 8, 19), (''WBOSS'', 8, 20),
     (''ONLINEPF'', 8, 21), (''ADDITEMFROMBSBYID'', 8, 22), (''ADDFIGHTER'', 8, 23),
     (''GETMONEY'', 8, 24), (''PWDINFO'', 8, 26), (''PWDRESET'', 8, 27), (''MAILVIP'', 8, 28),
     (''JASON'', 8, 29), (''CFRIEND'', 8, 30), (''ADDITEMFROMBSBYCOUNTRY'', 8, 31), (''GMCMD'', 8, 32),
     (''ADDDISCOUNT'', 8, 33), (''CLEARDISCOUNT'', 8, 35), (''REALAWARDINFO'', 8, 36),
     (''ADDREALAWARD'', 8, 37), (''ADDCLANAWARD'', 8, 40), (''MANUALOPENTJ'', 8, 41),
     (''SHSTAGEONOFF'', 8, 48), (''QUERYSHSTAGEONOFF'', 8, 49), (''BIGLOCKUSER'', 8, 50),
     (''BIGUNLOCKUSER'', 8, 51), (''CLSTASKALL'', 8, 52), (''FORBIDSALE'', 8, 53),
     (''UNFORBIDSALE'', 8, 54), (''QUERYLOCKUSER'', 8, 55), (''SETLOGINLIMIT'', 8, 56),
     (''DELETEGOLD'', 8, 57), (''ADDRECHARGESCORE'', 8, 64), (''SYSUPDATE'', 8, 65),
     (''FB_SPECIFY_FIND'', 8, 66), (''ACTIVITYONOFF'', 8, 67), (''QUERYACTIVITYONOFF'', 8, 68),
     (''OPENCB'', 8, 69), (''TOTALRECHARGEACT'', 8, 70), (''SETTOTALRECHARGEACT'', 8, 71),
     (''SETMAXNEWUSER'', 8, 72), (''GETMAXNEWUSER'', 8, 73), (''SETRECHARGERANK'', 8, 74),
     (''OFFQQOPENID'', 8, 75), (''GETQQCLANTALK'', 8, 76), (''SETVAR'', 8, 77),
     (''VIAPLAYERINFO'', 8, 78), (''SETMARRYBOARD'', 8, 79), (''WORLDCUP'', 8, 81)]"

definition arenareq_ids :: id_table where
  "arenareq_ids =
    [(''REG'', 8, 1), (''ENTER'', 8, 2), (''COMMIT_LINEUP'', 8, 3), (''RECHARGE_ACTIVE'', 8, 6),
     (''BET'', 8, 7), (''BATTLE_REPORT'', 8, 8), (''TEAMARENA_ENTER'', 8, 16),
     (''TEAMARENA_LINEUP'', 8, 17), (''TEAMARENA_INSPIRE'', 8, 18)]"

definition serverwarreq_ids :: id_table where
  "serverwarreq_ids =
    [(''REG'', 8, 1), (''ENTER'', 8, 2), (''COMMIT_LINEUP'', 8, 3), (''BET'', 8, 4),
     (''BATTLE_REPORT'', 8, 5), (''RECHARGE_ACTIVE'', 8, 6), (''SAY_TO_WORLD'', 8, 7),
     (''ARENA_TO_SERVERWAR'', 8, 16)]"

definition clan_copy_ids :: id_table where
  "clan_copy_ids =
    [(''CLAN_COPY_TAB_INFO'', 32, 1), (''CLAN_COPY_BROAD_CAST'', 32, 2),
     (''CLAN_COPY_MEMBER_LIST_OP'', 32, 3), (''CLAN_COPY_BATTLE'', 32, 4)]"

definition serverleftreq_ids :: id_table where
  "serverleftreq_ids =
    [(''REG'', 8, 1), (''ENTER'', 8, 2), (''COMMIT_LINEUP'', 8, 3), (''BET'', 8, 4),
     (''BATTLE_REPORT'', 8, 5), (''LEFTADDR_INFO'', 8, 6), (''LEFTADDR_SWITCHPLAYER'', 8, 7),
     (''LEFTADDR_POWERHOLD'', 8, 8), (''ARENA_TO_SERVERWAR'', 8, 16)]"

definition id_of :: "id_table \<Rightarrow> string \<Rightarrow> int" where
  "id_of t name = snd (the (map_of t name))"

definition fits_type :: "id_table \<Rightarrow> bool" where
  "fits_type t = list_all (\<lambda>(n, w, v). 0 \<le> v \<and> v < 2 ^ w) t"

definition ids :: "id_table \<Rightarrow> int list" where
  "ids t = map (\<lambda>(n, w, v). v) t"

definition names_of :: "id_table \<Rightarrow> int \<Rightarrow> string list" where
  "names_of t v = map fst (filter (\<lambda>(n, w, x). x = v) t)"

section \<open>Properties\<close>

lemmas id_tables = req_ids_def req_ids_1_def req_ids_2_def req_ids_3_def req_ids_4_def rep_ids_def rep_ids_1_def
  rep_ids_2_def rep_ids_3_def speq_ids_def spep_ids_def arenareq_ids_def serverwarreq_ids_def serverleftreq_ids_def
  clan_copy_ids_def

text \<open>Every constant is within its type.\<close>

lemma ids_fit:
  "fits_type req_ids" "fits_type rep_ids" "fits_type speq_ids" "fits_type spep_ids" "fits_type arenareq_ids"
  "fits_type serverwarreq_ids" "fits_type serverleftreq_ids" "fits_type clan_copy_ids"
  by (simp_all add: fits_type_def id_tables)

text \<open>Many names of client requests share a number: these two numbers are three and two requests.\<close>

lemma requests_share_numbers:
  "names_of req_ids 0x52 = [''MAIL_DELETE'', ''MAIL_NOTICE'', ''CURR_TASK_LIST'']"
  "names_of req_ids 0xD0 = [''QUIET_INFO'', ''CHANGE_EQ'']"
  by code_simp+

lemma requests_not_distinct: "\<not> distinct (ids req_ids)" by code_simp

text \<open>The numbers in the other tables are told apart.\<close>

lemma speq_distinct: "distinct (ids speq_ids)" by code_simp
lemma spep_distinct: "distinct (ids spep_ids)" by code_simp

lemma war_ids_distinct:
  "distinct (ids arenareq_ids)" "distinct (ids serverwarreq_ids)" "distinct (ids serverleftreq_ids)"
  "distinct (ids clan_copy_ids)"
  by code_simp+

end
