(* ===== verification/IdGen.thy ===== *)
theory IdGen
  imports Prelude
begin

text \<open>
  The atomic counter of \<^verbatim>\<open>Common/AtomicVal.h\<close> as it is on Linux, for values of 32 bits, and the generators of
  object identifiers of \<^verbatim>\<open>Server/OidGenerator.h\<close> made of it.  The counter is kept in a \<^verbatim>\<open>size_t\<close> of 64 bits, and
  every operation of the counter is one step, except the assignment, which is a loop of compare-and-swap; the
  operations of the generators are made of several such steps.
\<close>

section \<open>The counter\<close>

type_synonym atomic_val = u64

definition av_new :: "u32 \<Rightarrow> atomic_val" where "av_new v = ucast v"

definition av_value :: "atomic_val \<Rightarrow> u32" where "av_value a = ucast a"

text \<open>The assignment loads the old value and swaps the new one in if the old one is still there.  \<open>others\<close> are the
  values the counter has in between when other threads run; the loop ends in the first round in which the old
  value is found again.\<close>

fun av_assign :: "u32 \<Rightarrow> (atomic_val \<times> atomic_val) list \<Rightarrow> atomic_val option" where
  "av_assign v [] = None"
| "av_assign v ((old, now) # rounds) = (if now = old then Some (ucast v) else av_assign v rounds)"

definition av_pre_inc :: "atomic_val \<Rightarrow> u32 \<times> atomic_val" where
  "av_pre_inc a = (ucast (a + 1), a + 1)"

definition av_post_inc :: "atomic_val \<Rightarrow> u32 \<times> atomic_val" where
  "av_post_inc a = (ucast a, a + 1)"

definition av_pre_dec :: "atomic_val \<Rightarrow> u32 \<times> atomic_val" where
  "av_pre_dec a = (ucast (a - 1), a - 1)"

definition av_post_dec :: "atomic_val \<Rightarrow> u32 \<times> atomic_val" where
  "av_post_dec a = (ucast a, a - 1)"

text \<open>These two return the value before, unlike the operators of the language.\<close>

definition av_add :: "u32 \<Rightarrow> atomic_val \<Rightarrow> u32 \<times> atomic_val" where
  "av_add n a = (ucast a, a + ucast n)"

definition av_sub :: "u32 \<Rightarrow> atomic_val \<Rightarrow> u32 \<times> atomic_val" where
  "av_sub n a = (ucast a, a - ucast n)"

section \<open>The generators\<close>

datatype id_gen =
    PlayerIDGen | ItemIDGen | ChatFgtIDGen | MailIDGen | SalesIDGen | BattleIDGen | ClanIDGen | TradeIDGen | SaleIDGen
  | AthleticsRecordIDGen | AthleticsEventIDGen | ClanBatterRecordIDGen | TeamArenaIDGen | SeedIDGen | CardIDGen

text \<open>The first value of each; the seed generator starts at the time.\<close>

fun start_id :: "u32 \<Rightarrow> id_gen \<Rightarrow> u32" where
  "start_id now ItemIDGen = 30000"
| "start_id now ChatFgtIDGen = 0x1000"
| "start_id now SeedIDGen = now"
| "start_id now _ = 0"

definition gen_id :: "u32 \<Rightarrow> id_gen \<Rightarrow> atomic_val \<Rightarrow> u32 \<times> atomic_val" where
  "gen_id now g a =
     (if g = SeedIDGen then let a' = snd (av_add now a) in (av_value a', a') else av_pre_inc a)"

text \<open>\<^verbatim>\<open>setMaxID\<close> without another thread in between.\<close>

definition set_max_id :: "u32 \<Rightarrow> atomic_val \<Rightarrow> atomic_val" where
  "set_max_id i a = (if av_value a < i then ucast i else a)"

primrec gen_ids :: "nat \<Rightarrow> atomic_val \<Rightarrow> u32 list \<times> atomic_val" where
  "gen_ids 0 a = ([], a)"
| "gen_ids (Suc n) a =
     (case av_pre_inc a of (i, a') \<Rightarrow> case gen_ids n a' of (is, a'') \<Rightarrow> (i # is, a''))"

section \<open>Fresh identifiers\<close>

lemma ucast_add_nat: "(ucast (a + of_nat n :: u64) :: u32) = ucast a + of_nat n"
proof -
  have "unat (a + of_nat n) mod 2 ^ 32 = (unat a + n) mod 2 ^ 32"
    by (simp add: unat_word_ariths unat_of_nat mod_mod_cancel mod_add_right_eq mod_simps)
  then have "take_bit 32 (unat (a + of_nat n)) = take_bit 32 (unat a + n)" by (simp add: take_bit_eq_mod)
  then have "(of_nat (unat (a + of_nat n)) :: u32) = of_nat (unat a + n)"
    by (intro word_of_nat_eq_iff [THEN iffD2]) simp
  then show ?thesis by (simp only: of_nat_add of_nat_unat)
qed

lemma ucast_up_down: "(ucast (ucast (i :: u32) :: u64) :: u32) = i"
proof -
  have "unat i < 2 ^ 64" using unsigned_less [of i, where 'a = nat] by simp
  then have "(ucast (of_nat (unat i) :: u64) :: u32) = of_nat (unat i)"
    using take_bit_nat_eq_self [of "unat i" 64] unsigned_of_nat [of "unat i", where 'b = 64 and 'a = u32] by simp
  then show ?thesis by simp
qed

lemma gen_ids_value: "fst (gen_ids n a) = map (\<lambda>i. ucast a + of_nat (Suc i)) [0 ..< n]"
proof (induction n arbitrary: a)
  case (Suc n)
  have "(ucast (a + 1) :: u32) = ucast a + 1" using ucast_add_nat [of a 1] by simp
  then have "fst (gen_ids (Suc n) a) = (ucast a + 1) # map (\<lambda>i. ucast a + 1 + of_nat (Suc i)) [0 ..< n]"
    using Suc [of "a + 1"] by (simp add: av_pre_inc_def case_prod_beta)
  then show ?case
    by (simp add: upt_conv_Cons map_Suc_upt [symmetric] comp_def add.assoc del: upt_Suc)
qed simp

text \<open>With another thread between the test and the assignment of \<^verbatim>\<open>setMaxID\<close>, an identifier is given out twice: the
  loader sees 5 below 6, the other thread draws 6 and 7, the loader stores 6, and the next one drawn is 7 again.\<close>

lemma set_max_id_race:
  "av_value (av_new 5) < 6 \<and>
   fst (gen_ids 2 (av_new 5)) = [6, 7] \<and> fst (gen_ids 1 (the (av_assign 6 [(7, 7)]))) = [7]"
  by code_simp

section \<open>Properties\<close>

text \<open>Identifiers drawn one after the other from a generator, at most two to the 32 of them, are all different,
  and none of them is the value the counter had; after \<^verbatim>\<open>Init\<close> with the largest identifier in use they are all
  above it, as long as there is no overflow.\<close>

theorem gen_ids_fresh:
  assumes "n < 2 ^ 32"
  shows "distinct (fst (gen_ids n a)) \<and> av_value a \<notin> set (fst (gen_ids n a)) \<and>
    (unat i + n < 2 ^ 32 \<longrightarrow> av_value a \<le> i \<longrightarrow> (\<forall>j \<in> set (fst (gen_ids n (set_max_id i a))). i < j))"
proof (intro conjI impI ballI)
  have inj: "inj_on (\<lambda>k. (ucast a :: u32) + of_nat (Suc k)) {0 ..< n}"
  proof (rule inj_onI)
    fix x y
    assume xy: "x \<in> {0 ..< n}" "y \<in> {0 ..< n}" "(ucast a :: u32) + of_nat (Suc x) = ucast a + of_nat (Suc y)"
    then have "(of_nat x :: u32) = of_nat y" by simp
    then have "unat (of_nat x :: u32) = unat (of_nat y :: u32)" by simp
    then show "x = y" using xy(1,2) assms by (simp add: unat_of_nat)
  qed
  then show "distinct (fst (gen_ids n a))" by (simp add: gen_ids_value distinct_map)
  show "av_value a \<notin> set (fst (gen_ids n a))"
  proof
    assume "av_value a \<in> set (fst (gen_ids n a))"
    then obtain k where k: "k < n" "(ucast a :: u32) = ucast a + of_nat (Suc k)"
      by (auto simp: gen_ids_value av_value_def)
    then have "(of_nat (Suc k) :: u32) = 0" by (metis add_cancel_right_right)
    then have "unat (of_nat (Suc k) :: u32) = 0" by simp
    then show False using k(1) assms by (simp add: unat_of_nat del: of_nat_Suc)
  qed
  fix j
  assume s: "unat i + n < 2 ^ 32" "av_value a \<le> i" "j \<in> set (fst (gen_ids n (set_max_id i a)))"
  have "av_value (set_max_id i a) = i"
    using s(2) by (auto simp: set_max_id_def av_value_def ucast_up_down)
  then obtain k where k: "k < n" "j = i + of_nat (Suc k)"
    using s(3) by (auto simp: gen_ids_value av_value_def)
  have "unat j = unat i + Suc k" using k s(1) by (simp add: unat_word_ariths unat_of_nat del: of_nat_Suc)
  then show "i < j" by (simp add: word_less_nat_alt)
qed

lemma gen_ids_fresh_witness:
  "distinct (fst (gen_ids 100 (av_new 30000))) \<and> av_value (av_new 30000) \<notin> set (fst (gen_ids 100 (av_new 30000))) \<and>
   list_all (\<lambda>j. 40000 < j) (fst (gen_ids 100 (set_max_id 40000 (av_new 30000))))"
  using gen_ids_fresh [of 100 "av_new 30000" 40000] by (simp add: av_value_def av_new_def list_all_iff)

end
