(* ===== verification/Ground.thy ===== *)
theory Ground
  imports ByteStream MsgIds IdGen
begin

text \<open>
  The board of a battle: the data of \<^verbatim>\<open>BattleGround.h\<close> and the coordinate routines of
  \<^verbatim>\<open>BattleGround.cpp\<close>.  The board is a grid of hexagons stored row by row; odd rows are
  shifted half a cell to the right.  \<open>convert_converstion\<close> maps a cell to doubled
  coordinates, in which two cells are neighbours when they differ by \<open>(\<plusminus>2, 0)\<close> or
  \<open>(\<plusminus>1, \<plusminus>1)\<close>.

  Coordinates are \<^verbatim>\<open>UInt8\<close>, so \<open>x - 1\<close> wraps at the left edge; \<open>check_up\<close> is what
  drops the wrapped cells.  A \<^verbatim>\<open>BattleFighter\<close> is not in the repository: the model sees it
  through the values of its getters only, one field each, at an address (a \<open>nat\<close>) in the
  field \<open>heap\<close>.  Array reads outside the board are undefined in C++ and are \<open>None\<close>
  here, and so are reads outside the tables \<^verbatim>\<open>RideSub\<close> and \<^verbatim>\<open>priority\<close> and the read of the
  uninitialised loop variable of \<^verbatim>\<open>GetRideZone\<close>.  There is one exception: the search for a route reads
  the cost of every neighbouring cell before it looks whether the cell is an obstacle, so that on a board with
  obstacles nothing could be said of it.  For that one read, whose value is then thrown away
  (\<open>compute_route_ignores_stray\<close> in \<open>PathFinder\<close>), \<open>stray_ride\<close> gives the byte found outside the table.
\<close>

section \<open>Data\<close>

datatype ascoord = Ascoord (acx: u8) (acy: u8)

definition ascoord_add :: "ascoord \<Rightarrow> ascoord \<Rightarrow> ascoord" where
  "ascoord_add s p = Ascoord (acx s + acx p) (acy s + acy p)"

record node =
  nd_node :: ascoord
  nd_parent :: ascoord
  nd_g :: u8
  nd_h :: u8

record attack_info =
  ai_attack :: ascoord
  ai_target :: ascoord

record target_info =
  ti_bo :: nat
  ti_attack :: ascoord
  ti_cost :: u8
  ti_pri :: u8

record fighter_info =
  fi_owner :: "nat option"
  fi_fighterId :: u16
  fi_posx :: u8
  fi_posy :: u8
  fi_num :: u8

record bench_info =
  bi_x :: u8
  bi_y :: u8
  bi_listFighter :: "nat list"

definition bench_InsertFighter :: "bench_info \<Rightarrow> nat \<Rightarrow> bench_info" where
  "bench_InsertFighter b f = b\<lparr>bi_listFighter := bi_listFighter b @ [f]\<rparr>"

definition bench_GetFrontFighter :: "bench_info \<Rightarrow> nat option" where
  "bench_GetFrontFighter b = (case bi_listFighter b of [] \<Rightarrow> None | f # _ \<Rightarrow> Some f)"

definition bench_PopFrontFighter :: "bench_info \<Rightarrow> bench_info" where
  "bench_PopFrontFighter b =
     (case bi_listFighter b of [] \<Rightarrow> b | _ # fs \<Rightarrow> b\<lparr>bi_listFighter := fs\<rparr>)"

definition bench_GetFighterNum :: "bench_info \<Rightarrow> u16" where
  "bench_GetFighterNum b = of_nat (length (bi_listFighter b))"

text \<open>What the code reads of a \<^verbatim>\<open>BattleFighter\<close>, by getter.\<close>

record bfighter =
  bf_side :: u8
  bf_hp :: int
  bf_type :: u8
  bf_class :: u8
  bf_range :: u8
  bf_move :: u8
  bf_x :: u8
  bf_y :: u8
  bf_index :: u16
  bf_owner :: "nat option"
  bf_id :: u16
  bf_multi_kill :: int
  bf_soldiers :: "u8 \<Rightarrow> u32"
  bf_kills1 :: u32
  bf_kills2 :: u32
  bf_fighter_num :: u8
  bf_power :: u32
  bf_enter :: ascoord
  bf_fighter :: nat

text \<open>
  What the battle does to objects whose classes are not in the repository, one constructor for each call:
  players, fighters (\<^verbatim>\<open>GObject::Fighter\<close>), the distribution, the reports, the ownership of cities.  Two of the
  calls return something that the code uses; see \<open>game_env\<close>.
\<close>

record fgt_battle_info =
  fb_id :: u16
  fb_num :: u8
  fb_force :: u8
  fb_x :: u8
  fb_y :: u8
  fb_power :: u32
  fb_arms :: u8
  fb_mine :: bool
  fb_map :: u8
  fb_star :: u8
  fb_equip_level :: "u32 list"

datatype outcall =
    SetBattleId nat u32
  | SetBattleSide nat u8
  | SetArenaPos nat u16
  | SetFgtBattleInfo nat fgt_battle_info
  | SetBattleStatus nat u8
  | MoveFighter u8 nat u16 u8 u8 u8 u8
  | MoveNpc u32 u8 u16 u8 u8 u8 u8
  | UpdateMainFighterHP u32 u8 u64 u16 u8 u8 int
  | UpdateSoldiersHP u32 u8 u64 u16 u8 u8 "u32 list"
  | PutFighter u8 "nat option" u16 u8 u8
  | RemoveFighter u8 nat u16 u8 u8
  | RemoveNpc u32 u8 u16 u8 u8
  | AddKillFighterNum nat u32
  | AddKillSoldiersNum nat u32
  | AddKillFighter nat u16 u8 u32
  | AddKillSoldier nat u16 u8 u32
  | ConsumeCampaginFood nat u32
  | AddEndConstantlyKill nat u16 nat u16 u32
  | AddConstantlyKill nat u16 u32
  | AddBeKilledFighterNum nat
  | AddLoseInfo nat u16 "nat option" u16
  | SetOwnForce u32 u8 u8
  | SaveOwnForce u32 u32 u8 u8
  | AddReport u32 "u8 list"
  | InsertReport u32 u8 u16 u32 u32
  | SaveReport u32 u8 u16 u32 u32
  | SendTo nat "u8 list"
  | SendSelfInfo nat u8

text \<open>
  The fields of class \<^verbatim>\<open>BattleGround\<close>.  \<open>map_fighters\<close> holds pointers (\<open>None\<close> is
  \<^verbatim>\<open>NULL\<close>); \<open>std::map\<close> members are association lists sorted by key.
\<close>

record battle_ground =
  room_id :: u32
  g_x :: u8
  g_y :: u8
  map_id :: u8
  pre_info :: "(u8 \<times> fighter_info list) list"
  camp2pos :: "(u8 \<times> ascoord list) list"
  map_ground :: "u8 list"
  map_camp :: "u8 list"
  map_fighters :: "nat option list"
  num2pos :: "(u8 \<times> ascoord) list"
  camp2fighters :: "(u8 \<times> nat list) list"
  vec_target :: "target_info list"
  current_bf :: "nat option"
  max_ID :: u16
  round_id :: u16
  is_first_round :: bool
  one_round_cost_time :: u16
  is_set_capture :: bool
  is_npc :: bool
  set_player :: "nat option list"
  start_at :: ascoord
  end_at :: ascoord
  close_list :: "node list"
  open_list :: "node list"
  around_ascoord :: "ascoord list"
  list_bench :: "bench_info list"
  list_fighters :: "nat list"
  act_count :: u16
  map_max_fgt_num :: u8
  pack :: stream
  battle_num :: u32
  heap :: "nat \<Rightarrow> bfighter"
  next_bf :: nat
  calls :: "outcall list"
  oid_gen0 :: atomic_val
  stray_ride :: "int \<Rightarrow> int \<Rightarrow> u8"

text \<open>The constructor, before it calls \<^verbatim>\<open>InitMapFight\<close>.  The battle's number is drawn from the generator
  \<^verbatim>\<open>gBattleOidGenerator0\<close>, whose counter is \<open>gen\<close>; the last three arguments are the memory, with \<open>nb\<close> the first
  address at which no fighter has been created.\<close>

definition new_ground ::
  "u32 \<Rightarrow> u8 \<Rightarrow> atomic_val \<Rightarrow> (nat \<Rightarrow> bfighter) \<Rightarrow> nat \<Rightarrow> (int \<Rightarrow> int \<Rightarrow> u8) \<Rightarrow> battle_ground" where
  "new_ground room m gen hp nb sr =
     \<lparr>room_id = room, g_x = 0, g_y = 0, map_id = m, pre_info = [], camp2pos = [], map_ground = [],
      map_camp = [], map_fighters = [], num2pos = [], camp2fighters = [], vec_target = [],
      current_bf = None, max_ID = 0, round_id = 0, is_first_round = True, one_round_cost_time = 0,
      is_set_capture = False, is_npc = False, set_player = [], start_at = Ascoord 0 0, end_at = Ascoord 0 0,
      close_list = [], open_list = [], around_ascoord = [], list_bench = [], list_fighters = [],
      act_count = 0, map_max_fgt_num = 0, pack = stream_empty, battle_num = fst (gen_id 0 BattleIDGen gen),
      heap = hp, next_bf = nb, calls = [], oid_gen0 = snd (gen_id 0 BattleIDGen gen), stray_ride = sr\<rparr>"

text \<open>
  The map table, the players and the rest of the game are not in the repository: a \<open>game_env\<close> gives what
  the code reads of them.  \<open>ge_map\<close> is the record of a map id, if any, and \<open>ge_style\<close> a player's attack style;
  \<open>ge_info\<close> the bytes \<^verbatim>\<open>InsertFighterInfo\<close> appends to the report; \<open>ge_find\<close> and \<open>ge_global\<close> look up a
  \<^verbatim>\<open>GObject::Fighter\<close> by its number, of a player and among all; \<open>ge_create\<close> is
  \<^verbatim>\<open>BattleSimulator::CreateFighter\<close>.  What changes in the course of a battle may depend on the calls made
  before: \<open>ge_saved\<close> is the life saved for a fighter, \<open>ge_food\<close> the answer of \<^verbatim>\<open>ConsumeCampaginFood\<close>,
  \<open>ge_streak\<close> that of \<^verbatim>\<open>GetConstantlyKill\<close>, \<open>ge_own_force\<close> and \<open>ge_status\<close> the owner of a city and the
  battle of a room, \<open>ge_clans\<close> the clans of a room's forces, \<open>ge_now\<close> the time.
\<close>

record fighter_view =
  fv_id :: u16
  fv_type :: u8
  fv_owner :: "nat option"
  fv_power :: u32
  fv_star :: u8
  fv_var :: "nat \<Rightarrow> u32"

record map_info =
  mi_width :: u8
  mi_height :: u8
  mi_tiles :: "u8 list"
  mi_camps :: "u8 list"
  mi_direct :: "u8 \<Rightarrow> u8"
  mi_relive :: "bool list"
  mi_act_camp :: "u8 list"

record game_env =
  ge_map :: "u8 \<Rightarrow> map_info option"
  ge_style :: "nat \<Rightarrow> u32"
  ge_info :: "bfighter \<Rightarrow> bool \<Rightarrow> u8 list"
  ge_player_id :: "nat \<Rightarrow> u64"
  ge_find :: "nat \<Rightarrow> u16 \<Rightarrow> nat option"
  ge_global :: "u16 \<Rightarrow> nat option"
  ge_fighter :: "nat \<Rightarrow> fighter_view"
  ge_create :: "nat \<Rightarrow> u8 \<Rightarrow> u8 \<Rightarrow> bfighter option"
  ge_equips :: "nat list"
  ge_equip_classes :: "nat list"
  ge_power_up :: "u32 \<Rightarrow> bool"
  ge_saved :: "outcall list \<Rightarrow> u32 \<Rightarrow> u8 \<Rightarrow> u64 \<Rightarrow> u16 \<Rightarrow> u8 \<Rightarrow> u8 \<Rightarrow> (u32 \<times> u32 list) option"
  ge_food :: "outcall list \<Rightarrow> nat \<Rightarrow> bool"
  ge_streak :: "outcall list \<Rightarrow> nat \<Rightarrow> u16 \<Rightarrow> u32"
  ge_status :: "outcall list \<Rightarrow> u32 \<Rightarrow> u32 option"
  ge_own_force :: "outcall list \<Rightarrow> u32 \<Rightarrow> u8 \<Rightarrow> u8"
  ge_clans :: "outcall list \<Rightarrow> u32 \<Rightarrow> (u8 \<times> u32 list) list option"
  ge_clan_of :: "nat \<Rightarrow> u32 option"
  ge_clan_name :: "u32 \<Rightarrow> u8 list option"
  ge_now :: "outcall list \<Rightarrow> u32"

section \<open>Reading the board\<close>

definition cell_index :: "battle_ground \<Rightarrow> ascoord \<Rightarrow> nat" where
  "cell_index g p = unat (acx p) + unat (acy p) * unat (g_x g)"

definition ground_at :: "battle_ground \<Rightarrow> ascoord \<Rightarrow> u8 option" where
  "ground_at g p = nth_opt (map_ground g) (cell_index g p)"

definition fighter_at :: "battle_ground \<Rightarrow> ascoord \<Rightarrow> nat option option" where
  "fighter_at g p = nth_opt (map_fighters g) (cell_index g p)"

definition in_bounds :: "battle_ground \<Rightarrow> ascoord \<Rightarrow> bool" where
  "in_bounds g p \<longleftrightarrow> acx p < g_x g \<and> acy p < g_y g"

text \<open>What \<^verbatim>\<open>InitMapFight\<close> establishes: one entry per cell in each of the arrays.\<close>

definition wf_ground :: "battle_ground \<Rightarrow> bool" where
  "wf_ground g \<longleftrightarrow>
     length (map_ground g) = unat (g_x g) * unat (g_y g) \<and>
     length (map_camp g) = unat (g_x g) * unat (g_y g) \<and>
     length (map_fighters g) = unat (g_x g) * unat (g_y g)"

section \<open>Coordinate routines\<close>

definition convert_converstion :: "ascoord \<Rightarrow> ascoord" where
  "convert_converstion p =
     (if acy p mod 2 = 1 then Ascoord ((acx p + 1) * 2 - acy p mod 2) (acy p)
      else Ascoord (acx p * 2 - acy p mod 2) (acy p))"

definition is_in_attack_zone :: "battle_ground \<Rightarrow> nat \<Rightarrow> ascoord \<Rightarrow> ascoord \<Rightarrow> bool" where
  "is_in_attack_zone g c stand target =
     (let dis = uint (bf_range (heap g c));
          s = convert_converstion stand;
          t = convert_converstion target
      in if \<bar>uint (acy t) - uint (acy s)\<bar> > dis then False
         else \<bar>uint (acx t) - uint (acx s)\<bar> + \<bar>uint (acy t) - uint (acy s)\<bar> \<le> 2 * dis)"

definition enemy_can_attack :: "battle_ground \<Rightarrow> ascoord \<Rightarrow> ascoord \<Rightarrow> bool option" where
  "enemy_can_attack g stand target =
     do { f \<leftarrow> fighter_at g stand;
          case f of
            None \<Rightarrow> Some False
          | Some b \<Rightarrow>
              let attackDis = uint (bf_range (heap g b));
                  dx = uint (acx stand) - uint (acx target);
                  dy = uint (acy stand) - uint (acy target);
                  dis = (word_of_int (dx * dx + dy * dy) :: u8)
              in Some (uint dis \<le> attackDis * attackDis) }"

definition get_distance :: "ascoord \<Rightarrow> ascoord \<Rightarrow> u8" where
  "get_distance lp rp =
     (let lh = convert_converstion lp;
          rh = convert_converstion rp;
          j = (word_of_int \<bar>uint (acy lh) - uint (acy rh)\<bar> :: u8);
          downI = acx lh - j;
          upI = acx lh + j
      in if acx rh \<ge> downI \<and> acx rh \<le> upI then j - 1
         else if acx rh < downI then j + (downI - acx rh) div 2 - 1
         else j + (acx rh - upI) div 2 - 1)"

definition get_around :: "ascoord \<Rightarrow> ascoord list" where
  "get_around p =
     (let x = acx p; y = acy p
      in if y mod 2 = 0
         then [Ascoord (x - 1) y, Ascoord (x + 1) y, Ascoord (x - 1) (y + 1),
               Ascoord x (y + 1), Ascoord (x - 1) (y - 1), Ascoord x (y - 1)]
         else [Ascoord x (y - 1), Ascoord (x + 1) y, Ascoord (x + 1) (y - 1),
               Ascoord (x - 1) y, Ascoord x (y + 1), Ascoord (x + 1) (y + 1)])"

definition check_up :: "battle_ground \<Rightarrow> ascoord list \<Rightarrow> ascoord list" where
  "check_up g ps = filter (\<lambda>p. \<not> (acx p \<ge> g_x g \<or> acy p \<ge> g_y g)) ps"

definition is_in_around :: "battle_ground \<Rightarrow> ascoord \<Rightarrow> ascoord \<Rightarrow> bool" where
  "is_in_around g p t = list_ex (\<lambda>q. q = p) (check_up g (get_around t))"

section \<open>Enemies next to a cell\<close>

definition near_enemy_test :: "battle_ground \<Rightarrow> nat \<Rightarrow> ascoord \<Rightarrow> bool option" where
  "near_enemy_test g c p =
     do { t \<leftarrow> ground_at g p;
          if t = 0 then Some False
          else do { f \<leftarrow> fighter_at g p;
            case f of
              None \<Rightarrow> Some False
            | Some b \<Rightarrow>
                Some (if bf_side (heap g b) = bf_side (heap g c) then False
                      else if bf_hp (heap g b) \<le> 0 then False
                      else if b = c then False
                      else True) } }"

definition is_nearby_have_enemy :: "battle_ground \<Rightarrow> nat \<Rightarrow> ascoord \<Rightarrow> bool option" where
  "is_nearby_have_enemy g c p =
     exists_opt (near_enemy_test g c) (check_up g (get_around p))"

definition neighbour_keep :: "battle_ground \<Rightarrow> nat \<Rightarrow> ascoord \<Rightarrow> bool option" where
  "neighbour_keep g c p =
     do { t \<leftarrow> ground_at g p;
          if t = 0 then Some False
          else do { f \<leftarrow> fighter_at g p;
            case f of
              None \<Rightarrow> Some False
            | Some b \<Rightarrow>
                Some (if bf_side (heap g b) = bf_side (heap g c) then False
                      else if bf_hp (heap g b) \<le> 0 then False
                      else True) } }"

definition get_neighbour_enemy :: "battle_ground \<Rightarrow> nat \<Rightarrow> u8 \<Rightarrow> u8 \<Rightarrow> ascoord list option" where
  "get_neighbour_enemy g c x y =
     filter_opt (neighbour_keep g c) (check_up g (get_around (Ascoord x y)))"

section \<open>Distance on the board\<close>

text \<open>
  The reference notion the coordinate routines are compared with: \<open>hex_dist\<close>, the number of
  steps between two cells of the hexagonal board, computed on unbounded integers.
\<close>

lemma ascoord_eq_iff: "p = q \<longleftrightarrow> uint (acx p) = uint (acx q) \<and> uint (acy p) = uint (acy q)"
  by (cases p; cases q) (simp add: word_uint_eq_iff)

definition dbl_x :: "ascoord \<Rightarrow> int" where
  "dbl_x p = 2 * uint (acx p) + uint (acy p) mod 2"
definition hex_dist :: "ascoord \<Rightarrow> ascoord \<Rightarrow> int" where
  "hex_dist p q =
     (let dx = \<bar>dbl_x p - dbl_x q\<bar>; dy = \<bar>uint (acy p) - uint (acy q)\<bar>
      in max dy ((dx + dy) div 2))"

lemma in_bounds_uint: "in_bounds g p \<longleftrightarrow> uint (acx p) < uint (g_x g) \<and> uint (acy p) < uint (g_y g)"
  by (simp add: in_bounds_def word_less_def)
lemma get_around_uint:
  "q \<in> set (get_around p) \<longleftrightarrow>
     (let a = uint (acx p); b = uint (acy p); c = uint (acx q); d = uint (acy q);
          al = (a - 1) mod 256; ar = (a + 1) mod 256; bu = (b - 1) mod 256; bd = (b + 1) mod 256
      in if b mod 2 = 0
         then d = b \<and> (c = al \<or> c = ar) \<or> (d = bd \<or> d = bu) \<and> (c = al \<or> c = a)
         else d = b \<and> (c = al \<or> c = ar) \<or> (d = bd \<or> d = bu) \<and> (c = ar \<or> c = a))"
  unfolding get_around_def Let_def
  by (simp only: u8_even ascoord_eq_iff ascoord.sel uint_u8_minus1 uint_u8_plus1 if_distrib [of set]
        if_distrib [of "\<lambda>S. q \<in> S"] list.set insert_iff empty_iff)
     (simp; blast)

lemma around_arith:
  fixes a b c d :: int
  assumes "0 \<le> a" "a < 255" "0 \<le> b" "b < 255" "0 \<le> c" "c < 255" "0 \<le> d" "d < 255"
  shows "(let al = (a - 1) mod 256; ar = (a + 1) mod 256; bu = (b - 1) mod 256; bd = (b + 1) mod 256
      in if b mod 2 = 0
         then d = b \<and> (c = al \<or> c = ar) \<or> (d = bd \<or> d = bu) \<and> (c = al \<or> c = a)
         else d = b \<and> (c = al \<or> c = ar) \<or> (d = bd \<or> d = bu) \<and> (c = ar \<or> c = a)) \<longleftrightarrow>
     d = b \<and> (c = a - 1 \<or> c = a + 1) \<or>
     (d = b + 1 \<or> d = b - 1) \<and> (if b mod 2 = 0 then c = a \<or> c = a - 1 else c = a \<or> c = a + 1)"
proof -
  have l: "c = (a - 1) mod 256 \<longleftrightarrow> c = a - 1" "d = (b - 1) mod 256 \<longleftrightarrow> d = b - 1"
    using assms by (cases "a = 0"; cases "b = 0"; simp add: zmod_minus1)+
  have r: "(a + 1) mod 256 = a + 1" "(b + 1) mod 256 = b + 1"
    using assms by simp_all
  show ?thesis unfolding Let_def l r by auto
qed

lemma around_iff_raw:
  assumes "in_bounds g p"
  shows "q \<in> set (check_up g (get_around p)) \<longleftrightarrow> in_bounds g q \<and>
   (let a = uint (acx p); b = uint (acy p); c = uint (acx q); d = uint (acy q) in
    d = b \<and> (c = a - 1 \<or> c = a + 1) \<or>
    (d = b + 1 \<or> d = b - 1) \<and> (if b mod 2 = 0 then c = a \<or> c = a - 1 else c = a \<or> c = a + 1))"
proof -
  have in_set: "q \<in> set (check_up g (get_around p)) \<longleftrightarrow> in_bounds g q \<and> q \<in> set (get_around p)"
    by (auto simp: check_up_def in_bounds_def not_le)
  have lt: "in_bounds g r \<Longrightarrow> uint (acx r) < 255 \<and> uint (acy r) < 255" for r
    using uint_u8_bound(1) [of "g_x g"] uint_u8_bound(1) [of "g_y g"] unfolding in_bounds_uint by linarith
  show ?thesis
  proof (cases "in_bounds g q")
    case True
    have "q \<in> set (get_around p) \<longleftrightarrow>
      (let a = uint (acx p); b = uint (acy p); c = uint (acx q); d = uint (acy q) in
       d = b \<and> (c = a - 1 \<or> c = a + 1) \<or>
       (d = b + 1 \<or> d = b - 1) \<and> (if b mod 2 = 0 then c = a \<or> c = a - 1 else c = a \<or> c = a + 1))"
      unfolding get_around_uint using lt [OF True] lt [OF assms]
      by (subst Let_def, subst Let_def, subst Let_def, subst Let_def, subst around_arith)
         (simp_all add: Let_def)
    then show ?thesis by (simp only: in_set True simp_thms)
  qed (simp add: in_set)
qed

lemma hex_dist_raw:
  "hex_dist p q = max \<bar>uint (acy p) - uint (acy q)\<bar> ((\<bar>dbl_x p - dbl_x q\<bar> + \<bar>uint (acy p) - uint (acy q)\<bar>) div 2)"
  by (simp add: hex_dist_def Let_def)

lemma hex_parity: "even (\<bar>dbl_x p - dbl_x q\<bar> + \<bar>uint (acy p) - uint (acy q)\<bar>)"
  unfolding dbl_x_def by presburger

lemma hex_unit:
  "(0::int) \<le> X \<Longrightarrow> 0 \<le> Y \<Longrightarrow> even (X + Y) \<Longrightarrow>
   max Y ((X + Y) div 2) = 1 \<longleftrightarrow> Y = 0 \<and> X = 2 \<or> Y = 1 \<and> X = 1"
  by presburger

lemma hex_le:
  "(0::int) \<le> X \<Longrightarrow> 0 \<le> Y \<Longrightarrow> even (X + Y) \<Longrightarrow>
   max Y ((X + Y) div 2) \<le> n \<longleftrightarrow> Y \<le> n \<and> X + Y \<le> 2 * n"
  by presburger

lemma hex_dist_le:
  "hex_dist p q \<le> n \<longleftrightarrow> \<bar>uint (acy p) - uint (acy q)\<bar> \<le> n \<and>
     \<bar>dbl_x p - dbl_x q\<bar> + \<bar>uint (acy p) - uint (acy q)\<bar> \<le> 2 * n"
  unfolding hex_dist_raw using hex_parity [of p q] by (intro hex_le) simp_all

lemma hex_dist_1_dbl:
  "hex_dist p q = 1 \<longleftrightarrow> uint (acy p) = uint (acy q) \<and> \<bar>dbl_x p - dbl_x q\<bar> = 2 \<or>
     \<bar>uint (acy p) - uint (acy q)\<bar> = 1 \<and> \<bar>dbl_x p - dbl_x q\<bar> = 1"
  unfolding hex_dist_raw using hex_parity [of p q] by (subst hex_unit) simp_all

lemma hex_dist_1:
  "hex_dist p q = 1 \<longleftrightarrow>
     (let a = uint (acx p); b = uint (acy p); c = uint (acx q); d = uint (acy q) in
      d = b \<and> (c = a - 1 \<or> c = a + 1) \<or>
      (d = b + 1 \<or> d = b - 1) \<and> (if b mod 2 = 0 then c = a \<or> c = a - 1 else c = a \<or> c = a + 1))"
proof -
  define a b c d where "a = uint (acx p)" and "b = uint (acy p)" and "c = uint (acx q)" and "d = uint (acy q)"
  have "hex_dist p q = 1 \<longleftrightarrow> b = d \<and> \<bar>dbl_x p - dbl_x q\<bar> = 2 \<or> \<bar>b - d\<bar> = 1 \<and> \<bar>dbl_x p - dbl_x q\<bar> = 1"
    unfolding hex_dist_1_dbl b_def d_def ..
  also have "\<dots> \<longleftrightarrow> d = b \<and> (c = a - 1 \<or> c = a + 1) \<or>
      (d = b + 1 \<or> d = b - 1) \<and> (if b mod 2 = 0 then c = a \<or> c = a - 1 else c = a \<or> c = a + 1)"
    unfolding dbl_x_def a_def [symmetric] b_def [symmetric] c_def [symmetric] d_def [symmetric]
    by (cases "d = b"; cases "d = b + 1"; cases "d = b - 1"; cases "b mod 2 = 0") (simp_all; presburger)+
  finally show ?thesis by (simp add: a_def b_def c_def d_def Let_def)
qed

lemma hex_dist_sym: "hex_dist p q = hex_dist q p"
  by (simp add: hex_dist_raw abs_minus_commute)

lemma hex_dist_nonneg [simp]: "0 \<le> hex_dist p q"
  by (simp add: hex_dist_raw)

lemma around_iff:
  "in_bounds g p \<Longrightarrow> q \<in> set (check_up g (get_around p)) \<longleftrightarrow> in_bounds g q \<and> hex_dist p q = 1"
  by (simp only: around_iff_raw hex_dist_1)

lemma hex_dist_0: "hex_dist p q = 0 \<longleftrightarrow> p = q"
proof -
  have "hex_dist p q = 0 \<longleftrightarrow> hex_dist p q \<le> 0"
    using hex_dist_nonneg [of p q] by linarith
  also have "\<dots> \<longleftrightarrow> uint (acy p) = uint (acy q) \<and> dbl_x p = dbl_x q"
    unfolding hex_dist_le by auto
  also have "\<dots> \<longleftrightarrow> p = q"
    by (auto simp: dbl_x_def ascoord_eq_iff)
  finally show ?thesis .
qed

lemma hex_step_lower:
  assumes "hex_dist p r = 1" "hex_dist r q \<le> n"
  shows "hex_dist p q \<le> n + 1"
proof -
  have add: "Y \<le> n + 1 \<and> X + Y \<le> 2 * (n + 1)"
    if "Y \<le> Y1 + Y2" "X \<le> X1 + X2" "Y1 = 0 \<and> X1 = 2 \<or> Y1 = 1 \<and> X1 = 1" "Y2 \<le> n \<and> X2 + Y2 \<le> 2 * n"
    for X Y X1 Y1 X2 Y2 :: int
    using that by (auto simp: algebra_simps)
  have tri: "\<bar>a - c\<bar> \<le> \<bar>a - b\<bar> + \<bar>b - c\<bar>" for a b c :: int by linarith
  have "\<bar>uint (acy p) - uint (acy r)\<bar> = 0 \<and> \<bar>dbl_x p - dbl_x r\<bar> = 2 \<or>
        \<bar>uint (acy p) - uint (acy r)\<bar> = 1 \<and> \<bar>dbl_x p - dbl_x r\<bar> = 1"
    using assms(1) unfolding hex_dist_1_dbl by simp
  then show ?thesis
    using assms(2) unfolding hex_dist_le by (rule add [OF tri tri])
qed

lemma hex_step_arith:
  fixes y1 y2 x1 x2 n :: int
  assumes "\<bar>y1 - y2\<bar> \<le> n + 1" "\<bar>x1 - x2\<bar> + \<bar>y1 - y2\<bar> \<le> 2 * (n + 1)" "even (x1 + y1 + x2 + y2)" "x1 \<noteq> x2 \<or> y1 \<noteq> y2" "0 \<le> n"
  and "sy = sgn (y2 - y1)" "sx = (if y1 = y2 then 2 * sgn (x2 - x1) else if x1 = x2 then s0 else sgn (x2 - x1))" "s0 = 1 \<or> s0 = -1"
  shows "\<bar>y1 + sy - y2\<bar> \<le> n" "\<bar>x1 + sx - x2\<bar> + \<bar>y1 + sy - y2\<bar> \<le> 2 * n"
  using assms by (auto simp: sgn_if split: if_splits) presburger+

lemma hex_step_column:
  fixes a c m1 m2 mr rx sx :: int
  assumes "m1 = 0 \<or> m1 = 1" "m2 = 0 \<or> m2 = 1" "2 * rx + mr = 2 * a + m1 + sx"
    and "m2 = m1 \<and> mr = m1 \<and> sx = 2 * sgn (2 * c + m2 - (2 * a + m1)) \<or>
         mr = 1 - m1 \<and> sx = (if 2 * a + m1 = 2 * c + m2 then (if m1 = 0 then 1 else - 1)
                             else sgn (2 * c + m2 - (2 * a + m1)))"
  shows "min a c \<le> rx \<and> rx \<le> max a c"
proof -
  consider "2 * a + m1 < 2 * c + m2" | "2 * a + m1 = 2 * c + m2" | "2 * c + m2 < 2 * a + m1" by linarith
  then show ?thesis
    using assms by cases (elim disjE conjE; simp; linarith)+
qed

text \<open>From any other cell one step leads closer to \<open>q\<close> without leaving the board.\<close>

lemma hex_step_closer:
  assumes "in_bounds g p" "in_bounds g q" "hex_dist p q \<le> n + 1" "p \<noteq> q" "0 \<le> n"
  shows "\<exists>r \<in> set (check_up g (get_around p)). hex_dist r q \<le> n"
proof -
  define x1 y1 x2 y2 where "x1 = dbl_x p" and "y1 = uint (acy p)" and "x2 = dbl_x q" and "y2 = uint (acy q)"
  define s0 where "s0 = (if y1 mod 2 = 0 then 1 else -1 :: int)"
  define sy where "sy = sgn (y2 - y1)"
  define sx where "sx = (if y1 = y2 then 2 * sgn (x2 - x1) else if x1 = x2 then s0 else sgn (x2 - x1))"
  have W: "uint (acx p) < uint (g_x g)" "y1 < uint (g_y g)" "uint (acx q) < uint (g_x g)" "y2 < uint (g_y g)" "uint (g_x g) < 256" "uint (g_y g) < 256"
    using assms(1,2) by (simp_all add: in_bounds_uint y1_def y2_def)
  have ne: "x1 \<noteq> x2 \<or> y1 \<noteq> y2"
    using assms(4) by (auto simp: x1_def x2_def y1_def y2_def dbl_x_def ascoord_eq_iff)
  have ev: "even (x1 + y1 + x2 + y2)" unfolding x1_def x2_def y1_def y2_def dbl_x_def by presburger
  have close: "\<bar>y1 + sy - y2\<bar> \<le> n" "\<bar>x1 + sx - x2\<bar> + \<bar>y1 + sy - y2\<bar> \<le> 2 * n"
    by (rule hex_step_arith [OF _ _ ev ne assms(5) sy_def sx_def]; use assms(3) in \<open>simp add: hex_dist_le x1_def x2_def y1_def y2_def s0_def\<close>)+
  define ry where "ry = y1 + sy"
  define rx where "rx = (x1 + sx - ry mod 2) div 2"
  have x1e: "x1 = 2 * uint (acx p) + y1 mod 2" "x2 = 2 * uint (acx q) + y2 mod 2"
    by (simp_all add: x1_def x2_def y1_def y2_def dbl_x_def)
  have nn: "0 \<le> y1" "0 \<le> y2" "0 \<le> uint (acx p)" "0 \<le> uint (acx q)" by (simp_all add: y1_def y2_def)
  have ryb: "0 \<le> ry" "ry < uint (g_y g)"
    using W nn by (auto simp: ry_def sy_def sgn_if)
  have ev2: "(x1 + sx - ry mod 2) mod 2 = 0"
    unfolding ry_def sx_def sy_def s0_def x1e by (simp add: sgn_if) presburger?
  then have rx2: "2 * rx + ry mod 2 = x1 + sx" unfolding rx_def by presburger
  have "ry mod 2 = (if y1 = y2 then y1 mod 2 else 1 - y1 mod 2)"
    unfolding ry_def sy_def by (simp add: sgn_if) presburger
  then have mr: "y2 mod 2 = y1 mod 2 \<and> ry mod 2 = y1 mod 2 \<and> sx = 2 * sgn (x2 - x1) \<or>
      ry mod 2 = 1 - y1 mod 2 \<and> sx = (if x1 = x2 then (if y1 mod 2 = 0 then 1 else - 1) else sgn (x2 - x1))"
    by (cases "y1 = y2") (simp_all only: sx_def s0_def if_True if_False simp_thms)
  have "min (uint (acx p)) (uint (acx q)) \<le> rx \<and> rx \<le> max (uint (acx p)) (uint (acx q))"
    using mr rx2 unfolding x1e by (intro hex_step_column [of "y1 mod 2" "y2 mod 2" rx "ry mod 2" _ sx]) auto
  then have rxb: "0 \<le> rx" "rx < uint (g_x g)"
    using W nn by linarith+
  define r where "r = Ascoord (word_of_int rx) (word_of_int ry)"
  have "rx < 256" "ry < 256" using rxb ryb W(5,6) by linarith+
  then have r: "uint (acx r) = rx" "uint (acy r) = ry"
    using rxb(1) ryb(1) by (simp_all add: r_def uint_word_of_int)
  have rb: "in_bounds g r" using rxb ryb by (simp add: in_bounds_uint r)
  have "hex_dist p r = 1"
    unfolding hex_dist_1_dbl r dbl_x_def [of r] rx2 using ne
    by (auto simp: x1_def [symmetric] y1_def [symmetric] ry_def sx_def sy_def s0_def sgn_if)
  moreover have "hex_dist r q \<le> n"
    unfolding hex_dist_le r dbl_x_def [of r] rx2 using close
    by (simp add: x2_def y2_def ry_def)
  ultimately show ?thesis using around_iff [OF assms(1)] rb by blast
qed

lemma convert_uint:
  assumes "uint (acx p) \<le> 127"
  shows "uint (acx (convert_converstion p)) = dbl_x p" "acy (convert_converstion p) = acy p"
proof -
  have b: "0 \<le> uint (acx p)" by simp
  have "uint (acy p) mod 2 = 0 \<or> uint (acy p) mod 2 = 1" by presburger
  moreover have "(acy p mod 2 = 1) = (uint (acy p) mod 2 = 1)" by (rule u8_odd)
  moreover have "(2 * (uint (acx p) + 1) mod 256 - 1) mod 256 = 2 * uint (acx p) + 1"
    using assms b by (cases "uint (acx p) = 127") (simp_all add: zmod_minus1)
  ultimately show "uint (acx (convert_converstion p)) = dbl_x p"
    using assms b unfolding convert_converstion_def dbl_x_def
    by (auto simp: uint_word_ariths uint_mod mod_simps algebra_simps)
  show "acy (convert_converstion p) = acy p" by (simp add: convert_converstion_def)
qed

lemma attack_zone_hex:
  assumes "uint (acx s) \<le> 127" "uint (acx t) \<le> 127"
  shows "is_in_attack_zone g c s t \<longleftrightarrow> hex_dist s t \<le> uint (bf_range (heap g c))"
  unfolding is_in_attack_zone_def Let_def hex_dist_le
  by (simp add: convert_uint assms abs_minus_commute not_less)

lemma in_around_symmetric:
  assumes "in_bounds g p" "in_bounds g q"
  shows "is_in_around g p q = is_in_around g q p"
  using assms by (auto simp: is_in_around_def list_ex_iff around_iff hex_dist_sym)

lemma is_in_around_iff:
  "in_bounds g t \<Longrightarrow> is_in_around g p t \<longleftrightarrow> in_bounds g p \<and> hex_dist t p = 1"
  by (auto simp: is_in_around_def list_ex_iff around_iff)

text \<open>One step on the board.\<close>

definition board_step :: "battle_ground \<Rightarrow> (ascoord \<times> ascoord) set" where
  "board_step g = {(p, q). q \<in> set (check_up g (get_around p))}"

lemma relpow_hex_dist:
  assumes "(p, q) \<in> board_step g ^^ n" "in_bounds g p"
  shows "in_bounds g q \<and> hex_dist p q \<le> int n"
  using assms
proof (induction n arbitrary: p)
  case 0
  then show ?case using hex_dist_0 [of p p] by simp
next
  case (Suc n)
  from Suc.prems(1) obtain r where r: "(p, r) \<in> board_step g" "(r, q) \<in> board_step g ^^ n"
    by (meson relpow_Suc_D2)
  from r(1) Suc.prems(2) have pr: "in_bounds g r" "hex_dist p r = 1"
    by (simp_all add: board_step_def around_iff)
  from Suc.IH [OF r(2) pr(1)] have "in_bounds g q" "hex_dist r q \<le> int n" by simp_all
  with hex_step_lower [OF pr(2), of q "int n"] show ?case by simp
qed

lemma hex_dist_relpow:
  assumes "in_bounds g p" "in_bounds g q" "hex_dist p q \<le> int n"
  shows "\<exists>m \<le> n. (p, q) \<in> board_step g ^^ m"
  using assms
proof (induction n arbitrary: p)
  case 0
  then have "hex_dist p q = 0" using hex_dist_nonneg [of p q] by linarith
  then have "p = q" by (simp add: hex_dist_0)
  then show ?case by auto
next
  case (Suc n)
  show ?case
  proof (cases "p = q")
    case True
    then show ?thesis by (intro exI [of _ 0]) simp
  next
    case False
    from hex_step_closer [OF Suc.prems(1,2) _ False, of "int n"] Suc.prems(3)
    obtain r where r: "r \<in> set (check_up g (get_around p))" "hex_dist r q \<le> int n" by auto
    then have "in_bounds g r" using Suc.prems(1) by (simp add: around_iff)
    from Suc.IH [OF this Suc.prems(2) r(2)] obtain m where "m \<le> n" "(r, q) \<in> board_step g ^^ m" by blast
    moreover have "(p, r) \<in> board_step g" using r(1) by (simp add: board_step_def)
    ultimately have "Suc m \<le> Suc n \<and> (p, q) \<in> board_step g ^^ Suc m" by (blast intro: relpow_Suc_I2)
    then show ?thesis by blast
  qed
qed

lemma hex_dist_steps:
  assumes "in_bounds g p" "in_bounds g q"
  shows "hex_dist p q \<le> int n \<longleftrightarrow> (\<exists>m \<le> n. (p, q) \<in> board_step g ^^ m)"
  using hex_dist_relpow [OF assms] relpow_hex_dist [OF _ assms(1)]
  by (meson of_nat_le_iff order_trans)

lemma in_bounds_127: "in_bounds g p \<Longrightarrow> g_x g \<le> 128 \<Longrightarrow> uint (acx p) \<le> 127"
  by (simp add: in_bounds_uint word_le_def)

section \<open>Reads that are in range\<close>

lemma cell_index_less [safe_simps]:
  assumes "wf_ground g" "in_bounds g p"
  shows "cell_index g p < length (map_ground g)" "cell_index g p < length (map_camp g)"
    "cell_index g p < length (map_fighters g)"
  using assms row_major_less [of "unat (acx p)" "unat (g_x g)" "unat (acy p)" "unat (g_y g)"]
  by (simp_all add: wf_ground_def in_bounds_def cell_index_def word_less_nat_alt)

lemma cell_index_inj:
  assumes "in_bounds g p" "in_bounds g q" "cell_index g p = cell_index g q"
  shows "p = q"
proof -
  have "unat (acx p) = unat (acx q) \<and> unat (acy p) = unat (acy q)"
    by (rule row_major_inj [of _ "unat (g_x g)"])
       (use assms in \<open>simp_all add: in_bounds_def cell_index_def word_less_nat_alt\<close>)
  then show ?thesis by (cases p; cases q) (simp add: word_unat_eq_iff)
qed

lemma ground_at_Some [safe_simps]:
  "wf_ground g \<Longrightarrow> in_bounds g p \<Longrightarrow> ground_at g p = Some (map_ground g ! cell_index g p)"
  by (simp add: ground_at_def safe_simps)

lemma fighter_at_Some [safe_simps]:
  "wf_ground g \<Longrightarrow> in_bounds g p \<Longrightarrow> fighter_at g p = Some (map_fighters g ! cell_index g p)"
  by (simp add: fighter_at_def safe_simps)

lemma check_up_in_bounds: "q \<in> set (check_up g ps) \<Longrightarrow> in_bounds g q"
  by (auto simp: check_up_def in_bounds_def not_le)

text \<open>A living enemy of \<open>c\<close> stands on \<open>p\<close>.\<close>
definition live_enemy_on :: "battle_ground \<Rightarrow> nat \<Rightarrow> ascoord \<Rightarrow> bool" where
  "live_enemy_on g c p \<longleftrightarrow> (\<exists>b. fighter_at g p = Some (Some b) \<and>
      bf_side (heap g b) \<noteq> bf_side (heap g c) \<and> bf_hp (heap g b) > 0)"

definition open_cell :: "battle_ground \<Rightarrow> ascoord \<Rightarrow> bool" where
  "open_cell g p \<longleftrightarrow> in_bounds g p \<and> map_ground g ! cell_index g p \<noteq> 0"

lemma near_enemy_test_Some:
  "wf_ground g \<Longrightarrow> in_bounds g p \<Longrightarrow>
   near_enemy_test g c p = Some (open_cell g p \<and> live_enemy_on g c p)"
  by (auto simp: near_enemy_test_def safe_simps open_cell_def live_enemy_on_def split: option.splits)

lemma neighbour_keep_Some:
  "wf_ground g \<Longrightarrow> in_bounds g p \<Longrightarrow>
   neighbour_keep g c p = Some (open_cell g p \<and> live_enemy_on g c p)"
  by (auto simp: neighbour_keep_def safe_simps open_cell_def live_enemy_on_def split: option.splits)

lemma near_enemy_total:
  "wf_ground g \<Longrightarrow> is_nearby_have_enemy g c p =
     Some (\<exists>q \<in> set (check_up g (get_around p)). open_cell g q \<and> live_enemy_on g c q)"
  unfolding is_nearby_have_enemy_def
  by (rule exists_opt_total) (simp add: near_enemy_test_Some check_up_in_bounds)

lemma get_neighbour_enemy_Some:
  assumes "wf_ground g"
  shows "get_neighbour_enemy g c x y =
     Some (filter (\<lambda>q. open_cell g q \<and> live_enemy_on g c q) (check_up g (get_around (Ascoord x y))))"
  unfolding get_neighbour_enemy_def
  by (rule filter_opt_total) (simp add: neighbour_keep_Some check_up_in_bounds assms)

lemma u8_sum_minus1:
  fixes a b :: u8
  assumes "uint b = y" "uint a + y < 256" "1 \<le> uint a + y"
  shows "uint (a + b - 1) = uint a + y - 1"
  using assms by (simp add: uint_plus_if' uint_sub_if')

lemma hex_max_cases:
  fixes x y j :: int
  assumes "0 \<le> j"
  shows "x - j \<le> y \<Longrightarrow> y \<le> x + j \<Longrightarrow> max j ((\<bar>x - y\<bar> + j) div 2) = j"
    and "y < x - j \<Longrightarrow> max j ((\<bar>x - y\<bar> + j) div 2) = j + (x - j - y) div 2"
    and "x + j < y \<Longrightarrow> max j ((\<bar>x - y\<bar> + j) div 2) = j + (y - (x + j)) div 2"
proof -
  assume "x - j \<le> y" "y \<le> x + j"
  then have "\<bar>x - y\<bar> + j \<le> 2 * j" by linarith
  then have "(\<bar>x - y\<bar> + j) div 2 \<le> j" by linarith
  then show "max j ((\<bar>x - y\<bar> + j) div 2) = j" by simp
next
  assume a: "y < x - j"
  then have "\<bar>x - y\<bar> + j = (x - j - y) + j * 2" using assms by linarith
  then have "(\<bar>x - y\<bar> + j) div 2 = j + (x - j - y) div 2" by simp
  then show "max j ((\<bar>x - y\<bar> + j) div 2) = j + (x - j - y) div 2" using a by simp
next
  assume a: "x + j < y"
  then have "\<bar>x - y\<bar> + j = (y - (x + j)) + j * 2" using assms by linarith
  then have "(\<bar>x - y\<bar> + j) div 2 = j + (y - (x + j)) div 2" by simp
  then show "max j ((\<bar>x - y\<bar> + j) div 2) = j + (y - (x + j)) div 2" using a by simp
qed

lemma get_distance_uint:
  assumes "uint (acx p) \<le> 127" "uint (acx q) \<le> 127" "p \<noteq> q"
    "\<bar>uint (acy p) - uint (acy q)\<bar> \<le> dbl_x p" "dbl_x p + \<bar>uint (acy p) - uint (acy q)\<bar> < 256"
  shows "uint (get_distance p q) = hex_dist p q - 1"
proof -
  define j where "j = (word_of_int \<bar>uint (acy p) - uint (acy q)\<bar> :: u8)"
  have bd: "\<bar>uint (acy p) - uint (acy q)\<bar> < 256"
    using uint_u8_bound [of "acy p"] uint_u8_bound [of "acy q"] by linarith
  then have j: "uint j = \<bar>uint (acy p) - uint (acy q)\<bar>" by (simp add: j_def uint_word_of_int)
  let ?l = "acx (convert_converstion p)" and ?r = "acx (convert_converstion q)"
  have l: "uint ?l = dbl_x p" and r: "uint ?r = dbl_x q" using assms by (simp_all add: convert_uint)
  have dn: "uint (?l - j) = dbl_x p - uint j"
    using assms(4) l j uint_u8_bound [of ?l] by (simp add: uint_sub_if')
  have up: "uint (?l + j) = dbl_x p + uint j"
    using assms(5) l j by (simp add: uint_plus_if')
  have D: "get_distance p q = (if ?r \<ge> ?l - j \<and> ?r \<le> ?l + j then j - 1
         else if ?r < ?l - j then j + (?l - j - ?r) div 2 - 1
         else j + (?r - (?l + j)) div 2 - 1)"
    unfolding get_distance_def Let_def convert_uint(2) [OF assms(1)] convert_uint(2) [OF assms(2)]
      j_def [symmetric] ..
  have ev: "even (\<bar>dbl_x p - dbl_x q\<bar> + uint j)" using hex_parity [of p q] by (simp add: j)
  have pos: "hex_dist p q \<ge> 1" using assms(3) hex_dist_0 [of p q] hex_dist_nonneg [of p q] by linarith
  have hd: "hex_dist p q = max (uint j) ((\<bar>dbl_x p - dbl_x q\<bar> + uint j) div 2)"
    by (simp add: hex_dist_raw j)
  have small: "hex_dist p q < 256"
  proof -
    have "dbl_x p < 256" "dbl_x q < 256" using uint_u8_bound(1) [of ?l] uint_u8_bound(1) [of ?r] by (simp_all add: l r)
    moreover have "0 \<le> dbl_x p" "0 \<le> dbl_x q" by (simp_all add: dbl_x_def)
    ultimately have "\<bar>dbl_x p - dbl_x q\<bar> < 256" by linarith
    then have "\<bar>dbl_x p - dbl_x q\<bar> + uint j < 512" using uint_u8_bound(1) [of j] by linarith
    then have "(\<bar>dbl_x p - dbl_x q\<bar> + uint j) div 2 < 256" by linarith
    then show ?thesis unfolding hd by simp
  qed
  consider "dbl_x p - uint j \<le> dbl_x q" "dbl_x q \<le> dbl_x p + uint j" | "dbl_x q < dbl_x p - uint j"
    | "dbl_x p + uint j < dbl_x q" by linarith
  then show ?thesis
  proof cases
    case 1
    then have "hex_dist p q = uint j" unfolding hd by (rule hex_max_cases(1) [OF uint_u8_bound(2)])
    moreover from this pos have "uint (j - 1) = uint j - 1" by (simp add: uint_sub_if')
    ultimately show ?thesis using 1 by (simp add: D word_le_def dn up r)
  next
    case 2
    then have h: "hex_dist p q = uint j + (dbl_x p - uint j - dbl_x q) div 2" unfolding hd by (rule hex_max_cases(2) [OF uint_u8_bound(2)])
    have "uint (?l - j - ?r) = dbl_x p - uint j - dbl_x q" using 2 dn r by (simp add: uint_sub_if')
    then have "uint ((?l - j - ?r) div 2) = (dbl_x p - uint j - dbl_x q) div 2" by (simp add: uint_div)
    then have "uint (j + (?l - j - ?r) div 2 - 1) = hex_dist p q - 1"
      unfolding h by (rule u8_sum_minus1) (use small pos h in simp_all)
    then show ?thesis using 2 by (simp add: D word_le_def word_less_def dn up r)
  next
    case 3
    then have h: "hex_dist p q = uint j + (dbl_x q - (dbl_x p + uint j)) div 2" unfolding hd by (rule hex_max_cases(3) [OF uint_u8_bound(2)])
    have "uint (?r - (?l + j)) = dbl_x q - (dbl_x p + uint j)" using 3 up r by (simp add: uint_sub_if')
    then have "uint ((?r - (?l + j)) div 2) = (dbl_x q - (dbl_x p + uint j)) div 2" by (simp add: uint_div)
    then have "uint (j + (?r - (?l + j)) div 2 - 1) = hex_dist p q - 1"
      unfolding h by (rule u8_sum_minus1) (use small pos h in simp_all)
    moreover have "\<not> dbl_x q < dbl_x p - uint j" using 3 uint_u8_bound(2) [of j] by linarith
    ultimately show ?thesis using 3 by (simp add: D word_le_def word_less_def dn up r)
  qed
qed

section \<open>A small board\<close>

text \<open>A \<open>w\<close> by \<open>h\<close> board of the given terrain, used to try the properties on.\<close>

definition board_of ::
  "u8 \<Rightarrow> u8 \<Rightarrow> u8 list \<Rightarrow> nat option list \<Rightarrow> (nat \<Rightarrow> bfighter) \<Rightarrow> battle_ground" where
  "board_of w h ts fs hp =
     (new_ground 0 0 0 hp 100 (\<lambda>_ _. 0))
       \<lparr>g_x := w, g_y := h, map_ground := ts, map_camp := replicate (length ts) 0, map_fighters := fs\<rparr>"

definition soldier :: "u8 \<Rightarrow> u8 \<Rightarrow> u8 \<Rightarrow> bfighter" where
  "soldier side x y =
     \<lparr>bf_side = side, bf_hp = 100, bf_type = 1, bf_class = 1, bf_range = 2, bf_move = 5, bf_x = x, bf_y = y,
      bf_index = 1, bf_owner = None, bf_id = 1, bf_multi_kill = 0, bf_soldiers = (\<lambda>_. 0), bf_kills1 = 0, bf_kills2 = 0,
      bf_fighter_num = 1, bf_power = 10, bf_enter = Ascoord x y, bf_fighter = 0\<rparr>"

text \<open>A game with this map at every number, players without food, and fighters of side 2 to be created.\<close>

definition plain_env :: game_env where
  "plain_env =
     \<lparr>ge_map = (\<lambda>_. Some \<lparr>mi_width = 3, mi_height = 2, mi_tiles = [], mi_camps = [],
        mi_direct = (\<lambda>_. 1), mi_relive = [], mi_act_camp = []\<rparr>),
      ge_style = (\<lambda>_. 0), ge_info = (\<lambda>b w. [bf_x b, bf_y b]), ge_player_id = of_nat, ge_find = (\<lambda>_ i. Some (unat i)),
      ge_global = (\<lambda>i. Some (unat i)),
      ge_fighter = (\<lambda>k. \<lparr>fv_id = of_nat k, fv_type = 1, fv_owner = None, fv_power = 10, fv_star = 0, fv_var = (\<lambda>_. 0)\<rparr>),
      ge_create = (\<lambda>k x y. Some (soldier 2 x y)), ge_equips = [0], ge_equip_classes = [0], ge_power_up = (\<lambda>_. True),
      ge_saved = (\<lambda>_ _ _ _ _ _ _. None), ge_food = (\<lambda>_ _. False), ge_streak = (\<lambda>_ _ _. 0),
      ge_status = (\<lambda>_ _. Some 1), ge_own_force = (\<lambda>_ _ _. 0), ge_clans = (\<lambda>_ _. None), ge_clan_of = (\<lambda>_. None),
      ge_clan_name = (\<lambda>_. None), ge_now = (\<lambda>_. 1000)\<rparr>"

text \<open>Three by two cells of grass, a fighter of side 1 at (0,0) and one of side 2 at (1,0).\<close>

definition duel :: battle_ground where
  "duel = board_of 3 2 [1,1,1,1,1,1] [Some 0, Some 1, None, None, None, None]
            ((\<lambda>_. soldier 1 0 0)(1 := soldier 2 1 0))"

lemma duel_simps [simp]:
  "g_x duel = 3" "g_y duel = 2" "map_ground duel = [1,1,1,1,1,1]" "map_camp duel = [0,0,0,0,0,0]"
  "map_fighters duel = [Some 0, Some 1, None, None, None, None]"
  "heap duel = (\<lambda>_. soldier 1 0 0)(1 := soldier 2 1 0)"
  by (simp_all add: duel_def board_of_def new_ground_def)

lemma duel_wf [simp]: "wf_ground duel"
  by (simp add: wf_ground_def)

lemma duel_in_bounds [simp]: "in_bounds duel p \<longleftrightarrow> acx p < 3 \<and> acy p < 2"
  by (simp add: in_bounds_def)

section \<open>Properties\<close>

text \<open>C15: on a board at most 128 cells wide, \<^verbatim>\<open>IsInAttackZone\<close> accepts a target exactly when it can be
  reached from the fighter's cell in at most as many steps between neighbouring cells as the fighter's
  attack range.\<close>

theorem attack_zone_is_board_distance:
  assumes "in_bounds g s" "in_bounds g t" "g_x g \<le> 128"
  shows "is_in_attack_zone g c s t \<longleftrightarrow>
    (\<exists>m \<le> unat (bf_range (heap g c)). (s, t) \<in> board_step g ^^ m)"
  using hex_dist_steps [OF assms(1,2), of "unat (bf_range (heap g c))"]
    attack_zone_hex [OF in_bounds_127 in_bounds_127, OF assms(1,3,2,3)]
  by simp

theorem attack_zone_witness:
  "is_in_attack_zone duel 0 (Ascoord 0 0) (Ascoord 2 1) =
    (\<exists>m \<le> 2. (Ascoord 0 0, Ascoord 2 1) \<in> board_step duel ^^ m)"
  using attack_zone_is_board_distance [of duel "Ascoord 0 0" "Ascoord 2 1" 0]
  by (simp add: soldier_def)

text \<open>\<^verbatim>\<open>IsNearbyHaveEnemy\<close> never reads outside the board, and answers whether a passable cell one
  step away holds a living fighter of another side.\<close>

theorem near_enemy_iff:
  assumes "wf_ground g" "in_bounds g p"
  shows "is_nearby_have_enemy g c p =
     Some (\<exists>q. open_cell g q \<and> hex_dist p q = 1 \<and> live_enemy_on g c q)"
  unfolding near_enemy_total [OF assms(1)] using around_iff [OF assms(2)]
  by (auto simp: open_cell_def)

theorem near_enemy_witness:
  "is_nearby_have_enemy duel 0 (Ascoord 0 0) =
     Some (\<exists>q. open_cell duel q \<and> hex_dist (Ascoord 0 0) q = 1 \<and> live_enemy_on duel 0 q)"
  by (rule near_enemy_iff) simp_all

text \<open>The six candidates of \<^verbatim>\<open>GetAround\<close>, cleaned by \<^verbatim>\<open>CheckUp\<close>, are exactly the cells of
  the board one step away, also at the edges where a candidate's coordinate wraps around.\<close>

theorem neighbours_exact:
  assumes "in_bounds g p"
  shows "set (check_up g (get_around p)) = {q. in_bounds g q \<and> hex_dist p q = 1}"
  using around_iff [OF assms] by blast

theorem neighbours_witness:
  "set (check_up duel (get_around (Ascoord 0 0))) = {q. in_bounds duel q \<and> hex_dist (Ascoord 0 0) q = 1}"
  by (rule neighbours_exact) simp

text \<open>Where neither end of the column interval leaves the byte range, \<^verbatim>\<open>GetDistance\<close> is the number
  of cells strictly between two different cells.\<close>

theorem get_distance_between:
  assumes "uint (acx p) \<le> 127" "uint (acx q) \<le> 127" "p \<noteq> q"
    "\<bar>uint (acy p) - uint (acy q)\<bar> \<le> dbl_x p" "dbl_x p + \<bar>uint (acy p) - uint (acy q)\<bar> < 256"
  shows "uint (get_distance p q) = hex_dist p q - 1"
  using assms by (rule get_distance_uint)

theorem get_distance_witness:
  "uint (get_distance (Ascoord 3 1) (Ascoord 5 4)) = hex_dist (Ascoord 3 1) (Ascoord 5 4) - 1"
  by (rule get_distance_between) (simp_all add: dbl_x_def)

text \<open>Outside of those limits the byte arithmetic shows: a cell is 255 away from itself, and from the left
  edge two cells three rows apart are 127 away.\<close>

lemma get_distance_wraps:
  "get_distance p p = 255" "get_distance (Ascoord 0 0) (Ascoord 1 3) = 127"
  by (simp_all add: get_distance_def Let_def convert_converstion_def word_le_def word_less_def)

end
