(* ===== verification/PathFinder.thy ===== *)
theory PathFinder
  imports Ground
begin

text \<open>
  The route search of \<^verbatim>\<open>BattleGround.cpp\<close> (the functions from \<^verbatim>\<open>IsInAround\<close> to
  \<^verbatim>\<open>GetRoute\<close>), an A* search over the hexagonal board.  The open list, the closed list and the
  last neighbourhood are fields of the battle ground, as in the code.  Every function that reads the
  board or follows a node pointer returns an \<open>option\<close>: \<open>None\<close> is a read outside an array or
  through \<^verbatim>\<open>NULL\<close>, and for the two loops also a run that does not end.

  The theorems: a search on a well-formed board ends without such an error; its result says whether the
  end can be reached from the start through passable cells; the route it leaves behind is a path of
  neighbouring, passable, pairwise different cells.
\<close>

section \<open>Movement cost\<close>

definition ride_sub_table :: "u8 list list" where
  "ride_sub_table = [[1,1,2,3], [1,2,2,3], [1,1,2,3]]"

definition in_ride_sub :: "int \<Rightarrow> int \<Rightarrow> bool" where
  "in_ride_sub i j \<longleftrightarrow> 0 \<le> i \<and> i < 3 \<and> 0 \<le> j \<and> j < 4"

definition get_ride_sub :: "battle_ground \<Rightarrow> nat \<Rightarrow> ascoord \<Rightarrow> u8 option" where
  "get_ride_sub g c p =
     (let stype = bf_type (heap g c)
      in do { form \<leftarrow> ground_at g p;
              let i = uint stype - 1; j = uint form - 1
              in if in_ride_sub i j then Some (ride_sub_table ! nat i ! nat j) else None })"

text \<open>The search asks for this cost before it tests the cell, so the index may lie outside the table; the value
  is only used for cells that are no obstacles.\<close>

definition get_g_value :: "battle_ground \<Rightarrow> nat \<Rightarrow> ascoord \<Rightarrow> u8 option" where
  "get_g_value g c p =
     do { form \<leftarrow> ground_at g p;
          let i = uint (bf_type (heap g c)) - 1; j = uint form - 1
          in Some ((if in_ride_sub i j then ride_sub_table ! nat i ! nat j else stray_ride g i j) * 2) }"

lemma get_g_value_sub: "get_ride_sub g c p = Some r \<Longrightarrow> get_g_value g c p = Some (r * 2)"
  by (auto simp: get_ride_sub_def get_g_value_def Let_def bind_eq_Some_conv split: if_splits)

text \<open>The second summand subtracts a coordinate from itself, as in the code.\<close>

definition get_h_value :: "battle_ground \<Rightarrow> ascoord \<Rightarrow> u8" where
  "get_h_value g p =
     (let pos = convert_converstion p;
          e = convert_converstion (end_at g)
      in word_of_int (\<bar>uint (acx pos) - uint (acx e)\<bar> + \<bar>uint (acy pos) - uint (acy pos)\<bar>))"

section \<open>Obstacles and lists of nodes\<close>

definition is_obstract :: "battle_ground \<Rightarrow> nat \<Rightarrow> ascoord \<Rightarrow> bool option" where
  "is_obstract g c p =
     do { t \<leftarrow> ground_at g p;
          f \<leftarrow> fighter_at g p;
          let r1 = (t = 0);
              r2 = (case f of None \<Rightarrow> False
                    | Some b \<Rightarrow> bf_hp (heap g b) > 0 \<and> is_in_around g p (end_at g));
              r3 = (case f of None \<Rightarrow> False
                    | Some b \<Rightarrow> p \<noteq> end_at g \<and> bf_side (heap g b) \<noteq> bf_side (heap g c) \<and>
                                bf_hp (heap g b) > 0)
          in Some (r1 \<or> r2 \<or> r3) }"

definition is_in_list :: "node list \<Rightarrow> ascoord \<Rightarrow> bool" where
  "is_in_list ns p = list_ex (\<lambda>n. nd_node n = p) ns"

definition find_from_list :: "node list \<Rightarrow> ascoord \<Rightarrow> node option" where
  "find_from_list ns p = find (\<lambda>n. nd_node n = p) ns"

definition set_start :: "battle_ground \<Rightarrow> ascoord \<Rightarrow> battle_ground" where
  "set_start g p = g\<lparr>start_at := p\<rparr>"

definition set_end :: "battle_ground \<Rightarrow> ascoord \<Rightarrow> battle_ground" where
  "set_end g p = g\<lparr>end_at := p\<rparr>"

definition node_init :: "ascoord \<Rightarrow> u8 \<Rightarrow> u8 \<Rightarrow> node" where
  "node_init p gv hv = \<lparr>nd_node = p, nd_parent = Ascoord 0 0, nd_g = gv, nd_h = hv\<rparr>"

section \<open>The search\<close>

text \<open>\<^verbatim>\<open>JudgeSurround\<close>: the answer and the battle ground afterwards.\<close>

definition judge_surround ::
  "battle_ground \<Rightarrow> nat \<Rightarrow> ascoord \<Rightarrow> ascoord \<Rightarrow> u8 \<Rightarrow> (bool \<times> battle_ground) option" where
  "judge_surround g c cur parent gv =
     (if is_in_list (close_list g) cur then Some (False, g)
      else do { ob \<leftarrow> is_obstract g c cur;
        if ob then Some (False, g)
        else case find_from_list (open_list g) cur of
            None \<Rightarrow>
              let newNode = (node_init cur gv (get_h_value g cur))\<lparr>nd_parent := parent\<rparr>
              in Some (nd_node newNode = end_at g, g\<lparr>open_list := open_list g @ [newNode]\<rparr>)
          | Some n \<Rightarrow>
              if nd_g n > gv
              then Some (False,
                g\<lparr>open_list := update_first (\<lambda>m. nd_node m = cur)
                    (\<lambda>m. m\<lparr>nd_g := gv, nd_parent := parent\<rparr>) (open_list g)\<rparr>)
              else Some (False, g) })"

text \<open>The scan of \<^verbatim>\<open>PopBestStep\<close>: the first node with the least \<open>g + h\<close>, added as \<^verbatim>\<open>int\<close>.\<close>

fun best_node :: "node \<Rightarrow> node list \<Rightarrow> node" where
  "best_node n [] = n"
| "best_node n (m # ms) =
     best_node (if uint (nd_g n) + uint (nd_h n) > uint (nd_g m) + uint (nd_h m) then m else n) ms"

definition pop_best_step :: "battle_ground \<Rightarrow> node \<Rightarrow> bool \<times> node \<times> battle_ground" where
  "pop_best_step g n =
     (case open_list g of
        [] \<Rightarrow> (False, n, g)
      | m # ms \<Rightarrow>
          let b = best_node m ms
          in (True, b, g\<lparr>open_list := remove_first (\<lambda>k. nd_node k = nd_node b) (open_list g)\<rparr>))"

text \<open>The loop over the neighbours of the closed cell.\<close>

fun judge_all ::
  "battle_ground \<Rightarrow> nat \<Rightarrow> ascoord \<Rightarrow> u8 \<Rightarrow> ascoord list \<Rightarrow> (bool \<times> battle_ground) option" where
  "judge_all g c p ng [] = Some (False, g)"
| "judge_all g c p ng (q # qs) =
     do { gAdd \<leftarrow> get_g_value g c q;
          r \<leftarrow> judge_surround g c q p (ng + gAdd);
          if fst r then Some (True, snd r) else judge_all (snd r) c p ng qs }"

text \<open>One round of the search loop, and the loop.\<close>

definition expand_best :: "battle_ground \<Rightarrow> nat \<Rightarrow> node \<Rightarrow> (bool \<times> node \<times> battle_ground) option" where
  "expand_best g c n =
     (case pop_best_step g n of (_, n', g1) \<Rightarrow>
        let p = nd_node n';
            around = check_up g (get_around p);
            g2 = g1\<lparr>close_list := close_list g1 @ [n'], around_ascoord := around\<rparr>
        in do { r \<leftarrow> judge_all g2 c p (nd_g n') around; Some (fst r, n', snd r) })"

partial_function (option) route_loop ::
  "battle_ground \<Rightarrow> nat \<Rightarrow> node \<Rightarrow> (bool \<times> battle_ground) option" where
  "route_loop g c n =
     (if open_list g = [] then Some (False, g)
      else do { r \<leftarrow> expand_best g c n;
                if fst r then Some (True, snd (snd r))
                else route_loop (snd (snd r)) c (fst (snd r)) })"

definition compute_route :: "battle_ground \<Rightarrow> nat \<Rightarrow> (bool \<times> battle_ground) option" where
  "compute_route g c =
     (let n = node_init (start_at g) 0 (get_h_value g (start_at g))
      in route_loop (g\<lparr>open_list := [n], close_list := []\<rparr>) c n)"

text \<open>\<^verbatim>\<open>GetRoute\<close>: the walk back from the end over the parents found in the closed list.\<close>

partial_function (option) parent_chain ::
  "battle_ground \<Rightarrow> node \<Rightarrow> ascoord list \<Rightarrow> ascoord list option" where
  "parent_chain g n acc =
     (if nd_node n = start_at g then Some (acc @ [nd_node n])
      else do { m \<leftarrow> find_from_list (close_list g) (nd_parent n);
                parent_chain g m (acc @ [nd_node n]) })"

definition get_route :: "battle_ground \<Rightarrow> (bool \<times> ascoord list) option" where
  "get_route g =
     (case find_from_list (open_list g) (end_at g) of
        None \<Rightarrow> Some (False, [])
      | Some n \<Rightarrow>
          do { m \<leftarrow> find_from_list (close_list g) (nd_parent n);
               ps \<leftarrow> parent_chain g m [nd_node n];
               Some (True, ps) })"

section \<open>The state of a search\<close>

definition search_state :: "battle_ground \<Rightarrow> node list \<Rightarrow> node list \<Rightarrow> ascoord list \<Rightarrow> battle_ground" where
  "search_state g os cs ar = g\<lparr>open_list := os, close_list := cs, around_ascoord := ar\<rparr>"

lemma search_state_simps [frame_simps]:
  "open_list (search_state g os cs ar) = os"
  "close_list (search_state g os cs ar) = cs"
  "start_at (search_state g os cs ar) = start_at g"
  "end_at (search_state g os cs ar) = end_at g"
  "heap (search_state g os cs ar) = heap g"
  "stray_ride (search_state g os cs ar) = stray_ride g"
  "ground_at (search_state g os cs ar) p = ground_at g p"
  "fighter_at (search_state g os cs ar) p = fighter_at g p"
  "check_up (search_state g os cs ar) ps = check_up g ps"
  "(search_state g os cs ar)\<lparr>open_list := os'\<rparr> = search_state g os' cs ar"
  "(search_state g os cs ar)\<lparr>close_list := cs', around_ascoord := ar'\<rparr> = search_state g os cs' ar'"
  by (simp_all add: search_state_def ground_at_def fighter_at_def cell_index_def check_up_def)

lemma search_state_reads [frame_simps]:
  "is_obstract (search_state g os cs ar) c p = is_obstract g c p"
  "get_g_value (search_state g os cs ar) c p = get_g_value g c p"
  "get_h_value (search_state g os cs ar) p = get_h_value g p"
  by (simp_all add: is_obstract_def is_in_around_def get_h_value_def get_g_value_def
      Let_def frame_simps cong: if_cong option.case_cong)

lemma route_start_state:
  "g\<lparr>open_list := os, close_list := cs\<rparr> = search_state g os cs (around_ascoord g)"
  by (simp add: search_state_def)

text \<open>A step of the search from a cell to a passable neighbour.\<close>

definition route_edge :: "battle_ground \<Rightarrow> nat \<Rightarrow> ascoord \<Rightarrow> ascoord \<Rightarrow> bool" where
  "route_edge g c p q \<longleftrightarrow> q \<in> set (check_up g (get_around p)) \<and> is_obstract g c q = Some False"

text \<open>The node was reached from a closed one; only the first closed node is the start.\<close>

definition attached :: "battle_ground \<Rightarrow> nat \<Rightarrow> node list \<Rightarrow> node \<Rightarrow> bool" where
  "attached g c cs n \<longleftrightarrow>
     cs = [] \<and> nd_node n = start_at g \<or>
     nd_parent n \<in> nd_node ` set cs \<and> route_edge g c (nd_parent n) (nd_node n)"

inductive linked :: "battle_ground \<Rightarrow> nat \<Rightarrow> node list \<Rightarrow> bool" for g c where
  linked_Nil: "linked g c []"
| linked_snoc: "linked g c cs \<Longrightarrow> attached g c cs n \<Longrightarrow> linked g c (cs @ [n])"

definition search_ok :: "battle_ground \<Rightarrow> nat \<Rightarrow> node list \<Rightarrow> node list \<Rightarrow> bool" where
  "search_ok g c cs os \<longleftrightarrow>
     distinct (map nd_node (cs @ os)) \<and>
     (\<forall>n \<in> set (cs @ os). in_bounds g (nd_node n)) \<and>
     linked g c cs \<and> (\<forall>n \<in> set os. attached g c cs n)"

lemma search_okD:
  assumes "search_ok g c cs os"
  shows "distinct (map nd_node (cs @ os))" "\<And>n. n \<in> set cs \<Longrightarrow> in_bounds g (nd_node n)"
    "\<And>n. n \<in> set os \<Longrightarrow> in_bounds g (nd_node n)" "linked g c cs"
    "\<And>n. n \<in> set os \<Longrightarrow> attached g c cs n"
  using assms by (auto simp: search_ok_def)

lemma attached_mono: "attached g c cs m \<Longrightarrow> cs \<noteq> [] \<Longrightarrow> set cs \<subseteq> set cs' \<Longrightarrow> attached g c cs' m"
  by (auto simp: attached_def)

lemma is_in_list_iff: "is_in_list ns p \<longleftrightarrow> p \<in> nd_node ` set ns"
  by (auto simp: is_in_list_def list_ex_iff)

lemma find_from_list_None: "find_from_list ns p = None \<longleftrightarrow> p \<notin> nd_node ` set ns"
  by (auto simp: find_from_list_def find_None_set)

lemma find_from_list_Some: "find_from_list ns p = Some n \<Longrightarrow> n \<in> set ns \<and> nd_node n = p"
  by (auto simp: find_from_list_def dest: find_in_set)

lemma is_obstract_total:
  "wf_ground g \<Longrightarrow> in_bounds g p \<Longrightarrow> \<exists>b. is_obstract g c p = Some b"
  by (simp add: is_obstract_def safe_simps Let_def)

lemma get_g_value_total:
  "wf_ground g \<Longrightarrow> in_bounds g p \<Longrightarrow> \<exists>v. get_g_value g c p = Some v"
  by (simp add: get_g_value_def safe_simps Let_def)

section \<open>One neighbour\<close>

lemma judge_surround_state:
  "judge_surround (search_state g os cs ar) c cur p gv =
     (if is_in_list cs cur then Some (False, search_state g os cs ar)
      else do { ob \<leftarrow> is_obstract g c cur;
        if ob then Some (False, search_state g os cs ar)
        else case find_from_list os cur of
            None \<Rightarrow> Some (cur = end_at g,
                search_state g (os @ [(node_init cur gv (get_h_value g cur))\<lparr>nd_parent := p\<rparr>]) cs ar)
          | Some n \<Rightarrow>
              if nd_g n > gv
              then Some (False, search_state g (update_first (\<lambda>m. nd_node m = cur)
                    (\<lambda>m. m\<lparr>nd_g := gv, nd_parent := p\<rparr>) os) cs ar)
              else Some (False, search_state g os cs ar) })"
  by (simp add: judge_surround_def frame_simps Let_def node_init_def cong: option.case_cong if_cong)

lemma search_ok_update:
  assumes "search_ok g c cs os" "p \<in> nd_node ` set cs" "route_edge g c p cur"
  shows "search_ok g c cs (update_first (\<lambda>m. nd_node m = cur) (\<lambda>m. m\<lparr>nd_g := gv, nd_parent := p\<rparr>) os)"
    (is "search_ok g c cs ?os")
    and "nd_node ` set (update_first (\<lambda>m. nd_node m = cur) (\<lambda>m. m\<lparr>nd_g := gv, nd_parent := p\<rparr>) os) = nd_node ` set os"
proof -
  have nodes: "map nd_node ?os = map nd_node os"
    by (rule map_update_first_same) simp
  then show set: "nd_node ` set ?os = nd_node ` set os" by (metis list.set_map)
  have "attached g c cs n" if "n \<in> set ?os" for n
    using set_update_first_subset [OF that] assms by (auto simp: search_ok_def attached_def)
  moreover have "in_bounds g (nd_node n)" if "n \<in> set ?os" for n
    using set_update_first_subset [OF that] assms(1) by (auto simp: search_ok_def)
  ultimately show "search_ok g c cs ?os"
    using assms(1) nodes set by (auto simp: search_ok_def)
qed

lemma judge_surround_step:
  assumes "wf_ground g" "search_ok g c cs os" "p \<in> nd_node ` set cs"
    "cur \<in> set (check_up g (get_around p))" "end_at g \<notin> nd_node ` set os"
  obtains b os' where
    "judge_surround (search_state g os cs ar) c cur p gv = Some (b, search_state g os' cs ar)"
    "search_ok g c cs os'"
    "nd_node ` set os \<subseteq> nd_node ` set os'"
    "route_edge g c p cur \<Longrightarrow> cur \<in> nd_node ` set (cs @ os')"
    "b \<longleftrightarrow> end_at g \<in> nd_node ` set os'"
proof -
  have cur: "in_bounds g cur" using assms(4) by (rule check_up_in_bounds)
  obtain ob where ob: "is_obstract g c cur = Some ob" using is_obstract_total [OF assms(1) cur] by blast
  show ?thesis
  proof (cases "cur \<in> nd_node ` set cs \<or> ob")
    case True
    then show ?thesis
      using ob assms by (intro that [of False os]) (auto simp: judge_surround_state is_in_list_iff route_edge_def)
  next
    case False
    then have edge: "route_edge g c p cur" using ob assms(4) by (simp add: route_edge_def)
    show ?thesis
    proof (cases "find_from_list os cur")
      case None
      let ?n = "(node_init cur gv (get_h_value g cur))\<lparr>nd_parent := p\<rparr>"
      have "search_ok g c cs (os @ [?n])"
        using None False assms(2,3) cur edge
        by (auto simp: search_ok_def attached_def find_from_list_None node_init_def)
      then show ?thesis
        using None False ob assms(5)
        by (intro that [of "cur = end_at g" "os @ [?n]"])
           (auto simp: judge_surround_state is_in_list_iff node_init_def)
    next
      case (Some n)
      then have mem: "cur \<in> nd_node ` set os" by (auto dest: find_from_list_Some)
      show ?thesis
      proof (cases "nd_g n > gv")
        case True
        then show ?thesis
          using Some False ob assms(2,5) mem search_ok_update [OF assms(2,3) edge, of gv]
          by (intro that [OF _ search_ok_update(1) [OF assms(2,3) edge, of gv], of False])
             (auto simp: judge_surround_state is_in_list_iff)
      next
        case small: False
        then show ?thesis
          using Some False ob assms(2,5) mem
          by (intro that [of False os]) (auto simp: judge_surround_state is_in_list_iff)
      qed
    qed
  qed
qed

lemma judge_all_step:
  assumes "wf_ground g" "p \<in> nd_node ` set cs" "set qs \<subseteq> set (check_up g (get_around p))"
    "search_ok g c cs os" "end_at g \<notin> nd_node ` set os"
  shows "\<exists>b os'. judge_all (search_state g os cs ar) c p ng qs = Some (b, search_state g os' cs ar) \<and>
    search_ok g c cs os' \<and> nd_node ` set os \<subseteq> nd_node ` set os' \<and>
    (b \<longleftrightarrow> end_at g \<in> nd_node ` set os') \<and>
    (\<not> b \<longrightarrow> (\<forall>q \<in> set qs. route_edge g c p q \<longrightarrow> q \<in> nd_node ` set (cs @ os')))"
  using assms(3-5)
proof (induction qs arbitrary: os)
  case Nil
  then show ?case by (intro exI [of _ False] exI [of _ os]) simp
next
  case (Cons q qs)
  have q: "q \<in> set (check_up g (get_around p))" using Cons.prems(1) by simp
  obtain v where v: "get_g_value g c q = Some v"
    using get_g_value_total [OF assms(1) check_up_in_bounds [OF q]] by blast
  obtain b os1 where s1:
    "judge_surround (search_state g os cs ar) c q p (ng + v) = Some (b, search_state g os1 cs ar)"
    "search_ok g c cs os1" "nd_node ` set os \<subseteq> nd_node ` set os1"
    "route_edge g c p q \<Longrightarrow> q \<in> nd_node ` set (cs @ os1)" "b \<longleftrightarrow> end_at g \<in> nd_node ` set os1"
    using judge_surround_step [OF assms(1) Cons.prems(2) assms(2) q Cons.prems(3)] by metis
  show ?case
  proof (cases b)
    case True
    then show ?thesis using s1 v
      by (intro exI [of _ True] exI [of _ os1]) (simp add: frame_simps)
  next
    case False
    obtain b2 os2 where s2: "judge_all (search_state g os1 cs ar) c p ng qs = Some (b2, search_state g os2 cs ar)"
      "search_ok g c cs os2" "nd_node ` set os1 \<subseteq> nd_node ` set os2" "b2 \<longleftrightarrow> end_at g \<in> nd_node ` set os2"
      "\<not> b2 \<longrightarrow> (\<forall>q \<in> set qs. route_edge g c p q \<longrightarrow> q \<in> nd_node ` set (cs @ os2))"
      using Cons.IH [OF _ s1(2)] Cons.prems(1) s1(5) False by auto
    have "nd_node ` set os \<subseteq> nd_node ` set os2" using s1(3) s2(3) by (rule subset_trans)
    moreover have "route_edge g c p q \<Longrightarrow> q \<in> nd_node ` set (cs @ os2)" using s1(4) s2(3) by auto
    ultimately show ?thesis using s1(1) s2 v False
      by (intro exI [of _ b2] exI [of _ os2]) (simp add: frame_simps)
  qed
qed

section \<open>One round of the loop\<close>

lemma best_node_mem: "best_node n ms \<in> set (n # ms)"
proof (induction ms arbitrary: n)
  case (Cons m ms)
  show ?case using Cons [of m] Cons [of n] by auto
qed simp

lemma best_node_least:
  "m \<in> set (n # ms) \<Longrightarrow> uint (nd_g (best_node n ms)) + uint (nd_h (best_node n ms)) \<le> uint (nd_g m) + uint (nd_h m)"
proof (induction ms arbitrary: n m)
  case (Cons k ms)
  let ?n = "if uint (nd_g n) + uint (nd_h n) > uint (nd_g k) + uint (nd_h k) then k else n"
  have "\<exists>m' \<in> set (?n # ms). uint (nd_g m') + uint (nd_h m') \<le> uint (nd_g m) + uint (nd_h m)"
    using Cons.prems by auto
  then show ?case using Cons.IH [of _ ?n] by fastforce
qed simp

lemma pop_best_step_state:
  assumes "os \<noteq> []" "distinct (map nd_node os)"
  obtains n os1 where "pop_best_step (search_state g os cs ar) k = (True, n, search_state g os1 cs ar)"
    "mset os = add_mset n (mset os1)"
    "\<forall>m \<in> set os. uint (nd_g n) + uint (nd_h n) \<le> uint (nd_g m) + uint (nd_h m)"
proof -
  from assms(1) obtain m ms where os: "os = m # ms" by (cases os) auto
  let ?n = "best_node m ms"
  have "?n \<in> set os" using best_node_mem [of m ms] os by simp
  then have "find (\<lambda>y. nd_node y = nd_node ?n) os = Some ?n" by (rule find_key_unique [OF assms(2)])
  then have "mset os = add_mset ?n (mset (remove_first (\<lambda>y. nd_node y = nd_node ?n) os))"
    by (rule mset_remove_first)
  then show ?thesis
    by (rule that [rotated]) (auto simp: pop_best_step_def frame_simps os Let_def best_node_least)
qed

lemma search_ok_close:
  assumes "search_ok g c cs os" "mset os = add_mset n (mset os1)"
  shows "search_ok g c (cs @ [n]) os1"
proof -
  have so: "set os = insert n (set os1)" using assms(2) by (metis set_mset_add_mset_insert set_mset_mset)
  have "mset (map nd_node (cs @ os)) = mset (map nd_node ((cs @ [n]) @ os1))"
    using assms(2) by simp
  then have d: "distinct (map nd_node ((cs @ [n]) @ os1))"
    using search_okD(1) [OF assms(1)] by (metis mset_eq_imp_distinct_iff)
  have "linked g c (cs @ [n])"
    using assms(1) so by (intro linked_snoc) (auto simp: search_ok_def)
  moreover have "attached g c (cs @ [n]) m" if "m \<in> set os1" for m
  proof (cases "cs = []")
    case True
    have "attached g c cs m" "attached g c cs n" using assms(1) so that by (auto simp: search_ok_def)
    with True have "nd_node m = nd_node n" by (simp add: attached_def)
    moreover have "nd_node n \<notin> nd_node ` set os1" using d by auto
    ultimately show ?thesis using imageI [OF that, of nd_node] by simp
  next
    case False
    have "attached g c cs m" using search_okD(5) [OF assms(1), of m] so that by simp
    then show ?thesis by (rule attached_mono) (use False in auto)
  qed
  moreover have "in_bounds g (nd_node m)" if "m \<in> set ((cs @ [n]) @ os1)" for m
    using search_okD(2,3) [OF assms(1)] so that by auto
  ultimately show ?thesis using d unfolding search_ok_def by blast
qed

text \<open>Every passable neighbour of a closed cell has been recorded.\<close>

definition covered :: "battle_ground \<Rightarrow> nat \<Rightarrow> node list \<Rightarrow> node list \<Rightarrow> bool" where
  "covered g c cs os \<longleftrightarrow>
     (\<forall>p \<in> nd_node ` set cs. \<forall>q. route_edge g c p q \<longrightarrow> q \<in> nd_node ` set (cs @ os))"

text \<open>What holds before each round.\<close>

definition loop_inv :: "battle_ground \<Rightarrow> nat \<Rightarrow> node list \<Rightarrow> node list \<Rightarrow> bool" where
  "loop_inv g c cs os \<longleftrightarrow>
     search_ok g c cs os \<and> covered g c cs os \<and>
     start_at g \<in> nd_node ` set (cs @ os) \<and>
     (end_at g \<in> nd_node ` set os \<longrightarrow> cs = []) \<and>
     (end_at g \<in> nd_node ` set cs \<longrightarrow> end_at g = start_at g)"

lemma expand_best_step:
  assumes "wf_ground g" "loop_inv g c cs os" "os \<noteq> []"
  shows "\<exists>b n os' ar'. expand_best (search_state g os cs ar) c k = Some (b, n, search_state g os' (cs @ [n]) ar') \<and>
    nd_node n \<notin> nd_node ` set cs \<and> in_bounds g (nd_node n) \<and> search_ok g c (cs @ [n]) os' \<and>
    (b \<longrightarrow> end_at g \<in> nd_node ` set os') \<and> (\<not> b \<longrightarrow> loop_inv g c (cs @ [n]) os')"
proof -
  have ok: "search_ok g c cs os" using assms(2) by (simp add: loop_inv_def)
  have dos: "distinct (map nd_node os)" using search_okD(1) [OF ok] by simp
  obtain n os1 where pop: "pop_best_step (search_state g os cs ar) k = (True, n, search_state g os1 cs ar)"
    "mset os = add_mset n (mset os1)" using pop_best_step_state [OF assms(3) dos] by blast
  have so: "set os = insert n (set os1)" using pop(2) by (metis set_mset_add_mset_insert set_mset_mset)
  have ok1: "search_ok g c (cs @ [n]) os1" by (rule search_ok_close [OF ok pop(2)])
  have d1: "nd_node n \<notin> nd_node ` set cs" "nd_node n \<notin> nd_node ` set os1"
    using search_okD(1) [OF ok1] by auto
  have nb: "in_bounds g (nd_node n)" using search_okD(2) [OF ok1] by simp
  have start: "cs = [] \<Longrightarrow> nd_node m = start_at g" if "m \<in> set os" for m
    using search_okD(5) [OF ok that] by (simp add: attached_def)
  have e1: "end_at g \<notin> nd_node ` set os1"
  proof
    assume "end_at g \<in> nd_node ` set os1"
    then obtain m where m: "m \<in> set os1" "nd_node m = end_at g" by auto
    then have "end_at g \<in> nd_node ` set os" using so by (metis image_eqI insertCI)
    then have "cs = []" using assms(2) by (simp add: loop_inv_def)
    then have "nd_node m = nd_node n" using start [of m] start [of n] so m by auto
    with d1(2) m show False by (metis image_eqI)
  qed
  have en: "nd_node n = end_at g \<Longrightarrow> end_at g = start_at g"
    using assms(2) so start [of n] by (auto simp: loop_inv_def)
  let ?ar = "check_up g (get_around (nd_node n))"
  obtain b os' where j:
    "judge_all (search_state g os1 (cs @ [n]) ?ar) c (nd_node n) (nd_g n) ?ar =
       Some (b, search_state g os' (cs @ [n]) ?ar)"
    "search_ok g c (cs @ [n]) os'" "nd_node ` set os1 \<subseteq> nd_node ` set os'"
    "b \<longleftrightarrow> end_at g \<in> nd_node ` set os'"
    "\<not> b \<longrightarrow> (\<forall>q \<in> set ?ar. route_edge g c (nd_node n) q \<longrightarrow> q \<in> nd_node ` set ((cs @ [n]) @ os'))"
    using judge_all_step [OF assms(1) _ subset_refl ok1 e1, of "nd_node n" ?ar "nd_g n"] by auto
  have "covered g c (cs @ [n]) os'" if "\<not> b"
    unfolding covered_def
  proof (intro ballI allI impI)
    fix p q assume p: "p \<in> nd_node ` set (cs @ [n])" and pq: "route_edge g c p q"
    show "q \<in> nd_node ` set ((cs @ [n]) @ os')"
    proof (cases "p = nd_node n")
      case True
      have "q \<in> set ?ar" using pq True by (simp add: route_edge_def)
      then show ?thesis using j(5) that pq True by blast
    next
      case False
      then have "p \<in> nd_node ` set cs" using p by auto
      then have "q \<in> nd_node ` set (cs @ os)" using assms(2) pq unfolding loop_inv_def covered_def by blast
      then have "q \<in> nd_node ` set cs \<union> {nd_node n} \<union> nd_node ` set os1" unfolding set_append so by auto
      then show ?thesis using j(3) unfolding set_append by auto
    qed
  qed
  moreover have "start_at g \<in> nd_node ` set ((cs @ [n]) @ os')"
    using assms(2) so j(3) by (auto simp: loop_inv_def)
  moreover have "expand_best (search_state g os cs ar) c k = Some (b, n, search_state g os' (cs @ [n]) ?ar)"
    using pop(1) j(1) by (simp add: expand_best_def frame_simps Let_def)
  ultimately show ?thesis
    using j(2,4) assms(2) d1(1) nb en
    by (intro exI [of _ b] exI [of _ n] exI [of _ os'] exI [of _ ?ar]) (auto simp: loop_inv_def)
qed
section \<open>The loop ends\<close>

lemma finite_cells: "finite {p :: ascoord. P p}"
proof (rule finite_subset [OF subset_UNIV])
  have "UNIV = case_prod Ascoord ` UNIV"
    by (auto simp: image_iff) (metis ascoord.exhaust)
  then show "finite (UNIV :: ascoord set)" by (metis finite finite_imageI)
qed

lemma route_loop_total:
  assumes "wf_ground g" "loop_inv g c cs os"
  shows "\<exists>b os' cs' ar'. route_loop (search_state g os cs ar) c k = Some (b, search_state g os' cs' ar') \<and>
    search_ok g c cs' os' \<and> (b \<longrightarrow> end_at g \<in> nd_node ` set os' \<and> cs' \<noteq> []) \<and>
    (\<not> b \<longrightarrow> os' = [] \<and> loop_inv g c cs' [])"
  using assms(2)
proof (induction "card {p. in_bounds g p \<and> p \<notin> nd_node ` set cs}" arbitrary: cs os ar k rule: less_induct)
  case less
  show ?case
  proof (cases "os = []")
    case True
    then show ?thesis
      using less.prems
      by (intro exI [of _ False] exI [of _ os] exI [of _ cs] exI [of _ ar])
         (simp add: route_loop.simps frame_simps loop_inv_def)
  next
    case False
    obtain b n os1 ar1 where e:
      "expand_best (search_state g os cs ar) c k = Some (b, n, search_state g os1 (cs @ [n]) ar1)"
      "nd_node n \<notin> nd_node ` set cs" "in_bounds g (nd_node n)" "search_ok g c (cs @ [n]) os1"
      "b \<longrightarrow> end_at g \<in> nd_node ` set os1" "\<not> b \<longrightarrow> loop_inv g c (cs @ [n]) os1"
      using expand_best_step [OF assms(1) less.prems False, of ar k] by blast
    show ?thesis
    proof (cases b)
      case True
      then show ?thesis using e False
        by (intro exI [of _ True] exI [of _ os1] exI [of _ "cs @ [n]"] exI [of _ ar1])
           (simp add: route_loop.simps frame_simps)
    next
      case nb: False
      have "{p. in_bounds g p \<and> p \<notin> nd_node ` set (cs @ [n])} \<subset> {p. in_bounds g p \<and> p \<notin> nd_node ` set cs}"
        using e(2,3) by auto
      then have "card {p. in_bounds g p \<and> p \<notin> nd_node ` set (cs @ [n])} < card {p. in_bounds g p \<and> p \<notin> nd_node ` set cs}"
        by (rule psubset_card_mono [OF finite_cells])
      from less.hyps [OF this, of os1 ar1 n] e(6) nb
      have "\<exists>b os' cs' ar'. route_loop (search_state g os1 (cs @ [n]) ar1) c n = Some (b, search_state g os' cs' ar') \<and>
        search_ok g c cs' os' \<and> (b \<longrightarrow> end_at g \<in> nd_node ` set os' \<and> cs' \<noteq> []) \<and>
        (\<not> b \<longrightarrow> os' = [] \<and> loop_inv g c cs' [])" by blast
      moreover have "route_loop (search_state g os cs ar) c k = route_loop (search_state g os1 (cs @ [n]) ar1) c n"
        using e(1) nb False by (subst route_loop.simps) (simp add: frame_simps)
      ultimately show ?thesis by simp
    qed
  qed
qed

lemma compute_route_total:
  assumes "wf_ground g" "in_bounds g (start_at g)"
  shows "\<exists>b os cs ar. compute_route g c = Some (b, search_state g os cs ar) \<and> search_ok g c cs os \<and>
    (b \<longrightarrow> end_at g \<in> nd_node ` set os \<and> cs \<noteq> []) \<and> (\<not> b \<longrightarrow> os = [] \<and> loop_inv g c cs [])"
proof -
  have "loop_inv g c [] [node_init (start_at g) 0 (get_h_value g (start_at g))]"
    using assms(2) by (auto simp: loop_inv_def search_ok_def covered_def attached_def node_init_def intro: linked_Nil)
  from route_loop_total [OF assms(1) this] show ?thesis
    unfolding compute_route_def Let_def route_start_state by blast
qed

section \<open>The walk back\<close>

text \<open>A route is listed from the end back to the start.\<close>

definition route_back :: "battle_ground \<Rightarrow> nat \<Rightarrow> ascoord list \<Rightarrow> bool" where
  "route_back g c ps \<longleftrightarrow>
     ps \<noteq> [] \<and> hd ps = end_at g \<and> last ps = start_at g \<and> distinct ps \<and>
     successively (\<lambda>q p. route_edge g c p q) ps"

lemma find_closed:
  assumes "distinct (map nd_node ds)" "p \<in> nd_node ` set ds"
  obtains m where "find_from_list ds p = Some m" "m \<in> set ds" "nd_node m = p"
proof -
  obtain m where "m \<in> set ds" "nd_node m = p" using assms(2) by auto
  moreover from this have "find_from_list ds p = Some m"
    unfolding find_from_list_def using find_key_unique [OF assms(1), of m] by simp
  ultimately show ?thesis using that by blast
qed

lemma parent_chain_route:
  assumes "linked g c cs" "close_list h = cs @ es" "start_at h = start_at g"
    "distinct (map nd_node (cs @ es))" "n \<in> set cs"
  shows "\<exists>ps. parent_chain h n acc = Some (acc @ ps) \<and> ps \<noteq> [] \<and> hd ps = nd_node n \<and>
    last ps = start_at g \<and> distinct ps \<and> set ps \<subseteq> nd_node ` set cs \<and>
    successively (\<lambda>q p. route_edge g c p q) ps"
  using assms
proof (induction arbitrary: n es acc rule: linked.induct)
  case linked_Nil
  then show ?case by simp
next
  case (linked_snoc cs k)
  have old: "\<exists>ps. parent_chain h m acc = Some (acc @ ps) \<and> ps \<noteq> [] \<and> hd ps = nd_node m \<and>
      last ps = start_at g \<and> distinct ps \<and> set ps \<subseteq> nd_node ` set cs \<and>
      successively (\<lambda>q p. route_edge g c p q) ps" if "m \<in> set cs" for m acc
    using linked_snoc.IH [of "k # es" m acc] linked_snoc.prems that by simp
  show ?case
  proof (cases "n \<in> set cs")
    case True
    from old [OF this, of acc] show ?thesis by auto
  next
    case False
    then have n: "n = k" using linked_snoc.prems(4) by simp
    show ?thesis
    proof (cases "nd_node n = start_at g")
      case True
      then show ?thesis
        using linked_snoc.prems(2) n
        by (intro exI [of _ "[nd_node n]"]) (simp add: parent_chain.simps)
    next
      case ns: False
      then have at: "nd_parent n \<in> nd_node ` set cs" "route_edge g c (nd_parent n) (nd_node n)"
        using linked_snoc.hyps(2) n by (auto simp: attached_def)
      have "nd_parent n \<in> nd_node ` set (close_list h)" using at(1) linked_snoc.prems(1) by auto
      then obtain m where m: "find_from_list (close_list h) (nd_parent n) = Some m"
        "m \<in> set (close_list h)" "nd_node m = nd_parent n"
        using find_closed [of "close_list h"] linked_snoc.prems(1,3) by metis
      have "m \<in> set cs"
      proof -
        obtain m' where "m' \<in> set cs" "nd_node m' = nd_parent n" using at(1) by auto
        moreover from this have "m' = m"
        proof -
          have "distinct (map nd_node (close_list h))" using linked_snoc.prems(1,3) by simp
          then have "inj_on nd_node (set (close_list h))" by (simp only: distinct_map)
          moreover have "m' \<in> set (close_list h)" using \<open>m' \<in> set cs\<close> linked_snoc.prems(1) by simp
          ultimately show ?thesis
            using m(2,3) \<open>nd_node m' = nd_parent n\<close> by (metis inj_onD)
        qed
        ultimately show ?thesis by simp
      qed
      from old [OF this, of "acc @ [nd_node n]"] obtain ps where ps:
        "parent_chain h m (acc @ [nd_node n]) = Some ((acc @ [nd_node n]) @ ps)" "ps \<noteq> []" "hd ps = nd_node m"
        "last ps = start_at g" "distinct ps" "set ps \<subseteq> nd_node ` set cs"
        "successively (\<lambda>q p. route_edge g c p q) ps" by blast
      have "parent_chain h n acc = Some (acc @ (nd_node n # ps))"
        using ns m(1) ps(1) linked_snoc.prems(2) by (subst parent_chain.simps) simp
      moreover have "nd_node n \<notin> set ps" using ps(6) linked_snoc.prems(3) n by auto
      moreover have "successively (\<lambda>q p. route_edge g c p q) (nd_node n # ps)"
        using ps(2,3,7) at(2) m(3) by (cases ps) simp_all
      ultimately show ?thesis using ps n by (intro exI [of _ "nd_node n # ps"]) auto
    qed
  qed
qed

lemma get_route_state:
  assumes "search_ok g c cs os" "end_at g \<in> nd_node ` set os" "cs \<noteq> []"
  shows "\<exists>ps. get_route (search_state g os cs ar) = Some (True, ps) \<and> route_back g c ps"
proof -
  have d: "distinct (map nd_node os)" "distinct (map nd_node (cs @ []))"
    using search_okD(1) [OF assms(1)] by simp_all
  obtain n where n: "find_from_list os (end_at g) = Some n" "n \<in> set os" "nd_node n = end_at g"
    by (rule find_closed [OF d(1) assms(2)])
  then have at: "nd_parent n \<in> nd_node ` set cs" "route_edge g c (nd_parent n) (nd_node n)"
    using search_okD(5) [OF assms(1) n(2)] assms(3) by (auto simp: attached_def)
  obtain m where m: "find_from_list cs (nd_parent n) = Some m" "m \<in> set cs" "nd_node m = nd_parent n"
    using find_closed [of cs] d(2) at(1) by (metis append_Nil2)
  obtain ps where ps:
    "parent_chain (search_state g os cs ar) m [nd_node n] = Some ([nd_node n] @ ps)" "ps \<noteq> []"
    "hd ps = nd_node m" "last ps = start_at g" "distinct ps" "set ps \<subseteq> nd_node ` set cs"
    "successively (\<lambda>q p. route_edge g c p q) ps"
    using parent_chain_route [OF search_okD(4) [OF assms(1)] _ _ d(2) m(2), of "search_state g os cs ar" "[nd_node n]"]
    by (auto simp: frame_simps)
  have "get_route (search_state g os cs ar) = Some (True, nd_node n # ps)"
    using n(1) m(1) ps(1) by (simp add: get_route_def frame_simps)
  moreover have "end_at g \<notin> set ps"
  proof -
    have "end_at g \<notin> nd_node ` set cs"
      using search_okD(1) [OF assms(1)] assms(2) by auto
    then show ?thesis using ps(6) by blast
  qed
  moreover have "successively (\<lambda>q p. route_edge g c p q) (end_at g # ps)"
    using ps(2,3,7) at(2) m(3) n(3) by (cases ps) simp_all
  ultimately show ?thesis
    using ps n(3) by (intro exI [of _ "nd_node n # ps"]) (simp add: route_back_def)
qed
section \<open>What the search decides\<close>

lemma linked_reach: "linked g c cs \<Longrightarrow> n \<in> set cs \<Longrightarrow> (route_edge g c)\<^sup>*\<^sup>* (start_at g) (nd_node n)"
proof (induction arbitrary: n rule: linked.induct)
  case (linked_snoc cs k)
  show ?case
  proof (cases "n \<in> set cs")
    case False
    then have n: "n = k" using linked_snoc.prems by simp
    show ?thesis using linked_snoc.hyps(2) linked_snoc.IH unfolding attached_def n
      by (metis (no_types, lifting) imageE rtranclp.simps)
  qed (simp add: linked_snoc.IH)
qed simp

lemma linked_start: "linked g c cs \<Longrightarrow> cs \<noteq> [] \<Longrightarrow> start_at g \<in> nd_node ` set cs"
proof (induction rule: linked.induct)
  case (linked_snoc cs n)
  then show ?case by (cases "cs = []") (auto simp: attached_def)
qed simp

lemma covered_reach:
  assumes "covered g c cs []" "start_at g \<in> nd_node ` set cs" "(route_edge g c)\<^sup>*\<^sup>* (start_at g) q"
  shows "q \<in> nd_node ` set cs"
  using assms(3)
proof (induction rule: rtranclp_induct)
  case base
  show ?case by (rule assms(2))
next
  case (step y z)
  then show ?case using assms(1) unfolding covered_def by auto
qed

lemma compute_route_decides:
  assumes "wf_ground g" "in_bounds g (start_at g)"
  shows "\<exists>b os cs ar. compute_route g c = Some (b, search_state g os cs ar) \<and>
    (b \<longleftrightarrow> end_at g \<noteq> start_at g \<and> (route_edge g c)\<^sup>*\<^sup>* (start_at g) (end_at g)) \<and>
    (b \<longrightarrow> (\<exists>ps. get_route (search_state g os cs ar) = Some (True, ps) \<and> route_back g c ps)) \<and>
    (\<not> b \<longrightarrow> get_route (search_state g os cs ar) = Some (False, []))"
proof -
  obtain b os cs ar where r: "compute_route g c = Some (b, search_state g os cs ar)" "search_ok g c cs os"
    "b \<longrightarrow> end_at g \<in> nd_node ` set os \<and> cs \<noteq> []" "\<not> b \<longrightarrow> os = [] \<and> loop_inv g c cs []"
    using compute_route_total [OF assms, of c] by blast
  have "end_at g \<noteq> start_at g \<and> (route_edge g c)\<^sup>*\<^sup>* (start_at g) (end_at g)" if b
  proof -
    have e: "end_at g \<in> nd_node ` set os" "cs \<noteq> []" using r(3) that by simp_all
    then obtain n where n: "n \<in> set os" "nd_node n = end_at g" by auto
    have "attached g c cs n" by (rule search_okD(5) [OF r(2) n(1)])
    with e(2) have at: "nd_parent n \<in> nd_node ` set cs" "route_edge g c (nd_parent n) (end_at g)"
      using n(2) by (auto simp: attached_def)
    have "end_at g \<notin> nd_node ` set cs" using search_okD(1) [OF r(2)] e(1) by auto
    then have "end_at g \<noteq> start_at g" using linked_start [OF search_okD(4) [OF r(2)] e(2)] by auto
    moreover have "(route_edge g c)\<^sup>*\<^sup>* (start_at g) (nd_parent n)"
      using at(1) linked_reach [OF search_okD(4) [OF r(2)]] by auto
    ultimately show ?thesis using at(2) by (auto intro: rtranclp.rtrancl_into_rtrancl)
  qed
  moreover have "b" if "end_at g \<noteq> start_at g" "(route_edge g c)\<^sup>*\<^sup>* (start_at g) (end_at g)"
  proof (rule ccontr)
    assume "\<not> b"
    then have "loop_inv g c cs []" using r(4) by simp
    then show False using covered_reach [of g c cs "end_at g"] that by (auto simp: loop_inv_def)
  qed
  moreover have "\<exists>ps. get_route (search_state g os cs ar) = Some (True, ps) \<and> route_back g c ps" if b
    using r(3) that by (intro get_route_state [OF r(2)]) simp_all
  moreover have "get_route (search_state g os cs ar) = Some (False, [])" if "\<not> b"
    using r(4) that by (simp add: get_route_def find_from_list_def frame_simps)
  ultimately show ?thesis using r(1) by blast
qed

section \<open>The interface of the search\<close>

text \<open>
  What a caller may rely on: the search ends, touches only its own working lists (seen through
  \<open>board\<close>), says whether the goal can be reached, and the route read afterwards is the
  whole walk or nothing.
\<close>

locale route_search =
  fixes find_route :: "'g \<Rightarrow> 'c \<Rightarrow> (bool \<times> 'g) option"
    and read_route :: "'g \<Rightarrow> (bool \<times> 'p list) option"
    and board :: "'g \<Rightarrow> 'b"
    and ready :: "'g \<Rightarrow> bool"
    and from_of :: "'g \<Rightarrow> 'p" and goal_of :: "'g \<Rightarrow> 'p"
    and edge :: "'g \<Rightarrow> 'c \<Rightarrow> 'p \<Rightarrow> 'p \<Rightarrow> bool"
  assumes find_ends: "ready g \<Longrightarrow> \<exists>b g'. find_route g c = Some (b, g')"
    and find_board: "ready g \<Longrightarrow> find_route g c = Some (b, g') \<Longrightarrow> board g' = board g"
    and find_verdict: "ready g \<Longrightarrow> find_route g c = Some (b, g') \<Longrightarrow>
       b \<longleftrightarrow> goal_of g \<noteq> from_of g \<and> (edge g c)\<^sup>*\<^sup>* (from_of g) (goal_of g)"
    and read_found: "ready g \<Longrightarrow> find_route g c = Some (True, g') \<Longrightarrow>
       \<exists>ps. read_route g' = Some (True, ps) \<and> ps \<noteq> [] \<and> hd ps = goal_of g \<and> last ps = from_of g \<and>
         distinct ps \<and> successively (\<lambda>q p. edge g c p q) ps"
    and read_lost: "ready g \<Longrightarrow> find_route g c = Some (False, g') \<Longrightarrow> read_route g' = Some (False, [])"
begin

text \<open>A caller that searches and then reads the route, whatever the verdict was.\<close>

lemma search_then_read:
  assumes "ready g"
  obtains b g' ps where "find_route g c = Some (b, g')" "read_route g' = Some (b, ps)" "board g' = board g"
    "b \<longleftrightarrow> goal_of g \<noteq> from_of g \<and> (edge g c)\<^sup>*\<^sup>* (from_of g) (goal_of g)"
    "b \<Longrightarrow> ps \<noteq> [] \<and> hd ps = goal_of g \<and> last ps = from_of g \<and> distinct ps \<and>
       successively (\<lambda>q p. edge g c p q) ps"
    "\<not> b \<Longrightarrow> ps = []"
proof -
  obtain b g' where f: "find_route g c = Some (b, g')" using find_ends [OF assms] by blast
  show ?thesis
  proof (cases b)
    case True
    with read_found [OF assms, of c g'] f obtain ps where "read_route g' = Some (True, ps)"
      "ps \<noteq> [] \<and> hd ps = goal_of g \<and> last ps = from_of g \<and> distinct ps \<and>
       successively (\<lambda>q p. edge g c p q) ps" by auto
    with True show ?thesis using f find_board [OF assms f] find_verdict [OF assms f]
      by (intro that [of b g' ps]) auto
  next
    case False
    with read_lost [OF assms, of c g'] f show ?thesis
      using find_board [OF assms f] find_verdict [OF assms f]
      by (intro that [of b g' "[]"]) auto
  qed
qed

text \<open>A found route has at least two cells, and every cell after the start was entered by an edge.\<close>

lemma route_long:
  assumes "ready g" "find_route g c = Some (True, g')" "read_route g' = Some (b, ps)"
  shows "2 \<le> length ps"
proof -
  from read_found [OF assms(1,2)] assms(3) have p: "ps \<noteq> []" "hd ps = goal_of g" "last ps = from_of g" by auto
  moreover have "goal_of g \<noteq> from_of g" using find_verdict [OF assms(1,2)] by simp
  ultimately show ?thesis by (cases ps; cases "tl ps") auto
qed

end

lemma search_state_board:
  "(search_state g os cs ar)\<lparr>open_list := [], close_list := [], around_ascoord := []\<rparr> =
   g\<lparr>open_list := [], close_list := [], around_ascoord := []\<rparr>"
  by (simp add: search_state_def)

interpretation astar: route_search compute_route get_route
  "\<lambda>g. g\<lparr>open_list := [], close_list := [], around_ascoord := []\<rparr>"
  "\<lambda>g. wf_ground g \<and> in_bounds g (start_at g)" start_at end_at route_edge
proof
  fix g c b g'
  assume rd: "wf_ground g \<and> in_bounds g (start_at g)"
  then obtain b' os cs ar where r: "compute_route g c = Some (b', search_state g os cs ar)"
    "b' \<longleftrightarrow> end_at g \<noteq> start_at g \<and> (route_edge g c)\<^sup>*\<^sup>* (start_at g) (end_at g)"
    "b' \<longrightarrow> (\<exists>ps. get_route (search_state g os cs ar) = Some (True, ps) \<and> route_back g c ps)"
    "\<not> b' \<longrightarrow> get_route (search_state g os cs ar) = Some (False, [])"
    using compute_route_decides [of g c] by blast
  show "\<exists>b g'. compute_route g c = Some (b, g')" using r(1) by blast
  show "compute_route g c = Some (b, g') \<Longrightarrow>
      g'\<lparr>open_list := [], close_list := [], around_ascoord := []\<rparr> =
      g\<lparr>open_list := [], close_list := [], around_ascoord := []\<rparr>"
    using r(1) by (auto simp: search_state_board)
  show "compute_route g c = Some (b, g') \<Longrightarrow>
      b \<longleftrightarrow> end_at g \<noteq> start_at g \<and> (route_edge g c)\<^sup>*\<^sup>* (start_at g) (end_at g)"
    using r(1,2) by simp
  show "compute_route g c = Some (True, g') \<Longrightarrow>
      \<exists>ps. get_route g' = Some (True, ps) \<and> ps \<noteq> [] \<and> hd ps = end_at g \<and> last ps = start_at g \<and>
        distinct ps \<and> successively (\<lambda>q p. route_edge g c p q) ps"
    using r(1,3) by (auto simp: route_back_def)
  show "compute_route g c = Some (False, g') \<Longrightarrow> get_route g' = Some (False, [])"
    using r(1,4) by auto
qed

section \<open>Properties\<close>

text \<open>C1: on a well-formed board with the start on it, \<^verbatim>\<open>ComputeRoute\<close> ends without reading outside
  the board or through \<^verbatim>\<open>NULL\<close>, and returns true exactly when the end differs from the start and can be
  reached from it through neighbouring passable cells.\<close>

theorem compute_route_correct:
  assumes "wf_ground g" "in_bounds g (start_at g)"
  shows "\<exists>g'. compute_route g c =
    Some (end_at g \<noteq> start_at g \<and> (route_edge g c)\<^sup>*\<^sup>* (start_at g) (end_at g), g')"
  using astar.find_ends [of g c] astar.find_verdict [of g c] assms by blast

definition duel_route :: battle_ground where
  "duel_route = set_end (set_start duel (Ascoord 0 0)) (Ascoord 2 1)"

lemma duel_route_ready [simp]: "wf_ground duel_route" "start_at duel_route = Ascoord 0 0"
    "in_bounds duel_route (Ascoord 0 0)" "end_at duel_route = Ascoord 2 1"
  using duel_wf by (simp_all add: duel_route_def set_end_def set_start_def wf_ground_def in_bounds_def)

theorem compute_route_correct_witness:
  "\<exists>g'. compute_route duel_route 0 =
    Some (Ascoord 2 1 \<noteq> Ascoord 0 0 \<and> (route_edge duel_route 0)\<^sup>*\<^sup>* (Ascoord 0 0) (Ascoord 2 1), g')"
  using compute_route_correct [of duel_route 0] by simp

text \<open>C2: after a successful search \<^verbatim>\<open>GetRoute\<close> ends, never meets a \<^verbatim>\<open>NULL\<close> node, and yields the cells
  of a walk listed from the end back to the start, each entered from the next one over a passable
  neighbour, none of them twice; after an unsuccessful search it yields no cell.\<close>

theorem get_route_correct:
  assumes "wf_ground g" "in_bounds g (start_at g)" "compute_route g c = Some (b, g')"
  shows "\<exists>ps. get_route g' = Some (b, ps) \<and> (if b then route_back g c ps else ps = [])"
  using astar.read_found [of g c g'] astar.read_lost [of g c g'] assms
  by (cases b) (auto simp: route_back_def)

theorem get_route_correct_witness:
  "\<exists>b g' ps. compute_route duel_route 0 = Some (b, g') \<and> get_route g' = Some (b, ps) \<and>
     (if b then route_back duel_route 0 ps else ps = [])"
proof -
  obtain b g' where "compute_route duel_route 0 = Some (b, g')"
    using astar.find_ends [of duel_route 0] by auto
  with get_route_correct [of duel_route 0 b g'] show ?thesis by simp
qed

text \<open>The search changes nothing of the battle ground but its own open list, closed list and
  neighbourhood.\<close>

theorem compute_route_frame:
  assumes "wf_ground g" "in_bounds g (start_at g)" "compute_route g c = Some (b, g')"
  shows "g' = g\<lparr>open_list := open_list g', close_list := close_list g', around_ascoord := around_ascoord g'\<rparr>"
proof -
  obtain os cs ar where "g' = search_state g os cs ar"
    using compute_route_decides [OF assms(1,2), of c] assms(3) by auto
  then show ?thesis by (simp add: search_state_def)
qed

theorem compute_route_frame_witness:
  "\<exists>g'. g' = duel_route\<lparr>open_list := open_list g', close_list := close_list g',
     around_ascoord := around_ascoord g'\<rparr> \<and> map_option snd (compute_route duel_route 0) = Some g'"
proof -
  obtain b g' where "compute_route duel_route 0 = Some (b, g')"
    using astar.find_ends [of duel_route 0] by auto
  with compute_route_frame [of duel_route 0 b g'] show ?thesis by auto
qed

text \<open>The movement cost of a cell is read from the table before the cell is tested for being an
  obstacle, so for impassable terrain it is read from outside the table; whatever is found there, the
  verdict of the search is the same.\<close>

theorem compute_route_ignores_stray:
  assumes "wf_ground g" "in_bounds g (start_at g)"
  shows "map_option fst (compute_route (g\<lparr>stray_ride := s\<rparr>) c) = map_option fst (compute_route g c)"
proof -
  let ?h = "g\<lparr>stray_ride := s\<rparr>"
  have edge: "route_edge ?h c = route_edge g c"
    by (intro ext) (simp add: route_edge_def is_obstract_def is_in_around_def check_up_def ground_at_def
        fighter_at_def cell_index_def cong: option.case_cong)
  have "wf_ground ?h \<and> in_bounds ?h (start_at ?h)" using assms by (simp add: wf_ground_def in_bounds_def)
  from compute_route_decides [OF conjunct1 [OF this] conjunct2 [OF this], of c] compute_route_decides [OF assms, of c]
  show ?thesis by (auto simp: edge)
qed

theorem compute_route_ignores_stray_witness:
  "map_option fst (compute_route (duel_route\<lparr>stray_ride := (\<lambda>_ _. 7)\<rparr>) 0) = map_option fst (compute_route duel_route 0)"
  by (rule compute_route_ignores_stray) simp_all

text \<open>For a fighter of one of the three types, on a board of the four terrains and obstacles, the whole search
  is the same whatever lies outside the table.\<close>

definition known_kind :: "u8 \<Rightarrow> bool" where
  "known_kind k \<longleftrightarrow> 1 \<le> k \<and> k \<le> 3"

definition known_terrain :: "battle_ground \<Rightarrow> bool" where
  "known_terrain g \<longleftrightarrow> list_all (\<lambda>t. t \<le> 4) (map_ground g)"

lemma known_in_ride_sub:
  fixes t :: u8
  assumes "known_kind k" "t \<noteq> 0" "t \<le> 4"
  shows "in_ride_sub (uint k - 1) (uint t - 1)"
proof -
  have "1 \<le> uint k" "uint k \<le> 3" using assms(1) by (simp_all add: known_kind_def word_le_def)
  moreover have "uint t \<le> 4" "0 < uint t" using assms(2,3) uint_0_iff [of t] by (auto simp: word_le_def order.strict_iff_order)
  ultimately show ?thesis by (simp add: in_ride_sub_def)
qed

lemma terrain_bound: "known_terrain g \<Longrightarrow> ground_at g p = Some t \<Longrightarrow> t \<le> 4"
  by (auto simp: known_terrain_def ground_at_def nth_opt_def list_all_iff split: if_splits)

definition stray_as :: "(int \<Rightarrow> int \<Rightarrow> u8) \<Rightarrow> battle_ground \<Rightarrow> battle_ground" where
  "stray_as s g = g\<lparr>stray_ride := s\<rparr>"

lemma stray_fields [simp]:
  "heap (stray_as s g) = heap g" "map_ground (stray_as s g) = map_ground g" "open_list (stray_as s g) = open_list g"
  "close_list (stray_as s g) = close_list g" "start_at (stray_as s g) = start_at g" "end_at (stray_as s g) = end_at g"
  "stray_ride (stray_as s g) = s"
  "(stray_as s g)\<lparr>open_list := os\<rparr> = stray_as s (g\<lparr>open_list := os\<rparr>)"
  "(stray_as s g)\<lparr>close_list := cs\<rparr> = stray_as s (g\<lparr>close_list := cs\<rparr>)"
  "(stray_as s g)\<lparr>around_ascoord := ar\<rparr> = stray_as s (g\<lparr>around_ascoord := ar\<rparr>)"
  by (simp_all add: stray_as_def)

lemma stray_reads [simp]:
  "is_obstract (stray_as s g) c p = is_obstract g c p" "get_h_value (stray_as s g) p = get_h_value g p"
  "check_up (stray_as s g) ps = check_up g ps" "ground_at (stray_as s g) p = ground_at g p"
  by (simp_all add: stray_as_def is_obstract_def is_in_around_def check_up_def ground_at_def fighter_at_def cell_index_def
      get_h_value_def cong: option.case_cong)

lemma judge_stray:
  "judge_surround (stray_as s g) c q p v = map_option (map_prod id (stray_as s)) (judge_surround g c q p v)"
proof (cases "is_obstract g c q")
  case (Some b)
  show ?thesis using Some
    by (cases b; cases "find_from_list (open_list g) q") (simp_all add: judge_surround_def Let_def node_init_def)
qed (simp add: judge_surround_def)

lemma judge_keeps:
  assumes "judge_surround g c q p v = Some (b, h)"
  shows "heap h = heap g \<and> map_ground h = map_ground g"
proof (cases "is_in_list (close_list g) q")
  case False
  obtain ob where "is_obstract g c q = Some ob" using assms False by (auto simp: judge_surround_def bind_eq_Some_conv)
  then show ?thesis using assms False
    by (cases ob; cases "find_from_list (open_list g) q") (auto simp: judge_surround_def Let_def split: if_splits)
qed (use assms in \<open>simp add: judge_surround_def\<close>)

lemma judge_one_stray:
  assumes "known_kind (bf_type (heap g c))" "known_terrain g"
  shows "do { a \<leftarrow> get_g_value (stray_as s g) c q; judge_surround (stray_as s g) c q p (v + a) } =
    map_option (map_prod id (stray_as s)) (do { a \<leftarrow> get_g_value g c q; judge_surround g c q p (v + a) })"
proof (cases "ground_at g q")
  case None
  then show ?thesis by (simp add: get_g_value_def)
next
  case (Some t)
  show ?thesis
  proof (cases "t = 0")
    case True
    have "judge_surround g c q p x = judge_surround g c q p y" for x y
      using Some True by (cases "fighter_at g q") (simp_all add: judge_surround_def is_obstract_def Let_def)
    from this [of "v + s (uint (bf_type (heap g c)) - 1) (uint t - 1) * 2"
        "v + stray_ride g (uint (bf_type (heap g c)) - 1) (uint t - 1) * 2"]
    show ?thesis using Some by (simp add: get_g_value_def judge_stray Let_def)
  next
    case False
    have "in_ride_sub (uint (bf_type (heap g c)) - 1) (uint t - 1)"
      by (rule known_in_ride_sub [OF assms(1) False terrain_bound [OF assms(2) Some]])
    then show ?thesis using Some by (simp add: get_g_value_def judge_stray Let_def)
  qed
qed

lemma judge_all_stray:
  "known_kind (bf_type (heap g c)) \<Longrightarrow> known_terrain g \<Longrightarrow>
   judge_all (stray_as s g) c p v qs = map_option (map_prod id (stray_as s)) (judge_all g c p v qs)"
proof (induction qs arbitrary: g)
  case (Cons q qs)
  have all: "judge_all k c p v (q # qs) =
      do { r \<leftarrow> do { a \<leftarrow> get_g_value k c q; judge_surround k c q p (v + a) };
           if fst r then Some (True, snd r) else judge_all (snd r) c p v qs }" for k
    by (simp add: Option.bind_assoc)
  show ?case unfolding all judge_one_stray [OF Cons.prems]
  proof (cases "do { a \<leftarrow> get_g_value g c q; judge_surround g c q p (v + a) }")
    case (Some r)
    then have "heap (snd r) = heap g \<and> map_ground (snd r) = map_ground g"
      using judge_keeps by (cases r) (auto simp: bind_eq_Some_conv)
    then have "known_kind (bf_type (heap (snd r) c))" "known_terrain (snd r)"
      using Cons.prems by (simp_all add: known_terrain_def)
    then show "do { r \<leftarrow> map_option (map_prod id (stray_as s)) (do { a \<leftarrow> get_g_value g c q; judge_surround g c q p (v + a) });
           if fst r then Some (True, snd r) else judge_all (snd r) c p v qs } =
        map_option (map_prod id (stray_as s))
          (do { r \<leftarrow> do { a \<leftarrow> get_g_value g c q; judge_surround g c q p (v + a) };
               if fst r then Some (True, snd r) else judge_all (snd r) c p v qs })"
      using Cons.IH [of "snd r"] unfolding Some by (cases r) (simp add: id_def)
  qed simp
qed simp

lemma judge_all_keeps: "judge_all g c p v qs = Some (b, h) \<Longrightarrow> heap h = heap g \<and> map_ground h = map_ground g"
proof (induction qs arbitrary: g)
  case (Cons q qs)
  then obtain a r where "judge_surround g c q p (v + a) = Some r"
    "(if fst r then Some (True, snd r) else judge_all (snd r) c p v qs) = Some (b, h)"
    by (auto simp: bind_eq_Some_conv)
  then show ?case using judge_keeps [of g c q p "v + a" "fst r" "snd r"] Cons.IH [of "snd r"] by (auto split: if_splits)
qed simp

lemma expand_stray:
  assumes "known_kind (bf_type (heap g c))" "known_terrain g"
  shows "expand_best (stray_as s g) c n = map_option (map_prod id (map_prod id (stray_as s))) (expand_best g c n)"
proof -
  obtain b n' g1 where p: "pop_best_step g n = (b, n', g1)" by (cases "pop_best_step g n") auto
  then have p': "pop_best_step (stray_as s g) n = (b, n', stray_as s g1)" and k: "heap g1 = heap g" "map_ground g1 = map_ground g"
    by (auto simp: pop_best_step_def Let_def split: list.splits)
  let ?around = "check_up g (get_around (nd_node n'))"
  let ?g2 = "g1\<lparr>close_list := close_list g1 @ [n'], around_ascoord := ?around\<rparr>"
  have "known_kind (bf_type (heap ?g2 c))" "known_terrain ?g2" using assms k by (simp_all add: known_terrain_def)
  note j = judge_all_stray [OF this, of s "nd_node n'" "nd_g n'" ?around]
  show ?thesis
    using j by (cases "judge_all ?g2 c (nd_node n') (nd_g n') ?around") (simp_all add: expand_best_def p p' Let_def)
qed

lemma expand_keeps: "expand_best g c n = Some (b, n', h) \<Longrightarrow> heap h = heap g \<and> map_ground h = map_ground g"
proof -
  assume e: "expand_best g c n = Some (b, n', h)"
  obtain b1 n1 g1 where p: "pop_best_step g n = (b1, n1, g1)" by (cases "pop_best_step g n") auto
  have "heap g1 = heap g" "map_ground g1 = map_ground g" using p by (auto simp: pop_best_step_def Let_def split: list.splits)
  then show ?thesis using e p by (auto simp: expand_best_def Let_def bind_eq_Some_conv dest!: judge_all_keeps)
qed

lemma route_loop_stray:
  "route_loop g c n = Some r \<Longrightarrow> known_kind (bf_type (heap g c)) \<and> known_terrain g \<longrightarrow>
   route_loop (stray_as s g) c n = Some (fst r, stray_as s (snd r))"
proof (rule route_loop.raw_induct [where P = "\<lambda>g c n r. known_kind (bf_type (heap g c)) \<and> known_terrain g \<longrightarrow>
    route_loop (stray_as s g) c n = Some (fst r, stray_as s (snd r))", rotated], assumption)
  fix loop :: "battle_ground \<Rightarrow> nat \<Rightarrow> node \<Rightarrow> (bool \<times> battle_ground) option" and g c n r
  assume 1: "\<And>g c n r. loop g c n = Some r \<Longrightarrow> known_kind (bf_type (heap g c)) \<and> known_terrain g \<longrightarrow>
      route_loop (stray_as s g) c n = Some (fst r, stray_as s (snd r))"
    "(if open_list g = [] then Some (False, g)
      else expand_best g c n \<bind> (\<lambda>r. if fst r then Some (True, snd (snd r)) else loop (snd (snd r)) c (fst (snd r)))) = Some r"
  show "known_kind (bf_type (heap g c)) \<and> known_terrain g \<longrightarrow>
      route_loop (stray_as s g) c n = Some (fst r, stray_as s (snd r))"
  proof (intro impI, elim conjE)
    assume k: "known_kind (bf_type (heap g c))" "known_terrain g"
    show "route_loop (stray_as s g) c n = Some (fst r, stray_as s (snd r))"
    proof (cases "open_list g = []")
      case True
      then have "r = (False, g)" using 1(2) by simp
      then show ?thesis using True by (simp add: route_loop.simps)
    next
      case False
      then obtain e where "expand_best g c n = Some e"
        "(if fst e then Some (True, snd (snd e)) else loop (snd (snd e)) c (fst (snd e))) = Some r"
        using 1(2) by (auto simp only: bind_eq_Some_conv if_False)
      then obtain b n' h where e: "expand_best g c n = Some (b, n', h)" "(if b then Some (True, h) else loop h c n') = Some r"
        by (cases e) (auto split: if_splits)
      have "known_kind (bf_type (heap h c))" "known_terrain h"
        using expand_keeps [OF e(1)] k by (simp_all add: known_terrain_def)
      moreover have "expand_best (stray_as s g) c n = Some (b, n', stray_as s h)"
        using expand_stray [OF k, of s n] e(1) by simp
      ultimately show ?thesis using 1(1) [of h c n' r] e(2) False
        by (auto simp: route_loop.simps [of "stray_as s g"] split: if_splits)
    qed
  qed
qed

theorem compute_route_same_stray:
  assumes "known_kind (bf_type (heap g c))" "known_terrain g" "compute_route g c = Some (b, h)"
  shows "compute_route (stray_as s g) c = Some (b, stray_as s h)"
proof -
  let ?n = "node_init (start_at g) 0 (get_h_value g (start_at g))"
  have "route_loop (g\<lparr>open_list := [?n], close_list := []\<rparr>) c ?n = Some (b, h)"
    using assms(3) unfolding compute_route_def Let_def .
  from route_loop_stray [OF this, of s] assms(1,2) show ?thesis
    by (simp add: compute_route_def known_terrain_def Let_def)
qed

theorem compute_route_same_stray_witness:
  "\<exists>b h. compute_route duel_route 0 = Some (b, h) \<and>
     compute_route (stray_as (\<lambda>_ _. 7) duel_route) 0 = Some (b, stray_as (\<lambda>_ _. 7) h)"
proof -
  have k: "known_kind (bf_type (heap duel_route 0))" "known_terrain duel_route"
    by (simp_all add: known_kind_def known_terrain_def duel_route_def set_end_def set_start_def soldier_def)
  obtain b h where "compute_route duel_route 0 = Some (b, h)"
    using compute_route_decides [of duel_route 0] by auto
  with compute_route_same_stray [OF k this, of "\<lambda>_ _. 7"] show ?thesis by blast
qed

text \<open>\<^verbatim>\<open>PopBestStep\<close> takes from an open list of distinct cells a node of least cost estimate and
  removes exactly that node.\<close>

theorem pop_best_least:
  assumes "open_list g \<noteq> []" "distinct (map nd_node (open_list g))"
    "pop_best_step g k = (b, n, g')"
  shows "b \<and> mset (open_list g) = add_mset n (mset (open_list g')) \<and>
    (\<forall>m \<in> set (open_list g). uint (nd_g n) + uint (nd_h n) \<le> uint (nd_g m) + uint (nd_h m))"
proof -
  have "g = search_state g (open_list g) (close_list g) (around_ascoord g)" by (simp add: search_state_def)
  with pop_best_step_state [OF assms(1,2), of g "close_list g" "around_ascoord g" k] assms(3)
  show ?thesis by (metis prod.inject search_state_simps(1))
qed

theorem pop_best_least_witness:
  "\<exists>n g'. pop_best_step (duel\<lparr>open_list := [node_init (Ascoord 0 0) 3 0, node_init (Ascoord 1 0) 1 1]\<rparr>) (node_init (Ascoord 0 0) 0 0) = (True, n, g') \<and>
     (\<forall>m \<in> {node_init (Ascoord 0 0) 3 0, node_init (Ascoord 1 0) 1 1}.
        uint (nd_g n) + uint (nd_h n) \<le> uint (nd_g m) + uint (nd_h m))"
proof -
  let ?g = "duel\<lparr>open_list := [node_init (Ascoord 0 0) 3 0, node_init (Ascoord 1 0) 1 1]\<rparr>"
  obtain b n g' where p: "pop_best_step ?g (node_init (Ascoord 0 0) 0 0) = (b, n, g')"
    by (cases "pop_best_step ?g (node_init (Ascoord 0 0) 0 0)") auto
  show ?thesis using pop_best_least [OF _ _ p] p by (auto simp: node_init_def)
qed

end
