(* ===== verification/TargetSelect.thy ===== *)
theory TargetSelect
  imports PathFinder
begin

text \<open>
  The choice of a target: the functions of \<^verbatim>\<open>BattleGround.cpp\<close> that list the enemies near a
  fighter, judge for each of them whether and from where it can be attacked at what cost
  (\<^verbatim>\<open>Analyse\<close> for hand-to-hand fighters, \<^verbatim>\<open>AttackInStyle\<close> and \<^verbatim>\<open>BowAnalyse\<close> for
  archers) and record it in \<^verbatim>\<open>_vecTarget\<close>; and the choice of a cell to move to when nothing can
  be attacked (\<^verbatim>\<open>GetMovePosition\<close>).

  The argument \<open>c\<close> is the fighter \<^verbatim>\<open>_currentBf\<close> points to.  As before \<open>None\<close> is an
  undefined read.
\<close>

section \<open>The surroundings\<close>

definition priority_table :: "u8 list list" where
  "priority_table = [[1,1,2], [1,2,1], [2,1,3]]"

definition priority_at :: "int \<Rightarrow> int \<Rightarrow> u8 option" where
  "priority_at i j = (if 0 \<le> i \<and> i < 3 \<and> 0 \<le> j \<and> j < 3 then Some (priority_table ! nat i ! nat j) else None)"

definition more_fit :: "target_info \<Rightarrow> target_info \<Rightarrow> bool" where
  "more_fit a b = (if ti_pri a > ti_pri b then True else if ti_cost a < ti_cost b then True else False)"

definition bow_more_fit :: "target_info \<Rightarrow> target_info \<Rightarrow> bool" where
  "bow_more_fit a b = (if ti_cost a < ti_cost b then True else if ti_pri a > ti_pri b then True else False)"

section \<open>Enemies in reach\<close>

text \<open>The cells \<^verbatim>\<open>GetNearEnemy\<close> visits.  Its outer loop tests the row of the fighter, not the row
  counter, so the rows run on to the lower edge.\<close>

definition near_cells :: "battle_ground \<Rightarrow> nat \<Rightarrow> u8 \<Rightarrow> u8 \<Rightarrow> ascoord list" where
  "near_cells g c x y =
     (let range = uint (bf_range (heap g c) + bf_move (heap g c));
          X = uint x; Y = uint y; W = uint (g_x g); H = uint (g_y g);
          j0 = (if Y > range then Y - range else 0);
          i0 = (if X > range then X - range else 0);
          jtest = (Y \<le> (if Y + range \<ge> H then H - 1 else Y + range));
          ilast = (if X + range \<ge> W then W - 1 else X + range)
      in concat (map (\<lambda>j. map (\<lambda>i. Ascoord (word_of_int i) (word_of_int j))
                            [i0 .. min ilast (W - 1)])
                     (if jtest then [j0 .. H - 1] else [])))"

definition get_near_enemy :: "battle_ground \<Rightarrow> nat \<Rightarrow> u8 \<Rightarrow> u8 \<Rightarrow> ascoord list option" where
  "get_near_enemy g c x y = filter_opt (near_enemy_test g c) (near_cells g c x y)"

text \<open>\<^verbatim>\<open>GetRideZone\<close>: the rows, and nothing but the rows.  The column loop of each row starts at a value
  computed from its own counter, which has none yet: there is no result as soon as there is a row.\<close>

definition ride_rows :: "battle_ground \<Rightarrow> nat \<Rightarrow> int list" where
  "ride_rows g c =
     (let ride = uint (bf_move (heap g c)); Y = uint (bf_y (heap g c)); H = uint (g_y g);
          j0 = (if Y > ride then Y - ride else 0);
          j1 = (if Y + ride > H then H else Y + ride)
      in [j0 .. min j1 H - 1])"

definition get_ride_zone :: "battle_ground \<Rightarrow> nat \<Rightarrow> ascoord list option" where
  "get_ride_zone g c = (if ride_rows g c = [] then Some [] else None)"

text \<open>Cells to retreat to.  The enemies judged are given (first version) or looked up around each
  candidate (second version, which the archers do not use).\<close>

definition retreat_pairs ::
  "battle_ground \<Rightarrow> nat \<Rightarrow> ascoord \<Rightarrow> ascoord list \<Rightarrow> (ascoord \<Rightarrow> ascoord) \<Rightarrow> attack_info list option" where
  "retreat_pairs g c p enemies aim =
     do { es \<leftarrow> filter_opt (\<lambda>e. if is_in_attack_zone g c p (aim e)
                               then map_option Not (enemy_can_attack g e p) else Some False) enemies;
          Some (map (\<lambda>e. \<lparr>ai_attack = p, ai_target = e\<rparr>) es) }"

definition get_back_position :: "battle_ground \<Rightarrow> nat \<Rightarrow> ascoord list \<Rightarrow> attack_info list option" where
  "get_back_position g c enemies =
     do { zone \<leftarrow> get_ride_zone g c;
          foldm (\<lambda>acc p. do { as \<leftarrow> retreat_pairs g c p enemies (\<lambda>e. e); Some (acc @ as) }) [] zone }"

definition get_back_position_for :: "battle_ground \<Rightarrow> nat \<Rightarrow> ascoord \<Rightarrow> attack_info list option" where
  "get_back_position_for g c target =
     do { zone \<leftarrow> get_ride_zone g c;
          foldm (\<lambda>acc p. do { enemies \<leftarrow> get_near_enemy g c (acx p) (acy p);
                               as \<leftarrow> retreat_pairs g c p enemies (\<lambda>_. target);
                               Some (acc @ as) }) [] zone }"

section \<open>Recording a target\<close>

definition add_priority :: "game_env \<Rightarrow> battle_ground \<Rightarrow> nat \<Rightarrow> ascoord \<Rightarrow> u8 option" where
  "add_priority env g c target =
     (let x = bf_x (heap g c); y = bf_y (heap g c); tx = acx target; ty = acy target
      in do { mi \<leftarrow> ge_map env (map_id g);
              let d = mi_direct mi (bf_side (heap g c));
                  dir = (if d = 0 then 1 else d);
                  styled = (case bf_owner (heap g c) of None \<Rightarrow> False | Some o1 \<Rightarrow> ge_style env o1 \<noteq> 0);
                  extra =
                    (if dir = 1 then (if ty = y \<and> x > tx then g_x g - (x - tx) else 0)
                     else if dir = 2 then (if ty = y \<and> x < tx then g_x g - (tx - x) else 0)
                     else if dir = 3 then (if x = tx \<and> ty < y then g_y g - (y - ty) else 0)
                     else if dir = 4 then (if x = tx \<and> ty > y then g_y g - (ty - y) else 0)
                     else 0)
              in Some (if styled then extra * 2 else 0) })"

text \<open>The statement \<^verbatim>\<open>_vecTarget.push_back\<close> all the judging functions end with.\<close>

definition push_target ::
  "game_env \<Rightarrow> battle_ground \<Rightarrow> nat \<Rightarrow> ascoord \<Rightarrow> ascoord \<Rightarrow> u8 \<Rightarrow> battle_ground option" where
  "push_target env g c target attack cost =
     do { f \<leftarrow> fighter_at g target;
          b \<leftarrow> f;
          base \<leftarrow> priority_at (uint (bf_class (heap g c)) - 1) (uint (bf_class (heap g b)) - 1);
          add \<leftarrow> add_priority env g c target;
          Some (g\<lparr>vec_target := vec_target g @
                [\<lparr>ti_bo = b, ti_attack = attack, ti_cost = cost, ti_pri = base + add\<rparr>]\<rparr>) }"

section \<open>Judging a route\<close>

definition free_cell :: "battle_ground \<Rightarrow> ascoord \<Rightarrow> bool option" where
  "free_cell g p =
     do { f \<leftarrow> fighter_at g p;
          Some (case f of None \<Rightarrow> True | Some b \<Rightarrow> bf_hp (heap g b) \<le> 0) }"

text \<open>The cost of entering a cell: the ride cost, and one more next to an enemy unless the cell touches
  the target.\<close>

definition enter_cost :: "battle_ground \<Rightarrow> nat \<Rightarrow> ascoord \<Rightarrow> ascoord \<Rightarrow> u8 \<Rightarrow> u8 option" where
  "enter_cost g c target p cost =
     do { r \<leftarrow> get_ride_sub g c p;
          let dis = get_distance p target;
              cost1 = cost + r
          in do { nb \<leftarrow> is_nearby_have_enemy g c p;
                  Some (if nb \<and> dis > 0 then cost1 + 1 else cost1) } }"

text \<open>The loop of \<^verbatim>\<open>Analyse\<close>.  The result is \<open>Some None\<close> where the code returns.  The
  iterator is advanced and read without a test for the end of the path.\<close>

fun analyse_walk ::
  "battle_ground \<Rightarrow> nat \<Rightarrow> ascoord \<Rightarrow> ascoord list \<Rightarrow> u8 \<Rightarrow> (ascoord \<times> u8) option option" where
  "analyse_walk g c target [] cost = Some (Some (Ascoord 0 0, cost))"
| "analyse_walk g c target (p # ps) cost =
     (if is_in_attack_zone g c p target
      then do { fr \<leftarrow> free_cell g p; Some (if fr then Some (p, cost) else None) }
      else case ps of
          [] \<Rightarrow> None
        | q # _ \<Rightarrow> do { cost' \<leftarrow> enter_cost g c target q cost; analyse_walk g c target ps cost' })"

definition analyse ::
  "game_env \<Rightarrow> battle_ground \<Rightarrow> nat \<Rightarrow> ascoord list \<Rightarrow> ascoord \<Rightarrow> battle_ground option" where
  "analyse env g c path target =
     (let rp = rev path
      in if length rp < 2 then Some g
         else do { w \<leftarrow> (if length rp = 2 then Some (Some (start_at g, 0)) else analyse_walk g c target rp 0);
           case w of
             None \<Rightarrow> Some g
           | Some (attack, cost) \<Rightarrow>
               do { ride \<leftarrow> get_ride_sub g c attack;
                    let movePower = bf_move (heap g c)
                    in if cost > movePower
                       then (if cost - ride \<ge> movePower then Some g
                             else if is_in_around g attack target
                             then push_target env g c target attack cost
                             else Some g)
                       else push_target env g c target attack cost } })"

text \<open>The loop of \<^verbatim>\<open>BowAnalyse\<close>, which starts at the second cell.  When the path ends before an
  attack cell was met, the attack cell keeps its default value.\<close>

fun bow_walk ::
  "battle_ground \<Rightarrow> nat \<Rightarrow> ascoord \<Rightarrow> ascoord list \<Rightarrow> u8 \<Rightarrow> (ascoord \<times> u8) option option" where
  "bow_walk g c target [] cost = Some (Some (Ascoord 0 0, cost))"
| "bow_walk g c target (p # ps) cost =
     do { r \<leftarrow> get_ride_sub g c p;
          if is_in_attack_zone g c p target
          then do { fr \<leftarrow> free_cell g p; Some (if fr then Some (p, cost + r) else None) }
          else do { cost' \<leftarrow> enter_cost g c target p cost; bow_walk g c target ps cost' } }"

definition bow_analyse ::
  "game_env \<Rightarrow> battle_ground \<Rightarrow> nat \<Rightarrow> ascoord list \<Rightarrow> ascoord \<Rightarrow> battle_ground option" where
  "bow_analyse env g c path target =
     (let rp = rev path
      in if length rp < 2 then Some g
         else do { w \<leftarrow> bow_walk g c target (tl rp) 0;
           case w of
             None \<Rightarrow> Some g
           | Some (attack, cost) \<Rightarrow>
               if cost > bf_move (heap g c) then Some g
               else push_target env g c target attack cost })"

section \<open>Ways to attack\<close>

definition my_pos :: "battle_ground \<Rightarrow> nat \<Rightarrow> ascoord" where
  "my_pos g c = Ascoord (bf_x (heap g c)) (bf_y (heap g c))"

text \<open>The three statements every search is started with: end, search, read the route.  The result of
  \<^verbatim>\<open>GetRoute\<close> is ignored by the callers; the list is what they use.\<close>

definition find_path ::
  "battle_ground \<Rightarrow> nat \<Rightarrow> ascoord \<Rightarrow> (ascoord list \<times> battle_ground) option" where
  "find_path g c target =
     do { r \<leftarrow> compute_route (set_end g target) c;
          p \<leftarrow> get_route (snd r);
          Some (snd p, snd r) }"

definition shoot_current_attack ::
  "game_env \<Rightarrow> battle_ground \<Rightarrow> nat \<Rightarrow> ascoord \<Rightarrow> battle_ground option" where
  "shoot_current_attack env g c target = push_target env g c target (my_pos g c) 0"

definition shoot_front_attack ::
  "game_env \<Rightarrow> battle_ground \<Rightarrow> nat \<Rightarrow> ascoord \<Rightarrow> battle_ground option" where
  "shoot_front_attack env g c target =
     do { r \<leftarrow> find_path (set_start g (my_pos g c)) c target;
          analyse env (snd r) c (fst r) target }"

definition shoot_back_attack ::
  "game_env \<Rightarrow> battle_ground \<Rightarrow> nat \<Rightarrow> ascoord \<Rightarrow> battle_ground option" where
  "shoot_back_attack env g c target =
     do { enemies \<leftarrow> get_near_enemy g c (bf_x (heap g c)) (bf_y (heap g c));
          vecFinal \<leftarrow> get_back_position g c enemies;
          if vecFinal = [] then shoot_current_attack env g c target
          else foldm (\<lambda>h ai. do { r \<leftarrow> find_path h c (ai_attack ai);
                                   bow_analyse env (snd r) c (fst r) (ai_target ai) })
                     (set_start g (my_pos g c)) vecFinal }"

definition attack_in_style ::
  "game_env \<Rightarrow> battle_ground \<Rightarrow> nat \<Rightarrow> u8 \<Rightarrow> u8 \<Rightarrow> ascoord \<Rightarrow> battle_ground option" where
  "attack_in_style env g c x y target =
     do { ns \<leftarrow> get_neighbour_enemy g c x y;
          let myPos = Ascoord x y
          in if is_in_around g myPos target \<and> length ns \<le> 6 then shoot_back_attack env g c target
             else if length ns = 6 \<or> is_in_attack_zone g c myPos target
             then shoot_current_attack env g c target
             else shoot_front_attack env g c target }"

definition bow_get_target ::
  "game_env \<Rightarrow> battle_ground \<Rightarrow> nat \<Rightarrow> u8 \<Rightarrow> u8 \<Rightarrow> ascoord list \<Rightarrow> battle_ground option" where
  "bow_get_target env g c x y enemies = foldm (\<lambda>h e. attack_in_style env h c x y e) g enemies"

definition get_target ::
  "game_env \<Rightarrow> battle_ground \<Rightarrow> nat \<Rightarrow> u8 \<Rightarrow> u8 \<Rightarrow> battle_ground option" where
  "get_target env g c x y =
     do { enemies \<leftarrow> get_near_enemy g c x y;
          if enemies = [] then Some g
          else if bf_type (heap g c) = 3 then bow_get_target env g c x y enemies
          else foldm (\<lambda>h e. do { r \<leftarrow> find_path h c e; analyse env (snd r) c (fst r) e })
                     (set_start g (Ascoord x y)) enemies }"

section \<open>Where to move\<close>

definition in_my_attack_has_enemy :: "battle_ground \<Rightarrow> nat \<Rightarrow> bool option" where
  "in_my_attack_has_enemy g c =
     (let X = uint (bf_x (heap g c)); Y = uint (bf_y (heap g c)); d = uint (bf_range (heap g c));
          W = uint (g_x g); H = uint (g_y g)
      in exists_opt (neighbour_keep g c)
           (concat (map (\<lambda>j. map (\<lambda>i. Ascoord (word_of_int i) (word_of_int j))
                [if X - d > 0 then X - d else 0 .. (if X + d + 1 > W then W else X + d + 1) - 1])
              [if Y - d > 0 then Y - d else 0 .. (if Y + d + 1 > H then H else Y + d + 1) - 1])))"

text \<open>The first cell of a path, from its far end, that no living fighter holds.\<close>

fun first_free :: "battle_ground \<Rightarrow> ascoord list \<Rightarrow> ascoord option option" where
  "first_free g [] = Some None"
| "first_free g (p # ps) = do { fr \<leftarrow> free_cell g p; if fr then Some (Some p) else first_free g ps }"

definition get_move_pos :: "battle_ground \<Rightarrow> ascoord list \<Rightarrow> ascoord \<Rightarrow> ascoord option" where
  "get_move_pos g path move =
     do { m \<leftarrow> first_free g (rev path); Some (case m of None \<Rightarrow> move | Some p \<Rightarrow> p) }"

fun move_walk :: "battle_ground \<Rightarrow> nat \<Rightarrow> ascoord \<Rightarrow> ascoord list \<Rightarrow> u8 \<Rightarrow> ascoord \<Rightarrow> ascoord option" where
  "move_walk g c first [] cost flag = Some flag"
| "move_walk g c first (p # ps) cost flag =
     (if cost \<ge> bf_move (heap g c) then Some flag
      else do { cost1 \<leftarrow> (if p \<noteq> first then map_option (\<lambda>r. cost + r) (get_ride_sub g c p) else Some cost);
                nb \<leftarrow> is_nearby_have_enemy g c p;
                move_walk g c first ps (if nb then cost1 + 1 else cost1) p })"

fun upto_flag :: "ascoord \<Rightarrow> ascoord list \<Rightarrow> ascoord list" where
  "upto_flag f [] = []"
| "upto_flag f (p # ps) = (if p = f then [p] else p # upto_flag f ps)"

text \<open>For a path of two cells the code reads the terrain at \<open>x + y + width\<close>.\<close>

definition move_analyse ::
  "battle_ground \<Rightarrow> nat \<Rightarrow> ascoord list \<Rightarrow> ascoord \<Rightarrow> ascoord \<Rightarrow> ascoord option" where
  "move_analyse g c path target move =
     (let rp = rev path
      in if length rp < 2 then Some move
         else if length rp = 2
         then do { t \<leftarrow> nth_opt (map_ground g) (unat (acx target) + unat (acy target) + unat (g_x g));
                   get_move_pos g (upto_flag (Ascoord 0 0) rp) (if t = 0 then start_at g else target) }
         else do { flag \<leftarrow> move_walk g c (hd rp) rp 0 (Ascoord 0 0);
                   get_move_pos g (upto_flag flag rp) move })"

definition enemy_rows :: "battle_ground \<Rightarrow> u8 \<Rightarrow> ascoord list" where
  "enemy_rows g y =
     map (\<lambda>i. Ascoord (word_of_int i) y) [0 .. uint (g_x g) - 1] @
     concat (map (\<lambda>j. map (\<lambda>i. Ascoord (word_of_int i) (word_of_int j)) [0 .. uint (g_x g) - 1])
        (filter (\<lambda>j. j \<noteq> uint y) [0 .. uint (g_y g) - 1]))"

definition move_get_enemy :: "battle_ground \<Rightarrow> nat \<Rightarrow> ascoord list option" where
  "move_get_enemy g c =
     (let y = bf_y (heap g c)
      in if y > g_y g then Some [] else filter_opt (neighbour_keep g c) (enemy_rows g y))"

definition get_move_position ::
  "battle_ground \<Rightarrow> nat \<Rightarrow> ascoord \<Rightarrow> (ascoord \<times> battle_ground) option" where
  "get_move_position g c move =
     do { es \<leftarrow> move_get_enemy g c;
          case es of
            [] \<Rightarrow> Some (move, g)
          | e # _ \<Rightarrow>
              do { r \<leftarrow> find_path (set_start g (my_pos g c)) c e;
                   m \<leftarrow> move_analyse (snd r) c (fst r) e move;
                   Some (m, snd r) } }"

section \<open>What stays the same while targets are judged\<close>

definition target_state ::
  "battle_ground \<Rightarrow> ascoord \<Rightarrow> ascoord \<Rightarrow> node list \<Rightarrow> node list \<Rightarrow> ascoord list \<Rightarrow> target_info list \<Rightarrow> battle_ground" where
  "target_state g s e os cs ar ts =
     g\<lparr>start_at := s, end_at := e, open_list := os, close_list := cs, around_ascoord := ar, vec_target := ts\<rparr>"

definition same_field :: "battle_ground \<Rightarrow> battle_ground \<Rightarrow> bool" where
  "same_field g h \<longleftrightarrow>
     h = target_state g (start_at h) (end_at h) (open_list h) (close_list h) (around_ascoord h) (vec_target h)"

lemma same_field_iff: "same_field g h \<longleftrightarrow> (\<exists>s e os cs ar ts. h = target_state g s e os cs ar ts)"
  unfolding same_field_def target_state_def by force

lemma same_field_refl [simp, intro]: "same_field g g"
  by (simp add: same_field_def target_state_def)

lemma same_field_trans [trans]: "same_field g h \<Longrightarrow> same_field h k \<Longrightarrow> same_field g k"
  unfolding same_field_iff target_state_def by force

lemma target_state_updates:
  "set_start (target_state g s e os cs ar ts) p = target_state g p e os cs ar ts"
  "set_end (target_state g s e os cs ar ts) p = target_state g s p os cs ar ts"
  "search_state (target_state g s e os cs ar ts) os' cs' ar' = target_state g s e os' cs' ar' ts"
  "(target_state g s e os cs ar ts)\<lparr>vec_target := ts'\<rparr> = target_state g s e os cs ar ts'"
  by (simp_all add: target_state_def set_start_def set_end_def search_state_def)

lemma same_field_set_start [intro]: "same_field g h \<Longrightarrow> same_field g (set_start h p)"
  unfolding same_field_iff by (metis target_state_updates)

lemma same_field_set_end [intro]: "same_field g h \<Longrightarrow> same_field g (set_end h p)"
  unfolding same_field_iff by (metis target_state_updates)

lemma same_field_search [intro]: "same_field g h \<Longrightarrow> same_field g (search_state h os cs ar)"
  unfolding same_field_iff by (metis target_state_updates)

lemma same_field_push [intro]: "same_field g h \<Longrightarrow> same_field g (h\<lparr>vec_target := ts\<rparr>)"
  unfolding same_field_iff target_state_def by force

lemma field_reads [frame_simps]:
  assumes "same_field g h"
  shows "heap h = heap g" "g_x h = g_x g" "g_y h = g_y g" "map_id h = map_id g"
    "map_ground h = map_ground g" "map_fighters h = map_fighters g"
    "map_camp h = map_camp g" "stray_ride h = stray_ride g"
  using assms unfolding same_field_iff target_state_def by auto

lemma board_reads [frame_simps]:
  assumes "same_field g h"
  shows "ground_at h = ground_at g" "fighter_at h = fighter_at g" "check_up h = check_up g"
    "wf_ground h = wf_ground g" "in_bounds h = in_bounds g" "cell_index h = cell_index g"
  using assms
  by (auto simp: fun_eq_iff ground_at_def fighter_at_def check_up_def wf_ground_def in_bounds_def cell_index_def
      field_reads)

lemma judge_reads [frame_simps]:
  assumes "same_field g h"
  shows "is_in_attack_zone h = is_in_attack_zone g" "enemy_can_attack h = enemy_can_attack g"
    "is_in_around h = is_in_around g" "get_ride_sub h = get_ride_sub g"
    "near_enemy_test h = near_enemy_test g" "neighbour_keep h = neighbour_keep g"
    "free_cell h = free_cell g" "add_priority env h = add_priority env g"
    "near_cells h = near_cells g" "get_ride_zone h = get_ride_zone g"
  by (intro ext; simp add: is_in_attack_zone_def enemy_can_attack_def is_in_around_def get_ride_sub_def
      near_enemy_test_def neighbour_keep_def free_cell_def add_priority_def
      near_cells_def get_ride_zone_def ride_rows_def field_reads [OF assms] board_reads [OF assms] cong: if_cong option.case_cong)+

lemma list_reads [frame_simps]:
  assumes "same_field g h"
  shows "is_nearby_have_enemy h = is_nearby_have_enemy g" "get_near_enemy h = get_near_enemy g"
    "get_neighbour_enemy h = get_neighbour_enemy g"
    "my_pos h = my_pos g" "live_enemy_on h = live_enemy_on g"
  by (intro ext; simp add: is_nearby_have_enemy_def get_near_enemy_def get_neighbour_enemy_def
      my_pos_def live_enemy_on_def field_reads [OF assms] board_reads [OF assms] judge_reads [OF assms])+

lemma set_end_reads:
  "ground_at (set_end h e) = ground_at h" "fighter_at (set_end h e) = fighter_at h"
  "check_up (set_end h e) = check_up h" "heap (set_end h e) = heap h" "end_at (set_end h e) = e"
  "start_at (set_end h e) = start_at h" "wf_ground (set_end h e) = wf_ground h"
  "in_bounds (set_end h e) = in_bounds h"
  by (auto simp: fun_eq_iff set_end_def ground_at_def fighter_at_def check_up_def cell_index_def wf_ground_def
      in_bounds_def)

lemma is_in_around_set_end: "is_in_around (set_end h e) = is_in_around h"
  by (intro ext) (simp add: is_in_around_def set_end_reads)

lemma route_edge_reads [frame_simps]:
  assumes "same_field g h"
  shows "route_edge (set_end h e) c = route_edge (set_end g e) c"
  by (intro ext) (simp add: route_edge_def is_obstract_def set_end_reads is_in_around_set_end field_reads [OF assms]
       board_reads [OF assms] judge_reads [OF assms] Let_def cong: option.case_cong)
section \<open>Paths\<close>

lemma route_back_reach:
  assumes "successively (\<lambda>q p. route_edge g c p q) ps" "ps \<noteq> []" "q \<in> set ps"
  shows "(route_edge g c)\<^sup>*\<^sup>* (last ps) q"
  using assms
proof (induction ps arbitrary: q)
  case (Cons p ps)
  show ?case
  proof (cases "ps = []")
    case True
    then show ?thesis using Cons.prems by simp
  next
    case False
    then have ok: "successively (\<lambda>q p. route_edge g c p q) ps" "route_edge g c (hd ps) p"
      using Cons.prems(1) by (cases ps; simp)+
    have hd: "hd ps \<in> set ps" using False by simp
    have p: "(route_edge g c)\<^sup>*\<^sup>* (last ps) p"
      using Cons.IH [OF ok(1) False hd] ok(2) by (rule rtranclp.rtrancl_into_rtrancl)
    show ?thesis
      using p Cons.IH [OF ok(1) False] Cons.prems(3) False by auto
  qed
qed simp

lemma route_edge_in_bounds: "route_edge g c p q \<Longrightarrow> in_bounds g q"
  by (auto simp: route_edge_def intro: check_up_in_bounds)

lemma reach_in_bounds: "(route_edge g c)\<^sup>*\<^sup>* p q \<Longrightarrow> in_bounds g p \<Longrightarrow> in_bounds g q"
  by (induction rule: rtranclp_induct) (auto dest: route_edge_in_bounds)

text \<open>What the callers know of the path they get: nothing, or a walk from the start to the target.\<close>

definition path_to :: "battle_ground \<Rightarrow> nat \<Rightarrow> ascoord \<Rightarrow> ascoord \<Rightarrow> ascoord list \<Rightarrow> bool" where
  "path_to g c s e path \<longleftrightarrow>
     path = [] \<or> hd path = e \<and> last path = s \<and> 2 \<le> length path \<and>
       (\<forall>q \<in> set path. in_bounds g q \<and> (route_edge (set_end g e) c)\<^sup>*\<^sup>* s q)"

lemma find_path_total:
  assumes "wf_ground g" "same_field g h" "in_bounds g (start_at h)"
  obtains path h' where "find_path h c e = Some (path, h')" "same_field g h'" "start_at h' = start_at h"
    "vec_target h' = vec_target h" "path_to g c (start_at h) e path"
proof -
  let ?h = "set_end h e"
  have rd: "wf_ground ?h \<and> in_bounds ?h (start_at ?h)"
    using assms by (simp add: set_end_reads frame_simps)
  obtain b os cs ar where r: "compute_route ?h c = Some (b, search_state ?h os cs ar)"
    "b \<longrightarrow> (\<exists>ps. get_route (search_state ?h os cs ar) = Some (True, ps) \<and> route_back ?h c ps)"
    "\<not> b \<longrightarrow> get_route (search_state ?h os cs ar) = Some (False, [])"
    using compute_route_decides [OF conjunct1 [OF rd] conjunct2 [OF rd], of c] by blast
  have sf: "same_field g (search_state ?h os cs ar)" using assms(2) by blast
  have st: "start_at (search_state ?h os cs ar) = start_at h" "vec_target (search_state ?h os cs ar) = vec_target h"
    by (simp_all add: search_state_def set_end_def)
  show ?thesis
  proof (cases b)
    case True
    then obtain ps where ps: "get_route (search_state ?h os cs ar) = Some (True, ps)" "route_back ?h c ps"
      using r(2) by blast
    have ends: "hd ps = e" "last ps = start_at h" "ps \<noteq> []" using ps(2) by (simp_all add: route_back_def set_end_reads)
    have reach: "(route_edge (set_end g e) c)\<^sup>*\<^sup>* (start_at h) q" if "q \<in> set ps" for q
      using route_back_reach [of ?h c ps q] ps(2) that ends(2)
      by (simp add: route_back_def route_edge_reads [OF assms(2)])
    moreover have "in_bounds g q" if "q \<in> set ps" for q
      using reach_in_bounds [OF reach [OF that]] assms(3) by (simp add: set_end_reads)
    moreover have "2 \<le> length ps"
      using astar.route_long [OF rd] r(1) ps(1) True by simp
    ultimately have "path_to g c (start_at h) e ps" using ends by (simp add: path_to_def)
    then show ?thesis using r(1) ps(1) sf st by (intro that [of ps "search_state ?h os cs ar"]) (simp_all add: find_path_def)
  next
    case False
    then show ?thesis using r(1,3) sf st by (intro that [of "[]" "search_state ?h os cs ar"]) (simp_all add: find_path_def path_to_def)
  qed
qed

section \<open>Targets worth recording\<close>

definition good_target :: "battle_ground \<Rightarrow> nat \<Rightarrow> ascoord \<Rightarrow> target_info \<Rightarrow> bool" where
  "good_target g c s ti \<longleftrightarrow>
     (\<exists>t. in_bounds g t \<and> fighter_at g t = Some (Some (ti_bo ti)) \<and> live_enemy_on g c t \<and>
       (ti_cost ti \<le> bf_move (heap g c) \<or> is_in_around g (ti_attack ti) t) \<and>
       (ti_attack ti = s \<or>
        in_bounds g (ti_attack ti) \<and> free_cell g (ti_attack ti) = Some True \<and>
        is_in_attack_zone g c (ti_attack ti) t \<and>
        (\<exists>e. (route_edge (set_end g e) c)\<^sup>*\<^sup>* s (ti_attack ti))))"

definition judged :: "battle_ground \<Rightarrow> nat \<Rightarrow> ascoord \<Rightarrow> battle_ground \<Rightarrow> bool" where
  "judged g c s h \<longleftrightarrow> same_field g h \<and>
     (\<exists>ts. vec_target h = vec_target g @ ts \<and> (\<forall>ti \<in> set ts. good_target g c s ti))"

lemma judged_refl: "judged g c s g"
  by (simp add: judged_def)

lemma judged_field: "judged g c s h \<Longrightarrow> same_field g h"
  by (simp add: judged_def)

lemma judged_set_start: "judged g c s h \<Longrightarrow> judged g c s (set_start h p)"
  by (auto simp: judged_def) (simp add: set_start_def)

text \<open>A fighter may act: he stands on the board and the map is known.\<close>

definition may_act :: "game_env \<Rightarrow> battle_ground \<Rightarrow> nat \<Rightarrow> bool" where
  "may_act env g c \<longleftrightarrow> wf_ground g \<and> in_bounds g (my_pos g c) \<and> ge_map env (map_id g) \<noteq> None"

text \<open>What keeps the tables' indices in range and the uninitialised counter unread: he is of one of the three
  types and classes, as is the class of every fighter on the board, the terrains are the four known ones or
  obstacles, his own cell is none; and an archer who can move has no enemy beside him.\<close>

definition readable :: "game_env \<Rightarrow> battle_ground \<Rightarrow> nat \<Rightarrow> bool" where
  "readable env g c \<longleftrightarrow>
     ge_map env (map_id g) \<noteq> None \<and> known_kind (bf_type (heap g c)) \<and> known_kind (bf_class (heap g c)) \<and>
     list_all (\<lambda>f. case f of None \<Rightarrow> True | Some b \<Rightarrow> known_kind (bf_class (heap g b))) (map_fighters g) \<and>
     known_terrain g \<and> open_cell g (my_pos g c) \<and>
     (bf_type (heap g c) = 3 \<and> bf_move (heap g c) \<noteq> 0 \<longrightarrow>
        (case get_near_enemy g c (bf_x (heap g c)) (bf_y (heap g c)) of
           None \<Rightarrow> False
         | Some es \<Rightarrow> list_all (\<lambda>q. \<not> is_in_around g (my_pos g c) q) es))"

lemma route_edge_open: "wf_ground g \<Longrightarrow> route_edge (set_end g e) c p q \<Longrightarrow> open_cell g q"
  by (auto simp: route_edge_def set_end_reads is_obstract_def bind_eq_Some_conv Let_def open_cell_def ground_at_def
      nth_opt_def dest: check_up_in_bounds split: if_splits)

lemma reach_open:
  "(route_edge (set_end g e) c)\<^sup>*\<^sup>* p q \<Longrightarrow> wf_ground g \<Longrightarrow> open_cell g p \<Longrightarrow> open_cell g q"
  by (induction rule: rtranclp_induct) (auto dest: route_edge_open)

lemma ride_known:
  assumes "readable env g c" "wf_ground g" "open_cell g p"
  shows "get_ride_sub g c p \<noteq> None"
proof -
  have p: "in_bounds g p" "map_ground g ! cell_index g p \<noteq> 0" using assms(3) by (simp_all add: open_cell_def)
  then have t: "ground_at g p = Some (map_ground g ! cell_index g p)" using assms(2) by (simp add: safe_simps)
  have "in_ride_sub (uint (bf_type (heap g c)) - 1) (uint (map_ground g ! cell_index g p) - 1)"
    by (rule known_in_ride_sub [OF _ p(2) terrain_bound [OF _ t]]) (use assms(1) in \<open>simp_all add: readable_def\<close>)
  then show ?thesis using t by (simp add: get_ride_sub_def)
qed

lemma path_rides:
  assumes "readable env g c" "wf_ground g" "path_to g c (my_pos g c) e path" "q \<in> set path"
  shows "get_ride_sub g c q \<noteq> None"
proof (rule ride_known [OF assms(1,2)])
  have "(route_edge (set_end g e) c)\<^sup>*\<^sup>* (my_pos g c) q" using assms(3,4) by (auto simp: path_to_def)
  then show "open_cell g q" by (rule reach_open) (use assms(1,2) in \<open>simp_all add: readable_def\<close>)
qed

lemma priority_known:
  assumes "known_kind k" "known_kind l"
  shows "priority_at (uint k - 1) (uint l - 1) \<noteq> None"
  using assms by (simp add: known_kind_def priority_at_def word_le_def)

lemma push_target_delivers:
  assumes "judged g c s h" "live_enemy_on g c t" "in_bounds g t"
    "\<And>b p. fighter_at g t = Some (Some b) \<Longrightarrow>
       good_target g c s \<lparr>ti_bo = b, ti_attack = a, ti_cost = cost, ti_pri = p\<rparr>"
  shows "delivers (readable env g c) (push_target env h c t a cost) (\<lambda>h'. judged g c s h' \<and> start_at h' = start_at h)"
proof -
  obtain ts where ts: "same_field g h" "vec_target h = vec_target g @ ts" "\<forall>ti \<in> set ts. good_target g c s ti"
    using assms(1) by (auto simp: judged_def)
  obtain b where b: "fighter_at g t = Some (Some b)" using assms(2) by (auto simp: live_enemy_on_def)
  have add: "readable env g c \<Longrightarrow> \<exists>add. add_priority env g c t = Some add"
    by (auto simp: readable_def add_priority_def Let_def)
  have "cell_index g t < length (map_fighters g)" "map_fighters g ! cell_index g t = Some b"
    using b by (auto simp: fighter_at_def nth_opt_def split: if_splits)
  then have "Some b \<in> set (map_fighters g)" by (metis nth_mem)
  then have pri: "readable env g c \<Longrightarrow> \<exists>p. priority_at (uint (bf_class (heap g c)) - 1) (uint (bf_class (heap g b)) - 1) = Some p"
    using priority_known [of "bf_class (heap g c)" "bf_class (heap g b)"] by (auto simp: readable_def list_all_iff)
  have "judged g c s h' \<and> start_at h' = start_at h" if "push_target env h c t a cost = Some h'" for h'
    using that ts b assms(4) [OF b] by (auto simp: push_target_def frame_simps Let_def judged_def bind_eq_Some_conv)
  moreover have "readable env g c \<Longrightarrow> push_target env h c t a cost \<noteq> None"
    using ts(1) b add pri by (auto simp: push_target_def frame_simps)
  ultimately show ?thesis by (cases "push_target env h c t a cost") auto
qed

lemma in_zone_self: "is_in_attack_zone g c t t"
  by (simp add: is_in_attack_zone_def Let_def)

lemma free_cell_total:
  "wf_ground g \<Longrightarrow> in_bounds g p \<Longrightarrow> \<exists>b. free_cell g p = Some b"
  by (auto simp: free_cell_def safe_simps split: option.splits)

lemma enter_cost_delivers:
  "wf_ground g \<Longrightarrow> in_bounds g p \<Longrightarrow> (d \<Longrightarrow> get_ride_sub g c p \<noteq> None) \<Longrightarrow>
   delivers d (enter_cost g c t p cost) (\<lambda>_. True)"
  by (cases "get_ride_sub g c p") (auto simp: enter_cost_def near_enemy_total Let_def)

lemma enter_cost_reads [frame_simps]: "same_field g h \<Longrightarrow> enter_cost h = enter_cost g"
  by (intro ext) (simp add: enter_cost_def judge_reads list_reads)

lemma analyse_walk_reads [frame_simps]:
  assumes "same_field g h"
  shows "analyse_walk h c t ps = analyse_walk g c t ps"
proof (induction ps)
  case (Cons p ps)
  show ?case
  proof (rule ext)
    fix cost
    show "analyse_walk h c t (p # ps) cost = analyse_walk g c t (p # ps) cost"
      by (simp only: analyse_walk.simps(2) [of _ c t p] judge_reads [OF assms] enter_cost_reads [OF assms] Cons)
  qed
qed (simp add: fun_eq_iff)

lemma bow_walk_reads [frame_simps]:
  assumes "same_field g h"
  shows "bow_walk h c t ps = bow_walk g c t ps"
proof (induction ps)
  case (Cons p ps)
  show ?case
    by (rule ext) (simp add: judge_reads [OF assms] enter_cost_reads [OF assms] Cons cong: if_cong)
qed (simp add: fun_eq_iff)

text \<open>Where a walk along a path ends: at a free cell of it inside the attack zone, or nowhere.\<close>

definition walk_end :: "battle_ground \<Rightarrow> nat \<Rightarrow> ascoord \<Rightarrow> ascoord set \<Rightarrow> (ascoord \<times> u8) option \<Rightarrow> bool" where
  "walk_end g c t cells w \<longleftrightarrow>
     (\<forall>a k. w = Some (a, k) \<longrightarrow> a \<in> cells \<and> free_cell g a = Some True \<and> is_in_attack_zone g c a t)"

lemma walk_end_mono: "walk_end g c t A w \<Longrightarrow> A \<subseteq> B \<Longrightarrow> walk_end g c t B w"
  by (auto simp: walk_end_def)

lemma analyse_walk_delivers:
  assumes "wf_ground g" "ps \<noteq> []" "\<forall>q \<in> set ps. in_bounds g q" "last ps = t" "d \<Longrightarrow> \<forall>q \<in> set ps. get_ride_sub g c q \<noteq> None"
  shows "delivers d (analyse_walk g c t ps cost) (walk_end g c t (set ps))"
  using assms(2-5)
proof (induction ps arbitrary: cost)
  case (Cons p ps)
  show ?case
  proof (cases "is_in_attack_zone g c p t")
    case True
    then show ?thesis using free_cell_total [OF assms(1), of p] Cons.prems(2) by (auto simp: walk_end_def)
  next
    case False
    then obtain q qs where ps: "ps = q # qs" using Cons.prems(3) in_zone_self by (cases ps) auto
    have e: "delivers d (enter_cost g c t q cost) (\<lambda>_. True)"
      using enter_cost_delivers [OF assms(1)] Cons.prems(2,4) ps by simp
    have step: "analyse_walk g c t (p # ps) cost = do { cost' \<leftarrow> enter_cost g c t q cost; analyse_walk g c t ps cost' }"
      using False by (simp only: ps analyse_walk.simps(2) [of g c t p "q # qs"] if_False list.case)
    show ?thesis unfolding step
    proof (rule delivers_bind [OF e])
      fix k
      have "ps \<noteq> []" "\<forall>q \<in> set ps. in_bounds g q" "last ps = t" "d \<Longrightarrow> \<forall>q \<in> set ps. get_ride_sub g c q \<noteq> None"
        using Cons.prems ps by simp_all
      from Cons.IH [OF this, of k] show "delivers d (analyse_walk g c t ps k) (walk_end g c t (set (p # ps)))"
        by (rule delivers_mono) (auto intro: walk_end_mono)
    qed
  qed
qed simp

lemma bow_walk_delivers:
  assumes "wf_ground g" "ps \<noteq> []" "\<forall>q \<in> set ps. in_bounds g q" "is_in_attack_zone g c (last ps) t"
    "d \<Longrightarrow> \<forall>q \<in> set ps. get_ride_sub g c q \<noteq> None"
  shows "delivers d (bow_walk g c t ps cost) (walk_end g c t (set ps))"
  using assms(2-5)
proof (induction ps arbitrary: cost)
  case (Cons p ps)
  show ?case
  proof (cases "get_ride_sub g c p")
    case None
    then show ?thesis using Cons.prems(4) by auto
  next
    case r: (Some r)
    show ?thesis
    proof (cases "is_in_attack_zone g c p t")
      case True
      then show ?thesis using free_cell_total [OF assms(1), of p] Cons.prems(2) r by (auto simp: walk_end_def)
    next
      case False
      then have ps: "ps \<noteq> []" using Cons.prems(3) by auto
      have e: "delivers d (enter_cost g c t p cost) (\<lambda>_. True)"
        using enter_cost_delivers [OF assms(1)] Cons.prems(2,4) by simp
      have step: "bow_walk g c t (p # ps) cost = do { cost' \<leftarrow> enter_cost g c t p cost; bow_walk g c t ps cost' }"
        using False r by simp
      show ?thesis unfolding step
      proof (rule delivers_bind [OF e])
        fix k
        have "\<forall>q \<in> set ps. in_bounds g q" "is_in_attack_zone g c (last ps) t" "d \<Longrightarrow> \<forall>q \<in> set ps. get_ride_sub g c q \<noteq> None"
          using Cons.prems ps by simp_all
        from Cons.IH [OF ps this, of k] show "delivers d (bow_walk g c t ps k) (walk_end g c t (set (p # ps)))"
          by (rule delivers_mono) (auto intro: walk_end_mono)
      qed
    qed
  qed
qed simp

lemma analyse_delivers:
  assumes "wf_ground g" "s = my_pos g c" "judged g c s h" "start_at h = s" "in_bounds g s" "live_enemy_on g c t" "in_bounds g t"
    "path_to g c s t path"
  shows "delivers (readable env g c) (analyse env h c path t) (\<lambda>h'. judged g c s h' \<and> start_at h' = s)"
proof (cases "length path < 2")
  case True
  then show ?thesis using assms(3,4) by (simp add: analyse_def)
next
  case long: False
  let ?d = "readable env g c"
  have pt: "hd path = t" "\<And>q. q \<in> set path \<Longrightarrow> in_bounds g q"
    "\<And>q. q \<in> set path \<Longrightarrow> (route_edge (set_end g t) c)\<^sup>*\<^sup>* s q" and ne: "path \<noteq> []"
    using long assms(8) by (auto simp: path_to_def)
  have rides: "?d \<Longrightarrow> \<forall>q \<in> set path. get_ride_sub g c q \<noteq> None"
    using path_rides [OF _ assms(1), of env c t path] assms(2,8) by auto
  have sf: "same_field g h" using assms(3) by (rule judged_field)
  let ?w = "if length (rev path) = 2 then Some (Some (start_at h, 0)) else analyse_walk h c t (rev path) 0"
  have w: "delivers ?d ?w (\<lambda>w. \<forall>a k. w = Some (a, k) \<longrightarrow> a = s \<or>
      a \<in> set path \<and> free_cell g a = Some True \<and> is_in_attack_zone g c a t)"
  proof (cases "length path = 2")
    case True
    then show ?thesis using assms(4) by simp
  next
    case False
    have "delivers ?d (analyse_walk g c t (rev path) 0) (walk_end g c t (set (rev path)))"
      by (rule analyse_walk_delivers [OF assms(1)]) (use ne pt(1,2) rides in \<open>auto simp: last_rev\<close>)
    then have "delivers ?d (analyse_walk g c t (rev path) 0) (\<lambda>w. \<forall>a k. w = Some (a, k) \<longrightarrow> a = s \<or>
      a \<in> set path \<and> free_cell g a = Some True \<and> is_in_attack_zone g c a t)"
      by (rule delivers_mono) (auto simp: walk_end_def)
    then show ?thesis using False by (simp only: analyse_walk_reads [OF sf] length_rev if_False)
  qed
  show ?thesis
    unfolding analyse_def Let_def length_rev if_not_P [OF long]
  proof (rule delivers_bind [OF w [unfolded length_rev]])
    fix w :: "(ascoord \<times> u8) option"
    assume W: "\<forall>a k. w = Some (a, k) \<longrightarrow> a = s \<or>
      a \<in> set path \<and> free_cell g a = Some True \<and> is_in_attack_zone g c a t"
    show "delivers ?d (case w of None \<Rightarrow> Some h
      | Some (attack, cost) \<Rightarrow>
          do { ride \<leftarrow> get_ride_sub h c attack;
               if bf_move (heap h c) < cost
               then (if bf_move (heap h c) \<le> cost - ride then Some h
                     else if is_in_around h attack t then push_target env h c t attack cost else Some h)
               else push_target env h c t attack cost }) (\<lambda>h'. judged g c s h' \<and> start_at h' = s)"
    proof (cases w)
      case None
      then show ?thesis using assms(3,4) by simp
    next
      case (Some ak)
      obtain a k where ak: "ak = (a, k)" by (cases ak)
      have a: "a = s \<or> a \<in> set path \<and> free_cell g a = Some True \<and> is_in_attack_zone g c a t"
        using W Some ak by blast
      have push: "delivers ?d (push_target env h c t a k) (\<lambda>h'. judged g c s h' \<and> start_at h' = s)"
        if "k \<le> bf_move (heap g c) \<or> is_in_around g a t"
      proof -
        have "good_target g c s \<lparr>ti_bo = b, ti_attack = a, ti_cost = k, ti_pri = p\<rparr>"
          if "fighter_at g t = Some (Some b)" for b p
          unfolding good_target_def using that \<open>k \<le> _ \<or> _\<close> a pt(2,3) assms(6,7) by (intro exI [of _ t]) auto
        from push_target_delivers [OF assms(3,6,7) this, of env] show ?thesis using assms(4) by simp
      qed
      have "open_cell g s" if ?d using that assms(2) by (simp add: readable_def)
      then have r: "?d \<Longrightarrow> get_ride_sub g c a \<noteq> None"
        using a rides ride_known [OF _ assms(1)] by auto
      show ?thesis
      proof (cases "get_ride_sub g c a")
        case None
        then show ?thesis using r Some ak by (auto simp: judge_reads [OF sf])
      next
        case ride: (Some ride)
        show ?thesis using Some ak ride assms(3,4) push
          by (simp add: judge_reads [OF sf] field_reads [OF sf] not_less)
      qed
    qed
  qed
qed

lemma two_elements: "2 \<le> length xs \<Longrightarrow> \<exists>x y ys. xs = x # y # ys"
  by (cases xs; cases "tl xs") auto

text \<open>\<^verbatim>\<open>BowAnalyse\<close> on its own: with a defined result \<^verbatim>\<open>GetTarget\<close> never gets so far, see
  \<open>shoot_back_delivers\<close>.\<close>

lemma bow_analyse_delivers:
  assumes "wf_ground g" "s = my_pos g c" "judged g c s h" "start_at h = s" "live_enemy_on g c t" "in_bounds g t"
    "path_to g c s e path" "is_in_attack_zone g c e t"
  shows "delivers (readable env g c) (bow_analyse env h c path t) (\<lambda>h'. judged g c s h' \<and> start_at h' = s)"
proof (cases "length path < 2")
  case True
  then show ?thesis using assms(3,4) by (simp add: bow_analyse_def)
next
  case long: False
  let ?d = "readable env g c"
  have pt: "hd path = e" "\<And>q. q \<in> set path \<Longrightarrow> in_bounds g q"
    "\<And>q. q \<in> set path \<Longrightarrow> (route_edge (set_end g e) c)\<^sup>*\<^sup>* s q" and ne: "path \<noteq> []"
    using long assms(7) by (auto simp: path_to_def)
  have sf: "same_field g h" using assms(3) by (rule judged_field)
  obtain x y ys where xy: "rev path = x # y # ys"
    using two_elements [of "rev path"] long by (auto simp: not_less)
  then have tl: "tl (rev path) \<noteq> []" by simp
  have "last (tl (rev path)) = last (rev path)" using xy by simp
  also have "\<dots> = e" using pt(1) ne by (simp add: last_rev)
  finally have last: "last (tl (rev path)) = e" .
  have "set (tl (rev path)) \<subseteq> set (rev path)" unfolding xy by auto
  then have sub: "set (tl (rev path)) \<subseteq> set path" by simp
  have w: "delivers ?d (bow_walk h c t (tl (rev path)) 0) (walk_end g c t (set (tl (rev path))))"
    unfolding bow_walk_reads [OF sf]
    by (rule bow_walk_delivers [OF assms(1) tl])
      (use last assms(2,7,8) pt(2) sub path_rides [OF _ assms(1), of env c e path] in auto)
  show ?thesis
    unfolding bow_analyse_def Let_def length_rev if_not_P [OF long]
  proof (rule delivers_bind [OF w])
    fix w assume W: "walk_end g c t (set (tl (rev path))) w"
    show "delivers ?d (case w of None \<Rightarrow> Some h
      | Some (attack, cost) \<Rightarrow> if bf_move (heap h c) < cost then Some h else push_target env h c t attack cost)
      (\<lambda>h'. judged g c s h' \<and> start_at h' = s)"
    proof (cases w)
      case None
      then show ?thesis using assms(3,4) by simp
    next
      case (Some ak)
      obtain a k where ak: "ak = (a, k)" by (cases ak)
      have a: "a \<in> set path" "free_cell g a = Some True" "is_in_attack_zone g c a t"
        using W Some ak sub by (auto simp: walk_end_def)
      have push: "delivers ?d (push_target env h c t a k) (\<lambda>h'. judged g c s h' \<and> start_at h' = s)"
        if "k \<le> bf_move (heap g c)"
      proof -
        have "good_target g c s \<lparr>ti_bo = b, ti_attack = a, ti_cost = k, ti_pri = p\<rparr>"
          if "fighter_at g t = Some (Some b)" for b p
          unfolding good_target_def using that \<open>k \<le> _\<close> a pt(2,3) assms(5,6) by (intro exI [of _ t]) auto
        from push_target_delivers [OF assms(3,5,6) this, of env] show ?thesis using assms(4) by simp
      qed
      show ?thesis using Some ak push assms(3,4) by (simp add: field_reads [OF sf] not_less)
    qed
  qed
qed

section \<open>Every target the fighter finds is worth recording\<close>

lemma in_bounds_word:
  assumes "0 \<le> i" "i < uint (g_x g)" "0 \<le> j" "j < uint (g_y g)"
  shows "in_bounds g (Ascoord (word_of_int i) (word_of_int j))"
proof -
  have "i < 256" "j < 256" using assms uint_u8_bound(1) [of "g_x g"] uint_u8_bound(1) [of "g_y g"] by linarith+
  then show ?thesis using assms by (simp add: in_bounds_uint uint_word_of_int)
qed

lemma near_cells_in_bounds: "p \<in> set (near_cells g c x y) \<Longrightarrow> in_bounds g p"
  by (auto simp: near_cells_def Let_def split: if_splits intro!: in_bounds_word)

lemma get_near_enemy_Some:
  "wf_ground g \<Longrightarrow> get_near_enemy g c x y =
     Some (filter (\<lambda>q. open_cell g q \<and> live_enemy_on g c q) (near_cells g c x y))"
  unfolding get_near_enemy_def
  by (rule filter_opt_total) (simp add: near_enemy_test_Some near_cells_in_bounds)

text \<open>For a fighter on the board there is a row, unless he cannot move.\<close>

lemma row_range_empty:
  fixes Y H r :: int
  assumes "0 \<le> Y" "Y < H" "0 \<le> r"
  shows "min (if Y + r > H then H else Y + r) H - 1 < (if Y > r then Y - r else 0) \<longleftrightarrow> r = 0"
  using assms by (cases "Y + r > H"; cases "Y > r") (simp_all add: min_def, linarith+)

lemma get_ride_zone_rows:
  assumes "in_bounds g (my_pos g c)"
  shows "get_ride_zone g c = (if bf_move (heap g c) = 0 then Some [] else None)"
proof -
  let ?ride = "uint (bf_move (heap g c))" and ?Y = "uint (bf_y (heap g c))" and ?H = "uint (g_y g)"
  have y: "0 \<le> ?Y" "?Y < ?H" using assms by (simp_all add: in_bounds_uint my_pos_def)
  have r: "?ride = 0 \<longleftrightarrow> bf_move (heap g c) = 0" "0 \<le> ?ride" by (simp_all add: uint_0_iff)
  have "ride_rows g c = [] \<longleftrightarrow> ?ride = 0"
    using row_range_empty [OF y r(2)] by (simp add: ride_rows_def Let_def)
  then show ?thesis using r(1) by (simp add: get_ride_zone_def)
qed

lemma find_path_judged:
  assumes "may_act env g c" "judged g c s h" "start_at h = s" "s = my_pos g c"
  obtains path h' where "find_path h c e = Some (path, h')" "judged g c s h'" "start_at h' = s" "path_to g c s e path"
proof -
  have w: "wf_ground g" "in_bounds g (start_at h)" using assms by (simp_all add: may_act_def)
  obtain path h' where r: "find_path h c e = Some (path, h')" "same_field g h'" "start_at h' = start_at h"
    "vec_target h' = vec_target h" "path_to g c (start_at h) e path"
    by (rule find_path_total [OF w(1) judged_field [OF assms(2)] w(2)])
  then show ?thesis using assms(2,3) by (intro that [of path h']) (auto simp: judged_def)
qed

lemma shoot_current_delivers:
  assumes "judged g c s h" "s = my_pos g c" "live_enemy_on g c t" "in_bounds g t"
  shows "delivers (readable env g c) (shoot_current_attack env h c t) (judged g c s)"
proof -
  have "good_target g c s \<lparr>ti_bo = b, ti_attack = s, ti_cost = 0, ti_pri = p\<rparr>"
    if "fighter_at g t = Some (Some b)" for b p
    unfolding good_target_def using that assms(3,4) by (intro exI [of _ t]) auto
  from push_target_delivers [OF assms(1,3,4) this, of env] show ?thesis
    unfolding shoot_current_attack_def using list_reads(4) [OF judged_field [OF assms(1)]] assms(2)
    by simp (rule delivers_mono, auto)
qed

lemma shoot_front_delivers:
  assumes "may_act env g c" "judged g c s h" "s = my_pos g c" "live_enemy_on g c t" "in_bounds g t"
  shows "delivers (readable env g c) (shoot_front_attack env h c t) (judged g c s)"
proof -
  have st: "my_pos h c = s" using list_reads(4) [OF judged_field [OF assms(2)]] assms(3) by simp
  obtain path h' where r: "find_path (set_start h s) c t = Some (path, h')" "judged g c s h'" "start_at h' = s"
    "path_to g c s t path"
    using find_path_judged [OF assms(1) judged_set_start [OF assms(2)] _ assms(3), of s t]
    by (auto simp: set_start_def)
  have "wf_ground g" "in_bounds g s" using assms(1,3) by (simp_all add: may_act_def)
  from analyse_delivers [OF this(1) assms(3) r(2,3) this(2) assms(4,5) r(4), of env]
  show ?thesis unfolding shoot_front_attack_def st r(1) by simp (rule delivers_mono, auto)
qed

text \<open>The retreat: only a fighter who cannot move gets past \<^verbatim>\<open>GetRideZone\<close>, and finds no cell there.\<close>

lemma shoot_back_undefined:
  assumes "in_bounds g (my_pos g c)" "same_field g h" "bf_move (heap g c) \<noteq> 0"
  shows "shoot_back_attack env h c t = None"
proof -
  have "get_ride_zone h c = None"
    using get_ride_zone_rows [OF assms(1)] assms(3) by (simp add: judge_reads [OF assms(2)])
  then show ?thesis by (simp add: shoot_back_attack_def get_back_position_def)
qed

lemma shoot_back_delivers:
  assumes "may_act env g c" "judged g c s h" "s = my_pos g c" "live_enemy_on g c t" "in_bounds g t"
    "bf_move (heap g c) \<noteq> 0 \<Longrightarrow> \<not> readable env g c"
  shows "delivers (readable env g c) (shoot_back_attack env h c t) (judged g c s)"
proof (cases "bf_move (heap g c) = 0")
  case False
  have "in_bounds g (my_pos g c)" using assms(1) by (simp add: may_act_def)
  from shoot_back_undefined [OF this judged_field [OF assms(2)] False] show ?thesis using assms(6) [OF False] by simp
next
  case True
  have w: "wf_ground g" "in_bounds g (my_pos g c)" using assms(1) by (simp_all add: may_act_def)
  have sf: "same_field g h" by (rule judged_field [OF assms(2)])
  have "get_ride_zone h c = Some []"
    using get_ride_zone_rows [OF w(2)] True by (simp add: judge_reads [OF sf])
  moreover have "get_near_enemy h c (bf_x (heap h c)) (bf_y (heap h c)) \<noteq> None"
    using get_near_enemy_Some [OF w(1)] by (simp add: list_reads [OF sf])
  ultimately have "shoot_back_attack env h c t = shoot_current_attack env h c t"
    by (auto simp: shoot_back_attack_def get_back_position_def)
  then show ?thesis using shoot_current_delivers [OF assms(2-5)] by simp
qed

lemma attack_in_style_delivers:
  assumes "may_act env g c" "judged g c s h" "s = my_pos g c" "live_enemy_on g c t" "in_bounds g t"
    "bf_type (heap g c) = 3" "my_pos g c = Ascoord x y" "get_near_enemy g c x y = Some es" "t \<in> set es"
  shows "delivers (readable env g c) (attack_in_style env h c x y t) (judged g c s)"
proof -
  have w: "wf_ground g" using assms(1) by (simp add: may_act_def)
  have sf: "same_field g h" by (rule judged_field [OF assms(2)])
  have "\<not> readable env g c" if "is_in_around g (Ascoord x y) t" "bf_move (heap g c) \<noteq> 0"
    using that assms(6-9) by (auto simp: readable_def my_pos_def list_all_iff)
  then show ?thesis
    using shoot_current_delivers [OF assms(2-5), of env] shoot_front_delivers [OF assms(1-5)]
      shoot_back_delivers [OF assms(1-5)] get_neighbour_enemy_Some [OF w, of c x y] list_reads(3) [OF sf]
    by (auto simp: attack_in_style_def Let_def judge_reads [OF sf])
qed

lemma get_target_delivers:
  assumes "may_act env g c" "my_pos g c = Ascoord x y"
  shows "delivers (readable env g c) (get_target env g c x y) (judged g c (my_pos g c))"
proof -
  have w: "wf_ground g" "in_bounds g (my_pos g c)" using assms(1) by (simp_all add: may_act_def)
  let ?s = "my_pos g c" and ?d = "readable env g c"
  let ?es = "filter (\<lambda>q. open_cell g q \<and> live_enemy_on g c q) (near_cells g c x y)"
  have es: "get_near_enemy g c x y = Some ?es" by (rule get_near_enemy_Some [OF w(1)])
  have e: "live_enemy_on g c t" "in_bounds g t" if "t \<in> set ?es" for t
    using that by (auto intro: near_cells_in_bounds)
  have bow: "delivers ?d (bow_get_target env g c x y ?es) (judged g c ?s)" if "bf_type (heap g c) = 3"
    unfolding bow_get_target_def
    by (rule delivers_foldm, rule judged_refl)
      (use attack_in_style_delivers [OF assms(1) _ refl _ _ that assms(2) es] e in blast)
  let ?f = "\<lambda>h e. do { r \<leftarrow> find_path h c e; analyse env (snd r) c (fst r) e }"
  have "delivers ?d (foldm ?f (set_start g ?s) ?es) (\<lambda>h. judged g c ?s h \<and> start_at h = ?s)"
  proof (rule delivers_foldm)
    show "judged g c ?s (set_start g ?s) \<and> start_at (set_start g ?s) = ?s"
      using judged_set_start [OF judged_refl] by (simp add: set_start_def)
  next
    fix h t assume t: "t \<in> set ?es" and h: "judged g c ?s h \<and> start_at h = ?s"
    obtain path h' where r: "find_path h c t = Some (path, h')" "judged g c ?s h'" "start_at h' = ?s"
      "path_to g c ?s t path"
      using find_path_judged [OF assms(1) _ _ refl, of h t] h by blast
    from analyse_delivers [OF w(1) refl r(2,3) w(2) e [OF t] r(4), of env]
    show "delivers ?d (?f h t) (\<lambda>h. judged g c ?s h \<and> start_at h = ?s)" unfolding r(1) by simp
  qed
  then have "delivers ?d (foldm ?f (set_start g ?s) ?es) (judged g c ?s)" by (rule delivers_mono) simp
  then show ?thesis
    using es assms(2) judged_refl bow by (simp add: get_target_def)
qed

section \<open>Where the fighter moves\<close>

lemma upto_flag_subset: "set (upto_flag f ps) \<subseteq> set ps"
  by (induction ps) auto

lemma first_free_total:
  assumes "wf_ground g" "\<forall>q \<in> set ps. in_bounds g q"
  shows "\<exists>m. first_free g ps = Some m \<and> (\<forall>p. m = Some p \<longrightarrow> p \<in> set ps \<and> free_cell g p = Some True)"
  using assms(2)
proof (induction ps)
  case (Cons p ps)
  obtain b where "free_cell g p = Some b" using free_cell_total [OF assms(1), of p] Cons.prems by auto
  with Cons show ?case by (cases b) auto
qed simp

lemma get_move_pos_total:
  assumes "wf_ground g" "\<forall>q \<in> set ps. in_bounds g q"
  shows "\<exists>m. get_move_pos g ps mv = Some m \<and> (m = mv \<or> m \<in> set ps \<and> free_cell g m = Some True)"
  using first_free_total [OF assms(1), of "rev ps"] assms(2)
  by (auto simp: get_move_pos_def split: option.splits)

lemma move_walk_delivers:
  assumes "wf_ground g" "\<forall>q \<in> set ps. in_bounds g q" "d \<Longrightarrow> \<forall>q \<in> set ps. q \<noteq> first \<longrightarrow> get_ride_sub g c q \<noteq> None"
  shows "delivers d (move_walk g c first ps cost flag) (\<lambda>_. True)"
  using assms(2,3)
proof (induction ps arbitrary: cost flag)
  case (Cons p ps)
  obtain nb where nb: "is_nearby_have_enemy g c p = Some nb"
    using near_enemy_total [OF assms(1), of c p] Cons.prems(1) by auto
  have rest: "delivers d (move_walk g c first ps k f) (\<lambda>_. True)" for k f using Cons by simp
  show ?case
  proof (cases "p \<noteq> first \<and> get_ride_sub g c p = None")
    case True
    then show ?thesis using Cons.prems(2) by auto
  next
    case False
    then show ?thesis using rest nb by (cases "get_ride_sub g c p") auto
  qed
qed simp

lemma move_analyse_delivers:
  assumes "wf_ground g" "\<forall>q \<in> set path. in_bounds g q" "length path \<noteq> 2"
    "d \<Longrightarrow> \<forall>q \<in> set path. q \<noteq> last path \<longrightarrow> get_ride_sub g c q \<noteq> None"
  shows "delivers d (move_analyse g c path t mv) (\<lambda>m. m = mv \<or> m \<in> set path \<and> free_cell g m = Some True)"
proof (cases "length path < 2")
  case False
  let ?rp = "rev path"
  have step: "move_analyse g c path t mv =
      do { flag \<leftarrow> move_walk g c (hd ?rp) ?rp 0 (Ascoord 0 0); get_move_pos g (upto_flag flag ?rp) mv }"
    using False assms(3) by (simp add: move_analyse_def Let_def)
  have "delivers d (move_walk g c (hd ?rp) ?rp 0 (Ascoord 0 0)) (\<lambda>_. True)"
    by (rule move_walk_delivers [OF assms(1)]) (use assms(2,4) in \<open>auto simp: hd_rev\<close>)
  then show ?thesis unfolding step
  proof (rule delivers_bind)
    fix f
    have sub: "set (upto_flag f ?rp) \<subseteq> set path" using upto_flag_subset [of f ?rp] by simp
    then have "\<exists>m. get_move_pos g (upto_flag f ?rp) mv = Some m \<and>
        (m = mv \<or> m \<in> set (upto_flag f ?rp) \<and> free_cell g m = Some True)"
      using assms(2) by (intro get_move_pos_total [OF assms(1)]) auto
    then show "delivers d (get_move_pos g (upto_flag f ?rp) mv) (\<lambda>m. m = mv \<or> m \<in> set path \<and> free_cell g m = Some True)"
      using sub by auto
  qed
qed (simp add: move_analyse_def)

section \<open>Properties\<close>

text \<open>C3: for a fighter on the board whose reads of the tables stay inside them and who, if he is an archer
  that can move, has no enemy beside him (\<open>readable\<close>), \<^verbatim>\<open>GetTarget\<close> ends without undefined
  behaviour, but for the cost that the search for a route reads of obstacles and does not use; it changes nothing but the
  search lists and \<^verbatim>\<open>_vecTarget\<close>, and every target it appends is a living enemy on the board, within
  the fighter's move power or next to the attack cell, where the attack cell is the fighter's own cell or a free
  cell inside the attack zone that a route of passable cells leads to.\<close>

theorem get_target_sound:
  assumes "may_act env g c" "readable env g c"
  shows "\<exists>h ts. get_target env g c (bf_x (heap g c)) (bf_y (heap g c)) = Some h \<and> same_field g h \<and>
    vec_target h = vec_target g @ ts \<and> (\<forall>ti \<in> set ts. good_target g c (my_pos g c) ti)"
proof -
  have "my_pos g c = Ascoord (bf_x (heap g c)) (bf_y (heap g c))" by (simp add: my_pos_def)
  from delivers_result [OF get_target_delivers [OF assms(1) this] assms(2)] show ?thesis by (auto simp: judged_def)
qed

lemma duel_readable: "may_act plain_env duel 0" "readable plain_env duel 0"
  by (simp_all add: may_act_def readable_def my_pos_def plain_env_def soldier_def known_kind_def known_terrain_def
      open_cell_def cell_index_def)

theorem get_target_sound_witness:
  "\<exists>h ts. get_target plain_env duel 0 0 0 = Some h \<and> same_field duel h \<and>
    vec_target h = vec_target duel @ ts \<and> (\<forall>ti \<in> set ts. good_target duel 0 (Ascoord 0 0) ti)"
  using get_target_sound [OF duel_readable] by (simp add: my_pos_def soldier_def)

text \<open>C40: the condition on archers in C3 is needed.  \<^verbatim>\<open>GetTarget\<close> has no defined result for an archer on the
  board who can move, has a living enemy within his reach and beside him: whatever else is on the board, it reads the
  counter of \<^verbatim>\<open>GetRideZone\<close> before anything has been stored in it.\<close>

theorem archer_reads_uninitialised:
  assumes "may_act env g c" "bf_type (heap g c) = 3" "bf_move (heap g c) \<noteq> 0"
    "get_near_enemy g c (bf_x (heap g c)) (bf_y (heap g c)) = Some es" "t \<in> set es" "is_in_around g (my_pos g c) t"
  shows "get_target env g c (bf_x (heap g c)) (bf_y (heap g c)) = None"
proof -
  let ?x = "bf_x (heap g c)" and ?y = "bf_y (heap g c)"
  have w: "wf_ground g" "in_bounds g (my_pos g c)" using assms(1) by (simp_all add: may_act_def)
  have p: "my_pos g c = Ascoord ?x ?y" by (simp add: my_pos_def)
  obtain ns where ns: "get_neighbour_enemy g c ?x ?y = Some ns" "length ns \<le> 6"
    using get_neighbour_enemy_Some [OF w(1)] by (simp add: check_up_def get_around_def Let_def length_filter_le [THEN le_trans])
  have t: "attack_in_style env h c ?x ?y t = None" if "same_field g h" for h
    using ns assms(6) shoot_back_undefined [OF w(2) that assms(3)]
    by (simp add: attack_in_style_def list_reads [OF that] judge_reads [OF that] p Let_def)
  have e: "live_enemy_on g c q" "in_bounds g q" if "q \<in> set es" for q
    using that assms(4) get_near_enemy_Some [OF w(1)] by (auto intro: near_cells_in_bounds)
  have "foldm (\<lambda>h e. attack_in_style env h c ?x ?y e) g es = None"
  proof (rule foldm_undefined [where I = "judged g c (my_pos g c)", OF judged_refl _ assms(5)])
    fix h q assume "q \<in> set es" "judged g c (my_pos g c) h"
    from attack_in_style_delivers [OF assms(1) this(2) refl e [OF this(1)] assms(2) p assms(4) this(1)]
    show "delivers False (attack_in_style env h c ?x ?y q) (judged g c (my_pos g c))"
      by (cases "attack_in_style env h c ?x ?y q") auto
  qed (rule t, rule judged_field)
  then show ?thesis using assms(2,4,5) by (auto simp: get_target_def bow_get_target_def)
qed

definition archer :: battle_ground where
  "archer = duel\<lparr>heap := (heap duel)(0 := (heap duel 0)\<lparr>bf_type := 3\<rparr>)\<rparr>"

lemma archer_beside:
  "get_near_enemy archer 0 0 0 = Some [Ascoord 1 0]" "is_in_around archer (Ascoord 0 0) (Ascoord 1 0)"
  by code_simp+

theorem archer_reads_uninitialised_witness: "get_target plain_env archer 0 0 0 = None"
proof -
  have "may_act plain_env archer 0" "bf_type (heap archer 0) = 3" "bf_move (heap archer 0) \<noteq> 0"
    "bf_x (heap archer 0) = 0" "bf_y (heap archer 0) = 0"
    by (simp_all add: may_act_def archer_def wf_ground_def in_bounds_def my_pos_def plain_env_def soldier_def)
  with archer_reads_uninitialised [of plain_env archer 0 "[Ascoord 1 0]" "Ascoord 1 0"] archer_beside
  show ?thesis by (simp add: my_pos_def)
qed

text \<open>\<^verbatim>\<open>GetNearEnemy\<close> lists exactly the living enemies on passable cells of the rows from
  \<open>range\<close> above the fighter down to the lower edge of the board, in the columns at most
  \<open>range\<close> away, where \<open>range\<close> is attack range plus move power as a byte.\<close>

theorem get_near_enemy_exact:
  assumes "wf_ground g" "x < g_x g" "y < g_y g"
  shows "\<exists>es. get_near_enemy g c x y = Some es \<and>
    set es = {q. open_cell g q \<and> live_enemy_on g c q \<and>
       \<bar>uint (acx q) - uint x\<bar> \<le> uint (bf_range (heap g c) + bf_move (heap g c)) \<and>
       uint y - uint (acy q) \<le> uint (bf_range (heap g c) + bf_move (heap g c))}"
proof -
  let ?r = "uint (bf_range (heap g c) + bf_move (heap g c))"
  have cells: "q \<in> set (near_cells g c x y) \<longleftrightarrow> in_bounds g q \<and> \<bar>uint (acx q) - uint x\<bar> \<le> ?r \<and> uint y - uint (acy q) \<le> ?r" for q
  proof
    assume q: "q \<in> set (near_cells g c x y)"
    then obtain i j where ij: "q = Ascoord (word_of_int i) (word_of_int j)"
      "(if uint x > ?r then uint x - ?r else 0) \<le> i" "i \<le> (if uint x + ?r \<ge> uint (g_x g) then uint (g_x g) - 1 else uint x + ?r)"
      "i \<le> uint (g_x g) - 1" "(if uint y > ?r then uint y - ?r else 0) \<le> j" "j \<le> uint (g_y g) - 1"
      by (auto simp: near_cells_def Let_def split: if_splits)
    have "0 \<le> i" using ij(2) by (simp split: if_splits)
    moreover have "0 \<le> j" using ij(5) by (simp split: if_splits)
    moreover have "i < 256" using ij(4) uint_u8_bound(1) [of "g_x g"] by linarith
    moreover have "j < 256" using ij(6) uint_u8_bound(1) [of "g_y g"] by linarith
    ultimately have "uint (acx q) = i" "uint (acy q) = j" by (simp_all add: ij(1) uint_word_of_int)
    with ij(2-) near_cells_in_bounds [OF q]
    show "in_bounds g q \<and> \<bar>uint (acx q) - uint x\<bar> \<le> ?r \<and> uint y - uint (acy q) \<le> ?r"
      using assms(2) by (auto simp: word_less_def split: if_splits)
  next
    assume q: "in_bounds g q \<and> \<bar>uint (acx q) - uint x\<bar> \<le> ?r \<and> uint y - uint (acy q) \<le> ?r"
    have e: "q = Ascoord (word_of_int (uint (acx q))) (word_of_int (uint (acy q)))" by (cases q) simp
    have j: "uint y \<le> (if uint y + ?r \<ge> uint (g_y g) then uint (g_y g) - 1 else uint y + ?r)"
      using assms(3) uint_u8_bound(2) by (auto simp: word_less_def)
    show "q \<in> set (near_cells g c x y)"
      unfolding near_cells_def Let_def if_P [OF j]
      using q e by (auto simp: in_bounds_uint intro!: bexI [of _ "uint (acy q)"] image_eqI [of q _ "uint (acx q)"])
  qed
  show ?thesis
    unfolding get_near_enemy_Some [OF assms(1)] using cells by (auto simp: open_cell_def)
qed

theorem get_near_enemy_witness:
  "\<exists>es. get_near_enemy duel 0 0 0 = Some es \<and>
    set es = {q. open_cell duel q \<and> live_enemy_on duel 0 q \<and>
       \<bar>uint (acx q) - uint (0::u8)\<bar> \<le> uint (bf_range (heap duel 0) + bf_move (heap duel 0)) \<and>
       uint (0::u8) - uint (acy q) \<le> uint (bf_range (heap duel 0) + bf_move (heap duel 0))}"
  using get_near_enemy_exact [of duel 0 0 0] by simp

text \<open>\<^verbatim>\<open>MoreFit\<close>, the order \<^verbatim>\<open>std::sort\<close> is called with, puts each of two targets before
  the other exactly when one of them has the higher priority and the other the lower cost; it is a strict
  order only on targets where that does not happen.\<close>

theorem more_fit_both_ways:
  "more_fit a b \<and> more_fit b a \<longleftrightarrow>
     ti_pri b < ti_pri a \<and> ti_cost b < ti_cost a \<or> ti_pri a < ti_pri b \<and> ti_cost a < ti_cost b"
  by (auto simp: more_fit_def)

text \<open>With a path of other than two cells, all but the first of known cost, \<^verbatim>\<open>MoveAnalyse\<close> ends without an
  undefined read and either leaves the destination alone or sets it to a cell of the path that no living fighter holds.\<close>

theorem move_analyse_free:
  assumes "wf_ground g" "\<forall>q \<in> set path. in_bounds g q" "length path \<noteq> 2"
    "\<forall>q \<in> set path. q \<noteq> last path \<longrightarrow> get_ride_sub g c q \<noteq> None"
  shows "\<exists>m. move_analyse g c path t mv = Some m \<and> (m = mv \<or> m \<in> set path \<and> free_cell g m = Some True)"
  using delivers_result [OF move_analyse_delivers [where d = True, OF assms(1-3)]] assms(4) by blast

theorem move_analyse_free_witness:
  "\<exists>m. move_analyse duel 0 [Ascoord 2 1, Ascoord 1 1, Ascoord 0 0] (Ascoord 2 1) (Ascoord 255 255) = Some m \<and>
     (m = Ascoord 255 255 \<or> m \<in> set [Ascoord 2 1, Ascoord 1 1, Ascoord 0 0] \<and> free_cell duel m = Some True)"
  by (rule move_analyse_free)
    (simp_all add: get_ride_sub_def ground_at_def cell_index_def nth_opt_def soldier_def in_ride_sub_def Let_def)

text \<open>With a path of two cells it can choose the cell the enemy stands on.\<close>

lemma move_analyse_onto_enemy:
  "move_analyse duel 0 [Ascoord 1 0, Ascoord 0 0] (Ascoord 1 0) (Ascoord 255 255) = Some (Ascoord 1 0)"
  "live_enemy_on duel 0 (Ascoord 1 0)"
  by (simp_all add: move_analyse_def get_move_pos_def free_cell_def fighter_at_def cell_index_def nth_opt_def
      soldier_def live_enemy_on_def Let_def)

end
