(* ===== verification/Deployment.thy ===== *)
theory Deployment
  imports Ground
begin

text \<open>
  Setting up a battle: \<^verbatim>\<open>InitMapFight\<close> and the numbering of the camps' positions, the entry of
  fighters into the board (\<^verbatim>\<open>PushFighter\<close>, \<^verbatim>\<open>PushNpc\<close>, \<^verbatim>\<open>AutoEnterFighters\<close>, then \<^verbatim>\<open>preStart\<close> with
  \<^verbatim>\<open>newFighter\<close> and \<^verbatim>\<open>setObject\<close>) and the benches at the points of revival.  \<^verbatim>\<open>std::map\<close> members are ordered association lists
  (\<open>omap_put\<close>); \<open>operator[]\<close> on a missing key inserts an empty list, as in C++.

  Two loops erase the map entry their iterator stands on and then increment it, which is undefined
  behaviour; the model stops with \<open>None\<close> there.
\<close>

section \<open>Positions of a camp\<close>

definition camp_at :: "battle_ground \<Rightarrow> nat \<Rightarrow> u8 option" where
  "camp_at g i = nth_opt (map_camp g) i"

text \<open>\<^verbatim>\<open>_camp2pos[campId].push_back\<close>, in the two branches the code writes it in.\<close>

definition add_pos :: "u8 \<Rightarrow> ascoord \<Rightarrow> battle_ground \<Rightarrow> battle_ground" where
  "add_pos camp p g =
     (let old = (case map_of (camp2pos g) camp of None \<Rightarrow> [] | Some ps \<Rightarrow> ps)
      in g\<lparr>camp2pos := omap_put camp (if old = [] then [p] else old @ [p]) (camp2pos g)\<rparr>)"

text \<open>The test and the record of one cell.\<close>

definition visit_cell :: "u8 \<Rightarrow> battle_ground \<Rightarrow> ascoord \<Rightarrow> battle_ground option" where
  "visit_cell camp g p =
     do { k \<leftarrow> camp_at g (cell_index g p);
          Some (if k = camp then add_pos camp p g else g) }"

definition bytes_below :: "u8 \<Rightarrow> u8 list" where
  "bytes_below n = map of_nat [0 ..< unat n]"

definition search_left_to_right :: "u8 \<Rightarrow> battle_ground \<Rightarrow> battle_ground option" where
  "search_left_to_right camp g =
     foldm (visit_cell camp) g
       (concat (map (\<lambda>i. map (\<lambda>j. Ascoord i j) (bytes_below (g_y g))) (bytes_below (g_x g))))"

text \<open>\<^verbatim>\<open>SearchFromUpToDown\<close>: the list made for a camp without positions is not stored, so only the
  empty entry \<open>operator[]\<close> created remains.\<close>

definition visit_cell_up :: "u8 \<Rightarrow> battle_ground \<Rightarrow> ascoord \<Rightarrow> battle_ground option" where
  "visit_cell_up camp g p =
     do { k \<leftarrow> camp_at g (cell_index g p);
          Some (if k = camp
                then (case map_of (camp2pos g) camp of
                        None \<Rightarrow> g\<lparr>camp2pos := omap_put camp [] (camp2pos g)\<rparr>
                      | Some [] \<Rightarrow> g
                      | Some ps \<Rightarrow> g\<lparr>camp2pos := omap_put camp (ps @ [p]) (camp2pos g)\<rparr>)
                else g) }"

definition search_up_to_down :: "u8 \<Rightarrow> battle_ground \<Rightarrow> battle_ground option" where
  "search_up_to_down camp g =
     foldm (visit_cell_up camp) g
       (concat (map (\<lambda>j. map (\<lambda>i. Ascoord i j) (bytes_below (g_x g))) (bytes_below (g_y g))))"

text \<open>The two loops that count down test \<open>i >= 0\<close> on an unsigned byte; they end when the wrapped
  counter exceeds the board.  On a board 255 wide or high the counter never does.\<close>

definition visit_right :: "u8 \<Rightarrow> u8 \<Rightarrow> battle_ground \<Rightarrow> u8 \<Rightarrow> battle_ground option" where
  "visit_right camp i g j =
     do { x \<leftarrow> (if j mod 2 = 1
                then map_option (\<lambda>k. if k = 0 then i - 1 else i) (camp_at g (cell_index g (Ascoord i j)))
                else Some i);
          visit_cell camp g (Ascoord x j) }"

partial_function (option) right_columns :: "u8 \<Rightarrow> u8 \<Rightarrow> battle_ground \<Rightarrow> battle_ground option" where
  "right_columns camp i g =
     (if i > g_x g then Some g
      else do { g' \<leftarrow> foldm (visit_right camp i) g (bytes_below (g_y g));
                right_columns camp (i - 1) g' })"

definition search_right_to_left :: "u8 \<Rightarrow> battle_ground \<Rightarrow> battle_ground option" where
  "search_right_to_left camp g = right_columns camp (g_x g - 1) g"

partial_function (option) down_rows :: "u8 \<Rightarrow> u8 \<Rightarrow> battle_ground \<Rightarrow> battle_ground option" where
  "down_rows camp j g =
     (if j > g_y g then Some g
      else do { g' \<leftarrow> foldm (visit_cell camp) g (map (\<lambda>i. Ascoord i j) (bytes_below (g_x g)));
                down_rows camp (j - 1) g' })"

definition search_down_to_up :: "u8 \<Rightarrow> battle_ground \<Rightarrow> battle_ground option" where
  "search_down_to_up camp g = down_rows camp (g_y g - 1) g"

definition get_camp_attack_order :: "u8 \<Rightarrow> u8 \<Rightarrow> battle_ground \<Rightarrow> battle_ground option" where
  "get_camp_attack_order camp dir g =
     (if dir = 0 \<or> dir = 1 then search_left_to_right camp g
      else if dir = 2 then search_right_to_left camp g
      else if dir = 3 then search_up_to_down camp g
      else if dir = 4 then search_down_to_up camp g
      else Some g)"

definition get_special_direction :: "battle_ground \<Rightarrow> u8" where
  "get_special_direction g = (if length (pre_info g) \<in> {1, 2, 3, 4} then 1 else 0)"

text \<open>The camp counter of \<^verbatim>\<open>SetCampActId\<close> is a byte, so with 255 camps its loop does not end.\<close>

definition set_camp_act_id :: "game_env \<Rightarrow> battle_ground \<Rightarrow> battle_ground option" where
  "set_camp_act_id env g =
     do { mi \<leftarrow> ge_map env (map_id g);
          let forceNum = (of_nat (length (mi_act_camp mi)) :: u8)
          in if forceNum < 2 then Some g
             else if forceNum = 255 then None
             else if forceNum = 5 then get_camp_attack_order 5 (get_special_direction g) g
             else foldm (\<lambda>h i. get_camp_attack_order i (mi_direct mi i) h) g
                    (map of_nat [1 ..< Suc (unat forceNum)]) }"

section \<open>Numbers of positions\<close>

text \<open>One pass of \<^verbatim>\<open>SetEachPosNumber\<close> over the entries from the iterator on: the first position of
  each camp gets the next number.  An entry without positions is erased and its iterator incremented.\<close>

definition number_pos :: "u8 \<Rightarrow> ascoord \<Rightarrow> battle_ground \<Rightarrow> battle_ground" where
  "number_pos camp p g =
     (let n = max_ID g + 1; k = (ucast n :: u8)
      in g\<lparr>max_ID := n,
           num2pos := (if map_of (num2pos g) k = None then omap_put k p (num2pos g) else num2pos g)\<rparr>)"

fun number_pass :: "u8 list \<Rightarrow> battle_ground \<Rightarrow> battle_ground option" where
  "number_pass [] g = Some g"
| "number_pass (camp # camps) g =
     (case map_of (camp2pos g) camp of
        Some (p # ps) \<Rightarrow>
          number_pass camps ((number_pos camp p g)\<lparr>camp2pos := omap_put camp ps (camp2pos g)\<rparr>)
      | _ \<Rightarrow> None)"

partial_function (option) set_each_pos_number :: "battle_ground \<Rightarrow> battle_ground option" where
  "set_each_pos_number g =
     (if camp2pos g = [] then Some g
      else do { g' \<leftarrow> number_pass (map fst (camp2pos g)) g; set_each_pos_number g' })"

definition get_battle_index :: "battle_ground \<Rightarrow> u8 \<Rightarrow> u8 \<Rightarrow> u8 \<times> battle_ground" where
  "get_battle_index g x y =
     (case find (\<lambda>e. acx (snd e) = x \<and> acy (snd e) = y) (num2pos g) of
        Some e \<Rightarrow> (fst e, g)
      | None \<Rightarrow> let n = max_ID g + 1 in (ucast n, g\<lparr>max_ID := n\<rparr>))"

section \<open>Loading the map\<close>

text \<open>\<open>rounds\<close> is the newest report of a room and map, of the report table.\<close>

definition init_map_fight ::
  "game_env \<Rightarrow> (u32 \<Rightarrow> u8 \<Rightarrow> u16 option) \<Rightarrow> u8 \<Rightarrow> battle_ground \<Rightarrow> battle_ground option" where
  "init_map_fight env rounds m g0 =
     (let g1 = g0\<lparr>map_id := m\<rparr>
      in case ge_map env m of
           None \<Rightarrow> Some g1
         | Some mi \<Rightarrow>
             let n = unat (mi_width mi) * unat (mi_height mi);
                 g2 = g1\<lparr>g_x := mi_width mi, g_y := mi_height mi, map_ground := replicate n 0\<rparr>
             in if n \<noteq> length (mi_tiles mi) then Some g2
                else let g3 = g2\<lparr>map_ground := mi_tiles mi\<rparr>
                     in if length (mi_camps mi) > n then None
                        else let g4 = g3\<lparr>map_camp := mi_camps mi @ replicate (n - length (mi_camps mi)) 0\<rparr>
                             in do { g5 \<leftarrow> set_camp_act_id env g4;
                                     g6 \<leftarrow> set_each_pos_number g5;
                                     Some (g6\<lparr>map_fighters := replicate n None,
                                              round_id := (case rounds (room_id g6) m of None \<Rightarrow> 0 | Some r \<Rightarrow> r)\<rparr>) })"

section \<open>Fighters enter\<close>

definition pre_push :: "u8 \<Rightarrow> fighter_info \<Rightarrow> battle_ground \<Rightarrow> battle_ground" where
  "pre_push force fi g =
     (let old = (case map_of (pre_info g) force of None \<Rightarrow> [] | Some fs \<Rightarrow> fs)
      in g\<lparr>pre_info := omap_put force (old @ [fi]) (pre_info g), map_max_fgt_num := map_max_fgt_num g + 1\<rparr>)"

definition push_npc :: "u8 \<Rightarrow> u16 \<Rightarrow> u8 \<Rightarrow> u8 \<Rightarrow> battle_ground \<Rightarrow> battle_ground" where
  "push_npc force fid x y g =
     (if x \<ge> g_x g \<or> y \<ge> g_y g then g
      else pre_push force \<lparr>fi_owner = None, fi_fighterId = fid, fi_posx = x, fi_posy = y,
                            fi_num = map_max_fgt_num g\<rparr> g)"

text \<open>\<^verbatim>\<open>std::set<Player*>\<close>, in the order of the addresses; \<open>None\<close> is the null pointer.\<close>

definition put_player :: "nat option \<Rightarrow> nat option list \<Rightarrow> nat option list" where
  "put_player p ps =
     (if p \<in> set ps then ps else insort_key (\<lambda>q. case q of None \<Rightarrow> 0 | Some n \<Rightarrow> Suc n) p ps)"

definition note_calls :: "outcall list \<Rightarrow> battle_ground \<Rightarrow> battle_ground" where
  "note_calls cs g = g\<lparr>calls := calls g @ cs\<rparr>"

text \<open>The player's clan, if any, with its force is the argument \<open>clan_force\<close>.\<close>

definition push_fighter ::
  "(nat \<Rightarrow> u8 option) \<Rightarrow> nat \<Rightarrow> u16 \<Rightarrow> u8 \<Rightarrow> u8 \<Rightarrow> battle_ground \<Rightarrow> battle_ground" where
  "push_fighter clan_force pl fid x y g =
     (if x \<ge> g_x g \<or> y \<ge> g_y g then g
      else case clan_force pl of
          None \<Rightarrow> g
        | Some force \<Rightarrow>
            if force = 0 then g
            else let h = note_calls [SetBattleId pl (room_id g + ucast (map_id g)), SetBattleSide pl force]
                       (pre_push force \<lparr>fi_owner = Some pl, fi_fighterId = fid, fi_posx = x, fi_posy = y,
                                         fi_num = map_max_fgt_num g\<rparr> g)
                 in h\<lparr>set_player := put_player (Some pl) (set_player h)\<rparr>)"

definition get_pre_start_forces :: "battle_ground \<Rightarrow> u8 list" where
  "get_pre_start_forces g = filter (\<lambda>f. f \<noteq> 0) (map fst (pre_info g))"

section \<open>Points of revival and benches\<close>

definition is_relive_point :: "game_env \<Rightarrow> battle_ground \<Rightarrow> u8 \<Rightarrow> u8 \<Rightarrow> bool option" where
  "is_relive_point env g x y =
     (case ge_map env (map_id g) of
        None \<Rightarrow> Some False
      | Some mi \<Rightarrow> if mi_relive mi = [] then Some False
                   else nth_opt (mi_relive mi) (cell_index g (Ascoord x y)))"

definition get_bench_info :: "battle_ground \<Rightarrow> u8 \<Rightarrow> u8 \<Rightarrow> bench_info option" where
  "get_bench_info g x y = find (\<lambda>b. bi_x b = x \<and> bi_y b = y) (list_bench g)"

definition bench_put :: "u8 \<Rightarrow> u8 \<Rightarrow> nat \<Rightarrow> battle_ground \<Rightarrow> battle_ground" where
  "bench_put x y b g =
     (case get_bench_info g x y of
        None \<Rightarrow> g\<lparr>list_bench := list_bench g @ [bench_InsertFighter \<lparr>bi_x = x, bi_y = y, bi_listFighter = []\<rparr> b]\<rparr>
      | Some _ \<Rightarrow> g\<lparr>list_bench := update_first (\<lambda>e. bi_x e = x \<and> bi_y e = y)
                                 (\<lambda>e. bench_InsertFighter e b) (list_bench g)\<rparr>)"

definition set_object ::
  "game_env \<Rightarrow> u8 \<Rightarrow> u8 \<Rightarrow> nat \<Rightarrow> bool \<Rightarrow> battle_ground \<Rightarrow> battle_ground option" where
  "set_object env x y b flag g =
     (if x \<ge> g_x g \<or> y \<ge> g_y g then Some g
      else do { stay \<leftarrow> (if flag then Some True
                         else map_option (\<lambda>f. f = Some b) (fighter_at g (Ascoord (bf_x (heap g b)) (bf_y (heap g b)))));
        if \<not> stay then Some g
        else do { rel \<leftarrow> is_relive_point env g x y;
                  f \<leftarrow> fighter_at g (Ascoord x y);
                  if \<not> rel \<and> f \<noteq> None then Some g
                  else if rel \<and> f \<noteq> None then Some (bench_put x y b g)
                  else let g1 = g\<lparr>map_fighters := (map_fighters g)[cell_index g (Ascoord x y) := Some b]\<rparr>;
                           (n, g2) = get_battle_index g1 x y
                       in Some (g2\<lparr>heap := (heap g2)(b := (heap g2 b)\<lparr>bf_index := ucast n\<rparr>)\<rparr>) } })"

section \<open>Fighters are created\<close>

text \<open>The life saved for a fighter: his own and that of his soldiers, whose index is a byte.\<close>

definition restore_life :: "nat \<Rightarrow> (u32 \<times> u32 list) option \<Rightarrow> battle_ground \<Rightarrow> battle_ground" where
  "restore_life b saved g =
     (case saved of
        None \<Rightarrow> g
      | Some (hp, ss) \<Rightarrow>
          let bf = heap g b;
              s = snd (foldl (\<lambda>(i :: u8, s) v. (i + 1, s(i := v))) (0, bf_soldiers bf) ss)
          in g\<lparr>heap := (heap g)(b := bf\<lparr>bf_hp := uint hp, bf_soldiers := s\<rparr>)\<rparr>)"

definition player_id_of :: "game_env \<Rightarrow> nat option \<Rightarrow> u64" where
  "player_id_of env ow = (case ow of None \<Rightarrow> 0 | Some pl \<Rightarrow> ge_player_id env pl)"

text \<open>\<^verbatim>\<open>newFighter\<close>; \<open>flag\<close> keeps the new fighter off the board.\<close>

definition new_fighter ::
  "game_env \<Rightarrow> u8 \<Rightarrow> u8 \<Rightarrow> nat \<Rightarrow> bool \<Rightarrow> battle_ground \<Rightarrow> (nat option \<times> battle_ground) option" where
  "new_fighter env x y fgt flag g =
     (case ge_create env fgt x y of
        None \<Rightarrow> Some (None, g)
      | Some bf \<Rightarrow>
          let b = next_bf g;
              g1 = g\<lparr>heap := (heap g)(b := bf), next_bf := Suc b\<rparr>;
              fv = ge_fighter env fgt
          in do { g2 \<leftarrow> (if flag then Some g1 else set_object env x y b True g1);
                  let g3 = g2\<lparr>heap := (heap g2)(b := (heap g2 b)\<lparr>bf_enter := Ascoord x y\<rparr>)\<rparr>;
                      saved = ge_saved env (calls g3) (room_id g3) (map_id g3)
                                (player_id_of env (fv_owner fv)) (fv_id fv) x y
                  in Some (Some b, restore_life b saved g3) })"

text \<open>\<^verbatim>\<open>SetBaseHeroInfo\<close>: the cell is looked up at \<open>x * y\<close>, and the level of an equipment is read through a
  pointer only if that is null.\<close>

definition set_base_hero_info ::
  "game_env \<Rightarrow> nat \<Rightarrow> u8 \<Rightarrow> u8 \<Rightarrow> u8 \<Rightarrow> bool \<Rightarrow> u8 \<Rightarrow> battle_ground \<Rightarrow> battle_ground option" where
  "set_base_hero_info env fgt camp x y mine num g =
     do { m \<leftarrow> nth_opt (map_ground g) (unat x * unat y);
          let fv = ge_fighter env fgt
          in if m = 0 then Some g
             else if list_ex (\<lambda>i. \<not> ge_power_up env (fv_var fv i)) (ge_equip_classes env) then None
             else Some (note_calls [SetFgtBattleInfo fgt
                    \<lparr>fb_id = fv_id fv, fb_num = num, fb_force = camp, fb_x = x, fb_y = y, fb_power = fv_power fv,
                     fb_arms = fv_type fv, fb_mine = mine, fb_map = m, fb_star = fv_star fv,
                     fb_equip_level = map (fv_var fv) (ge_equips env)\<rparr>] g) }"

definition camp_list :: "battle_ground \<Rightarrow> u8 \<Rightarrow> nat list" where
  "camp_list g camp = (case map_of (camp2fighters g) camp of None \<Rightarrow> [] | Some fs \<Rightarrow> fs)"

text \<open>One entry of \<^verbatim>\<open>preStart\<close>.  Looking up the list of the camp creates it.\<close>

definition enter_one :: "game_env \<Rightarrow> u8 \<Rightarrow> battle_ground \<Rightarrow> fighter_info \<Rightarrow> battle_ground option" where
  "enter_one env camp g fi =
     (case (case fi_owner fi of None \<Rightarrow> ge_global env (fi_fighterId fi)
            | Some pl \<Rightarrow> ge_find env pl (fi_fighterId fi)) of
        None \<Rightarrow> Some g
      | Some fgt \<Rightarrow>
          let old = camp_list g camp
          in do { r \<leftarrow> new_fighter env (fi_posx fi) (fi_posy fi) fgt False
                       (g\<lparr>camp2fighters := omap_put camp old (camp2fighters g)\<rparr>);
                  (case r of
                     (None, h) \<Rightarrow> Some h
                   | (Some b, h) \<Rightarrow>
                       set_base_hero_info env fgt camp (fi_posx fi) (fi_posy fi) (fi_owner fi \<noteq> None) (fi_num fi)
                         (h\<lparr>camp2fighters := omap_put camp (old @ [b]) (camp2fighters h)\<rparr>)) })"

definition pre_start :: "game_env \<Rightarrow> battle_ground \<Rightarrow> battle_ground option" where
  "pre_start env g = foldm (\<lambda>h (camp, fis). foldm (enter_one env camp) h fis) g (pre_info g)"

section \<open>The arena's line-ups\<close>

definition map2point :: "(u8 \<times> u8) list list" where
  "map2point =
     [[(2,0), (1,1), (2,2), (1,0), (0,1), (1,2), (0,0)],
      [(3,0), (3,1), (3,2), (4,0), (4,1), (4,2), (0,0)]]"

text \<open>The line-up of a robot: its five fighters on the positions other than its front.  Setting the position in
  the arena is a call for each fighter that exists.\<close>

definition robot_layout ::
  "game_env \<Rightarrow> u16 list \<Rightarrow> nat \<Rightarrow> u16 \<Rightarrow> battle_ground \<Rightarrow> ((u8 \<times> u16) list \<times> battle_ground) option" where
  "robot_layout env fids front first g =
     (let ps = filter (\<lambda>i. i \<noteq> front) [0 ..< 6]
      in if length fids < length ps then None
         else Some (foldl (\<lambda>(m, h) (i, fid).
                      case ge_global env fid of
                        None \<Rightarrow> (m, h)
                      | Some ft \<Rightarrow> (omap_put (of_nat i) fid m, note_calls [SetArenaPos ft first] h))
                    ([], g) (zip ps fids)))"

text \<open>\<^verbatim>\<open>AutoEnterFighters\<close>.  \<open>layout\<close> is the player's line-up for attack and for defence; \<open>robot\<close> is the
  member of the arena at the given place: his player, if any, the number of his place, and the ground and the
  fighters of the robot in his stead.\<close>

definition auto_enter_one ::
  "u8 \<Rightarrow> nat option \<Rightarrow> battle_ground \<Rightarrow> u8 \<times> u16 \<Rightarrow> battle_ground option" where
  "auto_enter_one index pl g e =
     (if snd e = 0 then Some g
      else do { row \<leftarrow> nth_opt map2point (unat (index - 1));
                p \<leftarrow> nth_opt row (unat (fst e));
                if fst p \<ge> g_x g \<or> snd p \<ge> g_y g then Some g
                else let h = pre_push index \<lparr>fi_owner = pl, fi_fighterId = snd e, fi_posx = fst p, fi_posy = snd p,
                                            fi_num = map_max_fgt_num g\<rparr> g
                     in Some (case pl of None \<Rightarrow> h | Some k \<Rightarrow> note_calls [SetBattleSide k index] h) })"

definition auto_enter_fighters ::
  "game_env \<Rightarrow> (nat \<Rightarrow> bool \<Rightarrow> (u8 \<times> u16) list) \<Rightarrow> (u16 \<Rightarrow> nat option \<times> u16 \<times> u8 \<times> u16 list) \<Rightarrow>
   u8 \<Rightarrow> nat option \<Rightarrow> u16 \<Rightarrow> battle_ground \<Rightarrow> battle_ground option" where
  "auto_enter_fighters env layout robot index pl pos g =
     (if index = 0 \<or> index = 1 \<and> pl = None then Some g
      else case (case pl of
             Some k \<Rightarrow> Some (Some (layout k (index = 1), g))
           | None \<Rightarrow>
               (case robot pos of (own, first, ground, fids) \<Rightarrow>
                  if own \<noteq> None then Some None
                  else map_option Some (robot_layout env fids (unat ground mod 6) first g))) of
         None \<Rightarrow> None
       | Some None \<Rightarrow> Some g
       | Some (Some (m, h)) \<Rightarrow>
           do { k \<leftarrow> foldm (auto_enter_one index pl) h m;
                Some (k\<lparr>set_player := put_player pl (set_player k)\<rparr>) })"

text \<open>\<^verbatim>\<open>ClearArenaPos\<close> looks only at the second force, up to the first fighter of a player; looking the force up
  creates its entry.\<close>

definition clear_arena_pos :: "game_env \<Rightarrow> battle_ground \<Rightarrow> battle_ground" where
  "clear_arena_pos env g =
     (let fis = (case map_of (pre_info g) 2 of None \<Rightarrow> [] | Some fis \<Rightarrow> fis)
      in note_calls (concat (map (\<lambda>fi. case ge_global env (fi_fighterId fi) of None \<Rightarrow> [] | Some ft \<Rightarrow> [SetArenaPos ft 0])
                                 (takeWhile (\<lambda>fi. fi_owner fi = None) fis)))
           (g\<lparr>pre_info := omap_put 2 fis (pre_info g)\<rparr>))"

section \<open>The points of revival of a force\<close>

definition get_all_relive_point :: "game_env \<Rightarrow> battle_ground \<Rightarrow> u8 \<Rightarrow> ascoord list option" where
  "get_all_relive_point env g force =
     (case ge_map env (map_id g) of
        None \<Rightarrow> Some []
      | Some mi \<Rightarrow>
          if mi_relive mi = [] then Some []
          else filter_opt (\<lambda>p. do { r \<leftarrow> nth_opt (mi_relive mi) (cell_index g p);
                                    if r then map_option (\<lambda>k. k = force) (camp_at g (cell_index g p)) else Some False })
                 (concat (map (\<lambda>j. map (\<lambda>i. Ascoord i j) (bytes_below (g_x g))) (bytes_below (g_y g)))))"

fun min_relive :: "battle_ground \<Rightarrow> ascoord list \<Rightarrow> u16 \<Rightarrow> ascoord \<Rightarrow> ascoord" where
  "min_relive g [] n a = a"
| "min_relive g (p # ps) n a =
     (case get_bench_info g (acx p) (acy p) of
        None \<Rightarrow> p
      | Some b \<Rightarrow>
          if bench_GetFighterNum b < n then min_relive g ps (bench_GetFighterNum b) p
          else min_relive g ps n a)"

definition get_min_num_relive :: "game_env \<Rightarrow> battle_ground \<Rightarrow> u8 \<Rightarrow> ascoord \<Rightarrow> ascoord option" where
  "get_min_num_relive env g force a =
     do { ps \<leftarrow> get_all_relive_point env g force; Some (min_relive g ps 255 a) }"

definition get_bench_fighter_by_force_id :: "battle_ground \<Rightarrow> u8 \<Rightarrow> nat list option" where
  "get_bench_fighter_by_force_id g force =
     do { bs \<leftarrow> filter_opt (\<lambda>b. map_option (\<lambda>k. k = force) (camp_at g (cell_index g (Ascoord (bi_x b) (bi_y b)))))
                 (list_bench g);
          Some (concat (map bi_listFighter bs)) }"

text \<open>\<^verbatim>\<open>MixExtraFighterByForceId\<close>: one pass takes the first fighter of each force; a force without
  fighters is erased and the iterator to it incremented.\<close>

fun mix_pass :: "(u8 \<times> nat list) list \<Rightarrow> nat list \<Rightarrow> ((u8 \<times> nat list) list \<times> nat list) option" where
  "mix_pass [] out = Some ([], out)"
| "mix_pass ((k, []) # m) out = None"
| "mix_pass ((k, f # fs) # m) out =
     do { r \<leftarrow> mix_pass m (out @ [f]); Some ((k, fs) # fst r, snd r) }"

partial_function (option) mix_loop :: "(u8 \<times> nat list) list \<Rightarrow> nat list \<Rightarrow> nat list option" where
  "mix_loop m out =
     (if m = [] then Some out else do { r \<leftarrow> mix_pass m out; mix_loop (fst r) (snd r) })"

definition mix_extra_fighter_by_force_id :: "battle_ground \<Rightarrow> nat list option" where
  "mix_extra_fighter_by_force_id g =
     do { m \<leftarrow> foldm (\<lambda>m f. do { fs \<leftarrow> get_bench_fighter_by_force_id g f; Some (omap_put f fs m) })
                  [] (get_pre_start_forces g);
          mix_loop m [] }"

definition set_extra_fighter_act_id :: "battle_ground \<Rightarrow> battle_ground option" where
  "set_extra_fighter_act_id g =
     do { fs \<leftarrow> mix_extra_fighter_by_force_id g;
          Some (fold (\<lambda>b h. let n = max_ID h + 1
                            in h\<lparr>max_ID := n, heap := (heap h)(b := (heap h b)\<lparr>bf_index := n\<rparr>)\<rparr>) fs g) }"

section \<open>Recording positions\<close>

definition pos_of :: "battle_ground \<Rightarrow> u8 \<Rightarrow> ascoord list" where
  "pos_of g camp = (case map_of (camp2pos g) camp of None \<Rightarrow> [] | Some ps \<Rightarrow> ps)"

lemma pos_of_add: "pos_of (add_pos camp p g) k = (if k = camp then pos_of g camp @ [p] else pos_of g k)"
  by (auto simp: pos_of_def add_pos_def omap_put_get Let_def split: option.splits)

lemma add_pos_frame [frame_simps]:
  "map_camp (add_pos camp p g) = map_camp g" "g_x (add_pos camp p g) = g_x g" "g_y (add_pos camp p g) = g_y g"
  "cell_index (add_pos camp p g) = cell_index g" "camp_at (add_pos camp p g) = camp_at g"
  "add_pos camp p g = g\<lparr>camp2pos := camp2pos (add_pos camp p g)\<rparr>"
  by (auto simp: add_pos_def Let_def fun_eq_iff cell_index_def camp_at_def)

lemma in_bounds_camp2pos [simp]: "in_bounds (g\<lparr>camp2pos := m\<rparr>) = in_bounds g" "cell_index (g\<lparr>camp2pos := m\<rparr>) = cell_index g"
  "wf_ground (g\<lparr>camp2pos := m\<rparr>) = wf_ground g"
  by (auto simp: fun_eq_iff in_bounds_def cell_index_def wf_ground_def)

lemma visit_cells:
  assumes "wf_ground g" "\<forall>p \<in> set ps. in_bounds g p"
  shows "\<exists>m. foldm (visit_cell camp) g ps = Some (g\<lparr>camp2pos := m\<rparr>) \<and>
    (\<forall>k. pos_of (g\<lparr>camp2pos := m\<rparr>) k =
       (if k = camp then pos_of g camp @ filter (\<lambda>p. map_camp g ! cell_index g p = camp) ps else pos_of g k))"
  using assms
proof (induction ps arbitrary: g)
  case Nil
  then show ?case by (intro exI [of _ "camp2pos g"]) simp
next
  case (Cons p ps)
  let ?g = "if map_camp g ! cell_index g p = camp then add_pos camp p g else g"
  have step: "visit_cell camp g p = Some ?g"
    using Cons.prems by (simp add: visit_cell_def camp_at_def safe_simps)
  obtain m1 where m1: "?g = g\<lparr>camp2pos := m1\<rparr>"
  proof (cases "map_camp g ! cell_index g p = camp")
    case True
    then show ?thesis using that add_pos_frame(6) [of camp p g] by auto
  next
    case False
    then show ?thesis using that [of "camp2pos g"] by simp
  qed
  have "wf_ground ?g" "\<forall>p \<in> set ps. in_bounds ?g p" using Cons.prems unfolding m1 by auto
  from Cons.IH [OF this] obtain m where m: "foldm (visit_cell camp) ?g ps = Some (?g\<lparr>camp2pos := m\<rparr>)"
    "\<forall>k. pos_of (?g\<lparr>camp2pos := m\<rparr>) k =
       (if k = camp then pos_of ?g camp @ filter (\<lambda>p. map_camp ?g ! cell_index ?g p = camp) ps else pos_of ?g k)"
    by blast
  have "?g\<lparr>camp2pos := m\<rparr> = g\<lparr>camp2pos := m\<rparr>" unfolding m1 by simp
  moreover have "map_camp ?g = map_camp g" "cell_index ?g = cell_index g" unfolding m1 by simp_all
  moreover have "pos_of ?g k = (if k = camp \<and> map_camp g ! cell_index g p = camp then pos_of g camp @ [p] else pos_of g k)" for k
    by (simp add: pos_of_add)
  ultimately show ?case using m step by (intro exI [of _ m]) auto
qed

lemma bytes_below_set: "i \<in> set (bytes_below n) \<longleftrightarrow> i < n"
proof
  assume "i < n"
  then have "unat i < unat n" by (simp only: word_less_nat_alt)
  then have "of_nat (unat i) \<in> set (bytes_below n)" unfolding bytes_below_def set_map by (intro imageI) simp
  then show "i \<in> set (bytes_below n)" by simp
next
  assume "i \<in> set (bytes_below n)"
  then obtain k where k: "k < unat n" "i = of_nat k" by (auto simp: bytes_below_def)
  then have "unat i = k" using unat_u8_less [of n] by (simp only: unat_of_nat_u8)
  then show "i < n" using k(1) by (simp only: word_less_nat_alt)
qed

definition columns_first :: "battle_ground \<Rightarrow> ascoord list" where
  "columns_first g = concat (map (\<lambda>i. map (\<lambda>j. Ascoord i j) (bytes_below (g_y g))) (bytes_below (g_x g)))"

lemma columns_first_bounds: "p \<in> set (columns_first g) \<longleftrightarrow> in_bounds g p"
  by (cases p) (auto simp: columns_first_def in_bounds_def bytes_below_set image_iff)

lemma search_left_total:
  assumes "wf_ground g"
  shows "\<exists>m. search_left_to_right camp g = Some (g\<lparr>camp2pos := m\<rparr>) \<and>
    (\<forall>k. pos_of (g\<lparr>camp2pos := m\<rparr>) k =
       (if k = camp then pos_of g camp @ filter (\<lambda>p. map_camp g ! cell_index g p = camp) (columns_first g) else pos_of g k))"
  unfolding search_left_to_right_def columns_first_def [symmetric]
  by (rule visit_cells [OF assms]) (simp add: columns_first_bounds)

lemma visit_up_nothing:
  assumes "wf_ground g" "\<forall>p \<in> set ps. in_bounds g p" "pos_of g camp = []"
  shows "\<exists>m. foldm (visit_cell_up camp) g ps = Some (g\<lparr>camp2pos := m\<rparr>) \<and>
    (\<forall>k. pos_of (g\<lparr>camp2pos := m\<rparr>) k = pos_of g k)"
  using assms
proof (induction ps arbitrary: g)
  case Nil
  then show ?case by (intro exI [of _ "camp2pos g"]) simp
next
  case (Cons p ps)
  let ?m = "if map_camp g ! cell_index g p = camp \<and> map_of (camp2pos g) camp = None then omap_put camp [] (camp2pos g) else camp2pos g"
  have step: "visit_cell_up camp g p = Some (g\<lparr>camp2pos := ?m\<rparr>)"
    using Cons.prems by (auto simp: visit_cell_up_def camp_at_def safe_simps pos_of_def split: option.splits list.splits)
  have pos: "pos_of (g\<lparr>camp2pos := ?m\<rparr>) k = pos_of g k" for k
    by (auto simp: pos_of_def omap_put_get split: option.splits)
  from Cons.IH [of "g\<lparr>camp2pos := ?m\<rparr>"] Cons.prems pos
  obtain m where "foldm (visit_cell_up camp) (g\<lparr>camp2pos := ?m\<rparr>) ps = Some (g\<lparr>camp2pos := m\<rparr>)"
    "\<forall>k. pos_of (g\<lparr>camp2pos := m\<rparr>) k = pos_of g k" by auto
  then show ?case using step by (intro exI [of _ m]) simp
qed

section \<open>The numbering loop\<close>

definition positions :: "battle_ground \<Rightarrow> nat" where
  "positions g = sum_list (map (length \<circ> snd) (camp2pos g))"

lemma omap_put_same_length:
  assumes "omap_ok m" "map_of m k = Some (p # ps)"
  shows "sum_list (map (length \<circ> snd) m) = Suc (sum_list (map (length \<circ> snd) (omap_put k ps m)))"
    "map fst (omap_put k ps m) = map fst m"
  using assms
proof (induction m)
  case (Cons e m)
  obtain k' v' where e: "e = (k', v')" by (cases e)
  have lt: "k' < k" if "map_of m k = Some (p # ps)" "omap_ok (e # m)"
    using that e by (force simp: omap_ok_def dest: map_of_SomeD)
  { case 1
    then show ?case using Cons.IH(1) e lt by (cases "k' = k") (auto simp: omap_ok_def)
  next
    case 2
    then show ?case using Cons.IH(2) e lt by (cases "k' = k") (auto simp: omap_ok_def) }
qed simp_all

lemma number_pos_camps [frame_simps]: "camp2pos (number_pos camp p g) = camp2pos g"
  by (simp add: number_pos_def Let_def)

lemma number_pass_shrinks:
  assumes "number_pass ks g = Some h" "omap_ok (camp2pos g)"
  shows "omap_ok (camp2pos h) \<and> map fst (camp2pos h) = map fst (camp2pos g) \<and> positions g = positions h + length ks"
  using assms
proof (induction ks arbitrary: g)
  case (Cons k ks)
  from Cons.prems(1) obtain p ps where ps: "map_of (camp2pos g) k = Some (p # ps)"
    "number_pass ks ((number_pos k p g)\<lparr>camp2pos := omap_put k ps (camp2pos g)\<rparr>) = Some h"
    by (auto split: option.splits list.splits)
  from Cons.IH [OF ps(2)] omap_put_same_length [OF Cons.prems(2) ps(1)] omap_put_ok [OF Cons.prems(2), of k ps]
  show ?case by (auto simp: positions_def)
qed simp

lemma set_each_pos_number_none:
  assumes "omap_ok (camp2pos g)" "camp2pos g \<noteq> []"
  shows "set_each_pos_number g = None"
  using assms
proof (induction "positions g" arbitrary: g rule: less_induct)
  case less
  show ?case
  proof (cases "number_pass (map fst (camp2pos g)) g")
    case None
    then show ?thesis using less.prems(2) by (subst set_each_pos_number.simps) simp
  next
    case (Some h)
    from number_pass_shrinks [OF Some less.prems(1)] have h: "omap_ok (camp2pos h)"
      "map fst (camp2pos h) = map fst (camp2pos g)" "positions g = positions h + length (camp2pos g)" by simp_all
    then have "camp2pos h \<noteq> []" "positions h < positions g" using less.prems(2) by auto
    from less.hyps [OF this(2) h(1) this(1)] Some less.prems(2) show ?thesis
      by (subst set_each_pos_number.simps) simp
  qed
qed

lemma mix_loop_none: "m \<noteq> [] \<Longrightarrow> mix_loop m out = None"
proof (induction "sum_list (map (length \<circ> snd) m)" arbitrary: m out rule: less_induct)
  case less
  have shrink: "mix_pass m out = Some r \<Longrightarrow> length (fst r) = length m \<and>
      sum_list (map (length \<circ> snd) m) = sum_list (map (length \<circ> snd) (fst r)) + length m" for m out r
    by (induction m out arbitrary: r rule: mix_pass.induct) (auto simp: bind_eq_Some_conv)
  show ?case
  proof (cases "mix_pass m out")
    case None
    then show ?thesis using less.prems by (subst mix_loop.simps) simp
  next
    case (Some r)
    from shrink [OF Some] less.prems have "sum_list (map (length \<circ> snd) (fst r)) < sum_list (map (length \<circ> snd) m)" "fst r \<noteq> []"
      by auto
    from less.hyps [OF this] Some less.prems show ?thesis by (subst mix_loop.simps) simp
  qed
qed

section \<open>Entering the board\<close>

lemma get_battle_index_frame [frame_simps]:
  "map_fighters (snd (get_battle_index g x y)) = map_fighters g"
  "heap (snd (get_battle_index g x y)) = heap g"
  "wf_ground (snd (get_battle_index g x y)) = wf_ground g"
  "fighter_at (snd (get_battle_index g x y)) = fighter_at g"
  by (auto simp: get_battle_index_def Let_def wf_ground_def fighter_at_def cell_index_def fun_eq_iff split: option.splits)

lemma set_object_placed:
  assumes "wf_ground g" "in_bounds g (Ascoord x y)" "fighter_at g (Ascoord x y) = Some None"
    "is_relive_point env g x y = Some rel"
  shows "\<exists>h. set_object env x y b True g = Some h \<and> wf_ground h \<and>
    fighter_at h (Ascoord x y) = Some (Some b) \<and>
    (\<forall>p. in_bounds g p \<and> p \<noteq> Ascoord x y \<longrightarrow> fighter_at h p = fighter_at g p)"
proof -
  define g1 where "g1 = g\<lparr>map_fighters := (map_fighters g)[cell_index g (Ascoord x y) := Some b]\<rparr>"
  obtain n g2 where ng: "get_battle_index g1 x y = (n, g2)" by (cases "get_battle_index g1 x y")
  define h where "h = g2\<lparr>heap := (heap g2)(b := (heap g2 b)\<lparr>bf_index := ucast n\<rparr>)\<rparr>"
  have f2: "fighter_at g2 = fighter_at g1" "wf_ground g2 = wf_ground g1"
    using get_battle_index_frame(3,4) [of g1 x y] ng by simp_all
  have fh: "fighter_at h = fighter_at g1" "wf_ground h = wf_ground g1"
    unfolding f2 [symmetric] by (auto simp: h_def fighter_at_def cell_index_def wf_ground_def fun_eq_iff)
  have upd: "fighter_at g1 p = (if cell_index g (Ascoord x y) = cell_index g p \<and> cell_index g p < length (map_fighters g)
      then Some (Some b) else fighter_at g p)" for p
    by (simp add: g1_def fighter_at_def cell_index_def nth_opt_update)
  have fg: "fighter_at g1 p = (if p = Ascoord x y then Some (Some b) else fighter_at g p)" if "in_bounds g p" for p
    unfolding upd using cell_index_inj [OF that assms(2)] cell_index_less(3) [OF assms(1) that] by auto
  have wg: "wf_ground g1" using assms(1) by (simp add: wf_ground_def g1_def)
  have bounds: "\<not> g_x g \<le> x" "\<not> g_y g \<le> y" using assms(2) by (simp_all add: in_bounds_def not_le)
  have "set_object env x y b True g = Some h"
    unfolding set_object_def
    by (simp only: bounds simp_thms if_False if_True assms(3,4) bind.bind_lunit Let_def
        g1_def [symmetric] ng prod.case h_def)
  then show ?thesis using fh fg wg assms(2) by auto
qed

text \<open>The roster before the battle: the fighters of all forces, in the order of their forces.\<close>

definition roster :: "battle_ground \<Rightarrow> fighter_info list" where
  "roster g = concat (map snd (pre_info g))"

definition roster_ok :: "battle_ground \<Rightarrow> bool" where
  "roster_ok g \<longleftrightarrow> omap_ok (pre_info g) \<and> map_max_fgt_num g = of_nat (length (roster g)) \<and>
     mset (map fi_num (roster g)) = mset (map of_nat [0 ..< length (roster g)])"

lemma concat_omap_put:
  assumes "omap_ok m"
  shows "mset (concat (map snd (omap_put k ((case map_of m k of None \<Rightarrow> [] | Some fs \<Rightarrow> fs) @ [x]) m))) =
    add_mset x (mset (concat (map snd m)))"
  using assms
proof (induction m)
  case (Cons e m)
  obtain k' v' where e: "e = (k', v')" by (cases e)
  have "k < k' \<Longrightarrow> map_of m k = None"
    using Cons.prems e by (auto simp: omap_ok_def map_of_eq_None_iff)
  then show ?case using Cons e by (auto simp: omap_ok_def not_less_iff_gr_or_eq)
qed simp

lemma roster_pre_push:
  assumes "roster_ok g" "fi_num fi = map_max_fgt_num g"
  shows "roster_ok (pre_push force fi g)" "mset (roster (pre_push force fi g)) = add_mset fi (mset (roster g))"
proof -
  show m: "mset (roster (pre_push force fi g)) = add_mset fi (mset (roster g))"
    using concat_omap_put [of "pre_info g" force fi] assms(1)
    by (simp add: roster_def pre_push_def Let_def roster_ok_def)
  then have l: "length (roster (pre_push force fi g)) = Suc (length (roster g))" by (metis size_add_mset size_mset)
  have "mset (map fi_num (roster (pre_push force fi g))) = add_mset (fi_num fi) (mset (map fi_num (roster g)))"
    using m by simp
  then show "roster_ok (pre_push force fi g)"
    using assms l omap_put_ok [of "pre_info g"]
    by (auto simp: roster_ok_def pre_push_def Let_def add.commute)
qed

text \<open>The number of fighters waiting at a point; a point without a bench has none.\<close>

definition waiting :: "battle_ground \<Rightarrow> ascoord \<Rightarrow> u16" where
  "waiting g p = (case get_bench_info g (acx p) (acy p) of None \<Rightarrow> 0 | Some b \<Rightarrow> bench_GetFighterNum b)"

lemma min_relive_least:
  "min_relive g ps n a = a \<and> (\<forall>p \<in> set ps. n \<le> waiting g p) \<or>
   min_relive g ps n a \<in> set ps \<and> waiting g (min_relive g ps n a) \<le> n \<and>
     (\<forall>p \<in> set ps. waiting g (min_relive g ps n a) \<le> waiting g p)"
proof (induction g ps n a rule: min_relive.induct)
  case (2 g q ps n a)
  show ?case
  proof (cases "get_bench_info g (acx q) (acy q)")
    case None
    then show ?thesis by (simp add: waiting_def)
  next
    case (Some b)
    then have wq: "waiting g q = bench_GetFighterNum b" by (simp add: waiting_def)
    show ?thesis
    proof (cases "bench_GetFighterNum b < n")
      case True
      with 2(1) [OF Some True] Some wq show ?thesis by auto
    next
      case False
      with 2(2) [OF Some False] Some wq show ?thesis by (auto simp: not_less)
    qed
  qed
qed simp
section \<open>Properties\<close>

text \<open>On a well-formed board \<^verbatim>\<open>SearchFromLeftToRight\<close> appends to a camp's positions exactly the cells
  of that camp, column by column, and leaves the other camps' positions alone.\<close>

theorem search_left_to_right_exact:
  assumes "wf_ground g"
  shows "\<exists>h. search_left_to_right camp g = Some h \<and>
    pos_of h camp = pos_of g camp @ filter (\<lambda>p. map_camp g ! cell_index g p = camp) (columns_first g) \<and>
    set (pos_of h camp) = set (pos_of g camp) \<union> {p. in_bounds g p \<and> map_camp g ! cell_index g p = camp} \<and>
    (\<forall>k. k \<noteq> camp \<longrightarrow> pos_of h k = pos_of g k)"
  using search_left_total [OF assms, of camp] by (auto simp: columns_first_bounds)

theorem search_left_to_right_witness:
  "\<exists>h. search_left_to_right 0 duel = Some h \<and> pos_of h 0 = pos_of duel 0 @ columns_first duel"
proof -
  have "filter (\<lambda>p. map_camp duel ! cell_index duel p = 0) (columns_first duel) = columns_first duel"
  proof (rule filter_True, rule ballI)
    fix p assume "p \<in> set (columns_first duel)"
    then have "cell_index duel p < 6"
      using cell_index_less(2) [OF duel_wf, of p] by (simp add: columns_first_bounds)
    then have "map_camp duel ! cell_index duel p \<in> set (map_camp duel)" by (intro nth_mem) simp
    then show "map_camp duel ! cell_index duel p = 0" by simp
  qed
  then show ?thesis using search_left_to_right_exact [of duel 0] by auto
qed

text \<open>\<^verbatim>\<open>SearchFromUpToDown\<close> records no position at all for a camp that has none yet.\<close>

theorem search_up_to_down_records_nothing:
  assumes "wf_ground g" "pos_of g camp = []"
  shows "\<exists>h. search_up_to_down camp g = Some h \<and> (\<forall>k. pos_of h k = pos_of g k)"
proof -
  have "\<forall>p \<in> set (concat (map (\<lambda>j. map (\<lambda>i. Ascoord i j) (bytes_below (g_x g))) (bytes_below (g_y g)))). in_bounds g p"
    by (auto simp: in_bounds_def bytes_below_set)
  from visit_up_nothing [OF assms(1) this assms(2)] show ?thesis
    unfolding search_up_to_down_def by blast
qed

theorem search_up_to_down_witness:
  "\<exists>h. search_up_to_down 0 duel = Some h \<and> (\<forall>k. pos_of h k = pos_of duel k)"
  by (rule search_up_to_down_records_nothing, rule duel_wf)
     (simp add: pos_of_def duel_def board_of_def new_ground_def)

text \<open>\<^verbatim>\<open>SearchFromRightToLeft\<close> can record a cell twice: on an odd row a cell without a camp is replaced by
  its left neighbour, which is visited again in the next column.\<close>

lemma search_right_to_left_twice:
  "map_option (\<lambda>h. pos_of h 1)
     (do { h \<leftarrow> foldm (visit_right 1 1) (board_of 2 2 [1,1,1,1] [None,None,None,None] (\<lambda>_. soldier 1 0 0)\<lparr>map_camp := [0,0,1,0]\<rparr>) [0, 1];
           foldm (visit_right 1 0) h [0, 1] }) = Some [Ascoord 0 1, Ascoord 0 1]"
  by (simp add: visit_right_def visit_cell_def camp_at_def cell_index_def board_of_def new_ground_def
      add_pos_def pos_of_def nth_opt_def)

text \<open>\<^verbatim>\<open>SetEachPosNumber\<close> runs into the increment of an erased iterator whenever a camp has an entry in
  the position table; without one it changes nothing.\<close>

theorem set_each_pos_number_undefined:
  assumes "omap_ok (camp2pos g)"
  shows "set_each_pos_number g = (if camp2pos g = [] then Some g else None)"
  using set_each_pos_number_none [OF assms]
  by (cases "camp2pos g = []") (simp_all add: set_each_pos_number.simps [of g])

theorem set_each_pos_number_witness:
  "set_each_pos_number (add_pos 1 (Ascoord 0 0) duel) = None"
  using set_each_pos_number_undefined [of "add_pos 1 (Ascoord 0 0) duel"]
  by (simp add: add_pos_def duel_def board_of_def new_ground_def omap_ok_def)

text \<open>A fighter entering a cell of the board that is not a point of revival is put there when the cell is
  empty, with every other cell left as it was; when the cell is taken nothing changes.\<close>

theorem set_object_enters:
  assumes "wf_ground g" "in_bounds g (Ascoord x y)" "is_relive_point env g x y = Some False"
  shows "\<exists>h. set_object env x y b True g = Some h \<and> wf_ground h \<and>
    (if fighter_at g (Ascoord x y) = Some None
     then fighter_at h (Ascoord x y) = Some (Some b) \<and>
          (\<forall>p. in_bounds g p \<and> p \<noteq> Ascoord x y \<longrightarrow> fighter_at h p = fighter_at g p)
     else h = g)"
proof (cases "fighter_at g (Ascoord x y) = Some None")
  case True
  then show ?thesis using set_object_placed [OF assms(1,2) True assms(3), of b] by auto
next
  case False
  then show ?thesis
    using assms fighter_at_Some [OF assms(1,2)] by (auto simp: set_object_def in_bounds_def not_le)
qed

theorem set_object_enters_witness:
  "\<exists>h. set_object plain_env 2 1 1 True duel = Some h \<and>
     fighter_at h (Ascoord 2 1) = Some (Some 1)"
  using set_object_enters [of duel 2 1 plain_env 1]
  by (auto simp: is_relive_point_def fighter_at_def cell_index_def plain_env_def)

text \<open>The numbers handed out by \<^verbatim>\<open>PushNpc\<close> and \<^verbatim>\<open>PushFighter\<close> stay those of an enumeration from zero
  (as bytes), whichever force a fighter joins, and a fighter outside of the board is not taken in.\<close>

theorem push_npc_roster:
  assumes "roster_ok g"
  shows "roster_ok (push_npc force fid x y g) \<and> roster_ok (push_fighter cf pl fid x y g) \<and>
    length (roster (push_npc force fid x y g)) =
      length (roster g) + (if x < g_x g \<and> y < g_y g then 1 else 0)"
proof -
  let ?fi = "\<lambda>ow. \<lparr>fi_owner = ow, fi_fighterId = fid, fi_posx = x, fi_posy = y, fi_num = map_max_fgt_num g\<rparr>"
  have p: "roster_ok (pre_push k (?fi ow) g)" "length (roster (pre_push k (?fi ow) g)) = Suc (length (roster g))" for k ow
    using roster_pre_push [OF assms, of "?fi ow" k] by (simp_all flip: size_mset)
  have "roster_ok ((note_calls cs (pre_push k (?fi ow) g))\<lparr>set_player := S\<rparr>)" for k ow S cs
    using p(1) [of k ow] by (simp add: roster_ok_def roster_def note_calls_def)
  then show ?thesis using p assms
    by (auto simp: push_npc_def push_fighter_def Let_def not_le split: option.splits)
qed

theorem push_npc_roster_witness:
  "roster_ok (push_npc 1 7 2 1 duel) \<and> roster_ok (push_fighter (\<lambda>_. Some 2) 3 7 2 1 duel) \<and>
    length (roster (push_npc 1 7 2 1 duel)) = length (roster duel) + (if (2::u8) < g_x duel \<and> (1::u8) < g_y duel then 1 else 0)"
  by (rule push_npc_roster)
     (simp add: roster_ok_def roster_def omap_ok_def duel_def board_of_def new_ground_def)

text \<open>The point of revival \<^verbatim>\<open>GetMinNumRelive\<close> settles on is one of the force's points, and no other
  of them has fewer fighters waiting; the given cell is kept only if every point has at least 255.\<close>

theorem min_relive_chooses_least:
  "min_relive g ps 255 a = a \<and> (\<forall>p \<in> set ps. 255 \<le> waiting g p) \<or>
   min_relive g ps 255 a \<in> set ps \<and> (\<forall>p \<in> set ps. waiting g (min_relive g ps 255 a) \<le> waiting g p)"
  using min_relive_least [of g ps 255 a] by auto

theorem min_relive_witness:
  "min_relive duel [Ascoord 1 1] 255 (Ascoord 255 255) = Ascoord 1 1"
  using min_relive_chooses_least [of duel "[Ascoord 1 1]" "Ascoord 255 255"]
  by (simp add: get_bench_info_def duel_def board_of_def new_ground_def)

end
