(* ===== verification/BattleRound.thy ===== *)
theory BattleRound
  imports TargetSelect Deployment
begin

text \<open>
  The course of a battle: which camps are still alive, in which order the fighters act, what one fighter
  does when it is his turn in the arena (\<^verbatim>\<open>ArenaMove\<close>), and the rounds of \<^verbatim>\<open>start\<close>.

  The single combat (\<^verbatim>\<open>BattleProxy\<close>) is not in the repository: it is the argument \<open>duel_of\<close>, a
  function from the fighters and the two grounds to the fighters afterwards, the winner and the time it took.
  \<^verbatim>\<open>std::sort\<close> is defined only where its comparator is a strict weak order on the list, which
  \<^verbatim>\<open>MoreFit\<close> need not be (\<open>more_fit_both_ways\<close>): elsewhere the turn has no result, and where it is,
  the argument \<open>sorter\<close> is the list it leaves behind.  The report is written to \<open>pack\<close> byte by byte; what
  \<^verbatim>\<open>InsertFighterInfo\<close> writes for a fighter is \<open>ge_info\<close>.
\<close>

section \<open>Camps\<close>

definition some_camp_is_all_die :: "battle_ground \<Rightarrow> u8 \<Rightarrow> bool" where
  "some_camp_is_all_die g camp = list_all (\<lambda>b. \<not> bf_hp (heap g b) > 0) (camp_list g camp)"

definition check_is_stop :: "battle_ground \<Rightarrow> bool" where
  "check_is_stop g =
     (if length (camp2fighters g) \<le> 1 then True
      else let num = foldl (\<lambda>n e. if some_camp_is_all_die g (fst e) then n + 1 else n) (0::u8) (camp2fighters g);
               totalCamp = (of_nat (length (camp2fighters g)) :: u8)
           in uint num + 1 \<ge> uint totalCamp)"

definition get_alive_force :: "battle_ground \<Rightarrow> u8 list" where
  "get_alive_force g = filter (\<lambda>k. k \<noteq> 0 \<and> \<not> some_camp_is_all_die g k) (map fst (camp2fighters g))"

definition get_capture_id :: "game_env \<Rightarrow> battle_ground \<Rightarrow> u8 \<times> battle_ground" where
  "get_capture_id env g =
     (let alive = get_alive_force g;
          h = (if is_npc g then (clear_arena_pos env g)\<lparr>is_npc := False\<rparr> else g)
      in (if alive = [] then 0 else if length alive = 1 then last alive else 0, h))"

definition set_capture_force :: "game_env \<Rightarrow> battle_ground \<Rightarrow> battle_ground" where
  "set_capture_force env g =
     (if camp2fighters g = [] then g
      else case ge_status env (calls g) (room_id g) of
          None \<Rightarrow> g
        | Some battle \<Rightarrow>
            (case get_capture_id env g of (k, h) \<Rightarrow>
               if k \<noteq> 0
               then note_calls [SetOwnForce (room_id h) (map_id h) k, SaveOwnForce (room_id h) battle (map_id h) k] h
               else h))"

text \<open>\<^verbatim>\<open>std::list::sort\<close> with \<^verbatim>\<open>LessActId\<close> is stable.\<close>

definition by_act_id :: "battle_ground \<Rightarrow> nat list \<Rightarrow> nat list" where
  "by_act_id g fs = sort_key (\<lambda>b. bf_index (heap g b)) fs"

definition sort_by_act_id :: "battle_ground \<Rightarrow> battle_ground" where
  "sort_by_act_id g = g\<lparr>camp2fighters := map (\<lambda>e. (fst e, by_act_id g (snd e))) (camp2fighters g)\<rparr>"

definition get_all_battle_fighter :: "battle_ground \<Rightarrow> battle_ground" where
  "get_all_battle_fighter g =
     g\<lparr>list_fighters := by_act_id g (list_fighters g @ concat (map snd (camp2fighters g)))\<rparr>"

section \<open>One turn\<close>

text \<open>The fighters afterwards, the winner, the number of the report and the time.\<close>

type_synonym duel_fun =
  "(nat \<Rightarrow> bfighter) \<Rightarrow> nat \<Rightarrow> nat \<Rightarrow> int \<Rightarrow> u8 \<Rightarrow> u8 \<Rightarrow> (nat \<Rightarrow> bfighter) \<times> u8 \<times> u32 \<times> u16"

definition land_to_fight_ground :: "u8 list" where
  "land_to_fight_ground = [1, 2, 4, 3]"

text \<open>\<^verbatim>\<open>Fight\<close>: the fighters, \<^verbatim>\<open>result\<close>, \<^verbatim>\<open>BattleReport\<close> and \<^verbatim>\<open>fightTimeCost\<close> afterwards, which the caller
  initialised to zero.\<close>

definition fight_between ::
  "duel_fun \<Rightarrow> battle_ground \<Rightarrow> nat \<Rightarrow> nat \<Rightarrow> ((nat \<Rightarrow> bfighter) \<times> u8 \<times> u32 \<times> u16) option" where
  "fight_between duel_of g c b =
     (let p = my_pos g c; q = my_pos g b
      in do { l1 \<leftarrow> ground_at g p;
              if l1 = 0 then Some (heap g, 0, 0, 0)
              else do { f1 \<leftarrow> nth_opt land_to_fight_ground (unat l1 - 1);
                l2 \<leftarrow> ground_at g q;
                if l2 = 0 then Some (heap g, 0, 0, 0)
                else do { f2 \<leftarrow> nth_opt land_to_fight_ground (unat l2 - 1);
                  Some (duel_of (heap g) c b (uint (get_distance p q) + 1) f1 f2) } } })"

section \<open>The report\<close>

definition put_pack :: "u8 list \<Rightarrow> battle_ground \<Rightarrow> battle_ground" where
  "put_pack bs g = g\<lparr>pack := stream_put bs (pack g)\<rparr>"

definition insert_fighter_info :: "game_env \<Rightarrow> bool \<Rightarrow> nat \<Rightarrow> battle_ground \<Rightarrow> battle_ground" where
  "insert_fighter_info env whole b g = put_pack (ge_info env (heap g b) whole) g"

definition set_pack :: "nat \<Rightarrow> u8 list \<Rightarrow> battle_ground \<Rightarrow> battle_ground" where
  "set_pack off bs g = g\<lparr>pack := stream_set_data off bs (pack g)\<rparr>"

text \<open>\<^verbatim>\<open>MakePreStartInfo\<close>: for each camp its living fighters, counted in one byte before them.\<close>

definition make_camp_info :: "game_env \<Rightarrow> u8 \<Rightarrow> nat list \<Rightarrow> battle_ground \<Rightarrow> battle_ground" where
  "make_camp_info env camp fs g =
     (let g1 = put_pack [camp] g;
          offset = stream_size (pack g1);
          living = filter (\<lambda>b. bf_hp (heap g b) > 0) fs
      in set_pack offset [of_nat (length living)] (fold (insert_fighter_info env True) living (put_pack [0] g1)))"

definition make_pre_start_info :: "game_env \<Rightarrow> battle_ground \<Rightarrow> battle_ground" where
  "make_pre_start_info env g =
     fold (\<lambda>(camp, fs). make_camp_info env camp fs) (camp2fighters g)
       (put_pack [of_nat (length (camp2fighters g))] g)"

text \<open>The beginning of a report, with the place at which the number of acts is put in later.\<close>

definition open_report :: "game_env \<Rightarrow> battle_ground \<Rightarrow> nat \<times> battle_ground" where
  "open_report env g =
     (let g1 = make_pre_start_info env (put_pack [map_id g] (g\<lparr>pack := stream_init 0x80 0xFF (pack g)\<rparr>))
      in (stream_size (pack g1), g1))"

definition close_report :: "game_env \<Rightarrow> nat \<Rightarrow> u16 \<Rightarrow> battle_ground \<Rightarrow> battle_ground" where
  "close_report env offset n g =
     (let g1 = put_pack (word_bytes 4 (ge_now env (calls g))) (set_pack offset (word_bytes 2 n) g)
      in g1\<lparr>pack := stream_eos (pack g1)\<rparr>)"

section \<open>One turn in the arena\<close>

definition leave_and_enter :: "battle_ground \<Rightarrow> nat \<Rightarrow> ascoord \<Rightarrow> ascoord \<Rightarrow> battle_ground option" where
  "leave_and_enter g c p q =
     do { fs1 \<leftarrow> upd_opt (map_fighters g) (cell_index g p) None;
          fs2 \<leftarrow> upd_opt fs1 (cell_index g q) (Some c);
          Some (g\<lparr>map_fighters := fs2\<rparr>) }"

definition set_ground_pos :: "battle_ground \<Rightarrow> nat \<Rightarrow> ascoord \<Rightarrow> battle_ground" where
  "set_ground_pos g c q = g\<lparr>heap := (heap g)(c := (heap g c)\<lparr>bf_x := acx q, bf_y := acy q\<rparr>)\<rparr>"

text \<open>\<^verbatim>\<open>ceil(n * 0.5)\<close> and \<^verbatim>\<open>ceil(n / 100.0)\<close>.\<close>

definition half_up :: "nat \<Rightarrow> nat" where "half_up n = (n + 1) div 2"
definition hundredths_up :: "nat \<Rightarrow> nat" where "hundredths_up n = (n + 99) div 100"

text \<open>What the report says of a fighter who only moves, and of one who attacks.\<close>

definition report_move :: "game_env \<Rightarrow> nat \<Rightarrow> ascoord \<Rightarrow> u8 \<Rightarrow> battle_ground \<Rightarrow> battle_ground" where
  "report_move env c q dis g =
     put_pack [acx q, acy q, of_nat (half_up (unat dis + 1)), 0] (insert_fighter_info env False c g)"

definition spend_time :: "nat \<Rightarrow> battle_ground \<Rightarrow> battle_ground" where
  "spend_time n g = g\<lparr>one_round_cost_time := one_round_cost_time g + of_nat n\<rparr>"

definition count_win :: "u8 \<Rightarrow> nat \<Rightarrow> nat \<Rightarrow> battle_ground \<Rightarrow> battle_ground" where
  "count_win win c b g =
     (let up = (\<lambda>k. g\<lparr>heap := (heap g)(k := (heap g k)\<lparr>bf_multi_kill := bf_multi_kill (heap g k) + 1\<rparr>)\<rparr>)
      in if win = 0 then up c else if win = 1 then up b else g)"

text \<open>The combat of a fighter who stands on the cell he attacks from, \<open>dis\<close> cells from where he was.\<close>

definition combat :: "game_env \<Rightarrow> duel_fun \<Rightarrow> nat \<Rightarrow> target_info \<Rightarrow> u8 \<Rightarrow> battle_ground \<Rightarrow> battle_ground option" where
  "combat env duel_of c target dis g =
     (let a = ti_attack target; b = ti_bo target;
          g1 = put_pack [acx a, acy a] (insert_fighter_info env False c g)
      in do { r \<leftarrow> fight_between duel_of g1 c b;
              let (hp, win, rep, t) = r;
                  timeCost = 1 + half_up (unat dis) + hundredths_up (unat t) + 3;
                  g2 = put_pack [of_nat timeCost, 1] (g1\<lparr>heap := hp\<rparr>);
                  g3 = put_pack (win # word_bytes 4 rep) (insert_fighter_info env False b g2)
              in Some (spend_time timeCost (count_win win c b g3)) })"

definition arena_walk :: "game_env \<Rightarrow> battle_ground \<Rightarrow> nat \<Rightarrow> battle_ground option" where
  "arena_walk env g c =
     (let p = my_pos g c
      in do { r \<leftarrow> get_move_position g c (Ascoord 255 255);
              let move = fst r; h = snd r
              in if acx move = 255 \<and> acy move = 255 then Some (report_move env c p 0 (set_ground_pos h c p))
                 else do { h1 \<leftarrow> leave_and_enter h c p move;
                           let dis = get_distance p move
                           in Some (spend_time (half_up (unat dis))
                                (report_move env c move dis (set_ground_pos h1 c move))) } })"

definition arena_attack ::
  "game_env \<Rightarrow> duel_fun \<Rightarrow> battle_ground \<Rightarrow> nat \<Rightarrow> target_info \<Rightarrow> battle_ground option" where
  "arena_attack env duel_of g c target =
     (let p = my_pos g c; a = ti_attack target
      in do { h1 \<leftarrow> (if a \<noteq> p then leave_and_enter g c p a else Some g);
              combat env duel_of c target (if a \<noteq> p then get_distance p a else 1) (set_ground_pos h1 c a) })"

text \<open>\<^verbatim>\<open>std::sort\<close> with the comparator \<open>lt\<close>.\<close>

definition strict_weak_on :: "('a \<Rightarrow> 'a \<Rightarrow> bool) \<Rightarrow> 'a list \<Rightarrow> bool" where
  "strict_weak_on lt xs \<longleftrightarrow>
     list_all (\<lambda>x. \<not> lt x x) xs \<and>
     list_all (\<lambda>x. list_all (\<lambda>y. list_all (\<lambda>z.
       (lt x y \<and> lt y z \<longrightarrow> lt x z) \<and>
       (\<not> lt x y \<and> \<not> lt y x \<and> \<not> lt y z \<and> \<not> lt z y \<longrightarrow> \<not> lt x z \<and> \<not> lt z x)) xs) xs) xs"

definition std_sort :: "('a list \<Rightarrow> 'a list) \<Rightarrow> ('a \<Rightarrow> 'a \<Rightarrow> bool) \<Rightarrow> 'a list \<Rightarrow> 'a list option" where
  "std_sort sorter lt xs = (if strict_weak_on lt xs then Some (sorter xs) else None)"

definition arena_move ::
  "game_env \<Rightarrow> duel_fun \<Rightarrow> (target_info list \<Rightarrow> target_info list) \<Rightarrow> battle_ground \<Rightarrow> battle_ground option" where
  "arena_move env duel_of sorter g =
     (case current_bf g of
        None \<Rightarrow> Some g
      | Some c \<Rightarrow>
          do { h \<leftarrow> get_target env g c (bf_x (heap g c)) (bf_y (heap g c));
               k \<leftarrow> (if vec_target h = [] then arena_walk env h c
                    else do { ts \<leftarrow> std_sort sorter more_fit (vec_target h);
                              case ts of [] \<Rightarrow> None | t # _ \<Rightarrow> arena_attack env duel_of h c t });
               Some (k\<lparr>vec_target := []\<rparr>) })"

section \<open>The rounds\<close>

text \<open>One round of \<^verbatim>\<open>start\<close>: the fighters of the list that are alive when their turn comes act one
  after the other; \<open>n\<close> counts the acts.\<close>

fun act_all ::
  "game_env \<Rightarrow> duel_fun \<Rightarrow> (target_info list \<Rightarrow> target_info list) \<Rightarrow> nat list \<Rightarrow> battle_ground \<Rightarrow> u16 \<Rightarrow>
   (battle_ground \<times> u16) option" where
  "act_all env duel_of sorter [] g n = Some (g, n)"
| "act_all env duel_of sorter (b # bs) g n =
     (if bf_hp (heap g b) \<le> 0 then act_all env duel_of sorter bs g n
      else do { h \<leftarrow> arena_move env duel_of sorter (g\<lparr>current_bf := Some b\<rparr>);
                act_all env duel_of sorter bs h (n + 1) })"

partial_function (option) arena_rounds ::
  "game_env \<Rightarrow> duel_fun \<Rightarrow> (target_info list \<Rightarrow> target_info list) \<Rightarrow> battle_ground \<Rightarrow> u16 \<Rightarrow>
   (battle_ground \<times> u16) option" where
  "arena_rounds env duel_of sorter g n =
     (if round_id g > 100 then Some (g, n)
      else if check_is_stop g then Some (g, n)
      else do { r \<leftarrow> act_all env duel_of sorter (list_fighters g) g n;
                arena_rounds env duel_of sorter ((fst r)\<lparr>round_id := round_id (fst r) + 1\<rparr>) (snd r) })"

text \<open>\<^verbatim>\<open>start\<close>.  \<^verbatim>\<open>GetCaptureId\<close> is called a second time, for the console.\<close>

definition start_arena ::
  "game_env \<Rightarrow> duel_fun \<Rightarrow> (target_info list \<Rightarrow> target_info list) \<Rightarrow> battle_ground \<Rightarrow> battle_ground option" where
  "start_arena env duel_of sorter g =
     do { g1 \<leftarrow> pre_start env (g\<lparr>round_id := 0\<rparr>);
          let (offset, g2) = open_report env g1
          in do { r \<leftarrow> arena_rounds env duel_of sorter (get_all_battle_fighter (put_pack [0, 0] g2)) 0;
                  let g3 = close_report env offset (snd r) (fst r);
                      g4 = note_calls [AddReport (battle_num g3) (st_buf (pack g3))] g3
                  in Some (snd (get_capture_id env (set_capture_force env g4))) } }"

section \<open>Who is alive\<close>

definition alive :: "battle_ground \<Rightarrow> u8 \<Rightarrow> bool" where
  "alive g camp \<longleftrightarrow> (\<exists>b \<in> set (camp_list g camp). bf_hp (heap g b) > 0)"

lemma all_die_iff: "some_camp_is_all_die g camp \<longleftrightarrow> \<not> alive g camp"
  by (auto simp: some_camp_is_all_die_def alive_def list_all_iff)

lemma count_foldl:
  "foldl (\<lambda>n e. if P e then n + 1 else n) (m :: u8) xs = m + of_nat (length (filter P xs))"
  by (induction xs arbitrary: m) (auto simp: algebra_simps)

lemma uint_of_nat_u8: "n < 256 \<Longrightarrow> uint (of_nat n :: u8) = int n"
  by (simp add: unsigned_of_nat take_bit_nat_eq_self flip: take_bit_nat_eq_self_iff)

lemma check_is_stop_alive:
  assumes "length (camp2fighters g) \<le> 255"
  shows "check_is_stop g \<longleftrightarrow> length (filter (\<lambda>e. alive g (fst e)) (camp2fighters g)) \<le> 1 \<or> length (camp2fighters g) \<le> 1"
proof -
  let ?m = "camp2fighters g"
  let ?d = "length (filter (\<lambda>e. \<not> alive g (fst e)) ?m)" and ?a = "length (filter (\<lambda>e. alive g (fst e)) ?m)"
  have s: "?a + ?d = length ?m" by (rule sum_length_filter_compl)
  then have "uint (of_nat ?d :: u8) = int ?d" "uint (of_nat (length ?m) :: u8) = int (length ?m)"
    using assms by (simp_all only: uint_of_nat_u8)
  then show ?thesis
    using s unfolding check_is_stop_def Let_def count_foldl all_die_iff by auto
qed

lemma by_act_id_perm: "mset (by_act_id g fs) = mset fs"
  by (simp add: by_act_id_def)

section \<open>Every fighter stands where he says\<close>

definition placed :: "battle_ground \<Rightarrow> bool" where
  "placed g \<longleftrightarrow> wf_ground g \<and> (\<forall>p b. in_bounds g p \<longrightarrow> fighter_at g p = Some (Some b) \<longrightarrow> my_pos g b = p)"

lemma placed_field: "same_field g h \<Longrightarrow> placed h = placed g"
  by (simp add: placed_def board_reads list_reads)

lemma leave_and_enter_Some:
  assumes "wf_ground g" "in_bounds g p" "in_bounds g q"
  shows "leave_and_enter g c p q =
    Some (g\<lparr>map_fighters := (map_fighters g)[cell_index g p := None, cell_index g q := Some c]\<rparr>)"
  using cell_index_less(3) [OF assms(1,2)] cell_index_less(3) [OF assms(1,3)]
  by (simp add: leave_and_enter_def)

lemma moved_board:
  assumes "wf_ground g" "in_bounds g p" "in_bounds g q" "leave_and_enter g c p q = Some h"
  shows "wf_ground (set_ground_pos h c q) \<and> in_bounds (set_ground_pos h c q) = in_bounds g \<and>
    map_ground (set_ground_pos h c q) = map_ground g \<and> cell_index (set_ground_pos h c q) = cell_index g \<and>
    (\<forall>r. in_bounds g r \<longrightarrow> fighter_at (set_ground_pos h c q) r =
       (if r = q then Some (Some c) else if r = p then Some None else fighter_at g r)) \<and>
    (\<forall>b. my_pos (set_ground_pos h c q) b = (if b = c then q else my_pos g b)) \<and>
    (\<forall>b. bf_hp (heap (set_ground_pos h c q) b) = bf_hp (heap g b))"
proof -
  define fs where "fs = (map_fighters g)[cell_index g p := None, cell_index g q := Some c]"
  have h: "h = g\<lparr>map_fighters := fs\<rparr>"
    using leave_and_enter_Some [OF assms(1-3)] assms(4) by (simp add: fs_def)
  have wf: "length fs = length (map_fighters g)" by (simp add: fs_def)
  have "nth_opt fs (cell_index g r) = (if r = q then Some (Some c) else if r = p then Some None else fighter_at g r)"
    if r: "in_bounds g r" for r
  proof -
    have "cell_index g r < length (map_fighters g)" by (rule cell_index_less(3) [OF assms(1) r])
    moreover have "cell_index g q = cell_index g r \<longleftrightarrow> r = q" using cell_index_inj [OF r assms(3)] by metis
    moreover have "cell_index g p = cell_index g r \<longleftrightarrow> r = p" using cell_index_inj [OF r assms(2)] by metis
    ultimately show ?thesis unfolding fs_def nth_opt_update fighter_at_def length_list_update by simp
  qed
  moreover have ci: "cell_index (set_ground_pos h c q) = cell_index g"
    by (simp add: h set_ground_pos_def cell_index_def fun_eq_iff)
  moreover have "map_fighters (set_ground_pos h c q) = fs" by (simp add: h set_ground_pos_def)
  moreover have "in_bounds (set_ground_pos h c q) = in_bounds g"
    by (simp add: h set_ground_pos_def in_bounds_def fun_eq_iff)
  moreover have "my_pos (set_ground_pos h c q) b = (if b = c then q else my_pos g b)" for b
    by (simp add: h set_ground_pos_def my_pos_def)
  moreover have "wf_ground (set_ground_pos h c q)" using assms(1) wf by (simp add: h set_ground_pos_def wf_ground_def)
  moreover have "map_ground (set_ground_pos h c q) = map_ground g" by (simp add: h set_ground_pos_def)
  moreover have "bf_hp (heap (set_ground_pos h c q) b) = bf_hp (heap g b)" for b by (simp add: h set_ground_pos_def)
  ultimately show ?thesis by (simp add: fighter_at_def)
qed

lemma placed_move:
  assumes "placed g" "my_pos g c = p" "in_bounds g p" "in_bounds g q" "leave_and_enter g c p q = Some h"
  shows "placed (set_ground_pos h c q)"
  unfolding placed_def
proof (intro conjI allI impI)
  have wf: "wf_ground g" using assms(1) by (simp add: placed_def)
  note m = moved_board [OF wf assms(3-5)]
  show "wf_ground (set_ground_pos h c q)" using m by simp
  fix r b assume r: "in_bounds (set_ground_pos h c q) r" and b: "fighter_at (set_ground_pos h c q) r = Some (Some b)"
  have r': "in_bounds g r" using r m by simp
  show "my_pos (set_ground_pos h c q) b = r"
  proof (cases "r = q")
    case True
    then show ?thesis using m b r' by simp
  next
    case False
    then have "fighter_at g r = Some (Some b)" "r \<noteq> p" using m b r' by (auto split: if_splits)
    then show ?thesis using m assms(1,2) r' by (auto simp: placed_def)
  qed
qed

text \<open>The single combat changes neither the place nor the side of a fighter.\<close>

definition keeps_places :: "duel_fun \<Rightarrow> bool" where
  "keeps_places duel_of \<longleftrightarrow>
     (\<forall>hp c b d f1 f2 k. bf_x (fst (duel_of hp c b d f1 f2) k) = bf_x (hp k) \<and>
        bf_y (fst (duel_of hp c b d f1 f2) k) = bf_y (hp k))"

text \<open>States that show the same board.\<close>

definition board_same :: "battle_ground \<Rightarrow> battle_ground \<Rightarrow> bool" where
  "board_same g h \<longleftrightarrow>
     map_ground h = map_ground g \<and> map_camp h = map_camp g \<and> map_fighters h = map_fighters g \<and>
     g_x h = g_x g \<and> g_y h = g_y g \<and> my_pos h = my_pos g"

named_theorems board

lemma board_same_refl [board]: "board_same g g"
  by (simp add: board_same_def)

lemma board_same_trans [trans]: "board_same g h \<Longrightarrow> board_same h k \<Longrightarrow> board_same g k"
  by (simp add: board_same_def)

lemma board_same_reads:
  assumes "board_same g h"
  shows "wf_ground h = wf_ground g" "in_bounds h = in_bounds g" "fighter_at h = fighter_at g" "my_pos h = my_pos g"
    "ground_at h = ground_at g" "cell_index h = cell_index g"
  using assms
  by (simp_all add: board_same_def wf_ground_def in_bounds_def fighter_at_def cell_index_def ground_at_def fun_eq_iff)

lemma placed_same: "board_same g h \<Longrightarrow> placed h = placed g"
  by (simp add: placed_def board_same_reads)

lemma board_same_heap [board]:
  "(\<And>k. bf_x (hp k) = bf_x (heap g k) \<and> bf_y (hp k) = bf_y (heap g k)) \<Longrightarrow> board_same g (g\<lparr>heap := hp\<rparr>)"
  by (simp add: board_same_def my_pos_def fun_eq_iff)

lemma board_same_pack [board]: "board_same g (put_pack bs g)" "board_same g (set_pack off bs g)"
  "board_same g (insert_fighter_info env w b g)" "board_same g (spend_time n g)" "board_same g (note_calls cs g)"
  "board_same g (g\<lparr>vec_target := ts\<rparr>)" "board_same g (g\<lparr>current_bf := cb\<rparr>)" "board_same g (g\<lparr>round_id := rr\<rparr>)"
  by (simp_all add: board_same_def put_pack_def set_pack_def insert_fighter_info_def spend_time_def note_calls_def
      my_pos_def fun_eq_iff)

lemma board_same_count_win [board]: "board_same g (count_win w c b g)"
  by (auto simp: count_win_def Let_def intro: board)

lemma board_same_report [board]: "board_same g (report_move env c q dis g)"
  unfolding report_move_def by (rule board_same_trans [OF board_same_pack(3) board_same_pack(1)])

lemma placed_time: "placed (g\<lparr>vec_target := ts\<rparr>) = placed g"
  "placed (g\<lparr>current_bf := cb\<rparr>) = placed g" "placed (g\<lparr>round_id := rr\<rparr>) = placed g"
  by (rule placed_same [OF board_same_pack(6)], rule placed_same [OF board_same_pack(7)],
      rule placed_same [OF board_same_pack(8)])

lemma set_ground_pos_same: "p = my_pos g c \<Longrightarrow> set_ground_pos g c p = g"
  by (simp add: set_ground_pos_def my_pos_def fun_upd_idem)

lemma fight_keeps:
  assumes "keeps_places duel_of" "fight_between duel_of g c b = Some (hp, w, r, t)"
  shows "bf_x (hp k) = bf_x (heap g k) \<and> bf_y (hp k) = bf_y (heap g k)"
proof -
  have "hp = heap g \<or> (\<exists>d f1 f2. duel_of (heap g) c b d f1 f2 = (hp, w, r, t))"
    using assms(2) by (auto simp: fight_between_def Let_def bind_eq_Some_conv split: if_splits)
  then show ?thesis using assms(1) unfolding keeps_places_def by (metis fst_conv)
qed

lemma combat_board:
  assumes "keeps_places duel_of" "combat env duel_of c t dis g = Some k"
  shows "board_same g k"
proof -
  let ?g1 = "put_pack [acx (ti_attack t), acy (ti_attack t)] (insert_fighter_info env False c g)"
  obtain hp w r tm where f: "fight_between duel_of ?g1 c (ti_bo t) = Some (hp, w, r, tm)"
    using assms(2) by (auto simp: combat_def Let_def bind_eq_Some_conv)
  let ?n = "1 + half_up (unat dis) + hundredths_up (unat tm) + 3"
  let ?g2 = "put_pack [of_nat ?n, 1] (?g1\<lparr>heap := hp\<rparr>)"
  have k: "k = spend_time ?n (count_win w c (ti_bo t)
      (put_pack (w # word_bytes 4 r) (insert_fighter_info env False (ti_bo t) ?g2)))"
    using assms(2) f by (simp add: combat_def Let_def)
  have "board_same g ?g1" by (rule board_same_trans [OF board_same_pack(3) board_same_pack(1)])
  also have "board_same ?g1 (?g1\<lparr>heap := hp\<rparr>)" by (rule board_same_heap) (rule fight_keeps [OF assms(1) f])
  also have "board_same (?g1\<lparr>heap := hp\<rparr>) ?g2" by (rule board)
  also have "board_same ?g2 (insert_fighter_info env False (ti_bo t) ?g2)" by (rule board)
  also have "board_same (insert_fighter_info env False (ti_bo t) ?g2)
      (put_pack (w # word_bytes 4 r) (insert_fighter_info env False (ti_bo t) ?g2))" by (rule board)
  also have "board_same (put_pack (w # word_bytes 4 r) (insert_fighter_info env False (ti_bo t) ?g2)) k"
    unfolding k by (rule board_same_trans [OF board_same_count_win board_same_pack(4)])
  finally show ?thesis .
qed

lemma arena_attack_placed:
  assumes "placed g" "in_bounds g (my_pos g c)" "in_bounds g (ti_attack t)" "keeps_places duel_of"
    "arena_attack env duel_of g c t = Some k"
  shows "placed k"
proof -
  let ?p = "my_pos g c" and ?a = "ti_attack t"
  obtain h1 dis where h1: "(if ?a \<noteq> ?p then leave_and_enter g c ?p ?a else Some g) = Some h1"
    "combat env duel_of c t dis (set_ground_pos h1 c ?a) = Some k"
    using assms(5) by (auto simp: arena_attack_def Let_def bind_eq_Some_conv)
  have "placed (set_ground_pos h1 c ?a)"
  proof (cases "?a = ?p")
    case True
    then show ?thesis using h1(1) assms(1) set_ground_pos_same [of ?a g c] by simp
  next
    case False
    then show ?thesis using placed_move [OF assms(1) refl assms(2,3)] h1(1) by simp
  qed
  then show ?thesis using placed_same [OF combat_board [OF assms(4) h1(2)]] by simp
qed

lemma get_move_position_bounds:
  assumes "may_act env g c" "get_move_position g c mv = Some (m, h)"
  shows "same_field g h \<and> (m = mv \<or> in_bounds g m)"
proof -
  have w: "wf_ground g" "in_bounds g (my_pos g c)" using assms(1) by (simp_all add: may_act_def)
  obtain es where es: "move_get_enemy g c = Some es" using assms(2) by (auto simp: get_move_position_def bind_eq_Some_conv)
  show ?thesis
  proof (cases es)
    case Nil
    then show ?thesis using assms(2) es by (simp add: get_move_position_def)
  next
    case (Cons e rest)
    have y: "uint (bf_y (heap g c)) < uint (g_y g)" using w(2) by (simp add: in_bounds_uint my_pos_def)
    have rows: "q \<in> set (enemy_rows g (bf_y (heap g c))) \<Longrightarrow> in_bounds g q" for q
      using in_bounds_word [of _ g "uint (bf_y (heap g c))"] y by (auto simp: enemy_rows_def intro!: in_bounds_word)
    have "\<not> g_y g < bf_y (heap g c)" using y by (simp add: word_less_def)
    then have "filter_opt (neighbour_keep g c) (enemy_rows g (bf_y (heap g c))) = Some es"
      using es by (simp add: move_get_enemy_def Let_def)
    from filter_opt_subset [OF this] rows have eb: "in_bounds g e" using Cons by auto
    have sp: "start_at (set_start g (my_pos g c)) = my_pos g c" by (simp add: set_start_def)
    obtain path h' where r: "find_path (set_start g (my_pos g c)) c e = Some (path, h')" "same_field g h'"
      "start_at h' = my_pos g c" "path_to g c (my_pos g c) e path"
      using find_path_total [OF w(1) same_field_set_start [OF same_field_refl], of "my_pos g c" c e] w(2)
      unfolding sp by blast
    have h: "h = h'" and m: "move_analyse h' c path e mv = Some m"
      using assms(2) es Cons r(1) by (auto simp: get_move_position_def bind_eq_Some_conv)
    have wb: "wf_ground h'" "\<forall>q \<in> set path. in_bounds h' q" "in_bounds h' = in_bounds g"
      using r(2,4) w(1) by (auto simp: board_reads path_to_def)
    have "m = mv \<or> in_bounds g m"
    proof (cases "length path = 2")
      case False
      then show ?thesis
        using deliversD [OF move_analyse_delivers [where d = False, OF wb(1,2) False] m] wb(2,3) by auto
    next
      case True
      then obtain t :: u8 where "get_move_pos h' (upto_flag (Ascoord 0 0) (rev path)) (if t = 0 then start_at h' else e) = Some m"
        using m by (auto simp: move_analyse_def Let_def bind_eq_Some_conv)
      moreover have "\<forall>q \<in> set (upto_flag (Ascoord 0 0) (rev path)). in_bounds h' q"
        using upto_flag_subset [of "Ascoord 0 0" "rev path"] wb(2) by auto
      ultimately have "m = (if t = 0 then start_at h' else e) \<or> in_bounds h' m"
        using get_move_pos_total [OF wb(1), of "upto_flag (Ascoord 0 0) (rev path)" "if t = 0 then start_at h' else e"] by auto
      then show ?thesis using eb w(2) r(3) wb(3) by (auto split: if_splits)
    qed
    then show ?thesis using r(2) h by simp
  qed
qed

lemma arena_walk_placed:
  assumes "placed g" "may_act env g c" "arena_walk env g c = Some k"
  shows "placed k"
proof -
  let ?p = "my_pos g c"
  have pb: "in_bounds g ?p" using assms(2) by (simp add: may_act_def)
  obtain m h where r: "get_move_position g c (Ascoord 255 255) = Some (m, h)"
    using assms(3) by (auto simp: arena_walk_def Let_def bind_eq_Some_conv)
  have sf: "same_field g h" and mb: "m = Ascoord 255 255 \<or> in_bounds g m"
    using get_move_position_bounds [OF assms(2) r] by auto
  have ph: "placed h" using assms(1) placed_field [OF sf] by simp
  have mp: "my_pos h c = ?p" using list_reads(4) [OF sf] by simp
  show ?thesis
  proof (cases "acx m = 255 \<and> acy m = 255")
    case True
    then have "k = report_move env c ?p 0 h" using assms(3) r set_ground_pos_same [of ?p h c] mp
      by (simp add: arena_walk_def Let_def)
    then show ?thesis using ph placed_same [OF board_same_report] by simp
  next
    case False
    then obtain h1 where h1: "leave_and_enter h c ?p m = Some h1"
      "k = spend_time (half_up (unat (get_distance ?p m))) (report_move env c m (get_distance ?p m) (set_ground_pos h1 c m))"
      using assms(3) r by (auto simp: arena_walk_def Let_def bind_eq_Some_conv)
    have "in_bounds h m" using mb False by (auto simp: board_reads [OF sf])
    moreover have "in_bounds h ?p" using pb by (simp add: board_reads [OF sf])
    ultimately have "placed (set_ground_pos h1 c m)" using placed_move [OF ph mp _ _ h1(1)] by simp
    then show ?thesis unfolding h1(2)
      by (simp add: placed_same [OF board_same_pack(4)] placed_same [OF board_same_report])
  qed
qed

text \<open>What \<^verbatim>\<open>std::sort\<close> promises: where the comparator is a strict weak order, it rearranges the list.\<close>

definition rearranges :: "(target_info list \<Rightarrow> target_info list) \<Rightarrow> bool" where
  "rearranges sorter \<longleftrightarrow> (\<forall>ts. strict_weak_on more_fit ts \<longrightarrow> mset (sorter ts) = mset ts)"

lemma std_sort_mem:
  assumes "rearranges sorter" "std_sort sorter more_fit xs = Some (t # ts)"
  shows "t \<in> set xs"
proof -
  have "mset (t # ts) = mset xs" using assms by (auto simp: rearranges_def std_sort_def split: if_splits)
  then show ?thesis by (metis list.set_intros(1) set_mset_mset)
qed

text \<open>Two targets, one of higher priority and one of lower cost, are enough for the sort to be undefined.\<close>

theorem sort_undefined:
  assumes "a \<in> set ts" "b \<in> set ts" "ti_pri a > ti_pri b" "ti_cost b < ti_cost a"
  shows "std_sort sorter more_fit ts = None"
proof -
  have "more_fit a b" "more_fit b a" using assms(3,4) by (auto simp: more_fit_def)
  then have "\<not> strict_weak_on more_fit ts" using assms(1,2) by (auto simp: strict_weak_on_def list_all_iff)
  then show ?thesis by (simp add: std_sort_def)
qed

lemma arena_move_placed:
  assumes "placed g" "\<forall>c. current_bf g = Some c \<longrightarrow> may_act env g c" "vec_target g = []"
    "keeps_places duel_of" "rearranges sorter" "arena_move env duel_of sorter g = Some k"
  shows "placed k \<and> vec_target k = []"
proof (cases "current_bf g")
  case None
  then show ?thesis using assms(1,3,6) by (simp add: arena_move_def)
next
  case (Some c)
  have ma: "may_act env g c" using assms(2) Some by simp
  obtain h where h: "get_target env g c (bf_x (heap g c)) (bf_y (heap g c)) = Some h" "judged g c (my_pos g c) h"
    using assms(6) Some get_target_delivers [OF ma, of "bf_x (heap g c)" "bf_y (heap g c)"]
    by (auto simp: arena_move_def my_pos_def bind_eq_Some_conv)
  have sf: "same_field g h" using h(2) by (rule judged_field)
  have good: "\<And>ti. ti \<in> set (vec_target h) \<Longrightarrow> good_target g c (my_pos g c) ti"
    using h(2) assms(3) by (auto simp: judged_def)
  have ph: "placed h" using assms(1) placed_field [OF sf] by simp
  have mp: "my_pos h c = my_pos g c" using list_reads(4) [OF sf] by simp
  have mah: "may_act env h c" using ma by (simp add: may_act_def board_reads [OF sf] field_reads [OF sf] mp)
  show ?thesis
  proof (cases "vec_target h = []")
    case True
    then obtain k' where "arena_walk env h c = Some k'" "k = k'\<lparr>vec_target := []\<rparr>"
      using assms(6) Some h(1) by (auto simp: arena_move_def bind_eq_Some_conv)
    then show ?thesis using arena_walk_placed [OF ph mah] by (simp add: placed_time)
  next
    case False
    then obtain xs k' where xs: "std_sort sorter more_fit (vec_target h) = Some xs"
      "(case xs of [] \<Rightarrow> None | t # _ \<Rightarrow> arena_attack env duel_of h c t) = Some k'" "k = k'\<lparr>vec_target := []\<rparr>"
      using assms(6) Some h(1) by (auto simp: arena_move_def bind_eq_Some_conv)
    then obtain t ts where t: "std_sort sorter more_fit (vec_target h) = Some (t # ts)" "arena_attack env duel_of h c t = Some k'"
      "k = k'\<lparr>vec_target := []\<rparr>"
      by (cases xs) auto
    have "t \<in> set (vec_target h)" by (rule std_sort_mem [OF assms(5) t(1)])
    then have gt: "good_target g c (my_pos g c) t" by (rule good)
    have pb: "in_bounds h (my_pos h c)" using mah by (simp add: may_act_def)
    have "in_bounds h (ti_attack t)" using gt pb mp by (auto simp: good_target_def board_reads [OF sf])
    then show ?thesis using arena_attack_placed [OF ph pb _ assms(4) t(2)] t(3) by (simp add: placed_time)
  qed
qed

section \<open>The battle as a transition system\<close>

inductive battle_step ::
  "game_env \<Rightarrow> duel_fun \<Rightarrow> (target_info list \<Rightarrow> target_info list) \<Rightarrow> battle_ground \<Rightarrow> battle_ground \<Rightarrow> bool"
  for env duel_of sorter where
  turn: "b \<in> set (list_fighters g) \<Longrightarrow> bf_hp (heap g b) > 0 \<Longrightarrow> may_act env g b \<Longrightarrow>
     arena_move env duel_of sorter (g\<lparr>current_bf := Some b\<rparr>) = Some h \<Longrightarrow> battle_step env duel_of sorter g h"
| next_round: "\<not> check_is_stop g \<Longrightarrow> battle_step env duel_of sorter g (g\<lparr>round_id := round_id g + 1\<rparr>)"

inductive_cases battle_stepE: "battle_step env duel_of sorter g h"

lemma battle_step_placed:
  assumes "keeps_places duel_of" "rearranges sorter" "battle_step env duel_of sorter g h"
    "placed g" "vec_target g = []"
  shows "placed h \<and> vec_target h = []"
proof (rule battle_stepE [OF assms(3)])
  fix b assume 1: "b \<in> set (list_fighters g)" "bf_hp (heap g b) > 0" "may_act env g b"
    "arena_move env duel_of sorter (g\<lparr>current_bf := Some b\<rparr>) = Some h"
  have "placed (g\<lparr>current_bf := Some b\<rparr>)" using assms(4) by (simp add: placed_time)
  moreover have "may_act env (g\<lparr>current_bf := Some b\<rparr>) b"
    using 1(3) by (simp add: may_act_def wf_ground_def in_bounds_def my_pos_def)
  ultimately show ?thesis
    using arena_move_placed [OF _ _ _ assms(1,2) 1(4)] assms(5) by simp
next
  assume "h = g\<lparr>round_id := round_id g + 1\<rparr>"
  then show ?thesis using assms(4,5) by (simp add: placed_time)
qed

lemma battle_reach_placed:
  assumes "(battle_step env duel_of sorter)\<^sup>*\<^sup>* g h" "keeps_places duel_of" "rearranges sorter"
    "placed g" "vec_target g = []"
  shows "placed h \<and> vec_target h = []"
  using assms(1)
proof (induction rule: rtranclp_induct)
  case base
  show ?case using assms(4,5) by simp
next
  case (step y z)
  then show ?case using battle_step_placed [OF assms(2,3) step.hyps(2)] by simp
qed

section \<open>Properties\<close>

text \<open>C12: started with every fighter on the board standing on exactly the cell his own coordinates name
  (\<open>placed\<close>) and with no targets left over, a battle stays so: in every state that turns and new rounds
  reach, each fighter on the board is recorded on the cell of his own coordinates, so none stands on two cells.
  A turn is one of a living fighter of the list whose coordinates lie on the board, and it has a defined result.
  The single combat is assumed not to move anyone, and \<^verbatim>\<open>std::sort\<close> to rearrange a list on which its
  comparator is a strict weak order; on any other the turn has no result.\<close>

theorem battle_keeps_places:
  assumes "(battle_step env duel_of sorter)\<^sup>*\<^sup>* g h" "keeps_places duel_of" "rearranges sorter"
    "placed g" "vec_target g = []" "in_bounds h p" "fighter_at h p = Some (Some b)"
  shows "my_pos h b = p"
  using battle_reach_placed [OF assms(1-5)] assms(6,7) by (simp add: placed_def)

lemma duel_cells: "in_bounds duel p \<Longrightarrow> fighter_at duel p = Some (Some b) \<Longrightarrow> my_pos duel b = p"
proof -
  assume p: "in_bounds duel p" and b: "fighter_at duel p = Some (Some b)"
  have "cell_index duel p < 6" using cell_index_less(1) [OF duel_wf p] by simp
  then have "cell_index duel p \<in> {0, 1, 2, 3, 4, 5}" by auto
  then have "cell_index duel p = 0 \<and> b = 0 \<or> cell_index duel p = 1 \<and> b = 1"
    using b by (auto simp: fighter_at_def)
  moreover have "cell_index duel (Ascoord 0 0) = 0" "cell_index duel (Ascoord 1 0) = 1" by (simp_all add: cell_index_def)
  moreover have "in_bounds duel (Ascoord 0 0)" "in_bounds duel (Ascoord 1 0)" by simp_all
  ultimately have "p = Ascoord 0 0 \<and> b = 0 \<or> p = Ascoord 1 0 \<and> b = 1"
    using cell_index_inj [OF p] by metis
  then show ?thesis by (auto simp: my_pos_def soldier_def)
qed

text \<open>Two fighters in opposite corners; the one whose turn it is reaches one cell far.\<close>

definition apart :: battle_ground where
  "apart = (board_of 3 2 [1,1,1,1,1,1] [Some 0, None, None, None, None, Some 1]
     ((\<lambda>_. (soldier 1 0 0)\<lparr>bf_range := 1\<rparr>)(1 := soldier 2 2 1)))\<lparr>list_fighters := [0, 1]\<rparr>"

lemma apart_simps:
  "g_x apart = 3" "g_y apart = 2" "map_fighters apart = [Some 0, None, None, None, None, Some 1]"
  "heap apart = (\<lambda>_. (soldier 1 0 0)\<lparr>bf_range := 1\<rparr>)(1 := soldier 2 2 1)" "vec_target apart = []"
  "map_ground apart = [1,1,1,1,1,1]" "map_camp apart = [0,0,0,0,0,0]" "list_fighters apart = [0, 1]"
  by (simp_all add: apart_def board_of_def new_ground_def)

definition still :: duel_fun where
  "still hp c b d f1 f2 = (hp, 0, 0, 0)"

declare route_loop.simps [code] parent_chain.simps [code]

lemma apart_turn:
  "case arena_move plain_env still (\<lambda>ts. ts) (apart\<lparr>current_bf := Some 0\<rparr>) of
     None \<Rightarrow> False
   | Some h \<Rightarrow> map_fighters h = [None, None, Some 0, None, None, Some 1] \<and> g_x h = 3 \<and> g_y h = 2"
  by code_simp

lemma apart_placed: "placed apart"
proof -
  have wf: "wf_ground apart" by (simp add: wf_ground_def apart_simps)
  have "my_pos apart b = p" if p: "in_bounds apart p" and b: "fighter_at apart p = Some (Some b)" for p b
  proof -
    have "cell_index apart p < 6" using cell_index_less(1) [OF wf p] by (simp add: apart_simps)
    then have "cell_index apart p \<in> {0, 1, 2, 3, 4, 5}" by auto
    then have "cell_index apart p = 0 \<and> b = 0 \<or> cell_index apart p = 5 \<and> b = 1"
      using b by (auto simp: fighter_at_def apart_simps)
    moreover have "cell_index apart (Ascoord 0 0) = 0" "cell_index apart (Ascoord 2 1) = 5"
      "in_bounds apart (Ascoord 0 0)" "in_bounds apart (Ascoord 2 1)"
      by (simp_all add: cell_index_def in_bounds_def apart_simps)
    ultimately have "p = Ascoord 0 0 \<and> b = 0 \<or> p = Ascoord 2 1 \<and> b = 1"
      using cell_index_inj [OF p] by metis
    then show ?thesis by (auto simp: my_pos_def soldier_def apart_simps)
  qed
  then show ?thesis using wf by (simp add: placed_def)
qed

theorem battle_keeps_places_witness:
  "\<exists>h. battle_step plain_env still (\<lambda>ts. ts) apart h \<and> fighter_at h (Ascoord 2 0) = Some (Some 0) \<and>
     my_pos h 0 = Ascoord 2 0"
proof -
  obtain h where h: "arena_move plain_env still (\<lambda>ts. ts) (apart\<lparr>current_bf := Some 0\<rparr>) = Some h"
    "map_fighters h = [None, None, Some 0, None, None, Some 1]" "g_x h = 3" "g_y h = 2"
    using apart_turn by (auto split: option.splits)
  have t: "may_act plain_env apart 0" "bf_hp (heap apart 0) > 0" "0 \<in> set (list_fighters apart)"
    by (simp_all add: may_act_def wf_ground_def in_bounds_def my_pos_def plain_env_def soldier_def apart_simps)
  have s: "battle_step plain_env still (\<lambda>ts. ts) apart h" by (rule turn [OF t(3,2,1) h(1)])
  have c: "in_bounds h (Ascoord 2 0)" "fighter_at h (Ascoord 2 0) = Some (Some 0)"
    using h(2-4) by (simp_all add: in_bounds_def fighter_at_def cell_index_def)
  have "my_pos h 0 = Ascoord 2 0"
    by (rule battle_keeps_places [OF r_into_rtranclp [of "battle_step plain_env still (\<lambda>ts. ts)", OF s] _ _ apart_placed _ c])
      (simp_all add: keeps_places_def rearranges_def still_def apart_simps)
  then show ?thesis using s c(2) by blast
qed

text \<open>With at most 255 camps \<^verbatim>\<open>CheckIsStop\<close> ends the battle exactly when at most one camp is left or
  at most one has a living fighter.\<close>

theorem check_is_stop_iff:
  assumes "length (camp2fighters g) \<le> 255"
  shows "check_is_stop g \<longleftrightarrow>
    length (filter (\<lambda>e. alive g (fst e)) (camp2fighters g)) \<le> 1 \<or> length (camp2fighters g) \<le> 1"
  by (rule check_is_stop_alive [OF assms])

theorem check_is_stop_witness:
  "check_is_stop duel \<longleftrightarrow>
    length (filter (\<lambda>e. alive duel (fst e)) (camp2fighters duel)) \<le> 1 \<or> length (camp2fighters duel) \<le> 1"
  by (rule check_is_stop_iff) (simp add: duel_def board_of_def new_ground_def)

text \<open>\<^verbatim>\<open>GetAllBattleFighter\<close> adds every fighter of every camp to the list exactly once more and
  leaves it ordered by the numbers they act in, equal numbers in their old order.\<close>

theorem get_all_battle_fighter_sorted:
  "let fs = list_fighters (get_all_battle_fighter g); old = list_fighters g @ concat (map snd (camp2fighters g)) in
     mset fs = mset old \<and> sorted (map (\<lambda>b. bf_index (heap g b)) fs) \<and>
     (\<forall>n. filter (\<lambda>b. bf_index (heap g b) = n) fs = filter (\<lambda>b. bf_index (heap g b) = n) old)"
  by (simp add: get_all_battle_fighter_def by_act_id_def Let_def stable_sort_key_def [symmetric]
      sort_key_stable)

text \<open>The force that captures the city is the only one, besides the neutral force, with a living fighter;
  when there is none or more than one, nobody captures it.\<close>

theorem get_capture_id_unique:
  assumes "omap_ok (camp2fighters g)"
  shows "fst (get_capture_id env g) = k \<and> k \<noteq> 0 \<longleftrightarrow>
    {c \<in> fst ` set (camp2fighters g). c \<noteq> 0 \<and> alive g c} = {k}"
proof -
  let ?xs = "get_alive_force g"
  have set: "set ?xs = {c \<in> fst ` set (camp2fighters g). c \<noteq> 0 \<and> alive g c}"
    by (auto simp: get_alive_force_def all_die_iff)
  have d: "distinct ?xs" using omap_ok_distinct [OF assms] by (simp add: get_alive_force_def)
  have nz: "0 \<notin> set ?xs" by (simp add: get_alive_force_def)
  show ?thesis
  proof (cases "length ?xs = 1")
    case True
    then obtain c where "?xs = [c]" by (auto simp: length_Suc_conv)
    then show ?thesis using nz unfolding set [symmetric] by (auto simp: get_capture_id_def Let_def)
  next
    case False
    then have "set ?xs \<noteq> {k}" using d by (metis card.empty card_insert_disjoint distinct_card empty_iff finite.emptyI One_nat_def)
    then show ?thesis using False unfolding set [symmetric] by (auto simp: get_capture_id_def Let_def)
  qed
qed

theorem get_capture_id_witness:
  "fst (get_capture_id plain_env (duel\<lparr>camp2fighters := [(1, [0])]\<rparr>)) = 1"
proof -
  have "{c \<in> fst ` set (camp2fighters (duel\<lparr>camp2fighters := [(1, [0])]\<rparr>)). c \<noteq> 0 \<and>
      alive (duel\<lparr>camp2fighters := [(1, [0])]\<rparr>) c} = {1}"
    by (auto simp: alive_def camp_list_def soldier_def)
  with get_capture_id_unique [of "duel\<lparr>camp2fighters := [(1, [0])]\<rparr>" plain_env 1] show ?thesis
    by (simp add: omap_ok_def)
qed

end
