(* ===== verification/ClanBattle.thy ===== *)
theory ClanBattle
  imports BattleRound
begin

text \<open>
  The clan battle, of which \<^verbatim>\<open>FightOneRound\<close> fights one round at a time: the turn of a fighter (\<^verbatim>\<open>Move\<close>), with
  the benches that fill up points of revival and the fallen who come back (\<^verbatim>\<open>Relive\<close>), and the messages to
  the players.  What it does to the distribution, the players and the tables is recorded in \<open>calls\<close>, in the
  order of the code; see \<open>outcall\<close>.  As before \<open>None\<close> is undefined behaviour.

  \<open>orderly\<close> extends \<open>placed\<close> to the benches; the turns keep it as long as nobody comes back (\<open>clan_step\<close>).
\<close>

section \<open>Leaving a cell\<close>

definition sync_hp :: "game_env \<Rightarrow> nat \<Rightarrow> ascoord \<Rightarrow> battle_ground \<Rightarrow> battle_ground" where
  "sync_hp env b q g =
     (let bf = heap g b; pid = player_id_of env (bf_owner bf)
      in note_calls
           [UpdateMainFighterHP (room_id g) (map_id g) pid (bf_id bf) (acx q) (acy q) (bf_hp bf),
            UpdateSoldiersHP (room_id g) (map_id g) pid (bf_id bf) (acx q) (acy q) (map (\<lambda>i. bf_soldiers bf (of_nat i)) [0 ..< 10])] g)"

text \<open>The first of the bench of a point of revival that has become empty takes the place.\<close>

definition pop_bench :: "u8 \<Rightarrow> u8 \<Rightarrow> battle_ground \<Rightarrow> battle_ground" where
  "pop_bench x y g =
     g\<lparr>list_bench := update_first (\<lambda>e. bi_x e = x \<and> bi_y e = y) bench_PopFrontFighter (list_bench g)\<rparr>"

definition refill :: "game_env \<Rightarrow> ascoord \<Rightarrow> battle_ground \<Rightarrow> battle_ground option" where
  "refill env p g =
     do { rel \<leftarrow> is_relive_point env g (acx p) (acy p);
          (case (if rel then Option.bind (get_bench_info g (acx p) (acy p)) bench_GetFrontFighter else None) of
             None \<Rightarrow> Some g
           | Some b \<Rightarrow> do { fs \<leftarrow> upd_opt (map_fighters g) (cell_index g p) (Some b);
                            Some ((pop_bench (acx p) (acy p) g)\<lparr>map_fighters := fs\<rparr>) }) }"

text \<open>A player's fighter and an NPC are reported to the distribution in different ways.\<close>

definition tell_move :: "game_env \<Rightarrow> nat \<Rightarrow> ascoord \<Rightarrow> ascoord \<Rightarrow> battle_ground \<Rightarrow> battle_ground option" where
  "tell_move env c p q g =
     (let bf = heap g c
      in case bf_owner bf of
           Some pl \<Rightarrow> Some (sync_hp env c q
             (note_calls [MoveFighter (map_id g) pl (bf_id bf) (acx p) (acy p) (acx q) (acy q)] g))
         | None \<Rightarrow> do { k \<leftarrow> camp_at g (cell_index g q);
             Some (if k \<noteq> 0
                   then sync_hp env c q (note_calls [MoveNpc (room_id g) (map_id g) (bf_id bf) (acx p) (acy p) (acx q) (acy q)] g)
                   else g) })"

definition clan_leave :: "game_env \<Rightarrow> nat \<Rightarrow> ascoord \<Rightarrow> ascoord \<Rightarrow> battle_ground \<Rightarrow> battle_ground option" where
  "clan_leave env c p q g =
     do { fs \<leftarrow> upd_opt (map_fighters g) (cell_index g p) None;
          g1 \<leftarrow> refill env p (g\<lparr>map_fighters := fs\<rparr>);
          fs1 \<leftarrow> upd_opt (map_fighters g1) (cell_index g1 q) (Some c);
          tell_move env c p q (g1\<lparr>map_fighters := fs1\<rparr>) }"

definition clan_walk :: "game_env \<Rightarrow> battle_ground \<Rightarrow> nat \<Rightarrow> battle_ground option" where
  "clan_walk env g c =
     (let p = my_pos g c
      in do { r \<leftarrow> get_move_position g c (Ascoord 255 255);
              let move = fst r; h = snd r
              in if acx move = 255 \<and> acy move = 255 then Some (report_move env c p 0 (set_ground_pos h c p))
                 else do { h1 \<leftarrow> clan_leave env c p move h;
                           let dis = get_distance p move
                           in Some (spend_time (half_up (unat dis))
                                (report_move env c move dis (set_ground_pos h1 c move))) } })"

section \<open>The fallen\<close>

text \<open>The second half of \<^verbatim>\<open>Relive\<close>: the first of the bench at \<open>a\<close> is put on the board there, the cell \<open>p\<close> is
  cleared, and the fighter joins his force again.\<close>

definition take_seat ::
  "ascoord \<Rightarrow> ascoord \<Rightarrow> u8 \<Rightarrow> battle_ground \<Rightarrow> (nat \<times> battle_ground) option" where
  "take_seat p a force g =
     do { f \<leftarrow> Option.bind (get_bench_info g (acx a) (acy a)) bench_GetFrontFighter;
          let g1 = pop_bench (acx a) (acy a) g; bf = heap g1 f
          in do { fs \<leftarrow> upd_opt (map_fighters g1) (cell_index g1 p) None;
                  fs1 \<leftarrow> upd_opt fs (cell_index g1 a) (Some f);
                  Some (f, put_pack ([ucast (bf_index bf), bf_x bf, bf_y bf, 1, 2, bf_fighter_num bf] @
                                     word_bytes 2 (ucast (bf_power bf) :: u16))
                             (g1\<lparr>act_count := act_count g1 + 1,
                                 camp2fighters := omap_put force (camp_list g1 force @ [f]) (camp2fighters g1),
                                 map_fighters := fs1\<rparr>)) } }"

text \<open>\<^verbatim>\<open>Relive\<close>: the fighter that the reference stands for afterwards, and the battle ground.  A new fighter is
  created at the point of revival, where \<^verbatim>\<open>newFighter\<close> enters him once, and put on the bench of that point.\<close>

definition relive :: "game_env \<Rightarrow> nat \<Rightarrow> battle_ground \<Rightarrow> (nat \<times> battle_ground) option" where
  "relive env b g =
     (let p = my_pos g b; force = bf_side (heap g b);
          g1 = g\<lparr>camp2fighters := omap_put force (removeAll b (camp_list g force)) (camp2fighters g)\<rparr>
      in do { a \<leftarrow> get_min_num_relive env g1 force (Ascoord 255 255);
              if acx a = 255 \<or> acy a = 255 then Some (b, g1)
              else do {
                pl \<leftarrow> bf_owner (heap g1 b);
                fgt \<leftarrow> ge_find env pl (bf_id (heap g1 b));
                r \<leftarrow> new_fighter env (acx a) (acy a) fgt False g1;
                n \<leftarrow> fst r;
                let h = snd r;
                    g2 = h\<lparr>heap := (heap h)(n := (heap h n)\<lparr>bf_index := bf_index (heap h b)\<rparr>)\<rparr>;
                    put = PutFighter (map_id g2) (bf_owner (heap g2 n)) (bf_id (heap g2 n)) (acx a) (acy a)
                in take_seat p a force (bench_put (acx a) (acy a) n (note_calls [put] g2)) } })"

text \<open>What happens to \<open>b\<close>, who has fallen in a combat with \<open>v\<close>: the fighter that stands for him afterwards, and
  the battle ground.  His cell is the one he stood on when he fell.\<close>

definition fallen :: "game_env \<Rightarrow> nat \<Rightarrow> nat \<Rightarrow> battle_ground \<Rightarrow> (nat \<times> battle_ground) option" where
  "fallen env b v g =
     (let q = my_pos g b; bf = heap g b; vf = heap g v
      in case bf_owner bf of
           None \<Rightarrow> do { k \<leftarrow> camp_at g (cell_index g q);
             Some (b, if k \<noteq> 0 then note_calls [RemoveNpc (room_id g) (map_id g) (bf_id bf) (acx q) (acy q)] g else g) }
         | Some pl \<Rightarrow>
             let g1 = note_calls [SetBattleStatus (bf_fighter bf) 2] g;
                 g2 = note_calls [ConsumeCampaginFood pl 100] g1
             in do {
               r \<leftarrow> (if ge_food env (calls g1) pl
                    then do { s \<leftarrow> relive env b g2;
                              Some (fst s, note_calls [SetBattleStatus (bf_fighter (heap (snd s) (fst s))) 0]
                                     ((snd s)\<lparr>list_fighters := list_fighters (snd s) @ [fst s]\<rparr>)) }
                    else Some (b, g2));
               let n = fst r; nf = heap (snd r) n
               in do {
                 pl' \<leftarrow> bf_owner nf;
                 let g3 = note_calls [RemoveFighter (map_id g) pl' (bf_id nf) (acx q) (acy q)] (snd r);
                     streak = ge_streak env (calls g3) pl' (bf_id nf)
                 in Some (n, note_calls
                      ((case bf_owner vf of
                          None \<Rightarrow> []
                        | Some w \<Rightarrow> (if streak \<ge> 1 then [AddEndConstantlyKill w (bf_id vf) pl' (bf_id nf) streak] else []) @
                                     [AddConstantlyKill w (bf_id vf) 1]) @
                       [AddBeKilledFighterNum pl', AddLoseInfo pl' (bf_id nf) (bf_owner vf) (bf_id vf)]) g3) } })"

definition count_kills :: "nat \<Rightarrow> battle_ground \<Rightarrow> battle_ground" where
  "count_kills b g =
     (let bf = heap g b
      in case bf_owner bf of
           None \<Rightarrow> g
         | Some pl \<Rightarrow> note_calls
             [AddKillFighterNum pl (bf_kills1 bf), AddKillSoldiersNum pl (bf_kills2 bf),
              AddKillFighter pl (bf_id bf) (map_id g) (bf_kills1 bf),
              AddKillSoldier pl (bf_id bf) (map_id g) (bf_kills2 bf)] g)"

definition sync_survivor :: "game_env \<Rightarrow> nat \<Rightarrow> battle_ground \<Rightarrow> battle_ground option" where
  "sync_survivor env b g =
     (let q = my_pos g b
      in do { k \<leftarrow> camp_at g (cell_index g q); Some (if k \<noteq> 0 then sync_hp env b q g else g) })"

text \<open>The attacker, who is \<^verbatim>\<open>_currentBf\<close>: coming back changes \<^verbatim>\<open>_currentBf\<close>.\<close>

definition settle_attacker :: "game_env \<Rightarrow> nat \<Rightarrow> nat \<Rightarrow> battle_ground \<Rightarrow> (nat \<times> battle_ground) option" where
  "settle_attacker env c b g =
     (if bf_hp (heap g c) \<le> 0
      then do { r \<leftarrow> fallen env c b g; Some (fst r, (snd r)\<lparr>current_bf := Some (fst r)\<rparr>) }
      else do { h \<leftarrow> sync_survivor env c g; Some (c, h) })"

definition settle_target :: "game_env \<Rightarrow> nat \<Rightarrow> nat \<Rightarrow> battle_ground \<Rightarrow> battle_ground option" where
  "settle_target env b c g =
     (if bf_hp (heap g b) \<le> 0
      then do { fs \<leftarrow> upd_opt (map_fighters g) (cell_index g (my_pos g b)) None;
                r \<leftarrow> fallen env b c (g\<lparr>map_fighters := fs\<rparr>); Some (snd r) }
      else sync_survivor env b g)"

definition clan_attack ::
  "game_env \<Rightarrow> duel_fun \<Rightarrow> battle_ground \<Rightarrow> nat \<Rightarrow> target_info \<Rightarrow> battle_ground option" where
  "clan_attack env duel_of g c target =
     (let p = my_pos g c; a = ti_attack target; b = ti_bo target
      in do { h1 \<leftarrow> (if a \<noteq> p then clan_leave env c p a g else Some g);
              h2 \<leftarrow> combat env duel_of c target (if a \<noteq> p then get_distance p a else 1) (set_ground_pos h1 c a);
              r \<leftarrow> settle_attacker env c b (count_kills b (count_kills c h2));
              settle_target env b (fst r) (snd r) })"

definition clan_move ::
  "game_env \<Rightarrow> duel_fun \<Rightarrow> (target_info list \<Rightarrow> target_info list) \<Rightarrow> battle_ground \<Rightarrow> battle_ground option" where
  "clan_move env duel_of sorter g =
     (case current_bf g of
        None \<Rightarrow> Some g
      | Some c \<Rightarrow>
          do { h \<leftarrow> get_target env g c (bf_x (heap g c)) (bf_y (heap g c));
               k \<leftarrow> (if vec_target h = [] then clan_walk env h c
                    else do { ts \<leftarrow> std_sort sorter more_fit (vec_target h);
                              case ts of [] \<Rightarrow> None | t # _ \<Rightarrow> clan_attack env duel_of h c t });
               Some (k\<lparr>vec_target := []\<rparr>) })"

section \<open>Messages to the players\<close>

text \<open>A player in the set may be the null pointer, which \<^verbatim>\<open>AutoEnterFighters\<close> puts there.\<close>

definition send_each :: "(nat \<Rightarrow> battle_ground \<Rightarrow> battle_ground) \<Rightarrow> battle_ground \<Rightarrow> battle_ground option" where
  "send_each f g = foldm (\<lambda>h p. case p of None \<Rightarrow> None | Some pl \<Rightarrow> Some (f pl h)) g (set_player g)"

definition packet :: "u8 \<Rightarrow> (stream \<Rightarrow> stream) \<Rightarrow> u8 list" where
  "packet cmd body = st_buf (stream_eos (body (stream_init cmd 0xFF stream_empty)))"

definition put_clans :: "game_env \<Rightarrow> u32 \<Rightarrow> u32 list \<Rightarrow> stream \<Rightarrow> stream" where
  "put_clans env own cl st =
     (let names = List.map_filter (\<lambda>i. if i = own then None else ge_clan_name env i) cl
      in stream_set_data (stream_size st) [of_nat (length names)] (fold stream_put_string names (stream_put [0] st)))"

definition send_battle_each_info :: "game_env \<Rightarrow> battle_ground \<Rightarrow> battle_ground option" where
  "send_battle_each_info env g =
     (case ge_clans env (calls g) (room_id g) of
        None \<Rightarrow> Some g
      | Some forces \<Rightarrow>
          send_each (\<lambda>pl h. case ge_clan_of env pl of
              None \<Rightarrow> h
            | Some own \<Rightarrow> note_calls [SendTo pl (packet (of_int (id_of req_ids ''CLAN_BATTLE_PROCESS''))
                (\<lambda>st. fold (\<lambda>(k, cl). put_clans env own cl) forces
                        (stream_put [of_nat (length forces)] (stream_put [0] st))))] h) g)"

definition put_forces :: "u8 list \<Rightarrow> stream \<Rightarrow> stream" where
  "put_forces ks st = fold (\<lambda>k. stream_put [k]) ks (stream_put [of_nat (length ks)] st)"

definition send_battle_result_info :: "game_env \<Rightarrow> battle_ground \<Rightarrow> battle_ground option" where
  "send_battle_result_info env g =
     (let own = (case ge_status env (calls g) (room_id g) of
                   None \<Rightarrow> 0 | Some _ \<Rightarrow> ge_own_force env (calls g) (room_id g) (map_id g))
      in send_each (\<lambda>pl h. note_calls [SendTo pl (packet (of_int (id_of req_ids ''CLAN_BATTLE_PROCESS''))
           (\<lambda>st. stream_put [own] (put_forces (get_alive_force h)
                   (put_forces (get_pre_start_forces h) (stream_put [map_id h] (stream_put [1] st))))))] h) g)"

section \<open>A round\<close>

text \<open>The loop over the fighters: the dead at the front of the list go, the first who lives takes his turn and
  goes, and the list, to which those who came back have been added, is sorted again.\<close>

partial_function (option) clan_turns ::
  "game_env \<Rightarrow> duel_fun \<Rightarrow> (target_info list \<Rightarrow> target_info list) \<Rightarrow> battle_ground \<Rightarrow> battle_ground option" where
  "clan_turns env duel_of sorter g =
     (case dropWhile (\<lambda>b. bf_hp (heap g b) \<le> 0) (list_fighters g) of
        [] \<Rightarrow> Some (g\<lparr>list_fighters := []\<rparr>)
      | b # bs \<Rightarrow>
          do { h \<leftarrow> clan_move env duel_of sorter (g\<lparr>list_fighters := b # bs, current_bf := Some b\<rparr>);
               clan_turns env duel_of sorter
                 (h\<lparr>act_count := act_count h + 1, list_fighters := by_act_id h (tl (list_fighters h))\<rparr>) })"

definition first_round :: "game_env \<Rightarrow> battle_ground \<Rightarrow> battle_ground option" where
  "first_round env g =
     (if is_first_round g
      then do { g1 \<leftarrow> pre_start env g;
                g2 \<leftarrow> set_extra_fighter_act_id g1;
                send_battle_each_info env (g2\<lparr>is_first_round := False\<rparr>) }
      else Some g)"

definition end_battle :: "game_env \<Rightarrow> battle_ground \<Rightarrow> battle_ground option" where
  "end_battle env g =
     (if is_set_capture g then Some g
      else do { h \<leftarrow> send_battle_result_info env (set_capture_force env g); Some (h\<lparr>is_set_capture := True\<rparr>) })"

definition publish_round :: "game_env \<Rightarrow> nat \<Rightarrow> battle_ground \<Rightarrow> battle_ground option" where
  "publish_round env offset g =
     (let g1 = g\<lparr>round_id := round_id g + 1\<rparr>;
          now = ge_now env (calls g1);
          g2 = close_report env offset (act_count g1) g1;
          (i, gen) = gen_id 0 BattleIDGen (oid_gen0 g2);
          g3 = note_calls [AddReport i (st_buf (pack g2)), InsertReport (room_id g2) (map_id g2) (round_id g2) i now,
                           SaveReport (room_id g2) (map_id g2) (round_id g2) i now] (g2\<lparr>oid_gen0 := gen\<rparr>)
      in do { g4 \<leftarrow> send_each (\<lambda>pl h. note_calls [SendTo pl (packet (of_int (id_of rep_ids ''CLAN_BATTLE_REPORT''))
                      (\<lambda>st. stream_put (word_bytes 4 i) (stream_put [map_id h] (stream_put [1] st))))] h) g3;
              send_each (\<lambda>pl. note_calls [SendSelfInfo pl (of_int (id_of req_ids ''CLAN_BATTLE_SELFINFO''))]) g4 })"

definition fight_one_round ::
  "game_env \<Rightarrow> duel_fun \<Rightarrow> (target_info list \<Rightarrow> target_info list) \<Rightarrow> battle_ground \<Rightarrow> battle_ground option" where
  "fight_one_round env duel_of sorter g =
     do { g1 \<leftarrow> first_round env (g\<lparr>one_round_cost_time := 0\<rparr>);
          if check_is_stop g1 then end_battle env g1
          else let (offset, g2) = open_report env g1;
                   g3 = get_all_battle_fighter (put_pack [0, 0] (g2\<lparr>act_count := 0\<rparr>))
               in if check_is_stop g3 then Some g3
                  else do { g4 \<leftarrow> clan_turns env duel_of sorter g3; publish_round env offset g4 } }"

section \<open>Boards with benches\<close>

text \<open>Every fighter on the board is on the cell his coordinates name; those on a bench wait on the bench of the
  cell their coordinates name, on one bench only, and are not on the board.\<close>

definition bench_fighters :: "battle_ground \<Rightarrow> nat list" where
  "bench_fighters g = concat (map bi_listFighter (list_bench g))"

definition orderly :: "battle_ground \<Rightarrow> bool" where
  "orderly g \<longleftrightarrow> placed g \<and> distinct (bench_fighters g) \<and>
     (\<forall>e \<in> set (list_bench g). \<forall>b \<in> set (bi_listFighter e). my_pos g b = Ascoord (bi_x e) (bi_y e)) \<and>
     (\<forall>p b. in_bounds g p \<longrightarrow> fighter_at g p = Some (Some b) \<longrightarrow> b \<notin> set (bench_fighters g))"

lemma orderly_same: "board_same g h \<Longrightarrow> list_bench h = list_bench g \<Longrightarrow> orderly h = orderly g"
  by (simp add: orderly_def bench_fighters_def placed_same board_same_reads)

definition with_cell :: "battle_ground \<Rightarrow> ascoord \<Rightarrow> nat option \<Rightarrow> battle_ground" where
  "with_cell g q v = g\<lparr>map_fighters := (map_fighters g)[cell_index g q := v]\<rparr>"

lemma with_cell_reads [simp]:
  "in_bounds (with_cell g q v) = in_bounds g" "my_pos (with_cell g q v) = my_pos g"
  "list_bench (with_cell g q v) = list_bench g" "heap (with_cell g q v) = heap g"
  "wf_ground (with_cell g q v) = wf_ground g" "cell_index (with_cell g q v) = cell_index g"
  "bench_fighters (with_cell g q v) = bench_fighters g" "map_camp (with_cell g q v) = map_camp g"
  by (simp_all add: with_cell_def in_bounds_def my_pos_def wf_ground_def cell_index_def bench_fighters_def fun_eq_iff)

lemma with_cell_at:
  assumes "wf_ground g" "in_bounds g q" "in_bounds g r"
  shows "fighter_at (with_cell g q v) r = (if r = q then Some v else fighter_at g r)"
  using cell_index_less(3) [OF assms(1,3)] cell_index_inj [OF assms(3,2)]
  by (auto simp: fighter_at_def nth_opt_update) (auto simp: with_cell_def nth_opt_update cell_index_def)

lemma upd_cell:
  "upd_opt (map_fighters g) (cell_index g q) v = Some fs \<Longrightarrow> g\<lparr>map_fighters := fs\<rparr> = with_cell g q v"
  by (simp add: upd_opt_Some_iff with_cell_def)

lemma orderly_clear:
  assumes "orderly g" "in_bounds g q"
  shows "orderly (with_cell g q None)"
  using assms by (auto simp: orderly_def placed_def with_cell_at split: if_splits)

lemma orderly_fill:
  assumes "orderly g" "in_bounds g q" "my_pos g b = q" "b \<notin> set (bench_fighters g)"
  shows "orderly (with_cell g q (Some b))"
  using assms by (auto simp: orderly_def placed_def with_cell_at split: if_splits)

lemma ground_pos_reads [simp]:
  "in_bounds (set_ground_pos g c q) = in_bounds g" "my_pos (set_ground_pos g c q) = (my_pos g)(c := q)"
  "list_bench (set_ground_pos g c q) = list_bench g" "fighter_at (set_ground_pos g c q) = fighter_at g"
  "wf_ground (set_ground_pos g c q) = wf_ground g" "cell_index (set_ground_pos g c q) = cell_index g"
  "bench_fighters (set_ground_pos g c q) = bench_fighters g"
  by (simp_all add: set_ground_pos_def in_bounds_def my_pos_def wf_ground_def cell_index_def bench_fighters_def
      fighter_at_def fun_eq_iff)

lemma orderly_move:
  assumes "orderly g" "c \<notin> set (bench_fighters g)" "\<And>p. in_bounds g p \<Longrightarrow> fighter_at g p \<noteq> Some (Some c)"
  shows "orderly (set_ground_pos g c q)"
  unfolding orderly_def placed_def ground_pos_reads
proof (intro conjI ballI allI impI)
  show "wf_ground g" "distinct (bench_fighters g)" using assms(1) by (simp_all add: orderly_def placed_def)
next
  fix p b assume "in_bounds g p" "fighter_at g p = Some (Some b)"
  then show "((my_pos g)(c := q)) b = p" "b \<notin> set (bench_fighters g)"
    using assms(1,3) by (auto simp: orderly_def placed_def)
next
  fix e b assume e: "e \<in> set (list_bench g)" "b \<in> set (bi_listFighter e)"
  then have "b \<noteq> c" using assms(2) by (auto simp: bench_fighters_def)
  then show "((my_pos g)(c := q)) b = Ascoord (bi_x e) (bi_y e)" using e assms(1) by (auto simp: orderly_def)
qed

lemma find_update_split:
  "find P xs = Some e \<Longrightarrow> \<exists>ys zs. xs = ys @ e # zs \<and> update_first P f xs = ys @ f e # zs"
proof (induction xs)
  case (Cons x xs)
  show ?case
  proof (cases "P x")
    case False
    then obtain ys zs where "xs = ys @ e # zs" "update_first P f xs = ys @ f e # zs" using Cons by auto
    then show ?thesis using False by (intro exI [of _ "x # ys"] exI [of _ zs]) simp
  qed (use Cons in force)
qed simp

lemma pop_bench_reads [simp]:
  "in_bounds (pop_bench x y g) = in_bounds g" "my_pos (pop_bench x y g) = my_pos g"
  "fighter_at (pop_bench x y g) = fighter_at g" "wf_ground (pop_bench x y g) = wf_ground g"
  "cell_index (pop_bench x y g) = cell_index g" "map_fighters (pop_bench x y g) = map_fighters g"
  by (simp_all add: pop_bench_def in_bounds_def my_pos_def wf_ground_def cell_index_def fighter_at_def fun_eq_iff)

lemma orderly_pop:
  assumes "orderly g" "get_bench_info g x y = Some e" "bench_GetFrontFighter e = Some f"
  shows "orderly (pop_bench x y g)" "my_pos g f = Ascoord x y" "f \<in> set (bench_fighters g)"
    "set (bench_fighters (pop_bench x y g)) = set (bench_fighters g) - {f}"
proof -
  obtain fs where fs: "bi_listFighter e = f # fs"
    using assms(3) by (auto simp: bench_GetFrontFighter_def split: list.splits)
  obtain ys zs where s: "list_bench g = ys @ e # zs"
    "list_bench (pop_bench x y g) = ys @ e\<lparr>bi_listFighter := fs\<rparr> # zs"
    using find_update_split [of "\<lambda>e. bi_x e = x \<and> bi_y e = y" "list_bench g" e bench_PopFrontFighter] assms(2) fs
    by (auto simp: get_bench_info_def pop_bench_def bench_PopFrontFighter_def)
  have xy: "bi_x e = x" "bi_y e = y" using assms(2) find_in_set by (fastforce simp: get_bench_info_def)+
  show p: "my_pos g f = Ascoord x y" using assms(1) s(1) fs xy by (auto simp: orderly_def)
  show m: "f \<in> set (bench_fighters g)" using s(1) fs by (auto simp: bench_fighters_def)
  have d: "distinct (bench_fighters g)" using assms(1) by (simp add: orderly_def)
  have b: "bench_fighters g = concat (map bi_listFighter ys) @ f # fs @ concat (map bi_listFighter zs)"
    "bench_fighters (pop_bench x y g) = concat (map bi_listFighter ys) @ fs @ concat (map bi_listFighter zs)"
    using s fs by (simp_all add: bench_fighters_def)
  show r: "set (bench_fighters (pop_bench x y g)) = set (bench_fighters g) - {f}" using d unfolding b by auto
  have "distinct (bench_fighters (pop_bench x y g))" using d unfolding b by auto
  moreover have "my_pos g k = Ascoord (bi_x a) (bi_y a)"
    if "a \<in> set (list_bench (pop_bench x y g))" "k \<in> set (bi_listFighter a)" for a k
    using that assms(1) s fs by (auto simp: orderly_def)
  ultimately show "orderly (pop_bench x y g)" using assms(1) r by (auto simp: orderly_def placed_def)
qed

lemma refill_orderly:
  assumes "orderly g" "in_bounds g p" "refill env p g = Some h"
  shows "orderly h \<and> in_bounds h = in_bounds g \<and> my_pos h = my_pos g \<and>
    set (bench_fighters h) \<subseteq> set (bench_fighters g) \<and>
    (\<forall>r. in_bounds g r \<longrightarrow> fighter_at h r = fighter_at g r \<or>
       (\<exists>f \<in> set (bench_fighters g). fighter_at h r = Some (Some f)))"
proof (cases "h = g")
  case False
  obtain rel where rel: "is_relive_point env g (acx p) (acy p) = Some rel" using assms(3) by (auto simp: refill_def bind_eq_Some_conv)
  with assms(3) False obtain e f fs where e: "get_bench_info g (acx p) (acy p) = Some e" "bench_GetFrontFighter e = Some f"
    "upd_opt (map_fighters g) (cell_index g p) (Some f) = Some fs" "h = (pop_bench (acx p) (acy p) g)\<lparr>map_fighters := fs\<rparr>"
    by (cases "get_bench_info g (acx p) (acy p)")
       (auto simp: refill_def bind_eq_Some_conv split: if_splits option.splits)
  let ?k = "pop_bench (acx p) (acy p) g"
  have h: "h = with_cell ?k p (Some f)" using upd_cell [of ?k p "Some f" fs] e(3,4) by simp
  note o = orderly_pop [OF assms(1) e(1,2)]
  have "orderly h" unfolding h by (rule orderly_fill [OF o(1)]) (use assms(2) o in simp_all)
  moreover have "wf_ground ?k" using assms(1) by (simp add: orderly_def placed_def)
  ultimately show ?thesis using o assms(2) unfolding h by (auto simp: with_cell_at)
qed (use assms in simp)

lemma tell_move_same: "tell_move env c p q g = Some h \<Longrightarrow> board_same g h \<and> list_bench h = list_bench g"
  by (auto simp: tell_move_def Let_def bind_eq_Some_conv sync_hp_def note_calls_def board_same_def my_pos_def
      fun_eq_iff split: option.splits)

lemma clan_leave_orderly:
  assumes "orderly g" "in_bounds g p" "in_bounds g q" "fighter_at g p = Some (Some c)" "clan_leave env c p q g = Some h"
  shows "orderly (set_ground_pos h c q)"
proof -
  have pl: "placed g" and wf: "wf_ground g" and nb: "c \<notin> set (bench_fighters g)"
    using assms by (auto simp: orderly_def placed_def)
  obtain fs g1 fs1 where s: "upd_opt (map_fighters g) (cell_index g p) None = Some fs"
    "refill env p (g\<lparr>map_fighters := fs\<rparr>) = Some g1"
    "upd_opt (map_fighters g1) (cell_index g1 q) (Some c) = Some fs1"
    "tell_move env c p q (g1\<lparr>map_fighters := fs1\<rparr>) = Some h"
    using assms(5) by (auto simp: clan_leave_def bind_eq_Some_conv)
  let ?g0 = "with_cell g p None"
  have "refill env p ?g0 = Some g1" using s(2) unfolding upd_cell [OF s(1)] .
  from refill_orderly [OF orderly_clear [OF assms(1,2)] _ this]
  have g1: "orderly g1" "in_bounds g1 = in_bounds g" "set (bench_fighters g1) \<subseteq> set (bench_fighters g)"
    "\<And>r. in_bounds g r \<Longrightarrow> fighter_at g1 r = fighter_at ?g0 r \<or>
       (\<exists>f \<in> set (bench_fighters g). fighter_at g1 r = Some (Some f))"
    using assms(2) by auto
  have away: "fighter_at g1 r \<noteq> Some (Some c)" if "in_bounds g1 r" for r
  proof
    assume "fighter_at g1 r = Some (Some c)"
    then have "fighter_at ?g0 r = Some (Some c)" using g1(4) [of r] that nb by (auto simp: g1(2))
    then have "r \<noteq> p" "fighter_at g r = Some (Some c)" using that g1(2) with_cell_at [OF wf assms(2)] by (auto split: if_splits)
    then show False using pl assms(2,4) that g1(2) by (auto simp: placed_def)
  qed
  have "orderly (set_ground_pos g1 c q)" using orderly_move [OF g1(1) _ away] g1(3) nb by blast
  then have k: "orderly (with_cell (set_ground_pos g1 c q) q (Some c))"
    by (rule orderly_fill) (use assms(3) g1 nb in auto)
  have "g1\<lparr>map_fighters := fs1\<rparr> = with_cell g1 q (Some c)" by (rule upd_cell [OF s(3)])
  then have t: "board_same (with_cell g1 q (Some c)) h" "list_bench h = list_bench g1"
    using tell_move_same [OF s(4)] by auto
  have "board_same (with_cell (set_ground_pos g1 c q) q (Some c)) (set_ground_pos h c q)"
    using t(1) by (simp add: board_same_def) (simp add: with_cell_def set_ground_pos_def cell_index_def)
  then show ?thesis using orderly_same [OF _ , of _ "set_ground_pos h c q"] k t(2) by simp
qed

definition bench_same :: "battle_ground \<Rightarrow> battle_ground \<Rightarrow> bool" where
  "bench_same g h \<longleftrightarrow> board_same g h \<and> list_bench h = list_bench g"

lemma bench_same_trans [trans]: "bench_same g h \<Longrightarrow> bench_same h k \<Longrightarrow> bench_same g k"
  by (auto simp: bench_same_def intro: board_same_trans)

lemma bench_same_orderly: "bench_same g h \<Longrightarrow> orderly h = orderly g"
  by (simp add: bench_same_def orderly_same)

lemma bench_same_steps [board]:
  "bench_same g g" "bench_same g (put_pack bs g)" "bench_same g (insert_fighter_info env w b g)"
  "bench_same g (spend_time n g)" "bench_same g (note_calls cs g)" "bench_same g (count_win win c b g)"
  "bench_same g (report_move env c q dis g)" "bench_same g (g\<lparr>vec_target := ts\<rparr>)"
  "bench_same g (g\<lparr>current_bf := cb\<rparr>)" "bench_same g (count_kills b g)"
  by (auto simp: bench_same_def count_kills_def Let_def intro: board split: option.splits)
     (simp_all add: put_pack_def insert_fighter_info_def spend_time_def note_calls_def count_win_def report_move_def Let_def)

lemma combat_bench: "combat env duel_of c t dis g = Some k \<Longrightarrow> list_bench k = list_bench g"
  by (auto simp: combat_def Let_def bind_eq_Some_conv)
     (simp add: put_pack_def insert_fighter_info_def spend_time_def count_win_def Let_def)

lemma survivor_same: "sync_survivor env b g = Some h \<Longrightarrow> bench_same g h"
  by (auto simp: sync_survivor_def Let_def bind_eq_Some_conv sync_hp_def intro: board)

lemma fallen_same:
  assumes "\<And>l pl. \<not> ge_food env l pl" "fallen env b v g = Some (n, h)"
  shows "n = b \<and> bench_same g h"
proof (cases "bf_owner (heap g b)")
  case None
  then show ?thesis using assms(2) by (auto simp: fallen_def Let_def bind_eq_Some_conv intro: board)
next
  case (Some pl)
  then have "n = b \<and> (\<exists>cs. h = note_calls cs g)"
    using assms(2) by (auto simp: fallen_def Let_def assms(1) bind_eq_Some_conv) (auto simp: note_calls_def)
  then show ?thesis by (auto intro: board)
qed

lemma settle_attacker_same:
  assumes "\<And>l pl. \<not> ge_food env l pl" "settle_attacker env c b g = Some (n, h)"
  shows "n = c \<and> bench_same g h"
proof (cases "bf_hp (heap g c) \<le> 0")
  case True
  then obtain k where "fallen env c b g = Some (n, k)" "h = k\<lparr>current_bf := Some n\<rparr>"
    using assms(2) by (auto simp: settle_attacker_def bind_eq_Some_conv)
  then show ?thesis using fallen_same [OF assms(1)] bench_same_trans [OF _ bench_same_steps(9)] by blast
next
  case False
  then show ?thesis using assms(2) survivor_same by (auto simp: settle_attacker_def bind_eq_Some_conv)
qed

lemma settle_target_orderly:
  assumes "\<And>l pl. \<not> ge_food env l pl" "settle_target env b c g = Some h" "orderly g" "in_bounds g (my_pos g b)"
  shows "orderly h"
proof (cases "bf_hp (heap g b) \<le> 0")
  case True
  then obtain fs n where f: "upd_opt (map_fighters g) (cell_index g (my_pos g b)) None = Some fs"
    "fallen env b c (g\<lparr>map_fighters := fs\<rparr>) = Some (n, h)"
    using assms(2) by (auto simp: settle_target_def bind_eq_Some_conv)
  have "fallen env b c (with_cell g (my_pos g b) None) = Some (n, h)" using f(2) unfolding upd_cell [OF f(1)] .
  then show ?thesis using fallen_same [OF assms(1)] bench_same_orderly orderly_clear [OF assms(3,4)] by metis
next
  case False
  then have "sync_survivor env b g = Some h" using assms(2) by (simp add: settle_target_def)
  from bench_same_orderly [OF survivor_same [OF this]] show ?thesis using assms(3) by simp
qed

lemma clan_walk_orderly:
  assumes "orderly g" "may_act env g c" "fighter_at g (my_pos g c) = Some (Some c)" "clan_walk env g c = Some k"
  shows "orderly k"
proof -
  let ?p = "my_pos g c"
  have pb: "in_bounds g ?p" using assms(2) by (simp add: may_act_def)
  obtain m h where r: "get_move_position g c (Ascoord 255 255) = Some (m, h)"
    using assms(4) by (auto simp: clan_walk_def Let_def bind_eq_Some_conv)
  have sf: "same_field g h" and mb: "m = Ascoord 255 255 \<or> in_bounds g m"
    using get_move_position_bounds [OF assms(2) r] by auto
  have bs: "bench_same g h"
    using sf by (simp add: bench_same_def board_same_def same_field_iff) (auto simp: target_state_def my_pos_def fun_eq_iff)
  have oh: "orderly h" using assms(1) bench_same_orderly [OF bs] by simp
  have mp: "my_pos h c = ?p" using list_reads(4) [OF sf] by simp
  show ?thesis
  proof (cases "acx m = 255 \<and> acy m = 255")
    case True
    then have "k = report_move env c ?p 0 h" using assms(4) r set_ground_pos_same [of ?p h c] mp
      by (simp add: clan_walk_def Let_def)
    then show ?thesis using oh bench_same_orderly [OF bench_same_steps(7)] by simp
  next
    case False
    then obtain h1 where h1: "clan_leave env c ?p m h = Some h1"
      "k = spend_time (half_up (unat (get_distance ?p m))) (report_move env c m (get_distance ?p m) (set_ground_pos h1 c m))"
      using assms(4) r by (auto simp: clan_walk_def Let_def bind_eq_Some_conv)
    have "in_bounds h m" "in_bounds h ?p" "fighter_at h ?p = Some (Some c)"
      using mb False pb assms(3) by (auto simp: board_reads [OF sf])
    then have "orderly (set_ground_pos h1 c m)" using clan_leave_orderly [OF oh _ _ _ h1(1)] by simp
    then show ?thesis unfolding h1(2)
      by (simp add: bench_same_orderly [OF bench_same_steps(4)] bench_same_orderly [OF bench_same_steps(7)])
  qed
qed

text \<open>An attack on a fighter who stands on the board.\<close>

lemma clan_attack_orderly:
  assumes "orderly g" "in_bounds g (my_pos g c)" "in_bounds g (ti_attack t)" "fighter_at g (my_pos g c) = Some (Some c)"
    "in_bounds g (my_pos g (ti_bo t))" "ti_bo t \<noteq> c" "keeps_places duel_of" "\<And>l pl. \<not> ge_food env l pl"
    "clan_attack env duel_of g c t = Some k"
  shows "orderly k"
proof -
  let ?p = "my_pos g c" and ?a = "ti_attack t" and ?b = "ti_bo t"
  obtain h1 h2 dis n h3 where s: "(if ?a \<noteq> ?p then clan_leave env c ?p ?a g else Some g) = Some h1"
    "combat env duel_of c t dis (set_ground_pos h1 c ?a) = Some h2"
    "settle_attacker env c ?b (count_kills ?b (count_kills c h2)) = Some (n, h3)"
    "settle_target env ?b n h3 = Some k"
    using assms(9) by (auto simp: clan_attack_def Let_def bind_eq_Some_conv)
  have o1: "orderly (set_ground_pos h1 c ?a)"
  proof (cases "?a = ?p")
    case True
    then show ?thesis using s(1) assms(1) set_ground_pos_same [of ?a g c] by simp
  next
    case False
    then show ?thesis using clan_leave_orderly [OF assms(1-4)] s(1) by simp
  qed
  have p1: "in_bounds h1 = in_bounds g \<and> my_pos h1 = my_pos g"
  proof (cases "?a = ?p")
    case True
    then show ?thesis using s(1) by simp
  next
    case False
    then have "clan_leave env c ?p ?a g = Some h1" using s(1) by simp
    then obtain fs g1 fs1 where l: "upd_opt (map_fighters g) (cell_index g ?p) None = Some fs"
      "refill env ?p (g\<lparr>map_fighters := fs\<rparr>) = Some g1" "tell_move env c ?p ?a (g1\<lparr>map_fighters := fs1\<rparr>) = Some h1"
      by (auto simp: clan_leave_def bind_eq_Some_conv)
    have "refill env ?p (with_cell g ?p None) = Some g1" using l(2) unfolding upd_cell [OF l(1)] .
    from refill_orderly [OF orderly_clear [OF assms(1,2)] _ this]
    have "in_bounds g1 = in_bounds g \<and> my_pos g1 = my_pos g" using assms(2) by simp
    moreover have "board_same (g1\<lparr>map_fighters := fs1\<rparr>) h1" using tell_move_same [OF l(3)] by blast
    ultimately show ?thesis by (simp add: board_same_def in_bounds_def my_pos_def fun_eq_iff)
  qed
  have "bench_same (set_ground_pos h1 c ?a) h2"
    using combat_board [OF assms(7) s(2)] combat_bench [OF s(2)] by (simp add: bench_same_def)
  also have "bench_same h2 (count_kills c h2)" by (rule board)
  also have "bench_same (count_kills c h2) (count_kills ?b (count_kills c h2))" by (rule board)
  also have "bench_same \<dots> h3" using settle_attacker_same [OF assms(8) s(3)] by blast
  finally have b3: "bench_same (set_ground_pos h1 c ?a) h3" .
  have "orderly h3" using o1 bench_same_orderly [OF b3] by simp
  moreover have "in_bounds h3 (my_pos h3 ?b)"
    using board_same_reads(2,4) [OF conjunct1 [OF b3 [unfolded bench_same_def]]] p1 assms(5,6) by simp
  ultimately show ?thesis using settle_target_orderly [OF assms(8) s(4)] by blast
qed

lemma clan_move_orderly:
  assumes "orderly g" "current_bf g = Some c" "may_act env g c" "fighter_at g (my_pos g c) = Some (Some c)"
    "vec_target g = []" "keeps_places duel_of" "rearranges sorter" "\<And>l pl. \<not> ge_food env l pl"
    "clan_move env duel_of sorter g = Some k"
  shows "orderly k \<and> vec_target k = []"
proof -
  obtain h where h: "get_target env g c (bf_x (heap g c)) (bf_y (heap g c)) = Some h" "judged g c (my_pos g c) h"
    using assms(2,9) get_target_delivers [OF assms(3), of "bf_x (heap g c)" "bf_y (heap g c)"]
    by (auto simp: clan_move_def my_pos_def bind_eq_Some_conv)
  have sf: "same_field g h" using h(2) by (rule judged_field)
  have good: "\<And>ti. ti \<in> set (vec_target h) \<Longrightarrow> good_target g c (my_pos g c) ti"
    using h(2) assms(5) by (auto simp: judged_def)
  have bs: "bench_same g h"
    using sf by (simp add: bench_same_def board_same_def same_field_iff) (auto simp: target_state_def my_pos_def fun_eq_iff)
  have oh: "orderly h" using assms(1) bench_same_orderly [OF bs] by simp
  have mp: "my_pos h = my_pos g" using bs by (simp add: bench_same_def board_same_def)
  have mah: "may_act env h c" using assms(3) by (simp add: may_act_def board_reads [OF sf] field_reads [OF sf] mp)
  have fh: "fighter_at h (my_pos h c) = Some (Some c)" using assms(4) mp by (simp add: board_reads [OF sf])
  show ?thesis
  proof (cases "vec_target h = []")
    case True
    then obtain k' where "clan_walk env h c = Some k'" "k = k'\<lparr>vec_target := []\<rparr>"
      using assms(2,9) h(1) by (auto simp: clan_move_def bind_eq_Some_conv)
    then show ?thesis using clan_walk_orderly [OF oh mah fh] bench_same_orderly [OF bench_same_steps(8)] by simp
  next
    case False
    then obtain xs k' where xs: "std_sort sorter more_fit (vec_target h) = Some xs"
      "(case xs of [] \<Rightarrow> None | t # _ \<Rightarrow> clan_attack env duel_of h c t) = Some k'" "k = k'\<lparr>vec_target := []\<rparr>"
      using assms(2,9) h(1) by (auto simp: clan_move_def bind_eq_Some_conv)
    then obtain t ts where t: "std_sort sorter more_fit (vec_target h) = Some (t # ts)" "clan_attack env duel_of h c t = Some k'"
      "k = k'\<lparr>vec_target := []\<rparr>"
      by (cases xs) auto
    have "t \<in> set (vec_target h)" by (rule std_sort_mem [OF assms(7) t(1)])
    then have gt: "good_target g c (my_pos g c) t" by (rule good)
    have pb: "in_bounds h (my_pos h c)" using mah by (simp add: may_act_def)
    have ab: "in_bounds h (ti_attack t)" using gt pb mp by (auto simp: good_target_def board_reads [OF sf])
    obtain q where q: "in_bounds g q" "fighter_at g q = Some (Some (ti_bo t))" "live_enemy_on g c q"
      using gt by (auto simp: good_target_def)
    then have "my_pos g (ti_bo t) = q" using assms(1) by (simp add: orderly_def placed_def)
    moreover have "ti_bo t \<noteq> c" using q(2,3) by (auto simp: live_enemy_on_def)
    ultimately show ?thesis
      using clan_attack_orderly [OF oh pb ab fh _ _ assms(6,8) t(2)] q(1) mp t(3)
        bench_same_orderly [OF bench_same_steps(8)] by (simp add: board_reads [OF sf])
  qed
qed

section \<open>The turns that can be taken\<close>

text \<open>The turn of a living fighter who stands on the board.  The code has no such test: it also gives a turn to
  whoever waits on a bench, and that turn is not a step here.\<close>

inductive clan_step ::
  "game_env \<Rightarrow> duel_fun \<Rightarrow> (target_info list \<Rightarrow> target_info list) \<Rightarrow> battle_ground \<Rightarrow> battle_ground \<Rightarrow> bool"
  for env duel_of sorter where
  clan_turn: "bf_hp (heap g b) > 0 \<Longrightarrow> may_act env g b \<Longrightarrow> in_bounds g p \<Longrightarrow> fighter_at g p = Some (Some b) \<Longrightarrow>
     clan_move env duel_of sorter (g\<lparr>list_fighters := bs, current_bf := Some b\<rparr>) = Some h \<Longrightarrow>
     clan_step env duel_of sorter g (h\<lparr>act_count := n, list_fighters := cs\<rparr>)"

inductive_cases clan_stepE: "clan_step env duel_of sorter g h"

lemma bench_same_lists [board]:
  "bench_same g (g\<lparr>list_fighters := bs, current_bf := cb\<rparr>)" "bench_same g (g\<lparr>act_count := n, list_fighters := bs\<rparr>)"
  by (simp_all add: bench_same_def board_same_def my_pos_def fun_eq_iff)

lemma clan_step_orderly:
  assumes "clan_step env duel_of sorter g h" "keeps_places duel_of" "rearranges sorter" "\<And>l pl. \<not> ge_food env l pl"
    "orderly g" "vec_target g = []"
  shows "orderly h \<and> vec_target h = []"
proof (rule clan_stepE [OF assms(1)])
  fix b p bs k n cs
  let ?g = "g\<lparr>list_fighters := bs, current_bf := Some b\<rparr>"
  assume 1: "h = k\<lparr>act_count := n, list_fighters := cs\<rparr>" "bf_hp (heap g b) > 0" "may_act env g b"
    "in_bounds g p" "fighter_at g p = Some (Some b)" "clan_move env duel_of sorter ?g = Some k"
  have bs: "board_same g ?g" using bench_same_lists(1) by (simp add: bench_same_def)
  have "orderly k \<and> vec_target k = []"
  proof (rule clan_move_orderly [OF _ _ _ _ _ assms(2,3,4) 1(6)])
    show "orderly ?g" using assms(5) bench_same_orderly [OF bench_same_lists(1)] by simp
    show "may_act env ?g b" using 1(3) board_same_reads [OF bs] by (simp add: may_act_def)
    have "my_pos g b = p" using assms(5) 1(4,5) by (simp add: orderly_def placed_def)
    then show "fighter_at ?g (my_pos ?g b) = Some (Some b)" using 1(5) board_same_reads [OF bs] by simp
  qed (use assms(6) in simp_all)
  then show ?thesis unfolding 1(1) by (simp add: bench_same_orderly [OF bench_same_lists(2)])
qed

lemma clan_reach_orderly:
  assumes "(clan_step env duel_of sorter)\<^sup>*\<^sup>* g h" "keeps_places duel_of" "rearranges sorter" "\<And>l pl. \<not> ge_food env l pl"
    "orderly g" "vec_target g = []"
  shows "orderly h \<and> vec_target h = []"
  using assms(1)
proof (induction rule: rtranclp_induct)
  case base
  show ?case using assms(5,6) by simp
next
  case (step y z)
  then show ?case using clan_step_orderly [OF step.hyps(2) assms(2-4)] by blast
qed

section \<open>Concrete turns\<close>

text \<open>A combat that kills the fighter attacked, on the board of two fighters.\<close>

definition lethal :: duel_fun where
  "lethal hp c b d f1 f2 = (hp(b := (hp b)\<lparr>bf_hp := 0\<rparr>), 0, 0, 0)"

lemma lethal_keeps: "keeps_places lethal"
  by (simp add: keeps_places_def lethal_def)

lemma self_rearranges: "rearranges (\<lambda>ts. ts)"
  by (simp add: rearranges_def)

lemma plain_no_food: "\<not> ge_food plain_env l pl"
  by (simp add: plain_env_def)

lemma duel_turn:
  "case clan_move plain_env lethal (\<lambda>ts. ts) (duel\<lparr>list_fighters := [0], current_bf := Some 0\<rparr>) of
     None \<Rightarrow> False
   | Some h \<Rightarrow> map_fighters h = [Some 0, None, None, None, None, None] \<and> list_fighters h = [0] \<and>
       bf_hp (heap h 0) = 100"
  by code_simp

lemma duel_may_act: "may_act plain_env duel 0" "bf_hp (heap duel 0) > 0" "fighter_at duel (my_pos duel 0) = Some (Some 0)"
  by (simp_all add: may_act_def my_pos_def soldier_def plain_env_def fighter_at_def cell_index_def)

lemma duel_orderly: "orderly duel"
proof -
  have "list_bench duel = []" by (simp add: duel_def board_of_def new_ground_def)
  then show ?thesis using duel_cells by (simp add: orderly_def placed_def bench_fighters_def)
qed

section \<open>Properties\<close>

text \<open>C4: started in order (\<open>orderly\<close>: each fighter on the board is on the cell his own coordinates name and
  waits on no bench, nobody waits on two benches or twice) and with no targets left over, a clan battle without food
  stays in order in every state that turns reach.  A turn is one of a living fighter who stands somewhere on the
  board, with a defined result; the code gives turns to those on the benches too, and of these nothing is
  said.  The combat is assumed not to move anyone, and \<^verbatim>\<open>std::sort\<close> to rearrange a list on which
  its comparator is a strict weak order.\<close>

theorem clan_keeps_order:
  assumes "(clan_step env duel_of sorter)\<^sup>*\<^sup>* g h" "keeps_places duel_of" "rearranges sorter"
    "\<And>l pl. \<not> ge_food env l pl" "orderly g" "vec_target g = []"
  shows "distinct (bench_fighters h) \<and>
    (\<forall>p b. in_bounds h p \<longrightarrow> fighter_at h p = Some (Some b) \<longrightarrow> my_pos h b = p \<and> b \<notin> set (bench_fighters h))"
proof -
  have "orderly h" using clan_reach_orderly [OF assms] by simp
  then show ?thesis by (simp add: orderly_def placed_def)
qed

theorem clan_keeps_order_witness:
  "\<exists>h. map_fighters h = [Some 0, None, None, None, None, None] \<and> clan_step plain_env lethal (\<lambda>ts. ts) duel h \<and>
     my_pos h 0 = Ascoord 0 0"
proof -
  obtain k where k: "clan_move plain_env lethal (\<lambda>ts. ts) (duel\<lparr>list_fighters := [0], current_bf := Some 0\<rparr>) = Some k"
    "map_fighters k = [Some 0, None, None, None, None, None]"
    using duel_turn by (auto split: option.splits)
  let ?h = "k\<lparr>act_count := 1, list_fighters := []\<rparr>"
  have s: "clan_step plain_env lethal (\<lambda>ts. ts) duel ?h"
    by (rule clan_turn [OF duel_may_act(2,1) _ duel_may_act(3) k(1)]) (simp add: my_pos_def soldier_def)
  have v: "vec_target duel = []" by (simp add: duel_def board_of_def new_ground_def)
  note r = clan_keeps_order [OF r_into_rtranclp [of "clan_step plain_env lethal (\<lambda>ts. ts)", OF s]
      lethal_keeps self_rearranges plain_no_food duel_orderly v]
  have "orderly ?h" using clan_step_orderly [OF s lethal_keeps self_rearranges plain_no_food duel_orderly v] by simp
  then have "wf_ground ?h" by (simp add: orderly_def placed_def)
  then have "unat (g_x k) * unat (g_y k) = 6" using k(2) by (simp add: wf_ground_def)
  then have "unat (g_x k) \<noteq> 0" "unat (g_y k) \<noteq> 0" by (metis mult_is_0 zero_neq_numeral)+
  then have "in_bounds ?h (Ascoord 0 0)" by (simp add: in_bounds_def word_less_nat_alt)
  moreover have "fighter_at ?h (Ascoord 0 0) = Some (Some 0)" using k(2) by (simp add: fighter_at_def cell_index_def)
  ultimately have "my_pos ?h 0 = Ascoord 0 0" using r by blast
  then show ?thesis using s k(2) by (intro exI [of _ ?h]) simp
qed

end
