(* ===== verification/ClanRound.thy ===== *)
theory ClanRound
  imports ClanBattle
begin

text \<open>
  Who comes back, and that a round ends: the benches as queues, what \<^verbatim>\<open>Relive\<close> does at a point of revival that
  is taken, and the count of rations that bounds the loop of \<^verbatim>\<open>FightOneRound\<close>.
\<close>

section \<open>Coming back\<close>

lemma min_relive_frame:
  "get_min_num_relive env (g\<lparr>camp2fighters := m\<rparr>) k a = get_min_num_relive env g k a"
proof -
  have "min_relive (g\<lparr>camp2fighters := m\<rparr>) ps n a = min_relive g ps n a" for ps n a
    by (induction ps arbitrary: n a) (simp_all add: get_bench_info_def cong: if_cong option.case_cong)
  moreover have "get_all_relive_point env (g\<lparr>camp2fighters := m\<rparr>) k = get_all_relive_point env g k"
    by (cases "ge_map env (map_id g)") (simp_all add: get_all_relive_point_def camp_at_def cell_index_def cong: if_cong)
  ultimately show ?thesis by (simp add: get_min_num_relive_def)
qed

text \<open>Who waits at a point, in order.\<close>

definition queue_at :: "battle_ground \<Rightarrow> ascoord \<Rightarrow> nat list" where
  "queue_at g p = (case get_bench_info g (acx p) (acy p) of None \<Rightarrow> [] | Some e \<Rightarrow> bi_listFighter e)"

lemma find_update_first:
  assumes "\<And>e. P e \<Longrightarrow> P (f e)" "\<And>e. Q e \<Longrightarrow> P e \<Longrightarrow> False"
  shows "find P (update_first P f xs) = map_option f (find P xs)"
    "\<lbrakk>\<And>e. P e \<Longrightarrow> \<not> Q (f e)\<rbrakk> \<Longrightarrow> find Q (update_first P f xs) = find Q xs"
  using assms by (induction xs) auto

lemma find_append_one: "find P (xs @ [e]) = (case find P xs of None \<Rightarrow> if P e then Some e else None | s \<Rightarrow> s)"
  by (induction xs) (auto split: option.splits)

lemma queue_update:
  assumes "\<And>e. bi_x (f e) = bi_x e \<and> bi_y (f e) = bi_y e \<and> bi_listFighter (f e) = F (bi_listFighter e)"
    "list_bench h = update_first (\<lambda>e. bi_x e = acx a \<and> bi_y e = acy a) f (list_bench g)"
    "get_bench_info g (acx a) (acy a) = None \<Longrightarrow> F [] = []"
  shows "queue_at h p = (if p = a then F (queue_at g a) else queue_at g p)"
proof (cases "p = a")
  case True
  have "find (\<lambda>e. bi_x e = acx a \<and> bi_y e = acy a) (list_bench h) =
      map_option f (find (\<lambda>e. bi_x e = acx a \<and> bi_y e = acy a) (list_bench g))"
    unfolding assms(2) by (rule find_update_first(1) [where Q = "\<lambda>_. False"]) (simp_all add: assms(1))
  then show ?thesis using True assms(1,3) by (simp add: queue_at_def get_bench_info_def split: option.splits)
next
  case False
  have "find (\<lambda>e. bi_x e = acx p \<and> bi_y e = acy p) (list_bench h) =
      find (\<lambda>e. bi_x e = acx p \<and> bi_y e = acy p) (list_bench g)"
    unfolding assms(2)
    by (rule find_update_first(2)) (use False assms(1) in \<open>auto simp: ascoord.expand\<close>)
  then show ?thesis using False by (simp add: queue_at_def get_bench_info_def)
qed

lemma queue_put:
  "queue_at (bench_put (acx a) (acy a) n g) p = (if p = a then queue_at g a @ [n] else queue_at g p)"
proof (cases "get_bench_info g (acx a) (acy a)")
  case None
  let ?e = "\<lparr>bi_x = acx a, bi_y = acy a, bi_listFighter = [n]\<rparr>"
  have b: "bench_put (acx a) (acy a) n g = g\<lparr>list_bench := list_bench g @ [?e]\<rparr>"
    using None by (simp add: bench_put_def bench_InsertFighter_def)
  show ?thesis
  proof (cases "p = a")
    case True
    then show ?thesis using None unfolding b by (simp add: queue_at_def get_bench_info_def find_append_one)
  next
    case False
    then have "\<not> (acx a = acx p \<and> acy a = acy p)" by (auto simp: ascoord.expand)
    then show ?thesis using False unfolding b
      by (auto simp: queue_at_def get_bench_info_def find_append_one split: option.splits)
  qed
next
  case (Some e)
  have "queue_at (bench_put (acx a) (acy a) n g) p =
      (if p = a then (if get_bench_info g (acx a) (acy a) = None then queue_at g a else queue_at g a @ [n]) else queue_at g p)"
    by (rule queue_update [where f = "\<lambda>e. bench_InsertFighter e n"])
       (simp_all add: Some bench_put_def bench_InsertFighter_def)
  then show ?thesis using Some by simp
qed

lemma queue_pop:
  "queue_at (pop_bench (acx a) (acy a) g) p = (if p = a then tl (queue_at g a) else queue_at g p)"
  by (rule queue_update [where f = bench_PopFrontFighter])
     (simp_all add: pop_bench_def bench_PopFrontFighter_def split: list.splits)

lemma front_queue:
  "Option.bind (get_bench_info g (acx a) (acy a)) bench_GetFrontFighter =
     (case queue_at g a of [] \<Rightarrow> None | f # _ \<Rightarrow> Some f)"
  by (simp add: queue_at_def bench_GetFrontFighter_def split: option.splits)

lemma queue_bench: "set (queue_at g a) \<subseteq> set (bench_fighters g)"
proof (cases "get_bench_info g (acx a) (acy a)")
  case (Some e)
  then have "e \<in> set (list_bench g)" using find_in_set unfolding get_bench_info_def by fast
  then show ?thesis using Some by (auto simp: queue_at_def bench_fighters_def)
qed (simp add: queue_at_def)

lemma queue_same: "list_bench h = list_bench g \<Longrightarrow> queue_at h p = queue_at g p"
  by (simp add: queue_at_def get_bench_info_def)

lemma restore_life_reads [simp]:
  "list_bench (restore_life b s g) = list_bench g" "map_fighters (restore_life b s g) = map_fighters g"
  "g_x (restore_life b s g) = g_x g" "g_y (restore_life b s g) = g_y g" "my_pos (restore_life b s g) = my_pos g"
  "bf_index (heap (restore_life b s g) k) = bf_index (heap g k)" "map_ground (restore_life b s g) = map_ground g"
  "map_camp (restore_life b s g) = map_camp g"
  by (auto simp: restore_life_def my_pos_def Let_def fun_eq_iff split: option.splits)

lemma is_relive_same: "map_id h = map_id g \<Longrightarrow> g_x h = g_x g \<Longrightarrow> is_relive_point env h = is_relive_point env g"
proof (intro ext)
  fix x y assume "map_id h = map_id g" "g_x h = g_x g"
  then show "is_relive_point env h x y = is_relive_point env g x y"
    by (cases "ge_map env (map_id g)") (simp_all add: is_relive_point_def cell_index_def)
qed

text \<open>A new fighter at a point of revival that is taken goes to its bench.\<close>

lemma new_fighter_taken:
  assumes "in_bounds g a" "is_relive_point env g (acx a) (acy a) = Some True" "fighter_at g a = Some (Some v)"
    "ge_create env fgt (acx a) (acy a) = Some bf"
  shows "\<exists>h. new_fighter env (acx a) (acy a) fgt False g = Some (Some (next_bf g), h) \<and>
    map_fighters h = map_fighters g \<and> g_x h = g_x g \<and> g_y h = g_y g \<and>
    (\<forall>p. queue_at h p = (if p = a then queue_at g a @ [next_bf g] else queue_at g p)) \<and>
    (\<forall>k. k \<noteq> next_bf g \<longrightarrow> my_pos h k = my_pos g k) \<and> my_pos h (next_bf g) = Ascoord (bf_x bf) (bf_y bf)"
proof -
  let ?b = "next_bf g"
  let ?g1 = "g\<lparr>heap := (heap g)(?b := bf), next_bf := Suc ?b\<rparr>"
  let ?g2 = "bench_put (acx a) (acy a) ?b ?g1"
  have r: "is_relive_point env ?g1 (acx a) (acy a) = Some True" "fighter_at ?g1 a = Some (Some v)"
    using assms(2,3) is_relive_same [of ?g1 g] by (simp_all add: fighter_at_def cell_index_def)
  have s: "set_object env (acx a) (acy a) ?b True ?g1 = Some ?g2"
    using assms(1) r by (auto simp: set_object_def in_bounds_def not_le)
  have p: "map_fighters ?g2 = map_fighters g" "g_x ?g2 = g_x g" "g_y ?g2 = g_y g" "heap ?g2 = heap ?g1"
    by (simp_all add: bench_put_def split: option.splits)
  have q: "queue_at ?g2 p = (if p = a then queue_at g a @ [?b] else queue_at g p)" for p
    unfolding queue_put using queue_same [of ?g1 g] by simp
  let ?g3 = "?g2\<lparr>heap := (heap ?g2)(?b := (heap ?g2 ?b)\<lparr>bf_enter := Ascoord (acx a) (acy a)\<rparr>)\<rparr>"
  obtain sv where n: "new_fighter env (acx a) (acy a) fgt False g = Some (Some ?b, restore_life ?b sv ?g3)"
    using s by (simp add: new_fighter_def assms(4) Let_def)
  have "my_pos ?g3 k = (if k = ?b then Ascoord (bf_x bf) (bf_y bf) else my_pos g k)" for k
    using p(4) by (simp add: my_pos_def)
  moreover have "queue_at (restore_life ?b sv ?g3) r = queue_at ?g2 r" for r by (rule queue_same) simp
  ultimately show ?thesis using p(1-3) q n by (intro exI [of _ "restore_life ?b sv ?g3"]) simp
qed

lemma take_seat_Some:
  assumes "queue_at h a = f # rest" "map_fighters h = map_fighters g" "g_x h = g_x g" "g_y h = g_y g"
    "cell_index g p < length (map_fighters g)" "cell_index g a < length (map_fighters g)"
  shows "\<exists>k. take_seat p a force h = Some (f, k) \<and>
    map_fighters k = (map_fighters g)[cell_index g p := None, cell_index g a := Some f] \<and>
    g_x k = g_x g \<and> g_y k = g_y g \<and> list_bench k = list_bench (pop_bench (acx a) (acy a) h)"
proof -
  let ?h = "pop_bench (acx a) (acy a) h"
  have "Option.bind (get_bench_info h (acx a) (acy a)) bench_GetFrontFighter = Some f"
    unfolding front_queue assms(1) by simp
  moreover have "map_fighters ?h = map_fighters g" "g_x ?h = g_x g" "g_y ?h = g_y g"
    using assms(2-4) by (simp_all add: pop_bench_def)
  moreover from this(2) have "cell_index ?h = cell_index g" by (intro ext) (simp only: cell_index_def)
  ultimately show ?thesis using assms(5,6) by (simp add: take_seat_def Let_def put_pack_def del: pop_bench_reads)
qed

text \<open>The revival of a fighter at a point that is taken and has no bench yet.\<close>

lemma relive_taken:
  fixes g b a defines "m \<equiv> omap_put (bf_side (heap g b)) (removeAll b (camp_list g (bf_side (heap g b)))) (camp2fighters g)"
  assumes "placed g" "in_bounds g (my_pos g b)" "in_bounds g a" "acx a \<noteq> 255" "acy a \<noteq> 255"
    "get_min_num_relive env g (bf_side (heap g b)) (Ascoord 255 255) = Some a"
    "is_relive_point env g (acx a) (acy a) = Some True" "fighter_at g a = Some (Some v)" "queue_at g a = []"
    "bf_owner (heap g b) = Some pl" "ge_find env pl (bf_id (heap g b)) = Some fgt"
    "ge_create env fgt (acx a) (acy a) = Some bf"
  shows "\<exists>h. relive env b g = Some (next_bf g, h) \<and> in_bounds h = in_bounds g \<and>
    (\<forall>r. in_bounds g r \<longrightarrow> fighter_at h r =
       (if r = a then Some (Some (next_bf g)) else if r = my_pos g b then Some None else fighter_at g r)) \<and>
    queue_at h a = [next_bf g]"
proof -
  let ?n = "next_bf g" and ?p = "my_pos g b"
  let ?g1 = "g\<lparr>camp2fighters := m\<rparr>"
  have wf: "wf_ground g" using assms(2) by (simp add: placed_def)
  have g1: "in_bounds ?g1 a" "is_relive_point env ?g1 (acx a) (acy a) = Some True" "fighter_at ?g1 a = Some (Some v)"
    "get_min_num_relive env ?g1 (bf_side (heap g b)) (Ascoord 255 255) = Some a" "next_bf ?g1 = ?n" "queue_at ?g1 a = []"
    using assms(4,7-10) min_relive_frame [of env m g] queue_same [of ?g1 g] is_relive_same [of ?g1 g]
    by (simp_all add: in_bounds_def fighter_at_def cell_index_def)
  obtain k where k: "new_fighter env (acx a) (acy a) fgt False ?g1 = Some (Some ?n, k)"
    "map_fighters k = map_fighters g" "g_x k = g_x g" "g_y k = g_y g" "queue_at k a = [?n]"
    using new_fighter_taken [OF g1(1-3) assms(13)] g1(5,6) by auto
  let ?g2 = "k\<lparr>heap := (heap k)(?n := (heap k ?n)\<lparr>bf_index := bf_index (heap k b)\<rparr>)\<rparr>"
  let ?g2' = "note_calls [PutFighter (map_id ?g2) (bf_owner (heap ?g2 ?n)) (bf_id (heap ?g2 ?n)) (acx a) (acy a)] ?g2"
  let ?g3 = "bench_put (acx a) (acy a) ?n ?g2'"
  obtain g3 where g3: "g3 = ?g3" by simp
  have q3: "queue_at g3 a = [?n, ?n]"
    unfolding g3 queue_put using k(5) queue_same [of ?g2' k] by (simp add: note_calls_def)
  have q4: "queue_at (pop_bench (acx a) (acy a) g3) a = [?n]" unfolding queue_pop q3 by simp
  have r3: "map_fighters g3 = map_fighters g" "g_x g3 = g_x g" "g_y g3 = g_y g"
    using k(2-4) by (simp_all add: g3 bench_put_def note_calls_def split: option.splits)
  obtain h where h: "take_seat ?p a (bf_side (heap g b)) g3 = Some (?n, h)"
    "map_fighters h = (map_fighters g)[cell_index g ?p := None, cell_index g a := Some ?n]"
    "g_x h = g_x g" "g_y h = g_y g" "list_bench h = list_bench (pop_bench (acx a) (acy a) g3)"
    using take_seat_Some [OF q3 r3 cell_index_less(3) [OF wf assms(3)] cell_index_less(3) [OF wf assms(4)]] by blast
  have rel: "relive env b g = Some (?n, h)"
    using g1(4) k(1) assms(5,6,11,12) h(1) by (simp add: relive_def Let_def m_def [symmetric] g3)
  have "in_bounds h = in_bounds g" using h(3,4) by (simp add: in_bounds_def fun_eq_iff)
  moreover have "fighter_at h r = (if r = a then Some (Some ?n) else if r = ?p then Some None else fighter_at g r)"
    if "in_bounds g r" for r
  proof -
    have i: "cell_index h r = cell_index g r" using h(3) by (simp add: cell_index_def)
    have l: "cell_index g r < length (map_fighters g)" using cell_index_less(3) [OF wf that] .
    have "nth_opt ((map_fighters g)[cell_index g ?p := None, cell_index g a := Some ?n]) (cell_index g r) =
        (if cell_index g r = cell_index g a then Some (Some ?n)
         else if cell_index g r = cell_index g ?p then Some None else nth_opt (map_fighters g) (cell_index g r))"
      using l by (simp add: nth_opt_update)
    moreover have "cell_index g r = cell_index g a \<longleftrightarrow> r = a" "cell_index g r = cell_index g ?p \<longleftrightarrow> r = ?p"
      using cell_index_inj [OF that assms(3)] cell_index_inj [OF that assms(4)] by blast+
    ultimately show ?thesis unfolding fighter_at_def i h(2) by (simp only:)
  qed
  moreover have "queue_at h a = [?n]" using queue_same [OF h(5)] q4 by simp
  ultimately show ?thesis using rel by blast
qed

lemma filter_opt_true: "filter_opt t xs = Some ys \<Longrightarrow> y \<in> set ys \<Longrightarrow> t y = Some True"
  by (induction xs arbitrary: ys) (auto simp: bind_eq_Some_conv split: if_splits)

lemma min_relive_mem: "min_relive g ps n a = a \<or> min_relive g ps n a \<in> set ps"
proof (induction ps arbitrary: n a)
  case (Cons p ps)
  show ?case
  proof (cases "get_bench_info g (acx p) (acy p)")
    case (Some e)
    then show ?thesis using Cons.IH [of "bench_GetFighterNum e" p] Cons.IH [of n a] by auto
  qed simp
qed simp

text \<open>A point of revival that is found lies on the board.\<close>

lemma get_min_num_relive_point:
  assumes "get_min_num_relive env g k a0 = Some a" "a \<noteq> a0"
  shows "in_bounds g a \<and> is_relive_point env g (acx a) (acy a) = Some True"
proof -
  let ?all = "concat (map (\<lambda>j. map (\<lambda>i. Ascoord i j) (bytes_below (g_x g))) (bytes_below (g_y g)))"
  obtain ps where ps: "get_all_relive_point env g k = Some ps" "a \<in> set ps"
    using assms min_relive_mem [of g _ 255 a0] by (fastforce simp: get_min_num_relive_def bind_eq_Some_conv)
  then obtain mi where mi: "ge_map env (map_id g) = Some mi" "mi_relive mi \<noteq> []"
    "filter_opt (\<lambda>p. do { r \<leftarrow> nth_opt (mi_relive mi) (cell_index g p);
       if r then map_option (\<lambda>k'. k' = k) (camp_at g (cell_index g p)) else Some False }) ?all = Some ps"
    by (auto simp: get_all_relive_point_def split: option.splits if_splits)
  have "a \<in> set ?all" using filter_opt_subset [OF mi(3)] ps(2) by blast
  then have "in_bounds g a" by (auto simp: in_bounds_def bytes_below_set)
  moreover have "nth_opt (mi_relive mi) (cell_index g a) = Some True"
    using filter_opt_true [OF mi(3) ps(2)] by (auto simp: bind_eq_Some_conv split: if_splits)
  ultimately show ?thesis using mi(1,2) by (simp add: is_relive_point_def)
qed

section \<open>A round ends when the food does\<close>

text \<open>The rations handed out in a history of calls.\<close>

definition meals :: "game_env \<Rightarrow> outcall list \<Rightarrow> nat" where
  "meals env cs =
     length (filter (\<lambda>i. case cs ! i of ConsumeCampaginFood pl _ \<Rightarrow> ge_food env (take i cs) pl | _ \<Rightarrow> False) [0 ..< length cs])"

lemma meals_snoc:
  "meals env (cs @ [c]) = meals env cs + (case c of ConsumeCampaginFood pl _ \<Rightarrow> if ge_food env cs pl then 1 else 0 | _ \<Rightarrow> 0)"
proof -
  have "filter (\<lambda>i. case (cs @ [c]) ! i of ConsumeCampaginFood pl _ \<Rightarrow> ge_food env (take i (cs @ [c])) pl | _ \<Rightarrow> False) [0 ..< length cs]
      = filter (\<lambda>i. case cs ! i of ConsumeCampaginFood pl _ \<Rightarrow> ge_food env (take i cs) pl | _ \<Rightarrow> False) [0 ..< length cs]"
    by (rule filter_cong) (simp_all add: nth_append cong: outcall.case_cong)
  then show ?thesis by (simp add: meals_def split: outcall.split)
qed

lemma meals_append: "meals env cs \<le> meals env (cs @ ds)"
proof (induction ds rule: rev_induct)
  case (snoc d ds)
  then show ?case using meals_snoc [of env "cs @ ds" d] by (simp del: append_assoc add: append_assoc [symmetric])
qed simp

text \<open>Nobody joins the list of those who still act without a ration.\<close>

definition fed :: "game_env \<Rightarrow> battle_ground \<Rightarrow> battle_ground \<Rightarrow> bool" where
  "fed env g h \<longleftrightarrow>
     length (list_fighters h) + meals env (calls g) \<le> length (list_fighters g) + meals env (calls h) \<and>
     length (list_fighters g) \<le> length (list_fighters h)"

named_theorems fed_steps

lemma fed_trans [trans]: "fed env g h \<Longrightarrow> fed env h k \<Longrightarrow> fed env g k"
  by (simp add: fed_def)

lemma fed_calls: "list_fighters h = list_fighters g \<Longrightarrow> calls h = calls g @ cs \<Longrightarrow> fed env g h"
  using meals_append [of env "calls g" cs] by (simp add: fed_def)

lemma fed_same [fed_steps]: "list_fighters h = list_fighters g \<Longrightarrow> calls h = calls g \<Longrightarrow> fed env g h"
  by (simp add: fed_def)

lemma fed_note [fed_steps]: "fed env g (note_calls cs g)"
  by (rule fed_calls [of _ _ cs]) (simp_all add: note_calls_def)

lemma quiet_steps [simp]:
  "list_fighters (put_pack bs g) = list_fighters g" "calls (put_pack bs g) = calls g"
  "list_fighters (insert_fighter_info env w b g) = list_fighters g" "calls (insert_fighter_info env w b g) = calls g"
  "list_fighters (spend_time n g) = list_fighters g" "calls (spend_time n g) = calls g"
  "list_fighters (set_ground_pos g c q) = list_fighters g" "calls (set_ground_pos g c q) = calls g"
  "list_fighters (pop_bench x y g) = list_fighters g" "calls (pop_bench x y g) = calls g"
  "list_fighters (report_move env c q d g) = list_fighters g" "calls (report_move env c q d g) = calls g"
  by (simp_all add: put_pack_def insert_fighter_info_def spend_time_def set_ground_pos_def pop_bench_def report_move_def)

lemma quiet_more [simp]:
  "list_fighters (count_win w c b g) = list_fighters g" "calls (count_win w c b g) = calls g"
  "list_fighters (bench_put x y b g) = list_fighters g" "calls (bench_put x y b g) = calls g"
  "list_fighters (restore_life b s g) = list_fighters g" "calls (restore_life b s g) = calls g"
  "list_fighters (snd (get_battle_index g x y)) = list_fighters g" "calls (snd (get_battle_index g x y)) = calls g"
  by (simp_all add: count_win_def bench_put_def restore_life_def get_battle_index_def Let_def split: option.splits)

lemma set_object_quiet:
  assumes "set_object env x y b f g = Some h"
  shows "list_fighters h = list_fighters g \<and> calls h = calls g"
proof -
  let ?g1 = "g\<lparr>map_fighters := (map_fighters g)[cell_index g (Ascoord x y) := Some b]\<rparr>"
  obtain n k where k: "get_battle_index ?g1 x y = (n, k)" by (cases "get_battle_index ?g1 x y")
  then have "list_fighters k = list_fighters g" "calls k = calls g" using quiet_more(7,8) [of ?g1 x y] by simp_all
  then have "h \<in> {g, bench_put x y b g, k\<lparr>heap := (heap k)(b := (heap k b)\<lparr>bf_index := ucast n\<rparr>)\<rparr>} \<Longrightarrow> ?thesis"
    by auto
  moreover have "h \<in> {g, bench_put x y b g, k\<lparr>heap := (heap k)(b := (heap k b)\<lparr>bf_index := ucast n\<rparr>)\<rparr>}"
    using assms k by (auto simp: set_object_def split: if_splits Option.bind_splits)
  ultimately show ?thesis by blast
qed

lemma new_fighter_quiet:
  "new_fighter env x y fgt f g = Some (n, h) \<Longrightarrow> list_fighters h = list_fighters g \<and> calls h = calls g"
  by (auto simp: new_fighter_def bind_eq_Some_conv Let_def dest!: set_object_quiet split: option.splits if_splits)

lemma take_seat_quiet:
  "take_seat p a k g = Some (f, h) \<Longrightarrow> list_fighters h = list_fighters g \<and> calls h = calls g"
  by (auto simp: take_seat_def bind_eq_Some_conv Let_def)

text \<open>Judging targets changes only what the search and the judges write, whatever the state.\<close>

lemma open_list_field: "same_field g (g\<lparr>open_list := os\<rparr>)"
  by (simp add: same_field_def target_state_def)

lemma judge_surround_field: "judge_surround g c q p v = Some (b, h) \<Longrightarrow> same_field g h"
  by (auto simp: judge_surround_def Let_def intro: open_list_field split: if_splits option.splits Option.bind_splits)

lemma judge_all_field: "judge_all g c p n qs = Some (b, h) \<Longrightarrow> same_field g h"
proof (induction qs arbitrary: g)
  case (Cons q qs)
  then obtain v r where r: "judge_surround g c q p v = Some r"
    "(if fst r then Some (True, snd r) else judge_all (snd r) c p n qs) = Some (b, h)"
    by (auto simp: bind_eq_Some_conv)
  have "same_field g (snd r)" using judge_surround_field [of g c q p v "fst r" "snd r"] r(1) by simp
  moreover have "same_field (snd r) h" using r(2) Cons.IH by (cases "fst r") auto
  ultimately show ?case by (rule same_field_trans)
qed simp

lemma expand_best_field: "expand_best g c n = Some (b, m, h) \<Longrightarrow> same_field g h"
proof -
  assume e: "expand_best g c n = Some (b, m, h)"
  obtain a n' g1 where p: "pop_best_step g n = (a, n', g1)" by (cases "pop_best_step g n")
  let ?ar = "check_up g1 (get_around (nd_node n'))"
  let ?g2 = "g1\<lparr>close_list := close_list g1 @ [n'], around_ascoord := check_up g (get_around (nd_node n'))\<rparr>"
  have "same_field g g1" using p by (auto simp: pop_best_step_def Let_def same_field_def target_state_def split: list.splits)
  moreover have "same_field g1 ?g2" by (simp add: same_field_def target_state_def)
  moreover have "same_field ?g2 h" using e p judge_all_field by (auto simp: expand_best_def Let_def bind_eq_Some_conv)
  ultimately show ?thesis by (blast intro: same_field_trans)
qed

lemma route_loop_field:
  assumes "route_loop g c n = Some r"
  shows "same_field g (snd r)"
  using assms
proof (rule route_loop.raw_induct [where P = "\<lambda>g c n r. same_field g (snd r)", rotated])
  fix f g c n r
  assume ih: "\<And>c n b y. f c n b = Some y \<Longrightarrow> same_field c (snd y)"
    and eq: "(if open_list g = [] then Some (False, g)
      else do { r \<leftarrow> expand_best g c n;
                if fst r then Some (True, snd (snd r)) else f (snd (snd r)) c (fst (snd r)) }) = Some r"
  show "same_field g (snd r)"
  proof (cases "open_list g = []")
    case False
    with eq obtain r' where r: "expand_best g c n = Some r'"
      "(if fst r' then Some (True, snd (snd r')) else f (snd (snd r')) c (fst (snd r'))) = Some r"
      by (auto simp: bind_eq_Some_conv)
    obtain b m h where r': "r' = (b, m, h)" by (cases r')
    have e: "expand_best g c n = Some (b, m, h)" "(if b then Some (True, h) else f h c m) = Some r"
      using r unfolding r' by (auto split: if_splits)
    have "same_field h (snd r)" using e(2) ih by (cases b) auto
    then show ?thesis using expand_best_field [OF e(1)] by (blast intro: same_field_trans)
  qed (use eq in auto)
qed

lemma find_path_field: "find_path g c e = Some (ps, h) \<Longrightarrow> same_field g h"
proof -
  assume "find_path g c e = Some (ps, h)"
  then obtain r where "compute_route (set_end g e) c = Some r" "h = snd r"
    by (auto simp: find_path_def bind_eq_Some_conv)
  then have "\<exists>n. route_loop ((set_end g e)\<lparr>open_list := [n], close_list := []\<rparr>) c n = Some r"
    by (auto simp: compute_route_def Let_def)
  then have "\<exists>n. same_field ((set_end g e)\<lparr>open_list := [n], close_list := []\<rparr>) h"
    using route_loop_field \<open>h = snd r\<close> by blast
  moreover have "same_field g ((set_end g e)\<lparr>open_list := [n], close_list := []\<rparr>)" for n
    by (simp add: same_field_def target_state_def set_end_def)
  ultimately show ?thesis by (blast intro: same_field_trans)
qed

lemma push_target_field: "push_target env g c p a n = Some h \<Longrightarrow> same_field g h"
  by (auto simp: push_target_def Let_def bind_eq_Some_conv same_field_def target_state_def)

lemma analyse_field: "analyse env g c ps t = Some h \<Longrightarrow> same_field g h"
  by (auto simp: analyse_def Let_def dest: push_target_field
      split: if_splits option.splits prod.splits Option.bind_splits)

lemma bow_analyse_field: "bow_analyse env g c ps t = Some h \<Longrightarrow> same_field g h"
  by (auto simp: bow_analyse_def Let_def dest: push_target_field
      split: if_splits option.splits prod.splits Option.bind_splits)

lemma foldm_field:
  assumes "foldm f g xs = Some h" "\<And>g x h. f g x = Some h \<Longrightarrow> same_field g h"
  shows "same_field g h"
  using assms(1)
proof (induction xs arbitrary: g)
  case (Cons x xs)
  then obtain k where "f g x = Some k" "foldm f k xs = Some h" by (auto simp: bind_eq_Some_conv)
  then show ?case using same_field_trans [OF assms(2) Cons.IH] by blast
qed simp

lemma shoot_field:
  "shoot_current_attack env g c t = Some h \<Longrightarrow> same_field g h"
  "shoot_front_attack env g c t = Some h \<Longrightarrow> same_field g h"
  "shoot_back_attack env g c t = Some h \<Longrightarrow> same_field g h"
proof -
  show c: "shoot_current_attack env g c t = Some h \<Longrightarrow> same_field g h"
    by (simp add: shoot_current_attack_def push_target_field)
  have s: "same_field g (set_start g p)" for p by (rule same_field_set_start) simp
  { assume "shoot_front_attack env g c t = Some h"
    then obtain ps k where "find_path (set_start g (my_pos g c)) c t = Some (ps, k)" "analyse env k c ps t = Some h"
      by (auto simp: shoot_front_attack_def bind_eq_Some_conv)
    then show "same_field g h" using s find_path_field analyse_field by (blast intro: same_field_trans) }
  assume "shoot_back_attack env g c t = Some h"
  then have "shoot_current_attack env g c t = Some h \<or>
      (\<exists>v. foldm (\<lambda>h (ai :: attack_info). do { r \<leftarrow> find_path h c (ai_attack ai); bow_analyse env (snd r) c (fst r) (ai_target ai) })
        (set_start g (my_pos g c)) v = Some h)"
    by (auto simp: shoot_back_attack_def split: if_splits Option.bind_splits)
  moreover have "same_field (set_start g (my_pos g c)) h" if
    "foldm (\<lambda>h (ai :: attack_info). do { r \<leftarrow> find_path h c (ai_attack ai); bow_analyse env (snd r) c (fst r) (ai_target ai) })
        (set_start g (my_pos g c)) v = Some h" for v
    by (rule foldm_field [OF that])
       (auto simp: bind_eq_Some_conv dest: find_path_field bow_analyse_field intro: same_field_trans)
  ultimately show "same_field g h" using c s by (blast intro: same_field_trans)
qed

lemma get_target_field: "get_target env g c x y = Some h \<Longrightarrow> same_field g h"
proof -
  assume "get_target env g c x y = Some h"
  then obtain es where "h = g \<or> bow_get_target env g c x y es = Some h \<or>
      foldm (\<lambda>h e. do { r \<leftarrow> find_path h c e; analyse env (snd r) c (fst r) e }) (set_start g (Ascoord x y)) es = Some h"
    by (auto simp: get_target_def bind_eq_Some_conv split: if_splits)
  moreover have "same_field g h" if "bow_get_target env g c x y es = Some h"
    using that unfolding bow_get_target_def
    by (rule foldm_field) (auto simp: attack_in_style_def Let_def bind_eq_Some_conv dest: shoot_field split: if_splits)
  moreover have "same_field (set_start g (Ascoord x y)) h" if
    "foldm (\<lambda>h e. do { r \<leftarrow> find_path h c e; analyse env (snd r) c (fst r) e }) (set_start g (Ascoord x y)) es = Some h"
    by (rule foldm_field [OF that])
       (auto simp: bind_eq_Some_conv dest: find_path_field analyse_field intro: same_field_trans)
  moreover have "same_field g (set_start g (Ascoord x y))" by (rule same_field_set_start) simp
  ultimately show ?thesis by (blast intro: same_field_trans)
qed

lemma get_move_position_field: "get_move_position g c m = Some (p, h) \<Longrightarrow> same_field g h"
proof -
  assume "get_move_position g c m = Some (p, h)"
  then have "h = g \<or> (\<exists>e ps. find_path (set_start g (my_pos g c)) c e = Some (ps, h))"
    by (auto simp: get_move_position_def split: list.splits Option.bind_splits)
  moreover have "same_field g (set_start g (my_pos g c))" by (rule same_field_set_start) simp
  ultimately show ?thesis using find_path_field by (blast intro: same_field_trans)
qed

lemma field_fed [fed_steps]: "same_field g h \<Longrightarrow> fed env g h"
  by (rule fed_same) (auto simp: same_field_iff target_state_def)

lemma tell_move_fed: "tell_move env c p q g = Some h \<Longrightarrow> fed env g h"
  by (auto simp: tell_move_def Let_def sync_hp_def intro: fed_steps fed_trans [OF fed_note fed_note]
      split: option.splits if_splits Option.bind_splits)

lemma refill_fed: "refill env p g = Some h \<Longrightarrow> fed env g h"
  by (auto simp: refill_def intro!: fed_same split: option.splits if_splits Option.bind_splits)

lemma clan_leave_fed:
  assumes "clan_leave env c p q g = Some h" shows "fed env g h"
proof -
  obtain fs g1 fs1 where s: "refill env p (g\<lparr>map_fighters := fs\<rparr>) = Some g1"
    "tell_move env c p q (g1\<lparr>map_fighters := fs1\<rparr>) = Some h"
    using assms by (auto simp: clan_leave_def bind_eq_Some_conv)
  have "fed env g (g\<lparr>map_fighters := fs\<rparr>)" "fed env g1 (g1\<lparr>map_fighters := fs1\<rparr>)" by (simp_all add: fed_same)
  then show ?thesis using refill_fed [OF s(1)] tell_move_fed [OF s(2)] by (blast intro: fed_trans)
qed

lemma combat_fed: "combat env duel_of c t d g = Some h \<Longrightarrow> fed env g h"
  by (rule fed_same) (auto simp: combat_def Let_def bind_eq_Some_conv)

lemma relive_fed:
  assumes "relive env b g = Some (n, h)" shows "fed env g h"
proof -
  let ?m = "omap_put (bf_side (heap g b)) (removeAll b (camp_list g (bf_side (heap g b)))) (camp2fighters g)"
  consider "h = g\<lparr>camp2fighters := ?m\<rparr>" |
    x y fgt k j p a s cs where "new_fighter env x y fgt False (g\<lparr>camp2fighters := ?m\<rparr>) = Some (Some j, k)"
      "take_seat p a s (bench_put x y j (note_calls cs (k\<lparr>heap := (heap k)(j := (heap k j)\<lparr>bf_index := bf_index (heap k b)\<rparr>)\<rparr>))) = Some (n, h)"
    using assms by (auto simp: relive_def Let_def split: if_splits Option.bind_splits)
  then show ?thesis
  proof cases
    case 1
    then show ?thesis by (simp add: fed_same)
  next
    case 2
    have "list_fighters h = list_fighters g" "calls h = calls g @ cs"
      using new_fighter_quiet [OF 2(1)] take_seat_quiet [OF 2(2)] by (simp_all add: note_calls_def)
    then show ?thesis by (rule fed_calls)
  qed
qed

lemma fed_ration:
  assumes "ge_food env (calls g) pl"
  shows "Suc (meals env (calls g)) \<le> meals env (calls (note_calls [ConsumeCampaginFood pl n] g))"
  using assms meals_snoc [of env "calls g" "ConsumeCampaginFood pl n"] by (simp add: note_calls_def)

lemma fallen_fed:
  assumes "fallen env b v g = Some (n, h)" shows "fed env g h"
proof (cases "bf_owner (heap g b)")
  case None
  then show ?thesis using assms by (auto simp: fallen_def Let_def bind_eq_Some_conv intro: fed_steps)
next
  case (Some pl)
  let ?g1 = "note_calls [SetBattleStatus (bf_fighter (heap g b)) 2] g"
  let ?g2 = "note_calls [ConsumeCampaginFood pl 100] ?g1"
  obtain k cs ds where k: "(if ge_food env (calls ?g1) pl
       then do { s \<leftarrow> relive env b ?g2;
                 Some (fst s, note_calls [SetBattleStatus (bf_fighter (heap (snd s) (fst s))) 0]
                        ((snd s)\<lparr>list_fighters := list_fighters (snd s) @ [fst s]\<rparr>)) }
       else Some (b, ?g2)) = Some (n, k)" "h = note_calls ds (note_calls cs k)"
    using assms Some by (auto simp: fallen_def Let_def bind_eq_Some_conv simp del: if_split)
  have kh: "fed env k h" unfolding k(2) by (rule fed_trans [OF fed_note fed_note])
  show ?thesis
  proof (cases "ge_food env (calls ?g1) pl")
    case False
    then have "k = ?g2" using k(1) by auto
    then show ?thesis using fed_trans [OF fed_trans [OF fed_note fed_note]] kh by blast
  next
    case True
    then obtain s where s: "relive env b ?g2 = Some s"
      "k = note_calls [SetBattleStatus (bf_fighter (heap (snd s) (fst s))) 0]
             ((snd s)\<lparr>list_fighters := list_fighters (snd s) @ [fst s]\<rparr>)"
      using k(1) by (auto simp: bind_eq_Some_conv)
    have "fed env ?g2 (snd s)" using relive_fed s(1) by (metis prod.collapse)
    moreover have "Suc (meals env (calls ?g1)) \<le> meals env (calls ?g2)" by (rule fed_ration [OF True])
    moreover have "fed env ((snd s)\<lparr>list_fighters := list_fighters (snd s) @ [fst s]\<rparr>) k" unfolding s(2) by (rule fed_note)
    moreover have "fed env g ?g1" by (rule fed_note)
    moreover have "list_fighters ?g2 = list_fighters ?g1" by (simp add: note_calls_def)
    ultimately have "fed env g k" by (simp add: fed_def)
    then show ?thesis using kh by (rule fed_trans)
  qed
qed

lemma survivor_fed: "sync_survivor env b g = Some h \<Longrightarrow> fed env g h"
  by (auto simp: sync_survivor_def Let_def bind_eq_Some_conv sync_hp_def intro: fed_steps)

lemma settle_fed:
  "settle_attacker env c b g = Some (n, h) \<Longrightarrow> fed env g h"
  "settle_target env b c g = Some h \<Longrightarrow> fed env g h"
proof -
  have c: "fed env k (k\<lparr>current_bf := cb\<rparr>)" "fed env k (k\<lparr>map_fighters := fs\<rparr>)" for k cb fs by (simp_all add: fed_same)
  { assume "settle_attacker env c b g = Some (n, h)"
    then show "fed env g h"
      by (auto simp: settle_attacker_def bind_eq_Some_conv dest: fallen_fed survivor_fed
          intro: fed_trans [OF _ c(1)] split: if_splits) }
  assume "settle_target env b c g = Some h"
  then show "fed env g h"
    by (auto simp: settle_target_def bind_eq_Some_conv dest: fallen_fed survivor_fed
        intro: fed_trans [OF c(2)] split: if_splits)
qed

lemma count_kills_fed: "fed env g (count_kills b g)"
  by (auto simp: count_kills_def Let_def intro: fed_steps split: option.splits)

lemma clan_move_fed:
  assumes "clan_move env duel_of sorter g = Some k" shows "fed env g k"
proof (cases "current_bf g")
  case None
  then show ?thesis using assms by (simp add: clan_move_def fed_def)
next
  case (Some c)
  then obtain h k' where k: "get_target env g c (bf_x (heap g c)) (bf_y (heap g c)) = Some h"
    "(if vec_target h = [] then clan_walk env h c
      else do { ts \<leftarrow> std_sort sorter more_fit (vec_target h);
                case ts of [] \<Rightarrow> None | t # _ \<Rightarrow> clan_attack env duel_of h c t }) = Some k'" "k = k'\<lparr>vec_target := []\<rparr>"
    using assms by (auto simp: clan_move_def bind_eq_Some_conv)
  have "\<exists>t. clan_walk env h c = Some k' \<or> clan_attack env duel_of h c t = Some k'"
  proof (cases "vec_target h = []")
    case False
    then obtain ts where "(case ts of [] \<Rightarrow> None | t # _ \<Rightarrow> clan_attack env duel_of h c t) = Some k'"
      using k(2) by (auto simp: bind_eq_Some_conv)
    then show ?thesis by (cases ts) auto
  qed (use k(2) in simp)
  then obtain t where h: "get_target env g c (bf_x (heap g c)) (bf_y (heap g c)) = Some h"
    "clan_walk env h c = Some k' \<or> clan_attack env duel_of h c t = Some k'" "k = k'\<lparr>vec_target := []\<rparr>"
    using k(1,3) by blast
  have "fed env h k'" if w: "clan_walk env h c = Some k'"
  proof -
    have "\<exists>m j i. get_move_position h c (Ascoord 255 255) = Some (m, j) \<and>
        (i = j \<or> clan_leave env c (my_pos h c) m j = Some i) \<and> list_fighters k' = list_fighters i \<and> calls k' = calls i"
      using w by (auto simp: clan_walk_def Let_def split: if_splits Option.bind_splits)
    then obtain m j i where j: "get_move_position h c (Ascoord 255 255) = Some (m, j)"
      "i = j \<or> clan_leave env c (my_pos h c) m j = Some i" "list_fighters k' = list_fighters i" "calls k' = calls i" by blast
    have "fed env j i" using j(2) clan_leave_fed by (auto intro: fed_steps)
    moreover have "fed env i k'" using j(3,4) by (rule fed_same)
    moreover have "fed env h j" by (rule field_fed [OF get_move_position_field [OF j(1)]])
    ultimately show ?thesis by (blast intro: fed_trans)
  qed
  moreover have "fed env h k'" if a: "clan_attack env duel_of h c t = Some k'"
  proof -
    obtain h1 h2 d n h3 where s:
      "(if ti_attack t \<noteq> my_pos h c then clan_leave env c (my_pos h c) (ti_attack t) h else Some h) = Some h1"
      "combat env duel_of c t d (set_ground_pos h1 c (ti_attack t)) = Some h2"
      "settle_attacker env c (ti_bo t) (count_kills (ti_bo t) (count_kills c h2)) = Some (n, h3)"
      "settle_target env (ti_bo t) n h3 = Some k'"
      using a by (auto simp: clan_attack_def Let_def bind_eq_Some_conv)
    have "fed env h h1" using s(1) clan_leave_fed by (auto intro: fed_steps split: if_splits)
    also have "fed env h1 (set_ground_pos h1 c (ti_attack t))" by (simp add: fed_same)
    also have "fed env \<dots> h2" by (rule combat_fed [OF s(2)])
    also have "fed env h2 (count_kills (ti_bo t) (count_kills c h2))" by (rule fed_trans [OF count_kills_fed count_kills_fed])
    also have "fed env \<dots> h3" by (rule settle_fed(1) [OF s(3)])
    also have "fed env h3 k'" by (rule settle_fed(2) [OF s(4)])
    finally show ?thesis .
  qed
  ultimately have "fed env h k'" using h(2) by blast
  moreover have "fed env k' k" unfolding h(3) by (simp add: fed_same)
  moreover have "fed env g h" by (rule field_fed [OF get_target_field [OF h(1)]])
  ultimately show ?thesis by (blast intro: fed_trans)
qed

text \<open>One turn of the loop over the list.\<close>

inductive list_turn ::
  "game_env \<Rightarrow> duel_fun \<Rightarrow> (target_info list \<Rightarrow> target_info list) \<Rightarrow> battle_ground \<Rightarrow> battle_ground \<Rightarrow> bool"
  for env duel_of sorter where
  one: "dropWhile (\<lambda>b. bf_hp (heap g b) \<le> 0) (list_fighters g) = b # bs \<Longrightarrow>
     clan_move env duel_of sorter (g\<lparr>list_fighters := b # bs, current_bf := Some b\<rparr>) = Some h \<Longrightarrow>
     list_turn env duel_of sorter g
       (h\<lparr>act_count := act_count h + 1, list_fighters := by_act_id h (tl (list_fighters h))\<rparr>)"

inductive_cases list_turnE: "list_turn env duel_of sorter g h"

lemma list_turn_less:
  assumes "list_turn env duel_of sorter g h"
  shows "length (list_fighters h) + meals env (calls g) < length (list_fighters g) + meals env (calls h)"
proof (rule list_turnE [OF assms])
  fix b bs k
  let ?g = "g\<lparr>list_fighters := b # bs, current_bf := Some b\<rparr>"
  assume 1: "h = k\<lparr>act_count := act_count k + 1, list_fighters := by_act_id k (tl (list_fighters k))\<rparr>"
    "dropWhile (\<lambda>b. bf_hp (heap g b) \<le> 0) (list_fighters g) = b # bs" "clan_move env duel_of sorter ?g = Some k"
  have "length (by_act_id k (tl (list_fighters k))) = length (list_fighters k) - 1"
    using arg_cong [OF by_act_id_perm [of k "tl (list_fighters k)"], of size] by simp
  moreover have "length (b # bs) \<le> length (list_fighters g)" using length_dropWhile_le 1(2) by metis
  ultimately show ?thesis using clan_move_fed [OF 1(3)] 1(1) by (auto simp: fed_def)
qed

lemma list_turns_bound:
  "(list_turn env duel_of sorter ^^ n) g h \<Longrightarrow>
     n + length (list_fighters h) + meals env (calls g) \<le> length (list_fighters g) + meals env (calls h)"
proof (induction n arbitrary: h)
  case (Suc n)
  then obtain k where "(list_turn env duel_of sorter ^^ n) g k" "list_turn env duel_of sorter k h" by auto
  then show ?case using Suc.IH [of k] list_turn_less [of env duel_of sorter k h] by simp
qed simp

text \<open>What the loop comes to: the end of the list, or a turn that has no result.\<close>

definition turns_end ::
  "game_env \<Rightarrow> duel_fun \<Rightarrow> (target_info list \<Rightarrow> target_info list) \<Rightarrow> battle_ground \<Rightarrow> battle_ground \<Rightarrow> bool" where
  "turns_end env duel_of sorter g h \<longleftrightarrow>
     (case dropWhile (\<lambda>b. bf_hp (heap h b) \<le> 0) (list_fighters h) of
        [] \<Rightarrow> clan_turns env duel_of sorter g = Some (h\<lparr>list_fighters := []\<rparr>)
      | b # bs \<Rightarrow> clan_turns env duel_of sorter g = None \<and>
          clan_move env duel_of sorter (h\<lparr>list_fighters := b # bs, current_bf := Some b\<rparr>) = None)"

lemma clan_turns_ends:
  assumes "\<And>cs. meals env cs \<le> N"
  shows "\<exists>h. (list_turn env duel_of sorter)\<^sup>*\<^sup>* g h \<and> turns_end env duel_of sorter g h"
proof (induction "length (list_fighters g) + (N - meals env (calls g))" arbitrary: g rule: less_induct)
  case less
  show ?case
  proof (cases "dropWhile (\<lambda>b. bf_hp (heap g b) \<le> 0) (list_fighters g)")
    case Nil
    then have "clan_turns env duel_of sorter g = Some (g\<lparr>list_fighters := []\<rparr>)"
      unfolding clan_turns.simps [of env duel_of sorter g] Nil by simp
    then have "turns_end env duel_of sorter g g" unfolding turns_end_def Nil by simp
    then show ?thesis by blast
  next
    case (Cons b bs)
    show ?thesis
    proof (cases "clan_move env duel_of sorter (g\<lparr>list_fighters := b # bs, current_bf := Some b\<rparr>)")
      case None
      then have "clan_turns env duel_of sorter g = None"
        unfolding clan_turns.simps [of env duel_of sorter g] Cons by simp
      then have "turns_end env duel_of sorter g g" unfolding turns_end_def Cons using None by simp
      then show ?thesis by blast
    next
      case k: (Some k)
      let ?h = "k\<lparr>act_count := act_count k + 1, list_fighters := by_act_id k (tl (list_fighters k))\<rparr>"
      have t: "list_turn env duel_of sorter g ?h" by (rule one [OF Cons k])
      have "length (list_fighters ?h) + (N - meals env (calls ?h)) < length (list_fighters g) + (N - meals env (calls g))"
        using list_turn_less [OF t] assms [of "calls ?h"] by simp
      then obtain h where h: "(list_turn env duel_of sorter)\<^sup>*\<^sup>* ?h h" "turns_end env duel_of sorter ?h h"
        using less.hyps [of ?h] by blast
      have "clan_turns env duel_of sorter g = clan_turns env duel_of sorter ?h"
        using Cons k by (simp add: clan_turns.simps [of env duel_of sorter g])
      then have "turns_end env duel_of sorter g h" using h(2) unfolding turns_end_def by (simp only:)
      then show ?thesis using converse_rtranclp_into_rtranclp [of "list_turn env duel_of sorter", OF t h(1)] by blast
    qed
  qed
qed

section \<open>Examples\<close>

lemma plain_no_meals: "meals plain_env cs = 0"
  by (auto simp: meals_def plain_no_food filter_empty_conv split: outcall.splits)

text \<open>The same board with a point of revival of side 1 at (1,0), where the fighter of side 2 stands, and a player 7 who
  owns fighter 0.\<close>

definition revival_env :: game_env where
  "revival_env = plain_env\<lparr>ge_map := (\<lambda>_. Some \<lparr>mi_width = 3, mi_height = 2, mi_tiles = [], mi_camps = [],
     mi_direct = (\<lambda>_. 1), mi_relive = [False, True, False, False, False, False], mi_act_camp = []\<rparr>)\<rparr>"

definition revival :: battle_ground where
  "revival = duel\<lparr>map_camp := [0, 1, 0, 0, 0, 0], heap := (heap duel)(0 := (heap duel 0)\<lparr>bf_owner := Some 7\<rparr>)\<rparr>"

text \<open>Two fighters on six cells; the one of side 2 belongs to the player 7, who has one ration, and can come back at
  (2,1).\<close>

definition ration_env :: game_env where
  "ration_env = plain_env\<lparr>ge_map := (\<lambda>_. Some \<lparr>mi_width = 3, mi_height = 2, mi_tiles = [], mi_camps = [],
     mi_direct = (\<lambda>_. 1), mi_relive = [False, False, False, False, False, True], mi_act_camp = []\<rparr>),
     ge_food := (\<lambda>cs pl. list_all (\<lambda>c. case c of ConsumeCampaginFood _ _ \<Rightarrow> False | _ \<Rightarrow> True) cs),
     ge_create := (\<lambda>k x y. Some ((soldier 2 x y)\<lparr>bf_owner := Some 7\<rparr>))\<rparr>"

definition ration :: battle_ground where
  "ration = duel\<lparr>map_camp := [0, 0, 0, 0, 0, 2], heap := (heap duel)(1 := (heap duel 1)\<lparr>bf_owner := Some 7\<rparr>),
     list_fighters := [0]\<rparr>"

lemma one_ration: "meals ration_env cs \<le> 1"
proof (induction cs rule: rev_induct)
  case (snoc c cs)
  have "meals ration_env cs = 0" if "ge_food ration_env cs pl" for pl
    using that
  proof (induction cs rule: rev_induct)
    case (snoc d ds)
    then show ?case by (auto simp: ration_env_def meals_snoc split: outcall.splits)
  qed (simp add: meals_def)
  then show ?case using snoc by (auto simp: meals_snoc split: outcall.split)
qed (simp add: meals_def)

text \<open>Fighter 0 kills fighter 1, who eats and comes back as fighter 100; then that one kills fighter 0.\<close>

lemma ration_turns:
  "case clan_move ration_env lethal (\<lambda>ts. ts) (ration\<lparr>list_fighters := [0], current_bf := Some 0\<rparr>) of
     None \<Rightarrow> False
   | Some k \<Rightarrow> list_fighters k = [0, 100] \<and> bf_hp (heap k 100) = 100 \<and>
       (case clan_move ration_env lethal (\<lambda>ts. ts)
               (k\<lparr>act_count := act_count k + 1, list_fighters := [100], current_bf := Some 100\<rparr>) of
          None \<Rightarrow> False
        | Some h \<Rightarrow> list_fighters h = [100] \<and> bf_hp (heap h 0) = 0)"
  by code_simp

section \<open>Properties\<close>

text \<open>C9: if the players' rations are no more than \<open>N\<close>, the loop of \<^verbatim>\<open>FightOneRound\<close> over the fighters makes
  at most as many turns as there are fighters in the list and rations: every turn takes one fighter from the list, and
  each fighter who comes back to it has eaten.  Then it has come to its end, with only dead fighters left in the list,
  which it empties; or to a turn that has no defined result, so that neither has the loop.  Nothing is assumed of
  the turns.\<close>

theorem clan_round_ends:
  assumes "\<And>cs. meals env cs \<le> N"
  shows "\<exists>h n. (list_turn env duel_of sorter ^^ n) g h \<and> n \<le> length (list_fighters g) + N \<and>
    (list_all (\<lambda>b. bf_hp (heap h b) \<le> 0) (list_fighters h) \<and>
       clan_turns env duel_of sorter g = Some (h\<lparr>list_fighters := []\<rparr>) \<or>
     clan_turns env duel_of sorter g = None \<and>
       (\<exists>b bs. dropWhile (\<lambda>b. bf_hp (heap h b) \<le> 0) (list_fighters h) = b # bs \<and>
          clan_move env duel_of sorter (h\<lparr>list_fighters := b # bs, current_bf := Some b\<rparr>) = None))"
proof -
  obtain h where h: "(list_turn env duel_of sorter)\<^sup>*\<^sup>* g h" "turns_end env duel_of sorter g h"
    using clan_turns_ends [OF assms] by blast
  obtain n where n: "(list_turn env duel_of sorter ^^ n) g h" using h(1) by (auto dest: rtranclp_imp_relpowp)
  have "n \<le> length (list_fighters g) + N" using list_turns_bound [OF n] assms [of "calls h"] by simp
  moreover have "list_all (\<lambda>b. bf_hp (heap h b) \<le> 0) (list_fighters h) \<and>
       clan_turns env duel_of sorter g = Some (h\<lparr>list_fighters := []\<rparr>) \<or>
     clan_turns env duel_of sorter g = None \<and>
       (\<exists>b bs. dropWhile (\<lambda>b. bf_hp (heap h b) \<le> 0) (list_fighters h) = b # bs \<and>
          clan_move env duel_of sorter (h\<lparr>list_fighters := b # bs, current_bf := Some b\<rparr>) = None)"
  proof (cases "dropWhile (\<lambda>b. bf_hp (heap h b) \<le> 0) (list_fighters h)")
    case Nil
    then have "\<forall>b \<in> set (list_fighters h). bf_hp (heap h b) \<le> 0" by (simp add: dropWhile_eq_Nil_conv)
    then show ?thesis using h(2) unfolding turns_end_def Nil by (simp add: list_all_iff)
  next
    case (Cons b bs)
    then show ?thesis using h(2) unfolding turns_end_def Cons by simp
  qed
  ultimately show ?thesis using n by blast
qed

lemma ration_moves:
  obtains k h where
    "clan_move ration_env lethal (\<lambda>ts. ts) (ration\<lparr>list_fighters := [0], current_bf := Some 0\<rparr>) = Some k"
    "list_fighters k = [0, 100]" "bf_hp (heap k 100) = 100"
    "clan_move ration_env lethal (\<lambda>ts. ts) (k\<lparr>act_count := act_count k + 1, list_fighters := [100], current_bf := Some 100\<rparr>) = Some h"
    "list_fighters h = [100]"
  using ration_turns by (auto split: option.splits)

theorem clan_round_ends_witness:
  "\<exists>k h n. clan_move ration_env lethal (\<lambda>ts. ts) (ration\<lparr>list_fighters := [0], current_bf := Some 0\<rparr>) = Some k \<and>
     list_fighters k = [0, 100] \<and>
     (list_turn ration_env lethal (\<lambda>ts. ts) ^^ n) ration h \<and> n \<le> length (list_fighters ration) + 1 \<and>
     list_all (\<lambda>b. bf_hp (heap h b) \<le> 0) (list_fighters h) \<and>
     clan_turns ration_env lethal (\<lambda>ts. ts) ration = Some (h\<lparr>list_fighters := []\<rparr>)"
proof -
  let ?turns = "clan_turns ration_env lethal (\<lambda>ts. ts)"
  obtain k h where m:
    "clan_move ration_env lethal (\<lambda>ts. ts) (ration\<lparr>list_fighters := [0], current_bf := Some 0\<rparr>) = Some k"
    "list_fighters k = [0, 100]" "bf_hp (heap k 100) = 100"
    "clan_move ration_env lethal (\<lambda>ts. ts) (k\<lparr>act_count := act_count k + 1, list_fighters := [100], current_bf := Some 100\<rparr>) = Some h"
    "list_fighters h = [100]"
    by (rule ration_moves)
  let ?k = "k\<lparr>act_count := act_count k + 1, list_fighters := [100]\<rparr>"
  let ?h = "h\<lparr>act_count := act_count h + 1, list_fighters := []\<rparr>"
  have d: "dropWhile (\<lambda>b. bf_hp (heap ration b) \<le> 0) (list_fighters ration) = [0]" by (simp add: ration_def soldier_def)
  have "?turns ration = ?turns ?k"
    unfolding clan_turns.simps [of _ _ _ ration] d using m(1,2) by (simp add: by_act_id_def)
  also have "\<dots> = ?turns ?h"
    unfolding clan_turns.simps [of _ _ _ ?k] using m(3-5) by (simp add: by_act_id_def)
  also have "\<dots> = Some (?h\<lparr>list_fighters := []\<rparr>)"
    unfolding clan_turns.simps [of _ _ _ ?h] by simp
  finally have "?turns ration \<noteq> None" by simp
  with clan_round_ends [OF one_ration, of lethal "\<lambda>ts. ts" ration] m(1,2) show ?thesis by blast
qed

text \<open>A fighter who comes back at a point of revival that is taken, and has no bench, is put on the board there and
  left on the bench of that point as well, and the fighter who stood there is on no cell any more.\<close>

theorem relive_drives_off:
  assumes "placed g" "in_bounds g (my_pos g b)" "acx a \<noteq> 255" "acy a \<noteq> 255"
    "get_min_num_relive env g (bf_side (heap g b)) (Ascoord 255 255) = Some a"
    "fighter_at g a = Some (Some v)" "queue_at g a = []" "v \<noteq> next_bf g"
    "bf_owner (heap g b) = Some pl" "ge_find env pl (bf_id (heap g b)) = Some fgt"
    "ge_create env fgt (acx a) (acy a) = Some bf"
  shows "\<exists>h. relive env b g = Some (next_bf g, h) \<and> fighter_at h a = Some (Some (next_bf g)) \<and>
    queue_at h a = [next_bf g] \<and> (\<forall>p. in_bounds h p \<longrightarrow> fighter_at h p \<noteq> Some (Some v))"
proof -
  have a: "in_bounds g a" "is_relive_point env g (acx a) (acy a) = Some True"
    using get_min_num_relive_point [OF assms(5)] assms(3) by (metis ascoord.sel(1))+
  obtain h where h: "relive env b g = Some (next_bf g, h)" "in_bounds h = in_bounds g"
    "\<And>r. in_bounds g r \<Longrightarrow> fighter_at h r =
       (if r = a then Some (Some (next_bf g)) else if r = my_pos g b then Some None else fighter_at g r)"
    "queue_at h a = [next_bf g]"
    using relive_taken [OF assms(1,2) a(1) assms(3,4,5) a(2) assms(6,7,9-11)] by blast
  have "fighter_at h p \<noteq> Some (Some v)" if "in_bounds h p" for p
  proof
    assume f: "fighter_at h p = Some (Some v)"
    then have "p \<noteq> a" "fighter_at g p = Some (Some v)" using h(2,3) that assms(8) by (auto split: if_splits)
    then show False using assms(1,6) a(1) that h(2) by (auto simp: placed_def)
  qed
  then show ?thesis using h a(1) by (intro exI [of _ h]) simp
qed

theorem relive_drives_off_witness:
  "\<exists>h. relive revival_env 0 revival = Some (100, h) \<and> fighter_at h (Ascoord 1 0) = Some (Some 100) \<and>
     queue_at h (Ascoord 1 0) = [100]"
proof -
  have pl: "placed revival"
    using duel_orderly duel_wf
    by (auto simp: placed_def orderly_def revival_def wf_ground_def in_bounds_def fighter_at_def cell_index_def my_pos_def)
  have n: "next_bf revival = 100" by (simp add: revival_def duel_def board_of_def new_ground_def)
  have p: "in_bounds revival (my_pos revival 0)" "bf_owner (heap revival 0) = Some 7"
    "fighter_at revival (Ascoord 1 0) = Some (Some 1)" "queue_at revival (Ascoord 1 0) = []"
    by (simp_all add: revival_def in_bounds_def my_pos_def soldier_def fighter_at_def cell_index_def queue_at_def
        get_bench_info_def duel_def board_of_def new_ground_def)
  have m: "get_min_num_relive revival_env revival (bf_side (heap revival 0)) (Ascoord 255 255) = Some (Ascoord 1 0)"
    by code_simp
  have "ge_find revival_env 7 (bf_id (heap revival 0)) = Some (unat (bf_id (heap revival 0)))"
    "ge_create revival_env (unat (bf_id (heap revival 0))) 1 0 = Some (soldier 2 1 0)"
    by (simp_all add: revival_env_def plain_env_def)
  then have "ge_find revival_env 7 (bf_id (heap revival 0)) = Some (unat (bf_id (heap revival 0)))"
    "ge_create revival_env (unat (bf_id (heap revival 0))) (acx (Ascoord 1 0)) (acy (Ascoord 1 0)) = Some (soldier 2 1 0)"
    by simp_all
  from relive_drives_off [OF pl p(1) _ _ m p(3,4) _ p(2) this] show ?thesis unfolding n by auto
qed

end
