(* ===== verification/MsgPool.thy ===== *)
theory MsgPool
  imports Prelude "HOL-Library.Multiset"
begin

text \<open>
  The memory of the messages: the queue of \<^verbatim>\<open>Common/Queue.h\<close>, the lists of free blocks of
  \<^verbatim>\<open>Common/MemBlockPool.cpp\<close> and the ten pools of \<^verbatim>\<open>Server/GlobalObject.cpp\<close> from which
  \<^verbatim>\<open>AllocMsgBlock\<close> takes a block and to which \<^verbatim>\<open>FreeMsgBlock\<close> gives it back.  A block is the number of
  the call of \<^verbatim>\<open>malloc\<close> that made it; the heap says which of these calls fail and how many bytes may be
  used behind the address that the caller gets.  The mutexes make each operation one step.  \<open>None\<close> is a
  failed assertion or the use of a null pointer.

  The locale \<open>fifo\<close> is what the dispatcher expects of a queue, \<open>block_source\<close> what it expects of the
  allocator.  Both are interpreted here.
\<close>

section \<open>Queues\<close>

type_synonym 'a queue = "'a list"

definition queue_push :: "'a \<Rightarrow> 'a queue \<Rightarrow> 'a queue" where
  "queue_push e q = q @ [e]"

definition queue_push_all :: "'a queue \<Rightarrow> 'a queue \<Rightarrow> 'a queue" where
  "queue_push_all other q = q @ other"

fun queue_pop :: "'a queue \<Rightarrow> ('a \<times> 'a queue) option" where
  "queue_pop [] = None"
| "queue_pop (e # q) = Some (e, q)"

definition queue_empty :: "'a queue \<Rightarrow> bool" where
  "queue_empty q \<longleftrightarrow> q = []"

definition queue_clear :: "'a queue \<Rightarrow> 'a queue" where
  "queue_clear q = []"

definition queue_size :: "'a queue \<Rightarrow> nat" where
  "queue_size q = length q"

locale fifo =
  fixes push :: "'a \<Rightarrow> 'q \<Rightarrow> 'q" and pop :: "'q \<Rightarrow> ('a \<times> 'q) option"
    and empty :: "'q \<Rightarrow> bool" and contents :: "'q \<Rightarrow> 'a list"
  assumes push: "contents (push x q) = contents q @ [x]"
    and pop_cons: "contents q = x # xs \<Longrightarrow> \<exists>q'. pop q = Some (x, q') \<and> contents q' = xs"
    and pop_nil: "contents q = [] \<Longrightarrow> pop q = None"
    and empty: "empty q \<longleftrightarrow> contents q = []"
begin

lemma pop_some: "pop q = Some (x, q') \<Longrightarrow> contents q = x # contents q'"
  using pop_cons [of q] pop_nil [of q] by (cases "contents q") force+

lemma pop_iff: "(\<exists>r. pop q = Some r) \<longleftrightarrow> \<not> empty q"
  using pop_cons [of q] pop_nil [of q] empty [of q] by (cases "contents q") force+

lemma push_pop_order: "contents q = x # xs \<Longrightarrow> \<exists>q'. pop (push y q) = Some (x, q') \<and> contents q' = xs @ [y]"
  by (rule pop_cons) (simp add: push)

end

interpretation queue: fifo queue_push queue_pop queue_empty "\<lambda>q. q"
  by unfold_locales (auto simp: queue_push_def queue_empty_def)

section \<open>The heap and one pool\<close>

record heap =
  hp_calls :: nat
  hp_fails :: "nat \<Rightarrow> bool"
  hp_room :: "nat \<Rightarrow> nat"
  hp_freed :: "nat list"

text \<open>\<open>malloc_at off n\<close> asks for \<open>n\<close> bytes and hands out the address \<open>off\<close> bytes into them.\<close>

definition malloc_at :: "nat \<Rightarrow> nat \<Rightarrow> heap \<Rightarrow> nat option \<times> heap" where
  "malloc_at off n h =
     (let b = hp_calls h; h' = h\<lparr>hp_calls := Suc b\<rparr>
      in if hp_fails h b then (None, h') else (Some b, h'\<lparr>hp_room := (hp_room h)(b := n - off)\<rparr>))"

definition sys_free :: "nat \<Rightarrow> heap \<Rightarrow> heap" where
  "sys_free b h = h\<lparr>hp_freed := b # hp_freed h\<rparr>"

record mem_pool =
  mp_size :: nat
  mp_blocks :: "nat list"

definition sizeof_mem_block :: nat where "sizeof_mem_block = 16"
definition data_offset :: nat where "data_offset = 8"

definition pool_new :: "nat \<Rightarrow> mem_pool" where
  "pool_new n = \<lparr>mp_size = n, mp_blocks = []\<rparr>"

definition pool_alloc :: "mem_pool \<Rightarrow> heap \<Rightarrow> nat option \<times> mem_pool \<times> heap" where
  "pool_alloc p h =
     (case mp_blocks p of
        b # bs \<Rightarrow> (Some b, p\<lparr>mp_blocks := bs\<rparr>, h)
      | [] \<Rightarrow> (case malloc_at data_offset (sizeof_mem_block + mp_size p) h of (r, h') \<Rightarrow> (r, p, h')))"

definition pool_free :: "nat \<Rightarrow> mem_pool \<Rightarrow> mem_pool" where
  "pool_free b p = p\<lparr>mp_blocks := b # mp_blocks p\<rparr>"

text \<open>The destructor gives the free blocks to the system.\<close>

definition pool_delete :: "mem_pool \<Rightarrow> heap \<Rightarrow> heap" where
  "pool_delete p h = foldl (\<lambda>h b. sys_free b h) h (mp_blocks p)"

section \<open>The pools and queues of the server\<close>

definition min_memblock_size :: nat where "min_memblock_size = 128"
definition mempool_num :: nat where "mempool_num = 10"
definition sizeof_size_t :: nat where "sizeof_size_t = 8"
definition max_thread_num :: nat where "max_thread_num = 18"

record 'm global =
  gl_queues :: "nat queue list"
  gl_pools :: "mem_pool option list"
  gl_max :: nat
  gl_heap :: heap
  gl_word :: "nat \<Rightarrow> nat"
  gl_msg :: "nat \<Rightarrow> 'm option"

definition global_new :: "heap \<Rightarrow> 'm global" where
  "global_new h =
     \<lparr>gl_queues = replicate max_thread_num [], gl_pools = replicate mempool_num None, gl_max = 0,
      gl_heap = h, gl_word = (\<lambda>_. 0), gl_msg = (\<lambda>_. None)\<rparr>"

primrec init_pools :: "nat \<Rightarrow> nat \<Rightarrow> nat \<Rightarrow> 'm global \<Rightarrow> 'm global" where
  "init_pools 0 i n g = g"
| "init_pools (Suc k) i n g =
     init_pools k (i + 1) (n * 2) (g\<lparr>gl_max := n, gl_pools := (gl_pools g)[i := Some (pool_new n)]\<rparr>)"

definition global_init :: "'m global \<Rightarrow> 'm global" where
  "global_init g = init_pools mempool_num 0 min_memblock_size g"

text \<open>The loop that finds the pool.\<close>

partial_function (option) pool_scan :: "nat \<Rightarrow> nat \<Rightarrow> nat \<Rightarrow> nat option" where
  "pool_scan n index poolSize =
     (if n > poolSize then pool_scan n (index + 1) (poolSize * 2) else Some index)"

declare pool_scan.simps [code]

definition pool_at :: "nat \<Rightarrow> 'm global \<Rightarrow> mem_pool option" where
  "pool_at i g = (if i < length (gl_pools g) then gl_pools g ! i else None)"

text \<open>\<^verbatim>\<open>size += sizeof(size_t)\<close> wraps around at the width of \<^verbatim>\<open>size_t\<close>.\<close>

definition alloc_msg_block :: "nat \<Rightarrow> 'm global \<Rightarrow> (nat option \<times> 'm global) option" where
  "alloc_msg_block sz g =
     (let n = (sz + sizeof_size_t) mod 2 ^ 64
      in do {
           r \<leftarrow> (if n > gl_max g
                 then (case malloc_at 0 n (gl_heap g) of (b, h) \<Rightarrow> Some (b, g\<lparr>gl_heap := h\<rparr>))
                 else do {
                   i \<leftarrow> pool_scan n 0 min_memblock_size;
                   p \<leftarrow> pool_at i g;
                   (case pool_alloc p (gl_heap g) of (b, p', h) \<Rightarrow>
                      Some (b, g\<lparr>gl_pools := (gl_pools g)[i := Some p'], gl_heap := h\<rparr>)) });
           (case r of
              (None, g') \<Rightarrow> Some (None, g')
            | (Some b, g') \<Rightarrow> Some (Some b, g'\<lparr>gl_word := (gl_word g')(b := n)\<rparr>)) })"

definition free_msg_block :: "nat \<Rightarrow> 'm global \<Rightarrow> 'm global option" where
  "free_msg_block b g =
     (let n = gl_word g b
      in if n > gl_max g then Some (g\<lparr>gl_heap := sys_free b (gl_heap g)\<rparr>)
         else do {
           i \<leftarrow> pool_scan n 0 min_memblock_size;
           p \<leftarrow> pool_at i g;
           Some (g\<lparr>gl_pools := (gl_pools g)[i := Some (pool_free b p)]\<rparr>) })"

text \<open>\<^verbatim>\<open>UnInit\<close>: every queued message is freed, then the pools are deleted.\<close>

primrec free_queue :: "nat queue \<Rightarrow> 'm global \<Rightarrow> 'm global option" where
  "free_queue [] g = Some g"
| "free_queue (b # q) g = do { g' \<leftarrow> free_msg_block b g; free_queue q g' }"

primrec uninit_queues :: "nat \<Rightarrow> nat \<Rightarrow> 'm global \<Rightarrow> 'm global option" where
  "uninit_queues 0 i g = Some g"
| "uninit_queues (Suc k) i g =
     do { g' \<leftarrow> free_queue (gl_queues g ! i) g;
          uninit_queues k (i + 1) (g'\<lparr>gl_queues := (gl_queues g')[i := queue_clear (gl_queues g' ! i)]\<rparr>) }"

definition delete_pools :: "'m global \<Rightarrow> 'm global" where
  "delete_pools g =
     g\<lparr>gl_heap := foldl (\<lambda>h p. case p of None \<Rightarrow> h | Some p \<Rightarrow> pool_delete p h) (gl_heap g) (gl_pools g),
       gl_pools := map (\<lambda>_. None) (gl_pools g)\<rparr>"

definition global_uninit :: "'m global \<Rightarrow> 'm global option" where
  "global_uninit g = do { g' \<leftarrow> uninit_queues max_thread_num 0 g; Some (delete_pools g') }"

section \<open>The scan ends at the smallest pool that is large enough\<close>

lemma pool_scan_min:
  "\<lbrakk>n \<le> s * 2 ^ k; \<And>j. j < k \<Longrightarrow> s * 2 ^ j < n\<rbrakk> \<Longrightarrow> pool_scan n i s = Some (i + k)"
proof (induction k arbitrary: i s)
  case 0
  then show ?case by (subst pool_scan.simps) simp
next
  case (Suc k)
  have "s < n" using Suc.prems(2) [of 0] by simp
  moreover have "pool_scan n (i + 1) (s * 2) = Some (i + 1 + k)"
  proof (rule Suc.IH)
    show "n \<le> s * 2 * 2 ^ k" using Suc.prems(1) by (simp add: ac_simps)
    show "s * 2 * 2 ^ j < n" if "j < k" for j using Suc.prems(2) [of "Suc j"] that by (simp add: ac_simps)
  qed
  ultimately show ?case by (subst pool_scan.simps) simp
qed

lemma pool_scan_total:
  assumes "n \<le> 128 * 2 ^ 9"
  shows "\<exists>k < 10. pool_scan n 0 min_memblock_size = Some k \<and> n \<le> 128 * 2 ^ k \<and> (\<forall>j < k. 128 * 2 ^ j < n)"
proof -
  define k where "k = (LEAST k. n \<le> 128 * 2 ^ k)"
  have le: "n \<le> 128 * 2 ^ k" unfolding k_def using assms by (rule LeastI)
  have "k \<le> 9" unfolding k_def using assms by (rule Least_le)
  moreover have less: "128 * 2 ^ j < n" if "j < k" for j
    using not_less_Least [of j "\<lambda>k. n \<le> 128 * 2 ^ k"] that by (simp add: k_def)
  moreover have "pool_scan n 0 128 = Some (0 + k)" using le less by (rule pool_scan_min)
  ultimately show ?thesis using le by (auto simp: min_memblock_size_def)
qed

section \<open>Accounts of the blocks\<close>

text \<open>\<open>accounts g out\<close>: the blocks in \<open>out\<close> are in use, every other block that the system ever handed out lies in exactly
  one free list or was given back to the system, and every block is as large as the pool that will get it.  A block
  that is in none of these places has leaked; the accounts do not hold then, nor for two lists \<open>out\<close> of different blocks.\<close>

definition handed_out :: "heap \<Rightarrow> nat set" where
  "handed_out h = {b. b < hp_calls h \<and> \<not> hp_fails h b}"

definition blocks_of :: "mem_pool option \<Rightarrow> nat list" where
  "blocks_of p = (case p of None \<Rightarrow> [] | Some p \<Rightarrow> mp_blocks p)"

definition free_blocks :: "'m global \<Rightarrow> nat list" where
  "free_blocks g = concat (map blocks_of (gl_pools g)) @ hp_freed (gl_heap g)"

definition pools_ok :: "'m global \<Rightarrow> bool" where
  "pools_ok g \<longleftrightarrow>
     gl_max g = 65536 \<and> length (gl_pools g) = 10 \<and>
     (\<forall>i < 10. \<exists>p. gl_pools g ! i = Some p \<and> mp_size p = 128 * 2 ^ i \<and>
        (\<forall>b \<in> set (mp_blocks p). mp_size p \<le> hp_room (gl_heap g) b))"

definition block_fits :: "'m global \<Rightarrow> nat \<Rightarrow> bool" where
  "block_fits g b \<longleftrightarrow>
     gl_word g b \<le> hp_room (gl_heap g) b \<and>
     (\<forall>k. gl_word g b \<le> gl_max g \<longrightarrow> pool_scan (gl_word g b) 0 min_memblock_size = Some k \<longrightarrow>
        128 * 2 ^ k \<le> hp_room (gl_heap g) b)"

definition accounts :: "'m global \<Rightarrow> nat list \<Rightarrow> bool" where
  "accounts g out \<longleftrightarrow>
     pools_ok g \<and> distinct (free_blocks g @ out) \<and>
     set (free_blocks g @ out) = handed_out (gl_heap g) \<and> (\<forall>b \<in> set out. block_fits g b)"

lemma handed_out_frame [simp]: "handed_out (h\<lparr>hp_freed := bs\<rparr>) = handed_out h"
  by (simp add: handed_out_def)

lemma accounts_exact: "accounts g out \<Longrightarrow> accounts g out' \<Longrightarrow> mset out' = mset out"
proof -
  assume a: "accounts g out" "accounts g out'"
  then have "set out \<union> set (free_blocks g) = set out' \<union> set (free_blocks g)" "distinct out" "distinct out'"
    "set out \<inter> set (free_blocks g) = {}" "set out' \<inter> set (free_blocks g) = {}" by (auto simp: accounts_def)
  then have "set out' = set out" by blast
  with \<open>distinct out\<close> \<open>distinct out'\<close> show "mset out' = mset out" using set_eq_iff_mset_eq_distinct by blast
qed

lemma mset_concat_update:
  "i < length xs \<Longrightarrow>
   mset (concat (map f (xs[i := y]))) + mset (f (xs ! i)) = mset (concat (map f xs)) + mset (f y)"
  by (induction xs arbitrary: i) (auto simp: nth_Cons split: nat.splits)

lemma mset_free_blocks_update:
  assumes "i < length (gl_pools g)" "gl_pools g ! i = Some p"
  shows "mset (free_blocks (g\<lparr>gl_pools := (gl_pools g)[i := Some p']\<rparr>)) + mset (mp_blocks p) =
         mset (free_blocks g) + mset (mp_blocks p')"
  using mset_concat_update [OF assms(1), of blocks_of "Some p'"] assms(2)
  by (simp add: free_blocks_def blocks_of_def ac_simps)

lemma same_blocks:
  assumes "mset xs = mset ys"
  shows "distinct xs \<longleftrightarrow> distinct ys" "set xs = set ys"
  using mset_eq_imp_distinct_iff [OF assms] mset_eq_setD [OF assms] by blast+

lemma accountsI:
  assumes "accounts g out" "mset (free_blocks g' @ out') = mset (free_blocks g @ out)"
    "handed_out (gl_heap g') = handed_out (gl_heap g)" "pools_ok g'" "\<And>b. b \<in> set out' \<Longrightarrow> block_fits g' b"
  shows "accounts g' out'"
proof -
  have "distinct (free_blocks g @ out)" "set (free_blocks g @ out) = handed_out (gl_heap g)"
    using assms(1) by (simp_all only: accounts_def)
  then have "distinct (free_blocks g' @ out')" "set (free_blocks g' @ out') = handed_out (gl_heap g')"
    unfolding same_blocks [OF assms(2)] assms(3) .
  then show ?thesis using assms(4,5) by (simp add: accounts_def)
qed

lemma accounts_perm: "accounts g out \<Longrightarrow> mset out' = mset out \<Longrightarrow> accounts g out'"
  using mset_eq_setD [of out' out] by (intro accountsI [of g out g out']) (auto simp: accounts_def)

lemma pool_at_ok:
  "pools_ok g \<Longrightarrow> k < 10 \<Longrightarrow>
   \<exists>p. pool_at k g = Some p \<and> gl_pools g ! k = Some p \<and> k < length (gl_pools g) \<and> mp_size p = 128 * 2 ^ k \<and>
     (\<forall>b \<in> set (mp_blocks p). mp_size p \<le> hp_room (gl_heap g) b)"
  by (auto simp: pools_ok_def pool_at_def)

lemma pools_ok_update:
  assumes "pools_ok g" "k < 10" "mp_size p = 128 * 2 ^ k"
    "\<forall>b \<in> set (mp_blocks p). mp_size p \<le> hp_room (gl_heap g) b"
  shows "pools_ok (g\<lparr>gl_pools := (gl_pools g)[k := Some p]\<rparr>)"
  using assms by (auto simp: pools_ok_def nth_list_update)

lemma free_accounts:
  assumes "accounts g (b # out)"
  shows "\<exists>g'. free_msg_block b g = Some g' \<and> accounts g' out \<and> gl_queues g' = gl_queues g \<and> gl_msg g' = gl_msg g"
proof (cases "gl_word g b > gl_max g")
  case True
  then have "free_msg_block b g = Some (g\<lparr>gl_heap := sys_free b (gl_heap g)\<rparr>)" by (simp add: free_msg_block_def)
  moreover have "accounts (g\<lparr>gl_heap := sys_free b (gl_heap g)\<rparr>) out"
    using assms by (rule accountsI)
      (use assms in \<open>auto simp: free_blocks_def sys_free_def accounts_def pools_ok_def block_fits_def\<close>)
  ultimately show ?thesis by simp
next
  case False
  have ok: "pools_ok g" and fits: "block_fits g b" using assms by (simp_all add: accounts_def)
  then obtain k where k: "k < 10" "pool_scan (gl_word g b) 0 min_memblock_size = Some k"
    using pool_scan_total [of "gl_word g b"] False by (auto simp: pools_ok_def)
  obtain p where p: "pool_at k g = Some p" "gl_pools g ! k = Some p" "k < length (gl_pools g)"
    "mp_size p = 128 * 2 ^ k" "\<forall>b \<in> set (mp_blocks p). mp_size p \<le> hp_room (gl_heap g) b"
    using pool_at_ok [OF ok k(1)] by blast
  let ?g = "g\<lparr>gl_pools := (gl_pools g)[k := Some (pool_free b p)]\<rparr>"
  have "free_msg_block b g = Some ?g" using False k(2) p(1) by (simp add: free_msg_block_def)
  moreover have "accounts ?g out"
  proof (rule accountsI [OF assms])
    show "mset (free_blocks ?g @ out) = mset (free_blocks g @ b # out)"
      using mset_free_blocks_update [OF p(3,2), of "pool_free b p"] by (simp add: pool_free_def)
    have "mp_size p \<le> hp_room (gl_heap g) b"
      using fits k(2) p(4) False unfolding block_fits_def by simp
    then show "pools_ok ?g" using p(4,5) by (intro pools_ok_update [OF ok k(1)]) (simp_all add: pool_free_def)
  qed (use assms in \<open>auto simp: accounts_def block_fits_def\<close>)
  ultimately show ?thesis by simp
qed

lemma accounts_fresh:
  assumes "accounts g out"
  shows "hp_calls (gl_heap g) \<notin> set (free_blocks g @ out)"
  using assms unfolding accounts_def handed_out_def by blast

text \<open>What a successful or failed call of \<^verbatim>\<open>malloc\<close> does to the accounts.\<close>

lemma malloc_accounts:
  assumes "accounts g out" "malloc_at off n (gl_heap g) = (r, h)" "off \<le> n"
  shows "case r of
      None \<Rightarrow> accounts (g\<lparr>gl_heap := h\<rparr>) out
    | Some b \<Rightarrow> b \<notin> set out \<and> hp_room h b = n - off \<and>
        (\<forall>w. w \<le> n - off \<longrightarrow> (\<forall>k. w \<le> gl_max g \<longrightarrow> pool_scan w 0 min_memblock_size = Some k \<longrightarrow> 128 * 2 ^ k \<le> n - off) \<longrightarrow>
           accounts (g\<lparr>gl_heap := h, gl_word := (gl_word g)(b := w)\<rparr>) (b # out))"
proof -
  let ?c = "hp_calls (gl_heap g)"
  have fresh: "?c \<notin> set (free_blocks g @ out)" using accounts_fresh [OF assms(1)] .
  have acc: "pools_ok g" "distinct (free_blocks g @ out)" "set (free_blocks g @ out) = handed_out (gl_heap g)"
    "\<forall>b \<in> set out. block_fits g b" using assms(1) unfolding accounts_def by blast+
  have pools: "\<forall>i < 10. \<forall>p. gl_pools g ! i = Some p \<longrightarrow> ?c \<notin> set (mp_blocks p)"
    using fresh acc(1) by (auto simp: free_blocks_def pools_ok_def blocks_of_def in_set_conv_nth)
      (metis in_set_conv_nth nth_mem option.simps(5))
  show ?thesis
  proof (cases "hp_fails (gl_heap g) ?c")
    case True
    then have "r = None" "h = (gl_heap g)\<lparr>hp_calls := Suc ?c\<rparr>" using assms(2) by (auto simp: malloc_at_def Let_def)
    moreover have "handed_out ((gl_heap g)\<lparr>hp_calls := Suc ?c\<rparr>) = handed_out (gl_heap g)"
      using True by (auto simp: handed_out_def less_Suc_eq)
    ultimately show ?thesis using acc by (simp add: accounts_def pools_ok_def free_blocks_def block_fits_def)
  next
    case False
    then have r: "r = Some ?c" "h = (gl_heap g)\<lparr>hp_calls := Suc ?c, hp_room := (hp_room (gl_heap g))(?c := n - off)\<rparr>"
      using assms(2) by (auto simp: malloc_at_def Let_def)
    have "accounts (g\<lparr>gl_heap := h, gl_word := (gl_word g)(?c := w)\<rparr>) (?c # out)"
      if "w \<le> n - off" "\<forall>k. w \<le> gl_max g \<longrightarrow> pool_scan w 0 min_memblock_size = Some k \<longrightarrow> 128 * 2 ^ k \<le> n - off" for w
      unfolding accounts_def
    proof (intro conjI)
      let ?g = "g\<lparr>gl_heap := h, gl_word := (gl_word g)(?c := w)\<rparr>"
      have fb: "free_blocks ?g = free_blocks g" by (simp add: free_blocks_def r(2))
      show "pools_ok ?g" using acc(1) pools r(2) by (fastforce simp: pools_ok_def)
      show "distinct (free_blocks ?g @ ?c # out)" using acc(2) fresh fb by auto
      have "handed_out (gl_heap ?g) = insert ?c (handed_out (gl_heap g))"
        using False by (auto simp: handed_out_def r(2) less_Suc_eq)
      then show "set (free_blocks ?g @ ?c # out) = handed_out (gl_heap ?g)" using acc(3) fb by simp
      show "\<forall>b \<in> set (?c # out). block_fits ?g b" using acc(4) that fresh r(2) by (auto simp: block_fits_def)
    qed
    then show ?thesis using fresh r by simp
  qed
qed

definition same_frame :: "'m global \<Rightarrow> 'm global \<Rightarrow> bool" where
  "same_frame g g' \<longleftrightarrow> gl_queues g' = gl_queues g \<and> gl_msg g' = gl_msg g"

lemma alloc_accounts:
  assumes "accounts g out"
  shows "\<exists>r g'. alloc_msg_block sz g = Some (r, g') \<and> same_frame g g' \<and>
    (case r of None \<Rightarrow> accounts g' out
     | Some b \<Rightarrow> b \<notin> set out \<and> (sz + 8) mod 2 ^ 64 \<le> hp_room (gl_heap g') b \<and> accounts g' (b # out))"
proof -
  let ?n = "(sz + 8) mod 2 ^ 64"
  show ?thesis
proof (cases "?n > gl_max g")
  case True
  obtain r h where m: "malloc_at 0 ?n (gl_heap g) = (r, h)" by (cases "malloc_at 0 ?n (gl_heap g)")
  have "alloc_msg_block sz g =
      Some (r, case r of None \<Rightarrow> g\<lparr>gl_heap := h\<rparr> | Some b \<Rightarrow> g\<lparr>gl_heap := h, gl_word := (gl_word g)(b := ?n)\<rparr>)"
    using True m by (simp add: alloc_msg_block_def sizeof_size_t_def Let_def split: option.splits)
  then show ?thesis
    using malloc_accounts [OF assms m] True by (auto simp: same_frame_def split: option.splits)
next
  case False
  have ok: "pools_ok g" using assms by (simp add: accounts_def)
  then obtain k where k: "k < 10" "pool_scan ?n 0 min_memblock_size = Some k" "?n \<le> 128 * 2 ^ k"
    using pool_scan_total [of ?n] False by (auto simp: pools_ok_def)
  obtain p where p: "pool_at k g = Some p" "gl_pools g ! k = Some p" "k < length (gl_pools g)"
    "mp_size p = 128 * 2 ^ k" "\<forall>b \<in> set (mp_blocks p). mp_size p \<le> hp_room (gl_heap g) b"
    using pool_at_ok [OF ok k(1)] by blast
  show ?thesis
  proof (cases "mp_blocks p")
    case Nil
    obtain r h where m: "malloc_at 8 (16 + mp_size p) (gl_heap g) = (r, h)"
      by (cases "malloc_at 8 (16 + mp_size p) (gl_heap g)")
    have "(gl_pools g)[k := Some p] = gl_pools g" using p(2) by (metis list_update_id)
    then have "alloc_msg_block sz g =
        Some (r, case r of None \<Rightarrow> g\<lparr>gl_heap := h\<rparr> | Some b \<Rightarrow> g\<lparr>gl_heap := h, gl_word := (gl_word g)(b := ?n)\<rparr>)"
      using False k(2) p(1) m Nil
      by (simp add: alloc_msg_block_def sizeof_size_t_def Let_def pool_alloc_def data_offset_def sizeof_mem_block_def
          split: option.splits)
    then show ?thesis
      using malloc_accounts [OF assms m] k p(4) by (auto simp: same_frame_def split: option.splits)
  next
    case (Cons b bs)
    let ?g = "g\<lparr>gl_pools := (gl_pools g)[k := Some (p\<lparr>mp_blocks := bs\<rparr>)], gl_word := (gl_word g)(b := ?n)\<rparr>"
    have a: "alloc_msg_block sz g = Some (Some b, ?g)"
      using False k(2) p(1) Cons by (simp add: alloc_msg_block_def sizeof_size_t_def Let_def pool_alloc_def)
    have "Some p \<in> set (gl_pools g)" using p(2,3) by (metis nth_mem)
    then have "b \<in> set (free_blocks g)" using Cons by (force simp: free_blocks_def blocks_of_def)
    then have "b \<notin> set out" using assms by (auto simp: accounts_def)
    moreover have "accounts ?g (b # out)"
    proof (rule accountsI [OF assms])
      show "mset (free_blocks ?g @ b # out) = mset (free_blocks g @ out)"
        using mset_free_blocks_update [OF p(3,2), of "p\<lparr>mp_blocks := bs\<rparr>"] Cons
        by (simp add: free_blocks_def)
      show "pools_ok ?g"
        using pools_ok_update [OF ok k(1), of "p\<lparr>mp_blocks := bs\<rparr>"] p(4,5) Cons by (simp add: pools_ok_def)
      show "block_fits ?g c" if "c \<in> set (b # out)" for c
        using that assms \<open>b \<notin> set out\<close> k p(4,5) Cons by (auto simp: block_fits_def accounts_def)
    qed simp
    moreover have "?n \<le> hp_room (gl_heap ?g) b" using k(3) p(4,5) Cons by simp
    ultimately show ?thesis using a by (auto simp: same_frame_def)
  qed
qed
qed

section \<open>The contract of the allocator\<close>

locale block_source =
  fixes alloc :: "nat \<Rightarrow> 's \<Rightarrow> (nat option \<times> 's) option" and release :: "nat \<Rightarrow> 's \<Rightarrow> 's option"
    and acc :: "'s \<Rightarrow> nat list \<Rightarrow> bool" and frame :: "'s \<Rightarrow> 's \<Rightarrow> bool"
  assumes alloc: "acc s out \<Longrightarrow> \<exists>r s'. alloc n s = Some (r, s') \<and> frame s s' \<and>
      (case r of None \<Rightarrow> acc s' out | Some b \<Rightarrow> b \<notin> set out \<and> acc s' (b # out))"
    and release: "acc s (b # out) \<Longrightarrow> \<exists>s'. release b s = Some s' \<and> acc s' out \<and> frame s s'"
    and perm: "acc s out \<Longrightarrow> mset out' = mset out \<Longrightarrow> acc s out'"
    and frame_refl: "frame s s"
    and frame_trans: "frame s t \<Longrightarrow> frame t u \<Longrightarrow> frame s u"
begin

lemma release_any:
  assumes "acc s out" "b \<in> set out"
  shows "\<exists>s'. release b s = Some s' \<and> acc s' (remove1 b out) \<and> frame s s'"
proof -
  have "mset (b # remove1 b out) = mset out" using assms(2) by simp
  then show ?thesis using release perm [OF assms(1)] by blast
qed

lemma release_all:
  "acc s (bs @ out) \<Longrightarrow> \<exists>s'. foldm (\<lambda>s b. release b s) s bs = Some s' \<and> acc s' out \<and> frame s s'"
proof (induction bs arbitrary: s)
  case Nil
  then show ?case by (simp add: frame_refl)
next
  case (Cons b bs)
  then obtain s' where s': "release b s = Some s'" "acc s' (bs @ out)" "frame s s'" using release by fastforce
  then obtain t where "foldm (\<lambda>s b. release b s) s' bs = Some t" "acc t out" "frame s' t" using Cons.IH by blast
  then show ?case using s' frame_trans by auto
qed

lemma alloc_release:
  assumes "acc s out" "alloc n s = Some (Some b, s')"
  shows "\<exists>t. release b s' = Some t \<and> acc t out \<and> frame s t"
proof -
  have "acc s' (b # out)" "frame s s'" using alloc [OF assms(1), of n] assms(2) by auto
  then show ?thesis using release frame_trans by blast
qed

end

interpretation msg_blocks: block_source alloc_msg_block free_msg_block accounts same_frame
proof
  show "\<exists>r s'. alloc_msg_block n s = Some (r, s') \<and> same_frame s s' \<and>
      (case r of None \<Rightarrow> accounts s' out | Some b \<Rightarrow> b \<notin> set out \<and> accounts s' (b # out))"
    if acc: "accounts s out" for s :: "'a global" and out n
  proof -
    obtain r s' where "alloc_msg_block n s = Some (r, s')" "same_frame s s'"
      "case r of None \<Rightarrow> accounts s' out
       | Some b \<Rightarrow> b \<notin> set out \<and> (n + 8) mod 2 ^ 64 \<le> hp_room (gl_heap s') b \<and> accounts s' (b # out)"
      using alloc_accounts [OF acc, of n] by blast
    then show ?thesis by (cases r) auto
  qed
  show "\<exists>s'. free_msg_block b s = Some s' \<and> accounts s' out \<and> same_frame s s'"
    if "accounts s (b # out)" for s :: "'a global" and b out
    using free_accounts [OF that] by (auto simp: same_frame_def)
qed (auto simp: same_frame_def intro: accounts_perm)

lemma free_queue_foldm: "free_queue q g = foldm (\<lambda>g b. free_msg_block b g) g q"
  by (induction q arbitrary: g) simp_all

lemma free_msg_block_blocks:
  assumes "free_msg_block b g = Some g'"
  shows "mset (free_blocks g') = add_mset b (mset (free_blocks g))" "gl_queues g' = gl_queues g"
proof -
  have "mset (free_blocks g') = add_mset b (mset (free_blocks g)) \<and> gl_queues g' = gl_queues g"
  proof (cases "gl_word g b > gl_max g")
    case True
    then show ?thesis using assms by (auto simp: free_msg_block_def sys_free_def free_blocks_def)
  next
    case False
    then obtain i p where i: "pool_at i g = Some p" "g' = g\<lparr>gl_pools := (gl_pools g)[i := Some (pool_free b p)]\<rparr>"
      using assms by (auto simp: free_msg_block_def split: bind_splits)
    then have "i < length (gl_pools g)" "gl_pools g ! i = Some p" by (simp_all add: pool_at_def split: if_splits)
    then show ?thesis using mset_free_blocks_update [of i g p "pool_free b p"] i(2) by (simp add: pool_free_def)
  qed
  then show "mset (free_blocks g') = add_mset b (mset (free_blocks g))" "gl_queues g' = gl_queues g" by simp_all
qed

lemma free_queue_blocks:
  "free_queue q g = Some g' \<Longrightarrow> mset (free_blocks g') = mset (free_blocks g) + mset q \<and> gl_queues g' = gl_queues g"
  by (induction q arbitrary: g) (auto simp: free_msg_block_blocks split: bind_splits)

lemma free_queue_accounts:
  "accounts g (q @ out) \<Longrightarrow> \<exists>g'. free_queue q g = Some g' \<and> accounts g' out"
  using msg_blocks.release_all [of g q out] unfolding free_queue_foldm by blast

lemma uninit_queues_frees:
  "\<lbrakk>accounts g (concat (drop i (gl_queues g))); length (gl_queues g) = i + k\<rbrakk> \<Longrightarrow>
   \<exists>g'. uninit_queues k i g = Some g' \<and> accounts g' [] \<and> gl_queues g' = take i (gl_queues g) @ replicate k [] \<and>
     mset (free_blocks g') = mset (free_blocks g) + mset (concat (drop i (gl_queues g)))"
proof (induction k arbitrary: i g)
  case 0
  then show ?case by simp
next
  case (Suc k)
  have i: "i < length (gl_queues g)" using Suc.prems(2) by simp
  then have d: "drop i (gl_queues g) = gl_queues g ! i # drop (Suc i) (gl_queues g)" by (simp add: Cons_nth_drop_Suc)
  then obtain g' where g': "free_queue (gl_queues g ! i) g = Some g'" "accounts g' (concat (drop (Suc i) (gl_queues g)))"
    using free_queue_accounts [of g "gl_queues g ! i"] Suc.prems(1) by auto
  note b = free_queue_blocks [OF g'(1)]
  let ?g = "g'\<lparr>gl_queues := (gl_queues g')[i := []]\<rparr>"
  have "accounts ?g (concat (drop (Suc i) (gl_queues ?g)))"
    using g'(2) b by (simp add: accounts_def free_blocks_def pools_ok_def block_fits_def)
  then obtain t where t: "uninit_queues k (Suc i) ?g = Some t" "accounts t []"
    "gl_queues t = take (Suc i) (gl_queues ?g) @ replicate k []"
    "mset (free_blocks t) = mset (free_blocks ?g) + mset (concat (drop (Suc i) (gl_queues ?g)))"
    using Suc.IH [of ?g "Suc i"] Suc.prems(2) b by auto
  have "gl_queues t = take i (gl_queues g) @ replicate (Suc k) []"
    using t(3) b i by (simp add: take_Suc_conv_app_nth)
  moreover have "free_blocks ?g = free_blocks g'" by (simp add: free_blocks_def)
  then have "mset (free_blocks t) = mset (free_blocks g) + mset (concat (drop i (gl_queues g)))"
    using t(4) b d by simp
  ultimately show ?case using g'(1) t(1,2) by (simp add: queue_clear_def)
qed

lemma hp_freed_delete: "hp_freed (pool_delete p h) = rev (mp_blocks p) @ hp_freed h"
proof -
  have "hp_freed (foldl (\<lambda>h b. sys_free b h) h bs) = rev bs @ hp_freed h" for bs
    by (induction bs arbitrary: h) (simp_all add: sys_free_def)
  then show ?thesis by (simp add: pool_delete_def)
qed

lemma mset_freed_delete_pools: "mset (hp_freed (gl_heap (delete_pools g))) = mset (free_blocks g)"
proof -
  have "mset (hp_freed (foldl (\<lambda>h p. case p of None \<Rightarrow> h | Some p \<Rightarrow> pool_delete p h) h ps)) =
      mset (concat (map blocks_of ps)) + mset (hp_freed h)" for ps h
    by (induction ps arbitrary: h) (auto simp: blocks_of_def hp_freed_delete split: option.splits)
  then show ?thesis by (simp add: delete_pools_def free_blocks_def)
qed

lemma init_pools_pools:
  "length (gl_pools g) = i + k \<Longrightarrow>
   gl_pools (init_pools k i n g) = take i (gl_pools g) @ map (\<lambda>j. Some (pool_new (n * 2 ^ j))) [0 ..< k]"
proof (induction k arbitrary: i n g)
  case (Suc k)
  have u: "map (\<lambda>j. Some (pool_new (n * 2 ^ j))) [0 ..< Suc k] =
      Some (pool_new n) # map (\<lambda>j. Some (pool_new (n * 2 * 2 ^ j))) [0 ..< k]"
    by (simp add: upt_conv_Cons map_Suc_upt [symmetric] comp_def ac_simps del: upt_Suc)
  show ?case
    unfolding u
    using Suc.IH [of "g\<lparr>gl_max := n, gl_pools := (gl_pools g)[i := Some (pool_new n)]\<rparr>" "i + 1" "n * 2"] Suc.prems
    by (simp add: take_Suc_conv_app_nth)
qed simp

lemma init_pools_frame:
  "gl_heap (init_pools k i n g) = gl_heap g" "gl_queues (init_pools k i n g) = gl_queues g"
  "k \<noteq> 0 \<Longrightarrow> gl_max (init_pools k i n g) = n * 2 ^ (k - 1)"
proof -
  show "gl_heap (init_pools k i n g) = gl_heap g" "gl_queues (init_pools k i n g) = gl_queues g"
    by (induction k arbitrary: i n g) simp_all
  show "k \<noteq> 0 \<Longrightarrow> gl_max (init_pools k i n g) = n * 2 ^ (k - 1)"
  proof (induction k arbitrary: i n g)
    case (Suc k)
    then show ?case
      using Suc.IH [of "i + 1" "n * 2" "g\<lparr>gl_max := n, gl_pools := (gl_pools g)[i := Some (pool_new n)]\<rparr>"]
      by (cases k) (simp_all add: ac_simps)
  qed simp
qed

text \<open>The state after \<^verbatim>\<open>Init\<close>.\<close>

lemma initial_accounts:
  assumes "g = global_init (global_new h)" "distinct (hp_freed h)" "set (hp_freed h) = handed_out h"
  shows "accounts g []" "gl_max g = 65536"
    "gl_pools g = map (\<lambda>i. Some (pool_new (128 * 2 ^ i))) [0 ..< 10]" "gl_queues g = replicate 18 []"
proof -
  show p: "gl_pools g = map (\<lambda>i. Some (pool_new (128 * 2 ^ i))) [0 ..< 10]"
    unfolding assms(1) global_init_def mempool_num_def min_memblock_size_def
    by (subst init_pools_pools) (simp_all add: global_new_def mempool_num_def)
  have f: "gl_heap g = h"
    by (simp add: assms(1) global_init_def init_pools_frame global_new_def)
  show q: "gl_queues g = replicate 18 []"
    by (simp add: assms(1) global_init_def init_pools_frame global_new_def max_thread_num_def)
  show m: "gl_max g = 65536"
    by (simp add: assms(1) global_init_def init_pools_frame mempool_num_def min_memblock_size_def)
  have b: "blocks_of (Some (pool_new n)) = []" for n by (simp add: blocks_of_def pool_new_def)
  have "free_blocks g = hp_freed h"
    unfolding free_blocks_def p f by (simp add: comp_def b)
  moreover have "pools_ok g" unfolding pools_ok_def p m f by (simp add: pool_new_def)
  ultimately show "accounts g []" unfolding accounts_def f using assms by simp
qed

definition empty_heap :: heap where
  "empty_heap = \<lparr>hp_calls = 0, hp_fails = (\<lambda>_. False), hp_room = (\<lambda>_. 0), hp_freed = []\<rparr>"

definition started :: "nat global" where
  "started = global_init (global_new empty_heap)"

lemmas started_accounts = initial_accounts [OF started_def]

text \<open>No block is handed out only if the system refuses to.\<close>

lemma alloc_refused:
  "alloc_msg_block sz g = Some (None, g') \<Longrightarrow> hp_fails (gl_heap g) (hp_calls (gl_heap g))"
  by (auto simp: alloc_msg_block_def Let_def bind_eq_Some_conv malloc_at_def pool_alloc_def neq_Nil_conv
      split: if_splits option.splits list.splits prod.splits)

lemma alloc_word: "alloc_msg_block sz g = Some (Some b, g') \<Longrightarrow> gl_word g' b = (sz + 8) mod 2 ^ 64"
proof -
  let ?n = "(sz + sizeof_size_t) mod 2 ^ 64"
  assume "alloc_msg_block sz g = Some (Some b, g')"
  then obtain r where "(case r of (None, h) \<Rightarrow> Some (None, h) | (Some c, h) \<Rightarrow> Some (Some c, h\<lparr>gl_word := (gl_word h)(c := ?n)\<rparr>)) = Some (Some b, g')"
    unfolding alloc_msg_block_def Let_def bind_eq_Some_conv by blast
  then have "gl_word g' b = ?n" by (cases r; cases "fst r") auto
  then show ?thesis by (simp only: sizeof_size_t_def)
qed

section \<open>Properties\<close>

text \<open>C14: asking for a block of fewer than \<open>2 ^ 64 - 8\<close> bytes never fails an assertion or uses a null pointer.  It either
  reports that there is no memory, which is so only if the system has just refused a call of \<^verbatim>\<open>malloc\<close>, or hands out a block
  that was not in use and has room for the size and the word in front of it, and the accounts then count this block among
  those in use.  Giving it back is possible, and afterwards it lies in a free list or is the system's again.\<close>

theorem alloc_block_sound:
  assumes "accounts g out" "sz < 2 ^ 64 - 8"
  shows "\<exists>r g'. alloc_msg_block sz g = Some (r, g') \<and> gl_queues g' = gl_queues g \<and>
    (case r of None \<Rightarrow> accounts g' out \<and> hp_fails (gl_heap g) (hp_calls (gl_heap g))
     | Some b \<Rightarrow> b \<notin> set out \<and> sz + 8 \<le> hp_room (gl_heap g') b \<and> accounts g' (b # out) \<and>
         (\<exists>g''. free_msg_block b g' = Some g'' \<and> accounts g'' out \<and> b \<in> set (free_blocks g'')))"
proof -
  obtain r g' where a: "alloc_msg_block sz g = Some (r, g')" "same_frame g g'"
    "case r of None \<Rightarrow> accounts g' out
     | Some b \<Rightarrow> b \<notin> set out \<and> (sz + 8) mod 2 ^ 64 \<le> hp_room (gl_heap g') b \<and> accounts g' (b # out)"
    using alloc_accounts [OF assms(1), of sz] by blast
  have m: "(sz + 8) mod 2 ^ 64 = sz + 8" using assms(2) by simp
  show ?thesis
  proof (cases r)
    case None
    then show ?thesis using a alloc_refused [of sz g] by (simp add: same_frame_def)
  next
    case (Some b)
    then have b: "b \<notin> set out" "sz + 8 \<le> hp_room (gl_heap g') b" "accounts g' (b # out)" using a(3) m by simp_all
    obtain g'' where "free_msg_block b g' = Some g''" "accounts g'' out" using free_accounts [OF b(3)] by blast
    moreover have "b \<in> set (free_blocks g'')"
      using free_msg_block_blocks(1) [OF calculation(1)] mset_eq_setD [of "free_blocks g''" "b # free_blocks g'"] by simp
    ultimately show ?thesis using a(1,2) b Some by (simp add: same_frame_def)
  qed
qed

lemma alloc_block_sound_witness:
  "\<exists>r g'. alloc_msg_block 200 started = Some (r, g') \<and> gl_queues g' = gl_queues started \<and>
    (case r of None \<Rightarrow> accounts g' [] \<and> hp_fails (gl_heap started) (hp_calls (gl_heap started))
     | Some b \<Rightarrow> b \<notin> set [] \<and> 200 + 8 \<le> hp_room (gl_heap g') b \<and> accounts g' (b # []) \<and>
         (\<exists>g''. free_msg_block b g' = Some g'' \<and> accounts g'' [] \<and> b \<in> set (free_blocks g'')))"
  by (rule alloc_block_sound [OF started_accounts(1)]) (simp_all add: empty_heap_def handed_out_def)

text \<open>A size so large that the sum wraps around gets a block of the smallest pool.\<close>

theorem alloc_block_wraps:
  assumes "accounts g out" "2 ^ 64 - 8 \<le> sz" "sz < 2 ^ 64"
  shows "\<exists>r g'. alloc_msg_block sz g = Some (r, g') \<and> (\<forall>b. r = Some b \<longrightarrow> gl_word g' b < 8)"
proof -
  have "(sz + 8) mod 2 ^ 64 = sz + 8 - 2 ^ 64" using assms(2,3) by (simp add: mod_if)
  then have n: "(sz + 8) mod 2 ^ 64 < 8" using assms(3) by simp
  obtain r g' where a: "alloc_msg_block sz g = Some (r, g')" using alloc_accounts [OF assms(1), of sz] by blast
  then have "\<forall>b. r = Some b \<longrightarrow> gl_word g' b < 8" using n alloc_word [of sz g _ g'] by auto
  with a show ?thesis by blast
qed

text \<open>After \<^verbatim>\<open>Init\<close> the accounts are right with no block in use, and pool number i has blocks of 128 times two to the i
  bytes, up to the largest size that is served from the pools, 65536.\<close>

theorem init_accounts:
  assumes "g = global_init (global_new h)" "distinct (hp_freed h)" "set (hp_freed h) = handed_out h"
  shows "accounts g [] \<and> gl_max g = 65536 \<and> gl_pools g = map (\<lambda>i. Some (pool_new (128 * 2 ^ i))) [0 ..< 10]"
  using initial_accounts [OF assms] by blast

lemma init_accounts_witness:
  "accounts started [] \<and> gl_max started = 65536 \<and>
   gl_pools started = map (\<lambda>i. Some (pool_new (128 * 2 ^ i))) [0 ..< 10]"
  by (rule init_accounts [OF started_def]) (simp_all add: empty_heap_def handed_out_def)

text \<open>C24: \<^verbatim>\<open>UnInit\<close> ends with every queue empty and every block that was queued or free given back to the system
  exactly once.\<close>

theorem uninit_frees_all:
  assumes "accounts g (concat (gl_queues g))" "length (gl_queues g) = 18"
  shows "\<exists>g'. global_uninit g = Some g' \<and> gl_queues g' = replicate 18 [] \<and> distinct (hp_freed (gl_heap g')) \<and>
    set (hp_freed (gl_heap g')) = set (free_blocks g) \<union> set (concat (gl_queues g))"
proof -
  obtain g' where g': "uninit_queues 18 0 g = Some g'" "accounts g' []" "gl_queues g' = replicate 18 []"
    "mset (free_blocks g') = mset (free_blocks g) + mset (concat (gl_queues g))"
    using uninit_queues_frees [where i = 0 and k = 18 and g = g] assms by auto
  have f: "mset (hp_freed (gl_heap (delete_pools g'))) = mset (free_blocks g')"
    "gl_queues (delete_pools g') = gl_queues g'"
    by (rule mset_freed_delete_pools) (simp add: delete_pools_def)
  then have "distinct (hp_freed (gl_heap (delete_pools g')))"
    using same_blocks(1) [OF f(1)] g'(2) by (simp add: accounts_def)
  moreover have "set (hp_freed (gl_heap (delete_pools g'))) = set (free_blocks g @ concat (gl_queues g))"
    by (rule mset_eq_setD) (simp add: f(1) g'(4))
  ultimately show ?thesis using g'(1,3) f(2) by (simp add: global_uninit_def max_thread_num_def)
qed

lemma uninit_frees_all_witness:
  "\<exists>g'. global_uninit started = Some g' \<and> gl_queues g' = replicate 18 [] \<and> distinct (hp_freed (gl_heap g')) \<and>
    set (hp_freed (gl_heap g')) = set (free_blocks started) \<union> set (concat (gl_queues started))"
proof (rule uninit_frees_all)
  have "distinct (hp_freed empty_heap)" "set (hp_freed empty_heap) = handed_out empty_heap"
    by (simp_all add: empty_heap_def handed_out_def)
  note s = started_accounts [OF this]
  show "accounts started (concat (gl_queues started))" "length (gl_queues started) = 18"
    using s(1) unfolding s(4) by simp_all
qed

end
