(* ===== verification/Serialize.thy ===== *)
theory Serialize
  imports ByteStream
begin

text \<open>
  The packet bodies of \<^verbatim>\<open>Common/Serialize.h\<close>.  A specialisation of \<^verbatim>\<open>S11NTraits\<close> is a record of its
  three functions.  \<^verbatim>\<open>Serialize\<close> appends to a buffer and returns the number of bytes it says it has
  written; \<^verbatim>\<open>Unserialize\<close> gets the memory that begins at its pointer and the size it is told, and either
  leaves that memory (\<open>Fault\<close>), returns \<^verbatim>\<open>static_cast<UInt32>(-1)\<close> (\<open>Failed\<close>) or returns the
  number of bytes consumed and the value.  What a failed call has already stored is not modelled.  The
  macros \<^verbatim>\<open>S11N_TRAITS_1\<close> to \<^verbatim>\<open>S11N_TRAITS_9\<close> and \<^verbatim>\<open>MSG_SllN_0\<close> to \<^verbatim>\<open>MSG_SllN_12\<close>, which give
  a class of that many members its three functions, are one definition each; the members are a tuple.

  The locale \<open>codec\<close> is the contract of a specialisation that writes what it can read back, and the
  locale \<open>guarded\<close> that of one that stays inside the size it is told.  Both are interpreted for the
  specialisations of the file, and shown to pass from the members to the class for the macros; only the
  \<^verbatim>\<open>Size\<close> of \<^verbatim>\<open>MSG_SllN_12\<close> leaves a member out.
\<close>

section \<open>Specialisations\<close>

datatype 'a unser = Fault | Failed | Got u32 'a

record 'a s11n =
  s_size :: "'a \<Rightarrow> u32"
  s_ser :: "'a \<Rightarrow> u8 list \<Rightarrow> u32 \<times> u8 list"
  s_unser :: "u8 list \<Rightarrow> u32 \<Rightarrow> 'a unser"

text \<open>The primary template: nothing is written, and the object read keeps the value \<open>old\<close> it has.\<close>

definition s11n_other :: "'a \<Rightarrow> 'a s11n" where
  "s11n_other old = \<lparr>s_size = (\<lambda>_. 0), s_ser = (\<lambda>_ buf. (0, buf)), s_unser = (\<lambda>_ _. Got 0 old)\<rparr>"

text \<open>Integers of \<open>k\<close> bytes.\<close>

definition s11n_int :: "nat \<Rightarrow> 'w::len word s11n" where
  "s11n_int k =
     \<lparr>s_size = (\<lambda>_. of_nat k),
      s_ser = (\<lambda>x buf. (of_nat k, buf @ word_bytes k x)),
      s_unser = (\<lambda>mem sz.
        if k > unat sz then Failed
        else if k > length mem then Fault
        else Got (of_nat k) (word_of_bytes (take k mem)))\<rparr>"

definition s11n_pointer :: "u64 s11n" where
  "s11n_pointer =
     \<lparr>s_size = (\<lambda>_. 8),
      s_ser = (\<lambda>x buf. (8, buf @ word_bytes 8 x)),
      s_unser = (\<lambda>mem sz.
        if 8 > unat sz then Failed
        else if 8 > length mem then Fault
        else Got 8 (word_of_bytes (take 8 mem)))\<rparr>"

text \<open>\<^verbatim>\<open>float\<close> and \<^verbatim>\<open>double\<close> are copied bit by bit; they are modelled by their bit patterns.\<close>

definition s11n_float :: "u32 s11n" where
  "s11n_float =
     \<lparr>s_size = (\<lambda>_. 4),
      s_ser = (\<lambda>x buf. (4, buf @ word_bytes 4 x)),
      s_unser = (\<lambda>mem sz.
        if 4 > unat sz then Failed
        else if 4 > length mem then Fault
        else Got 4 (word_of_bytes (take 4 mem)))\<rparr>"

definition s11n_double :: "u64 s11n" where
  "s11n_double =
     \<lparr>s_size = (\<lambda>_. 8),
      s_ser = (\<lambda>x buf. (8, buf @ word_bytes 8 x)),
      s_unser = (\<lambda>mem sz.
        if 8 > unat sz then Failed
        else if 8 > length mem then Fault
        else Got 8 (word_of_bytes (take 8 mem)))\<rparr>"

text \<open>An array of \<open>n\<close> integers of \<open>k\<close> bytes.  The size is compared with the number of elements, and not
  with the number of bytes copied.\<close>

definition s11n_array :: "nat \<Rightarrow> nat \<Rightarrow> 'w::len word list s11n" where
  "s11n_array k n =
     \<lparr>s_size = (\<lambda>_. of_nat (k * n)),
      s_ser = (\<lambda>xs buf. (of_nat (k * n), buf @ concat (map (word_bytes k) (take n xs)))),
      s_unser = (\<lambda>mem sz.
        if n > unat sz then Failed
        else if k * n > length mem then Fault
        else Got (of_nat (k * n)) (map word_of_bytes (chunks k n mem)))\<rparr>"

text \<open>Strings.  The length written is cut to two bytes; the characters are appended all or not at all.\<close>

definition s11n_string :: "u8 list s11n" where
  "s11n_string =
     \<lparr>s_size = (\<lambda>s. of_nat (length s) + 2),
      s_ser = (\<lambda>s buf.
        let l = (of_nat (length s) :: u16);
            buf' = buf @ word_bytes 2 l
        in (ucast l + 2, if l > 0 then buf' @ s else buf')),
      s_unser = (\<lambda>mem sz.
        if sz < 2 then Failed
        else if length mem < 2 then Fault
        else let l = (word_of_bytes (take 2 mem) :: u16)
             in if sz < ucast l + 2 then Failed
                else if length mem < 2 + unat l then Fault
                else Got (2 + ucast l) (take (unat l) (drop 2 mem)))\<rparr>"

text \<open>One member of a class, and one element of a vector: \<open>ser_member\<close> adds the length it returns,
  \<open>unser_member\<close> continues behind the bytes consumed so far.\<close>

definition ser_member :: "'a s11n \<Rightarrow> 'a \<Rightarrow> u32 \<times> u8 list \<Rightarrow> u32 \<times> u8 list" where
  "ser_member m x st = (case s_ser m x (snd st) of (r, buf) \<Rightarrow> (fst st + r, buf))"

definition unser_member ::
  "'a s11n \<Rightarrow> u8 list \<Rightarrow> u32 \<Rightarrow> u32 \<Rightarrow> (u32 \<Rightarrow> 'a \<Rightarrow> 'b unser) \<Rightarrow> 'b unser" where
  "unser_member m mem sz len k =
     (case s_unser m (drop (unat len) mem) (sz - len) of
        Fault \<Rightarrow> Fault
      | Failed \<Rightarrow> Failed
      | Got r x \<Rightarrow> if r = - 1 then Failed else k (len + r) x)"

text \<open>Vectors: the number of elements in two bytes, at most 1024 when reading.  The length returned by
  \<^verbatim>\<open>Serialize\<close> is added up in two bytes.\<close>

primrec ser_elems :: "'a s11n \<Rightarrow> 'a list \<Rightarrow> u16 \<times> u8 list \<Rightarrow> u16 \<times> u8 list" where
  "ser_elems m [] st = st"
| "ser_elems m (x # xs) st =
     ser_elems m xs (case s_ser m x (snd st) of (r, buf) \<Rightarrow> (ucast (ucast (fst st) + r), buf))"

primrec unser_elems :: "'a s11n \<Rightarrow> u8 list \<Rightarrow> u32 \<Rightarrow> nat \<Rightarrow> u32 \<Rightarrow> ('a list \<Rightarrow> 'a list) \<Rightarrow> 'a list unser" where
  "unser_elems m mem sz 0 len acc = Got len (acc [])"
| "unser_elems m mem sz (Suc n) len acc =
     unser_member m mem sz len (\<lambda>l x. unser_elems m mem sz n l (\<lambda>xs. acc (x # xs)))"

definition s11n_vector :: "'a s11n \<Rightarrow> 'a list s11n" where
  "s11n_vector m =
     \<lparr>s_size = (\<lambda>xs. foldl (\<lambda>n x. n + s_size m x) 2 xs),
      s_ser = (\<lambda>xs buf.
        case ser_elems m xs (2, buf @ word_bytes 2 (of_nat (length xs) :: u16)) of (l, buf') \<Rightarrow> (ucast l, buf')),
      s_unser = (\<lambda>mem sz.
        if sz < 2 then Failed
        else if length mem < 2 then Fault
        else let l = (word_of_bytes (take 2 mem) :: u16)
             in if l > 1024 then Failed
                else unser_elems m mem sz (unat l) 2 (\<lambda>xs. xs))\<rparr>"

section \<open>Classes\<close>

definition s11n_traits_1 ::
  "'a s11n \<Rightarrow> 'a s11n" where
  "s11n_traits_1 c1 =
     \<lparr>s_size = (\<lambda>x1. s_size c1 x1),
      s_ser = (\<lambda>x1 buf. s_ser c1 x1 buf),
      s_unser = (\<lambda>mem sz. s_unser c1 mem sz)\<rparr>"

definition s11n_traits_2 ::
  "'a s11n \<Rightarrow> 'b s11n \<Rightarrow> ('a \<times> 'b) s11n" where
  "s11n_traits_2 c1 c2 =
     \<lparr>s_size = (\<lambda>(x1, x2). 0 + s_size c1 x1 + s_size c2 x2),
      s_ser = (\<lambda>(x1, x2) buf.
        ser_member c2 x2 (ser_member c1 x1 (0, buf))),
      s_unser = (\<lambda>mem sz.
        unser_member c1 mem sz 0 (\<lambda>l1 x1.
        unser_member c2 mem sz l1 (\<lambda>l2 x2.
        Got l2 (x1, x2))))\<rparr>"

definition s11n_traits_3 ::
  "'a s11n \<Rightarrow> 'b s11n \<Rightarrow> 'c s11n \<Rightarrow> ('a \<times> 'b \<times> 'c) s11n" where
  "s11n_traits_3 c1 c2 c3 =
     \<lparr>s_size = (\<lambda>(x1, x2, x3). 0 + s_size c1 x1 + s_size c2 x2 + s_size c3 x3),
      s_ser = (\<lambda>(x1, x2, x3) buf.
        ser_member c3 x3 (ser_member c2 x2 (ser_member c1 x1 (0, buf)))),
      s_unser = (\<lambda>mem sz.
        unser_member c1 mem sz 0 (\<lambda>l1 x1.
        unser_member c2 mem sz l1 (\<lambda>l2 x2.
        unser_member c3 mem sz l2 (\<lambda>l3 x3.
        Got l3 (x1, x2, x3)))))\<rparr>"

definition s11n_traits_4 ::
  "'a s11n \<Rightarrow> 'b s11n \<Rightarrow> 'c s11n \<Rightarrow> 'd s11n \<Rightarrow> ('a \<times> 'b \<times> 'c \<times> 'd) s11n" where
  "s11n_traits_4 c1 c2 c3 c4 =
     \<lparr>s_size = (\<lambda>(x1, x2, x3, x4). 0 + s_size c1 x1 + s_size c2 x2 + s_size c3 x3 + s_size c4 x4),
      s_ser = (\<lambda>(x1, x2, x3, x4) buf.
        ser_member c4 x4 (ser_member c3 x3 (ser_member c2 x2 (ser_member c1 x1 (0, buf))))),
      s_unser = (\<lambda>mem sz.
        unser_member c1 mem sz 0 (\<lambda>l1 x1.
        unser_member c2 mem sz l1 (\<lambda>l2 x2.
        unser_member c3 mem sz l2 (\<lambda>l3 x3.
        unser_member c4 mem sz l3 (\<lambda>l4 x4.
        Got l4 (x1, x2, x3, x4))))))\<rparr>"

definition s11n_traits_5 ::
  "'a s11n \<Rightarrow> 'b s11n \<Rightarrow> 'c s11n \<Rightarrow> 'd s11n \<Rightarrow> 'e s11n \<Rightarrow> ('a \<times> 'b \<times> 'c \<times> 'd \<times> 'e) s11n" where
  "s11n_traits_5 c1 c2 c3 c4 c5 =
     \<lparr>s_size = (\<lambda>(x1, x2, x3, x4, x5). 0 + s_size c1 x1 + s_size c2 x2 + s_size c3 x3 + s_size c4 x4 + 
        s_size c5 x5),
      s_ser = (\<lambda>(x1, x2, x3, x4, x5) buf.
        ser_member c5 x5 (ser_member c4 x4 (ser_member c3 x3 (ser_member c2 x2 (
        ser_member c1 x1 (0, buf)))))),
      s_unser = (\<lambda>mem sz.
        unser_member c1 mem sz 0 (\<lambda>l1 x1.
        unser_member c2 mem sz l1 (\<lambda>l2 x2.
        unser_member c3 mem sz l2 (\<lambda>l3 x3.
        unser_member c4 mem sz l3 (\<lambda>l4 x4.
        unser_member c5 mem sz l4 (\<lambda>l5 x5.
        Got l5 (x1, x2, x3, x4, x5)))))))\<rparr>"

definition s11n_traits_6 ::
  "'a s11n \<Rightarrow> 'b s11n \<Rightarrow> 'c s11n \<Rightarrow> 'd s11n \<Rightarrow> 'e s11n \<Rightarrow> 'f s11n \<Rightarrow> ('a \<times> 'b \<times> 'c \<times> 'd \<times> 'e \<times> 'f) s11n" where
  "s11n_traits_6 c1 c2 c3 c4 c5 c6 =
     \<lparr>s_size = (\<lambda>(x1, x2, x3, x4, x5, x6). 0 + s_size c1 x1 + s_size c2 x2 + s_size c3 x3 + s_size c4 x4 + 
        s_size c5 x5 + s_size c6 x6),
      s_ser = (\<lambda>(x1, x2, x3, x4, x5, x6) buf.
        ser_member c6 x6 (ser_member c5 x5 (ser_member c4 x4 (ser_member c3 x3 (
        ser_member c2 x2 (ser_member c1 x1 (0, buf))))))),
      s_unser = (\<lambda>mem sz.
        unser_member c1 mem sz 0 (\<lambda>l1 x1.
        unser_member c2 mem sz l1 (\<lambda>l2 x2.
        unser_member c3 mem sz l2 (\<lambda>l3 x3.
        unser_member c4 mem sz l3 (\<lambda>l4 x4.
        unser_member c5 mem sz l4 (\<lambda>l5 x5.
        unser_member c6 mem sz l5 (\<lambda>l6 x6.
        Got l6 (x1, x2, x3, x4, x5, x6))))))))\<rparr>"

definition s11n_traits_7 ::
  "'a s11n \<Rightarrow> 'b s11n \<Rightarrow> 'c s11n \<Rightarrow> 'd s11n \<Rightarrow> 'e s11n \<Rightarrow> 'f s11n \<Rightarrow> 'g s11n \<Rightarrow> ('a \<times> 'b \<times> 'c \<times> 'd \<times> 'e \<times> 'f \<times> 'g) s11n" where
  "s11n_traits_7 c1 c2 c3 c4 c5 c6 c7 =
     \<lparr>s_size = (\<lambda>(x1, x2, x3, x4, x5, x6, x7). 0 + s_size c1 x1 + s_size c2 x2 + s_size c3 x3 + s_size c4 x4 + 
        s_size c5 x5 + s_size c6 x6 + s_size c7 x7),
      s_ser = (\<lambda>(x1, x2, x3, x4, x5, x6, x7) buf.
        ser_member c7 x7 (ser_member c6 x6 (ser_member c5 x5 (ser_member c4 x4 (
        ser_member c3 x3 (ser_member c2 x2 (ser_member c1 x1 (0, buf)))))))),
      s_unser = (\<lambda>mem sz.
        unser_member c1 mem sz 0 (\<lambda>l1 x1.
        unser_member c2 mem sz l1 (\<lambda>l2 x2.
        unser_member c3 mem sz l2 (\<lambda>l3 x3.
        unser_member c4 mem sz l3 (\<lambda>l4 x4.
        unser_member c5 mem sz l4 (\<lambda>l5 x5.
        unser_member c6 mem sz l5 (\<lambda>l6 x6.
        unser_member c7 mem sz l6 (\<lambda>l7 x7.
        Got l7 (x1, x2, x3, x4, x5, x6, x7)))))))))\<rparr>"

definition s11n_traits_8 ::
  "'a s11n \<Rightarrow> 'b s11n \<Rightarrow> 'c s11n \<Rightarrow> 'd s11n \<Rightarrow> 'e s11n \<Rightarrow> 'f s11n \<Rightarrow> 'g s11n \<Rightarrow> 'h s11n \<Rightarrow> ('a \<times> 'b \<times> 'c \<times> 'd \<times> 'e \<times> 'f \<times> 'g \<times> 'h) s11n" where
  "s11n_traits_8 c1 c2 c3 c4 c5 c6 c7 c8 =
     \<lparr>s_size = (\<lambda>(x1, x2, x3, x4, x5, x6, x7, x8). 0 + s_size c1 x1 + s_size c2 x2 + s_size c3 x3 + s_size c4 x4 + 
        s_size c5 x5 + s_size c6 x6 + s_size c7 x7 + s_size c8 x8),
      s_ser = (\<lambda>(x1, x2, x3, x4, x5, x6, x7, x8) buf.
        ser_member c8 x8 (ser_member c7 x7 (ser_member c6 x6 (ser_member c5 x5 (
        ser_member c4 x4 (ser_member c3 x3 (ser_member c2 x2 (ser_member c1 x1 (0, buf))))))))),
      s_unser = (\<lambda>mem sz.
        unser_member c1 mem sz 0 (\<lambda>l1 x1.
        unser_member c2 mem sz l1 (\<lambda>l2 x2.
        unser_member c3 mem sz l2 (\<lambda>l3 x3.
        unser_member c4 mem sz l3 (\<lambda>l4 x4.
        unser_member c5 mem sz l4 (\<lambda>l5 x5.
        unser_member c6 mem sz l5 (\<lambda>l6 x6.
        unser_member c7 mem sz l6 (\<lambda>l7 x7.
        unser_member c8 mem sz l7 (\<lambda>l8 x8.
        Got l8 (x1, x2, x3, x4, x5, x6, x7, x8))))))))))\<rparr>"

definition s11n_traits_9 ::
  "'a s11n \<Rightarrow> 'b s11n \<Rightarrow> 'c s11n \<Rightarrow> 'd s11n \<Rightarrow> 'e s11n \<Rightarrow> 'f s11n \<Rightarrow> 'g s11n \<Rightarrow> 'h s11n \<Rightarrow> 'i s11n \<Rightarrow> ('a \<times> 'b \<times> 'c \<times> 'd \<times> 'e \<times> 'f \<times> 'g \<times> 'h \<times> 'i) s11n" where
  "s11n_traits_9 c1 c2 c3 c4 c5 c6 c7 c8 c9 =
     \<lparr>s_size = (\<lambda>(x1, x2, x3, x4, x5, x6, x7, x8, x9). 0 + s_size c1 x1 + s_size c2 x2 + s_size c3 x3 + s_size c4 x4 + 
        s_size c5 x5 + s_size c6 x6 + s_size c7 x7 + s_size c8 x8 + s_size c9 x9),
      s_ser = (\<lambda>(x1, x2, x3, x4, x5, x6, x7, x8, x9) buf.
        ser_member c9 x9 (ser_member c8 x8 (ser_member c7 x7 (ser_member c6 x6 (
        ser_member c5 x5 (ser_member c4 x4 (ser_member c3 x3 (ser_member c2 x2 (
        ser_member c1 x1 (0, buf)))))))))),
      s_unser = (\<lambda>mem sz.
        unser_member c1 mem sz 0 (\<lambda>l1 x1.
        unser_member c2 mem sz l1 (\<lambda>l2 x2.
        unser_member c3 mem sz l2 (\<lambda>l3 x3.
        unser_member c4 mem sz l3 (\<lambda>l4 x4.
        unser_member c5 mem sz l4 (\<lambda>l5 x5.
        unser_member c6 mem sz l5 (\<lambda>l6 x6.
        unser_member c7 mem sz l6 (\<lambda>l7 x7.
        unser_member c8 mem sz l7 (\<lambda>l8 x8.
        unser_member c9 mem sz l8 (\<lambda>l9 x9.
        Got l9 (x1, x2, x3, x4, x5, x6, x7, x8, x9)))))))))))\<rparr>"

section \<open>Messages\<close>

definition msg_slln_0 :: "unit s11n" where
  "msg_slln_0 = \<lparr>s_size = (\<lambda>_. 0), s_ser = (\<lambda>_ buf. (0, buf)), s_unser = (\<lambda>_ _. Got 0 ())\<rparr>"

definition msg_slln_1 ::
  "'a s11n \<Rightarrow> 'a s11n" where
  "msg_slln_1 c1 =
     \<lparr>s_size = (\<lambda>x1. s_size c1 x1),
      s_ser = (\<lambda>x1 buf. s_ser c1 x1 buf),
      s_unser = (\<lambda>mem sz. s_unser c1 mem sz)\<rparr>"

definition msg_slln_2 ::
  "'a s11n \<Rightarrow> 'b s11n \<Rightarrow> ('a \<times> 'b) s11n" where
  "msg_slln_2 c1 c2 =
     \<lparr>s_size = (\<lambda>(x1, x2). s_size c1 x1 + s_size c2 x2),
      s_ser = (\<lambda>(x1, x2) buf.
        ser_member c2 x2 (ser_member c1 x1 (0, buf))),
      s_unser = (\<lambda>mem sz.
        unser_member c1 mem sz 0 (\<lambda>l1 x1.
        unser_member c2 mem sz l1 (\<lambda>l2 x2.
        Got l2 (x1, x2))))\<rparr>"

definition msg_slln_3 ::
  "'a s11n \<Rightarrow> 'b s11n \<Rightarrow> 'c s11n \<Rightarrow> ('a \<times> 'b \<times> 'c) s11n" where
  "msg_slln_3 c1 c2 c3 =
     \<lparr>s_size = (\<lambda>(x1, x2, x3). s_size c1 x1 + s_size c2 x2 + s_size c3 x3),
      s_ser = (\<lambda>(x1, x2, x3) buf.
        ser_member c3 x3 (ser_member c2 x2 (ser_member c1 x1 (0, buf)))),
      s_unser = (\<lambda>mem sz.
        unser_member c1 mem sz 0 (\<lambda>l1 x1.
        unser_member c2 mem sz l1 (\<lambda>l2 x2.
        unser_member c3 mem sz l2 (\<lambda>l3 x3.
        Got l3 (x1, x2, x3)))))\<rparr>"

definition msg_slln_4 ::
  "'a s11n \<Rightarrow> 'b s11n \<Rightarrow> 'c s11n \<Rightarrow> 'd s11n \<Rightarrow> ('a \<times> 'b \<times> 'c \<times> 'd) s11n" where
  "msg_slln_4 c1 c2 c3 c4 =
     \<lparr>s_size = (\<lambda>(x1, x2, x3, x4). s_size c1 x1 + s_size c2 x2 + s_size c3 x3 + s_size c4 x4),
      s_ser = (\<lambda>(x1, x2, x3, x4) buf.
        ser_member c4 x4 (ser_member c3 x3 (ser_member c2 x2 (ser_member c1 x1 (0, buf))))),
      s_unser = (\<lambda>mem sz.
        unser_member c1 mem sz 0 (\<lambda>l1 x1.
        unser_member c2 mem sz l1 (\<lambda>l2 x2.
        unser_member c3 mem sz l2 (\<lambda>l3 x3.
        unser_member c4 mem sz l3 (\<lambda>l4 x4.
        Got l4 (x1, x2, x3, x4))))))\<rparr>"

definition msg_slln_5 ::
  "'a s11n \<Rightarrow> 'b s11n \<Rightarrow> 'c s11n \<Rightarrow> 'd s11n \<Rightarrow> 'e s11n \<Rightarrow> ('a \<times> 'b \<times> 'c \<times> 'd \<times> 'e) s11n" where
  "msg_slln_5 c1 c2 c3 c4 c5 =
     \<lparr>s_size = (\<lambda>(x1, x2, x3, x4, x5). s_size c1 x1 + s_size c2 x2 + s_size c3 x3 + s_size c4 x4 + s_size c5 x5),
      s_ser = (\<lambda>(x1, x2, x3, x4, x5) buf.
        ser_member c5 x5 (ser_member c4 x4 (ser_member c3 x3 (ser_member c2 x2 (
        ser_member c1 x1 (0, buf)))))),
      s_unser = (\<lambda>mem sz.
        unser_member c1 mem sz 0 (\<lambda>l1 x1.
        unser_member c2 mem sz l1 (\<lambda>l2 x2.
        unser_member c3 mem sz l2 (\<lambda>l3 x3.
        unser_member c4 mem sz l3 (\<lambda>l4 x4.
        unser_member c5 mem sz l4 (\<lambda>l5 x5.
        Got l5 (x1, x2, x3, x4, x5)))))))\<rparr>"

definition msg_slln_6 ::
  "'a s11n \<Rightarrow> 'b s11n \<Rightarrow> 'c s11n \<Rightarrow> 'd s11n \<Rightarrow> 'e s11n \<Rightarrow> 'f s11n \<Rightarrow> ('a \<times> 'b \<times> 'c \<times> 'd \<times> 'e \<times> 'f) s11n" where
  "msg_slln_6 c1 c2 c3 c4 c5 c6 =
     \<lparr>s_size = (\<lambda>(x1, x2, x3, x4, x5, x6). s_size c1 x1 + s_size c2 x2 + s_size c3 x3 + s_size c4 x4 + s_size c5 x5 + 
        s_size c6 x6),
      s_ser = (\<lambda>(x1, x2, x3, x4, x5, x6) buf.
        ser_member c6 x6 (ser_member c5 x5 (ser_member c4 x4 (ser_member c3 x3 (
        ser_member c2 x2 (ser_member c1 x1 (0, buf))))))),
      s_unser = (\<lambda>mem sz.
        unser_member c1 mem sz 0 (\<lambda>l1 x1.
        unser_member c2 mem sz l1 (\<lambda>l2 x2.
        unser_member c3 mem sz l2 (\<lambda>l3 x3.
        unser_member c4 mem sz l3 (\<lambda>l4 x4.
        unser_member c5 mem sz l4 (\<lambda>l5 x5.
        unser_member c6 mem sz l5 (\<lambda>l6 x6.
        Got l6 (x1, x2, x3, x4, x5, x6))))))))\<rparr>"

definition msg_slln_7 ::
  "'a s11n \<Rightarrow> 'b s11n \<Rightarrow> 'c s11n \<Rightarrow> 'd s11n \<Rightarrow> 'e s11n \<Rightarrow> 'f s11n \<Rightarrow> 'g s11n \<Rightarrow> ('a \<times> 'b \<times> 'c \<times> 'd \<times> 'e \<times> 'f \<times> 'g) s11n" where
  "msg_slln_7 c1 c2 c3 c4 c5 c6 c7 =
     \<lparr>s_size = (\<lambda>(x1, x2, x3, x4, x5, x6, x7). s_size c1 x1 + s_size c2 x2 + s_size c3 x3 + s_size c4 x4 + s_size c5 x5 + 
        s_size c6 x6 + s_size c7 x7),
      s_ser = (\<lambda>(x1, x2, x3, x4, x5, x6, x7) buf.
        ser_member c7 x7 (ser_member c6 x6 (ser_member c5 x5 (ser_member c4 x4 (
        ser_member c3 x3 (ser_member c2 x2 (ser_member c1 x1 (0, buf)))))))),
      s_unser = (\<lambda>mem sz.
        unser_member c1 mem sz 0 (\<lambda>l1 x1.
        unser_member c2 mem sz l1 (\<lambda>l2 x2.
        unser_member c3 mem sz l2 (\<lambda>l3 x3.
        unser_member c4 mem sz l3 (\<lambda>l4 x4.
        unser_member c5 mem sz l4 (\<lambda>l5 x5.
        unser_member c6 mem sz l5 (\<lambda>l6 x6.
        unser_member c7 mem sz l6 (\<lambda>l7 x7.
        Got l7 (x1, x2, x3, x4, x5, x6, x7)))))))))\<rparr>"

definition msg_slln_8 ::
  "'a s11n \<Rightarrow> 'b s11n \<Rightarrow> 'c s11n \<Rightarrow> 'd s11n \<Rightarrow> 'e s11n \<Rightarrow> 'f s11n \<Rightarrow> 'g s11n \<Rightarrow> 'h s11n \<Rightarrow> ('a \<times> 'b \<times> 'c \<times> 'd \<times> 'e \<times> 'f \<times> 'g \<times> 'h) s11n" where
  "msg_slln_8 c1 c2 c3 c4 c5 c6 c7 c8 =
     \<lparr>s_size = (\<lambda>(x1, x2, x3, x4, x5, x6, x7, x8). s_size c1 x1 + s_size c2 x2 + s_size c3 x3 + s_size c4 x4 + s_size c5 x5 + 
        s_size c6 x6 + s_size c7 x7 + s_size c8 x8),
      s_ser = (\<lambda>(x1, x2, x3, x4, x5, x6, x7, x8) buf.
        ser_member c8 x8 (ser_member c7 x7 (ser_member c6 x6 (ser_member c5 x5 (
        ser_member c4 x4 (ser_member c3 x3 (ser_member c2 x2 (ser_member c1 x1 (0, buf))))))))),
      s_unser = (\<lambda>mem sz.
        unser_member c1 mem sz 0 (\<lambda>l1 x1.
        unser_member c2 mem sz l1 (\<lambda>l2 x2.
        unser_member c3 mem sz l2 (\<lambda>l3 x3.
        unser_member c4 mem sz l3 (\<lambda>l4 x4.
        unser_member c5 mem sz l4 (\<lambda>l5 x5.
        unser_member c6 mem sz l5 (\<lambda>l6 x6.
        unser_member c7 mem sz l6 (\<lambda>l7 x7.
        unser_member c8 mem sz l7 (\<lambda>l8 x8.
        Got l8 (x1, x2, x3, x4, x5, x6, x7, x8))))))))))\<rparr>"

definition msg_slln_9 ::
  "'a s11n \<Rightarrow> 'b s11n \<Rightarrow> 'c s11n \<Rightarrow> 'd s11n \<Rightarrow> 'e s11n \<Rightarrow> 'f s11n \<Rightarrow> 'g s11n \<Rightarrow> 'h s11n \<Rightarrow> 'i s11n \<Rightarrow> ('a \<times> 'b \<times> 'c \<times> 'd \<times> 'e \<times> 'f \<times> 'g \<times> 'h \<times> 'i) s11n" where
  "msg_slln_9 c1 c2 c3 c4 c5 c6 c7 c8 c9 =
     \<lparr>s_size = (\<lambda>(x1, x2, x3, x4, x5, x6, x7, x8, x9). s_size c1 x1 + s_size c2 x2 + s_size c3 x3 + s_size c4 x4 + s_size c5 x5 + 
        s_size c6 x6 + s_size c7 x7 + s_size c8 x8 + s_size c9 x9),
      s_ser = (\<lambda>(x1, x2, x3, x4, x5, x6, x7, x8, x9) buf.
        ser_member c9 x9 (ser_member c8 x8 (ser_member c7 x7 (ser_member c6 x6 (
        ser_member c5 x5 (ser_member c4 x4 (ser_member c3 x3 (ser_member c2 x2 (
        ser_member c1 x1 (0, buf)))))))))),
      s_unser = (\<lambda>mem sz.
        unser_member c1 mem sz 0 (\<lambda>l1 x1.
        unser_member c2 mem sz l1 (\<lambda>l2 x2.
        unser_member c3 mem sz l2 (\<lambda>l3 x3.
        unser_member c4 mem sz l3 (\<lambda>l4 x4.
        unser_member c5 mem sz l4 (\<lambda>l5 x5.
        unser_member c6 mem sz l5 (\<lambda>l6 x6.
        unser_member c7 mem sz l6 (\<lambda>l7 x7.
        unser_member c8 mem sz l7 (\<lambda>l8 x8.
        unser_member c9 mem sz l8 (\<lambda>l9 x9.
        Got l9 (x1, x2, x3, x4, x5, x6, x7, x8, x9)))))))))))\<rparr>"

definition msg_slln_10 ::
  "'a s11n \<Rightarrow> 'b s11n \<Rightarrow> 'c s11n \<Rightarrow> 'd s11n \<Rightarrow> 'e s11n \<Rightarrow> 'f s11n \<Rightarrow> 'g s11n \<Rightarrow> 'h s11n \<Rightarrow> 'i s11n \<Rightarrow> 'j s11n \<Rightarrow> ('a \<times> 'b \<times> 'c \<times> 'd \<times> 'e \<times> 'f \<times> 'g \<times> 'h \<times> 'i \<times> 'j) s11n" where
  "msg_slln_10 c1 c2 c3 c4 c5 c6 c7 c8 c9 c10 =
     \<lparr>s_size = (\<lambda>(x1, x2, x3, x4, x5, x6, x7, x8, x9, x10). s_size c1 x1 + s_size c2 x2 + s_size c3 x3 + s_size c4 x4 + s_size c5 x5 + 
        s_size c6 x6 + s_size c7 x7 + s_size c8 x8 + s_size c9 x9 + s_size c10 x10),
      s_ser = (\<lambda>(x1, x2, x3, x4, x5, x6, x7, x8, x9, x10) buf.
        ser_member c10 x10 (ser_member c9 x9 (ser_member c8 x8 (ser_member c7 x7 (
        ser_member c6 x6 (ser_member c5 x5 (ser_member c4 x4 (ser_member c3 x3 (
        ser_member c2 x2 (ser_member c1 x1 (0, buf))))))))))),
      s_unser = (\<lambda>mem sz.
        unser_member c1 mem sz 0 (\<lambda>l1 x1.
        unser_member c2 mem sz l1 (\<lambda>l2 x2.
        unser_member c3 mem sz l2 (\<lambda>l3 x3.
        unser_member c4 mem sz l3 (\<lambda>l4 x4.
        unser_member c5 mem sz l4 (\<lambda>l5 x5.
        unser_member c6 mem sz l5 (\<lambda>l6 x6.
        unser_member c7 mem sz l6 (\<lambda>l7 x7.
        unser_member c8 mem sz l7 (\<lambda>l8 x8.
        unser_member c9 mem sz l8 (\<lambda>l9 x9.
        unser_member c10 mem sz l9 (\<lambda>l10 x10.
        Got l10 (x1, x2, x3, x4, x5, x6, x7, x8, x9, x10))))))))))))\<rparr>"

definition msg_slln_11 ::
  "'a s11n \<Rightarrow> 'b s11n \<Rightarrow> 'c s11n \<Rightarrow> 'd s11n \<Rightarrow> 'e s11n \<Rightarrow> 'f s11n \<Rightarrow> 'g s11n \<Rightarrow> 'h s11n \<Rightarrow> 'i s11n \<Rightarrow> 'j s11n \<Rightarrow> 'k s11n \<Rightarrow> ('a \<times> 'b \<times> 'c \<times> 'd \<times> 'e \<times> 'f \<times> 'g \<times> 'h \<times> 'i \<times> 'j \<times> 'k) s11n" where
  "msg_slln_11 c1 c2 c3 c4 c5 c6 c7 c8 c9 c10 c11 =
     \<lparr>s_size = (\<lambda>(x1, x2, x3, x4, x5, x6, x7, x8, x9, x10, x11). s_size c1 x1 + s_size c2 x2 + s_size c3 x3 + s_size c4 x4 + s_size c5 x5 + 
        s_size c6 x6 + s_size c7 x7 + s_size c8 x8 + s_size c9 x9 + s_size c10 x10 + 
        s_size c11 x11),
      s_ser = (\<lambda>(x1, x2, x3, x4, x5, x6, x7, x8, x9, x10, x11) buf.
        ser_member c11 x11 (ser_member c10 x10 (ser_member c9 x9 (ser_member c8 x8 (
        ser_member c7 x7 (ser_member c6 x6 (ser_member c5 x5 (ser_member c4 x4 (
        ser_member c3 x3 (ser_member c2 x2 (ser_member c1 x1 (0, buf)))))))))))),
      s_unser = (\<lambda>mem sz.
        unser_member c1 mem sz 0 (\<lambda>l1 x1.
        unser_member c2 mem sz l1 (\<lambda>l2 x2.
        unser_member c3 mem sz l2 (\<lambda>l3 x3.
        unser_member c4 mem sz l3 (\<lambda>l4 x4.
        unser_member c5 mem sz l4 (\<lambda>l5 x5.
        unser_member c6 mem sz l5 (\<lambda>l6 x6.
        unser_member c7 mem sz l6 (\<lambda>l7 x7.
        unser_member c8 mem sz l7 (\<lambda>l8 x8.
        unser_member c9 mem sz l8 (\<lambda>l9 x9.
        unser_member c10 mem sz l9 (\<lambda>l10 x10.
        unser_member c11 mem sz l10 (\<lambda>l11 x11.
        Got l11 (x1, x2, x3, x4, x5, x6, x7, x8, x9, x10, x11)))))))))))))\<rparr>"

text \<open>The sum that \<^verbatim>\<open>Size\<close> returns ends at the eleventh member here: the line of the twelfth is a
  statement of its own, after the semicolon.\<close>

definition msg_slln_12 ::
  "'a s11n \<Rightarrow> 'b s11n \<Rightarrow> 'c s11n \<Rightarrow> 'd s11n \<Rightarrow> 'e s11n \<Rightarrow> 'f s11n \<Rightarrow> 'g s11n \<Rightarrow> 'h s11n \<Rightarrow> 'i s11n \<Rightarrow> 'j s11n \<Rightarrow> 'k s11n \<Rightarrow> 'l s11n \<Rightarrow> ('a \<times> 'b \<times> 'c \<times> 'd \<times> 'e \<times> 'f \<times> 'g \<times> 'h \<times> 'i \<times> 'j \<times> 'k \<times> 'l) s11n" where
  "msg_slln_12 c1 c2 c3 c4 c5 c6 c7 c8 c9 c10 c11 c12 =
     \<lparr>s_size = (\<lambda>(x1, x2, x3, x4, x5, x6, x7, x8, x9, x10, x11, x12). s_size c1 x1 + s_size c2 x2 + s_size c3 x3 + s_size c4 x4 + s_size c5 x5 + 
        s_size c6 x6 + s_size c7 x7 + s_size c8 x8 + s_size c9 x9 + s_size c10 x10 + 
        s_size c11 x11),
      s_ser = (\<lambda>(x1, x2, x3, x4, x5, x6, x7, x8, x9, x10, x11, x12) buf.
        ser_member c12 x12 (ser_member c11 x11 (ser_member c10 x10 (ser_member c9 x9 (
        ser_member c8 x8 (ser_member c7 x7 (ser_member c6 x6 (ser_member c5 x5 (
        ser_member c4 x4 (ser_member c3 x3 (ser_member c2 x2 (ser_member c1 x1 (0, buf))))))))))))),
      s_unser = (\<lambda>mem sz.
        unser_member c1 mem sz 0 (\<lambda>l1 x1.
        unser_member c2 mem sz l1 (\<lambda>l2 x2.
        unser_member c3 mem sz l2 (\<lambda>l3 x3.
        unser_member c4 mem sz l3 (\<lambda>l4 x4.
        unser_member c5 mem sz l4 (\<lambda>l5 x5.
        unser_member c6 mem sz l5 (\<lambda>l6 x6.
        unser_member c7 mem sz l6 (\<lambda>l7 x7.
        unser_member c8 mem sz l7 (\<lambda>l8 x8.
        unser_member c9 mem sz l8 (\<lambda>l9 x9.
        unser_member c10 mem sz l9 (\<lambda>l10 x10.
        unser_member c11 mem sz l10 (\<lambda>l11 x11.
        unser_member c12 mem sz l11 (\<lambda>l12 x12.
        Got l12 (x1, x2, x3, x4, x5, x6, x7, x8, x9, x10, x11, x12))))))))))))))\<rparr>"

text \<open>\<^verbatim>\<open>MESSAGE_HEAD_DEF\<close>: the header of four bytes, and the length of the body put into it afterwards.\<close>

definition build_header :: "u8 \<Rightarrow> u8 list" where
  "build_header msgid = [0, 0, 0xFF, msgid]"

definition fix_header :: "u8 list \<Rightarrow> u8 list" where
  "fix_header buf =
     (if length buf < 4 then buf
      else word_bytes 2 (of_nat (length buf - 4) :: u16) @ drop 2 buf)"

section \<open>Sizes in four bytes\<close>

lemma unat_max_u32: "unat (- 1 :: u32) = 2 ^ 32 - 1"
  by (simp add: unsigned_minus_1_eq_mask mask_eq_exp_minus_1)

lemma u32_not_max: "(w :: u32) \<noteq> - 1 \<Longrightarrow> unat w < 2 ^ 32 - 1"
proof -
  assume "w \<noteq> - 1"
  then have "unat w \<noteq> 2 ^ 32 - 1" using unat_max_u32 by (metis word_unat_eq_iff)
  moreover have "unat w < 2 ^ 32" using unsigned_less [of w] by simp
  ultimately show ?thesis by linarith
qed

lemma of_nat_fits:
  assumes "n + m \<le> unat (w :: u32)"
  shows "unat (of_nat n :: u32) = n" "(of_nat n :: u32) \<le> w"
proof -
  have "unat w < 2 ^ 32" using unsigned_less [of w] by simp
  then show n: "unat (of_nat n :: u32) = n" using assms by (simp add: unat_of_nat)
  then show "(of_nat n :: u32) \<le> w" using assms by (simp add: word_le_nat_alt)
qed

section \<open>Contracts\<close>

locale codec =
  fixes s :: "'a s11n" and ok :: "'a \<Rightarrow> bool" and enc :: "'a \<Rightarrow> u8 list"
  assumes ser: "ok x \<Longrightarrow> s_ser s x buf = (of_nat (length (enc x)), buf @ enc x)"
    and size: "ok x \<Longrightarrow> s_size s x = of_nat (length (enc x))"
    and unser: "\<lbrakk>ok x; length (enc x) \<le> unat sz; sz \<noteq> - 1\<rbrakk> \<Longrightarrow>
      s_unser s (enc x @ rest) sz = Got (of_nat (length (enc x))) x"
begin

lemma round_trip:
  assumes "ok x" "length (enc x) < 2 ^ 32 - 1"
  shows "s_unser s (snd (s_ser s x [])) (fst (s_ser s x [])) = Got (s_size s x) x"
proof -
  have "unat (of_nat (length (enc x)) :: u32) = length (enc x)" using assms(2) by (simp add: unat_of_nat)
  moreover from this have "(of_nat (length (enc x)) :: u32) \<noteq> - 1"
    using assms(2) by (metis less_irrefl unat_max_u32)
  ultimately show ?thesis
    using assms(1) unser [of x "of_nat (length (enc x))" "[]"] by (simp add: ser size)
qed

lemma member:
  assumes "ok x" "drop n mem = enc x @ rest" "n + length (enc x) \<le> unat sz" "sz \<noteq> - 1"
    and k: "drop (n + length (enc x)) mem = rest \<Longrightarrow> k (of_nat (n + length (enc x))) x = R"
  shows "unser_member s mem sz (of_nat n) k = R"
proof -
  have n: "unat (of_nat n :: u32) = n" and le: "(of_nat n :: u32) \<le> sz"
    using assms(3) by (rule of_nat_fits)+
  have sub: "unat (sz - of_nat n) = unat sz - n" using n le by (simp add: unat_sub_if_size word_le_nat_alt)
  have fits: "length (enc x) \<le> unat (sz - of_nat n)" using sub assms(3) by simp
  have "unat sz < 2 ^ 32 - 1" using assms(4) by (rule u32_not_max)
  then have big: "sz - of_nat n \<noteq> - 1" "(of_nat (length (enc x)) :: u32) \<noteq> - 1"
    using sub assms(3) by (auto dest!: arg_cong [where f = unat] simp: unat_max_u32 unat_of_nat)
  have "drop (n + length (enc x)) mem = rest"
    using arg_cong [OF assms(2), of "drop (length (enc x))"] by (simp add: add.commute)
  then show ?thesis
    using unser [OF assms(1) fits big(1), of rest] k big(2)
    by (simp add: unser_member_def n assms(2))
qed

lemma ser_member: "ok x \<Longrightarrow> ser_member s x (len, buf) = (len + of_nat (length (enc x)), buf @ enc x)"
  by (simp add: ser_member_def ser)

end

text \<open>The outcome of a call that is told the size \<open>sz\<close> is within that size.\<close>

definition within :: "u32 \<Rightarrow> 'a unser \<Rightarrow> bool" where
  "within sz r = (case r of Fault \<Rightarrow> False | Failed \<Rightarrow> True | Got n _ \<Rightarrow> n \<le> sz)"

lemma within_simps [simp]: "within sz (Got n x) = (n \<le> sz)" "within sz Failed" "\<not> within sz Fault"
  by (simp_all add: within_def)

lemma u32_sub_le:
  assumes "(len :: u32) \<le> sz" "r \<le> sz - len"
  shows "len + r \<le> sz"
proof -
  have s: "unat (sz - len) = unat sz - unat len" "unat len \<le> unat sz"
    using assms(1) by (simp_all add: unat_sub_if_size word_le_nat_alt)
  then have le: "unat len + unat r \<le> unat sz" using assms(2) by (simp add: word_le_nat_alt)
  moreover have "unat sz < 2 ^ 32" using unsigned_less [of sz] by simp
  ultimately have "unat (len + r) = unat len + unat r" by (simp add: unat_word_ariths)
  then show ?thesis using le by (simp add: word_le_nat_alt)
qed

locale guarded =
  fixes s :: "'a s11n"
  assumes stays: "unat sz \<le> length mem \<Longrightarrow> within sz (s_unser s mem sz)"
begin

lemma member:
  assumes "unat sz \<le> length mem" "len \<le> sz" "\<And>l x. l \<le> sz \<Longrightarrow> within sz (k l x)"
  shows "within sz (unser_member s mem sz len k)"
proof -
  have "unat (sz - len) = unat sz - unat len" using assms(2) by (simp add: unat_sub_if_size word_le_nat_alt)
  then have "within (sz - len) (s_unser s (drop (unat len) mem) (sz - len))"
    using assms(1) by (intro stays) simp
  then show ?thesis
    using assms(2,3) u32_sub_le by (auto simp: unser_member_def split: unser.splits)
qed

end

section \<open>The specialisations keep the contracts\<close>

lemma codec_int:
  assumes "LENGTH('w::len) = 8 * k"
  shows "codec (s11n_int k :: 'w word s11n) (\<lambda>_. True) (word_bytes k)"
  using word_bytes_inverse [OF assms] by unfold_locales (simp_all add: s11n_int_def)

interpretation u8: codec "s11n_int 1 :: u8 s11n" "\<lambda>_. True" "word_bytes 1" by (rule codec_int) simp
interpretation u16: codec "s11n_int 2 :: u16 s11n" "\<lambda>_. True" "word_bytes 2" by (rule codec_int) simp
interpretation u32: codec "s11n_int 4 :: u32 s11n" "\<lambda>_. True" "word_bytes 4" by (rule codec_int) simp
interpretation u64: codec "s11n_int 8 :: u64 s11n" "\<lambda>_. True" "word_bytes 8" by (rule codec_int) simp

lemma same_as_int: "s11n_pointer = s11n_int 8" "s11n_float = s11n_int 4" "s11n_double = s11n_int 8"
  by (simp_all add: s11n_pointer_def s11n_float_def s11n_double_def s11n_int_def cong: if_cong)

interpretation pointer: codec s11n_pointer "\<lambda>_. True" "word_bytes 8" unfolding same_as_int by (rule codec_int) simp
interpretation float: codec s11n_float "\<lambda>_. True" "word_bytes 4" unfolding same_as_int by (rule codec_int) simp
interpretation double: codec s11n_double "\<lambda>_. True" "word_bytes 8" unfolding same_as_int by (rule codec_int) simp

lemma chunks_concat_prefix:
  "\<forall>x \<in> set xs. length (f x) = k \<Longrightarrow> chunks k (length xs) (concat (map f xs) @ rest) = map f xs"
  by (induction xs) auto

lemma codec_array:
  assumes "LENGTH('w::len) = 8 * k" "0 < k"
  shows "codec (s11n_array k n :: 'w word list s11n) (\<lambda>xs. length xs = n) (\<lambda>xs. concat (map (word_bytes k) xs))"
proof (unfold_locales, goal_cases)
  case (3 xs sz rest)
  have "n \<le> unat sz" using 3(1,2) assms(2) le_trans [of n "k * n"] by (simp add: length_concat_words)
  moreover have "map word_of_bytes (chunks k n (concat (map (word_bytes k) xs) @ rest)) = xs"
    using 3(1) word_bytes_inverse [OF assms(1)] chunks_concat_prefix [of xs "word_bytes k" k rest] by (simp add: map_idI)
  ultimately show ?case using 3 by (simp add: s11n_array_def length_concat_words)
qed (simp_all add: s11n_array_def length_concat_words)

interpretation array_u16: codec "s11n_array 2 n :: u16 list s11n" "\<lambda>xs. length xs = n"
  "\<lambda>xs. concat (map (word_bytes 2) xs)" for n by (rule codec_array) simp_all

definition short_string :: "u8 list \<Rightarrow> bool" where
  "short_string s \<longleftrightarrow> length s < 65536"

definition string_bytes :: "u8 list \<Rightarrow> u8 list" where
  "string_bytes s = word_bytes 2 (of_nat (length s) :: u16) @ s"

lemma ucast_16_32:
  "n < 65536 \<Longrightarrow> (ucast (of_nat n :: u16) :: u32) = of_nat n"
  "n < 65536 \<Longrightarrow> (word_of_bytes (word_bytes 2 (of_nat n :: u16)) :: u16) = of_nat n"
  "n < 65536 \<Longrightarrow> unat (of_nat n :: u16) = n"
  "n < 65536 \<Longrightarrow> unat (of_nat n :: u32) = n"
  by (simp_all add: unsigned_of_nat take_bit_nat_eq_self word_bytes_inverse unat_of_nat)

interpretation str: codec s11n_string short_string string_bytes
proof (unfold_locales, goal_cases)
  case (1 s buf)
  then have "\<not> 0 < (of_nat (length s) :: u16) \<Longrightarrow> s = []"
    using ucast_16_32(3) [of "length s"] by (auto simp: short_string_def word_less_nat_alt)
  with 1 show ?case by (auto simp: s11n_string_def Let_def short_string_def string_bytes_def ucast_16_32)
next
  case (2 s)
  then show ?case by (simp add: s11n_string_def string_bytes_def)
next
  case (3 s sz rest)
  have "unat (of_nat (length s) + 2 :: u32) = length s + 2"
    using 3(1) by (simp add: short_string_def unat_word_ariths unat_of_nat)
  then have "\<not> sz < of_nat (length s) + 2" "\<not> sz < 2"
    using 3(2) by (simp_all add: string_bytes_def word_less_nat_alt)
  then show ?case
    using 3 by (simp add: s11n_string_def Let_def short_string_def string_bytes_def ucast_16_32)
qed

context codec
begin

lemma ser_elems:
  "\<forall>x \<in> set xs. ok x \<Longrightarrow>
   ser_elems s xs (of_nat a, buf) = (of_nat (a + length (concat (map enc xs))), buf @ concat (map enc xs))"
proof (induction xs arbitrary: a buf)
  case (Cons x xs)
  have "(ucast (ucast (of_nat a :: u16) + of_nat m :: u32) :: u16) = of_nat (a + m)" for m
  proof -
    have "(ucast (of_nat a :: u16) + of_nat m :: u32) = of_nat (take_bit 16 a + m)" by (simp add: unsigned_of_nat)
    moreover have "(of_nat (take_bit 32 (take_bit 16 a + m)) :: u16) = of_nat (a + m)"
      by (rule word_of_nat_eq_iff [THEN iffD2]) (simp add: take_bit_eq_mod mod_mod_cancel mod_add_left_eq)
    moreover have "(ucast (of_nat z :: u32) :: u16) = of_nat (take_bit 32 z)" for z
      by (simp add: unsigned_of_nat)
    ultimately show ?thesis by (simp only:)
  qed
  then show ?case
    using Cons.prems Cons.IH [of "a + length (enc x)" "buf @ enc x"] by (simp add: ser add.assoc)
qed simp

lemma unser_elems:
  "\<forall>x \<in> set xs. ok x \<Longrightarrow> drop n mem = concat (map enc xs) @ rest \<Longrightarrow>
   n + length (concat (map enc xs)) \<le> unat sz \<Longrightarrow> sz \<noteq> - 1 \<Longrightarrow>
   unser_elems s mem sz (length xs) (of_nat n) acc = Got (of_nat (n + length (concat (map enc xs)))) (acc xs)"
proof (induction xs arbitrary: n acc)
  case (Cons x xs)
  show ?case
    unfolding length_Cons unser_elems.simps
  proof (rule member)
    assume "drop (n + length (enc x)) mem = concat (map enc xs) @ rest"
    then show "unser_elems s mem sz (length xs) (of_nat (n + length (enc x))) (\<lambda>xs. acc (x # xs)) =
        Got (of_nat (n + length (concat (map enc (x # xs))))) (acc (x # xs))"
      using Cons.IH [of "n + length (enc x)" "\<lambda>xs. acc (x # xs)"] Cons.prems by (simp add: add.assoc)
  qed (use Cons.prems in auto)
qed simp

lemma size_elems:
  "\<forall>x \<in> set xs. ok x \<Longrightarrow> foldl (\<lambda>n x. n + s_size s x) w xs = w + of_nat (length (concat (map enc xs)))"
  by (induction xs arbitrary: w) (simp_all add: size add.assoc)

definition vector_ok :: "'a list \<Rightarrow> bool" where
  "vector_ok xs \<longleftrightarrow> length xs \<le> 1024 \<and> (\<forall>x \<in> set xs. ok x) \<and> length (concat (map enc xs)) + 2 < 65536"

definition vector_bytes :: "'a list \<Rightarrow> u8 list" where
  "vector_bytes xs = word_bytes 2 (of_nat (length xs) :: u16) @ concat (map enc xs)"

lemma vector: "codec (s11n_vector s) vector_ok vector_bytes"
proof (unfold_locales, goal_cases)
  case (1 xs buf)
  then show ?case
    using ser_elems [of xs 2 "buf @ word_bytes 2 (of_nat (length xs) :: u16)"]
      ucast_16_32(1) [of "2 + length (concat (map enc xs))"]
    by (simp add: s11n_vector_def vector_ok_def vector_bytes_def)
next
  case (2 xs)
  then show ?case by (simp add: s11n_vector_def size_elems vector_ok_def vector_bytes_def)
next
  case (3 xs sz rest)
  have ok: "\<forall>x \<in> set xs. ok x" and l: "length xs \<le> 1024" using 3(1) by (simp_all add: vector_ok_def)
  have "\<not> (of_nat (length xs) :: u16) > 1024" "\<not> sz < 2"
    using l 3(2) ucast_16_32(3) [of "length xs"] by (simp_all add: word_less_nat_alt vector_bytes_def)
  moreover have "unser_elems s (vector_bytes xs @ rest) sz (length xs) (of_nat 2) (\<lambda>xs. xs) =
      Got (of_nat (2 + length (concat (map enc xs)))) xs"
    by (rule unser_elems [where rest = rest]) (use ok 3 in \<open>simp_all add: vector_bytes_def\<close>)
  ultimately show ?case
    using l by (simp add: s11n_vector_def Let_def vector_bytes_def ucast_16_32)
qed

end

section \<open>Classes and messages keep the contracts\<close>

text \<open>\<open>reads bs K v\<close>: told to continue at any place behind which the bytes \<open>bs\<close> lie, the rest \<open>K\<close> of a
  chain of members consumes them and returns \<open>v\<close>.\<close>

definition reads :: "u8 list \<Rightarrow> (u8 list \<Rightarrow> u32 \<Rightarrow> u32 \<Rightarrow> 'b unser) \<Rightarrow> 'b \<Rightarrow> bool" where
  "reads bs K v \<longleftrightarrow>
     (\<forall>mem sz n rest. drop n mem = bs @ rest \<longrightarrow> n + length bs \<le> unat sz \<longrightarrow> sz \<noteq> - 1 \<longrightarrow>
        K mem sz (of_nat n) = Got (of_nat (n + length bs)) v)"

definition reads_first :: "u8 list \<Rightarrow> (u8 list \<Rightarrow> u32 \<Rightarrow> 'b unser) \<Rightarrow> 'b \<Rightarrow> bool" where
  "reads_first bs K v \<longleftrightarrow>
     (\<forall>sz rest. length bs \<le> unat sz \<longrightarrow> sz \<noteq> - 1 \<longrightarrow> K (bs @ rest) sz = Got (of_nat (length bs)) v)"

lemma reads_done: "reads [] (\<lambda>mem sz l. Got l v) v"
  by (simp add: reads_def)

lemma reads_member:
  assumes "codec c ok enc" "ok x" "reads bs (\<lambda>mem sz l. k mem sz l x) v"
  shows "reads (enc x @ bs) (\<lambda>mem sz l. unser_member c mem sz l (\<lambda>l x. k mem sz l x)) v"
  unfolding reads_def
proof (intro allI impI)
  fix mem n rest and sz :: u32
  assume d: "drop n mem = (enc x @ bs) @ rest" "n + length (enc x @ bs) \<le> unat sz" and sz: "sz \<noteq> - 1"
  show "unser_member c mem sz (of_nat n) (\<lambda>l x. k mem sz l x) = Got (of_nat (n + length (enc x @ bs))) v"
  proof (rule codec.member [OF assms(1,2)])
    assume "drop (n + length (enc x)) mem = bs @ rest"
    then show "k mem sz (of_nat (n + length (enc x))) x = Got (of_nat (n + length (enc x @ bs))) v"
      using assms(3) [unfolded reads_def, rule_format, of "n + length (enc x)" mem rest sz] d(2) sz
      by (simp only: length_append add.assoc simp_thms)
  qed (use d sz in simp_all)
qed

lemma reads_last:
  "\<lbrakk>codec c ok enc; ok x; f x = v\<rbrakk> \<Longrightarrow>
   reads (enc x) (\<lambda>mem sz l. unser_member c mem sz l (\<lambda>l x. Got l (f x))) v"
  using reads_member [of c ok enc x "[]" "\<lambda>mem sz l x. Got l (f x)" v] reads_done by fastforce

lemma reads_firstI:
  assumes "reads bs K v"
  shows "reads_first bs (\<lambda>mem sz. K mem sz 0) v"
  using assms [unfolded reads_def, rule_format, of 0] by (simp add: reads_first_def)

lemma reads_first_member:
  assumes "codec c ok enc" "ok x" "reads bs (\<lambda>mem sz l. k mem sz l x) v"
  shows "reads_first (enc x @ bs) (\<lambda>mem sz. unser_member c mem sz 0 (\<lambda>l x. k mem sz l x)) v"
  using reads_firstI [OF reads_member [of c ok enc x bs k v, OF assms]] .

lemma codecI:
  assumes "\<And>x buf. ok x \<Longrightarrow> s_ser s x buf = (of_nat (length (enc x)), buf @ enc x)"
    "\<And>x. ok x \<Longrightarrow> s_size s x = of_nat (length (enc x))"
    "\<And>x. ok x \<Longrightarrow> reads_first (enc x) (\<lambda>mem sz. s_unser s mem sz) x"
  shows "codec s ok enc"
  using assms by unfold_locales (auto simp: reads_first_def)

lemma traits_are_messages:
  "s11n_traits_1 c1 = msg_slln_1 c1"
  "s11n_traits_2 c1 c2 = msg_slln_2 c1 c2"
  "s11n_traits_3 c1 c2 c3 = msg_slln_3 c1 c2 c3"
  "s11n_traits_4 c1 c2 c3 c4 = msg_slln_4 c1 c2 c3 c4"
  "s11n_traits_5 c1 c2 c3 c4 c5 = msg_slln_5 c1 c2 c3 c4 c5"
  "s11n_traits_6 c1 c2 c3 c4 c5 c6 = msg_slln_6 c1 c2 c3 c4 c5 c6"
  "s11n_traits_7 c1 c2 c3 c4 c5 c6 c7 = msg_slln_7 c1 c2 c3 c4 c5 c6 c7"
  "s11n_traits_8 c1 c2 c3 c4 c5 c6 c7 c8 = msg_slln_8 c1 c2 c3 c4 c5 c6 c7 c8"
  "s11n_traits_9 c1 c2 c3 c4 c5 c6 c7 c8 c9 = msg_slln_9 c1 c2 c3 c4 c5 c6 c7 c8 c9"
  by (simp_all add: s11n_traits_1_def msg_slln_1_def s11n_traits_2_def msg_slln_2_def s11n_traits_3_def msg_slln_3_def
    s11n_traits_4_def msg_slln_4_def s11n_traits_5_def msg_slln_5_def s11n_traits_6_def msg_slln_6_def
    s11n_traits_7_def msg_slln_7_def s11n_traits_8_def msg_slln_8_def s11n_traits_9_def msg_slln_9_def)

lemma codec_msg_1:
  assumes c: "codec c1 ok1 enc1"
  shows "codec (msg_slln_1 c1)
    (\<lambda>x1. ok1 x1)
    (\<lambda>x1. enc1 x1)"
  using codec.ser [OF c] codec.size [OF c] codec.unser [OF c]
  by unfold_locales (simp_all add: msg_slln_1_def)

lemma codec_msg_2:
  assumes c: "codec c1 ok1 enc1" "codec c2 ok2 enc2"
  shows "codec (msg_slln_2 c1 c2)
    (\<lambda>(x1, x2). ok1 x1 \<and> ok2 x2)
    (\<lambda>(x1, x2). enc1 x1 @ enc2 x2)"
  by (rule codecI)
    (auto simp: msg_slln_2_def c [THEN codec.ser_member] c [THEN codec.size] simp del: append_assoc
      intro!: c [THEN reads_first_member] c [THEN reads_member] c [THEN reads_last])

lemma codec_msg_3:
  assumes c: "codec c1 ok1 enc1" "codec c2 ok2 enc2" "codec c3 ok3 enc3"
  shows "codec (msg_slln_3 c1 c2 c3)
    (\<lambda>(x1, x2, x3). ok1 x1 \<and> ok2 x2 \<and> ok3 x3)
    (\<lambda>(x1, x2, x3). enc1 x1 @ enc2 x2 @ enc3 x3)"
  by (rule codecI)
    (auto simp: msg_slln_3_def c [THEN codec.ser_member] c [THEN codec.size] simp del: append_assoc
      intro!: c [THEN reads_first_member] c [THEN reads_member] c [THEN reads_last])

lemma codec_msg_4:
  assumes c: "codec c1 ok1 enc1" "codec c2 ok2 enc2" "codec c3 ok3 enc3" "codec c4 ok4 enc4"
  shows "codec (msg_slln_4 c1 c2 c3 c4)
    (\<lambda>(x1, x2, x3, x4). ok1 x1 \<and> ok2 x2 \<and> ok3 x3 \<and> ok4 x4)
    (\<lambda>(x1, x2, x3, x4). enc1 x1 @ enc2 x2 @ enc3 x3 @ enc4 x4)"
  by (rule codecI)
    (auto simp: msg_slln_4_def c [THEN codec.ser_member] c [THEN codec.size] simp del: append_assoc
      intro!: c [THEN reads_first_member] c [THEN reads_member] c [THEN reads_last])

lemma codec_msg_5:
  assumes c: "codec c1 ok1 enc1" "codec c2 ok2 enc2" "codec c3 ok3 enc3" "codec c4 ok4 enc4"
     "codec c5 ok5 enc5"
  shows "codec (msg_slln_5 c1 c2 c3 c4 c5)
    (\<lambda>(x1, x2, x3, x4, x5). ok1 x1 \<and> ok2 x2 \<and> ok3 x3 \<and> ok4 x4 \<and> ok5 x5)
    (\<lambda>(x1, x2, x3, x4, x5). enc1 x1 @ enc2 x2 @ enc3 x3 @ enc4 x4 @ enc5 x5)"
  by (rule codecI)
    (auto simp: msg_slln_5_def c [THEN codec.ser_member] c [THEN codec.size] simp del: append_assoc
      intro!: c [THEN reads_first_member] c [THEN reads_member] c [THEN reads_last])

lemma codec_msg_6:
  assumes c: "codec c1 ok1 enc1" "codec c2 ok2 enc2" "codec c3 ok3 enc3" "codec c4 ok4 enc4"
     "codec c5 ok5 enc5" "codec c6 ok6 enc6"
  shows "codec (msg_slln_6 c1 c2 c3 c4 c5 c6)
    (\<lambda>(x1, x2, x3, x4, x5, x6). ok1 x1 \<and> ok2 x2 \<and> ok3 x3 \<and> ok4 x4 \<and> ok5 x5 \<and> ok6 x6)
    (\<lambda>(x1, x2, x3, x4, x5, x6). enc1 x1 @ enc2 x2 @ enc3 x3 @ enc4 x4 @ enc5 x5 @ enc6 x6)"
  by (rule codecI)
    (auto simp: msg_slln_6_def c [THEN codec.ser_member] c [THEN codec.size] simp del: append_assoc
      intro!: c [THEN reads_first_member] c [THEN reads_member] c [THEN reads_last])

lemma codec_msg_7:
  assumes c: "codec c1 ok1 enc1" "codec c2 ok2 enc2" "codec c3 ok3 enc3" "codec c4 ok4 enc4"
     "codec c5 ok5 enc5" "codec c6 ok6 enc6" "codec c7 ok7 enc7"
  shows "codec (msg_slln_7 c1 c2 c3 c4 c5 c6 c7)
    (\<lambda>(x1, x2, x3, x4, x5, x6, x7). ok1 x1 \<and> ok2 x2 \<and> ok3 x3 \<and> ok4 x4 \<and> ok5 x5 \<and> ok6 x6 \<and> ok7 x7)
    (\<lambda>(x1, x2, x3, x4, x5, x6, x7). enc1 x1 @ enc2 x2 @ enc3 x3 @ enc4 x4 @ enc5 x5 @ enc6 x6 @ enc7 x7)"
  by (rule codecI)
    (auto simp: msg_slln_7_def c [THEN codec.ser_member] c [THEN codec.size] simp del: append_assoc
      intro!: c [THEN reads_first_member] c [THEN reads_member] c [THEN reads_last])

lemma codec_msg_8:
  assumes c: "codec c1 ok1 enc1" "codec c2 ok2 enc2" "codec c3 ok3 enc3" "codec c4 ok4 enc4"
     "codec c5 ok5 enc5" "codec c6 ok6 enc6" "codec c7 ok7 enc7" "codec c8 ok8 enc8"
  shows "codec (msg_slln_8 c1 c2 c3 c4 c5 c6 c7 c8)
    (\<lambda>(x1, x2, x3, x4, x5, x6, x7, x8). ok1 x1 \<and> ok2 x2 \<and> ok3 x3 \<and> ok4 x4 \<and> ok5 x5 \<and> ok6 x6 \<and> ok7 x7 \<and> ok8 x8)
    (\<lambda>(x1, x2, x3, x4, x5, x6, x7, x8). enc1 x1 @ enc2 x2 @ enc3 x3 @ enc4 x4 @ enc5 x5 @ enc6 x6 @ enc7 x7 @ enc8 x8)"
  by (rule codecI)
    (auto simp: msg_slln_8_def c [THEN codec.ser_member] c [THEN codec.size] simp del: append_assoc
      intro!: c [THEN reads_first_member] c [THEN reads_member] c [THEN reads_last])

lemma codec_msg_9:
  assumes c: "codec c1 ok1 enc1" "codec c2 ok2 enc2" "codec c3 ok3 enc3" "codec c4 ok4 enc4"
     "codec c5 ok5 enc5" "codec c6 ok6 enc6" "codec c7 ok7 enc7" "codec c8 ok8 enc8"
     "codec c9 ok9 enc9"
  shows "codec (msg_slln_9 c1 c2 c3 c4 c5 c6 c7 c8 c9)
    (\<lambda>(x1, x2, x3, x4, x5, x6, x7, x8, x9). ok1 x1 \<and> ok2 x2 \<and> ok3 x3 \<and> ok4 x4 \<and> ok5 x5 \<and> ok6 x6 \<and> ok7 x7 \<and> ok8 x8 \<and> ok9 x9)
    (\<lambda>(x1, x2, x3, x4, x5, x6, x7, x8, x9). enc1 x1 @ enc2 x2 @ enc3 x3 @ enc4 x4 @ enc5 x5 @ enc6 x6 @ enc7 x7 @ enc8 x8 @ enc9 x9)"
  by (rule codecI)
    (auto simp: msg_slln_9_def c [THEN codec.ser_member] c [THEN codec.size] simp del: append_assoc
      intro!: c [THEN reads_first_member] c [THEN reads_member] c [THEN reads_last])

lemma codec_msg_10:
  assumes c: "codec c1 ok1 enc1" "codec c2 ok2 enc2" "codec c3 ok3 enc3" "codec c4 ok4 enc4"
     "codec c5 ok5 enc5" "codec c6 ok6 enc6" "codec c7 ok7 enc7" "codec c8 ok8 enc8"
     "codec c9 ok9 enc9" "codec c10 ok10 enc10"
  shows "codec (msg_slln_10 c1 c2 c3 c4 c5 c6 c7 c8 c9 c10)
    (\<lambda>(x1, x2, x3, x4, x5, x6, x7, x8, x9, x10). ok1 x1 \<and> ok2 x2 \<and> ok3 x3 \<and> ok4 x4 \<and> ok5 x5 \<and> ok6 x6 \<and> ok7 x7 \<and> ok8 x8 \<and> ok9 x9 \<and> ok10 x10)
    (\<lambda>(x1, x2, x3, x4, x5, x6, x7, x8, x9, x10). enc1 x1 @ enc2 x2 @ enc3 x3 @ enc4 x4 @ enc5 x5 @ enc6 x6 @ enc7 x7 @ enc8 x8 @ enc9 x9 @ enc10 x10)"
  by (rule codecI)
    (auto simp: msg_slln_10_def c [THEN codec.ser_member] c [THEN codec.size] simp del: append_assoc
      intro!: c [THEN reads_first_member] c [THEN reads_member] c [THEN reads_last])

lemma codec_msg_11:
  assumes c: "codec c1 ok1 enc1" "codec c2 ok2 enc2" "codec c3 ok3 enc3" "codec c4 ok4 enc4"
     "codec c5 ok5 enc5" "codec c6 ok6 enc6" "codec c7 ok7 enc7" "codec c8 ok8 enc8"
     "codec c9 ok9 enc9" "codec c10 ok10 enc10" "codec c11 ok11 enc11"
  shows "codec (msg_slln_11 c1 c2 c3 c4 c5 c6 c7 c8 c9 c10 c11)
    (\<lambda>(x1, x2, x3, x4, x5, x6, x7, x8, x9, x10, x11). ok1 x1 \<and> ok2 x2 \<and> ok3 x3 \<and> ok4 x4 \<and> ok5 x5 \<and> ok6 x6 \<and> ok7 x7 \<and> ok8 x8 \<and> ok9 x9 \<and> ok10 x10 \<and> ok11 x11)
    (\<lambda>(x1, x2, x3, x4, x5, x6, x7, x8, x9, x10, x11). enc1 x1 @ enc2 x2 @ enc3 x3 @ enc4 x4 @ enc5 x5 @ enc6 x6 @ enc7 x7 @ enc8 x8 @ enc9 x9 @ enc10 x10 @ enc11 x11)"
  by (rule codecI)
    (auto simp: msg_slln_11_def c [THEN codec.ser_member] c [THEN codec.size] simp del: append_assoc
      intro!: c [THEN reads_first_member] c [THEN reads_member] c [THEN reads_last])

text \<open>The class of twelve members keeps the contract but for its \<^verbatim>\<open>Size\<close>: with the sum of all twelve in
  its place it would keep it whole.\<close>

lemma codec_msg_12:
  assumes c: "codec c1 ok1 enc1" "codec c2 ok2 enc2" "codec c3 ok3 enc3" "codec c4 ok4 enc4"
     "codec c5 ok5 enc5" "codec c6 ok6 enc6" "codec c7 ok7 enc7" "codec c8 ok8 enc8"
     "codec c9 ok9 enc9" "codec c10 ok10 enc10" "codec c11 ok11 enc11" "codec c12 ok12 enc12"
  shows "codec ((msg_slln_12 c1 c2 c3 c4 c5 c6 c7 c8 c9 c10 c11 c12)\<lparr>s_size :=
    (\<lambda>(x1, x2, x3, x4, x5, x6, x7, x8, x9, x10, x11, x12). s_size c1 x1 + s_size c2 x2 + s_size c3 x3 +
      s_size c4 x4 + s_size c5 x5 + s_size c6 x6 + s_size c7 x7 + s_size c8 x8 + s_size c9 x9 + s_size c10 x10 +
      s_size c11 x11 + s_size c12 x12)\<rparr>)
    (\<lambda>(x1, x2, x3, x4, x5, x6, x7, x8, x9, x10, x11, x12). ok1 x1 \<and> ok2 x2 \<and> ok3 x3 \<and> ok4 x4 \<and> ok5 x5 \<and> ok6 x6 \<and> ok7 x7 \<and> ok8 x8 \<and> ok9 x9 \<and> ok10 x10 \<and> ok11 x11 \<and> ok12 x12)
    (\<lambda>(x1, x2, x3, x4, x5, x6, x7, x8, x9, x10, x11, x12). enc1 x1 @ enc2 x2 @ enc3 x3 @ enc4 x4 @ enc5 x5 @ enc6 x6 @ enc7 x7 @ enc8 x8 @ enc9 x9 @ enc10 x10 @ enc11 x11 @ enc12 x12)"
  by (rule codecI)
    (auto simp: msg_slln_12_def c [THEN codec.ser_member] c [THEN codec.size] simp del: append_assoc
      intro!: c [THEN reads_first_member] c [THEN reads_member] c [THEN reads_last])


section \<open>Nothing outside the size is read\<close>

lemma guarded_int: "guarded (s11n_int k)"
proof
  fix sz :: u32 and mem :: "u8 list"
  assume "unat sz \<le> length mem"
  moreover have "k \<le> unat sz \<Longrightarrow> (of_nat k :: u32) \<le> sz" using of_nat_fits(2) [of k 0 sz] by simp
  ultimately show "within sz (s_unser (s11n_int k) mem sz)" by (simp add: s11n_int_def)
qed

interpretation g8: guarded "s11n_int 1 :: u8 s11n" by (rule guarded_int)
interpretation g16: guarded "s11n_int 2 :: u16 s11n" by (rule guarded_int)
interpretation g32: guarded "s11n_int 4 :: u32 s11n" by (rule guarded_int)
interpretation g64: guarded "s11n_int 8 :: u64 s11n" by (rule guarded_int)

interpretation gstr: guarded s11n_string
proof
  fix sz :: u32 and mem :: "u8 list"
  assume le: "unat sz \<le> length mem"
  let ?l = "word_of_bytes (take 2 mem) :: u16"
  have "unat ?l < 65536" using unsigned_less [of ?l, where 'a = nat] by simp
  then have l: "unat (ucast ?l + 2 :: u32) = unat ?l + 2"
    by (simp add: unat_word_ariths unsigned_ucast_eq take_bit_nat_eq_self)
  have "\<not> sz < 2 \<Longrightarrow> \<not> sz < ucast ?l + 2 \<Longrightarrow> unat ?l + 2 \<le> length mem"
    using le l by (simp add: word_less_nat_alt)
  then show "within sz (s_unser s11n_string mem sz)"
    using le by (auto simp: s11n_string_def Let_def word_less_nat_alt not_less word_le_nat_alt add.commute)
qed

context guarded
begin

lemma unser_elems:
  "unat sz \<le> length mem \<Longrightarrow> len \<le> sz \<Longrightarrow> within sz (unser_elems s mem sz n len acc)"
  by (induction n arbitrary: len acc) (auto intro: member)

lemma vector: "guarded (s11n_vector s)"
proof
  fix sz :: u32 and mem :: "u8 list"
  assume "unat sz \<le> length mem"
  then show "within sz (s_unser (s11n_vector s) mem sz)"
    using unser_elems [of sz mem 2] by (auto simp: s11n_vector_def Let_def word_less_nat_alt not_less word_le_nat_alt)
qed

end

interpretation strs: codec "s11n_vector s11n_string" str.vector_ok str.vector_bytes by (rule str.vector)
interpretation gstrs: guarded "s11n_vector s11n_string" by (rule gstr.vector)

text \<open>\<^verbatim>\<open>Array\<close> does leave the buffer: four elements of two bytes are copied out of five bytes.\<close>

lemma array_not_guarded: "s_unser (s11n_array 2 4 :: u16 list s11n) [1, 2, 3, 4, 5] 5 = Fault"
  by (simp add: s11n_array_def)

lemma guarded_first:
  "\<lbrakk>guarded c; unat sz \<le> length mem; \<And>l x. l \<le> sz \<Longrightarrow> within sz (k l x)\<rbrakk> \<Longrightarrow>
   within sz (unser_member c mem sz 0 k)"
  by (rule guarded.member) simp_all

lemma guarded_msg_1:
  assumes g: "guarded c1"
  shows "guarded (msg_slln_1 c1)"
  using guarded.stays [OF g] by unfold_locales (simp add: msg_slln_1_def)

lemma guarded_msg_2:
  assumes g: "guarded c1" "guarded c2"
  shows "guarded (msg_slln_2 c1 c2)"
  by unfold_locales (auto simp: msg_slln_2_def intro!: g [THEN guarded_first] g [THEN guarded.member])

lemma guarded_msg_3:
  assumes g: "guarded c1" "guarded c2" "guarded c3"
  shows "guarded (msg_slln_3 c1 c2 c3)"
  by unfold_locales (auto simp: msg_slln_3_def intro!: g [THEN guarded_first] g [THEN guarded.member])

lemma guarded_msg_4:
  assumes g: "guarded c1" "guarded c2" "guarded c3" "guarded c4"
  shows "guarded (msg_slln_4 c1 c2 c3 c4)"
  by unfold_locales (auto simp: msg_slln_4_def intro!: g [THEN guarded_first] g [THEN guarded.member])

lemma guarded_msg_5:
  assumes g: "guarded c1" "guarded c2" "guarded c3" "guarded c4" "guarded c5"
  shows "guarded (msg_slln_5 c1 c2 c3 c4 c5)"
  by unfold_locales (auto simp: msg_slln_5_def intro!: g [THEN guarded_first] g [THEN guarded.member])

lemma guarded_msg_6:
  assumes g: "guarded c1" "guarded c2" "guarded c3" "guarded c4" "guarded c5" "guarded c6"
  shows "guarded (msg_slln_6 c1 c2 c3 c4 c5 c6)"
  by unfold_locales (auto simp: msg_slln_6_def intro!: g [THEN guarded_first] g [THEN guarded.member])

lemma guarded_msg_7:
  assumes g: "guarded c1" "guarded c2" "guarded c3" "guarded c4" "guarded c5" "guarded c6"
     "guarded c7"
  shows "guarded (msg_slln_7 c1 c2 c3 c4 c5 c6 c7)"
  by unfold_locales (auto simp: msg_slln_7_def intro!: g [THEN guarded_first] g [THEN guarded.member])

lemma guarded_msg_8:
  assumes g: "guarded c1" "guarded c2" "guarded c3" "guarded c4" "guarded c5" "guarded c6"
     "guarded c7" "guarded c8"
  shows "guarded (msg_slln_8 c1 c2 c3 c4 c5 c6 c7 c8)"
  by unfold_locales (auto simp: msg_slln_8_def intro!: g [THEN guarded_first] g [THEN guarded.member])

lemma guarded_msg_9:
  assumes g: "guarded c1" "guarded c2" "guarded c3" "guarded c4" "guarded c5" "guarded c6"
     "guarded c7" "guarded c8" "guarded c9"
  shows "guarded (msg_slln_9 c1 c2 c3 c4 c5 c6 c7 c8 c9)"
  by unfold_locales (auto simp: msg_slln_9_def intro!: g [THEN guarded_first] g [THEN guarded.member])

lemma guarded_msg_10:
  assumes g: "guarded c1" "guarded c2" "guarded c3" "guarded c4" "guarded c5" "guarded c6"
     "guarded c7" "guarded c8" "guarded c9" "guarded c10"
  shows "guarded (msg_slln_10 c1 c2 c3 c4 c5 c6 c7 c8 c9 c10)"
  by unfold_locales (auto simp: msg_slln_10_def intro!: g [THEN guarded_first] g [THEN guarded.member])

lemma guarded_msg_11:
  assumes g: "guarded c1" "guarded c2" "guarded c3" "guarded c4" "guarded c5" "guarded c6"
     "guarded c7" "guarded c8" "guarded c9" "guarded c10" "guarded c11"
  shows "guarded (msg_slln_11 c1 c2 c3 c4 c5 c6 c7 c8 c9 c10 c11)"
  by unfold_locales (auto simp: msg_slln_11_def intro!: g [THEN guarded_first] g [THEN guarded.member])

lemma guarded_msg_12:
  assumes g: "guarded c1" "guarded c2" "guarded c3" "guarded c4" "guarded c5" "guarded c6"
     "guarded c7" "guarded c8" "guarded c9" "guarded c10" "guarded c11" "guarded c12"
  shows "guarded (msg_slln_12 c1 c2 c3 c4 c5 c6 c7 c8 c9 c10 c11 c12)"
  by unfold_locales (auto simp: msg_slln_12_def intro!: g [THEN guarded_first] g [THEN guarded.member])

section \<open>Properties\<close>

abbreviation byte_codec :: "u8 s11n" where
  "byte_codec \<equiv> s11n_int 1"

lemma fix_header_build:
  "length body < 65536 \<Longrightarrow>
   fix_header (build_header msgid @ body) = word_bytes 2 (of_nat (length body) :: u16) @ [0xFF, msgid] @ body"
  by (simp add: fix_header_def build_header_def)

text \<open>C6: a message whose specialisation keeps the contract, and whose body is shorter than 65536 bytes, is sent as
  the length of the body in two bytes, the byte 255, the number of the message and the body; and reading the
  body with the size of the packet less the header gives the message back and consumes the whole body.\<close>

theorem packet_round_trip:
  assumes "codec c ok enc" "ok x" "length (enc x) < 65536"
  shows "fix_header (snd (s_ser c x (build_header msgid))) =
           word_bytes 2 (of_nat (length (enc x)) :: u16) @ [0xFF, msgid] @ enc x \<and>
         s_unser c (drop 4 (fix_header (snd (s_ser c x (build_header msgid)))))
           (of_nat (length (fix_header (snd (s_ser c x (build_header msgid)))) - 4)) =
           Got (of_nat (length (enc x))) x"
proof -
  have p: "fix_header (snd (s_ser c x (build_header msgid))) =
      word_bytes 2 (of_nat (length (enc x)) :: u16) @ [0xFF, msgid] @ enc x"
    using codec.ser [OF assms(1,2)] fix_header_build [OF assms(3)] by simp
  have n: "unat (of_nat (length (enc x)) :: u32) = length (enc x)" using assms(3) by (rule ucast_16_32)
  then have "(of_nat (length (enc x)) :: u32) \<noteq> - 1" using assms(3) by (auto simp: unat_max_u32)
  then show ?thesis using p n codec.unser [OF assms(1,2), of "of_nat (length (enc x))" "[]"] by simp
qed

lemma packet_round_trip_witness:
  "fix_header (snd (s_ser (msg_slln_2 (s11n_int 4 :: u32 s11n) s11n_string) (7, [65, 66]) (build_header 9))) =
     word_bytes 2 (of_nat (length (word_bytes 4 (7 :: u32) @ string_bytes [65, 66])) :: u16) @ [0xFF, 9] @
       word_bytes 4 (7 :: u32) @ string_bytes [65, 66] \<and>
   s_unser (msg_slln_2 (s11n_int 4 :: u32 s11n) s11n_string)
     (drop 4 (fix_header (snd (s_ser (msg_slln_2 (s11n_int 4 :: u32 s11n) s11n_string) (7, [65, 66]) (build_header 9)))))
     (of_nat (length (fix_header (snd (s_ser (msg_slln_2 (s11n_int 4 :: u32 s11n) s11n_string) (7, [65, 66]) (build_header 9)))) - 4)) =
     Got (of_nat (length (word_bytes 4 (7 :: u32) @ string_bytes [65, 66]))) (7, [65, 66])"
proof -
  have ok: "case (7 :: u32, [65, 66 :: u8]) of (x1, x2) \<Rightarrow> True \<and> short_string x2" by (simp add: short_string_def)
  have "length (case (7 :: u32, [65, 66 :: u8]) of (x1, x2) \<Rightarrow> word_bytes 4 x1 @ string_bytes x2) < 65536"
    by (simp add: string_bytes_def)
  from packet_round_trip [OF codec_msg_2 [OF u32.codec_axioms str.codec_axioms] ok this, of 9]
  show ?thesis unfolding prod.case .
qed

text \<open>C23: a class of twelve members is written as its members one after the other in the order of the macro,
  the length returned is the number of bytes written, and the same bytes are read back as the same members,
  whatever follows them in memory, for any twelve member types that keep the contract.  \<^verbatim>\<open>Size\<close> of such a
  class, alone among the macros, is short of that by the length of the twelfth member.\<close>

theorem class_round_trip:
  assumes "codec c1 ok1 enc1" "codec c2 ok2 enc2" "codec c3 ok3 enc3" "codec c4 ok4 enc4" "codec c5 ok5 enc5"
    "codec c6 ok6 enc6" "codec c7 ok7 enc7" "codec c8 ok8 enc8" "codec c9 ok9 enc9" "codec c10 ok10 enc10"
    "codec c11 ok11 enc11" "codec c12 ok12 enc12"
    and "ok1 x1" "ok2 x2" "ok3 x3" "ok4 x4" "ok5 x5" "ok6 x6" "ok7 x7" "ok8 x8" "ok9 x9" "ok10 x10" "ok11 x11" "ok12 x12"
    and "bytes = enc1 x1 @ enc2 x2 @ enc3 x3 @ enc4 x4 @ enc5 x5 @ enc6 x6 @ enc7 x7 @ enc8 x8 @ enc9 x9 @
      enc10 x10 @ enc11 x11 @ enc12 x12"
    and "length bytes \<le> unat sz" "sz \<noteq> - 1"
  shows "s_ser (msg_slln_12 c1 c2 c3 c4 c5 c6 c7 c8 c9 c10 c11 c12) (x1, x2, x3, x4, x5, x6, x7, x8, x9, x10, x11, x12) buf =
           (of_nat (length bytes), buf @ bytes) \<and>
         s_size (msg_slln_12 c1 c2 c3 c4 c5 c6 c7 c8 c9 c10 c11 c12) (x1, x2, x3, x4, x5, x6, x7, x8, x9, x10, x11, x12) =
           of_nat (length bytes - length (enc12 x12)) \<and>
         s_unser (msg_slln_12 c1 c2 c3 c4 c5 c6 c7 c8 c9 c10 c11 c12) (bytes @ rest) sz =
           Got (of_nat (length bytes)) (x1, x2, x3, x4, x5, x6, x7, x8, x9, x10, x11, x12)"
proof -
  let ?x = "(x1, x2, x3, x4, x5, x6, x7, x8, x9, x10, x11, x12)"
  note c = codec_msg_12 [OF assms(1-12)]
  have "case ?x of (x1, x2, x3, x4, x5, x6, x7, x8, x9, x10, x11, x12) \<Rightarrow>
      ok1 x1 \<and> ok2 x2 \<and> ok3 x3 \<and> ok4 x4 \<and> ok5 x5 \<and> ok6 x6 \<and> ok7 x7 \<and> ok8 x8 \<and> ok9 x9 \<and> ok10 x10 \<and>
      ok11 x11 \<and> ok12 x12"
    using assms(13-24) by simp
  note this_ok = this
  have "s_size (msg_slln_12 c1 c2 c3 c4 c5 c6 c7 c8 c9 c10 c11 c12) ?x = of_nat (length bytes - length (enc12 x12))"
    using assms(13-23,25) assms(1-11) [THEN codec.size] by (simp add: msg_slln_12_def add.assoc)
  then show ?thesis
    using codec.ser [OF c this_ok, of buf] codec.unser [OF c this_ok, of sz rest] assms(25-27) by simp
qed

lemma class_round_trip_witness:
  "s_ser (msg_slln_12 byte_codec byte_codec byte_codec byte_codec byte_codec byte_codec byte_codec byte_codec byte_codec
       byte_codec s11n_string byte_codec) (1, 2, 3, 4, 5, 6, 7, 8, 9, 10, [65], 12) [0] =
     (of_nat (length [1, 2, 3, 4, 5, 6, 7, 8, 9, 10, 1, 0, 65, 12 :: u8]),
      [0] @ [1, 2, 3, 4, 5, 6, 7, 8, 9, 10, 1, 0, 65, 12]) \<and>
   s_size (msg_slln_12 byte_codec byte_codec byte_codec byte_codec byte_codec byte_codec byte_codec byte_codec byte_codec
       byte_codec s11n_string byte_codec) (1, 2, 3, 4, 5, 6, 7, 8, 9, 10, [65], 12) =
     of_nat (length [1, 2, 3, 4, 5, 6, 7, 8, 9, 10, 1, 0, 65, 12 :: u8] - length (word_bytes 1 (12 :: u8))) \<and>
   s_unser (msg_slln_12 byte_codec byte_codec byte_codec byte_codec byte_codec byte_codec byte_codec byte_codec byte_codec
       byte_codec s11n_string byte_codec) ([1, 2, 3, 4, 5, 6, 7, 8, 9, 10, 1, 0, 65, 12] @ [99]) 100 =
     Got (of_nat (length [1, 2, 3, 4, 5, 6, 7, 8, 9, 10, 1, 0, 65, 12 :: u8])) (1, 2, 3, 4, 5, 6, 7, 8, 9, 10, [65], 12)"
  by (rule class_round_trip [OF u8.codec_axioms u8.codec_axioms u8.codec_axioms u8.codec_axioms
       u8.codec_axioms u8.codec_axioms u8.codec_axioms u8.codec_axioms u8.codec_axioms u8.codec_axioms
       str.codec_axioms u8.codec_axioms])
    (simp_all add: short_string_def string_bytes_def word_bytes_def le_bytes_numeral)

text \<open>C21: reading a class of twelve members, each of whose types stays inside the size it is told, with a size
  that does not exceed the memory there is, never leaves the memory, and when it succeeds it has consumed no
  more than the size; the same holds of a vector of such a type, however hostile the bytes are.\<close>

theorem class_reads_inside:
  assumes "guarded c1" "guarded c2" "guarded c3" "guarded c4" "guarded c5" "guarded c6" "guarded c7" "guarded c8"
    "guarded c9" "guarded c10" "guarded c11" "guarded c12" "unat sz \<le> length mem"
  shows "within sz (s_unser (msg_slln_12 c1 c2 c3 c4 c5 c6 c7 c8 c9 c10 c11 c12) mem sz) \<and>
         within sz (s_unser (s11n_vector c1) mem sz)"
  using guarded.stays [OF guarded_msg_12 [OF assms(1-12)] assms(13)]
    guarded.stays [OF guarded.vector [OF assms(1)] assms(13)] by simp

lemma class_reads_inside_witness:
  "within 3 (s_unser (msg_slln_12 s11n_string s11n_string s11n_string s11n_string s11n_string s11n_string
       s11n_string s11n_string s11n_string s11n_string s11n_string s11n_string) [1, 0, 65] 3) \<and>
   within 3 (s_unser (s11n_vector s11n_string) [1, 0, 65] 3)"
  by (rule class_reads_inside) (simp_all add: gstr.guarded_axioms)

text \<open>A vector whose elements keep the contract and take fewer than 65536 bytes with the count is read back
  when it has at most 1024 elements; a longer one is written all the same, and its reader refuses it.\<close>

theorem vector_round_trip:
  assumes "codec c ok enc" "\<forall>x \<in> set xs. ok x" "length (concat (map enc xs)) + 2 < 65536" "length xs < 65536"
    "length (concat (map enc xs)) + 2 \<le> unat sz" "sz \<noteq> - 1"
  shows "s_unser (s11n_vector c) (snd (s_ser (s11n_vector c) xs []) @ rest) sz =
           (if length xs \<le> 1024 then Got (of_nat (length (concat (map enc xs)) + 2)) xs else Failed)"
proof (cases "length xs \<le> 1024")
  case True
  then have "codec.vector_ok ok enc xs" using assms(1-3) by (simp add: codec.vector_ok_def)
  then show ?thesis
    using True assms(5,6) codec.ser [OF codec.vector [OF assms(1)], of xs "[]"]
      codec.unser [OF codec.vector [OF assms(1)], of xs sz rest]
    by (simp add: codec.vector_bytes_def [OF assms(1)] add.commute)
next
  case False
  have "snd (s_ser (s11n_vector c) xs []) = word_bytes 2 (of_nat (length xs) :: u16) @ concat (map enc xs)"
    using codec.ser_elems [OF assms(1,2), of 2 "word_bytes 2 (of_nat (length xs) :: u16)"] by (simp add: s11n_vector_def)
  moreover have "(of_nat (length xs) :: u16) > 1024" "\<not> sz < 2"
    using False assms(5) ucast_16_32(3) [OF assms(4)] by (simp_all add: word_less_nat_alt)
  ultimately show ?thesis using False assms(4) by (simp add: s11n_vector_def Let_def ucast_16_32)
qed

lemma vector_round_trip_witness:
  "s_unser (s11n_vector byte_codec) (snd (s_ser (s11n_vector byte_codec) (replicate 1025 (7 :: u8)) []) @ []) 5000 =
     (if length (replicate 1025 (7 :: u8)) \<le> 1024
      then Got (of_nat (length (concat (map (word_bytes 1) (replicate 1025 (7 :: u8)))) + 2)) (replicate 1025 7) else Failed)"
  by (rule vector_round_trip [OF u8.codec_axioms]) (simp_all add: length_concat sum_list_replicate)

end
