(* ===== verification/Dispatch.thy ===== *)
theory Dispatch
  imports MsgPool MsgIds Serialize
begin

text \<open>
  The messages between the worker threads: \<^verbatim>\<open>MsgHandler/MsgTypes.h\<close>, the worker numbers of
  \<^verbatim>\<open>Server/ServerTypes.h\<close>, \<^verbatim>\<open>PushMsg\<close> and \<^verbatim>\<open>GetMsgQueue\<close> of \<^verbatim>\<open>Server/GlobalObject.h\<close>, and the
  registration and the loop of \<^verbatim>\<open>MsgHandler/MsgHandler.cpp\<close>.

  A pointer to a player is a number of 64 bits, 0 the null pointer; \<open>sv_players\<close> says which of the others are
  valid and what \<^verbatim>\<open>getThreadId\<close> and \<^verbatim>\<open>isJumpingMap\<close> return, and \<open>sv_world\<close> is the rest of the game's state,
  which only handlers touch.  The handlers and what they do are parameters.  \<open>None\<close> is a failed assertion, a
  wild pointer or a read outside a buffer.  Console output is left out; the calls of \<^verbatim>\<open>protol_sec\<close> are kept.
\<close>

section \<open>Workers\<close>

datatype worker_thread =
    WORKER_THREAD_COUNTRY_1 | WORKER_THREAD_COUNTRY_2 | WORKER_THREAD_NEUTRAL | WORKER_THREAD_WORLD
  | WORKER_THREAD_LOGIN | WORKER_THREAD_SORT
  | WORKER_THREAD_DB | WORKER_THREAD_DB1 | WORKER_THREAD_DB2 | WORKER_THREAD_DB3 | WORKER_THREAD_DB4
  | WORKER_THREAD_DB5 | WORKER_THREAD_DB6 | WORKER_THREAD_DB7 | WORKER_THREAD_DB8
  | WORKER_THREAD_DB_LOG | WORKER_THREAD_DB_LOG1 | WORKER_THREAD_LOAD

fun worker_id :: "worker_thread \<Rightarrow> u8" where
  "worker_id WORKER_THREAD_COUNTRY_1 = 0"
| "worker_id WORKER_THREAD_COUNTRY_2 = 1"
| "worker_id WORKER_THREAD_NEUTRAL = 2"
| "worker_id WORKER_THREAD_WORLD = 3"
| "worker_id WORKER_THREAD_LOGIN = 4"
| "worker_id WORKER_THREAD_SORT = 5"
| "worker_id WORKER_THREAD_DB = 6"
| "worker_id WORKER_THREAD_DB1 = 7"
| "worker_id WORKER_THREAD_DB2 = 8"
| "worker_id WORKER_THREAD_DB3 = 9"
| "worker_id WORKER_THREAD_DB4 = 10"
| "worker_id WORKER_THREAD_DB5 = 11"
| "worker_id WORKER_THREAD_DB6 = 12"
| "worker_id WORKER_THREAD_DB7 = 13"
| "worker_id WORKER_THREAD_DB8 = 14"
| "worker_id WORKER_THREAD_DB_LOG = 15"
| "worker_id WORKER_THREAD_DB_LOG1 = 16"
| "worker_id WORKER_THREAD_LOAD = 17"

instantiation worker_thread :: linorder
begin

definition less_eq_worker_thread :: "worker_thread \<Rightarrow> worker_thread \<Rightarrow> bool" where
  "less_eq_worker_thread a b \<longleftrightarrow> worker_id a \<le> worker_id b"

definition less_worker_thread :: "worker_thread \<Rightarrow> worker_thread \<Rightarrow> bool" where
  "less_worker_thread a b \<longleftrightarrow> worker_id a < worker_id b"

lemma worker_id_inj: "worker_id a = worker_id b \<Longrightarrow> a = b"
  by (cases a; cases b) simp_all

instance
  by intro_classes (auto simp: less_eq_worker_thread_def less_worker_thread_def intro: worker_id_inj)

end

lemma worker_id_bound: "unat (worker_id w) < max_thread_num"
  by (cases w) (simp_all add: max_thread_num_def)

section \<open>Messages\<close>

record msg_hdr =
  mh_des :: u8
  mh_cmd :: u32
  mh_len :: u32

record game_msg_hdr =
  gm_hdr :: msg_hdr
  gm_player :: u64

record login_msg_hdr =
  lm_hdr :: msg_hdr
  lm_player_id :: u64
  lm_session :: u32

datatype header = GameHdr game_msg_hdr | LoginHdr login_msg_hdr

record message =
  ms_hdr :: header
  ms_body :: "u8 list"

definition game_msg :: "u32 \<Rightarrow> u8 \<Rightarrow> u64 \<Rightarrow> u32 \<Rightarrow> game_msg_hdr" where
  "game_msg cmd des pl blen = \<lparr>gm_hdr = \<lparr>mh_des = des, mh_cmd = cmd, mh_len = blen\<rparr>, gm_player = pl\<rparr>"

definition login_msg :: "u32 \<Rightarrow> u8 \<Rightarrow> u64 \<Rightarrow> u32 \<Rightarrow> u32 \<Rightarrow> login_msg_hdr" where
  "login_msg cmd des pid sess blen =
     \<lparr>lm_hdr = \<lparr>mh_des = des, mh_cmd = cmd, mh_len = blen\<rparr>, lm_player_id = pid, lm_session = sess\<rparr>"

fun hdr_of :: "header \<Rightarrow> msg_hdr" where
  "hdr_of (GameHdr h) = gm_hdr h"
| "hdr_of (LoginHdr h) = lm_hdr h"

text \<open>What \<^verbatim>\<open>reinterpret_cast<GameMsgHdr *>(hdr)->player\<close> reads: in a login message, the identifier of the player
  lies at this place.\<close>

fun player_field :: "header \<Rightarrow> u64" where
  "player_field (GameHdr h) = gm_player h"
| "player_field (LoginHdr h) = lm_player_id h"

fun sizeof_header :: "header \<Rightarrow> nat" where
  "sizeof_header (GameHdr _) = 24"
| "sizeof_header (LoginHdr _) = 32"

record player_view =
  pl_thread :: u8
  pl_jumping :: bool

record 'w server =
  sv_global :: "message global"
  sv_players :: "u64 \<rightharpoonup> player_view"
  sv_sec_log :: "(u64 \<times> u32) list"
  sv_world :: 'w

definition queues :: "'w server \<Rightarrow> nat queue list" where
  "queues s = gl_queues (sv_global s)"

text \<open>\<^verbatim>\<open>PushMsg\<close>.  A body that is not copied is empty in the model.\<close>

definition push_msg :: "header \<Rightarrow> u8 list option \<Rightarrow> 'w server \<Rightarrow> 'w server option" where
  "push_msg h body s =
     (let w = unat (mh_des (hdr_of h)); len = unat (mh_len (hdr_of h))
      in if w \<ge> max_thread_num then Some s
         else do {
           r \<leftarrow> alloc_msg_block (sizeof_header h + len) (sv_global s);
           (case r of
              (None, g) \<Rightarrow> Some (s\<lparr>sv_global := g\<rparr>)
            | (Some b, g) \<Rightarrow> do {
                bs \<leftarrow> (case body of
                        None \<Rightarrow> Some []
                      | Some bs \<Rightarrow> if len > length bs then None else Some (take len bs));
                Some (s\<lparr>sv_global := g\<lparr>gl_msg := (gl_msg g)(b \<mapsto> \<lparr>ms_hdr = h, ms_body = bs\<rparr>),
                                       gl_queues := (gl_queues g)[w := queue_push b (gl_queues g ! w)]\<rparr>\<rparr>) }) })"

definition get_msg_queue :: "u8 \<Rightarrow> 'w server \<Rightarrow> (nat queue option \<times> 'w server) option" where
  "get_msg_queue worker s =
     (if unat worker \<ge> max_thread_num then None
      else let q = queues s ! unat worker
           in if queue_empty q then Some (None, s)
              else Some (Some q, s\<lparr>sv_global := (sv_global s)
                           \<lparr>gl_queues := (queues s)[unat worker := queue_clear q]\<rparr>\<rparr>))"

definition free_block :: "nat \<Rightarrow> 'w server \<Rightarrow> 'w server option" where
  "free_block b s = do { g \<leftarrow> free_msg_block b (sv_global s); Some (s\<lparr>sv_global := g\<rparr>) }"

section \<open>Handlers\<close>

type_synonym 'w handler = "message \<Rightarrow> 'w server \<Rightarrow> 'w server option"
type_synonym 'w handlers = "'w handler option list"

definition max_msg_num :: nat where "max_msg_num = 0x600"

definition no_handlers :: "'w handlers" where
  "no_handlers = replicate max_msg_num None"

text \<open>\<^verbatim>\<open>HandlerWrapper\<close>: the handler runs only if the body could be read.\<close>

definition handler_wrapper :: "'a s11n \<Rightarrow> (header \<Rightarrow> 'a \<Rightarrow> 'w server \<Rightarrow> 'w server option) \<Rightarrow> 'w handler" where
  "handler_wrapper c f m s =
     (case s_unser c (ms_body m) (mh_len (hdr_of (ms_hdr m))) of
        Fault \<Rightarrow> None
      | Failed \<Rightarrow> Some s
      | Got r x \<Rightarrow> if r \<noteq> - 1 then f (ms_hdr m) x s else Some s)"

definition handler_wrapper2 :: "(header \<Rightarrow> u8 list \<Rightarrow> 'w server \<Rightarrow> 'w server option) \<Rightarrow> 'w handler" where
  "handler_wrapper2 f m s = f (ms_hdr m) (ms_body m) s"

definition register_handler :: "nat \<Rightarrow> 'w handler \<Rightarrow> 'w handlers \<Rightarrow> 'w handlers option" where
  "register_handler i h hs =
     (if i < max_msg_num \<and> hs ! i = None then Some (hs[i := Some h]) else None)"

definition deregister_all_msg :: "'w handlers \<Rightarrow> 'w handlers" where
  "deregister_all_msg hs = map (\<lambda>_. None) hs"

definition register_all :: "(nat \<times> 'w handler) list \<Rightarrow> 'w handlers \<Rightarrow> 'w handlers option" where
  "register_all l hs = foldm (\<lambda>hs (i, h). register_handler i h hs) hs l"

section \<open>The loop\<close>

definition request_id :: "string \<Rightarrow> u32" where
  "request_id name = of_int (id_of req_ids name)"

definition log_sec :: "u8 \<Rightarrow> header \<Rightarrow> 'w server \<Rightarrow> 'w server option" where
  "log_sec worker h s =
     (let cmd = mh_cmd (hdr_of h); des = mh_des (hdr_of h)
      in if cmd \<le> 0xFF \<and> cmd \<noteq> 0 \<and>
            (des = worker_id WORKER_THREAD_NEUTRAL \<or> des = worker_id WORKER_THREAD_COUNTRY_1 \<or>
             des = worker_id WORKER_THREAD_COUNTRY_2 \<or> des = worker_id WORKER_THREAD_WORLD) \<and>
            cmd \<noteq> request_id ''LOGIN'' \<and> cmd \<noteq> request_id ''CREATE_ROLE'' \<and> cmd \<noteq> request_id ''RECONNECT'' \<and>
            player_field h \<noteq> 0
         then do {
           p \<leftarrow> sv_players s (player_field h);
           Some (if pl_thread p = worker then s\<lparr>sv_sec_log := (player_field h, cmd) # sv_sec_log s\<rparr> else s) }
         else Some s)"

definition run_msg :: "u8 \<Rightarrow> 'w handlers \<Rightarrow> nat \<Rightarrow> message \<Rightarrow> 'w server \<Rightarrow> 'w server option" where
  "run_msg worker hs b m s = do {
     s1 \<leftarrow> log_sec worker (ms_hdr m) s;
     s2 \<leftarrow> (case hs ! unat (mh_cmd (hdr_of (ms_hdr m))) of None \<Rightarrow> Some s1 | Some h \<Rightarrow> h m s1);
     free_block b s2 }"

text \<open>A message for another worker is sent on as a \<^verbatim>\<open>GameMsgHdr\<close> and the bytes behind it; a login message in the
  range of numbers concerned would be cut in two at the wrong place, and is \<open>None\<close>.\<close>

fun forward_msg :: "u8 \<Rightarrow> message \<Rightarrow> 'w server \<Rightarrow> 'w server option" where
  "forward_msg tid m s =
     (case ms_hdr m of
        GameHdr h \<Rightarrow> push_msg (GameHdr (h\<lparr>gm_hdr := (gm_hdr h)\<lparr>mh_des := tid\<rparr>\<rparr>)) (Some (ms_body m)) s
      | LoginHdr _ \<Rightarrow> None)"

definition process_one :: "u8 \<Rightarrow> 'w handlers \<Rightarrow> nat \<Rightarrow> 'w server \<Rightarrow> 'w server option" where
  "process_one worker hs b s = do {
     m \<leftarrow> gl_msg (sv_global s) b;
     (let h = ms_hdr m; cmd = mh_cmd (hdr_of h)
      in if unat cmd \<ge> max_msg_num then None
         else if cmd \<le> 0xFF \<and> mh_des (hdr_of h) \<le> worker_id WORKER_THREAD_NEUTRAL then
           (if player_field h \<noteq> 0
            then do {
              p \<leftarrow> sv_players s (player_field h);
              (if pl_jumping p then free_block b s
               else if pl_thread p \<noteq> worker then free_block b s
               else run_msg worker hs b m s) }
            else run_msg worker hs b m s)
         else if cmd \<ge> 0x200 \<and> cmd \<le> 0x500 then
           (if player_field h \<noteq> 0
            then do {
              p \<leftarrow> sv_players s (player_field h);
              (if pl_thread p \<noteq> worker
               then do { s' \<leftarrow> forward_msg (pl_thread p) m s; free_block b s' }
               else run_msg worker hs b m s) }
            else run_msg worker hs b m s)
         else run_msg worker hs b m s) }"

primrec process_queue :: "u8 \<Rightarrow> 'w handlers \<Rightarrow> nat queue \<Rightarrow> 'w server \<Rightarrow> 'w server option" where
  "process_queue worker hs [] s = Some s"
| "process_queue worker hs (b # q) s = do { s' \<leftarrow> process_one worker hs b s; process_queue worker hs q s' }"

definition process_msg :: "u8 \<Rightarrow> bool \<Rightarrow> 'w handlers \<Rightarrow> 'w server \<Rightarrow> (bool \<times> 'w server) option" where
  "process_msg worker shutdown hs s =
     (if shutdown \<and> (worker < worker_id WORKER_THREAD_DB \<or> worker = worker_id WORKER_THREAD_LOAD)
      then Some (False, s)
      else do {
        r \<leftarrow> get_msg_queue worker s;
        (case r of
           (None, s') \<Rightarrow> Some (False, s')
         | (Some q, s') \<Rightarrow> do { s'' \<leftarrow> process_queue worker hs q s'; Some (True, s'') }) })"

section \<open>No block is lost\<close>

text \<open>A message the loop can take: its number is one of the table, its body is as long as it says, and the players it
  names are valid wherever the loop looks at them.\<close>

definition good_header :: "'w server \<Rightarrow> header \<Rightarrow> bool" where
  "good_header s h \<longleftrightarrow>
     unat (mh_cmd (hdr_of h)) < max_msg_num \<and>
     (case h of
        GameHdr g \<Rightarrow> gm_player g = 0 \<or> gm_player g \<in> dom (sv_players s)
      | LoginHdr l \<Rightarrow> worker_id WORKER_THREAD_LOGIN \<le> mh_des (lm_hdr l) \<and> mh_cmd (lm_hdr l) < 0x200)"

definition good_msg :: "'w server \<Rightarrow> message \<Rightarrow> bool" where
  "good_msg s m \<longleftrightarrow> good_header s (ms_hdr m) \<and> length (ms_body m) = unat (mh_len (hdr_of (ms_hdr m)))"

definition books :: "'w server \<Rightarrow> nat list \<Rightarrow> bool" where
  "books s out \<longleftrightarrow>
     length (queues s) = max_thread_num \<and> accounts (sv_global s) (concat (queues s) @ out) \<and>
     (\<forall>b \<in> set (concat (queues s) @ out). \<exists>m. gl_msg (sv_global s) b = Some m \<and> good_msg s m)"

text \<open>What is asked of a handler: given a good message it returns, and keeps the books with the same blocks in use.\<close>

definition handler_ok :: "'w handler \<Rightarrow> bool" where
  "handler_ok f \<longleftrightarrow> (\<forall>m s out. good_msg s m \<longrightarrow> books s out \<longrightarrow> (\<exists>s'. f m s = Some s' \<and> books s' out))"

definition handlers_ok :: "'w handlers \<Rightarrow> bool" where
  "handlers_ok hs \<longleftrightarrow> length hs = max_msg_num \<and> (\<forall>i < max_msg_num. \<forall>h. hs ! i = Some h \<longrightarrow> handler_ok h)"

lemma good_msg_players: "sv_players s' = sv_players s \<Longrightarrow> good_msg s' m = good_msg s m"
  by (simp add: good_msg_def good_header_def split: header.splits)

lemma booksI:
  assumes "accounts (sv_global s') (concat (queues s') @ out)" "length (queues s') = max_thread_num"
    "\<And>b. b \<in> set (concat (queues s') @ out) \<Longrightarrow> \<exists>m. gl_msg (sv_global s') b = Some m \<and> good_msg s m"
    "sv_players s' = sv_players s"
  shows "books s' out"
  using assms by (simp only: books_def good_msg_players [OF assms(4)]) blast

lemma free_block_books:
  assumes "books s out" "b \<in> set out"
  shows "\<exists>s'. free_block b s = Some s' \<and> books s' (remove1 b out) \<and> sv_players s' = sv_players s \<and>
    sv_world s' = sv_world s \<and> queues s' = queues s \<and> sv_sec_log s' = sv_sec_log s \<and>
    gl_msg (sv_global s') = gl_msg (sv_global s)"
proof -
  have a: "accounts (sv_global s) (concat (queues s) @ out)" using assms(1) by (simp add: books_def)
  have "mset (b # (concat (queues s) @ remove1 b out)) = mset (concat (queues s) @ out)" using assms(2) by simp
  with a have "accounts (sv_global s) (b # (concat (queues s) @ remove1 b out))" by (rule accounts_perm)
  then obtain g where g: "free_msg_block b (sv_global s) = Some g" "accounts g (concat (queues s) @ remove1 b out)"
    "same_frame (sv_global s) g" using msg_blocks.release by blast
  have f: "gl_queues g = queues s" "gl_msg g = gl_msg (sv_global s)" using g(3) by (simp_all add: same_frame_def queues_def)
  have "books (s\<lparr>sv_global := g\<rparr>) (remove1 b out)"
  proof (rule booksI [where s = s])
    show "accounts (sv_global (s\<lparr>sv_global := g\<rparr>)) (concat (queues (s\<lparr>sv_global := g\<rparr>)) @ remove1 b out)"
      using g(2) f by (simp add: queues_def)
    show "length (queues (s\<lparr>sv_global := g\<rparr>)) = max_thread_num" using assms(1) f by (simp add: queues_def books_def)
    fix c assume "c \<in> set (concat (queues (s\<lparr>sv_global := g\<rparr>)) @ remove1 b out)"
    then have "c \<in> set (concat (queues s) @ out)" using f notin_set_remove1 by (fastforce simp: queues_def)
    then show "\<exists>m. gl_msg (sv_global (s\<lparr>sv_global := g\<rparr>)) c = Some m \<and> good_msg s m"
      using assms(1) f unfolding books_def by simp
  qed simp
  then show ?thesis using g(1) f by (simp add: free_block_def queues_def)
qed

lemma set_concat_update:
  "i < length q \<Longrightarrow> set (concat (q[i := y])) \<subseteq> set (concat q) \<union> set y"
  using set_update_subset_insert [of q i y] by auto

lemma free_block_freed: "free_block b s = Some s' \<Longrightarrow> b \<in> set (free_blocks (sv_global s'))"
proof -
  assume "free_block b s = Some s'"
  then have "free_msg_block b (sv_global s) = Some (sv_global s')" by (auto simp: free_block_def bind_eq_Some_conv)
  then have "set (free_blocks (sv_global s')) = set (b # free_blocks (sv_global s))"
    using free_msg_block_blocks(1) by (intro mset_eq_setD) simp
  then show ?thesis by simp
qed

text \<open>What pushing a message does: nothing if there is no such worker or no memory, otherwise one more block at the
  end of the worker's queue that holds the message.\<close>

definition no_room :: "u8 \<Rightarrow> nat \<Rightarrow> 'w server \<Rightarrow> bool" where
  "no_room t n s \<longleftrightarrow> max_thread_num \<le> unat t \<or> (\<exists>g. alloc_msg_block n (sv_global s) = Some (None, g))"

lemma push_msg_books:
  assumes "books s out" "good_header s h" "unat (mh_len (hdr_of h)) \<le> length bs"
  shows "\<exists>s'. push_msg h (Some bs) s = Some s' \<and> books s' out \<and> sv_players s' = sv_players s \<and>
    sv_world s' = sv_world s \<and> sv_sec_log s' = sv_sec_log s \<and>
    (if no_room (mh_des (hdr_of h)) (sizeof_header h + unat (mh_len (hdr_of h))) s then queues s' = queues s else
     (\<exists>b. unat (mh_des (hdr_of h)) < max_thread_num \<and> b \<notin> set (concat (queues s) @ out) \<and>
        queues s' = (queues s)[unat (mh_des (hdr_of h)) := queues s ! unat (mh_des (hdr_of h)) @ [b]] \<and>
        gl_msg (sv_global s') b = Some \<lparr>ms_hdr = h, ms_body = take (unat (mh_len (hdr_of h))) bs\<rparr>))"
proof (cases "unat (mh_des (hdr_of h)) \<ge> max_thread_num")
  case True
  then show ?thesis using assms(1) by (simp add: push_msg_def Let_def no_room_def)
next
  case False
  let ?w = "unat (mh_des (hdr_of h))" and ?n = "unat (mh_len (hdr_of h))"
  have b: "length (queues s) = max_thread_num" "accounts (sv_global s) (concat (queues s) @ out)"
    "\<And>c. c \<in> set (concat (queues s) @ out) \<Longrightarrow> \<exists>m. gl_msg (sv_global s) c = Some m \<and> good_msg s m"
    using assms(1) unfolding books_def by blast+
  obtain r g where a: "alloc_msg_block (sizeof_header h + ?n) (sv_global s) = Some (r, g)" "same_frame (sv_global s) g"
    "case r of None \<Rightarrow> accounts g (concat (queues s) @ out)
     | Some b \<Rightarrow> b \<notin> set (concat (queues s) @ out) \<and> accounts g (b # concat (queues s) @ out)"
    using msg_blocks.alloc [OF b(2), of "sizeof_header h + ?n"] by blast
  have f: "gl_queues g = queues s" "gl_msg g = gl_msg (sv_global s)" using a(2) by (simp_all add: same_frame_def queues_def)
  show ?thesis
  proof (cases r)
    case None
    have "books (s\<lparr>sv_global := g\<rparr>) out"
      by (rule booksI [where s = s]) (use a(3) b f None in \<open>simp_all add: queues_def\<close>)
    then show ?thesis using False a(1) None f by (simp add: push_msg_def Let_def queues_def no_room_def)
  next
    case (Some c)
    let ?m = "\<lparr>ms_hdr = h, ms_body = take ?n bs\<rparr>"
    let ?s = "s\<lparr>sv_global := g\<lparr>gl_msg := (gl_msg g)(c \<mapsto> ?m), gl_queues := (gl_queues g)[?w := gl_queues g ! ?w @ [c]]\<rparr>\<rparr>"
    have c: "c \<notin> set (concat (queues s) @ out)" "accounts g (c # concat (queues s) @ out)" using a(3) Some by simp_all
    have w: "?w < length (queues s)" using False b(1) by simp
    have q: "queues ?s = (queues s)[?w := queues s ! ?w @ [c]]" by (simp add: queues_def f [unfolded queues_def])
    have "books ?s out"
    proof (rule booksI [where s = s])
      have m: "mset (concat (queues ?s) @ out) = mset (c # concat (queues s) @ out)"
        using mset_concat_update [OF w, of "\<lambda>x. x" "queues s ! ?w @ [c]"] unfolding q by simp
      have "accounts g (concat (queues ?s) @ out)" using accounts_perm [OF c(2) m] .
      then show "accounts (sv_global ?s) (concat (queues ?s) @ out)"
        by (simp add: accounts_def free_blocks_def pools_ok_def block_fits_def)
      show "length (queues ?s) = max_thread_num" using b(1) q by simp
      fix d assume "d \<in> set (concat (queues ?s) @ out)"
      then have "d = c \<or> d \<in> set (concat (queues s) @ out)" using mset_eq_setD [OF m] by auto
      then show "\<exists>m. gl_msg (sv_global ?s) d = Some m \<and> good_msg s m"
        using b(3) [of d] c(1) f(2) assms(2,3) by (auto simp: good_msg_def)
    qed simp
    moreover have "push_msg h (Some bs) s = Some ?s"
      using False a(1) Some assms(3) by (simp add: push_msg_def Let_def queue_push_def)
    moreover have "\<not> no_room (mh_des (hdr_of h)) (sizeof_header h + ?n) s" using False a(1) Some by (simp add: no_room_def)
    ultimately show ?thesis using False c(1) q by auto
  qed
qed


lemma log_sec_ok:
  assumes "good_msg s m"
  shows "\<exists>s'. log_sec worker (ms_hdr m) s = Some s' \<and> s' = s\<lparr>sv_sec_log := sv_sec_log s'\<rparr> \<and> sv_global s' = sv_global s \<and>
    sv_players s' = sv_players s"
  using assms
  by (auto simp: log_sec_def Let_def good_msg_def good_header_def word_le_nat_alt word_less_nat_alt split: header.splits)

lemma books_same:
  "\<lbrakk>books s out; sv_global s' = sv_global s; sv_players s' = sv_players s\<rbrakk> \<Longrightarrow> books s' out"
  using good_msg_players [of s' s] unfolding books_def queues_def by simp

lemma run_msg_books:
  assumes "handlers_ok hs" "books s (b # out)" "good_msg s m"
  shows "\<exists>s1 s2 s'. log_sec worker (ms_hdr m) s = Some s1 \<and> s1 = s\<lparr>sv_sec_log := sv_sec_log s1\<rparr> \<and>
    (case hs ! unat (mh_cmd (hdr_of (ms_hdr m))) of None \<Rightarrow> s2 = s1 | Some f \<Rightarrow> f m s1 = Some s2) \<and>
    run_msg worker hs b m s = Some s' \<and> books s' out \<and> b \<in> set (free_blocks (sv_global s')) \<and>
    sv_world s' = sv_world s2 \<and> queues s' = queues s2 \<and> sv_sec_log s' = sv_sec_log s2"
proof -
  obtain s1 where s1: "log_sec worker (ms_hdr m) s = Some s1" "sv_global s1 = sv_global s" "sv_players s1 = sv_players s"
    "s1 = s\<lparr>sv_sec_log := sv_sec_log s1\<rparr>"
    using log_sec_ok [OF assms(3)] by blast
  have b1: "books s1 (b # out)" "good_msg s1 m"
    using books_same [OF assms(2) s1(2,3)] assms(3) good_msg_players [OF s1(3)] by blast+
  let ?i = "unat (mh_cmd (hdr_of (ms_hdr m)))"
  have "?i < max_msg_num" using assms(3) by (simp add: good_msg_def good_header_def)
  then have "\<And>h. hs ! ?i = Some h \<Longrightarrow> \<exists>s2. h m s1 = Some s2 \<and> books s2 (b # out)"
    using assms(1) b1 unfolding handlers_ok_def handler_ok_def by blast
  then obtain s2 where s2: "(case hs ! ?i of None \<Rightarrow> Some s1 | Some h \<Rightarrow> h m s1) = Some s2" "books s2 (b # out)"
    using b1(1) by (cases "hs ! ?i") auto
  obtain s3 where s3: "free_block b s2 = Some s3" "books s3 (remove1 b (b # out))" "sv_world s3 = sv_world s2"
    "queues s3 = queues s2" "sv_sec_log s3 = sv_sec_log s2"
    using free_block_books [OF s2(2), of b] by auto
  have "case hs ! ?i of None \<Rightarrow> s2 = s1 | Some f \<Rightarrow> f m s1 = Some s2" using s2(1) by (cases "hs ! ?i") simp_all
  moreover have "run_msg worker hs b m s = Some s3" using s1(1) s2(1) s3(1) by (simp add: run_msg_def)
  ultimately show ?thesis using s1(1,4) s3 free_block_freed [OF s3(1)] by (intro exI [of _ s1] exI [of _ s2] exI [of _ s3]) simp
qed

lemma good_header_des:
  "good_header s (GameHdr h) \<Longrightarrow> good_header s (GameHdr (h\<lparr>gm_hdr := (gm_hdr h)\<lparr>mh_des := t\<rparr>\<rparr>))"
  by (simp add: good_header_def)

text \<open>A message that is not the worker's own is freed, or sent on and freed.\<close>

lemma forward_books:
  assumes "books s (b # out)" "good_msg s m" "ms_hdr m = GameHdr h"
  shows "\<exists>s1 s2. forward_msg t m s = Some s1 \<and> free_block b s1 = Some s2 \<and> books s2 out \<and>
    sv_players s2 = sv_players s \<and> sv_world s2 = sv_world s \<and> sv_sec_log s2 = sv_sec_log s \<and>
    b \<in> set (free_blocks (sv_global s2)) \<and>
    (if no_room t (24 + length (ms_body m)) s then queues s2 = queues s else
     (\<exists>c. unat t < max_thread_num \<and> queues s2 = (queues s)[unat t := queues s ! unat t @ [c]] \<and>
        gl_msg (sv_global s2) c =
          Some \<lparr>ms_hdr = GameHdr (h\<lparr>gm_hdr := (gm_hdr h)\<lparr>mh_des := t\<rparr>\<rparr>), ms_body = ms_body m\<rparr>))"
proof -
  let ?h = "GameHdr (h\<lparr>gm_hdr := (gm_hdr h)\<lparr>mh_des := t\<rparr>\<rparr>)"
  have g: "good_header s ?h" using assms(2,3) by (simp add: good_msg_def good_header_des)
  have l: "length (ms_body m) = unat (mh_len (hdr_of ?h))" using assms(2,3) by (simp add: good_msg_def)
  obtain s1 where s1: "push_msg ?h (Some (ms_body m)) s = Some s1" "books s1 (b # out)" "sv_players s1 = sv_players s"
    "sv_world s1 = sv_world s" "sv_sec_log s1 = sv_sec_log s"
    "if no_room t (24 + length (ms_body m)) s then queues s1 = queues s else
     (\<exists>c. unat t < max_thread_num \<and> queues s1 = (queues s)[unat t := queues s ! unat t @ [c]] \<and>
        gl_msg (sv_global s1) c = Some \<lparr>ms_hdr = ?h, ms_body = ms_body m\<rparr>)"
  proof -
    obtain s1 where s1: "push_msg ?h (Some (ms_body m)) s = Some s1" "books s1 (b # out)" "sv_players s1 = sv_players s"
      "sv_world s1 = sv_world s" "sv_sec_log s1 = sv_sec_log s"
      "if no_room (mh_des (hdr_of ?h)) (sizeof_header ?h + unat (mh_len (hdr_of ?h))) s then queues s1 = queues s else
        (\<exists>c. unat (mh_des (hdr_of ?h)) < max_thread_num \<and> c \<notin> set (concat (queues s) @ b # out) \<and>
          queues s1 = (queues s)[unat (mh_des (hdr_of ?h)) := queues s ! unat (mh_des (hdr_of ?h)) @ [c]] \<and>
          gl_msg (sv_global s1) c = Some \<lparr>ms_hdr = ?h, ms_body = take (unat (mh_len (hdr_of ?h))) (ms_body m)\<rparr>)"
      using push_msg_books [OF assms(1) g, of "ms_body m"] unfolding l by blast
    have "mh_des (hdr_of ?h) = t" "sizeof_header ?h + unat (mh_len (hdr_of ?h)) = 24 + length (ms_body m)"
      "take (unat (mh_len (hdr_of ?h))) (ms_body m) = ms_body m" unfolding l [symmetric] by simp_all
    note s1 = s1 [unfolded this]
    show ?thesis by (rule that [OF s1(1-5)]) (use s1(6) in \<open>auto split: if_splits\<close>)
  qed
  obtain s2 where s2: "free_block b s1 = Some s2" "books s2 (remove1 b (b # out))" "sv_players s2 = sv_players s1"
    "sv_world s2 = sv_world s1" "queues s2 = queues s1" "sv_sec_log s2 = sv_sec_log s1"
    "gl_msg (sv_global s2) = gl_msg (sv_global s1)"
    using free_block_books [OF s1(2), of b] by auto
  then show ?thesis using s1 assms(3) free_block_freed [OF s2(1)]
    by - (rule exI [of _ s1], rule exI [of _ s2], cases "no_room t (24 + length (ms_body m)) s", simp_all)
qed

text \<open>Whose message it is, in the terms of the loop.\<close>

datatype fate = Dropped | Sent_on u8 | Handled

definition fate_of :: "u8 \<Rightarrow> header \<Rightarrow> (u64 \<rightharpoonup> player_view) \<Rightarrow> fate" where
  "fate_of worker h players =
     (case players (player_field h) of
        None \<Rightarrow> Handled
      | Some p \<Rightarrow>
          if player_field h = 0 then Handled
          else if mh_cmd (hdr_of h) \<le> 0xFF \<and> mh_des (hdr_of h) \<le> worker_id WORKER_THREAD_NEUTRAL
            then if pl_jumping p \<or> pl_thread p \<noteq> worker then Dropped else Handled
          else if mh_cmd (hdr_of h) \<ge> 0x200 \<and> mh_cmd (hdr_of h) \<le> 0x500
            then if pl_thread p \<noteq> worker then Sent_on (pl_thread p) else Handled
          else Handled)"

lemma process_one_fate:
  assumes "gl_msg (sv_global s) b = Some m" "good_msg s m"
  shows "process_one worker hs b s =
    (case fate_of worker (ms_hdr m) (sv_players s) of
       Dropped \<Rightarrow> free_block b s
     | Sent_on t \<Rightarrow> do { s' \<leftarrow> forward_msg t m s; free_block b s' }
     | Handled \<Rightarrow> run_msg worker hs b m s)"
  using assms
  by (cases "ms_hdr m")
    (auto simp: process_one_def Let_def fate_of_def good_msg_def good_header_def not_le word_le_nat_alt
      word_less_nat_alt split: option.splits)


lemma fate_sent_on:
  assumes "good_msg s m" "fate_of worker (ms_hdr m) players = Sent_on t"
  shows "\<exists>h. ms_hdr m = GameHdr h"
  using assms
  by (cases "ms_hdr m")
    (auto simp: fate_of_def good_msg_def good_header_def not_le word_le_nat_alt word_less_nat_alt
      split: option.splits if_splits)

lemma books_msg:
  "books s out \<Longrightarrow> b \<in> set out \<Longrightarrow> \<exists>m. gl_msg (sv_global s) b = Some m \<and> good_msg s m"
  unfolding books_def by simp

lemma process_one_books:
  assumes "handlers_ok hs" "books s (b # out)"
  shows "\<exists>s'. process_one worker hs b s = Some s' \<and> books s' out"
proof -
  obtain m where m: "gl_msg (sv_global s) b = Some m" "good_msg s m" using books_msg [OF assms(2)] by auto
  note p = process_one_fate [OF m, of worker hs]
  show ?thesis
  proof (cases "fate_of worker (ms_hdr m) (sv_players s)")
    case Dropped
    then show ?thesis using p free_block_books [OF assms(2), of b] by auto
  next
    case (Sent_on t)
    then obtain h where "ms_hdr m = GameHdr h" using fate_sent_on [OF m(2)] by blast
    then show ?thesis using p Sent_on forward_books [OF assms(2) m(2), of h t] by fastforce
  next
    case Handled
    then show ?thesis using p run_msg_books [OF assms m(2), of worker] by auto
  qed
qed

lemma process_queue_books:
  "handlers_ok hs \<Longrightarrow> books s (q @ out) \<Longrightarrow> \<exists>s'. process_queue worker hs q s = Some s' \<and> books s' out"
proof (induction q arbitrary: s)
  case (Cons b q)
  then obtain s1 where "process_one worker hs b s = Some s1" "books s1 (q @ out)"
    using process_one_books [of hs s b "q @ out"] by auto
  then show ?case using Cons by fastforce
qed simp

lemma get_msg_queue_books:
  assumes "books s []" "unat worker < max_thread_num"
  shows "case get_msg_queue worker s of
      None \<Rightarrow> False
    | Some (None, s') \<Rightarrow> s' = s
    | Some (Some q, s') \<Rightarrow> books s' q"
proof (cases "queues s ! unat worker = []")
  case True
  then show ?thesis using assms by (simp add: get_msg_queue_def queue_empty_def)
next
  case False
  let ?q = "queues s ! unat worker"
  let ?s = "s\<lparr>sv_global := (sv_global s)\<lparr>gl_queues := (queues s)[unat worker := []]\<rparr>\<rparr>"
  have b: "length (queues s) = max_thread_num" "accounts (sv_global s) (concat (queues s))"
    "\<And>c. c \<in> set (concat (queues s)) \<Longrightarrow> \<exists>m. gl_msg (sv_global s) c = Some m \<and> good_msg s m"
    using assms(1) unfolding books_def append_Nil2 by blast+
  have q: "queues ?s = (queues s)[unat worker := []]" by (simp add: queues_def)
  have m: "mset (concat (queues ?s) @ ?q) = mset (concat (queues s))"
    using mset_concat_update [of "unat worker" "queues s" "\<lambda>x. x" "[]"] assms(2) b(1) unfolding q by simp
  have "books ?s ?q"
  proof (rule booksI [where s = s])
    have "accounts (sv_global s) (concat (queues ?s) @ ?q)" using accounts_perm [OF b(2) m] .
    then show "accounts (sv_global ?s) (concat (queues ?s) @ ?q)"
      by (simp add: accounts_def free_blocks_def pools_ok_def block_fits_def)
    show "length (queues ?s) = max_thread_num" using b(1) q by simp
    fix c assume "c \<in> set (concat (queues ?s) @ ?q)"
    then show "\<exists>m. gl_msg (sv_global ?s) c = Some m \<and> good_msg s m"
      using b(3) [of c] mset_eq_setD [OF m] by auto
  qed simp
  then show ?thesis
    using False assms(2) by (simp add: get_msg_queue_def queue_empty_def queue_clear_def Let_def)
qed

section \<open>Registration\<close>

lemma register_all_simps [simp]:
  "register_all [] hs = Some hs"
  "register_all ((i, h) # l) hs = do { hs' \<leftarrow> register_handler i h hs; register_all l hs' }"
  by (simp_all add: register_all_def)

lemma register_all_iff:
  "length hs = max_msg_num \<Longrightarrow>
   (\<exists>hs'. register_all l hs = Some hs') \<longleftrightarrow>
   distinct (map fst l) \<and> (\<forall>i \<in> fst ` set l. i < max_msg_num \<and> hs ! i = None)"
proof (induction l arbitrary: hs)
  case (Cons p l)
  obtain i h where p: "p = (i, h)" by (cases p)
  show ?case
  proof (cases "i < max_msg_num \<and> hs ! i = None")
    case True
    then have "register_all (p # l) hs = register_all l (hs[i := Some h])" by (simp add: p register_handler_def)
    then show ?thesis
      using Cons.IH [of "hs[i := Some h]"] True Cons.prems p by (auto simp: nth_list_update)
  next
    case False
    then show ?thesis by (auto simp: p register_handler_def)
  qed
qed simp

lemma register_all_result:
  "\<lbrakk>length hs = max_msg_num; register_all l hs = Some hs'\<rbrakk> \<Longrightarrow>
   length hs' = max_msg_num \<and> (\<forall>j < max_msg_num. hs' ! j = (case map_of l j of None \<Rightarrow> hs ! j | Some h \<Rightarrow> Some h))"
proof (induction l arbitrary: hs)
  case (Cons p l)
  obtain i h where p: "p = (i, h)" by (cases p)
  have r: "i < max_msg_num" "hs ! i = None" "register_all l (hs[i := Some h]) = Some hs'"
    using Cons.prems(2) p by (auto simp: register_handler_def split: if_splits)
  have ih: "length hs' = max_msg_num"
    "\<forall>j < max_msg_num. hs' ! j = (case map_of l j of None \<Rightarrow> hs[i := Some h] ! j | Some h \<Rightarrow> Some h)"
    using Cons.IH [OF _ r(3)] Cons.prems(1) by simp_all
  moreover have "i \<notin> fst ` set l"
    using register_all_iff [of hs "p # l"] Cons.prems p by auto
  then have "map_of l i = None" by (simp add: map_of_eq_None_iff)
  ultimately show ?case using p Cons.prems(1) r(1) by (auto simp: nth_list_update split: option.splits)
qed simp


section \<open>A sample server\<close>

text \<open>One player, whose worker is number 2, one message for the player in the queue of worker 1, and one handler.\<close>

definition idle_server :: "unit server" where
  "idle_server =
     \<lparr>sv_global = global_init (global_new empty_heap), sv_players = [7 \<mapsto> \<lparr>pl_thread = 2, pl_jumping = False\<rparr>],
      sv_sec_log = [], sv_world = ()\<rparr>"

definition sample_header :: header where
  "sample_header = GameHdr (game_msg 0x201 1 7 0)"

definition busy_server :: "unit server" where
  "busy_server = the (push_msg sample_header (Some []) idle_server)"

definition sample_handlers :: "unit handlers" where
  "sample_handlers = no_handlers[0x201 := Some (\<lambda>m s. Some s)]"

lemma idle_books: "books idle_server []"
proof -
  have h: "distinct (hp_freed empty_heap)" "set (hp_freed empty_heap) = handed_out empty_heap"
    by (simp_all add: empty_heap_def handed_out_def)
  note g = initial_accounts [OF refl h]
  have q: "queues idle_server = replicate 18 []" by (simp add: queues_def idle_server_def g(4))
  show ?thesis
    unfolding books_def q using g(1) by (simp add: max_thread_num_def idle_server_def)
qed

lemma sample_header_good: "good_header idle_server sample_header"
  by (simp add: good_header_def sample_header_def game_msg_def max_msg_num_def idle_server_def)

lemma busy_books:
  "push_msg sample_header (Some []) idle_server = Some busy_server" "books busy_server []"
  "sv_players busy_server = sv_players idle_server"
proof -
  have "unat (mh_len (hdr_of sample_header)) \<le> length ([] :: u8 list)" by (simp add: sample_header_def game_msg_def)
  then obtain s where s: "push_msg sample_header (Some []) idle_server = Some s" "books s []"
    "sv_players s = sv_players idle_server"
    using push_msg_books [OF idle_books sample_header_good] by blast
  then have "busy_server = s" by (simp add: busy_server_def)
  then show "push_msg sample_header (Some []) idle_server = Some busy_server" "books busy_server []"
    "sv_players busy_server = sv_players idle_server" using s by simp_all
qed

lemma sample_handlers_ok: "handlers_ok sample_handlers"
  by (auto simp: handlers_ok_def sample_handlers_def no_handlers_def max_msg_num_def nth_list_update handler_ok_def)

lemma alloc_first:
  assumes "pool_at 0 g = Some (pool_new 128)" "gl_max g = 65536" "gl_heap g = h" "\<not> hp_fails h (hp_calls h)"
  shows "\<exists>g'. alloc_msg_block 24 g = Some (Some (hp_calls h), g') \<and> gl_queues g' = gl_queues g"
proof -
  have "pool_scan 32 0 min_memblock_size = Some 0" by (simp add: pool_scan.simps min_memblock_size_def)
  then show ?thesis
    using assms by (simp add: alloc_msg_block_def sizeof_size_t_def Let_def pool_alloc_def pool_new_def malloc_at_def)
qed

lemma busy_state:
  "queues busy_server = [] # [0] # replicate 16 []"
  "gl_msg (sv_global busy_server) 0 = Some \<lparr>ms_hdr = sample_header, ms_body = []\<rparr>"
proof -
  let ?g = "global_init (global_new empty_heap) :: message global"
  have h: "distinct (hp_freed empty_heap)" "set (hp_freed empty_heap) = handed_out empty_heap"
    by (simp_all add: empty_heap_def handed_out_def)
  note g = initial_accounts [OF refl h, where 'a = message]
  have heap: "gl_heap ?g = empty_heap" by (simp add: global_init_def init_pools_frame global_new_def)
  have p: "pool_at 0 ?g = Some (pool_new 128)" by (simp add: pool_at_def g(3))
  obtain g' where g': "alloc_msg_block 24 ?g = Some (Some 0, g')" "gl_queues g' = gl_queues ?g"
    using alloc_first [OF p g(2) heap] by (auto simp: empty_heap_def)
  have "push_msg sample_header (Some []) idle_server =
      Some (idle_server\<lparr>sv_global := g'\<lparr>gl_msg := (gl_msg g')(0 \<mapsto> \<lparr>ms_hdr = sample_header, ms_body = []\<rparr>),
        gl_queues := (gl_queues g')[1 := [0]]\<rparr>\<rparr>)"
    using g' by (simp add: push_msg_def Let_def sample_header_def game_msg_def max_thread_num_def idle_server_def g(4)
        queue_push_def)
  then have b: "busy_server = idle_server\<lparr>sv_global := g'\<lparr>gl_msg := (gl_msg g')(0 \<mapsto> \<lparr>ms_hdr = sample_header, ms_body = []\<rparr>),
        gl_queues := (gl_queues g')[1 := [0]]\<rparr>\<rparr>" by (simp add: busy_server_def)
  show "queues busy_server = [] # [0] # replicate 16 []"
    unfolding b queues_def by (simp add: g'(2) g(4) numeral_eq_Suc)
  show "gl_msg (sv_global busy_server) 0 = Some \<lparr>ms_hdr = sample_header, ms_body = []\<rparr>" unfolding b by simp
qed

text \<open>The same server when worker 1 has taken the message out of its queue.\<close>

definition taken_server :: "unit server" where
  "taken_server = snd (the (get_msg_queue 1 busy_server))"

lemma taken_books: "books taken_server [0]" "sv_players taken_server = sv_players idle_server"
  "gl_msg (sv_global taken_server) 0 = Some \<lparr>ms_hdr = sample_header, ms_body = []\<rparr>"
proof -
  have q: "queues busy_server ! 1 = [0]" by (simp add: busy_state(1))
  have t: "get_msg_queue 1 busy_server = Some (Some [0], taken_server)"
    unfolding taken_server_def using q
    by (simp add: get_msg_queue_def max_thread_num_def queue_empty_def Let_def)
  show "books taken_server [0]" using get_msg_queue_books [OF busy_books(2), of 1] t by (simp add: max_thread_num_def)
  show "sv_players taken_server = sv_players idle_server"
    "gl_msg (sv_global taken_server) 0 = Some \<lparr>ms_hdr = sample_header, ms_body = []\<rparr>"
    using q busy_books(3) busy_state(2)
    by (simp_all add: taken_server_def get_msg_queue_def max_thread_num_def queue_empty_def Let_def)
qed

section \<open>Properties\<close>

text \<open>C5: one pass of a worker's loop over its queue ends, with no failed assertion and no wild pointer, and no block is
  lost or freed twice: every block the system has ever handed out is afterwards in exactly one place, a queue, a free list
  or the blocks that were given back, none is in use any more, and the queues hold messages the loop can take.  This holds
  for any handlers that keep these books themselves.\<close>

theorem process_msg_books:
  assumes "handlers_ok hs" "books s []" "unat worker < max_thread_num"
  shows "\<exists>r s'. process_msg worker shutdown hs s = Some (r, s') \<and> books s' []"
proof (cases "shutdown \<and> (worker < worker_id WORKER_THREAD_DB \<or> worker = worker_id WORKER_THREAD_LOAD)")
  case True
  then show ?thesis using assms(2) by (intro exI [of _ False] exI [of _ s]) (simp add: process_msg_def)
next
  case False
  note q = get_msg_queue_books [OF assms(2,3)]
  show ?thesis
  proof (cases "get_msg_queue worker s")
    case None
    then show ?thesis using q by simp
  next
    case (Some r)
    obtain q' s1 where r: "r = (q', s1)" by (cases r)
    show ?thesis
    proof (cases q')
      case None
      then have "process_msg worker shutdown hs s = Some (False, s)"
        using q Some r False by (simp add: process_msg_def)
      then show ?thesis using assms(2) by blast
    next
      case (Some q1)
      then have "books s1 (q1 @ [])" using q r \<open>get_msg_queue worker s = Some r\<close> by simp
      then obtain s2 where "process_queue worker hs q1 s1 = Some s2" "books s2 []"
        using process_queue_books [OF assms(1)] by blast
      then have "process_msg worker shutdown hs s = Some (True, s2)"
        using \<open>get_msg_queue worker s = Some r\<close> r Some False by (simp add: process_msg_def)
      then show ?thesis using \<open>books s2 []\<close> by blast
    qed
  qed
qed

lemma process_msg_books_witness:
  "\<exists>r s'. process_msg 1 False sample_handlers busy_server = Some (r, s') \<and> books s' []"
  by (rule process_msg_books [OF sample_handlers_ok busy_books(2)]) (simp add: max_thread_num_def)

text \<open>C20: what becomes of a message that is in use depends on its number, the worker it is addressed to, its player and the
  player's worker.  A client message addressed to one of the country workers whose player belongs to another worker or is
  changing maps is freed, and no queue, handler or log sees it.  An internal message whose player belongs to another worker
  is put, with the new worker in it, at the end of that worker's queue, or lost exactly if there is no such worker or no memory;
  its own block is freed.  Any other message goes to the handler of its number, if there is one, after the log, and its block is
  freed afterwards.\<close>

theorem message_fate:
  assumes "handlers_ok hs" "books s (b # out)" "gl_msg (sv_global s) b = Some m" "good_msg s m"
  shows "case fate_of worker (ms_hdr m) (sv_players s) of
      Dropped \<Rightarrow> \<exists>s'. process_one worker hs b s = Some s' \<and> books s' out \<and> b \<in> set (free_blocks (sv_global s')) \<and>
        queues s' = queues s \<and> sv_world s' = sv_world s \<and> sv_sec_log s' = sv_sec_log s \<and> sv_players s' = sv_players s
    | Sent_on t \<Rightarrow> \<exists>s' h. process_one worker hs b s = Some s' \<and> books s' out \<and> b \<in> set (free_blocks (sv_global s')) \<and>
        ms_hdr m = GameHdr h \<and> t \<noteq> worker \<and> sv_world s' = sv_world s \<and> sv_sec_log s' = sv_sec_log s \<and>
        (if no_room t (24 + length (ms_body m)) s then queues s' = queues s
         else \<exists>c. unat t < max_thread_num \<and> queues s' = (queues s)[unat t := queues s ! unat t @ [c]] \<and>
            gl_msg (sv_global s') c =
              Some \<lparr>ms_hdr = GameHdr (h\<lparr>gm_hdr := (gm_hdr h)\<lparr>mh_des := t\<rparr>\<rparr>), ms_body = ms_body m\<rparr>)
    | Handled \<Rightarrow> \<exists>s1 s2 s'. log_sec worker (ms_hdr m) s = Some s1 \<and> s1 = s\<lparr>sv_sec_log := sv_sec_log s1\<rparr> \<and>
        (case hs ! unat (mh_cmd (hdr_of (ms_hdr m))) of None \<Rightarrow> s2 = s1 | Some f \<Rightarrow> f m s1 = Some s2) \<and>
        process_one worker hs b s = Some s' \<and> books s' out \<and> b \<in> set (free_blocks (sv_global s')) \<and>
        sv_world s' = sv_world s2 \<and> queues s' = queues s2 \<and> sv_sec_log s' = sv_sec_log s2"
proof (cases "fate_of worker (ms_hdr m) (sv_players s)")
  case Dropped
  then show ?thesis
    using process_one_fate [OF assms(3,4), of worker hs] free_block_books [OF assms(2), of b] free_block_freed by force
next
  case (Sent_on t)
  then obtain h where h: "ms_hdr m = GameHdr h" using fate_sent_on [OF assms(4)] by blast
  have "t \<noteq> worker" using Sent_on by (auto simp: fate_of_def split: option.splits if_splits)
  moreover obtain s1 s2 where f: "forward_msg t m s = Some s1" "free_block b s1 = Some s2" "books s2 out"
    "sv_world s2 = sv_world s" "sv_sec_log s2 = sv_sec_log s" "b \<in> set (free_blocks (sv_global s2))"
    "if no_room t (24 + length (ms_body m)) s then queues s2 = queues s else
     (\<exists>c. unat t < max_thread_num \<and> queues s2 = (queues s)[unat t := queues s ! unat t @ [c]] \<and>
        gl_msg (sv_global s2) c =
          Some \<lparr>ms_hdr = GameHdr (h\<lparr>gm_hdr := (gm_hdr h)\<lparr>mh_des := t\<rparr>\<rparr>), ms_body = ms_body m\<rparr>)"
    using forward_books [OF assms(2,4) h, of t] by blast
  moreover have "process_one worker hs b s = Some s2"
    using process_one_fate [OF assms(3,4), of worker hs] Sent_on f(1,2) by simp
  ultimately show ?thesis unfolding Sent_on fate.case using h by (intro exI [of _ s2] exI [of _ h]) simp
next
  case Handled
  then show ?thesis using process_one_fate [OF assms(3,4), of worker hs] run_msg_books [OF assms(1,2,4), of worker] by simp
qed

lemma message_fate_witness:
  "case fate_of 1 sample_header (sv_players taken_server) of
      Dropped \<Rightarrow> \<exists>s'. process_one 1 sample_handlers 0 taken_server = Some s' \<and> books s' [] \<and> 0 \<in> set (free_blocks (sv_global s')) \<and>
        queues s' = queues taken_server \<and> sv_world s' = sv_world taken_server \<and> sv_sec_log s' = sv_sec_log taken_server \<and> sv_players s' = sv_players taken_server
    | Sent_on t \<Rightarrow> \<exists>s' h. process_one 1 sample_handlers 0 taken_server = Some s' \<and> books s' [] \<and> 0 \<in> set (free_blocks (sv_global s')) \<and>
        sample_header = GameHdr h \<and> t \<noteq> 1 \<and> sv_world s' = sv_world taken_server \<and> sv_sec_log s' = sv_sec_log taken_server \<and>
        (if no_room t (24 + length ([] :: u8 list)) taken_server then queues s' = queues taken_server
         else \<exists>c. unat t < max_thread_num \<and> queues s' = (queues taken_server)[unat t := queues taken_server ! unat t @ [c]] \<and>
            gl_msg (sv_global s') c =
              Some \<lparr>ms_hdr = GameHdr (h\<lparr>gm_hdr := (gm_hdr h)\<lparr>mh_des := t\<rparr>\<rparr>), ms_body = []\<rparr>)
    | Handled \<Rightarrow> \<exists>s1 s2 s'. log_sec 1 sample_header taken_server = Some s1 \<and> s1 = taken_server\<lparr>sv_sec_log := sv_sec_log s1\<rparr> \<and>
        (case sample_handlers ! unat (mh_cmd (hdr_of sample_header)) of None \<Rightarrow> s2 = s1 | Some f \<Rightarrow> f \<lparr>ms_hdr = sample_header, ms_body = []\<rparr> s1 = Some s2) \<and>
        process_one 1 sample_handlers 0 taken_server = Some s' \<and> books s' [] \<and> 0 \<in> set (free_blocks (sv_global s')) \<and>
        sv_world s' = sv_world s2 \<and> queues s' = queues s2 \<and> sv_sec_log s' = sv_sec_log s2"
proof -
  have "good_msg taken_server \<lparr>ms_hdr = sample_header, ms_body = []\<rparr>"
    using books_msg [OF taken_books(1), of 0] taken_books(3) by simp
  from message_fate [OF sample_handlers_ok taken_books(1,3) this, of 1]
  show ?thesis unfolding message.select_convs .
qed

lemma sample_is_sent_on: "fate_of 1 sample_header (sv_players taken_server) = Sent_on 2"
  by (simp add: fate_of_def sample_header_def game_msg_def taken_books(2) idle_server_def)

text \<open>A handler of a message type runs only with a message that its type could read out of the body, and never
  reads outside the body; so a handler function that keeps the books makes a handler that keeps them for every
  body whatever, well formed or not.\<close>

theorem handler_wrapper_ok:
  fixes f :: "header \<Rightarrow> 'a \<Rightarrow> 'w server \<Rightarrow> 'w server option"
  assumes "guarded c"
    "\<And>h x s out. good_header s h \<Longrightarrow> books s out \<Longrightarrow> \<exists>s'. f h x s = Some s' \<and> books s' out"
  shows "handler_ok (handler_wrapper c f)"
  unfolding handler_ok_def
proof (intro allI impI)
  fix m out and s :: "'w server"
  assume g: "good_msg s m" "books s out"
  have "within (mh_len (hdr_of (ms_hdr m))) (s_unser c (ms_body m) (mh_len (hdr_of (ms_hdr m))))"
    using g(1) by (intro guarded.stays [OF assms(1)]) (simp add: good_msg_def)
  then show "\<exists>s'. handler_wrapper c f m s = Some s' \<and> books s' out"
    using assms(2) [of s "ms_hdr m" out] g
    by (cases "s_unser c (ms_body m) (mh_len (hdr_of (ms_hdr m)))") (auto simp: handler_wrapper_def good_msg_def)
qed

lemma handler_wrapper_ok_witness:
  "handler_ok (handler_wrapper s11n_string (\<lambda>h x s. Some s))"
  by (rule handler_wrapper_ok) (simp_all add: gstr.guarded_axioms)

text \<open>Registering a list of handlers in an empty table succeeds exactly if their numbers are all different and
  below \<^verbatim>\<open>MAX_MSG_NUM\<close>, and then the table has each handler under its number and nothing else.\<close>

theorem registration:
  "((\<exists>hs. register_all l no_handlers = Some hs) \<longleftrightarrow> distinct (map fst l) \<and> (\<forall>i \<in> fst ` set l. i < max_msg_num)) \<and>
   (register_all l no_handlers = Some hs \<longrightarrow> (\<forall>j < max_msg_num. hs ! j = map_of l j))"
  using register_all_iff [of no_handlers l] register_all_result [of no_handlers l hs]
  by (auto simp: no_handlers_def split: option.splits)


lemma registration_witness:
  "((\<exists>hs. register_all [(0x101 :: nat, \<lambda>m s. Some s :: unit server option)] no_handlers = Some hs) \<longleftrightarrow>
      distinct (map fst [(0x101 :: nat, \<lambda>m s. Some s :: unit server option)]) \<and>
      (\<forall>i \<in> fst ` set [(0x101 :: nat, \<lambda>m s. Some s :: unit server option)]. i < max_msg_num)) \<and>
   list_all (\<lambda>j. (no_handlers[0x101 := Some (\<lambda>m s. Some s :: unit server option)]) ! j =
      map_of [(0x101 :: nat, \<lambda>m s. Some s :: unit server option)] j) [0 ..< max_msg_num]"
  using registration [of "[(0x101 :: nat, \<lambda>m s. Some s :: unit server option)]"
      "no_handlers[0x101 := Some (\<lambda>m s. Some s :: unit server option)]"]
  by (simp add: register_handler_def list_all_iff) (simp add: max_msg_num_def no_handlers_def)

text \<open>Every number of the server protocol of \<^verbatim>\<open>MsgID.h\<close> can have its handler at the same time; the client
  requests cannot, because some of them share a number and the second registration fails its assertion.\<close>

theorem protocol_numbers:
  fixes fs gs :: "'w handler list"
  assumes "length fs = length speq_ids" "length gs = length req_ids"
  shows "(\<exists>hs. register_all (zip (map nat (ids speq_ids)) fs) no_handlers = Some hs) \<and>
         \<not> (\<exists>hs. register_all (zip (map nat (ids req_ids)) gs) no_handlers = Some hs)"
proof -
  have n: "map fst (zip (map nat (ids t)) hs) = map nat (ids t)" if "length hs = length t" for t and hs :: "'w handler list"
    using that by (simp add: ids_def)
  then have i: "fst ` set (zip (map nat (ids t)) hs) = nat ` set (ids t)" if "length hs = length t" for t and hs :: "'w handler list"
    using that by (metis list.set_map)
  have "\<forall>v \<in> set (ids speq_ids). 0 \<le> v \<and> v < 0x600" by (simp add: ids_def speq_ids_def)
  then have s: "distinct (map nat (ids speq_ids))" "\<forall>v \<in> nat ` set (ids speq_ids). v < 0x600"
    using speq_distinct by (auto simp: distinct_map inj_on_def eq_nat_nat_iff)
  have "\<not> distinct (map nat (ids req_ids))" using requests_not_distinct by (simp add: distinct_map)
  then show ?thesis
    using register_all_iff [of no_handlers "zip (map nat (ids speq_ids)) fs"]
      register_all_iff [of no_handlers "zip (map nat (ids req_ids)) gs"] n i s assms
    by (auto simp: no_handlers_def max_msg_num_def)
qed

lemma protocol_numbers_witness:
  "(\<exists>hs. register_all (zip (map nat (ids speq_ids)) (replicate (length speq_ids) (\<lambda>m s. Some s :: unit server option)))
      no_handlers = Some hs) \<and>
   \<not> (\<exists>hs. register_all (zip (map nat (ids req_ids)) (replicate (length req_ids) (\<lambda>m s. Some s :: unit server option)))
      no_handlers = Some hs)"
  by (rule protocol_numbers) simp_all

end
