(* ===== verification/HashList.thy ===== *)
theory HashList
  imports Prelude
begin

text \<open>
  The open-addressing hash table of \<^verbatim>\<open>Common/HashList.h\<close> and the array of such tables in
  \<^verbatim>\<open>Common/HashTable.h\<close>.  A slot is empty (\<^verbatim>\<open>NULL\<close>), a \<^verbatim>\<open>CORPSE_ENTRY\<close> or an entry; the hash function is a
  parameter.  \<open>None\<close> is a division by zero, an index outside the array, or a thread that waits for a mutex it
  holds itself.  The mutex is a flag, and \<open>u\<close> is the template argument \<^verbatim>\<open>_UseMutex\<close>.

  The locale \<open>bucket\<close> is what \<^verbatim>\<open>HashTable\<close> relies on; it is interpreted on the model of \<^verbatim>\<open>HashList\<close>.
\<close>

section \<open>One list\<close>

datatype ('k, 'v) slot = Empty | Corpse | Entry int 'k 'v

type_synonym ('k, 'v) slots = "('k, 'v) slot list"

record ('k, 'v) hash_list =
  hl_slots :: "('k, 'v) slots"
  hl_count :: int
  hl_locked :: bool

definition hash_list_new :: "('k, 'v) hash_list" where
  "hash_list_new = \<lparr>hl_slots = [], hl_count = 0, hl_locked = False\<rparr>"

definition hl_lock :: "bool \<Rightarrow> ('k, 'v) hash_list \<Rightarrow> ('k, 'v) hash_list option" where
  "hl_lock u t = (if u then if hl_locked t then None else Some (t\<lparr>hl_locked := True\<rparr>) else Some t)"

definition hl_unlock :: "bool \<Rightarrow> ('k, 'v) hash_list \<Rightarrow> ('k, 'v) hash_list" where
  "hl_unlock u t = (if u then t\<lparr>hl_locked := False\<rparr> else t)"

text \<open>\<^verbatim>\<open>hash % _capacity\<close>, which is negative for a negative hash that is not a multiple.\<close>

definition home :: "int \<Rightarrow> nat \<Rightarrow> nat option" where
  "home h n =
     (if n = 0 then None
      else if h \<ge> 0 then Some (nat h mod n)
      else if (- h) mod int n = 0 then Some 0 else None)"

text \<open>The loop of \<^verbatim>\<open>insertInternal\<close>, with the iterations left.\<close>

primrec ins_loop :: "nat \<Rightarrow> nat \<Rightarrow> int \<Rightarrow> 'k \<Rightarrow> 'v \<Rightarrow> ('k, 'v) slots \<Rightarrow> ('k, 'v) slots option" where
  "ins_loop 0 pos h k v ts = None"
| "ins_loop (Suc n) pos h k v ts =
     (case ts ! pos of
        Entry h' k' _ \<Rightarrow>
          if h' = h \<and> k' = k then None else ins_loop n ((pos + 1) mod length ts) h k v ts
      | _ \<Rightarrow> Some (ts[pos := Entry h k v]))"

definition insert_internal ::
  "bool \<Rightarrow> int \<Rightarrow> 'k \<Rightarrow> 'v \<Rightarrow> ('k, 'v) hash_list \<Rightarrow> (bool \<times> ('k, 'v) hash_list) option" where
  "insert_internal u h k v t = do {
     t1 \<leftarrow> hl_lock u t;
     pos \<leftarrow> home h (length (hl_slots t1));
     Some (case ins_loop (length (hl_slots t1)) pos h k v (hl_slots t1) of
       None \<Rightarrow> (False, hl_unlock u t1)
     | Some ts \<Rightarrow> (True, hl_unlock u (t1\<lparr>hl_slots := ts, hl_count := hl_count t1 + 1\<rparr>))) }"

definition step_sizes :: "nat list" where
  "step_sizes =
     [17, 37, 79, 163, 331, 673, 1361, 2729, 5471, 10949, 21911, 43853, 87719, 175447, 350899, 701819, 1403641,
      2807303, 5614657, 11229331, 22458671, 44917381, 89834777, 179669557, 359339171, 718678369, 1437356741,
      2147483647]"

primrec reinsert :: "bool \<Rightarrow> ('k, 'v) slots \<Rightarrow> ('k, 'v) hash_list \<Rightarrow> ('k, 'v) hash_list option" where
  "reinsert u [] t = Some t"
| "reinsert u (e # es) t =
     (case e of
        Entry h k v \<Rightarrow> do { r \<leftarrow> insert_internal u h k v t; reinsert u es (snd r) }
      | _ \<Rightarrow> reinsert u es t)"

definition checkup_space :: "bool \<Rightarrow> ('k, 'v) hash_list \<Rightarrow> ('k, 'v) hash_list option" where
  "checkup_space u t =
     (if hl_count t + hl_count t div 4 \<ge> int (length (hl_slots t))
      then do {
        t1 \<leftarrow> hl_lock u t;
        n \<leftarrow> find (\<lambda>n. length (hl_slots t1) < n) step_sizes;
        t2 \<leftarrow> reinsert u (hl_slots t1) (t1\<lparr>hl_slots := replicate n Empty, hl_count := 0\<rparr>);
        Some (hl_unlock u t2) }
      else Some t)"

definition hl_insert ::
  "bool \<Rightarrow> ('k \<Rightarrow> int) \<Rightarrow> 'k \<Rightarrow> 'v \<Rightarrow> ('k, 'v) hash_list \<Rightarrow> (bool \<times> ('k, 'v) hash_list) option" where
  "hl_insert u hash k v t = do { t1 \<leftarrow> checkup_space u t; insert_internal u (hash k) k v t1 }"

text \<open>The search of \<^verbatim>\<open>remove\<close> and \<^verbatim>\<open>take\<close>: at a corpse the loop continues without going on to the next slot.\<close>

primrec find_loop :: "nat \<Rightarrow> nat \<Rightarrow> int \<Rightarrow> 'k \<Rightarrow> ('k, 'v) slots \<Rightarrow> nat option" where
  "find_loop 0 pos h k ts = None"
| "find_loop (Suc n) pos h k ts =
     (case ts ! pos of
        Empty \<Rightarrow> None
      | Corpse \<Rightarrow> find_loop n pos h k ts
      | Entry h' k' _ \<Rightarrow>
          if h' = h \<and> k' = k then Some pos else find_loop n ((pos + 1) mod length ts) h k ts)"

definition back_one :: "nat \<Rightarrow> nat \<Rightarrow> nat" where
  "back_one n pos = (if pos = 0 then n - 1 else pos - 1)"

text \<open>The loop that clears the corpses before an emptied slot; every round clears one.\<close>

primrec clear_back :: "nat \<Rightarrow> nat \<Rightarrow> ('k, 'v) slots \<Rightarrow> ('k, 'v) slots" where
  "clear_back 0 pos ts = ts"
| "clear_back (Suc n) pos ts =
     (case ts ! pos of
        Corpse \<Rightarrow> clear_back n (back_one (length ts) pos) (ts[pos := Empty])
      | _ \<Rightarrow> ts)"

text \<open>What \<^verbatim>\<open>remove\<close> and \<^verbatim>\<open>take\<close> do to the slots once the entry is found.\<close>

definition erase_at :: "nat \<Rightarrow> ('k, 'v) slots \<Rightarrow> ('k, 'v) slots" where
  "erase_at pos ts =
     (if ts ! ((pos + 1) mod length ts) = Empty
      then clear_back (length ts) (back_one (length ts) pos) (ts[pos := Empty])
      else ts[pos := Corpse])"

definition hl_remove ::
  "bool \<Rightarrow> ('k \<Rightarrow> int) \<Rightarrow> 'k \<Rightarrow> ('k, 'v) hash_list \<Rightarrow> (bool \<times> ('k, 'v) hash_list) option" where
  "hl_remove u hash k t = do {
     t1 \<leftarrow> hl_lock u t;
     pos \<leftarrow> home (hash k) (length (hl_slots t1));
     Some (case find_loop (length (hl_slots t1)) pos (hash k) k (hl_slots t1) of
       None \<Rightarrow> (False, hl_unlock u t1)
     | Some p \<Rightarrow> (True, hl_unlock u (t1\<lparr>hl_slots := erase_at p (hl_slots t1), hl_count := hl_count t1 - 1\<rparr>))) }"

fun slot_value :: "('k, 'v) slot \<Rightarrow> 'v option" where
  "slot_value (Entry _ _ v) = Some v"
| "slot_value _ = None"

text \<open>\<^verbatim>\<open>take\<close> counts a removed entry twice.\<close>

definition hl_take ::
  "bool \<Rightarrow> ('k \<Rightarrow> int) \<Rightarrow> 'k \<Rightarrow> bool \<Rightarrow> ('k, 'v) hash_list \<Rightarrow> ('v option \<times> ('k, 'v) hash_list) option" where
  "hl_take u hash k del t = do {
     t1 \<leftarrow> hl_lock u t;
     pos \<leftarrow> home (hash k) (length (hl_slots t1));
     Some (case find_loop (length (hl_slots t1)) pos (hash k) k (hl_slots t1) of
       None \<Rightarrow> (None, hl_unlock u t1)
     | Some p \<Rightarrow>
         (slot_value (hl_slots t1 ! p),
          hl_unlock u (if del then t1\<lparr>hl_slots := erase_at p (hl_slots t1), hl_count := hl_count t1 - 1 - 1\<rparr> else t1))) }"

text \<open>\<^verbatim>\<open>reset\<close> empties the slots and leaves the count; \<^verbatim>\<open>destroy\<close> likewise drops them.\<close>

definition hl_reset :: "bool \<Rightarrow> ('k, 'v) hash_list \<Rightarrow> ('k, 'v) hash_list option" where
  "hl_reset u t = do { t1 \<leftarrow> hl_lock u t; Some (hl_unlock u (t1\<lparr>hl_slots := map (\<lambda>_. Empty) (hl_slots t1)\<rparr>)) }"

definition hl_destroy :: "('k, 'v) hash_list \<Rightarrow> ('k, 'v) hash_list" where
  "hl_destroy t = t\<lparr>hl_slots := []\<rparr>"

section \<open>The table of lists\<close>

type_synonym ('k, 'v) hash_table = "('k, 'v) hash_list list"

definition hash_table_new :: "nat \<Rightarrow> ('k, 'v) hash_table" where
  "hash_table_new n = replicate n hash_list_new"

text \<open>An operation on the list that the hash of the key selects.\<close>

definition on_bucket ::
  "int \<Rightarrow> ('b \<Rightarrow> ('r \<times> 'b) option) \<Rightarrow> 'b list \<Rightarrow> ('r \<times> 'b list) option" where
  "on_bucket h f ht = do {
     i \<leftarrow> home h (length ht);
     r \<leftarrow> f (ht ! i);
     Some (fst r, ht[i := snd r]) }"

definition ht_insert ::
  "bool \<Rightarrow> ('k \<Rightarrow> int) \<Rightarrow> ('k \<Rightarrow> int) \<Rightarrow> 'k \<Rightarrow> 'v \<Rightarrow> ('k, 'v) hash_table \<Rightarrow> (bool \<times> ('k, 'v) hash_table) option" where
  "ht_insert u hash1 hash2 k v ht = on_bucket (hash1 k) (hl_insert u hash2 k v) ht"

definition ht_remove ::
  "bool \<Rightarrow> ('k \<Rightarrow> int) \<Rightarrow> ('k \<Rightarrow> int) \<Rightarrow> 'k \<Rightarrow> ('k, 'v) hash_table \<Rightarrow> (bool \<times> ('k, 'v) hash_table) option" where
  "ht_remove u hash1 hash2 k ht = on_bucket (hash1 k) (hl_remove u hash2 k) ht"

definition ht_take ::
  "bool \<Rightarrow> ('k \<Rightarrow> int) \<Rightarrow> ('k \<Rightarrow> int) \<Rightarrow> 'k \<Rightarrow> bool \<Rightarrow> ('k, 'v) hash_table \<Rightarrow> ('v option \<times> ('k, 'v) hash_table) option" where
  "ht_take u hash1 hash2 k del ht = on_bucket (hash1 k) (hl_take u hash2 k del) ht"

primrec ht_reset :: "bool \<Rightarrow> ('k, 'v) hash_table \<Rightarrow> ('k, 'v) hash_table option" where
  "ht_reset u [] = Some []"
| "ht_reset u (t # ts) = do { t' \<leftarrow> hl_reset u t; ts' \<leftarrow> ht_reset u ts; Some (t' # ts') }"

text \<open>The hash functions of \<^verbatim>\<open>HashTableHasher\<close> for a key of 32 bits: a cast to \<^verbatim>\<open>int\<close>.\<close>

definition do_hash1 :: "u32 \<Rightarrow> int" where "do_hash1 k = sint k"
definition do_hash2 :: "u32 \<Rightarrow> int" where "do_hash2 k = sint k"

section \<open>Searching and inserting\<close>

definition free_slot :: "('k, 'v) slot \<Rightarrow> bool" where
  "free_slot s \<longleftrightarrow> s = Empty \<or> s = Corpse"

lemma next_slot: "pos < length ts \<Longrightarrow> (q + 1) mod length ts < length ts"
  by (intro mod_less_divisor) linarith

lemma find_loop_entry:
  "\<lbrakk>find_loop n pos h k ts = Some p; pos < length ts\<rbrakk> \<Longrightarrow> p < length ts \<and> (\<exists>v. ts ! p = Entry h k v)"
proof (induction n arbitrary: pos)
  case (Suc n)
  have "(pos + 1) mod length ts < length ts" using Suc.prems(2) by (rule next_slot)
  then show ?case using Suc by (auto split: slot.splits if_splits)
qed simp

text \<open>A search that ends at an entry has not seen an empty slot, so filling one does not change it.\<close>

lemma find_loop_fill:
  "\<lbrakk>find_loop n pos h k ts = Some p; ts ! q = Empty; q < length ts\<rbrakk> \<Longrightarrow> find_loop n pos h k (ts[q := s]) = Some p"
proof (induction n arbitrary: pos)
  case (Suc n)
  have "pos \<noteq> q" using Suc.prems(1,2) by auto
  then show ?case using Suc by (auto split: slot.splits if_splits)
qed simp

text \<open>Emptying a slot before an empty one does not change a search that ends at another entry.\<close>

lemma find_loop_erase:
  "\<lbrakk>find_loop n pos h k ts = Some p; p \<noteq> q; ts ! ((q + 1) mod length ts) = Empty; \<exists>h k v. ts ! q = Entry h k v\<rbrakk> \<Longrightarrow>
   find_loop n pos h k (ts[q := Empty]) = Some p"
proof (induction n arbitrary: pos)
  case (Suc n)
  show ?case
  proof (cases "pos = q")
    case True
    then obtain h' k' v' where e: "ts ! q = Entry h' k' v'" using Suc.prems(4) by blast
    then have "find_loop n ((q + 1) mod length ts) h k ts = Some p" using Suc.prems(1,2) True by (auto split: if_splits)
    then show ?thesis using Suc.prems(3) by (cases n) simp_all
  next
    case False
    then show ?thesis using Suc by (auto split: slot.splits if_splits)
  qed
qed simp

lemma ins_loop_find:
  "\<lbrakk>ins_loop n pos h k v ts = Some ts'; pos < length ts; Corpse \<notin> set ts\<rbrakk> \<Longrightarrow>
   \<exists>p < length ts. ts ! p = Empty \<and> ts' = ts[p := Entry h k v] \<and> find_loop n pos h k ts' = Some p"
proof (induction n arbitrary: pos)
  case (Suc n)
  have m: "(pos + 1) mod length ts < length ts" using Suc.prems(2) by (rule next_slot)
  show ?case
  proof (cases "ts ! pos")
    case (Entry h' k' v')
    then have ne: "\<not> (h' = h \<and> k' = k)" and r: "ins_loop n ((pos + 1) mod length ts) h k v ts = Some ts'"
      using Suc.prems(1) by (auto split: if_splits)
    obtain p where p: "p < length ts" "ts ! p = Empty" "ts' = ts[p := Entry h k v]"
      "find_loop n ((pos + 1) mod length ts) h k ts' = Some p"
      using Suc.IH [OF r m Suc.prems(3)] by blast
    have "pos \<noteq> p" using Entry p(2) by auto
    then have "find_loop (Suc n) pos h k ts' = Some p" using Entry ne p(3,4) by auto
    then show ?thesis using p by blast
  next
    case Corpse
    then show ?thesis using Suc.prems(2,3) by (metis nth_mem)
  next
    case Empty
    then show ?thesis using Suc.prems by auto
  qed
qed simp

text \<open>An insertion that finds no place and no equal key has seen every slot.\<close>

lemma ins_loop_none:
  "\<lbrakk>ins_loop n pos h k v ts = None; pos < length ts; j < n\<rbrakk> \<Longrightarrow>
   (\<exists>p v'. p < length ts \<and> ts ! p = Entry h k v') \<or> \<not> free_slot (ts ! ((pos + j) mod length ts))"
proof (induction n arbitrary: pos j)
  case (Suc n)
  have m: "(pos + 1) mod length ts < length ts" using Suc.prems(2) by (rule next_slot)
  obtain h' k' v' where e: "ts ! pos = Entry h' k' v'" using Suc.prems(1) by (auto split: slot.splits)
  show ?case
  proof (cases "h' = h \<and> k' = k")
    case True
    then show ?thesis using e Suc.prems(2) by blast
  next
    case False
    then have r: "ins_loop n ((pos + 1) mod length ts) h k v ts = None"
      using Suc.prems(1) e by (auto split: if_splits)
    show ?thesis
    proof (cases j)
      case 0
      then show ?thesis using e Suc.prems(2) by (simp add: free_slot_def)
    next
      case (Suc i)
      have "((pos + 1) mod length ts + i) mod length ts = (pos + j) mod length ts"
        using Suc by (simp add: mod_add_left_eq)
      then show ?thesis using Suc.IH [OF r m, of i] \<open>j < Suc n\<close> Suc by simp
    qed
  qed
qed simp


definition search :: "('k \<Rightarrow> int) \<Rightarrow> 'k \<Rightarrow> ('k, 'v) slots \<Rightarrow> nat option" where
  "search hash k ts =
     (case home (hash k) (length ts) of None \<Rightarrow> None | Some p \<Rightarrow> find_loop (length ts) p (hash k) k ts)"

definition hl_get :: "('k \<Rightarrow> int) \<Rightarrow> ('k, 'v) hash_list \<Rightarrow> 'k \<Rightarrow> 'v option" where
  "hl_get hash t k = (case search hash k (hl_slots t) of None \<Rightarrow> None | Some p \<Rightarrow> slot_value (hl_slots t ! p))"

text \<open>A list in order: hash values are not negative, there are no corpses, every entry is where a search for its key
  ends, and the count is the number of entries.\<close>

definition slots_ok :: "('k \<Rightarrow> int) \<Rightarrow> ('k, 'v) slots \<Rightarrow> bool" where
  "slots_ok hash ts \<longleftrightarrow>
     (\<forall>k. 0 \<le> hash k) \<and> Corpse \<notin> set ts \<and>
     (\<forall>p h k v. p < length ts \<longrightarrow> ts ! p = Entry h k v \<longrightarrow> h = hash k \<and> search hash k ts = Some p)"

definition used :: "('k, 'v) slots \<Rightarrow> nat set" where
  "used ts = {p. p < length ts \<and> ts ! p \<noteq> Empty}"

definition hl_ok :: "('k \<Rightarrow> int) \<Rightarrow> ('k, 'v) hash_list \<Rightarrow> bool" where
  "hl_ok hash t \<longleftrightarrow> slots_ok hash (hl_slots t) \<and> \<not> hl_locked t \<and> hl_count t = int (card (used (hl_slots t)))"

lemma finite_used [simp]: "finite (used ts)"
  by (simp add: used_def)

lemma card_used_le: "card (used ts) \<le> length ts"
proof -
  have "used ts \<subseteq> {..< length ts}" by (auto simp: used_def)
  from card_mono [OF _ this] show ?thesis by simp
qed

lemma home_ok: "0 \<le> h \<Longrightarrow> 0 < n \<Longrightarrow> home h n = Some (nat h mod n)"
  by (simp add: home_def)

lemma search_def': "slots_ok hash ts \<Longrightarrow> ts \<noteq> [] \<Longrightarrow>
   search hash k ts = find_loop (length ts) (nat (hash k) mod length ts) (hash k) k ts"
  by (simp add: search_def slots_ok_def home_ok)

lemma search_entry:
  assumes "search hash k ts = Some p"
  shows "p < length ts \<and> (\<exists>v. ts ! p = Entry (hash k) k v)"
proof -
  obtain q where "home (hash k) (length ts) = Some q" "find_loop (length ts) q (hash k) k ts = Some p"
    using assms unfolding search_def by (cases "home (hash k) (length ts)") simp_all
  then have q: "find_loop (length ts) q (hash k) k ts = Some p" "q < length ts"
    by (auto simp: home_def split: if_splits)
  show ?thesis by (rule find_loop_entry [OF q])
qed

lemma hl_get_iff:
  assumes "slots_ok hash (hl_slots t)"
  shows "hl_get hash t k = Some v \<longleftrightarrow> (\<exists>p < length (hl_slots t). hl_slots t ! p = Entry (hash k) k v)"
proof
  assume "hl_get hash t k = Some v"
  then obtain p where "search hash k (hl_slots t) = Some p" "slot_value (hl_slots t ! p) = Some v"
    unfolding hl_get_def by (cases "search hash k (hl_slots t)") simp_all
  then show "\<exists>p < length (hl_slots t). hl_slots t ! p = Entry (hash k) k v"
    using search_entry [of hash k "hl_slots t" p] by auto
next
  assume "\<exists>p < length (hl_slots t). hl_slots t ! p = Entry (hash k) k v"
  then obtain p where p: "p < length (hl_slots t)" "hl_slots t ! p = Entry (hash k) k v" by blast
  then have "search hash k (hl_slots t) = Some p" using assms unfolding slots_ok_def by blast
  then show "hl_get hash t k = Some v" using p by (simp add: hl_get_def)
qed

lemma used_update: "p < length ts \<Longrightarrow> s \<noteq> Empty \<Longrightarrow> used (ts[p := s]) = insert p (used ts)"
  "p < length ts \<Longrightarrow> used (ts[p := Empty]) = used ts - {p}"
  by (auto simp: used_def nth_list_update)

text \<open>One insertion into a list that is not full.\<close>

lemma slots_fill:
  assumes ok: "slots_ok hash ts" and p: "p < length ts" "ts ! p = Empty"
    and s: "search hash k (ts[p := Entry (hash k) k v]) = Some p"
  shows "slots_ok hash (ts[p := Entry (hash k) k v])"
proof -
  let ?ts = "ts[p := Entry (hash k) k v]"
  have c: "Corpse \<notin> set ts" and h0: "\<forall>k. 0 \<le> hash k"
    and old: "\<And>q h k v. q < length ts \<Longrightarrow> ts ! q = Entry h k v \<Longrightarrow> h = hash k \<and> search hash k ts = Some q"
    using ok unfolding slots_ok_def by blast+
  have ne: "ts \<noteq> []" using p(1) by auto
  have "Corpse \<notin> set ?ts"
    using c set_update_subset_insert [of ts p "Entry (hash k) k v"] by blast
  moreover have "h = hash k' \<and> search hash k' ?ts = Some q" if q: "q < length ?ts" "?ts ! q = Entry h k' v'" for q h k' v'
  proof (cases "q = p")
    case True
    then have "h = hash k' \<and> k' = k" using q p(1) by auto
    then show ?thesis using s True by blast
  next
    case False
    then have o: "h = hash k'" "search hash k' ts = Some q" using old [of q h k' v'] q by simp_all
    then have "find_loop (length ts) (nat (hash k') mod length ts) (hash k') k' ts = Some q"
      using search_def' [OF ok ne] by simp
    from find_loop_fill [OF this p(2,1), of "Entry (hash k) k v"] o(1)
    show ?thesis using h0 ne by (simp add: search_def home_ok)
  qed
  ultimately show ?thesis using h0 unfolding slots_ok_def by blast
qed

lemma has_empty: "card (used ts) < length ts \<Longrightarrow> \<exists>e < length ts. ts ! e = Empty"
proof (rule ccontr)
  assume r: "card (used ts) < length ts" and "\<not> (\<exists>e < length ts. ts ! e = Empty)"
  then have "used ts = {..< length ts}" by (auto simp: used_def)
  then show False using r by simp
qed

lemma ins_loop_some:
  assumes "card (used ts) < length ts" "pos < length ts" "\<not> (\<exists>p < length ts. \<exists>v. ts ! p = Entry h k v)"
  shows "\<exists>ts'. ins_loop (length ts) pos h k v ts = Some ts'"
proof (rule ccontr)
  let ?n = "length ts"
  assume "\<not> (\<exists>ts'. ins_loop (length ts) pos h k v ts = Some ts')"
  then have n: "ins_loop ?n pos h k v ts = None" by simp
  obtain e where e: "e < ?n" "ts ! e = Empty" using has_empty [OF assms(1)] by blast
  let ?j = "(e + (?n - pos)) mod ?n"
  have "(pos + ?j) mod ?n = (pos + (e + (?n - pos))) mod ?n" by (simp add: mod_add_right_eq)
  also have "pos + (e + (?n - pos)) = e + ?n" using assms(2) by linarith
  finally have j: "(pos + ?j) mod ?n = e" using e(1) by simp
  have "?j < ?n" using e(1) by (intro mod_less_divisor) linarith
  from ins_loop_none [OF n assms(2) this] show False
    unfolding j using assms(3) e(2) by (simp add: free_slot_def)
qed

lemma slots_insert:
  assumes ok: "slots_ok hash ts" and room: "card (used ts) < length ts"
    and new: "\<not> (\<exists>p < length ts. \<exists>v. ts ! p = Entry (hash k) k v)"
  shows "\<exists>p < length ts. ts ! p = Empty \<and>
    ins_loop (length ts) (nat (hash k) mod length ts) (hash k) k v ts = Some (ts[p := Entry (hash k) k v]) \<and>
    slots_ok hash (ts[p := Entry (hash k) k v])"
proof -
  let ?n = "length ts" and ?h = "nat (hash k) mod length ts"
  have pos: "?h < ?n" using room by (intro mod_less_divisor) linarith
  have c: "Corpse \<notin> set ts" and h0: "\<forall>k. 0 \<le> hash k" using ok by (simp_all add: slots_ok_def)
  obtain ts' where i: "ins_loop ?n ?h (hash k) k v ts = Some ts'" using ins_loop_some [OF room pos new] by blast
  obtain p where p: "p < ?n" "ts ! p = Empty" "ts' = ts[p := Entry (hash k) k v]"
    "find_loop ?n ?h (hash k) k ts' = Some p"
    using ins_loop_find [OF i pos c] by blast
  have "ts \<noteq> []" using p(1) by auto
  then have "search hash k (ts[p := Entry (hash k) k v]) = Some p"
    using p(3,4) h0 by (simp add: search_def home_ok)
  from slots_fill [OF ok p(1,2) this] show ?thesis using i p by blast
qed

text \<open>What a list in order holds after a slot was filled, and that a present key is not inserted again.\<close>

lemma filled_entries:
  assumes "p < length ts" "ts ! p = Empty" "\<not> (\<exists>p < length ts. \<exists>v. ts ! p = Entry (hash k) k v)"
  shows "(\<exists>q < length ts. ts[p := Entry (hash k) k v] ! q = Entry (hash k') k' w) \<longleftrightarrow>
    (if k' = k then w = v else \<exists>q < length ts. ts ! q = Entry (hash k') k' w)"
proof -
  have each: "ts[p := Entry (hash k) k v] ! q = Entry (hash k') k' w \<longleftrightarrow>
      (if q = p then k' = k \<and> w = v else ts ! q = Entry (hash k') k' w)" if "q < length ts" for q
    using assms(1,2) that by (cases "q = p") auto
  show ?thesis
  proof (cases "k' = k")
    case True
    then show ?thesis using each assms by (metis (full_types))
  next
    case False
    then have "ts[p := Entry (hash k) k v] ! q = Entry (hash k') k' w \<longleftrightarrow> ts ! q = Entry (hash k') k' w"
      if "q < length ts" for q
      using each [OF that] assms(2) by (cases "q = p") simp_all
    then show ?thesis using False by (simp cong: conj_cong)
  qed
qed

lemma ins_loop_present:
  assumes ok: "slots_ok hash ts" and p: "p < length ts" "ts ! p = Entry (hash k) k w"
  shows "ins_loop (length ts) (nat (hash k) mod length ts) (hash k) k v ts = None"
proof (rule ccontr)
  assume "ins_loop (length ts) (nat (hash k) mod length ts) (hash k) k v ts \<noteq> None"
  then obtain ts' where i: "ins_loop (length ts) (nat (hash k) mod length ts) (hash k) k v ts = Some ts'" by blast
  have ne: "ts \<noteq> []" using p(1) by auto
  then have pos: "nat (hash k) mod length ts < length ts" by simp
  have c: "Corpse \<notin> set ts" using ok by (simp add: slots_ok_def)
  obtain q where q: "q < length ts" "ts ! q = Empty" "ts' = ts[q := Entry (hash k) k v]"
    "find_loop (length ts) (nat (hash k) mod length ts) (hash k) k ts' = Some q"
    using ins_loop_find [OF i pos c] by blast
  have "search hash k ts = Some p" using ok p unfolding slots_ok_def by blast
  then have "find_loop (length ts) (nat (hash k) mod length ts) (hash k) k ts = Some p"
    using search_def' [OF ok ne] by simp
  from find_loop_fill [OF this q(2,1), of "Entry (hash k) k v"] have "p = q" using q(3,4) by simp
  then show False using p(2) q(2) by simp
qed

lemma hl_lock_free: "\<not> hl_locked t \<Longrightarrow> \<exists>t1. hl_lock u t = Some t1 \<and> hl_slots t1 = hl_slots t \<and> hl_count t1 = hl_count t"
  by (simp add: hl_lock_def)

lemma hl_unlock_fields [simp]:
  "hl_slots (hl_unlock u t) = hl_slots t" "hl_count (hl_unlock u t) = hl_count t"
  by (simp_all add: hl_unlock_def)

lemma hl_unlock_lock:
  "\<lbrakk>\<not> hl_locked t; hl_lock u t = Some t1\<rbrakk> \<Longrightarrow> hl_unlock u t1 = t \<and> \<not> hl_locked (hl_unlock u (t1\<lparr>hl_slots := ts, hl_count := c\<rparr>))"
  by (auto simp: hl_lock_def hl_unlock_def split: if_splits)

lemma hl_get_fields: "hl_slots t' = hl_slots t \<Longrightarrow> hl_get hash t' k = hl_get hash t k"
  unfolding hl_get_def by (simp only:)

lemma option_eqI: "(\<And>w. x = Some w \<longleftrightarrow> y = Some w) \<Longrightarrow> x = y"
  by (cases x; cases y) auto

lemma insert_internal_ok:
  assumes ok: "hl_ok hash t" and room: "hl_count t < int (length (hl_slots t))"
  shows "\<exists>t'. insert_internal u (hash k) k v t = Some (hl_get hash t k = None, t') \<and> hl_ok hash t' \<and>
    length (hl_slots t') = length (hl_slots t) \<and> hl_count t' \<le> hl_count t + 1 \<and>
    (\<forall>k'. hl_get hash t' k' = (if k' = k \<and> hl_get hash t k = None then Some v else hl_get hash t k'))"
proof -
  let ?ts = "hl_slots t"
  have so: "slots_ok hash ?ts" and nl: "\<not> hl_locked t" and c: "hl_count t = int (card (used ?ts))"
    using ok by (simp_all add: hl_ok_def)
  have r: "card (used ?ts) < length ?ts" using room c by simp
  then have ne: "?ts \<noteq> []" by auto
  have h: "home (hash k) (length ?ts) = Some (nat (hash k) mod length ?ts)"
    using so ne by (simp add: slots_ok_def home_ok)
  obtain t1 where t1: "hl_lock u t = Some t1" "hl_slots t1 = ?ts" "hl_count t1 = hl_count t"
    using hl_lock_free [OF nl] by blast
  note unl = hl_unlock_lock [OF nl t1(1)]
  show ?thesis
  proof (cases "hl_get hash t k")
    case None
    then have new: "\<not> (\<exists>p < length ?ts. \<exists>v. ?ts ! p = Entry (hash k) k v)"
      using hl_get_iff [OF so] by (metis option.distinct(1))
    obtain p where p: "p < length ?ts" "?ts ! p = Empty"
      "ins_loop (length ?ts) (nat (hash k) mod length ?ts) (hash k) k v ?ts = Some (?ts[p := Entry (hash k) k v])"
      "slots_ok hash (?ts[p := Entry (hash k) k v])"
      using slots_insert [OF so r new] by blast
    let ?t = "hl_unlock u (t1\<lparr>hl_slots := ?ts[p := Entry (hash k) k v], hl_count := hl_count t + 1\<rparr>)"
    have i: "insert_internal u (hash k) k v t = Some (True, ?t)"
      using t1 h p(3) by (simp add: insert_internal_def)
    have "p \<notin> used ?ts" using p(2) by (simp add: used_def)
    then have ok': "hl_ok hash ?t"
      using p(1,4) unl c by (simp add: hl_ok_def used_update)
    have st: "hl_slots ?t = ?ts[p := Entry (hash k) k v]" by simp
    have g: "hl_get hash ?t k' = (if k' = k then Some v else hl_get hash t k')" for k'
    proof (rule option_eqI)
      fix w
      have "hl_get hash ?t k' = Some w \<longleftrightarrow> (if k' = k then w = v else \<exists>q < length ?ts. ?ts ! q = Entry (hash k') k' w)"
        using hl_get_iff [of hash ?t k' w] p(4) filled_entries [where hash = hash and k = k and v = v and k' = k' and w = w, OF p(1,2) new] unfolding st by simp
      then show "hl_get hash ?t k' = Some w \<longleftrightarrow> (if k' = k then Some v else hl_get hash t k') = Some w"
        using hl_get_iff [OF so, of k' w] by auto
    qed
    show ?thesis
      by (rule exI [of _ ?t]) (simp add: i ok' g None)
  next
    case (Some w)
    then obtain p where p: "p < length ?ts" "?ts ! p = Entry (hash k) k w" using hl_get_iff [OF so] by blast
    from ins_loop_present [OF so this]
    have "ins_loop (length ?ts) (nat (hash k) mod length ?ts) (hash k) k v ?ts = None" .
    then have "insert_internal u (hash k) k v t = Some (False, t)"
      using t1 h unl by (simp add: insert_internal_def)
    then show ?thesis using ok Some by simp
  qed
qed

section \<open>Growing\<close>

fun entries :: "('k, 'v) slots \<Rightarrow> ('k \<times> 'v) list" where
  "entries [] = []"
| "entries (Entry h k v # ts) = (k, v) # entries ts"
| "entries (s # ts) = entries ts"

lemma length_entries: "length (entries ts) \<le> length ts"
  by (induction ts rule: entries.induct) auto

lemma set_entries: "(k, v) \<in> set (entries ts) \<longleftrightarrow> (\<exists>p h. p < length ts \<and> ts ! p = Entry h k v)"
proof -
  have "(k, v) \<in> set (entries ts) \<longleftrightarrow> (\<exists>h. Entry h k v \<in> set ts)"
    by (induction ts rule: entries.induct) auto
  then show ?thesis unfolding in_set_conv_nth by blast
qed

lemma reinsert_ok:
  assumes "\<forall>s \<in> set es. \<forall>h k v. s = Entry h k v \<longrightarrow> h = hash k" "hl_ok hash t"
    "hl_count t + int (length (entries es)) < int (length (hl_slots t))"
  shows "\<exists>t'. reinsert u es t = Some t' \<and> hl_ok hash t' \<and> length (hl_slots t') = length (hl_slots t) \<and>
    hl_count t' \<le> hl_count t + int (length (entries es)) \<and>
    (\<forall>k. hl_get hash t' k = (case hl_get hash t k of Some v \<Rightarrow> Some v | None \<Rightarrow> map_of (entries es) k))"
  using assms
proof (induction es arbitrary: t rule: entries.induct)
  case 1
  then show ?case by (auto split: option.splits)
next
  case (2 h k v es)
  have h: "h = hash k" using 2(2) by simp
  obtain t1 where t1: "insert_internal u (hash k) k v t = Some (hl_get hash t k = None, t1)" "hl_ok hash t1"
    "length (hl_slots t1) = length (hl_slots t)" "hl_count t1 \<le> hl_count t + 1"
    "\<forall>k'. hl_get hash t1 k' = (if k' = k \<and> hl_get hash t k = None then Some v else hl_get hash t k')"
    using insert_internal_ok [OF 2(3), of u k v] 2(4) by auto
  obtain t' where t': "reinsert u es t1 = Some t'" "hl_ok hash t'" "length (hl_slots t') = length (hl_slots t1)"
    "hl_count t' \<le> hl_count t1 + int (length (entries es))"
    "\<forall>k. hl_get hash t' k = (case hl_get hash t1 k of Some v \<Rightarrow> Some v | None \<Rightarrow> map_of (entries es) k)"
    using 2(1) [of t1] 2(2,4) t1(2-4) by auto
  have "hl_get hash t' k' = (case hl_get hash t k' of Some v \<Rightarrow> Some v | None \<Rightarrow> map_of ((k, v) # entries es) k')" for k'
    using t'(5) t1(5) by (auto split: option.splits)
  moreover have "reinsert u (Entry h k v # es) t = Some t'" using t1(1) t'(1) h by simp
  moreover have "hl_count t' \<le> hl_count t + int (length (entries (Entry h k v # es)))" using t1(4) t'(4) by simp
  ultimately show ?case using t1(3) t'(2,3) by (intro exI [of _ t']) (simp cong: option.case_cong)
qed (simp_all cong: option.case_cong)

lemma hl_get_entries:
  assumes "slots_ok hash (hl_slots t)"
  shows "hl_get hash t k = map_of (entries (hl_slots t)) k"
proof (rule option_eqI)
  fix v
  have imp: "hl_get hash t k = Some w" if "(k, w) \<in> set (entries (hl_slots t))" for w
    using that assms hl_get_iff [OF assms, of k w] unfolding set_entries slots_ok_def by metis
  show "hl_get hash t k = Some v \<longleftrightarrow> map_of (entries (hl_slots t)) k = Some v"
  proof
    assume g: "hl_get hash t k = Some v"
    then have "(k, v) \<in> set (entries (hl_slots t))" using hl_get_iff [OF assms] set_entries by fastforce
    then obtain w where w: "map_of (entries (hl_slots t)) k = Some w"
      by (metis map_of_eq_None_iff option.exhaust fst_conv image_eqI)
    then show "map_of (entries (hl_slots t)) k = Some v" using imp [OF map_of_SomeD [OF w]] g by simp
  qed (simp add: imp map_of_SomeD)
qed

lemma hl_ok_empty:
  "\<lbrakk>\<forall>k. 0 \<le> hash k; \<not> hl_locked t\<rbrakk> \<Longrightarrow> hl_ok hash (t\<lparr>hl_slots := replicate n Empty, hl_count := 0\<rparr>)"
  "\<lbrakk>\<forall>k. 0 \<le> hash k; 0 < n\<rbrakk> \<Longrightarrow> hl_get hash (t\<lparr>hl_slots := replicate n Empty, hl_count := 0\<rparr>) k = None"
proof -
  show "\<lbrakk>\<forall>k. 0 \<le> hash k; \<not> hl_locked t\<rbrakk> \<Longrightarrow> hl_ok hash (t\<lparr>hl_slots := replicate n Empty, hl_count := 0\<rparr>)"
    by (simp add: hl_ok_def slots_ok_def used_def)
  assume h: "\<forall>k. 0 \<le> hash k" and n: "0 < n"
  then obtain m where "n = Suc m" by (cases n) auto
  then show "hl_get hash (t\<lparr>hl_slots := replicate n Empty, hl_count := 0\<rparr>) k = None"
    using h by (simp add: hl_get_def search_def home_ok nth_append del: replicate_Suc)
qed

text \<open>Without the mutex the table grows as it must.\<close>

lemma checkup_space_ok:
  assumes ok: "hl_ok hash t" and room: "length (hl_slots t) < 2147483647"
  shows "\<exists>t'. checkup_space False t = Some t' \<and> hl_ok hash t' \<and> hl_count t' < int (length (hl_slots t')) \<and>
    (\<forall>k. hl_get hash t' k = hl_get hash t k)"
proof -
  have so: "slots_ok hash (hl_slots t)" and nl: "\<not> hl_locked t" and c: "0 \<le> hl_count t"
    and h0: "\<forall>k. 0 \<le> hash k"
    using ok by (simp_all add: hl_ok_def slots_ok_def)
  show ?thesis
  proof (cases "hl_count t + hl_count t div 4 \<ge> int (length (hl_slots t))")
    case False
    then show ?thesis using ok c by (simp add: checkup_space_def)
  next
    case True
    have "\<exists>n. find (\<lambda>n. length (hl_slots t) < n) step_sizes = Some n"
      using room by (simp add: step_sizes_def)
    then obtain n where n: "find (\<lambda>n. length (hl_slots t) < n) step_sizes = Some n" by blast
    then have lt: "length (hl_slots t) < n" by (auto simp: find_Some_iff)
    let ?e = "t\<lparr>hl_slots := replicate n Empty, hl_count := 0\<rparr>"
    have e: "\<forall>s \<in> set (hl_slots t). \<forall>h k v. s = Entry h k v \<longrightarrow> h = hash k"
      using so unfolding slots_ok_def by (metis in_set_conv_nth)
    have l: "hl_count ?e + int (length (entries (hl_slots t))) < int (length (hl_slots ?e))"
      using length_entries [of "hl_slots t"] lt by simp
    obtain t' where t': "reinsert False (hl_slots t) ?e = Some t'" "hl_ok hash t'" "length (hl_slots t') = n"
      "hl_count t' \<le> int (length (entries (hl_slots t)))"
      "\<forall>k. hl_get hash t' k = (case hl_get hash ?e k of Some v \<Rightarrow> Some v | None \<Rightarrow> map_of (entries (hl_slots t)) k)"
      using reinsert_ok [OF e hl_ok_empty(1) [OF h0 nl] l, of False] by auto
    have "checkup_space False t = Some t'"
      using True n t'(1) by (simp add: checkup_space_def hl_lock_def hl_unlock_def)
    moreover have "hl_get hash t' k = hl_get hash t k" for k
    proof -
      have "hl_get hash ?e k = None" using h0 lt by (intro hl_ok_empty(2)) simp_all
      then show ?thesis using t'(5) hl_get_entries [OF so, of k] by simp
    qed
    moreover have "hl_count t' < int (length (hl_slots t'))"
      using t'(3,4) length_entries [of "hl_slots t"] lt by simp
    ultimately show ?thesis using t'(2) by blast
  qed
qed

lemma hl_insert_ok:
  assumes "hl_ok hash t" "length (hl_slots t) < 2147483647"
  shows "\<exists>t'. hl_insert False hash k v t = Some (hl_get hash t k = None, t') \<and> hl_ok hash t' \<and>
    (\<forall>k'. hl_get hash t' k' = (if k' = k \<and> hl_get hash t k = None then Some v else hl_get hash t k'))"
proof -
  obtain t1 where t1: "checkup_space False t = Some t1" "hl_ok hash t1" "hl_count t1 < int (length (hl_slots t1))"
    "\<forall>k. hl_get hash t1 k = hl_get hash t k" using checkup_space_ok [OF assms] by blast
  show ?thesis
    using insert_internal_ok [OF t1(2,3), of False k v] t1(1,4) by (auto simp: hl_insert_def)
qed

section \<open>Removing\<close>

lemma clear_back_none: "Corpse \<notin> set ts \<Longrightarrow> pos < length ts \<Longrightarrow> clear_back n pos ts = ts"
  by (cases n) (auto split: slot.splits dest: nth_mem)

lemma erase_ok:
  assumes ok: "slots_ok hash ts" and p: "p < length ts" "ts ! p = Entry (hash k) k v"
    and nxt: "ts ! ((p + 1) mod length ts) = Empty"
  shows "erase_at p ts = ts[p := Empty] \<and> slots_ok hash (ts[p := Empty])"
proof -
  have c: "Corpse \<notin> set ts" and h0: "\<forall>k. 0 \<le> hash k"
    and old: "\<And>q h k v. q < length ts \<Longrightarrow> ts ! q = Entry h k v \<Longrightarrow> h = hash k \<and> search hash k ts = Some q"
    using ok unfolding slots_ok_def by blast+
  have ne: "ts \<noteq> []" using p(1) by auto
  have c': "Corpse \<notin> set (ts[p := Empty])" using c set_update_subset_insert [of ts p Empty] by blast
  have "back_one (length ts) p < length (ts[p := Empty])" using p(1) by (auto simp: back_one_def)
  then have "erase_at p ts = ts[p := Empty]" using nxt clear_back_none [OF c'] by (simp add: erase_at_def)
  moreover have "h = hash k' \<and> search hash k' (ts[p := Empty]) = Some q"
    if q: "q < length (ts[p := Empty])" "ts[p := Empty] ! q = Entry h k' v'" for q h k' v'
  proof -
    have "q \<noteq> p" using q by auto
    then have o: "h = hash k'" "search hash k' ts = Some q" using old [of q h k' v'] q by simp_all
    then have "find_loop (length ts) (nat (hash k') mod length ts) (hash k') k' ts = Some q"
      using search_def' [OF ok ne] by simp
    from find_loop_erase [OF this \<open>q \<noteq> p\<close> nxt] p(2) o(1) show ?thesis
      using h0 ne by (simp add: search_def home_ok)
  qed
  ultimately show ?thesis using c' h0 unfolding slots_ok_def by blast
qed


lemma hl_remove_ok:
  assumes ok: "hl_ok hash t" and g: "search hash k (hl_slots t) = Some p"
    and nxt: "hl_slots t ! ((p + 1) mod length (hl_slots t)) = Empty"
  shows "\<exists>t'. hl_remove u hash k t = Some (True, t') \<and> hl_ok hash t' \<and>
    (\<forall>k'. hl_get hash t' k' = (if k' = k then None else hl_get hash t k'))"
proof -
  let ?ts = "hl_slots t"
  have so: "slots_ok hash ?ts" and nl: "\<not> hl_locked t" and c: "hl_count t = int (card (used ?ts))"
    using ok by (simp_all add: hl_ok_def)
  obtain v where p: "p < length ?ts" "?ts ! p = Entry (hash k) k v" using search_entry [OF g] by blast
  have ne: "?ts \<noteq> []" using p(1) by auto
  note e = erase_ok [OF so p nxt]
  obtain t1 where t1: "hl_lock u t = Some t1" "hl_slots t1 = ?ts" "hl_count t1 = hl_count t"
    using hl_lock_free [OF nl] by blast
  let ?t = "hl_unlock u (t1\<lparr>hl_slots := ?ts[p := Empty], hl_count := hl_count t - 1\<rparr>)"
  have h: "home (hash k) (length ?ts) = Some (nat (hash k) mod length ?ts)"
    using so ne by (simp add: slots_ok_def home_ok)
  have "find_loop (length ?ts) (nat (hash k) mod length ?ts) (hash k) k ?ts = Some p"
    using g search_def' [OF so ne] by simp
  then have r: "hl_remove u hash k t = Some (True, ?t)"
    using t1 h e by (simp add: hl_remove_def)
  have "p \<in> used ?ts" using p by (simp add: used_def)
  moreover have "0 < card (used ?ts)" using card_gt_0_iff [of "used ?ts"] \<open>p \<in> used ?ts\<close> by auto
  then have "int (card (used ?ts) - Suc 0) = int (card (used ?ts)) - 1" by linarith
  ultimately have ok': "hl_ok hash ?t"
    using e p(1) c hl_unlock_lock [OF nl t1(1)] by (simp add: hl_ok_def used_update card_Diff_singleton)
  have st: "hl_slots ?t = ?ts[p := Empty]" by simp
  have "hl_get hash ?t k' = (if k' = k then None else hl_get hash t k')" for k'
  proof (rule option_eqI)
    fix w
    have only: "q = p" if "q < length ?ts" "?ts ! q = Entry (hash k) k w'" for q w'
    proof -
      have "search hash k ?ts = Some q" using so that unfolding slots_ok_def by blast
      then show ?thesis using g by simp
    qed
    have each: "?ts[p := Empty] ! q = Entry (hash k') k' w \<longleftrightarrow> k' \<noteq> k \<and> ?ts ! q = Entry (hash k') k' w"
      if "q < length ?ts" for q
    proof (cases "q = p")
      case True
      then show ?thesis using p by auto
    next
      case False
      then show ?thesis using only [OF that] that by auto
    qed
    then have "(\<exists>q < length ?ts. ?ts[p := Empty] ! q = Entry (hash k') k' w) \<longleftrightarrow>
        k' \<noteq> k \<and> (\<exists>q < length ?ts. ?ts ! q = Entry (hash k') k' w)"
      by blast
    then show "hl_get hash ?t k' = Some w \<longleftrightarrow> (if k' = k then None else hl_get hash t k') = Some w"
      using hl_get_iff [of hash ?t k' w] hl_get_iff [OF so, of k' w] e unfolding st by auto
  qed
  then show ?thesis using r ok' by blast
qed

section \<open>Buckets\<close>

definition at_bucket :: "('k \<Rightarrow> int) \<Rightarrow> ('b \<Rightarrow> 'k \<Rightarrow> 'v option) \<Rightarrow> 'b list \<Rightarrow> 'k \<Rightarrow> 'v option" where
  "at_bucket hash1 get ht k = get (ht ! (nat (hash1 k) mod length ht)) k"

text \<open>What the table of lists relies on: adding a key that is not there makes it found and changes no other, adding one
  that is there changes nothing.\<close>

locale bucket =
  fixes get :: "'b \<Rightarrow> 'k \<Rightarrow> 'v option" and add :: "'k \<Rightarrow> 'v \<Rightarrow> 'b \<Rightarrow> (bool \<times> 'b) option"
    and ok :: "'b \<Rightarrow> bool" and room :: "'b \<Rightarrow> bool"
  assumes add: "\<lbrakk>ok b; room b\<rbrakk> \<Longrightarrow> \<exists>b'. add k v b = Some (get b k = None, b') \<and> ok b' \<and>
      (\<forall>k'. get b' k' = (if k' = k \<and> get b k = None then Some v else get b k'))"
begin

lemma table_add:
  assumes "ht \<noteq> []" "\<forall>k. 0 \<le> hash1 k" "\<forall>b \<in> set ht. ok b \<and> room b"
  shows "\<exists>ht'. on_bucket (hash1 k) (add k v) ht = Some (at_bucket hash1 get ht k = None, ht') \<and>
    (\<forall>b \<in> set ht'. ok b) \<and> length ht' = length ht \<and>
    (\<forall>k'. at_bucket hash1 get ht' k' = (if k' = k \<and> at_bucket hash1 get ht k = None then Some v else at_bucket hash1 get ht k'))"
proof -
  let ?i = "nat (hash1 k) mod length ht"
  have i: "?i < length ht" using assms(1) by simp
  have "ok (ht ! ?i)" "room (ht ! ?i)" using assms(3) i by simp_all
  then obtain b where b: "add k v (ht ! ?i) = Some (get (ht ! ?i) k = None, b)" "ok b"
    "\<forall>k'. get b k' = (if k' = k \<and> get (ht ! ?i) k = None then Some v else get (ht ! ?i) k')"
    using add [of "ht ! ?i" k v] by blast
  have "on_bucket (hash1 k) (add k v) ht = Some (at_bucket hash1 get ht k = None, ht[?i := b])"
    using assms(1,2) b(1) by (simp add: on_bucket_def home_ok at_bucket_def)
  moreover have "ok c" if "c \<in> set (ht[?i := b])" for c
    using subsetD [OF set_update_subset_insert that] assms(3) b(2) by auto
  moreover have "at_bucket hash1 get (ht[?i := b]) k' =
      (if k' = k \<and> at_bucket hash1 get ht k = None then Some v else at_bucket hash1 get ht k')" for k'
    using b(3) i by (cases "nat (hash1 k') mod length ht = ?i") (auto simp: at_bucket_def)
  ultimately show ?thesis by (intro exI [of _ "ht[?i := b]"]) simp
qed

end

interpretation hl: bucket "hl_get hash" "hl_insert False hash" "hl_ok hash"
    "\<lambda>t. length (hl_slots t) < 2147483647" for hash
  by unfold_locales (rule hl_insert_ok)

section \<open>Where the code goes wrong\<close>

text \<open>Removing or taking from a list into which nothing was ever inserted divides by zero.\<close>

lemma remove_from_new_list: "hl_remove u hash k hash_list_new = None"
  by (simp add: hl_remove_def hl_lock_def hash_list_new_def home_def)

text \<open>\<^verbatim>\<open>checkupSpace\<close> locks the mutex and calls \<^verbatim>\<open>insertInternal\<close>, which locks it again: with the mutex a list that
  holds an entry never grows.\<close>

lemma growing_deadlocks:
  assumes "Entry h k v # es = hl_slots t" "\<not> hl_locked t"
    "hl_count t + hl_count t div 4 \<ge> int (length (hl_slots t))"
  shows "checkup_space True t = None"
proof -
  have "reinsert True (Entry h k v # es) (t\<lparr>hl_locked := True, hl_slots := ss, hl_count := 0\<rparr>) = None" for ss
    by (simp add: insert_internal_def hl_lock_def)
  then show ?thesis using assms(2,3) assms(1) [symmetric] by (simp add: checkup_space_def hl_lock_def)
qed

text \<open>Behind a corpse nothing is found: of two keys with the same home, removing the first hides the second.\<close>

definition two_keys :: "(nat, nat) hash_list" where
  "two_keys =
     \<lparr>hl_slots = Entry 0 0 100 # Entry 17 17 200 # replicate 15 Empty, hl_count = 2, hl_locked = False\<rparr>"

lemma corpse_hides:
  "map_option fst (hl_take False int 17 False two_keys) = Some (Some 200)"
  "map_option fst (Option.bind (hl_remove False int 0 two_keys) (\<lambda>r. hl_take False int 17 False (snd r))) = Some None"
  by code_simp+

text \<open>\<^verbatim>\<open>take\<close> with removal counts the entry twice.\<close>

lemma take_counts_twice: "map_option (\<lambda>r. hl_count (snd r)) (hl_take False int 17 True two_keys) = Some 0"
  by code_simp

section \<open>Properties\<close>

text \<open>C16: \<^verbatim>\<open>insert\<close> of a table without mutexes, whose hash values are not negative and whose lists are in order, succeeds
  exactly if the key is not there; then the key is found with its value, and what is found for every other key
  is unchanged, also when the list had to grow and all its entries were moved.\<close>

theorem hash_table_insert:
  assumes "ht \<noteq> []" "\<forall>k. 0 \<le> hash1 k" "\<forall>t \<in> set ht. hl_ok hash2 t \<and> length (hl_slots t) < 2147483647"
  shows "\<exists>ht'. ht_insert False hash1 hash2 k v ht = Some (at_bucket hash1 (hl_get hash2) ht k = None, ht') \<and>
    (\<forall>t \<in> set ht'. hl_ok hash2 t) \<and> length ht' = length ht \<and>
    (\<forall>k'. at_bucket hash1 (hl_get hash2) ht' k' =
       (if k' = k \<and> at_bucket hash1 (hl_get hash2) ht k = None then Some v else at_bucket hash1 (hl_get hash2) ht k'))"
  unfolding ht_insert_def by (rule hl.table_add [OF assms])

lemma hash_table_insert_witness:
  "\<exists>ht'. ht_insert False int int 5 (7 :: nat) (hash_table_new 3) =
      Some (at_bucket int (hl_get int) (hash_table_new 3 :: (nat, nat) hash_table) 5 = None, ht') \<and>
    (\<forall>t \<in> set ht'. hl_ok int t) \<and> length ht' = length (hash_table_new 3 :: (nat, nat) hash_table) \<and>
    (\<forall>k'. at_bucket int (hl_get int) ht' k' =
       (if k' = 5 \<and> at_bucket int (hl_get int) (hash_table_new 3 :: (nat, nat) hash_table) 5 = None then Some 7
        else at_bucket int (hl_get int) (hash_table_new 3) k'))"
  by (rule hash_table_insert)
    (simp_all add: hash_table_new_def hash_list_new_def hl_ok_def slots_ok_def used_def)

text \<open>\<^verbatim>\<open>remove\<close> of a key whose entry is followed by an empty slot, in a list in order, leaves the list in order, with
  the key gone and every other key found as before; with or without the mutex.\<close>

theorem hash_list_remove:
  assumes "hl_ok hash t" "search hash k (hl_slots t) = Some p"
    "hl_slots t ! ((p + 1) mod length (hl_slots t)) = Empty"
  shows "\<exists>t'. hl_remove u hash k t = Some (True, t') \<and> hl_ok hash t' \<and>
    (\<forall>k'. hl_get hash t' k' = (if k' = k then None else hl_get hash t k'))"
  using hl_remove_ok [OF assms] .

definition one_key :: "(nat, nat) hash_list" where
  "one_key = \<lparr>hl_slots = [Entry 0 0 100, Empty], hl_count = 1, hl_locked = False\<rparr>"

lemma hash_list_remove_witness:
  "\<exists>t'. hl_remove True int 0 one_key = Some (True, t') \<and> hl_ok int t' \<and>
    (\<forall>k'. hl_get int t' k' = (if k' = 0 then None else hl_get int one_key k'))"
proof (rule hash_list_remove)
  have "used (hl_slots one_key) = {0}" by (auto simp: used_def one_key_def less_Suc_eq numeral_2_eq_2)
  then show "hl_ok int one_key"
    by (auto simp: hl_ok_def slots_ok_def one_key_def less_Suc_eq numeral_2_eq_2 search_def home_def)
  show "search int 0 (hl_slots one_key) = Some 0" by (simp add: one_key_def search_def home_def)
  show "hl_slots one_key ! ((0 + 1) mod length (hl_slots one_key)) = Empty" by (simp add: one_key_def)
qed

end
