(* ===== verification/GameMap.thy ===== *)
theory GameMap
  imports ByteStream MsgIds
begin

text \<open>
  The cities of the game, \<^verbatim>\<open>GObject/Map.h\<close>, \<^verbatim>\<open>GObject/Map.cpp\<close> and \<^verbatim>\<open>GObject/MapObject.h\<close>: the objects of a
  map, its spots, the players on it, and the packets that tell them of each other.

  A \<^verbatim>\<open>Player\<close> and a battle of countries are not in the repository.  A player is an address, and what the code
  reads of him is in \<open>map_env\<close>; what is sent and which battle is told is appended to \<open>gm_calls\<close> in the order of the
  code.  A set of players is the list of their addresses in order.  \<^verbatim>\<open>Broadcast(Stream&, Player*)\<close> is declared but
  not defined, so it is a call too.  \<open>None\<close> is undefined behaviour.
\<close>

unbundle bit_operations_syntax

section \<open>Data\<close>

record mo_data =
  mo_id :: u32
  mo_name :: "u8 list"
  mo_spot :: u16
  mo_type :: u8
  mo_action :: u32
  mo_hide :: bool

record spot_data =
  sp_id :: u16
  sp_name :: "u8 list"
  sp_type :: u8
  sp_battle :: u8
  sp_x :: u32
  sp_y :: u32
  sp_players :: "nat list"
  sp_has_battles :: bool

definition new_spot :: spot_data where
  "new_spot = \<lparr>sp_id = 0, sp_name = [], sp_type = 0, sp_battle = 0, sp_x = 0, sp_y = 0, sp_players = [],
     sp_has_battles = False\<rparr>"

datatype map_call =
    MapSend nat "u8 list"
  | MapBroadcast u8 "u8 list" "nat option"
  | LeaveCountryBattle u16 nat
  | LeaveNewCountryBattle u16 nat
  | CountryBattleInfo u16 nat

record game_map =
  gm_id :: u8
  gm_name :: "u8 list"
  gm_objects :: "(u32 \<times> mo_data) list"
  gm_spots :: "(u16 \<times> spot_data) list"
  gm_players :: "nat \<Rightarrow> nat \<Rightarrow> nat list"
  gm_calls :: "map_call list"

definition new_map :: "u8 \<Rightarrow> u8 list \<Rightarrow> game_map" where
  "new_map i name = \<lparr>gm_id = i, gm_name = name, gm_objects = [], gm_spots = [], gm_players = (\<lambda>_ _. []), gm_calls = []\<rparr>"

text \<open>\<open>me_card\<close> is what the code writes of a player after his name; \<open>me_city\<close> tells whether the city battle is open,
  if there is one.\<close>

record map_env =
  me_thread :: "nat \<Rightarrow> u8"
  me_level :: "nat \<Rightarrow> u16"
  me_location :: "nat \<Rightarrow> u16"
  me_map :: "nat \<Rightarrow> u8 option"
  me_online :: "nat \<Rightarrow> bool"
  me_country :: "nat \<Rightarrow> u8"
  me_name :: "nat \<Rightarrow> u8 list"
  me_card :: "nat \<Rightarrow> u8 list"
  me_fighter :: "nat \<Rightarrow> u32 \<Rightarrow> bool"
  me_city :: "bool option"
  me_wday :: u8

definition map_note :: "map_call list \<Rightarrow> game_map \<Rightarrow> game_map" where
  "map_note cs m = m\<lparr>gm_calls := gm_calls m @ cs\<rparr>"

definition map_packet :: "string \<Rightarrow> (stream \<Rightarrow> stream) \<Rightarrow> u8 list" where
  "map_packet cmd body =
     st_buf (stream_eos (body (stream_init (of_int (id_of rep_ids cmd)) 0xFF stream_empty)))"

definition is_new_country_battle :: "map_env \<Rightarrow> bool" where
  "is_new_country_battle env \<longleftrightarrow> me_wday env mod 2 = 0"

section \<open>Objects\<close>

text \<open>The loop of \<^verbatim>\<open>AddObject\<close> over the numbers of a family; the number it stops at is left in the argument.\<close>

fun seek_free :: "nat \<Rightarrow> (u32 \<times> mo_data) list \<Rightarrow> u32 \<Rightarrow> u32 \<times> bool" where
  "seek_free 0 objs i = (i, False)"
| "seek_free (Suc n) objs i = (if map_of objs i \<noteq> None then seek_free n objs (i + 1) else (i, True))"

text \<open>\<open>mem\<close> tells whether there is memory for the object.\<close>

definition add_object :: "bool \<Rightarrow> mo_data \<Rightarrow> game_map \<Rightarrow> bool \<times> mo_data \<times> game_map" where
  "add_object mem mo m =
     (let (i, free) = (if mo_id mo = 4257 then seek_free 20 (gm_objects m) (mo_id mo)
                       else if mo_id mo = 4247 then seek_free 10 (gm_objects m) (mo_id mo)
                       else (mo_id mo, map_of (gm_objects m) (mo_id mo) = None));
          mo' = mo\<lparr>mo_id := i\<rparr>
      in if \<not> free then (False, mo', m)
         else if \<not> mem then (False, mo', m)
         else (True, mo', m\<lparr>gm_objects := omap_put i mo' (gm_objects m)\<rparr>))"

text \<open>The loop of \<^verbatim>\<open>DelObject\<close>: the number at which it stops.\<close>

fun seek_at_spot :: "nat \<Rightarrow> (u32 \<times> mo_data) list \<Rightarrow> u16 \<Rightarrow> u32 \<Rightarrow> u32" where
  "seek_at_spot 0 objs spot i = i"
| "seek_at_spot (Suc n) objs spot i =
     (case map_of objs i of
        None \<Rightarrow> seek_at_spot n objs spot (i + 1)
      | Some mo \<Rightarrow> if mo_spot mo \<noteq> spot then seek_at_spot n objs spot (i + 1) else i)"

definition del_object :: "u32 \<Rightarrow> u16 \<Rightarrow> game_map \<Rightarrow> u32 \<times> game_map" where
  "del_object i spot m =
     (let i1 = (if i = 4257 then seek_at_spot 20 (gm_objects m) spot i else i);
          i2 = (if i1 = 4247 then seek_at_spot 10 (gm_objects m) spot i1 else i1)
      in (i2, m\<lparr>gm_objects := omap_del i2 (gm_objects m)\<rparr>))"

definition del_objects :: "game_map \<Rightarrow> game_map" where
  "del_objects m = m\<lparr>gm_objects := []\<rparr>"

definition get_object :: "game_map \<Rightarrow> u32 \<Rightarrow> mo_data option" where
  "get_object m i = map_of (gm_objects m) i"

section \<open>Spots\<close>

definition get_spot :: "game_map \<Rightarrow> u16 \<Rightarrow> spot_data option" where
  "get_spot m s = map_of (gm_spots m) s"

definition put_spot :: "u16 \<Rightarrow> spot_data \<Rightarrow> game_map \<Rightarrow> game_map" where
  "put_spot s d m = m\<lparr>gm_spots := omap_put s d (gm_spots m)\<rparr>"

definition map_all_spot :: "game_map \<Rightarrow> u16 list \<Rightarrow> u16 list" where
  "map_all_spot m spots = spots @ map sp_id (filter (\<lambda>d. sp_type d = 9) (map snd (gm_spots m)))"

text \<open>The global \<^verbatim>\<open>mapList\<close> holds null pointers where there is no map.\<close>

type_synonym map_list = "game_map option list"

definition get_all_spot :: "map_list \<Rightarrow> u16 list" where
  "get_all_spot ms = fold (\<lambda>m spots. case m of None \<Rightarrow> spots | Some m \<Rightarrow> map_all_spot m spots) ms []"

definition from_spot :: "map_list \<Rightarrow> u16 \<Rightarrow> game_map option option" where
  "from_spot ms s = nth_opt ms (unat (drop_bit 8 s))"

definition from_id :: "map_list \<Rightarrow> u8 \<Rightarrow> game_map option option" where
  "from_id ms i = nth_opt ms (unat i)"

definition spot_of :: "map_list \<Rightarrow> u16 \<Rightarrow> spot_data option option" where
  "spot_of ms s =
     do { r \<leftarrow> from_spot ms s; Some (case r of None \<Rightarrow> None | Some m \<Rightarrow> get_spot m s) }"

text \<open>\<^verbatim>\<open>AddSpot\<close>: the maps, the spot whose battles become the global ones, if any, and the spot of the city battle,
  if any.\<close>

definition add_spot ::
  "u16 \<Rightarrow> u8 list \<Rightarrow> u8 \<Rightarrow> u8 \<Rightarrow> u32 \<Rightarrow> u32 \<Rightarrow> map_list \<times> u16 option \<times> u16 option \<Rightarrow>
   (map_list \<times> u16 option \<times> u16 option) option" where
  "add_spot i name ty battle x y w =
     (case w of (ms, glob, city) \<Rightarrow>
       do { r \<leftarrow> from_spot ms i;
            case r of
              None \<Rightarrow> Some (ms, glob, city)
            | Some m \<Rightarrow>
                let old = (case get_spot m i of None \<Rightarrow> new_spot | Some d \<Rightarrow> d);
                    d = old\<lparr>sp_id := i, sp_name := name, sp_type := ty, sp_battle := battle, sp_x := x, sp_y := y,
                            sp_has_battles := (if battle \<noteq> 0 then True else sp_has_battles old)\<rparr>
                in Some (ms[unat (drop_bit 8 i) := Some (put_spot i d m)],
                         (if battle \<noteq> 0 then Some i else glob),
                         (if ty = 13 \<and> city = None then Some i else city)) })"

text \<open>\<open>rnd\<close> is the number the generator of random numbers gives next.\<close>

definition random_below :: "u32 \<Rightarrow> u32 \<Rightarrow> u32" where
  "random_below rnd n = (if n = 0 then 0 else rnd mod n)"

fun nth_of_type :: "u8 \<Rightarrow> (u16 \<times> spot_data) list \<Rightarrow> u16 \<Rightarrow> u16 \<Rightarrow> u16" where
  "nth_of_type ty [] index k = 0"
| "nth_of_type ty ((s, d) # ss) index k =
     (if sp_type d = ty then (if k = index then s else nth_of_type ty ss index (k + 1))
      else nth_of_type ty ss index k)"

definition get_random_spot :: "u32 \<Rightarrow> game_map \<Rightarrow> u8 \<Rightarrow> u16" where
  "get_random_spot rnd m ty =
     (let k = (of_nat (length (filter (\<lambda>e. sp_type (snd e) = ty) (gm_spots m))) :: u16)
      in nth_of_type ty (gm_spots m) (ucast (random_below rnd (ucast k))) 0)"

section \<open>Players come and go\<close>

definition get_index_by_pk :: "nat \<Rightarrow> nat" where
  "get_index_by_pk pl = 1"

text \<open>A player goes behind those whose level is not below his.\<close>

definition insert_by_level :: "(nat \<Rightarrow> u16) \<Rightarrow> nat \<Rightarrow> nat list \<Rightarrow> nat list" where
  "insert_by_level lev p ps =
     takeWhile (\<lambda>q. lev q \<ge> lev p) ps @ p # dropWhile (\<lambda>q. lev q \<ge> lev p) ps"

definition put_players :: "nat \<Rightarrow> nat \<Rightarrow> nat list \<Rightarrow> game_map \<Rightarrow> game_map" where
  "put_players c s ps m = m\<lparr>gm_players := (gm_players m)(c := (gm_players m c)(s := ps))\<rparr>"

definition find_in_map :: "game_map \<Rightarrow> nat \<Rightarrow> nat \<Rightarrow> nat \<Rightarrow> nat option" where
  "find_in_map m c s pl = find (\<lambda>q. q = pl) (gm_players m c s)"

definition notify_player_enter :: "map_env \<Rightarrow> nat \<Rightarrow> game_map \<Rightarrow> game_map" where
  "notify_player_enter env pl m =
     (if me_map env pl \<noteq> Some (gm_id m) then m
      else map_note [MapBroadcast (gm_id m) (map_packet ''MAP_POINT_JOIN''
             (\<lambda>st. stream_put (me_card env pl) (stream_put_string (me_name env pl) (stream_put [0] st)))) (Some pl)] m)"

definition notify_player_leave :: "map_env \<Rightarrow> nat \<Rightarrow> game_map \<Rightarrow> game_map" where
  "notify_player_leave env pl m =
     (if me_map env pl \<noteq> Some (gm_id m) then m
      else map_note [MapBroadcast (gm_id m) (map_packet ''MAP_POINT_JOIN''
             (\<lambda>st. stream_put_string (me_name env pl) (stream_put [1] st))) (Some pl)] m)"

text \<open>The array of lists of players has three rows, \<^verbatim>\<open>COUNTRY_MAX\<close>.\<close>

definition player_enter :: "map_env \<Rightarrow> bool \<Rightarrow> nat \<Rightarrow> game_map \<Rightarrow> game_map option" where
  "player_enter env notify pl m =
     do { m1 \<leftarrow> (if \<not> notify then Some m
                else let m0 = notify_player_enter env pl m; c = unat (me_thread env pl); s = get_index_by_pk pl
                     in if c \<ge> 3 then None
                        else Some (if find_in_map m0 c s pl = None
                                   then put_players c s (insert_by_level (me_level env) pl (gm_players m0 c s)) m0
                                   else m0));
          Some (case get_spot m1 (me_location env pl) of
                  None \<Rightarrow> m1
                | Some d \<Rightarrow> put_spot (me_location env pl)
                    (d\<lparr>sp_players := (if pl \<in> set (sp_players d) then sp_players d else insort pl (sp_players d))\<rparr>) m1) }"

text \<open>The battle of the spot hears of the player who leaves; \<^verbatim>\<open>gClanCity\<close> is dereferenced without a test.\<close>

definition leave_battle :: "map_env \<Rightarrow> bool \<Rightarrow> nat \<Rightarrow> spot_data \<Rightarrow> game_map \<Rightarrow> game_map option" where
  "leave_battle env onlogout pl d m =
     (if onlogout \<or> sp_battle d = 0 then Some m
      else case me_city env of
          None \<Rightarrow> None
        | Some True \<Rightarrow> Some m
        | Some False \<Rightarrow>
            Some (if \<not> sp_has_battles d then m
                  else map_note [if is_new_country_battle env then LeaveNewCountryBattle (sp_id d) pl
                                 else LeaveCountryBattle (sp_id d) pl] m))"

definition player_leave :: "map_env \<Rightarrow> bool \<Rightarrow> bool \<Rightarrow> nat \<Rightarrow> game_map \<Rightarrow> game_map option" where
  "player_leave env onlogout notify pl m =
     do { m1 \<leftarrow> (if \<not> notify then Some m
                else let m0 = notify_player_leave env pl m; c = unat (me_thread env pl); s = get_index_by_pk pl
                     in if c \<ge> 3 then None
                        else Some (put_players c s (remove_first (\<lambda>q. q = pl) (gm_players m0 c s)) m0));
          case get_spot m1 (me_location env pl) of
            None \<Rightarrow> Some m1
          | Some d \<Rightarrow>
              do { m2 \<leftarrow> leave_battle env onlogout pl d m1;
                   Some (put_spot (me_location env pl) (d\<lparr>sp_players := remove_first (\<lambda>q. q = pl) (sp_players d)\<rparr>) m2) } }"

definition get_city_player_num :: "game_map \<Rightarrow> u32" where
  "get_city_player_num m =
     of_nat (sum_list (map (\<lambda>c. sum_list (map (\<lambda>s. length (gm_players m c s)) [0 ..< 2])) [0 ..< 3]))"

section \<open>Packets\<close>

text \<open>What \<^verbatim>\<open>SendCityNPCs\<close> writes of an object, and how many it counts in one byte.\<close>

definition npc_shown :: "map_env \<Rightarrow> nat \<Rightarrow> mo_data \<Rightarrow> bool" where
  "npc_shown env pl mo \<longleftrightarrow> \<not> mo_hide mo \<and> \<not> (mo_id mo \<le> 800 \<and> me_fighter env pl (mo_id mo))"

definition npc_bytes :: "mo_data \<Rightarrow> u8 list" where
  "npc_bytes mo = word_bytes 4 (mo_id mo) @ word_bytes 2 (mo_spot mo) @ [mo_type mo] @ [0]"

definition send_city_npcs :: "map_env \<Rightarrow> nat \<Rightarrow> game_map \<Rightarrow> game_map" where
  "send_city_npcs env pl m =
     (let shown = filter (npc_shown env pl) (map snd (gm_objects m))
      in map_note [MapSend pl (map_packet ''MAP_TRANSPORT''
           (\<lambda>st. stream_set_data 5 [of_nat (length shown)]
                   (fold (\<lambda>mo. stream_put (npc_bytes mo)) shown (stream_put [0] (stream_put [gm_id m] st)))))] m)"

text \<open>Two packets are laid out by hand.  The last member of the first is never written: \<open>stray\<close> is what it holds.\<close>

definition send_on_spot :: "u16 \<Rightarrow> nat \<Rightarrow> game_map \<Rightarrow> game_map" where
  "send_on_spot stray pl m =
     (let op = push_bit 8 (of_int (id_of rep_ids ''CITY_INSIDE_MOVE'')) OR 0xFF
      in map_note [MapSend pl (word_bytes 2 (2 :: u16) @ word_bytes 2 (op :: u16) @ word_bytes 2 stray)] m)"

definition send_on_map :: "nat \<Rightarrow> game_map \<Rightarrow> game_map" where
  "send_on_map pl m =
     (let op = push_bit 8 (of_int (id_of rep_ids ''CITY_INSIDE_MOVE'')) OR 0xFF
      in map_note [MapSend pl (word_bytes 2 (1 :: u16) @ word_bytes 2 (op :: u16) @ [gm_id m])] m)"

text \<open>The sample of the players of a city: at most as many as fit while the count does not exceed \<^verbatim>\<open>MAX_NUM\<close>.\<close>

fun sample_users :: "map_env \<Rightarrow> nat \<Rightarrow> nat list \<Rightarrow> u8 \<Rightarrow> stream \<Rightarrow> u8 \<times> stream" where
  "sample_users env pl [] c st = (c, st)"
| "sample_users env pl (q # qs) c st =
     (if c > 20 then (c, st)
      else if q \<noteq> pl \<and> me_online env q
      then sample_users env pl qs (c + 1) (stream_put (me_card env q) (stream_put_string (me_name env q) st))
      else sample_users env pl qs c st)"

text \<open>The order in which the countries are looked through.\<close>

definition country_order :: "u8 \<Rightarrow> nat list" where
  "country_order k = (if k = 1 then [0, 1, 2] else if k = 0 then [1, 0, 2] else [2, 1, 0])"

definition city_players :: "map_env \<Rightarrow> nat \<Rightarrow> game_map \<Rightarrow> nat list" where
  "city_players env pl m =
     concat (map (\<lambda>i. concat (map (\<lambda>j. gm_players m i j) [0, 1])) (country_order (me_country env pl)))"

definition send_at_city :: "map_env \<Rightarrow> u16 \<Rightarrow> bool \<Rightarrow> bool \<Rightarrow> nat \<Rightarrow> game_map \<Rightarrow> game_map" where
  "send_at_city env stray inCity notify pl m =
     (let m1 = (if inCity then send_on_spot stray pl m else send_on_map pl m);
          m2 = (if \<not> notify then m1
                else map_note [MapSend pl (map_packet ''MAP_SAMPLEUSER''
                   (\<lambda>st. let (c, st') = sample_users env pl (city_players env pl m1) 0 (stream_put [0] st)
                         in stream_set_data 4 [c] st'))] m1)
      in case get_spot m2 (me_location env pl) of
           None \<Rightarrow> m2
         | Some d \<Rightarrow>
             if sp_battle d \<noteq> 0 \<and> is_new_country_battle env \<and> me_city env \<noteq> Some True \<and> sp_has_battles d
             then map_note [CountryBattleInfo (sp_id d) pl] m2 else m2)"

section \<open>Broadcasts\<close>

definition send_others :: "u8 list \<Rightarrow> nat option \<Rightarrow> nat list \<Rightarrow> game_map \<Rightarrow> game_map" where
  "send_others bs but ps m = map_note (map (\<lambda>p. MapSend p bs) (filter (\<lambda>p. but \<noteq> Some p) ps)) m"

definition broadcast_spot :: "spot_data option \<Rightarrow> u8 list \<Rightarrow> nat option \<Rightarrow> game_map \<Rightarrow> game_map" where
  "broadcast_spot d bs but m = (case d of None \<Rightarrow> m | Some d \<Rightarrow> send_others bs but (sp_players d) m)"

definition broadcast_country :: "nat \<Rightarrow> u8 list \<Rightarrow> nat option \<Rightarrow> game_map \<Rightarrow> game_map option" where
  "broadcast_country cny bs but m =
     (if cny \<ge> 3 then None else Some (send_others bs but (gm_players m cny 0 @ gm_players m cny 1) m))"

section \<open>Showing and hiding\<close>

definition transport_update :: "u8 \<Rightarrow> u32 \<Rightarrow> u8 \<Rightarrow> mo_data \<Rightarrow> u8 list" where
  "transport_update k i ty mo =
     map_packet ''MAP_TRANSPORT_UPDATE''
       (\<lambda>st. stream_put ([k] @ word_bytes 4 i @ word_bytes 2 (mo_spot mo) @ [ty] @ word_bytes 4 (mo_action mo)) st)"

text \<open>\<open>cny\<close> is the country of the map, from the table of maps.\<close>

definition hide_object :: "nat \<Rightarrow> u32 \<Rightarrow> bool \<Rightarrow> game_map \<Rightarrow> game_map option" where
  "hide_object cny i notify m =
     (case get_object m i of
        None \<Rightarrow> Some m
      | Some mo \<Rightarrow>
          let m1 = m\<lparr>gm_objects := omap_put i (mo\<lparr>mo_hide := True\<rparr>) (gm_objects m)\<rparr>
          in if notify then Some m1 else broadcast_country cny (transport_update 1 i (mo_type mo) mo) None m1)"

definition send_hide :: "u32 \<Rightarrow> nat \<Rightarrow> game_map \<Rightarrow> game_map" where
  "send_hide i pl m =
     (case get_object m i of
        None \<Rightarrow> m
      | Some mo \<Rightarrow> map_note [MapSend pl (transport_update 1 i (mo_type mo) mo)] m)"

definition show_object :: "nat \<Rightarrow> u32 \<Rightarrow> bool \<Rightarrow> u8 \<Rightarrow> game_map \<Rightarrow> game_map option" where
  "show_object cny i notify ty m =
     (case get_object m i of
        None \<Rightarrow> Some m
      | Some mo \<Rightarrow>
          let m1 = m\<lparr>gm_objects := omap_put i (mo\<lparr>mo_hide := False\<rparr>) (gm_objects m)\<rparr>
          in if \<not> notify then Some m1
             else broadcast_country cny (transport_update 2 i (if ty \<noteq> 0 then mo_type mo else ty) mo) None m1)"

text \<open>\<^verbatim>\<open>VisitPlayers\<close> stops at the first player at whom the visitor returns false.\<close>

fun visit_all :: "('s \<Rightarrow> nat \<Rightarrow> bool \<times> 's) \<Rightarrow> nat list \<Rightarrow> 's \<Rightarrow> 's" where
  "visit_all f [] s = s"
| "visit_all f (p # ps) s = (case f s p of (True, s') \<Rightarrow> visit_all f ps s' | (False, s') \<Rightarrow> s')"

definition visit_players :: "('s \<Rightarrow> nat \<Rightarrow> bool \<times> 's) \<Rightarrow> game_map \<Rightarrow> u16 \<Rightarrow> 's \<Rightarrow> 's" where
  "visit_players f m loc s = (case get_spot m loc of None \<Rightarrow> s | Some d \<Rightarrow> visit_all f (sp_players d) s)"

section \<open>Numbers of a family\<close>

lemma seek_free_spec:
  "seek_free n objs i =
     (case find (\<lambda>k. map_of objs (i + of_nat k) = None) [0 ..< n] of
        None \<Rightarrow> (i + of_nat n, False) | Some k \<Rightarrow> (i + of_nat k, True))"
proof (induction n arbitrary: i)
  case (Suc n)
  have u: "[0 ..< Suc n] = 0 # map Suc [0 ..< n]" by (simp add: upt_conv_Cons map_Suc_upt)
  have "find (\<lambda>k. map_of objs (i + of_nat k) = None) (map Suc [0 ..< n]) =
      map_option Suc (find (\<lambda>k. map_of objs (i + 1 + of_nat k) = None) [0 ..< n])"
    by (simp add: find_map comp_def algebra_simps)
  then show ?case unfolding u using Suc [of "i + 1"] by (auto split: option.splits simp: algebra_simps)
qed simp

lemma seek_at_spot_spec:
  "seek_at_spot n objs spot i =
     (case find (\<lambda>k. map_option mo_spot (map_of objs (i + of_nat k)) = Some spot) [0 ..< n] of
        None \<Rightarrow> i + of_nat n | Some k \<Rightarrow> i + of_nat k)"
proof (induction n arbitrary: i)
  case (Suc n)
  have u: "[0 ..< Suc n] = 0 # map Suc [0 ..< n]" by (simp add: upt_conv_Cons map_Suc_upt)
  have "find (\<lambda>k. map_option mo_spot (map_of objs (i + of_nat k)) = Some spot) (map Suc [0 ..< n]) =
      map_option Suc (find (\<lambda>k. map_option mo_spot (map_of objs (i + 1 + of_nat k)) = Some spot) [0 ..< n])"
    by (simp add: find_map comp_def algebra_simps)
  then show ?case unfolding u using Suc [of "i + 1"] by (auto split: option.splits simp: algebra_simps)
qed simp

text \<open>How many numbers from the given one on are a family's.\<close>

definition family :: "u32 \<Rightarrow> nat" where
  "family i = (if i = 4257 then 20 else if i = 4247 then 10 else 1)"

lemma add_object_seek:
  "fst (add_object True mo m) = snd (seek_free (family (mo_id mo)) (gm_objects m) (mo_id mo)) \<and>
   (snd (seek_free (family (mo_id mo)) (gm_objects m) (mo_id mo)) \<longrightarrow>
      (let i = fst (seek_free (family (mo_id mo)) (gm_objects m) (mo_id mo))
       in snd (snd (add_object True mo m)) = m\<lparr>gm_objects := omap_put i (mo\<lparr>mo_id := i\<rparr>) (gm_objects m)\<rparr>)) \<and>
   (\<not> snd (seek_free (family (mo_id mo)) (gm_objects m) (mo_id mo)) \<longrightarrow> snd (snd (add_object True mo m)) = m)"
  by (auto simp: add_object_def family_def Let_def split: prod.splits)

section \<open>Lists of players\<close>

lemma set_insert_by_level [simp]: "set (insert_by_level lev p ps) = insert p (set ps)"
  unfolding insert_by_level_def by (metis list.simps(15) set_append Un_insert_right takeWhile_dropWhile_id)

lemma mset_insert_by_level: "mset (insert_by_level lev p ps) = mset (p # ps)"
proof -
  have "mset (takeWhile (\<lambda>q. lev q \<ge> lev p) ps) + mset (dropWhile (\<lambda>q. lev q \<ge> lev p) ps) = mset ps"
    by (simp flip: mset_append)
  then show ?thesis by (simp add: insert_by_level_def)
qed

lemma distinct_insert_by_level: "distinct ps \<Longrightarrow> p \<notin> set ps \<Longrightarrow> distinct (insert_by_level lev p ps)"
  using mset_eq_imp_distinct_iff [OF mset_insert_by_level] by (metis distinct.simps(2))

lemma remove_first_mid: "x \<notin> set xs \<Longrightarrow> remove_first (\<lambda>q. q = x) (xs @ x # ys) = xs @ ys"
  by (induction xs) auto

lemma remove_insert_by_level: "p \<notin> set ps \<Longrightarrow> remove_first (\<lambda>q. q = p) (insert_by_level lev p ps) = ps"
proof -
  assume "p \<notin> set ps"
  then have "p \<notin> set (takeWhile (\<lambda>q. lev q \<ge> lev p) ps)" by (auto dest: set_takeWhileD)
  then show ?thesis by (simp add: insert_by_level_def remove_first_mid)
qed

lemma remove_insort: "p \<notin> set ps \<Longrightarrow> remove_first (\<lambda>q. q = p) (insort p ps) = (ps :: nat list)"
  by (induction ps) auto

lemma distinct_remove_first: "distinct xs \<Longrightarrow> distinct (remove_first P xs)"
  by (induction xs) (auto dest: set_remove_first_subset [THEN subsetD])

lemma set_remove_first: "distinct xs \<Longrightarrow> set (remove_first (\<lambda>q. q = x) xs) = set xs - {x}"
  by (induction xs) auto

lemma map_note_reads [simp]:
  "gm_id (map_note cs m) = gm_id m" "gm_objects (map_note cs m) = gm_objects m" "gm_spots (map_note cs m) = gm_spots m"
  "gm_players (map_note cs m) = gm_players m" "gm_calls (map_note cs m) = gm_calls m @ cs" "get_spot (map_note cs m) = get_spot m"
  by (simp_all add: map_note_def get_spot_def fun_eq_iff)

lemma notify_reads [simp]:
  "gm_players (notify_player_enter env pl m) = gm_players m" "gm_spots (notify_player_enter env pl m) = gm_spots m"
  "gm_players (notify_player_leave env pl m) = gm_players m" "gm_spots (notify_player_leave env pl m) = gm_spots m"
  by (simp_all add: notify_player_enter_def notify_player_leave_def)

lemma put_spot_reads [simp]: "gm_players (put_spot s d m) = gm_players m" "gm_spots (put_players c k ps m) = gm_spots m"
  by (simp_all add: put_spot_def put_players_def)

lemma leave_battle_reads: "leave_battle env b pl d m = Some k \<Longrightarrow> gm_players k = gm_players m \<and> gm_spots k = gm_spots m"
  by (auto simp: leave_battle_def split: if_splits option.splits bool.splits)

lemma find_in_map_iff: "find_in_map m c s pl = None \<longleftrightarrow> pl \<notin> set (gm_players m c s)"
  by (auto simp: find_in_map_def find_None_set)

text \<open>What entering and leaving do to the lists.\<close>

lemma player_enter_lists:
  assumes "player_enter env notify pl m = Some k"
  shows "gm_players k = (if notify \<and> pl \<notin> set (gm_players m (unat (me_thread env pl)) 1)
    then (gm_players m)(unat (me_thread env pl) := (gm_players m (unat (me_thread env pl)))
           (1 := insert_by_level (me_level env) pl (gm_players m (unat (me_thread env pl)) 1)))
    else gm_players m)" "notify \<Longrightarrow> unat (me_thread env pl) < 3"
  using assms find_in_map_iff [of "notify_player_enter env pl m"]
  by (auto simp: player_enter_def get_index_by_pk_def Let_def put_players_def split: if_splits option.splits)

lemma player_leave_lists:
  assumes "player_leave env out notify pl m = Some k"
  shows "gm_players k = (if notify
    then (gm_players m)(unat (me_thread env pl) := (gm_players m (unat (me_thread env pl)))
           (1 := remove_first (\<lambda>q. q = pl) (gm_players m (unat (me_thread env pl)) 1)))
    else gm_players m)"
  using assms
  by (auto simp: player_leave_def get_index_by_pk_def Let_def put_players_def bind_eq_Some_conv dest!: leave_battle_reads
      split: if_splits option.splits)

text \<open>Each player is in at most one list, that of his thread, and there once.\<close>

definition listed_once :: "map_env \<Rightarrow> game_map \<Rightarrow> bool" where
  "listed_once env m \<longleftrightarrow>
     (\<forall>c s. distinct (gm_players m c s) \<and> (\<forall>p \<in> set (gm_players m c s). c = unat (me_thread env p) \<and> s = 1 \<and> c < 3))"

inductive map_step :: "map_env \<Rightarrow> game_map \<Rightarrow> game_map \<Rightarrow> bool" for env where
  enters: "player_enter env notify pl m = Some k \<Longrightarrow> map_step env m k"
| leaves: "player_leave env out notify pl m = Some k \<Longrightarrow> map_step env m k"

inductive_cases map_stepE: "map_step env m k"

lemma map_step_once: "map_step env m k \<Longrightarrow> listed_once env m \<Longrightarrow> listed_once env k"
proof (erule map_stepE)
  fix notify pl assume o: "listed_once env m" and e: "player_enter env notify pl m = Some k"
  show "listed_once env k"
    using o player_enter_lists [OF e] by (auto simp: listed_once_def distinct_insert_by_level split: if_splits)
next
  fix out notify pl assume o: "listed_once env m" and e: "player_leave env out notify pl m = Some k"
  show "listed_once env k"
    using o player_leave_lists [OF e] set_remove_first_subset
    by (fastforce simp: listed_once_def distinct_remove_first split: if_splits)
qed

lemma map_reach_once: "(map_step env)\<^sup>*\<^sup>* m k \<Longrightarrow> listed_once env m \<Longrightarrow> listed_once env k"
  by (induction rule: rtranclp_induct) (auto intro: map_step_once)

section \<open>The sample of players\<close>

lemma sample_users_spec:
  "unat c \<le> 21 \<Longrightarrow> sample_users env pl qs c st =
     (let us = take (21 - unat c) (filter (\<lambda>q. q \<noteq> pl \<and> me_online env q) qs)
      in (c + of_nat (length us), fold (\<lambda>q st. stream_put (me_card env q) (stream_put_string (me_name env q) st)) us st))"
proof (induction qs arbitrary: c st)
  case (Cons q qs)
  show ?case
  proof (cases "c > 20")
    case True
    then have "unat c = 21" using Cons.prems by (simp add: word_less_nat_alt)
    then show ?thesis using True by simp
  next
    case False
    then have "unat c \<le> 20" by (simp add: word_less_nat_alt)
    moreover from this have "unat (c + 1) = Suc (unat c)"
      using unat_of_nat_u8 [of "Suc (unat c)"] by (simp add: add.commute)
    moreover from \<open>unat c \<le> 20\<close> have "21 - unat c = Suc (20 - unat c)" by simp
    ultimately show ?thesis using Cons.IH [of "c + 1"] Cons.IH [of c] Cons.prems False by (simp add: Let_def algebra_simps)
  qed
qed simp

lemma listed_total:
  assumes "listed_once env m"
  shows "sum_list (map (\<lambda>c. sum_list (map (\<lambda>s. length (gm_players m c s)) [0 ..< 2])) [0 ..< 3]) =
    card {p. \<exists>c s. p \<in> set (gm_players m c s)}"
proof -
  have s: "p \<in> set (gm_players m c s) \<Longrightarrow> s = 1 \<and> c < 3" for p c s
    using assms unfolding listed_once_def by blast
  have u: "p \<in> set (gm_players m c s) \<Longrightarrow> c = unat (me_thread env p)" for p c s
    using assms unfolding listed_once_def by blast
  have e: "gm_players m c 0 = []" for c
  proof (rule ccontr)
    assume "gm_players m c 0 \<noteq> []"
    then have "hd (gm_players m c 0) \<in> set (gm_players m c 0)" by simp
    then show False using s by fastforce
  qed
  have n: "set (gm_players m c 1) \<inter> set (gm_players m c' 1) = {}" if "c \<noteq> c'" for c c'
    using u that by (metis disjoint_iff)
  have ds: "distinct (gm_players m c 1)" for c using assms unfolding listed_once_def by blast
  have d: "distinct (gm_players m 0 1 @ gm_players m 1 1 @ gm_players m 2 1)"
    unfolding distinct_append set_append Int_Un_distrib
    by (intro conjI ds) (simp_all only: Un_empty n [of 0 1] n [of 0 2] n [of 1 2] simp_thms one_neq_zero zero_neq_one
        zero_neq_numeral one_eq_numeral_iff num.distinct not_False_eq_True)
  have "{p. \<exists>c s. p \<in> set (gm_players m c s)} = set (gm_players m 0 1 @ gm_players m 1 1 @ gm_players m 2 1)"
  proof (intro set_eqI iffI)
    fix p assume "p \<in> {p. \<exists>c s. p \<in> set (gm_players m c s)}"
    then obtain c k where p: "p \<in> set (gm_players m c k)" by blast
    then have "k = 1" "c = 0 \<or> c = 1 \<or> c = 2" using s [OF p] by auto
    then show "p \<in> set (gm_players m 0 1 @ gm_players m 1 1 @ gm_players m 2 1)" using p by auto
  next
    fix p assume "p \<in> set (gm_players m 0 1 @ gm_players m 1 1 @ gm_players m 2 1)"
    then show "p \<in> {p. \<exists>c s. p \<in> set (gm_players m c s)}" by (simp only: set_append Un_iff mem_Collect_eq) blast
  qed
  then have "card {p. \<exists>c s. p \<in> set (gm_players m c s)} = length (gm_players m 0 1 @ gm_players m 1 1 @ gm_players m 2 1)"
    using distinct_card [OF d] by simp
  then show ?thesis by (simp add: e numeral_2_eq_2 numeral_3_eq_3)
qed

section \<open>A random spot\<close>

lemma nth_of_type_spec:
  assumes "unat i < length (filter (\<lambda>e. sp_type (snd e) = ty) ss) + unat k" "unat k \<le> unat i"
    "length (filter (\<lambda>e. sp_type (snd e) = ty) ss) + unat k < 65536"
  shows "nth_of_type ty ss i k = fst (filter (\<lambda>e. sp_type (snd e) = ty) ss ! (unat i - unat k))"
  using assms
proof (induction ss arbitrary: k)
  case (Cons e ss)
  obtain s d where e: "e = (s, d)" by (cases e)
  show ?case
  proof (cases "sp_type d = ty")
    case True
    show ?thesis
    proof (cases "k = i")
      case False
      then have less: "unat k < unat i" using Cons.prems(2) by (metis le_neq_implies_less word_unat_eq_iff)
      have suc: "unat (k + 1) = Suc (unat k)"
        using Cons.prems(1,3) True e less by (simp add: unat_word_ariths)
      have "nth_of_type ty ss i (k + 1) = fst (filter (\<lambda>e. sp_type (snd e) = ty) ss ! (unat i - unat (k + 1)))"
        by (rule Cons.IH) (use Cons.prems True e less suc in simp_all)
      then show ?thesis using True e False less suc by (simp add: nth_Cons')
    qed (use True e in simp)
  next
    case False
    then show ?thesis using Cons e by simp
  qed
qed simp

lemma word_bytes_2: "word_bytes 2 (v :: u16) = [ucast v, ucast (drop_bit 8 v)]"
proof -
  have "(of_nat (unat v mod 256) :: u8) = ucast v"
    by (simp add: word_unat_eq_iff unsigned_ucast_eq unsigned_of_nat take_bit_eq_mod)
  moreover have "(of_nat (unat v div 256 mod 256) :: u8) = ucast (drop_bit 8 v)"
  proof -
    have "unat (drop_bit 8 v) = unat v div 256" by (simp add: unat_drop_bit_eq drop_bit_eq_div [where 'a = nat])
    then show ?thesis by (simp only: word_unat_eq_iff unsigned_ucast_eq unsigned_of_nat take_bit_eq_mod) simp
  qed
  ultimately show ?thesis by (simp only: word_bytes_def le_bytes_numeral) simp
qed

lemma word_bytes_op: "word_bytes 2 (push_bit 8 (of_int x) OR 0xFF :: u16) = [0xFF, of_int x]"
proof -
  have m: "(0xFF :: u16) = mask 8" "(0xFF :: u8) = mask 8" by (simp_all add: mask_eq_exp_minus_1)
  have "(ucast (push_bit 8 (of_int x) OR mask 8 :: u16) :: u8) = mask 8" by (rule bit_word_eqI) (auto simp: bit_simps)
  moreover have "(ucast (drop_bit 8 (push_bit 8 (of_int x) OR mask 8 :: u16)) :: u8) = of_int x"
    by (rule bit_word_eqI) (auto simp: bit_simps)
  ultimately show ?thesis unfolding word_bytes_2 m by simp
qed

section \<open>Properties\<close>

lemma get_object_put: "get_object (m\<lparr>gm_objects := omap_put i mo (gm_objects m)\<rparr>) j = (if i = j then Some mo else get_object m j)"
  by (simp add: get_object_def omap_put_get)

lemma get_object_del: "get_object (m\<lparr>gm_objects := omap_del i (gm_objects m)\<rparr>) j = (if i = j then None else get_object m j)"
  by (simp add: get_object_def omap_del_get)

text \<open>\<^verbatim>\<open>AddObject\<close> puts the object under the first free number of its family, which for all but two numbers is
  the number itself, and touches no other object; it fails exactly when the family is full.\<close>

theorem add_object_first_free:
  "case find (\<lambda>k. get_object m (mo_id mo + of_nat k) = None) [0 ..< family (mo_id mo)] of
     None \<Rightarrow> fst (add_object True mo m) = False \<and> snd (snd (add_object True mo m)) = m
   | Some k \<Rightarrow> fst (add_object True mo m) \<and>
       (\<forall>j. get_object (snd (snd (add_object True mo m))) j =
          (if j = mo_id mo + of_nat k then Some (mo\<lparr>mo_id := mo_id mo + of_nat k\<rparr>) else get_object m j))"
  using add_object_seek [of mo m]
  by (auto simp: seek_free_spec get_object_def omap_put_get Let_def split: option.splits)

text \<open>\<^verbatim>\<open>DelObject\<close> with the number 4247 removes the first of the ten objects of that family that is at the
  given spot, and when none is there it removes the object 4257, which belongs to the other family, whatever its spot.\<close>

theorem del_object_family:
  "let i = (case find (\<lambda>k. map_option mo_spot (get_object m (4247 + of_nat k)) = Some spot) [0 ..< 10] of
              None \<Rightarrow> 4257 | Some k \<Rightarrow> 4247 + of_nat k)
   in fst (del_object 4247 spot m) = i \<and>
      (\<forall>j. get_object (snd (del_object 4247 spot m)) j = (if j = i then None else get_object m j))"
  by (auto simp: del_object_def Let_def seek_at_spot_spec get_object_def omap_del_get split: option.splits)

text \<open>In every state the comings and goings of players lead to, a player is in the list of his own country only and
  there once, and the number of players in the city is the number of those who are in a list.\<close>

theorem map_lists_once:
  assumes "(map_step env)\<^sup>*\<^sup>* (new_map i name) m"
  shows "(\<forall>c s. distinct (gm_players m c s)) \<and>
    (\<forall>c s p. p \<in> set (gm_players m c s) \<longrightarrow> c = unat (me_thread env p)) \<and>
    get_city_player_num m = of_nat (card {p. \<exists>c s. p \<in> set (gm_players m c s)})"
proof -
  have "listed_once env (new_map i name)" by (simp add: listed_once_def new_map_def)
  then have o: "listed_once env m" by (rule map_reach_once [OF assms])
  then show ?thesis using listed_total [OF o] unfolding listed_once_def get_city_player_num_def by metis
qed

definition calm_env :: map_env where
  "calm_env = \<lparr>me_thread = (\<lambda>_. 0), me_level = of_nat, me_location = (\<lambda>_. 257), me_map = (\<lambda>_. Some 1), me_online = (\<lambda>_. True),
     me_country = (\<lambda>_. 1), me_name = (\<lambda>p. [of_nat p]), me_card = (\<lambda>_. []), me_fighter = (\<lambda>_ _. False), me_city = None,
     me_wday = 1\<rparr>"

theorem map_lists_once_witness:
  "\<exists>m. player_enter calm_env True 7 (new_map 1 []) = Some m \<and> gm_players m 0 1 = [7] \<and> distinct (gm_players m 0 1)"
proof -
  obtain m where m: "player_enter calm_env True 7 (new_map 1 []) = Some m" "gm_players m 0 1 = [7]"
    by (auto simp: player_enter_def calm_env_def new_map_def notify_player_enter_def get_index_by_pk_def Let_def find_in_map_def
        put_players_def insert_by_level_def get_spot_def map_note_def)
  have "(map_step calm_env)\<^sup>*\<^sup>* (new_map 1 []) m" by (intro r_into_rtranclp enters [OF m(1)])
  from map_lists_once [OF this] show ?thesis using m by blast
qed

text \<open>A player who enters a city and leaves it again, without a battle at his spot, leaves the lists of players and
  of the spots as they were.\<close>

theorem enter_leave_round_trip:
  assumes "omap_ok (gm_spots m)" "unat (me_thread env pl) < 3" "pl \<notin> set (gm_players m (unat (me_thread env pl)) 1)"
    "case get_spot m (me_location env pl) of None \<Rightarrow> True | Some d \<Rightarrow> sp_battle d = 0 \<and> pl \<notin> set (sp_players d)"
  shows "\<exists>k h. player_enter env True pl m = Some k \<and> player_leave env out True pl k = Some h \<and>
    gm_players h = gm_players m \<and> gm_spots h = gm_spots m"
proof -
  let ?c = "unat (me_thread env pl)" and ?loc = "me_location env pl"
  let ?e = "notify_player_enter env pl m"
  let ?k1 = "put_players ?c 1 (insert_by_level (me_level env) pl (gm_players m ?c 1)) ?e"
  have find: "find_in_map ?e ?c 1 pl = None" using assms(3) find_in_map_iff [of ?e] by simp
  have spots: "gm_spots ?k1 = gm_spots m" by simp
  have restored: "gm_players (put_players ?c 1 (remove_first (\<lambda>q. q = pl) (gm_players (notify_player_leave env pl k) ?c 1))
      (notify_player_leave env pl k)) = gm_players m"
    if "gm_players k = (gm_players m)(?c := (gm_players m ?c)(1 := insert_by_level (me_level env) pl (gm_players m ?c 1)))" for k
    using that remove_insert_by_level [OF assms(3)] by (simp add: put_players_def fun_upd_idem)
  show ?thesis
  proof (cases "get_spot m ?loc")
    case None
    then have n: "get_spot ?k1 ?loc = None" unfolding get_spot_def spots .
    have "player_enter env True pl m = Some ?k1" using assms(2) find n by (simp add: player_enter_def get_index_by_pk_def Let_def)
    moreover have "get_spot (put_players ?c 1 ps (notify_player_leave env pl ?k1)) ?loc = None" for ps
      using n by (simp add: get_spot_def)
    ultimately show ?thesis using assms(2) restored [of ?k1] spots
      by (simp add: player_leave_def get_index_by_pk_def Let_def) (simp add: put_players_def)
  next
    case (Some d)
    let ?k = "put_spot ?loc (d\<lparr>sp_players := insort pl (sp_players d)\<rparr>) ?k1"
    have d: "sp_battle d = 0" "pl \<notin> set (sp_players d)" using Some assms(4) by simp_all
    have "get_spot ?k1 ?loc = Some d" using Some unfolding get_spot_def spots .
    then have "player_enter env True pl m = Some ?k"
      using assms(2) find d(2) by (simp add: player_enter_def get_index_by_pk_def Let_def)
    moreover have "gm_players ?k = (gm_players m)(?c := (gm_players m ?c)(1 := insert_by_level (me_level env) pl (gm_players m ?c 1)))"
      by (simp add: put_players_def)
    moreover have "get_spot (put_players ?c 1 ps (notify_player_leave env pl ?k)) ?loc =
        Some (d\<lparr>sp_players := insort pl (sp_players d)\<rparr>)" for ps
      by (simp add: get_spot_def put_spot_def omap_put_get)
    moreover have "omap_put ?loc d (omap_put ?loc e (gm_spots m)) = gm_spots m" for e
      using omap_put_id [OF assms(1)] Some by (simp add: omap_put_put get_spot_def)
    moreover have "d\<lparr>sp_players := remove_first (\<lambda>q. q = pl) (insort pl (sp_players d))\<rparr> = d"
      using remove_insort [OF d(2)] by simp
    ultimately show ?thesis using assms(2) restored [of ?k] d(1)
      by (simp add: player_leave_def get_index_by_pk_def Let_def leave_battle_def) (simp add: put_spot_def put_players_def)
  qed
qed

theorem enter_leave_witness:
  "map_option gm_players (Option.bind (player_enter calm_env True 7 (new_map 1 [])) (player_leave calm_env False True 7)) =
     Some (\<lambda>_ _. [])"
proof -
  obtain k h where "player_enter calm_env True 7 (new_map 1 []) = Some k" "player_leave calm_env False True 7 k = Some h"
    "gm_players h = gm_players (new_map 1 [])"
    using enter_leave_round_trip [of "new_map 1 []" calm_env 7 False]
    by (auto simp: omap_ok_def calm_env_def new_map_def get_spot_def)
  then show ?thesis by (simp add: new_map_def)
qed

text \<open>The sample of players sent to one who enters a city lists the first 21 others that are online, one more than
  \<^verbatim>\<open>MAX_NUM\<close>, and the byte in front of them is their number.\<close>

theorem sample_of_city:
  assumes "get_spot m (me_location env pl) = None"
  shows "let us = take 21 (filter (\<lambda>q. q \<noteq> pl \<and> me_online env q) (city_players env pl m));
             own = (if inCity then gm_calls (send_on_spot stray pl m) else gm_calls (send_on_map pl m))
         in gm_calls (send_at_city env stray inCity True pl m) = own @
              [MapSend pl (map_packet ''MAP_SAMPLEUSER'' (\<lambda>st. stream_set_data 4 [of_nat (length us)]
                 (fold (\<lambda>q st. stream_put (me_card env q) (stream_put_string (me_name env q) st)) us (stream_put [0] st))))]"
proof -
  have s: "get_spot (send_on_spot stray pl m) = get_spot m" "get_spot (send_on_map pl m) = get_spot m"
    by (simp_all add: send_on_spot_def send_on_map_def Let_def)
  have p: "city_players env pl (send_on_spot stray pl m) = city_players env pl m"
    "city_players env pl (send_on_map pl m) = city_players env pl m"
    by (simp_all add: city_players_def send_on_spot_def send_on_map_def Let_def)
  show ?thesis using assms by (simp add: send_at_city_def Let_def s p sample_users_spec)
qed

theorem sample_of_city_witness:
  "\<exists>bs. last (gm_calls (send_at_city calm_env 0 False True 7 ((new_map 1 [])\<lparr>gm_players := (\<lambda>c s. if c = 0 \<and> s = 1 then [5, 7, 9] else [])\<rparr>))) =
     MapSend 7 bs"
proof -
  let ?m = "(new_map 1 [])\<lparr>gm_players := (\<lambda>c s. if c = 0 \<and> s = 1 then [5, 7, 9] else [])\<rparr>"
  have "get_spot ?m (me_location calm_env 7) = None" by (simp add: get_spot_def new_map_def)
  from sample_of_city [OF this, where stray = 0 and inCity = False] show ?thesis by (simp add: Let_def)
qed

text \<open>\<^verbatim>\<open>GetRandomSpot\<close> chooses among the spots of the given type: every random number gives one of them, and
  each of them is given by some random number.\<close>

theorem random_spot_choice:
  assumes "filter (\<lambda>e. sp_type (snd e) = ty) (gm_spots m) \<noteq> []"
    "length (filter (\<lambda>e. sp_type (snd e) = ty) (gm_spots m)) < 65536"
  shows "range (\<lambda>rnd. get_random_spot rnd m ty) = {s. \<exists>d. (s, d) \<in> set (gm_spots m) \<and> sp_type d = ty}"
proof -
  let ?xs = "filter (\<lambda>e. sp_type (snd e) = ty) (gm_spots m)"
  let ?n = "length ?xs"
  have n: "unat (ucast (of_nat ?n :: u16) :: u32) = ?n" "unat (of_nat ?n :: u16) = ?n"
    using assms(2) by (simp_all add: unsigned_ucast_eq take_bit_eq_mod unsigned_of_nat)
  have val: "get_random_spot rnd m ty = fst (?xs ! (unat rnd mod ?n))" for rnd
  proof -
    let ?i = "ucast (random_below rnd (ucast (of_nat ?n :: u16))) :: u16"
    have nz: "(ucast (of_nat ?n :: u16) :: u32) \<noteq> 0" using n(1) assms(1) by (metis length_0_conv unat_0)
    then have "unat (random_below rnd (ucast (of_nat ?n :: u16))) = unat rnd mod ?n"
      by (simp add: random_below_def unat_mod n)
    moreover have "unat rnd mod ?n < 65536" using assms by (meson length_greater_0_conv less_trans mod_less_divisor)
    ultimately have i: "unat ?i = unat rnd mod ?n" by (simp add: unsigned_ucast_eq take_bit_eq_mod)
    moreover have "unat rnd mod ?n < ?n" using assms(1) by simp
    ultimately show ?thesis
      using nth_of_type_spec [of ?i ty "gm_spots m" 0] assms(2) by (simp add: get_random_spot_def Let_def)
  qed
  have "range (\<lambda>rnd :: u32. unat rnd mod ?n) = {0 ..< ?n}"
  proof (intro set_eqI iffI)
    fix k assume "k \<in> {0 ..< ?n}"
    then have "unat (of_nat k :: u32) mod ?n = k" using assms(2) by (simp add: unat_of_nat)
    then show "k \<in> range (\<lambda>rnd :: u32. unat rnd mod ?n)" by (metis rangeI)
  qed (use assms(1) in auto)
  then have "range (\<lambda>rnd. get_random_spot rnd m ty) = (\<lambda>k. fst (?xs ! k)) ` {0 ..< ?n}" unfolding val by (metis (no_types) image_image)
  also have "\<dots> = fst ` ((!) ?xs ` {0 ..< ?n})" by (simp only: image_image)
  also have "(!) ?xs ` {0 ..< ?n} = set ?xs" using arg_cong [OF map_nth [of ?xs], of set] by simp
  finally show ?thesis by (force simp: image_iff)
qed

definition spot_of_type :: "u8 \<Rightarrow> spot_data" where
  "spot_of_type ty = new_spot\<lparr>sp_type := ty\<rparr>"

theorem random_spot_choice_witness:
  "range (\<lambda>rnd. get_random_spot rnd ((new_map 1 [])\<lparr>gm_spots := [(257, spot_of_type 3), (258, spot_of_type 9), (260, spot_of_type 3)]\<rparr>) 3) =
     {257, 260}"
proof -
  let ?m = "(new_map 1 [])\<lparr>gm_spots := [(257, spot_of_type 3), (258, spot_of_type 9), (260, spot_of_type 3)]\<rparr>"
  have t: "sp_type (spot_of_type ty) = ty" for ty by (simp add: spot_of_type_def)
  have "range (\<lambda>rnd. get_random_spot rnd ?m 3) = {s. \<exists>d. (s, d) \<in> set (gm_spots ?m) \<and> sp_type d = 3}"
    by (rule random_spot_choice) (simp_all add: t)
  also have "\<dots> = {257, 260}" by (auto simp: t)
  finally show ?thesis .
qed

text \<open>The packet \<^verbatim>\<open>SendOnMap\<close> lays out by hand is the one a stream composes.\<close>

theorem send_on_map_packet:
  "gm_calls (send_on_map pl m) = gm_calls m @ [MapSend pl (map_packet ''CITY_INSIDE_MOVE'' (stream_put [gm_id m]))]"
  unfolding send_on_map_def Let_def word_bytes_op
  by (simp add: map_packet_def stream_init_def stream_eos_def stream_put_def
      stream_append_def stream_set_data_def stream_size_def word_bytes_2)

end
