(* ===== verification/PetBag.thy ===== *)
theory PetBag
  imports GameMap
begin

text \<open>
  The bag of a player's pets, \<^verbatim>\<open>GObject/PetPackage.h\<close> and \<^verbatim>\<open>GObject/PetPackage.cpp\<close>: gems, which are counted, and
  pieces of equipment, which are objects of their own and may be worn by a pet.

  Equipment is on a heap, since the bag, a pet and the handlers hold pointers to it; an item is held by the bag only and is
  a value there.  Pets, the tables of \<^verbatim>\<open>GData\<close>, the generators and the allocator are not in the repository: what they
  answer is in \<open>pet_env\<close> and may depend on the calls made before, which \<open>pb_calls\<close> lists in the order of the code.  So
  are \<^verbatim>\<open>TryDelPetItem\<close>, declared and not defined, and the bounds of the identifiers of gems.  The logs are left out.
  \<^verbatim>\<open>ItemPetEqAttr\<close> is not declared; \<^verbatim>\<open>ItemPetAttr\<close> of \<^verbatim>\<open>ItemData.h\<close>, which has the members the code uses, is
  taken for it, and \<^verbatim>\<open>INIT_PETGEM_PACK_SIZE\<close> for \<^verbatim>\<open>INIT_PETITEM_PACK_SIZE\<close>, \<^verbatim>\<open>ItemKey(id)\<close> for \<^verbatim>\<open>ItemType(id)\<close>.
  \<open>None\<close> is undefined behaviour, a failed assertion or a loop that does not end.
\<close>

unbundle bit_operations_syntax

section \<open>Data\<close>

record item_type =
  it_id :: u64
  it_class :: u8
  it_req_lev :: u16
  it_quality :: u8
  it_max_quantity :: u16
  it_bind_type :: u8
  it_trump_exp :: u32

record item_base =
  ib_type :: item_type
  ib_bind :: bool
  ib_total :: u16

record pet_attr =
  pa_lv :: u8
  pa_exp :: u32
  pa_skill :: u32
  pa_gems :: "u16 list"

record pet_eq =
  pq_id :: u64
  pq_type :: item_type
  pq_bind :: bool
  pq_attr :: pet_attr

text \<open>Rows are those of the tables of the data base; \<open>RowDeleted\<close> has what the code passes as the owner, which is the
  flag.\<close>

datatype pet_call =
    PetSend "u8 list"
  | PetMsgCode u8 u32
  | DrawRandom
  | DrawId
  | ItemNotified u32 u32
  | EquipNotified nat
  | News u32 u8
  | TitleSet u32
  | RowInserted u32 u32 bool
  | RowUpdated u32 u16 bool
  | RowDeleted u64 bool
  | EquipRows u64
  | EquipRowsDeleted u64
  | AttrRow u64 pet_attr
  | SocketRow u64 u8
  | TimeChecked u16
  | PetModified u16 nat u8
  | SkillUpgraded u16 nat
  | EquipSet u16 "nat option" u8
  | EquipBound nat

record pet_bag =
  pb_item_size :: u16
  pb_equip_size :: u16
  pb_items :: "u32 \<times> bool \<Rightarrow> item_base option"
  pb_equips :: "u64 \<times> bool \<Rightarrow> nat option"
  pb_heap :: "nat \<Rightarrow> pet_eq option"
  pb_calls :: "pet_call list"

definition pet_bag_new :: pet_bag where
  "pet_bag_new = \<lparr>pb_item_size = 0, pb_equip_size = 0, pb_items = (\<lambda>_. None), pb_equips = (\<lambda>_. None), pb_heap = (\<lambda>_. None),
     pb_calls = []\<rparr>"

text \<open>\<open>pe_key_bind\<close> is the flag of an \<^verbatim>\<open>ItemKey\<close> made of an identifier alone.\<close>

record pet_env =
  pe_types :: "u32 \<Rightarrow> item_type option"
  pe_task :: u8
  pe_is_equip :: "u8 \<Rightarrow> bool"
  pe_counts_one :: "u8 \<Rightarrow> bool"
  pe_sub_class :: "u32 \<Rightarrow> u8"
  pe_pet_gem :: u8
  pe_gem_low :: u32
  pe_gem_high :: u32
  pe_key_bind :: bool
  pe_item_data :: "item_base \<Rightarrow> u8 list"
  pe_try_del :: "item_base \<Rightarrow> u16 \<Rightarrow> u16 \<Rightarrow> bool \<times> item_base \<times> u16"
  pe_exp_data :: "u8 \<Rightarrow> int \<Rightarrow> u32"
  pe_max_lev :: u8
  pe_skill_lev :: "u8 \<Rightarrow> u8"
  pe_up_max :: u8
  pe_gem_by_lev :: "int \<Rightarrow> u32"
  pe_eq_by_color :: "int \<Rightarrow> pet_call list \<Rightarrow> u32"
  pe_eq_skill :: "pet_call list \<Rightarrow> u16"
  pe_sockets :: nat
  pe_random :: "pet_call list \<Rightarrow> u32"
  pe_new_id :: "pet_call list \<Rightarrow> u64"
  pe_new :: "pet_call list \<Rightarrow> nat option"
  pe_find_pet :: "pet_call list \<Rightarrow> u16 \<Rightarrow> bool"
  pe_find_equip :: "pet_call list \<Rightarrow> u16 \<Rightarrow> u64 \<Rightarrow> nat option \<times> u8"
  pe_set_equip :: "pet_call list \<Rightarrow> u16 \<Rightarrow> nat option \<Rightarrow> u8 \<Rightarrow> nat option \<times> u8"

definition pet_note :: "pet_call list \<Rightarrow> pet_bag \<Rightarrow> pet_bag" where
  "pet_note cs b = b\<lparr>pb_calls := pb_calls b @ cs\<rparr>"

definition draw_below :: "pet_env \<Rightarrow> u32 \<Rightarrow> pet_bag \<Rightarrow> u32 \<times> pet_bag" where
  "draw_below env n b = (random_below (pe_random env (pb_calls b)) n, pet_note [DrawRandom] b)"

definition is_pet_item :: "pet_env \<Rightarrow> u32 \<Rightarrow> bool" where
  "is_pet_item env i \<longleftrightarrow> i \<ge> pe_gem_low env \<and> i \<le> pe_gem_high env"

section \<open>Items\<close>

text \<open>The sums are of type \<^verbatim>\<open>int\<close>, the quotient is cut to 16 bits.\<close>

definition item_slots :: "pet_env \<Rightarrow> item_base \<Rightarrow> nat \<Rightarrow> u16 option" where
  "item_slots env ib n =
     (let t = ib_type ib in
      if it_class t = pe_task env then Some 0
      else if pe_is_equip env (it_class t) then Some 1
      else if it_max_quantity t = 0 then None
      else Some (of_nat ((n + unat (it_max_quantity t) - 1) div unat (it_max_quantity t))))"

definition item_size :: "pet_env \<Rightarrow> item_base \<Rightarrow> u16 option" where
  "item_size env ib = item_slots env ib (unat (ib_total ib))"

definition item_size_with :: "pet_env \<Rightarrow> item_base \<Rightarrow> u16 \<Rightarrow> u16 option" where
  "item_size_with env ib num = item_slots env ib (unat num + unat (ib_total ib))"

definition item_count :: "pet_env \<Rightarrow> item_base \<Rightarrow> u16" where
  "item_count env ib = (if pe_is_equip env (it_class (ib_type ib)) \<or> pe_counts_one env (it_class (ib_type ib)) then 1
     else ib_total ib)"

definition inc_item :: "u16 \<Rightarrow> item_base \<Rightarrow> bool \<times> item_base" where
  "inc_item num ib = (True, ib\<lparr>ib_total := ib_total ib + num\<rparr>)"

definition dec_item :: "u16 \<Rightarrow> item_base \<Rightarrow> bool \<times> item_base" where
  "dec_item num ib = (if num > ib_total ib then (False, ib) else (True, ib\<lparr>ib_total := ib_total ib - num\<rparr>))"

definition bind_check :: "item_type \<Rightarrow> bool \<Rightarrow> bool" where
  "bind_check t bound = (if \<not> bound \<and> it_bind_type t = 1 then True else bound)"

definition gem_rest :: "pet_bag \<Rightarrow> u16" where
  "gem_rest b = (if 100 > pb_item_size b then 100 - pb_item_size b else 0)"

definition eq_rest :: "pet_bag \<Rightarrow> u16" where
  "eq_rest b = (if 200 > pb_equip_size b then 200 - pb_equip_size b else 0)"

definition find_pet_item :: "pet_bag \<Rightarrow> u32 \<Rightarrow> bool \<Rightarrow> item_base option" where
  "find_pet_item b i bound = pb_items b (i, bound)"

definition send_item_data :: "pet_env \<Rightarrow> item_base \<Rightarrow> pet_bag \<Rightarrow> pet_bag" where
  "send_item_data env ib b =
     pet_note [PetSend (map_packet ''FAIRY_PET'' (\<lambda>st. stream_put (pe_item_data env ib) (stream_put [3] (stream_put [5] st))))] b"

definition add_item_from_db :: "pet_env \<Rightarrow> u32 \<Rightarrow> u32 \<Rightarrow> bool \<Rightarrow> pet_bag \<Rightarrow> ((u32 \<times> bool) option \<times> pet_bag) option" where
  "add_item_from_db env i num bound b =
     (if \<not> is_pet_item env i then None
      else case pe_types env i of
        None \<Rightarrow> Some (None, b)
      | Some t \<Rightarrow>
          if pe_new env (pb_calls b) = None then Some (None, b)
          else let bound' = bind_check t bound; ib = \<lparr>ib_type = t, ib_bind = bound', ib_total = 0\<rparr>
               in do { oldq \<leftarrow> item_size env ib;
                       newq \<leftarrow> item_size_with env ib (ucast (ucast (item_count env ib) + num));
                       Some (Some (i, bound'),
                         b\<lparr>pb_item_size := pb_item_size b + newq - oldq,
                           pb_items := (pb_items b)((i, bound') \<mapsto> snd (inc_item (ucast num) ib))\<rparr>) })"

definition try_add_pet_item :: "pet_env \<Rightarrow> item_base \<Rightarrow> u16 \<Rightarrow> pet_bag \<Rightarrow> (bool \<times> item_base \<times> pet_bag) option" where
  "try_add_pet_item env ib num b =
     do { oldq \<leftarrow> item_size env ib;
          newq \<leftarrow> item_size_with env ib (item_count env ib + num);
          let cur = pb_item_size b - oldq + newq;
          if cur > 100 then Some (False, ib, b)
          else let (ok, ib') = inc_item num ib
               in if \<not> ok then Some (False, ib', b) else Some (True, ib', b\<lparr>pb_item_size := cur\<rparr>) }"

text \<open>The numbers of \<^verbatim>\<open>Log.h\<close> that the code compares with.\<close>

definition from_bbft :: u16 where "from_bbft = 45"
definition from_pet_gem_merge :: u16 where "from_pet_gem_merge = 50"
definition from_pet_detach_gem :: u16 where "from_pet_detach_gem = 51"

text \<open>The result is the place of the item in the bag, as the code returns the pointer to it.\<close>

definition add_pet_item ::
  "pet_env \<Rightarrow> u32 \<Rightarrow> u32 \<Rightarrow> bool \<Rightarrow> bool \<Rightarrow> u16 \<Rightarrow> pet_bag \<Rightarrow> ((u32 \<times> bool) option \<times> pet_bag) option" where
  "add_pet_item env ty num bound notify from b =
     (if ty = 0 \<or> num = 0 \<or> \<not> is_pet_item env ty then Some (None, b)
      else case pe_types env ty of
        None \<Rightarrow> Some (None, b)
      | Some t \<Rightarrow>
          let bound' = bind_check t bound;
              tell = (\<lambda>ib b. let b1 = (if notify then pet_note [ItemNotified ty num] b else b); b2 = send_item_data env ib b1
                in (Some (ty, bound'), if it_quality t \<ge> 4 \<and> from = from_pet_gem_merge then pet_note [News 4155 (it_quality t)] b2 else b2))
          in case find_pet_item b ty bound' of
               Some ib \<Rightarrow>
                 do { (ok, ib', b1) \<leftarrow> try_add_pet_item env ib (ucast num) b;
                      if \<not> ok then Some (None, b1)
                      else Some (tell ib' (pet_note [RowUpdated ty (item_count env ib') bound']
                                            (b1\<lparr>pb_items := (pb_items b1)((ty, bound') \<mapsto> ib')\<rparr>))) }
             | None \<Rightarrow>
                 if pe_new env (pb_calls b) = None then Some (None, b)
                 else do { (ok, ib', b1) \<leftarrow> try_add_pet_item env \<lparr>ib_type = t, ib_bind = False, ib_total = 0\<rparr> (ucast num) b;
                           if \<not> ok then Some (None, b1)
                           else let ib'' = ib'\<lparr>ib_bind := bound'\<rparr>
                                in Some (tell ib'' (pet_note [RowInserted ty num bound']
                                                     (b1\<lparr>pb_items := (pb_items b1)((ty, bound') \<mapsto> ib'')\<rparr>))) })"

definition del_pet_item :: "pet_env \<Rightarrow> u64 \<Rightarrow> u16 \<Rightarrow> bool \<Rightarrow> pet_bag \<Rightarrow> bool \<times> pet_bag" where
  "del_pet_item env i num bound b =
     (if num = 0 \<or> \<not> is_pet_item env (ucast i) then (False, b)
      else case find_pet_item b (ucast i) bound of
        None \<Rightarrow> (False, b)
      | Some ib \<Rightarrow>
          let (ok, ib', sz) = pe_try_del env ib num (pb_item_size b);
              b1 = b\<lparr>pb_item_size := sz, pb_items := (pb_items b)((ucast i, bound) \<mapsto> ib')\<rparr>;
              b2 = send_item_data env ib' b1
          in if \<not> ok then (False, b1)
             else if item_count env ib' = 0
             then (True, pet_note [RowDeleted i bound] (b2\<lparr>pb_items := (pb_items b2)((ucast i, bound) := None)\<rparr>))
             else (True, pet_note [RowUpdated (ucast i) (item_count env ib') bound] b2))"

section \<open>Equipment\<close>

text \<open>\<^verbatim>\<open>appendAttrToStream\<close>: the byte in front of the gems has a bit for each socket that is not empty.\<close>

fun append_gems :: "u16 list \<Rightarrow> nat \<Rightarrow> u8 \<Rightarrow> stream \<Rightarrow> u8 \<times> stream" where
  "append_gems [] z bits st = (bits, st)"
| "append_gems (g # gs) z bits st =
     (if g > 0 then append_gems gs (z + 1) (bits OR push_bit z 1) (stream_put (word_bytes 2 g) st)
      else append_gems gs (z + 1) bits st)"

definition append_attr :: "pet_attr \<Rightarrow> stream \<Rightarrow> stream" where
  "append_attr pa st =
     (let st1 = stream_put (word_bytes 4 (pa_exp pa)) (stream_put [pa_lv pa] (stream_put (word_bytes 4 (pa_skill pa)) st));
          pos = stream_size st1;
          (bits, st2) = append_gems (pa_gems pa) 0 0 (stream_put [0] st1)
      in stream_set_data pos [bits] st2)"

definition append_equip :: "pet_eq \<Rightarrow> stream \<Rightarrow> stream" where
  "append_equip e st =
     append_attr (pq_attr e) (stream_put (word_bytes 2 (ucast (it_id (pq_type e)) :: u16))
       (stream_put [if pq_bind e then 1 else 0] (stream_put (word_bytes 8 (pq_id e)) st)))"

definition send_single :: "nat \<Rightarrow> u8 \<Rightarrow> pet_bag \<Rightarrow> pet_bag option" where
  "send_single a ty b =
     do { e \<leftarrow> pb_heap b a;
          Some (pet_note [PetSend (map_packet ''FAIRY_PET'' (\<lambda>st. let st1 = stream_put [ty] (stream_put [2] (stream_put [5] st))
                  in if ty \<noteq> 0 then append_equip e st1 else stream_put (word_bytes 8 (pq_id e)) st1))] b) }"

definition put_equip :: "u64 \<times> bool \<Rightarrow> nat \<Rightarrow> pet_bag \<Rightarrow> pet_bag" where
  "put_equip k a b =
     b\<lparr>pb_equip_size := (if pb_equips b k = None then pb_equip_size b + 1 else pb_equip_size b),
       pb_equips := (pb_equips b)(k \<mapsto> a)\<rparr>"

definition drop_equip :: "u64 \<times> bool \<Rightarrow> pet_bag \<Rightarrow> pet_bag" where
  "drop_equip k b = b\<lparr>pb_equip_size := pb_equip_size b - 1, pb_equips := (pb_equips b)(k := None)\<rparr>"

definition add_exist_equip :: "pet_env \<Rightarrow> nat option \<Rightarrow> bool \<Rightarrow> pet_bag \<Rightarrow> (nat option \<times> pet_bag) option" where
  "add_exist_equip env a fromDB b =
     (case a of
        None \<Rightarrow> Some (None, b)
      | Some a \<Rightarrow>
          do { e \<leftarrow> pb_heap b a;
               let b1 = put_equip (pq_id e, pe_key_bind env) a b;
               b2 \<leftarrow> (if \<not> fromDB then send_single a 1 b1 else Some b1);
               Some (Some a, b2) })"

definition find_bag_equip :: "pet_bag \<Rightarrow> u32 \<Rightarrow> bool \<Rightarrow> nat option" where
  "find_bag_equip b i bound = pb_equips b (ucast i, bound)"

text \<open>The pet, the place of the equipment on it, and the equipment.\<close>

definition find_pet_equip ::
  "pet_env \<Rightarrow> u16 \<Rightarrow> u64 \<Rightarrow> pet_bag \<Rightarrow> (u16 option \<times> u8 \<times> nat option) \<times> pet_bag" where
  "find_pet_equip env petId i b =
     (if petId = 0 then ((None, 0, find_bag_equip b (ucast petId) True), b)
      else if \<not> pe_find_pet env (pb_calls b) petId then ((None, 0, None), b)
      else let b1 = pet_note [TimeChecked petId] b; (a, pos) = pe_find_equip env (pb_calls b1) petId i
           in ((Some petId, pos, a), b1))"

definition add_pet_equip :: "pet_env \<Rightarrow> nat option \<Rightarrow> bool \<Rightarrow> u16 \<Rightarrow> pet_bag \<Rightarrow> (nat option \<times> pet_bag) option" where
  "add_pet_equip env a notify from b =
     (case a of
        None \<Rightarrow> Some (None, b)
      | Some a \<Rightarrow>
          if eq_rest b < 1 then Some (None, b)
          else do { e \<leftarrow> pb_heap b a;
                    b1 \<leftarrow> send_single a 1 (pet_note [EquipRows (pq_id e)] (put_equip (pq_id e, pe_key_bind env) a b));
                    let q = it_quality (pq_type e);
                    let b2 = (if notify then pet_note [EquipNotified a] b1 else b1);
                    Some (Some a, if q \<ge> 4 \<and> from = from_bbft then pet_note [News 4156 q, TitleSet 229] b2 else b2) })"

definition del_pet_equip :: "pet_env \<Rightarrow> u64 \<Rightarrow> pet_bag \<Rightarrow> (bool \<times> pet_bag) option" where
  "del_pet_equip env i b =
     (case pb_equips b (i, pe_key_bind env) of
        None \<Rightarrow> Some (False, b)
      | Some a \<Rightarrow>
          do { b1 \<leftarrow> send_single a 0 (pet_note [EquipRowsDeleted i] (drop_equip (i, pe_key_bind env) b));
               Some (True, b1\<lparr>pb_heap := (pb_heap b1)(a := None)\<rparr>) })"

definition set_equip :: "pet_env \<Rightarrow> u16 \<Rightarrow> nat option \<Rightarrow> u8 \<Rightarrow> pet_bag \<Rightarrow> (nat option \<times> u8) \<times> pet_bag" where
  "set_equip env p a pos b = (pe_set_equip env (pb_calls b) p a pos, pet_note [EquipSet p a pos] b)"

text \<open>The last part of \<^verbatim>\<open>EquipTo\<close>: what the pet wore comes into the bag.\<close>

definition take_off :: "pet_env \<Rightarrow> nat option \<Rightarrow> u8 \<Rightarrow> pet_bag \<Rightarrow> (bool \<times> u8 \<times> pet_bag) option" where
  "take_off env old pos b = (case old of
        None \<Rightarrow> Some (True, pos, b)
      | Some a \<Rightarrow> map_option (\<lambda>(_, b'). (True, pos, b')) (add_exist_equip env (Some a) False b))"

definition equip_to :: "pet_env \<Rightarrow> u64 \<Rightarrow> u16 option \<Rightarrow> u8 \<Rightarrow> pet_bag \<Rightarrow> (bool \<times> u8 \<times> pet_bag) option" where
  "equip_to env i pet pos b =
     (case pet of
        None \<Rightarrow> Some (False, pos, b)
      | Some p \<Rightarrow>
          if pos > pe_up_max env then Some (False, pos, b)
          else if i = 0 \<and> eq_rest b < 1 then Some (False, pos, pet_note [PetMsgCode 0 1094] b)
          else if i = 0
          then (let ((old, pos'), b1) = set_equip env p None pos b
                in if old = None then Some (False, pos', b1) else take_off env old pos' b1)
          else case pb_equips b (i, pe_key_bind env) of
              None \<Rightarrow> Some (False, pos, b)
            | Some a \<Rightarrow>
                let ((old, pos'), b1) = set_equip env p (Some a) pos b
                in if pos' = 0xFF then Some (False, pos', b1)
                   else do { b2 \<leftarrow> send_single a 0 b1;
                             take_off env old pos' (drop_equip (i, pe_key_bind env) b2) })"

section \<open>Gems\<close>

text \<open>What is told of an equipment that has changed: its pet, or the player if it is in the bag.\<close>

definition tell_changed :: "u16 option \<Rightarrow> nat \<Rightarrow> u8 \<Rightarrow> pet_bag \<Rightarrow> pet_bag option" where
  "tell_changed pet a pos b = (case pet of Some p \<Rightarrow> Some (pet_note [PetModified p a pos] b) | None \<Rightarrow> send_single a 2 b)"

definition merge_pet_gem :: "pet_env \<Rightarrow> u16 \<Rightarrow> u16 \<Rightarrow> u16 \<Rightarrow> pet_bag \<Rightarrow> ((u8 \<times> u16) \<times> pet_bag) option" where
  "merge_pet_gem env g1 g2 ogid b =
     (if pe_sub_class env (ucast g1) \<noteq> pe_pet_gem env \<or> pe_sub_class env (ucast g2) \<noteq> pe_pet_gem env then Some ((0, ogid), b)
      else if gem_rest b < 1 then Some ((0, ogid), pet_note [PetMsgCode 0 1094] b)
      else case (find_pet_item b (ucast g1) True, find_pet_item b (ucast g2) True) of
        (Some i1, Some i2) \<Rightarrow>
          if g1 = g2 \<and> item_count env i1 < 2 then Some ((0, ogid), b)
          else if it_req_lev (ib_type i1) \<noteq> it_req_lev (ib_type i2) then Some ((0, ogid), b)
          else if it_quality (ib_type i1) \<noteq> it_quality (ib_type i2) then Some ((0, ogid), b)
          else if it_req_lev (ib_type i1) \<ge> 20 \<and> it_quality (ib_type i1) \<ge> 5 then Some ((0, ogid), b)
          else let (og, b1) = (if g1 = g2 then (g1 + 1, b)
                 else let (rnd, b') = draw_below env 10000 b
                      in (if rnd < 4000 then g1 + 1 else if rnd < 8000 then g2 + 1
                          else ucast (pe_gem_by_lev env (int (unat (it_req_lev (ib_type i1))))), b'))
               in if pe_sub_class env (ucast og) \<noteq> pe_pet_gem env then Some ((0, og), b1)
                  else let b2 = (if g1 = g2 then snd (del_pet_item env (ucast g1) 2 True b1)
                                 else snd (del_pet_item env (ucast g2) 1 True (snd (del_pet_item env (ucast g1) 1 True b1))))
                       in do { (_, b3) \<leftarrow> add_pet_item env (ucast og) 1 True True from_pet_gem_merge b2;
                               Some ((1, og), b3) }
      | _ \<Rightarrow> Some ((0, ogid), b))"

definition detach_pet_gem :: "pet_env \<Rightarrow> u32 \<Rightarrow> u64 \<Rightarrow> u8 \<Rightarrow> pet_bag \<Rightarrow> (u8 \<times> pet_bag) option" where
  "detach_pet_gem env petId i gemPos b =
     (if gemPos > 5 then Some (0, b)
      else if gem_rest b < 1 then Some (0, pet_note [PetMsgCode 0 1094] b)
      else let ((pet, pos, a), b1) = find_pet_equip env (ucast petId) i b in case a of
        None \<Rightarrow> Some (0, b1)
      | Some a \<Rightarrow>
          do { e \<leftarrow> pb_heap b1 a;
               old \<leftarrow> nth_opt (pa_gems (pq_attr e)) (unat gemPos);
               if old = 0 then Some (0, b1)
               else let e' = e\<lparr>pq_attr := (pq_attr e)\<lparr>pa_gems := (pa_gems (pq_attr e))[unat gemPos := 0]\<rparr>\<rparr> in
                 do { (_, b2) \<leftarrow> add_pet_item env (ucast old) 1 True True from_pet_detach_gem
                                   (b1\<lparr>pb_heap := (pb_heap b1)(a \<mapsto> e')\<rparr>);
                      b3 \<leftarrow> tell_changed pet a pos (pet_note [EquipBound a, SocketRow (pq_id e) (gemPos + 1)] b2);
                      Some (1, b3) } })"

section \<open>Raising the level of an equipment\<close>

function level_up :: "pet_env \<Rightarrow> int \<Rightarrow> u32 \<Rightarrow> u8 \<Rightarrow> u8 \<Rightarrow> u8" where
  "level_up env q e i lv =
     (if i < pe_max_lev env then if e < pe_exp_data env i q then lv else level_up env q e (i + 1) (lv + 1) else lv)"
  by pat_completeness auto

lemma u8_suc: "(i :: u8) < m \<Longrightarrow> unat (i + 1) = Suc (unat i)"
proof -
  assume "i < m"
  then have "unat i < unat m" by (simp add: word_less_nat_alt)
  then have "Suc (unat i) < 256" using unat_u8_less [of m] by linarith
  then show ?thesis using unat_of_nat_u8 [of "Suc (unat i)"] by (simp add: add.commute)
qed

termination level_up
proof (relation "measure (\<lambda>(env, q, e, i, lv). 256 - unat i)")
  fix env q e i lv
  assume "(i :: u8) < pe_max_lev env"
  then show "((env, q, e :: u32, i + 1, lv + 1 :: u8), env, q, e, i, lv) \<in> measure (\<lambda>(env, q, e, i, lv). 256 - unat i)"
    using u8_suc [of i] unat_u8_less [of i] by simp
qed simp

declare level_up.simps [simp del]

text \<open>\<^verbatim>\<open>equipUpgrade(ItemPetEq*, ItemPetEq*)\<close>: nothing was gained, the highest level is reached, or the identifier of what
  was eaten.\<close>

definition upgrade :: "pet_env \<Rightarrow> nat \<Rightarrow> nat \<Rightarrow> pet_bag \<Rightarrow> (u64 \<times> pet_bag) option" where
  "upgrade env a x b =
     do { e \<leftarrow> pb_heap b a;
          f \<leftarrow> pb_heap b x;
          let pa = pq_attr e;
          let q = int (unat (it_quality (pq_type e))) - 2;
          let need = pe_exp_data env (pa_lv pa) q;
          if need = 0 then Some (0, b)
          else let ex = pa_exp pa + (it_trump_exp (pq_type f) + pa_exp (pq_attr f));
                   put = (\<lambda>lv. b\<lparr>pb_heap := (pb_heap b)(a \<mapsto> e\<lparr>pq_attr := pa\<lparr>pa_exp := ex, pa_lv := lv\<rparr>\<rparr>)\<rparr>)
               in if ex \<ge> need
                  then let lv = level_up env q ex (pa_lv pa) (pa_lv pa)
                       in if lv \<ge> pe_max_lev env then Some (1, put (pe_max_lev env)) else Some (pq_id f, put lv)
                  else Some (pq_id f, put (pa_lv pa)) }"

definition has_gem :: "pet_env \<Rightarrow> pet_eq \<Rightarrow> bool" where
  "has_gem env e \<longleftrightarrow> list_ex (\<lambda>g. pe_sub_class env (ucast g) = pe_pet_gem env) (pa_gems (pq_attr e))"

text \<open>The loop of \<^verbatim>\<open>equipUpgrade\<close> over the identifiers it is given, with a counter of eight bits.  What \<^verbatim>\<open>upgrade\<close>
  returns is cut to 32 bits, and so is the identifier that is looked up.\<close>

partial_function (option) eat_loop :: "pet_env \<Rightarrow> nat \<Rightarrow> u64 list \<Rightarrow> u8 \<Rightarrow> pet_bag \<Rightarrow> pet_bag option" where
  "eat_loop env a eats i b =
     (if unat i < length eats then
        (case find_bag_equip b (ucast (eats ! unat i)) True of
           None \<Rightarrow> eat_loop env a eats (i + 1) b
         | Some x \<Rightarrow>
             do { f \<leftarrow> pb_heap b x;
                  if has_gem env f then eat_loop env a eats (i + 1) b
                  else do { (r, b1) \<leftarrow> upgrade env a x b;
                            if (ucast r :: u32) > 0
                            then do { (_, b2) \<leftarrow> del_pet_equip env (eats ! unat i) b1;
                                      if (ucast r :: u32) = 1 then Some b2 else eat_loop env a eats (i + 1) b2 }
                            else eat_loop env a eats (i + 1) b1 } })
      else Some b)"

text \<open>The macros of \<^verbatim>\<open>SkillTable.h\<close>.\<close>

definition skill_id :: "u32 \<Rightarrow> u32" where "skill_id x = x div 100"
definition skill_and_level :: "u32 \<Rightarrow> u32 \<Rightarrow> u32" where "skill_and_level s l = s * 100 + l"

definition raise_skill :: "pet_env \<Rightarrow> u16 option \<Rightarrow> nat \<Rightarrow> pet_bag \<Rightarrow> pet_bag option" where
  "raise_skill env pet a b =
     do { e \<leftarrow> pb_heap b a;
          let pa = pq_attr e;
          let lev = pe_skill_lev env (pa_lv pa);
          let sk = skill_and_level (skill_id (pa_skill pa)) (ucast lev);
          if lev \<noteq> 0 \<and> sk \<noteq> pa_skill pa
          then let b1 = b\<lparr>pb_heap := (pb_heap b)(a \<mapsto> e\<lparr>pq_attr := pa\<lparr>pa_skill := sk\<rparr>\<rparr>)\<rparr>
               in Some (case pet of Some p \<Rightarrow> pet_note [SkillUpgraded p a] b1 | None \<Rightarrow> b1)
          else Some b }"

definition equip_upgrade :: "pet_env \<Rightarrow> u32 \<Rightarrow> u64 \<Rightarrow> u64 list \<Rightarrow> pet_bag \<Rightarrow> (u8 \<times> pet_bag) option" where
  "equip_upgrade env petId i eats b =
     (let ((pet, pos, a), b0) = find_pet_equip env (ucast petId) i b in case a of
        None \<Rightarrow> Some (0, b0)
      | Some a \<Rightarrow>
          do { e \<leftarrow> pb_heap b0 a;
               if pa_lv (pq_attr e) \<ge> pe_max_lev env then Some (0, b0)
               else do { b1 \<leftarrow> eat_loop env a eats 0 b0;
                         b2 \<leftarrow> raise_skill env pet a b1;
                         e' \<leftarrow> pb_heap b2 a;
                         b3 \<leftarrow> tell_changed pet a pos (pet_note [AttrRow i (pq_attr e')] b2);
                         Some (1, b3) } })"

section \<open>Rewards\<close>

text \<open>\<^verbatim>\<open>getRandomPetEqGemColorIdx\<close>, for equipment or, if \<open>gem\<close>, for a gem.\<close>

definition color_idx :: "pet_env \<Rightarrow> u32 \<Rightarrow> bool \<Rightarrow> pet_bag \<Rightarrow> int \<times> pet_bag" where
  "color_idx env score gem b =
     (if score < 400 then (-1, b)
      else let (chance, b1) = draw_below env 10000 b
           in (if score \<le> 600 then if chance < 15000 - 25 * score then 0 else if gem then 2 else 1
               else if score < 1301 then if chance < 18200 - 14 * score then if gem then 2 else 1 else if gem then 4 else 2
               else if score < 2001 then if chance < 20000 - 10 * score then if gem then 4 else 2 else if gem then 6 else 3
               else -1, b1))"

definition add_random_pet_eq ::
  "pet_env \<Rightarrow> u32 \<Rightarrow> u32 \<Rightarrow> int \<Rightarrow> u16 \<Rightarrow> bool \<Rightarrow> pet_bag \<Rightarrow> (nat option \<times> pet_bag) option" where
  "add_random_pet_eq env score ty idx from notify b =
     (if gem_rest b < 1 then Some (None, pet_note [PetMsgCode 0 1094] b)
      else let (idx', b1) =
             (if score \<noteq> 0 then color_idx env score False b
              else if ty \<noteq> 0 then (case pe_types env ty of None \<Rightarrow> -1 | Some t \<Rightarrow> int (unat (it_quality t)) - 2, b)
              else (idx, b))
           in if idx' < 0 then Some (None, b1)
              else let ty' = (if ty = 0 then pe_eq_by_color env idx' (pb_calls b1) else ty); sk = pe_eq_skill env (pb_calls b1)
                   in if sk = 0 \<or> ty' = 0 then Some (None, b1)
                      else case pe_types env ty' of
                        None \<Rightarrow> Some (None, b1)
                      | Some t \<Rightarrow>
                          let i = pe_new_id env (pb_calls b1); b2 = pet_note [DrawId] b1 in
                          case pe_new env (pb_calls b2) of
                            None \<Rightarrow> Some (None, b2)
                          | Some a \<Rightarrow>
                              let e = \<lparr>pq_id = i, pq_type = t, pq_bind = True,
                                       pq_attr = \<lparr>pa_lv = 0, pa_exp = 0, pa_skill = ucast sk,
                                                  pa_gems = replicate (pe_sockets env) 0\<rparr>\<rparr>
                              in add_pet_equip env (Some a) notify from (b2\<lparr>pb_heap := (pb_heap b2)(a \<mapsto> e)\<rparr>))"

text \<open>The condition of \<^verbatim>\<open>AddRandomPetGem\<close> assigns: \<open>lvIdx\<close> becomes 1 if it was above 6, and 0 otherwise.\<close>

definition add_random_pet_gem :: "pet_env \<Rightarrow> u32 \<Rightarrow> int \<Rightarrow> pet_bag \<Rightarrow> ((u32 \<times> bool) option \<times> pet_bag) option" where
  "add_random_pet_gem env score lv b =
     (if gem_rest b < 1 then Some (None, pet_note [PetMsgCode 0 1094] b)
      else let (lv1, b1) = (if score \<noteq> 0 then color_idx env score True b else (lv, b));
               lv2 = (if lv1 > 6 then 1 else 0)
           in if lv2 \<noteq> 0 then Some (None, b1)
              else add_pet_item env (pe_gem_by_lev env lv2) 1 True True from_bbft b1)"

fun add_pet_equip_n :: "pet_env \<Rightarrow> u32 \<Rightarrow> nat \<Rightarrow> u16 \<Rightarrow> bool \<Rightarrow> nat option \<Rightarrow> pet_bag \<Rightarrow> (nat option \<times> pet_bag) option" where
  "add_pet_equip_n env ty 0 from silence r b = Some (r, b)"
| "add_pet_equip_n env ty (Suc n) from silence r b =
     do { (r', b') \<leftarrow> add_random_pet_eq env 0 ty (-1) from (\<not> silence) b;
          add_pet_equip_n env ty n from silence r' b' }"

definition add_pet_equips ::
  "pet_env \<Rightarrow> u32 \<Rightarrow> u32 \<Rightarrow> bool \<Rightarrow> u16 \<Rightarrow> pet_bag \<Rightarrow> (nat option \<times> pet_bag) option" where
  "add_pet_equips env ty num silence from b =
     (if ucast (eq_rest b) < num then Some (None, b) else add_pet_equip_n env ty (unat num) from silence None b)"

section \<open>The number of pieces of equipment\<close>

definition counted :: "pet_bag \<Rightarrow> bool" where
  "counted b \<longleftrightarrow> finite (dom (pb_equips b)) \<and> pb_equip_size b = of_nat (card (dom (pb_equips b))) \<and> card (dom (pb_equips b)) \<le> 200"

text \<open>What an operation that does not touch the equipment of the bag keeps.\<close>

definition same_equips :: "pet_bag \<Rightarrow> pet_bag \<Rightarrow> bool" where
  "same_equips b b' \<longleftrightarrow> pb_equips b' = pb_equips b \<and> pb_equip_size b' = pb_equip_size b"

lemma same_equips_refl [simp]: "same_equips b b"
  by (simp add: same_equips_def)

lemma same_equips_trans: "same_equips a b \<Longrightarrow> same_equips b c \<Longrightarrow> same_equips a c"
  by (simp add: same_equips_def)

lemma same_equips_fields [simp]:
  "same_equips b (pet_note cs c) = same_equips b c" "same_equips (pet_note cs b) c = same_equips b c"
  "same_equips b (c\<lparr>pb_items := i\<rparr>) = same_equips b c" "same_equips b (c\<lparr>pb_item_size := s\<rparr>) = same_equips b c"
  "same_equips b (c\<lparr>pb_heap := h\<rparr>) = same_equips b c" "same_equips (b\<lparr>pb_heap := h\<rparr>) c = same_equips b c"
  "same_equips b (send_item_data env ib c) = same_equips b c"
  by (simp_all add: same_equips_def pet_note_def send_item_data_def)

lemma counted_same: "counted b \<Longrightarrow> same_equips b c \<Longrightarrow> counted c"
  by (simp add: counted_def same_equips_def)

lemma counted_heap [simp]: "counted (b\<lparr>pb_heap := h\<rparr>) = counted b" "counted (pet_note cs b) = counted b"
  by (simp_all add: counted_def pet_note_def)

lemma same_send_single: "send_single a ty b = Some c \<Longrightarrow> same_equips b c"
  by (auto simp: send_single_def bind_eq_Some_conv)

lemma same_try_add: "try_add_pet_item env ib num b = Some (ok, ib', c) \<Longrightarrow> same_equips b c"
  by (auto simp: try_add_pet_item_def inc_item_def bind_eq_Some_conv Let_def split: if_splits)

lemma same_add_item: "add_pet_item env ty num bound notify from b = Some (r, c) \<Longrightarrow> same_equips b c"
  by (auto simp: add_pet_item_def bind_eq_Some_conv Let_def split: if_splits option.splits dest: same_try_add)

lemma same_del_item: "same_equips b (snd (del_pet_item env i num bound b))"
  by (auto simp: del_pet_item_def Let_def split: option.splits prod.splits)

lemma same_draw: "draw_below env n b = (r, c) \<Longrightarrow> same_equips b c"
  by (auto simp: draw_below_def)

lemma same_color: "color_idx env s g b = (r, c) \<Longrightarrow> same_equips b c"
  by (auto simp: color_idx_def draw_below_def Let_def split: if_splits)

lemma same_find: "find_pet_equip env p i b = (r, c) \<Longrightarrow> same_equips b c"
  by (auto simp: find_pet_equip_def Let_def split: if_splits prod.splits)

lemma same_tell: "tell_changed pet a pos b = Some c \<Longrightarrow> same_equips b c"
  by (auto simp: tell_changed_def split: option.splits dest: same_send_single)

lemma same_upgrade: "upgrade env a x b = Some (r, c) \<Longrightarrow> same_equips b c"
  by (auto simp: upgrade_def bind_eq_Some_conv Let_def split: if_splits)

lemma same_raise_skill: "raise_skill env pet a b = Some c \<Longrightarrow> same_equips b c"
  by (auto simp: raise_skill_def bind_eq_Some_conv Let_def split: if_splits option.splits)

lemma counted_put:
  assumes "counted b" "eq_rest b \<noteq> 0 \<or> pb_equips b k \<noteq> None \<or> card (dom (pb_equips b)) < 200"
  shows "counted (put_equip k a b)"
proof (cases "pb_equips b k")
  case None
  let ?n = "card (dom (pb_equips b))"
  have n: "unat (pb_equip_size b) = ?n" using assms(1) by (simp add: counted_def unat_of_nat)
  have "\<not> pb_equip_size b \<ge> 200" if "eq_rest b \<noteq> 0"
    using that by (auto simp: eq_rest_def split: if_splits)
  then have "?n < 200" using assms(2) None n by (auto simp: word_le_nat_alt)
  moreover have "k \<notin> dom (pb_equips b)" using None by blast
  ultimately show ?thesis using assms(1) None by (simp add: counted_def put_equip_def)
next
  case (Some x)
  then have "insert k (dom (pb_equips b)) = dom (pb_equips b)" by blast
  then show ?thesis using assms(1) Some by (simp add: counted_def put_equip_def)
qed

lemma counted_drop:
  assumes "counted b" "pb_equips b k \<noteq> None"
  shows "counted (drop_equip k b)" "card (dom (pb_equips (drop_equip k b))) < 200"
proof -
  have k: "k \<in> dom (pb_equips b)" using assms(2) by blast
  have f: "finite (dom (pb_equips b))" using assms(1) by (simp add: counted_def)
  have c: "card (dom (pb_equips b)) = Suc (card (dom (pb_equips b) - {k}))" using k f by (metis card.remove)
  show "counted (drop_equip k b)" using assms(1) c by (auto simp: counted_def drop_equip_def)
  show "card (dom (pb_equips (drop_equip k b))) < 200" using assms(1) c by (simp add: counted_def drop_equip_def)
qed

lemma counted_add_exist:
  "add_exist_equip env a db b = Some (r, c) \<Longrightarrow> counted b \<Longrightarrow> card (dom (pb_equips b)) < 200 \<Longrightarrow> counted c"
  by (auto simp: add_exist_equip_def bind_eq_Some_conv Let_def split: option.splits if_splits dest!: same_send_single
      intro!: counted_put elim!: counted_same [rotated])

lemma counted_add_equip: "add_pet_equip env a notify from b = Some (r, c) \<Longrightarrow> counted b \<Longrightarrow> counted c"
  by (auto simp: add_pet_equip_def bind_eq_Some_conv Let_def not_less split: option.splits if_splits dest!: same_send_single
      intro!: counted_put elim!: counted_same [rotated])

lemma counted_del_equip: "del_pet_equip env i b = Some (r, c) \<Longrightarrow> counted b \<Longrightarrow> counted c"
  by (auto simp: del_pet_equip_def bind_eq_Some_conv split: option.splits dest!: same_send_single
      intro!: counted_drop elim!: counted_same [rotated])

lemma counted_take_off:
  "take_off env old pos b = Some (r, q, c) \<Longrightarrow> counted b \<Longrightarrow> card (dom (pb_equips b)) < 200 \<Longrightarrow> counted c"
  by (auto simp: take_off_def split: option.splits dest: counted_add_exist)

lemma card_below:
  assumes "counted b" "\<not> eq_rest b < 1"
  shows "card (dom (pb_equips b)) < 200"
proof -
  have "unat (pb_equip_size b) = card (dom (pb_equips b))" using assms(1) by (simp add: counted_def unat_of_nat)
  moreover have "pb_equip_size b < 200" using assms(2) by (auto simp: eq_rest_def split: if_splits)
  ultimately show ?thesis by (simp add: word_less_nat_alt)
qed

lemma counted_equip_to: "equip_to env i pet pos b = Some (r, q, c) \<Longrightarrow> counted b \<Longrightarrow> counted c"
proof -
  assume e: "equip_to env i pet pos b = Some (r, q, c)" and b: "counted b"
  consider (off) p old q' where "i = 0" "\<not> eq_rest b < 1" "take_off env old q' (pet_note [EquipSet p None pos] b) = Some (r, q, c)"
    | (on) p a old q' b2 where "pb_equips b (i, pe_key_bind env) = Some a"
        "send_single a 0 (pet_note [EquipSet p (Some a) pos] b) = Some b2"
        "take_off env old q' (drop_equip (i, pe_key_bind env) b2) = Some (r, q, c)"
    | (same) "same_equips b c"
    using e by (auto simp: equip_to_def set_equip_def Let_def bind_eq_Some_conv split: option.splits if_splits prod.splits)
  then show ?thesis
  proof cases
    case off
    then show ?thesis using b card_below [OF b] counted_take_off [OF off(3)] by (simp add: pet_note_def counted_def)
  next
    case on
    then have s: "same_equips b b2" using same_send_single by fastforce
    then have "counted b2" "pb_equips b2 (i, pe_key_bind env) \<noteq> None"
      using counted_same [OF b] on(1) by (auto simp: same_equips_def)
    then show ?thesis using on(3) counted_drop by (meson counted_take_off)
  qed (use b counted_same in blast)
qed

lemma same_del_item_fields [simp]:
  "pb_equips (snd (del_pet_item env i num bound b)) = pb_equips b"
  "pb_equip_size (snd (del_pet_item env i num bound b)) = pb_equip_size b"
  using same_del_item [of b env i num bound] by (simp_all add: same_equips_def)

lemma same_merge: "merge_pet_gem env g1 g2 og b = Some (r, c) \<Longrightarrow> same_equips b c"
  by (auto simp: merge_pet_gem_def Let_def bind_eq_Some_conv split: option.splits if_splits prod.splits
      dest!: same_add_item same_draw) (simp_all add: same_equips_def)

lemma same_detach: "detach_pet_gem env p i pos b = Some (r, c) \<Longrightarrow> same_equips b c"
  by (auto simp: detach_pet_gem_def Let_def bind_eq_Some_conv split: option.splits if_splits prod.splits
      dest!: same_add_item same_find same_tell) (simp_all add: same_equips_def)

lemma counted_eat: "eat_loop env a xs i b = Some c \<Longrightarrow> counted b \<longrightarrow> counted c"
proof (rule eat_loop.raw_induct [where P = "\<lambda>e a xs i b c. counted b \<longrightarrow> counted c", rotated])
  fix loop :: "pet_env \<Rightarrow> nat \<Rightarrow> u64 list \<Rightarrow> u8 \<Rightarrow> pet_bag \<Rightarrow> pet_bag option" and e a xs i b c
  assume ih: "\<And>e a xs i b y. loop e a xs i b = Some y \<Longrightarrow> counted b \<longrightarrow> counted y"
  assume body: "(if unat i < length xs then case find_bag_equip b (ucast (xs ! unat i)) True of
      None \<Rightarrow> loop e a xs (i + 1) b
    | Some x \<Rightarrow> pb_heap b x \<bind> (\<lambda>f. if has_gem e f then loop e a xs (i + 1) b
        else upgrade e a x b \<bind> (\<lambda>(r, b1). if (ucast r :: u32) > 0
          then del_pet_equip e (xs ! unat i) b1 \<bind> (\<lambda>(_, b2). if (ucast r :: u32) = 1 then Some b2 else loop e a xs (i + 1) b2)
          else loop e a xs (i + 1) b1)) else Some b) = Some c"
  show "counted b \<longrightarrow> counted c"
    using body by (auto simp: bind_eq_Some_conv Let_def split: option.splits if_splits
        dest!: same_upgrade [THEN counted_same [rotated]] counted_del_equip ih)
qed

lemmas counted_parts = same_find [THEN counted_same [rotated]] same_raise_skill [THEN counted_same [rotated]]
  same_tell [THEN counted_same [rotated]] counted_eat [rule_format]

lemma counted_equip_upgrade: "equip_upgrade env p i xs b = Some (r, c) \<Longrightarrow> counted b \<Longrightarrow> counted c"
  by (auto simp: equip_upgrade_def Let_def bind_eq_Some_conv split: option.splits if_splits prod.splits
      dest!: counted_parts)

lemma counted_random_eq: "add_random_pet_eq env s ty idx from notify b = Some (r, c) \<Longrightarrow> counted b \<Longrightarrow> counted c"
  by (auto simp: add_random_pet_eq_def Let_def split: option.splits if_splits prod.splits
      dest!: same_color counted_add_equip elim!: counted_same [rotated])

lemma counted_equips: "add_pet_equip_n env ty n from s r b = Some (r', c) \<Longrightarrow> counted b \<Longrightarrow> counted c"
  by (induction n arbitrary: r b) (auto simp: bind_eq_Some_conv dest: counted_random_eq)

text \<open>What the client, the tasks and the shop can make of a bag.\<close>

inductive pet_step :: "pet_env \<Rightarrow> pet_bag \<Rightarrow> pet_bag \<Rightarrow> bool" for env where
  item_in: "add_pet_item env ty num bound notify from b = Some (r, c) \<Longrightarrow> pet_step env b c"
| item_out: "del_pet_item env i n bound b = (ok, c) \<Longrightarrow> pet_step env b c"
| equip_in: "add_pet_equip env a notify from b = Some (s, c) \<Longrightarrow> pet_step env b c"
| equip_out: "del_pet_equip env i b = Some (ok, c) \<Longrightarrow> pet_step env b c"
| changed: "equip_to env i pet pos b = Some (ok, q, c) \<Longrightarrow> pet_step env b c"
| merged: "merge_pet_gem env g1 g2 og b = Some (m, c) \<Longrightarrow> pet_step env b c"
| detached: "detach_pet_gem env p i pos b = Some (k, c) \<Longrightarrow> pet_step env b c"
| upgraded: "equip_upgrade env p i xs b = Some (k, c) \<Longrightarrow> pet_step env b c"
| drawn_eq: "add_random_pet_eq env s ty idx from notify b = Some (q, c) \<Longrightarrow> pet_step env b c"
| drawn_gem: "add_random_pet_gem env s lv b = Some (g, c) \<Longrightarrow> pet_step env b c"
| bought: "add_pet_equips env ty num silence from b = Some (q, c) \<Longrightarrow> pet_step env b c"

lemma counted_step: "pet_step env b c \<Longrightarrow> counted b \<Longrightarrow> counted c"
proof (induction rule: pet_step.induct)
  case (item_out i n bound b ok c)
  then show ?case using counted_same same_del_item by (metis snd_conv)
next
  case (drawn_gem s lv b g c)
  then show ?case
    by (auto simp: add_random_pet_gem_def Let_def split: if_splits prod.splits
        dest!: same_color same_add_item elim!: counted_same [rotated])
next
  case (bought ty num silence "from" b q c)
  then show ?case by (auto simp: add_pet_equips_def split: if_splits dest: counted_equips)
qed (auto dest: same_add_item counted_add_equip counted_del_equip counted_equip_to same_merge same_detach
    counted_equip_upgrade counted_random_eq intro: counted_same)

text \<open>However a bag is filled and emptied, its counter of equipment is the number of pieces in it, which is never above 200.\<close>

theorem pet_equips_counted:
  assumes "(pet_step env)\<^sup>*\<^sup>* pet_bag_new b"
  shows "unat (pb_equip_size b) = card (dom (pb_equips b)) \<and> card (dom (pb_equips b)) \<le> 200"
proof -
  have "counted pet_bag_new" by (simp add: counted_def pet_bag_new_def)
  with assms have "counted b" by (induction rule: rtranclp_induct) (auto intro: counted_step)
  then show ?thesis by (simp add: counted_def unat_of_nat)
qed

definition calm_pet :: pet_env where
  "calm_pet = \<lparr>pe_types = (\<lambda>i. if i \<ge> 100 \<and> i \<le> 200 then Some \<lparr>it_id = ucast i, it_class = 70, it_req_lev = 1, it_quality = 3,
       it_max_quantity = 1, it_bind_type = 0, it_trump_exp = 10\<rparr> else None),
     pe_task = 1, pe_is_equip = (\<lambda>_. False), pe_counts_one = (\<lambda>_. False), pe_sub_class = (\<lambda>_. 0), pe_pet_gem = 70,
     pe_gem_low = 100, pe_gem_high = 150, pe_key_bind = True, pe_item_data = (\<lambda>_. []), pe_try_del = (\<lambda>ib n s. (False, ib, s)),
     pe_exp_data = (\<lambda>l q. 10 * (ucast l + 1)), pe_max_lev = 20, pe_skill_lev = (\<lambda>_. 0), pe_up_max = 3,
     pe_gem_by_lev = (\<lambda>_. 101), pe_eq_by_color = (\<lambda>_ _. 180), pe_eq_skill = (\<lambda>_. 501), pe_sockets = 4, pe_random = (\<lambda>_. 0),
     pe_new_id = (\<lambda>_. 7), pe_new = (\<lambda>_. Some 1), pe_find_pet = (\<lambda>_ p. p = 5), pe_find_equip = (\<lambda>_ _ _. (Some 9, 2)),
     pe_set_equip = (\<lambda>_ _ _ pos. (Some 9, pos))\<rparr>"

theorem pet_equips_counted_witness:
  "\<exists>b. add_random_pet_eq calm_pet 0 0 1 0 False pet_bag_new = Some (Some 1, b) \<and> unat (pb_equip_size b) = card (dom (pb_equips b))"
proof -
  have "\<exists>b. add_random_pet_eq calm_pet 0 0 1 0 False pet_bag_new = Some (Some 1, b)"
    by (simp add: add_random_pet_eq_def calm_pet_def pet_bag_new_def gem_rest_def eq_rest_def Let_def pet_note_def add_pet_equip_def
        put_equip_def send_single_def)
  then obtain b where b: "add_random_pet_eq calm_pet 0 0 1 0 False pet_bag_new = Some (Some 1, b)" ..
  have reach: "(pet_step calm_pet)\<^sup>*\<^sup>* pet_bag_new b" by (intro r_into_rtranclp drawn_eq [OF b])
  show ?thesis using b pet_equips_counted [OF reach] by blast
qed

section \<open>The room the items take\<close>

text \<open>An item that is neither a task's nor an equipment takes one place for each full stack and one for the rest.\<close>

definition plain :: "pet_env \<Rightarrow> item_type \<Rightarrow> bool" where
  "plain env t \<longleftrightarrow> it_class t \<noteq> pe_task env \<and> \<not> pe_is_equip env (it_class t) \<and> \<not> pe_counts_one env (it_class t) \<and>
     it_max_quantity t \<noteq> 0"

definition stacks :: "item_base \<Rightarrow> nat" where
  "stacks ib = (unat (ib_total ib) + unat (it_max_quantity (ib_type ib)) - 1) div unat (it_max_quantity (ib_type ib))"

definition slots :: "pet_bag \<Rightarrow> nat" where
  "slots b = (\<Sum>k \<in> dom (pb_items b). stacks (the (pb_items b k)))"

definition items_fit :: "pet_env \<Rightarrow> pet_bag \<Rightarrow> bool" where
  "items_fit env b \<longleftrightarrow> finite (dom (pb_items b)) \<and> (\<forall>k ib. pb_items b k = Some ib \<longrightarrow> plain env (ib_type ib)) \<and>
     slots b \<le> unat (pb_item_size b) \<and> pb_item_size b \<le> 100"

lemma slots_put:
  assumes "finite (dom (pb_items b))"
  shows "slots (b\<lparr>pb_items := (pb_items b)(k \<mapsto> ib)\<rparr>) + (case pb_items b k of None \<Rightarrow> 0 | Some i \<Rightarrow> stacks i) = slots b + stacks ib"
proof -
  let ?D = "dom (pb_items b) - {k}" and ?f = "\<lambda>j. stacks (the (pb_items b j))"
  have "slots (b\<lparr>pb_items := (pb_items b)(k \<mapsto> ib)\<rparr>) = stacks ib + sum ?f ?D"
  proof -
    let ?g = "\<lambda>j. stacks (the (((pb_items b)(k \<mapsto> ib)) j))"
    have "slots (b\<lparr>pb_items := (pb_items b)(k \<mapsto> ib)\<rparr>) = sum ?g (insert k (dom (pb_items b)))" by (simp add: slots_def)
    also have "\<dots> = ?g k + sum ?g ?D" using assms by (rule sum.insert_remove)
    also have "sum ?g ?D = sum ?f ?D" by (rule sum.cong) auto
    finally show ?thesis by (simp only: fun_upd_same option.sel)
  qed
  moreover have "slots b = (case pb_items b k of None \<Rightarrow> 0 | Some i \<Rightarrow> stacks i) + sum ?f ?D"
  proof (cases "pb_items b k")
    case None
    then have "?D = dom (pb_items b)" by blast
    then show ?thesis using None by (simp add: slots_def)
  next
    case (Some i)
    then have "k \<in> dom (pb_items b)" by blast
    then show ?thesis using Some assms by (simp add: slots_def sum.remove)
  qed
  ultimately show ?thesis by simp
qed

lemma stacks_bound: "0 < m \<Longrightarrow> (t + m - 1) div m \<le> s \<Longrightarrow> (w + t + m - 1) div m \<le> w div m + s + (1 :: nat)"
proof -
  assume m: "0 < m" and s: "(t + m - 1) div m \<le> s"
  have "t + m - 1 < m * (s + 1)" using s m by (metis Suc_eq_plus1 div_less_iff_less_mult less_Suc_eq_le mult.commute)
  then have "w + t + m - 1 \<le> w + (s + 1) * m" by (simp add: algebra_simps)
  then have "(w + t + m - 1) div m \<le> (w + (s + 1) * m) div m" by (rule div_le_mono)
  also have "\<dots> = w div m + s + 1" using m by (simp only: div_mult_self1)
  finally show ?thesis .
qed

lemma unat_plus_u16: "unat (x :: u16) + unat y < 65536 \<Longrightarrow> unat (x + y) = unat x + unat y"
  by (simp add: unat_word_ariths)

lemma try_add_room:
  assumes "plain env (ib_type ib)" "stacks ib \<le> unat (pb_item_size b)" "pb_item_size b \<le> 100" "num \<le> 65000"
    and t: "try_add_pet_item env ib num b = Some (True, ib', c)"
  shows "ib_type ib' = ib_type ib \<and> pb_items c = pb_items b \<and> pb_item_size c \<le> 100 \<and>
    stacks ib' + (unat (pb_item_size b) - stacks ib) \<le> unat (pb_item_size c)"
proof -
  let ?m = "unat (it_max_quantity (ib_type ib))" and ?t = "unat (ib_total ib)" and ?w = "unat (ib_total ib + num)"
  let ?new = "(?w + ?t + ?m - 1) div ?m"
  have m: "0 < ?m" using assms(1) by (simp add: plain_def unat_gt_0)
  have s: "unat (pb_item_size b) \<le> 100" using assms(3) by (simp add: word_le_nat_alt)
  have old: "(?t + ?m - 1) div ?m \<le> 100" using assms(2) s by (simp add: stacks_def)
  have n: "unat num \<le> 65000" using assms(4) by (simp add: word_le_nat_alt)
  have "?w div ?m \<le> 65100"
  proof (cases "?m = 1")
    case True
    then have "?t \<le> 100" using old by simp
    moreover have "?w \<le> ?t + unat num" by (simp add: unat_word_ariths)
    ultimately show ?thesis using True n by simp
  next
    case False
    then have "?m \<ge> 2" using m by linarith
    then have "?w div ?m \<le> ?w div 2" by (rule div_le_mono2 [rotated]) simp
    moreover have "?w < 65536" using unsigned_less [of "ib_total ib + num"] by simp
    ultimately show ?thesis by linarith
  qed
  then have new: "?new \<le> 65201" using stacks_bound [OF m old, of ?w] by linarith
  have sz: "item_size env ib = Some (of_nat (stacks ib))"
    using assms(1) by (auto simp: item_size_def item_slots_def plain_def Let_def stacks_def)
  have szw: "item_size_with env ib (item_count env ib + num) = Some (of_nat ?new)"
    using assms(1) by (auto simp: item_size_with_def item_slots_def item_count_def plain_def Let_def)
  let ?cur = "pb_item_size b - of_nat (stacks ib) + of_nat ?new"
  have st: "unat (of_nat (stacks ib) :: u16) = stacks ib" using assms(2) s by (simp add: unat_of_nat)
  have "unat (pb_item_size b - of_nat (stacks ib)) = unat (pb_item_size b) - stacks ib"
    using assms(2) st by (simp add: unat_sub word_le_nat_alt)
  moreover have "unat (of_nat ?new :: u16) = ?new" using new by (simp add: unat_of_nat)
  ultimately have cur: "unat ?cur = unat (pb_item_size b) - stacks ib + ?new"
    using new s unat_plus_u16 [of "pb_item_size b - of_nat (stacks ib)" "of_nat ?new"] by linarith
  have "ib' = ib\<lparr>ib_total := ib_total ib + num\<rparr>" "c = b\<lparr>pb_item_size := ?cur\<rparr>" "?cur \<le> 100"
    using t unfolding try_add_pet_item_def sz szw by (auto simp: inc_item_def Let_def split: if_splits)
  moreover have "(?w + ?m - 1) div ?m \<le> ?new" by (rule div_le_mono) simp
  ultimately show ?thesis using cur by (simp add: stacks_def)
qed

lemma stacks_in_slots: "finite (dom (pb_items b)) \<Longrightarrow> pb_items b k = Some ib \<Longrightarrow> stacks ib \<le> slots b"
  using member_le_sum [of k "dom (pb_items b)" "\<lambda>k. stacks (the (pb_items b k))"] by (auto simp: slots_def)

lemma items_fit_put:
  assumes f: "items_fit env b" and t: "try_add_pet_item env ib num b = Some (True, ib', b1)"
    and ib: "plain env (ib_type ib)" "num \<le> 65000" "(case pb_items b k of None \<Rightarrow> 0 | Some i \<Rightarrow> stacks i) = stacks ib"
    and c: "pb_items c = (pb_items b1)(k \<mapsto> ib'')" "ib_type ib'' = ib_type ib'" "ib_total ib'' = ib_total ib'"
    "pb_item_size c = pb_item_size b1"
  shows "items_fit env c"
proof -
  note f' = f [unfolded items_fit_def]
  have put: "slots (b\<lparr>pb_items := (pb_items b)(k \<mapsto> ib'')\<rparr>) + stacks ib = slots b + stacks ib''"
    using slots_put [of b k ib''] f' ib(3) by simp
  have "stacks ib \<le> slots b"
    using f' ib(3) stacks_in_slots [of b k] by (cases "pb_items b k") auto
  then have room: "ib_type ib' = ib_type ib" "pb_items b1 = pb_items b" "pb_item_size b1 \<le> 100"
    "stacks ib' + (unat (pb_item_size b) - stacks ib) \<le> unat (pb_item_size b1)"
    using try_add_room [OF ib(1) _ _ ib(2) t] f' by auto
  moreover have "stacks ib'' = stacks ib'" using c(2,3) by (simp add: stacks_def)
  moreover have "slots c = slots (b\<lparr>pb_items := (pb_items b)(k \<mapsto> ib'')\<rparr>)" using c(1) room(2) by (simp add: slots_def)
  moreover have "slots b \<le> unat (pb_item_size b)" using f' by simp
  ultimately have "slots c \<le> unat (pb_item_size c)" using put \<open>stacks ib \<le> slots b\<close> unfolding c(4) by linarith
  then show ?thesis using f' c room(1,2,3) ib(1) by (auto simp: items_fit_def)
qed

lemma stacks_new: "plain env t \<Longrightarrow> stacks \<lparr>ib_type = t, ib_bind = f, ib_total = 0\<rparr> = 0"
  by (auto simp: stacks_def plain_def unat_gt_0)

lemma try_add_same: "try_add_pet_item env ib num b = Some (False, ib', c) \<Longrightarrow> c = b"
  by (auto simp: try_add_pet_item_def inc_item_def bind_eq_Some_conv Let_def split: if_splits)

text \<open>C26: gems put into a bag by no more than 65000 at a time never take more than the 100 places it has, since the places the
  code counts are at least those the gems take.\<close>

theorem pet_items_fit:
  assumes "items_fit env b" "\<And>t. pe_types env ty = Some t \<Longrightarrow> plain env t" "(ucast num :: u16) \<le> 65000"
    "add_pet_item env ty num bound notify from b = Some (r, c)"
  shows "items_fit env c \<and> slots c \<le> 100"
proof -
  have "items_fit env c"
  proof (cases "r = None")
    case True
    then have "c = b" using assms(4)
      by (auto simp: add_pet_item_def bind_eq_Some_conv Let_def split: if_splits option.splits dest: try_add_same)
    then show ?thesis using assms(1) by simp
  next
    case False
    then obtain t where t: "pe_types env ty = Some t" and n: "ty \<noteq> 0" "num \<noteq> 0" "is_pet_item env ty"
      using assms(4) by (auto simp: add_pet_item_def split: if_splits option.splits)
    show ?thesis
    proof (cases "find_pet_item b ty (bind_check t bound)")
      case (Some ib)
      then obtain ib' b1 where p: "try_add_pet_item env ib (ucast num) b = Some (True, ib', b1)"
        "pb_items c = (pb_items b1)((ty, bind_check t bound) \<mapsto> ib')" "pb_item_size c = pb_item_size b1"
        using assms(4) t n False by (auto simp: add_pet_item_def bind_eq_Some_conv Let_def pet_note_def send_item_data_def split: if_splits)
      have "plain env (ib_type ib)" using Some assms(1) by (auto simp: items_fit_def find_pet_item_def)
      then show ?thesis using Some by (intro items_fit_put [OF assms(1) p(1) _ assms(3) _ p(2) refl refl p(3)])
        (auto simp: find_pet_item_def)
    next
      case None
      let ?ib = "\<lparr>ib_type = t, ib_bind = False, ib_total = 0\<rparr>"
      obtain ib' b1 where p: "try_add_pet_item env ?ib (ucast num) b = Some (True, ib', b1)"
        "pb_items c = (pb_items b1)((ty, bind_check t bound) \<mapsto> ib'\<lparr>ib_bind := bind_check t bound\<rparr>)" "pb_item_size c = pb_item_size b1"
        using assms(4) t n False None by (auto simp: add_pet_item_def bind_eq_Some_conv Let_def pet_note_def send_item_data_def split: if_splits)
      then show ?thesis using None assms(2) [OF t] stacks_new [OF assms(2) [OF t]]
        by (intro items_fit_put [OF assms(1) p(1) _ assms(3) _ p(2) _ _ p(3)]) (auto simp: find_pet_item_def)
    qed
  qed
  then show ?thesis by (auto simp: items_fit_def word_le_nat_alt)
qed

text \<open>The room is counted in sixteen bits: 65535 gems that do not stack are put into a bag that holds 50.\<close>

lemma pet_items_overflow:
  "map_option (\<lambda>(r, c). (r, pb_item_size c))
     (add_pet_item calm_pet 101 65535 True False 0 (pet_bag_new\<lparr>pb_item_size := 50\<rparr>)) = Some (Some (101, True), 49)"
  by (simp add: add_pet_item_def calm_pet_def pet_bag_new_def is_pet_item_def find_pet_item_def try_add_pet_item_def item_size_def
      item_size_with_def item_slots_def item_count_def inc_item_def bind_check_def Let_def send_item_data_def pet_note_def)

theorem pet_items_fit_witness:
  "\<exists>r c. add_pet_item calm_pet 101 3 True True 0 pet_bag_new = Some (r, c) \<and> r \<noteq> None \<and> slots c \<le> 100"
proof -
  have "\<exists>c. add_pet_item calm_pet 101 3 True True 0 pet_bag_new = Some (Some (101, True), c)"
    by (simp add: add_pet_item_def calm_pet_def pet_bag_new_def is_pet_item_def find_pet_item_def try_add_pet_item_def item_size_def
      item_size_with_def item_slots_def item_count_def inc_item_def bind_check_def Let_def send_item_data_def pet_note_def)
  then obtain c where c: "add_pet_item calm_pet 101 3 True True 0 pet_bag_new = Some (Some (101, True), c)" ..
  have "items_fit calm_pet pet_bag_new" by (simp add: items_fit_def pet_bag_new_def slots_def)
  from pet_items_fit [OF this _ _ c] show ?thesis using c by (auto simp: plain_def calm_pet_def)
qed

end
