(* ===== verification/PetUse.thy ===== *)
theory PetUse
  imports PetBag
begin

text \<open>
  What happens to the equipment of the pets: how it rises, the loop over what it eats, what a pet puts on, and the
  behaviour at the edges of \<^verbatim>\<open>GObject/PetPackage.cpp\<close>.
\<close>

section \<open>Levels\<close>

text \<open>The loop stops at the first level that needs more experience, or at the highest one.\<close>

lemma level_up_spec:
  assumes "i \<le> pe_max_lev env"
  shows "i \<le> level_up env q e i i \<and> level_up env q e i i \<le> pe_max_lev env \<and>
    (\<forall>j. i \<le> j \<and> j < level_up env q e i i \<longrightarrow> pe_exp_data env j q \<le> e) \<and>
    (level_up env q e i i < pe_max_lev env \<longrightarrow> e < pe_exp_data env (level_up env q e i i) q)"
  using assms
proof (induction "256 - unat i" arbitrary: i rule: less_induct)
  case less
  show ?case
  proof (cases "i < pe_max_lev env \<and> \<not> e < pe_exp_data env i q")
    case True
    then have s: "unat (i + 1) = Suc (unat i)" using u8_suc by blast
    have le: "i + 1 \<le> pe_max_lev env" using True s by (simp add: word_le_nat_alt word_less_nat_alt)
    have step: "level_up env q e i i = level_up env q e (i + 1) (i + 1)" using True by (subst level_up.simps) simp
    have ih: "i + 1 \<le> level_up env q e (i + 1) (i + 1) \<and> level_up env q e (i + 1) (i + 1) \<le> pe_max_lev env \<and>
      (\<forall>j. i + 1 \<le> j \<and> j < level_up env q e (i + 1) (i + 1) \<longrightarrow> pe_exp_data env j q \<le> e) \<and>
      (level_up env q e (i + 1) (i + 1) < pe_max_lev env \<longrightarrow> e < pe_exp_data env (level_up env q e (i + 1) (i + 1)) q)"
      by (rule less.hyps) (use s le unat_u8_less [of i] in auto)
    have "i + 1 \<le> j \<or> j = i" if "i \<le> j" for j
      using that s by (auto simp: word_le_nat_alt word_unat_eq_iff)
    moreover have "i \<le> level_up env q e (i + 1) (i + 1)" using ih s by (simp add: word_le_nat_alt)
    ultimately show ?thesis unfolding step using ih True by (metis not_less)
  next
    case False
    then have "level_up env q e i i = i" by (subst level_up.simps) auto
    then show ?thesis using less.prems False by auto
  qed
qed

text \<open>An equipment that eats another gains its experience and rises exactly to the first level that needs more than it
  has, at most to the highest; the result tells whether that was reached.\<close>

theorem upgrade_level:
  assumes "pb_heap b a = Some e" "pb_heap b x = Some f" "pa_lv (pq_attr e) < pe_max_lev env"
    "q = int (unat (it_quality (pq_type e))) - 2" "pe_exp_data env (pa_lv (pq_attr e)) q \<noteq> 0"
  shows "\<exists>r lv. let ex = pa_exp (pq_attr e) + (it_trump_exp (pq_type f) + pa_exp (pq_attr f)) in
    upgrade env a x b = Some (r, b\<lparr>pb_heap := (pb_heap b)(a \<mapsto> e\<lparr>pq_attr := (pq_attr e)\<lparr>pa_exp := ex, pa_lv := lv\<rparr>\<rparr>)\<rparr>) \<and>
    pa_lv (pq_attr e) \<le> lv \<and> lv \<le> pe_max_lev env \<and> r = (if lv = pe_max_lev env then 1 else pq_id f) \<and>
    (\<forall>j. pa_lv (pq_attr e) \<le> j \<and> j < lv \<longrightarrow> pe_exp_data env j q \<le> ex) \<and>
    (lv < pe_max_lev env \<longrightarrow> ex < pe_exp_data env lv q)"
proof -
  let ?lv = "pa_lv (pq_attr e)" and ?ex = "pa_exp (pq_attr e) + (it_trump_exp (pq_type f) + pa_exp (pq_attr f))"
  let ?l = "if ?ex \<ge> pe_exp_data env ?lv q then level_up env q ?ex ?lv ?lv else ?lv"
  have "?lv \<le> pe_max_lev env" using assms(3) by simp
  note spec = level_up_spec [OF this, of q ?ex]
  show ?thesis
  proof (cases "?ex \<ge> pe_exp_data env ?lv q")
    case True
    let ?l = "level_up env q ?ex ?lv ?lv"
    have "upgrade env a x b = Some (if ?l = pe_max_lev env then 1 else pq_id f,
        b\<lparr>pb_heap := (pb_heap b)(a \<mapsto> e\<lparr>pq_attr := (pq_attr e)\<lparr>pa_exp := ?ex, pa_lv := ?l\<rparr>\<rparr>)\<rparr>)"
      using assms spec True by (auto simp: upgrade_def Let_def)
    then show ?thesis using spec unfolding Let_def by blast
  next
    case False
    have "upgrade env a x b = Some (pq_id f,
        b\<lparr>pb_heap := (pb_heap b)(a \<mapsto> e\<lparr>pq_attr := (pq_attr e)\<lparr>pa_exp := ?ex, pa_lv := ?lv\<rparr>\<rparr>)\<rparr>)"
      using assms False by (simp add: upgrade_def Let_def)
    then show ?thesis using assms(3) False less_imp_neq [OF assms(3)] unfolding Let_def
      by (intro exI [of _ "pq_id f"] exI [of _ ?lv]) (auto simp: not_le intro: less_imp_le dest: leD)
  qed
qed

definition calm_eq :: "u64 \<Rightarrow> pet_eq" where
  "calm_eq i = \<lparr>pq_id = i, pq_type = the (pe_types calm_pet 180), pq_bind = True,
     pq_attr = \<lparr>pa_lv = 0, pa_exp = 0, pa_skill = 501, pa_gems = [0, 0, 0, 0]\<rparr>\<rparr>"

definition worn_bag :: pet_bag where
  "worn_bag = pet_bag_new\<lparr>pb_heap := [9 \<mapsto> calm_eq 4, 1 \<mapsto> calm_eq 7], pb_equips := [(7, True) \<mapsto> 1], pb_equip_size := 1\<rparr>"

theorem upgrade_level_witness:
  "\<exists>lv. fst (the (upgrade calm_pet 9 1 worn_bag)) = (if lv = 20 then 1 else 7) \<and> lv \<le> (20 :: u8)"
proof -
  have h: "pb_heap worn_bag 9 = Some (calm_eq 4)" "pb_heap worn_bag 1 = Some (calm_eq 7)" by (simp_all add: worn_bag_def)
  have "pa_lv (pq_attr (calm_eq 4)) < pe_max_lev calm_pet" "pe_exp_data calm_pet (pa_lv (pq_attr (calm_eq 4))) 1 \<noteq> 0"
    "1 = int (unat (it_quality (pq_type (calm_eq 4)))) - 2"
    by (simp_all add: calm_eq_def calm_pet_def)
  from upgrade_level [OF h this(1,3,2)] show ?thesis by (auto simp: Let_def calm_pet_def calm_eq_def)
qed

section \<open>The loop over what is eaten\<close>

text \<open>The equipment that eats is none of the bag's, and the bag's are different objects.\<close>

definition apart :: "nat \<Rightarrow> pet_bag \<Rightarrow> bool" where
  "apart a b \<longleftrightarrow> pb_heap b a \<noteq> None \<and> (\<forall>k x. pb_equips b k = Some x \<longrightarrow> pb_heap b x \<noteq> None \<and> x \<noteq> a) \<and>
     inj_on (pb_equips b) (dom (pb_equips b))"

lemma apart_live: "apart a b \<Longrightarrow> pb_equips b k = Some x \<Longrightarrow> \<exists>f. pb_heap b x = Some f"
  unfolding apart_def by blast

lemma apart_upgrade:
  assumes "apart a b" "pb_heap b x \<noteq> None"
  shows "\<exists>r c. upgrade env a x b = Some (r, c) \<and> apart a c"
proof -
  obtain e f where "pb_heap b a = Some e" "pb_heap b x = Some f" using assms by (auto simp: apart_def)
  then show ?thesis using assms(1) by (auto simp: upgrade_def Let_def apart_def)
qed

lemma apart_del:
  assumes "apart a b"
  shows "\<exists>ok c. del_pet_equip env i b = Some (ok, c) \<and> apart a c"
proof (cases "pb_equips b (i, pe_key_bind env)")
  case None
  then show ?thesis using assms by (auto simp: del_pet_equip_def)
next
  case (Some x)
  let ?k = "(i, pe_key_bind env)"
  obtain f where f: "pb_heap b x = Some f" using apart_live [OF assms Some] by blast
  then obtain c where c: "del_pet_equip env i b = Some (True, c)" "pb_equips c = (pb_equips b)(?k := None)"
    "pb_heap c = (pb_heap b)(x := None)"
    using Some by (simp add: del_pet_equip_def send_single_def drop_equip_def pet_note_def)
  have "y \<noteq> x" if "pb_equips b k = Some y" "k \<noteq> ?k" for k y
    using that Some assms unfolding apart_def inj_on_def by (metis domI)
  moreover have "inj_on (pb_equips c) (dom (pb_equips c))"
    using assms unfolding apart_def c(2) inj_on_def by auto
  moreover have "x \<noteq> a" using Some assms by (auto simp: apart_def)
  ultimately show ?thesis using assms c unfolding apart_def by (auto split: if_splits)
qed

lemma eat_loop_ends:
  "apart a b \<Longrightarrow> length xs \<le> 255 \<Longrightarrow> \<exists>c. eat_loop env a xs i b = Some c \<and> apart a c"
proof (induction "256 - unat i" arbitrary: i b rule: less_induct)
  case less
  show ?case
  proof (cases "unat i < length xs")
    case True
    then have "Suc (unat i) < 256" using less.prems(2) by linarith
    then have s: "unat (i + 1) = Suc (unat i)" using unat_of_nat_u8 [of "Suc (unat i)"] by (simp add: add.commute)
    have go: "\<exists>c. eat_loop env a xs (i + 1) b' = Some c \<and> apart a c" if "apart a b'" for b'
      by (rule less.hyps) (use that less.prems(2) s \<open>Suc (unat i) < 256\<close> in auto)
    show ?thesis
    proof (cases "find_bag_equip b (ucast (xs ! unat i)) True")
      case None
      then show ?thesis using True go [OF less.prems(1)] by (subst eat_loop.simps) simp
    next
      case (Some x)
      then obtain f where f: "pb_heap b x = Some f" using apart_live [OF less.prems(1)] unfolding find_bag_equip_def by blast
      obtain r c where u: "upgrade env a x b = Some (r, c)" "apart a c" using apart_upgrade [OF less.prems(1)] f by blast
      obtain ok d where d: "del_pet_equip env (xs ! unat i) c = Some (ok, d)" "apart a d" using apart_del [OF u(2)] by blast
      show ?thesis using True Some f u d go [OF less.prems(1)] go [OF u(2)] go [OF d(2)]
        by (subst eat_loop.simps) simp
    qed
  next
    case False
    then show ?thesis using less.prems(1) by (subst eat_loop.simps) simp
  qed
qed

lemma eat_loop_endless:
  assumes "length xs > 255" "\<forall>x \<in> set xs. pb_equips b (ucast (ucast x :: u32), True) = None"
  shows "eat_loop env a xs i b = None"
proof (rule ccontr)
  assume "eat_loop env a xs i b \<noteq> None"
  then obtain c where c: "eat_loop env a xs i b = Some c" by blast
  have "length xs > 255 \<longrightarrow> (\<forall>x \<in> set xs. pb_equips b (ucast (ucast x :: u32), True) = None) \<longrightarrow> False"
  proof (rule eat_loop.raw_induct [where P = "\<lambda>e a xs i b c. length xs > 255 \<longrightarrow>
      (\<forall>x \<in> set xs. pb_equips b (ucast (ucast x :: u32), True) = None) \<longrightarrow> False", OF _ c])
    fix loop :: "pet_env \<Rightarrow> nat \<Rightarrow> u64 list \<Rightarrow> u8 \<Rightarrow> pet_bag \<Rightarrow> pet_bag option" and e a xs i b c
    assume ih: "\<And>e a xs i b y. loop e a xs i b = Some y \<Longrightarrow> length xs > 255 \<longrightarrow>
      (\<forall>x \<in> set xs. pb_equips b (ucast (ucast x :: u32), True) = None) \<longrightarrow> False"
    assume body: "(if unat i < length xs then case find_bag_equip b (ucast (xs ! unat i)) True of
        None \<Rightarrow> loop e a xs (i + 1) b
      | Some x \<Rightarrow> pb_heap b x \<bind> (\<lambda>f. if has_gem e f then loop e a xs (i + 1) b
          else upgrade e a x b \<bind> (\<lambda>(r, b1). if (ucast r :: u32) > 0
            then del_pet_equip e (xs ! unat i) b1 \<bind> (\<lambda>(_, b2). if (ucast r :: u32) = 1 then Some b2 else loop e a xs (i + 1) b2)
            else loop e a xs (i + 1) b1)) else Some b) = Some c"
    show "length xs > 255 \<longrightarrow> (\<forall>x \<in> set xs. pb_equips b (ucast (ucast x :: u32), True) = None) \<longrightarrow> False"
    proof (intro impI)
      assume l: "length xs > 255" and n: "\<forall>x \<in> set xs. pb_equips b (ucast (ucast x :: u32), True) = None"
      have i: "unat i < length xs" using l unat_u8_less [of i] by linarith
      then have "find_bag_equip b (ucast (xs ! unat i)) True = None" using n by (simp add: find_bag_equip_def)
      then have "loop e a xs (i + 1) b = Some c" using body i by simp
      then show False using ih l n by blast
    qed
  qed
  then show False using assms by blast
qed

text \<open>Raising an equipment with at most 255 pieces of the bag returns.\<close>

theorem equip_upgrade_ends:
  assumes "find_pet_equip env (ucast petId) i b = ((pet, pos, Some a), b0)" "apart a b0" "length xs \<le> 255"
  shows "\<exists>r c. equip_upgrade env petId i xs b = Some (r, c) \<and> apart a c"
proof -
  obtain e where e: "pb_heap b0 a = Some e" using assms(2) by (auto simp: apart_def)
  obtain b1 where b1: "eat_loop env a xs 0 b0 = Some b1" "apart a b1" using eat_loop_ends [OF assms(2,3)] by blast
  have raise: "\<exists>b2. raise_skill env pet a b1 = Some b2 \<and> apart a b2"
    using b1(2) by (auto simp: raise_skill_def apart_def pet_note_def Let_def split: option.splits)
  then obtain b2 where b2: "raise_skill env pet a b1 = Some b2" "apart a b2" by blast
  then obtain e' where e': "pb_heap b2 a = Some e'" by (auto simp: apart_def)
  have "\<exists>b3. tell_changed pet a pos (pet_note [AttrRow i (pq_attr e')] b2) = Some b3 \<and> apart a b3"
    using b2(2) e' by (auto simp: tell_changed_def send_single_def pet_note_def apart_def split: option.splits)
  then show ?thesis using assms e b1 b2 e' by (auto simp: equip_upgrade_def)
qed

text \<open>With more than 255 identifiers, none of them in the bag, the loop does not end: its counter has eight bits.\<close>

theorem equip_upgrade_endless:
  assumes "find_pet_equip env (ucast petId) i b = ((pet, pos, Some a), b0)" "pb_heap b0 a = Some e"
    "pa_lv (pq_attr e) < pe_max_lev env" "length xs > 255"
    "\<forall>x \<in> set xs. pb_equips b0 (ucast (ucast x :: u32), True) = None"
  shows "equip_upgrade env petId i xs b = None"
  using assms eat_loop_endless [OF assms(4,5)] by (simp add: equip_upgrade_def)

lemma worn_find: "find_pet_equip calm_pet (ucast (5 :: u32)) 4 worn_bag =
    ((Some 5, 2, Some 9), pet_note [TimeChecked 5] worn_bag)"
  by (simp add: find_pet_equip_def calm_pet_def)

theorem equip_upgrade_ends_witness:
  "equip_upgrade calm_pet 5 4 [7, 7] worn_bag \<noteq> None"
proof -
  have "apart 9 (pet_note [TimeChecked 5] worn_bag)"
    by (auto simp: apart_def worn_bag_def pet_note_def inj_on_def split: if_splits)
  from equip_upgrade_ends [OF worn_find this, of "[7, 7]"] show ?thesis by auto
qed

theorem equip_upgrade_endless_witness:
  "equip_upgrade calm_pet 5 4 (replicate 256 3) worn_bag = None"
  by (rule equip_upgrade_endless [OF worn_find]) (auto simp: worn_bag_def pet_note_def calm_eq_def calm_pet_def)

text \<open>\<^verbatim>\<open>FindPetEquip\<close> hands the number of the pet, not that of the equipment, to the search of the bag, and the number of
  the pet is 0 there: what is in the bag can neither be raised nor stripped of a gem.\<close>

theorem bag_equipment_unreachable:
  assumes "pb_equips b (0, True) = None" "gem_rest b \<noteq> 0"
  shows "equip_upgrade env 0 i xs b = Some (0, b) \<and> detach_pet_gem env 0 i gemPos b = Some (0, b)"
  using assms by (simp add: equip_upgrade_def detach_pet_gem_def find_pet_equip_def find_bag_equip_def)

theorem bag_equipment_unreachable_witness:
  "equip_upgrade calm_pet 0 7 [] worn_bag = Some (0, worn_bag) \<and> pb_equips worn_bag (7, True) = Some 1"
  using bag_equipment_unreachable [of worn_bag calm_pet 7 "[]" 0]
  by (simp add: worn_bag_def gem_rest_def pet_bag_new_def)

text \<open>A pet that puts on an equipment of the bag gives back the one it wore: the bag has the old one in place of the new one,
  and only that has changed; when the pet refuses, the bag keeps what it had.\<close>

theorem equip_to_swaps:
  assumes "pb_equips b (i, pe_key_bind env) = Some a" "i \<noteq> 0" "pos \<le> pe_up_max env" "pb_heap b a \<noteq> None"
    "pe_set_equip env (pb_calls b) p (Some a) pos = (old, pos')"
    "\<And>o'. old = Some o' \<Longrightarrow> pb_heap b o' = Some eo"
  shows "\<exists>c. equip_to env i (Some p) pos b = Some (pos' \<noteq> 0xFF, pos', c) \<and> pb_heap c = pb_heap b \<and>
    pb_equips c = (if pos' = 0xFF then pb_equips b
      else case old of None \<Rightarrow> (pb_equips b)((i, pe_key_bind env) := None)
        | Some o' \<Rightarrow> (pb_equips b)((i, pe_key_bind env) := None, (pq_id eo, pe_key_bind env) \<mapsto> o'))"
  using assms
  by (cases old) (auto simp: equip_to_def set_equip_def Let_def send_single_def take_off_def add_exist_equip_def put_equip_def
      drop_equip_def pet_note_def split: if_splits)

theorem equip_to_swaps_witness:
  "\<exists>c. equip_to calm_pet 7 (Some 5) 2 worn_bag = Some (True, 2, c) \<and> pb_equips c = [(4, True) \<mapsto> 9]"
proof -
  obtain c where "equip_to calm_pet 7 (Some 5) 2 worn_bag = Some (True, 2, c)"
    "pb_equips c = (pb_equips worn_bag)((7, True) := None, (4, True) \<mapsto> 9)"
    using equip_to_swaps [of worn_bag 7 calm_pet 1 2 5 "Some 9" 2 "calm_eq 4"]
    by (auto simp: worn_bag_def calm_pet_def calm_eq_def)
  then show ?thesis by (simp add: worn_bag_def pet_bag_new_def)
qed

lemma color_idx_range: "color_idx env s g b = (i, c) \<Longrightarrow> i \<le> 6 \<and> (c = b \<or> c = pet_note [DrawRandom] b)"
  by (auto simp: color_idx_def draw_below_def Let_def split: if_splits)

text \<open>Whatever the score is, the gem given is one of level 0, since the test of \<^verbatim>\<open>AddRandomPetGem\<close> assigns.\<close>

theorem random_gem_level:
  assumes "gem_rest b \<noteq> 0" "lv \<le> 6"
  shows "\<exists>c. (c = b \<or> c = pet_note [DrawRandom] b) \<and>
    add_random_pet_gem env score lv b = add_pet_item env (pe_gem_by_lev env 0) 1 True True from_bbft c"
proof (cases "score = 0")
  case False
  obtain i c where "color_idx env score True b = (i, c)" by (cases "color_idx env score True b")
  with color_idx_range [OF this] show ?thesis using assms(1) False by (auto simp: add_random_pet_gem_def)
qed (use assms in \<open>auto simp: add_random_pet_gem_def\<close>)

theorem random_gem_level_witness:
  "add_random_pet_gem calm_pet 0 5 pet_bag_new = add_random_pet_gem calm_pet 0 (-1) pet_bag_new"
proof -
  have "gem_rest pet_bag_new \<noteq> 0" by (simp add: gem_rest_def pet_bag_new_def)
  from random_gem_level [OF this, of 5 calm_pet 0] show ?thesis
    by (simp add: add_random_pet_gem_def gem_rest_def pet_bag_new_def)
qed

end
