(* ===== verification/NodeList.thy ===== *)
theory NodeList
  imports Prelude
begin

text \<open>
  The lists of \<^verbatim>\<open>Common/Node.h\<close>: macros for lists whose links are in the elements, and for a stack of free nodes.

  A link of a doubly linked list points back to the pointer that leads to the element, which is the head's or a
  link of the element before, so memory is read through slots: \<open>First h\<close> is the head's pointer, \<open>NextOf x\<close> that of the
  element \<open>x\<close>.  A list is represented by the sequence of its elements' addresses; the macros are shown to be
  the operations on sequences, and to leave every other list of the same memory alone.
\<close>

section \<open>Memory\<close>

datatype node_slot = First nat | NextOf nat

record node_mem =
  nm_cell :: "node_slot \<Rightarrow> nat option"
  nm_prev :: "nat \<Rightarrow> node_slot"
  nm_last :: "nat \<Rightarrow> node_slot"
  nm_user :: "nat \<Rightarrow> nat option"

definition set_cell :: "node_slot \<Rightarrow> nat option \<Rightarrow> node_mem \<Rightarrow> node_mem" where
  "set_cell p v s = s\<lparr>nm_cell := (nm_cell s)(p := v)\<rparr>"

definition set_prev :: "nat \<Rightarrow> node_slot \<Rightarrow> node_mem \<Rightarrow> node_mem" where
  "set_prev x p s = s\<lparr>nm_prev := (nm_prev s)(x := p)\<rparr>"

definition set_last :: "nat \<Rightarrow> node_slot \<Rightarrow> node_mem \<Rightarrow> node_mem" where
  "set_last h p s = s\<lparr>nm_last := (nm_last s)(h := p)\<rparr>"

lemma set_reads [simp]:
  "nm_cell (set_cell p v s) = (nm_cell s)(p := v)" "nm_prev (set_cell p v s) = nm_prev s" "nm_last (set_cell p v s) = nm_last s"
  "nm_cell (set_prev x p s) = nm_cell s" "nm_prev (set_prev x p s) = (nm_prev s)(x := p)" "nm_last (set_prev x p s) = nm_last s"
  "nm_cell (set_last h p s) = nm_cell s" "nm_prev (set_last h p s) = nm_prev s" "nm_last (set_last h p s) = (nm_last s)(h := p)"
  "nm_user (set_cell p v s) = nm_user s" "nm_user (set_prev x p s) = nm_user s" "nm_user (set_last h p s) = nm_user s"
  by (simp_all add: set_cell_def set_prev_def set_last_def)

section \<open>The macros\<close>

subsection \<open>Singly linked lists\<close>

definition list_first :: "nat \<Rightarrow> node_mem \<Rightarrow> nat option" where "list_first h s = nm_cell s (First h)"
definition list_next :: "nat \<Rightarrow> node_mem \<Rightarrow> nat option" where "list_next x s = nm_cell s (NextOf x)"
definition list_empty :: "nat \<Rightarrow> node_mem \<Rightarrow> bool" where "list_empty h s \<longleftrightarrow> list_first h s = None"

definition list_init :: "nat \<Rightarrow> node_mem \<Rightarrow> node_mem" where
  "list_init h s = (set_cell (First h) None s)\<lparr>nm_user := (nm_user s)(h := None)\<rparr>"

definition list_insert_after :: "nat \<Rightarrow> nat \<Rightarrow> node_mem \<Rightarrow> node_mem" where
  "list_insert_after l e s = (let s1 = set_cell (NextOf e) (nm_cell s (NextOf l)) s in set_cell (NextOf l) (Some e) s1)"

definition list_insert_head :: "nat \<Rightarrow> nat \<Rightarrow> node_mem \<Rightarrow> node_mem" where
  "list_insert_head h e s = (let s1 = set_cell (NextOf e) (nm_cell s (First h)) s in set_cell (First h) (Some e) s1)"

text \<open>\<open>None\<close>: the head of an empty list is a null pointer.\<close>

definition list_remove_head :: "nat \<Rightarrow> node_mem \<Rightarrow> node_mem option" where
  "list_remove_head h s = do { x \<leftarrow> nm_cell s (First h); Some (set_cell (First h) (nm_cell s (NextOf x)) s) }"

text \<open>\<^verbatim>\<open>INET_LIST_FOREACH\<close>: the elements in the order in which the body sees them.\<close>

partial_function (option) walk :: "node_mem \<Rightarrow> nat option \<Rightarrow> nat list option" where
  "walk s v = (case v of None \<Rightarrow> Some [] | Some x \<Rightarrow> do { xs \<leftarrow> walk s (list_next x s); Some (x # xs) })"

definition foreach :: "nat \<Rightarrow> node_mem \<Rightarrow> nat list option" where
  "foreach h s = walk s (list_first h s)"

subsection \<open>Doubly linked lists\<close>

definition dlist_init :: "nat \<Rightarrow> node_mem \<Rightarrow> node_mem" where
  "dlist_init h s = set_last h (First h) (set_cell (First h) None s)"

definition dlist_insert_head :: "nat \<Rightarrow> nat \<Rightarrow> node_mem \<Rightarrow> node_mem" where
  "dlist_insert_head h e s =
     (let s1 = set_cell (NextOf e) (nm_cell s (First h)) s;
          s2 = (case nm_cell s1 (NextOf e) of Some n \<Rightarrow> set_prev n (NextOf e) s1 | None \<Rightarrow> set_last h (NextOf e) s1);
          s3 = set_cell (First h) (Some e) s2
      in set_prev e (First h) s3)"

definition dlist_insert_tail :: "nat \<Rightarrow> nat \<Rightarrow> node_mem \<Rightarrow> node_mem" where
  "dlist_insert_tail h e s =
     (let s1 = set_cell (NextOf e) None s;
          s2 = set_prev e (nm_last s1 h) s1;
          s3 = set_cell (nm_last s2 h) (Some e) s2
      in set_last h (NextOf e) s3)"

definition dlist_insert_after :: "nat \<Rightarrow> nat \<Rightarrow> nat \<Rightarrow> node_mem \<Rightarrow> node_mem" where
  "dlist_insert_after h l e s =
     (let s1 = set_cell (NextOf e) (nm_cell s (NextOf l)) s;
          s2 = (case nm_cell s1 (NextOf e) of Some n \<Rightarrow> set_prev n (NextOf e) s1 | None \<Rightarrow> set_last h (NextOf e) s1);
          s3 = set_cell (NextOf l) (Some e) s2
      in set_prev e (NextOf l) s3)"

definition dlist_insert_before :: "nat \<Rightarrow> nat \<Rightarrow> node_mem \<Rightarrow> node_mem" where
  "dlist_insert_before l e s =
     (let s1 = set_prev e (nm_prev s l) s;
          s2 = set_cell (NextOf e) (Some l) s1;
          s3 = set_cell (nm_prev s2 l) (Some e) s2
      in set_prev l (NextOf e) s3)"

definition dlist_remove :: "nat \<Rightarrow> nat \<Rightarrow> node_mem \<Rightarrow> node_mem" where
  "dlist_remove h e s =
     (let s1 = (case nm_cell s (NextOf e) of Some n \<Rightarrow> set_prev n (nm_prev s e) s | None \<Rightarrow> set_last h (nm_prev s e) s)
      in set_cell (nm_prev s1 e) (nm_cell s1 (NextOf e)) s1)"

text \<open>\<^verbatim>\<open>LAST\<close> and \<^verbatim>\<open>PREV\<close> read the link a slot lies in as if it were a head, whose second member is \<open>m_Last\<close>
  in a head and \<open>m_Prev\<close> in a link.\<close>

definition second :: "node_mem \<Rightarrow> node_slot \<Rightarrow> node_slot" where
  "second s p = (case p of First h \<Rightarrow> nm_last s h | NextOf x \<Rightarrow> nm_prev s x)"

definition dlist_last :: "nat \<Rightarrow> node_mem \<Rightarrow> nat option" where
  "dlist_last h s = nm_cell s (second s (nm_last s h))"

definition dlist_prev :: "nat \<Rightarrow> node_mem \<Rightarrow> nat option" where
  "dlist_prev x s = nm_cell s (second s (nm_prev s x))"

subsection \<open>Free nodes\<close>

record free_list =
  fl_size :: u32
  fl_count :: u32
  fl_nodes :: "nat option list"

definition free_list_init :: "u32 \<Rightarrow> free_list \<Rightarrow> free_list" where
  "free_list_init n f = f\<lparr>fl_size := n, fl_count := 0\<rparr>"

definition free_list_push :: "nat option \<Rightarrow> free_list \<Rightarrow> (nat option \<times> free_list) option" where
  "free_list_push x f =
     (if fl_count f = fl_size f then Some (None, f)
      else do { ns \<leftarrow> upd_opt (fl_nodes f) (unat (fl_count f)) x;
                Some (x, f\<lparr>fl_nodes := ns, fl_count := fl_count f + 1\<rparr>) })"

definition free_list_pop :: "free_list \<Rightarrow> (nat option \<times> free_list) option" where
  "free_list_pop f =
     (if fl_count f = 0 then Some (None, f)
      else let c = fl_count f - 1 in do { x \<leftarrow> nth_opt (fl_nodes f) (unat c); Some (x, f\<lparr>fl_count := c\<rparr>) })"

definition free_list_empty :: "free_list \<Rightarrow> bool" where
  "free_list_empty f \<longleftrightarrow> fl_count f = 0"

section \<open>What a list represents\<close>

fun path :: "node_mem \<Rightarrow> node_slot \<Rightarrow> nat list \<Rightarrow> bool" where
  "path s p [] \<longleftrightarrow> True"
| "path s p (x # xs) \<longleftrightarrow> nm_cell s p = Some x \<and> path s (NextOf x) xs"

fun links :: "node_mem \<Rightarrow> node_slot \<Rightarrow> nat list \<Rightarrow> bool" where
  "links s p [] \<longleftrightarrow> True"
| "links s p (x # xs) \<longleftrightarrow> nm_prev s x = p \<and> links s (NextOf x) xs"

fun end_slot :: "node_slot \<Rightarrow> nat list \<Rightarrow> node_slot" where
  "end_slot p [] = p"
| "end_slot p (x # xs) = end_slot (NextOf x) xs"

text \<open>The slots that lead to the elements.\<close>

fun slots_to :: "node_slot \<Rightarrow> nat list \<Rightarrow> node_slot set" where
  "slots_to p [] = {}"
| "slots_to p (x # xs) = insert p (slots_to (NextOf x) xs)"

definition slist :: "node_mem \<Rightarrow> nat \<Rightarrow> nat list \<Rightarrow> bool" where
  "slist s h xs \<longleftrightarrow> path s (First h) xs \<and> nm_cell s (end_slot (First h) xs) = None \<and> distinct xs"

definition dlist :: "node_mem \<Rightarrow> nat \<Rightarrow> nat list \<Rightarrow> bool" where
  "dlist s h xs \<longleftrightarrow> slist s h xs \<and> links s (First h) xs \<and> nm_last s h = end_slot (First h) xs"

lemma path_append: "path s p (xs @ ys) \<longleftrightarrow> path s p xs \<and> path s (end_slot p xs) ys"
  by (induction xs arbitrary: p) auto

lemma links_append: "links s p (xs @ ys) \<longleftrightarrow> links s p xs \<and> links s (end_slot p xs) ys"
  by (induction xs arbitrary: p) auto

lemma end_slot_append [simp]: "end_slot p (xs @ ys) = end_slot (end_slot p xs) ys"
  by (induction xs arbitrary: p) auto

lemma end_slot_cases: "end_slot p xs = p \<and> xs = [] \<or> (\<exists>x \<in> set xs. end_slot p xs = NextOf x)"
proof (induction xs arbitrary: p)
  case (Cons x xs)
  from Cons.IH [of "NextOf x"] show ?case by auto
qed simp

lemma slots_to_sub: "slots_to p xs \<subseteq> insert p (NextOf ` set xs)"
  by (induction xs arbitrary: p) auto

lemma path_cong: "(\<And>q. q \<in> slots_to p xs \<Longrightarrow> nm_cell t q = nm_cell s q) \<Longrightarrow> path t p xs = path s p xs"
  by (induction xs arbitrary: p) auto

lemma links_cong: "(\<And>x. x \<in> set xs \<Longrightarrow> nm_prev t x = nm_prev s x) \<Longrightarrow> links t p xs = links s p xs"
  by (induction xs arbitrary: p) auto

text \<open>The slot behind the last element leads to none of them.\<close>

lemma end_not_leading: "distinct xs \<Longrightarrow> p \<notin> NextOf ` set xs \<Longrightarrow> end_slot p xs \<notin> slots_to p xs"
proof (induction xs arbitrary: p)
  case (Cons x xs)
  have "end_slot (NextOf x) xs \<notin> slots_to (NextOf x) xs" using Cons by auto
  moreover have "end_slot (NextOf x) xs \<noteq> p" using end_slot_cases [of "NextOf x" xs] Cons.prems by auto
  ultimately show ?case by simp
qed simp

text \<open>Every insertion puts an element between the slot \<open>p\<close> and what it leads to.\<close>

definition splice :: "nat \<Rightarrow> node_slot \<Rightarrow> nat \<Rightarrow> node_mem \<Rightarrow> node_mem" where
  "splice h p e s =
     (let s1 = set_cell p (Some e) (set_cell (NextOf e) (nm_cell s p) s);
          s2 = (case nm_cell s p of Some n \<Rightarrow> set_prev n (NextOf e) s1 | None \<Rightarrow> set_last h (NextOf e) s1)
      in set_prev e p s2)"

lemma slist_splice:
  assumes "slist s h (as @ bs)" "e \<notin> set (as @ bs)" "p = end_slot (First h) as"
    and t: "nm_cell t = (nm_cell s)(NextOf e := nm_cell s p, p := Some e)"
  shows "slist t h (as @ e # bs)"
proof -
  have d: "distinct (as @ bs)" "path s (First h) as" "path s p bs" "nm_cell s (end_slot p bs) = None"
    using assms(1,3) by (simp_all add: slist_def path_append)
  have pe: "p \<noteq> NextOf e" using assms(2,3) end_slot_cases [of "First h" as] by auto
  have as: "path t (First h) as"
  proof -
    have "q \<noteq> p \<and> q \<noteq> NextOf e" if "q \<in> slots_to (First h) as" for q
      using that end_not_leading [of as "First h"] d(1) assms(2,3) slots_to_sub [of "First h" as] by auto
    then show ?thesis using path_cong [of "First h" as t s] t d(2) by simp
  qed
  have "nm_cell t (NextOf e) = nm_cell s p" using pe t by simp
  have tail: "path t (NextOf e) bs \<and> nm_cell t (end_slot (NextOf e) bs) = None"
  proof (cases bs)
    case Nil
    then show ?thesis using d(4) \<open>nm_cell t (NextOf e) = _\<close> by simp
  next
    case (Cons y ys)
    have out: "q \<noteq> p \<and> q \<noteq> NextOf e" if "q \<in> NextOf ` set bs" for q
      using that assms(2,3) d(1) end_slot_cases [of "First h" as] by auto
    have "q \<noteq> p \<and> q \<noteq> NextOf e" if "q \<in> slots_to (NextOf y) ys" for q
      using that out slots_to_sub [of "NextOf y" ys] Cons by auto
    then have "path t (NextOf y) ys = path s (NextOf y) ys" using path_cong [of "NextOf y" ys t s] t by simp
    moreover have "end_slot (NextOf y) ys \<in> NextOf ` set bs" using end_slot_cases [of "NextOf y" ys] Cons by auto
    then have "nm_cell t (end_slot (NextOf y) ys) = nm_cell s (end_slot (NextOf y) ys)" using out t by auto
    ultimately show ?thesis using Cons d(3,4) \<open>nm_cell t (NextOf e) = _\<close> by simp
  qed
  show ?thesis using d(1) as tail t assms(2,3) by (auto simp: slist_def path_append)
qed

lemma dlist_splice:
  assumes "dlist s h (as @ bs)" "e \<notin> set (as @ bs)" "p = end_slot (First h) as"
  shows "dlist (splice h p e s) h (as @ e # bs)"
proof -
  let ?t = "splice h p e s"
  have d: "distinct (as @ bs)" "links s (First h) as" "links s p bs" "nm_last s h = end_slot p bs" "path s p bs"
    "nm_cell s (end_slot p bs) = None"
    using assms(1,3) by (simp_all add: dlist_def slist_def links_append path_append)
  have c: "nm_cell ?t = (nm_cell s)(NextOf e := nm_cell s p, p := Some e)"
    using end_slot_cases [of "First h" as] assms(2,3)
    by (auto simp: splice_def Let_def split: option.splits)
  have s: "slist ?t h (as @ e # bs)" using slist_splice [OF _ assms(2,3) c] assms(1) by (simp add: dlist_def)
  have "links ?t (First h) (as @ e # bs) \<and> nm_last ?t h = end_slot (First h) (as @ e # bs)"
  proof (cases bs)
    case Nil
    then have v: "nm_cell s p = None" using d(6) by simp
    have "links ?t (First h) as = links s (First h) as"
      by (rule links_cong) (use assms(2) v in \<open>auto simp: splice_def Let_def\<close>)
    then show ?thesis using Nil d v assms(3) by (simp add: splice_def Let_def links_append)
  next
    case (Cons y ys)
    then have v: "nm_cell s p = Some y" using d(5) by simp
    have "links ?t (First h) as = links s (First h) as"
      by (rule links_cong) (use assms(2) v d(1) Cons in \<open>auto simp: splice_def Let_def\<close>)
    moreover have "links ?t (NextOf y) ys = links s (NextOf y) ys"
      by (rule links_cong) (use assms(2) v d(1) Cons in \<open>auto simp: splice_def Let_def\<close>)
    ultimately show ?thesis using Cons d v assms(2,3) by (auto simp: splice_def Let_def links_append)
  qed
  then show ?thesis using s by (simp add: dlist_def)
qed

lemma dlist_remove_rep:
  assumes "dlist s h (as @ e # bs)"
  shows "dlist (dlist_remove h e s) h (as @ bs)"
proof -
  let ?t = "dlist_remove h e s" and ?p = "end_slot (First h) as"
  have d: "distinct (as @ e # bs)" "path s (First h) as" "nm_cell s ?p = Some e" "path s (NextOf e) bs"
    "nm_cell s (end_slot (NextOf e) bs) = None" "links s (First h) as" "nm_prev s e = ?p" "links s (NextOf e) bs"
    "nm_last s h = end_slot (NextOf e) bs"
    using assms by (simp_all add: dlist_def slist_def path_append links_append)
  have c: "nm_cell ?t = (nm_cell s)(?p := nm_cell s (NextOf e))"
    using d by (cases bs) (auto simp: dlist_remove_def Let_def)
  have as: "path ?t (First h) as"
  proof -
    have "q \<noteq> ?p" if "q \<in> slots_to (First h) as" for q
      using that end_not_leading [of as "First h"] d(1) by auto
    then show ?thesis using path_cong [of "First h" as ?t s] c d(2) by simp
  qed
  have out: "q \<noteq> ?p" if "q \<in> NextOf ` set bs" for q
    using that d(1) end_slot_cases [of "First h" as] by auto
  have tail: "path ?t ?p bs \<and> nm_cell ?t (end_slot ?p bs) = None"
  proof (cases bs)
    case Nil
    then show ?thesis using c d(5) by simp
  next
    case (Cons y ys)
    have "q \<noteq> ?p" if "q \<in> slots_to (NextOf y) ys" for q
      using that out slots_to_sub [of "NextOf y" ys] Cons by auto
    then have "path ?t (NextOf y) ys = path s (NextOf y) ys" using path_cong [of "NextOf y" ys ?t s] c by simp
    moreover have "end_slot (NextOf y) ys \<in> NextOf ` set bs" using end_slot_cases [of "NextOf y" ys] Cons by auto
    then have "end_slot (NextOf y) ys \<noteq> ?p" using out by blast
    ultimately show ?thesis using Cons d(4,5) c by simp
  qed
  have "links ?t (First h) (as @ bs) \<and> nm_last ?t h = end_slot (First h) (as @ bs)"
  proof (cases bs)
    case Nil
    then have "nm_prev ?t = nm_prev s" "nm_last ?t h = ?p" using d by (simp_all add: dlist_remove_def Let_def)
    then show ?thesis using Nil d links_cong [of as ?t s] by simp
  next
    case (Cons y ys)
    have "links ?t (First h) as = links s (First h) as"
      by (rule links_cong) (use d Cons in \<open>auto simp: dlist_remove_def Let_def\<close>)
    moreover have "links ?t (NextOf y) ys = links s (NextOf y) ys"
      by (rule links_cong) (use d Cons in \<open>auto simp: dlist_remove_def Let_def\<close>)
    ultimately show ?thesis using Cons d by (simp add: dlist_remove_def Let_def links_append)
  qed
  then show ?thesis using as tail d(1) by (auto simp: dlist_def slist_def path_append)
qed

text \<open>What one list does to another of the same memory.\<close>

lemma dlist_frame:
  assumes "dlist s h xs" "\<And>q. q \<in> insert (First h) (NextOf ` set xs) \<Longrightarrow> nm_cell t q = nm_cell s q"
    "\<And>x. x \<in> set xs \<Longrightarrow> nm_prev t x = nm_prev s x" "nm_last t h = nm_last s h"
  shows "dlist t h xs"
proof -
  have "path t (First h) xs = path s (First h) xs"
    by (rule path_cong) (use assms(2) slots_to_sub [of "First h" xs] in blast)
  moreover have "links t (First h) xs = links s (First h) xs" by (rule links_cong) (rule assms(3))
  moreover have "nm_cell t (end_slot (First h) xs) = nm_cell s (end_slot (First h) xs)"
    using assms(2) end_slot_cases [of "First h" xs] by auto
  ultimately show ?thesis using assms(1,4) by (simp add: dlist_def slist_def)
qed

lemma splice_frame:
  assumes "dlist s h (as @ bs)" "p = end_slot (First h) as" "dlist s h' ys" "h \<noteq> h'" "set ys \<inter> set (e # as @ bs) = {}"
  shows "dlist (splice h p e s) h' ys"
proof (rule dlist_frame [OF assms(3)])
  have v: "nm_cell s p = (case bs of [] \<Rightarrow> None | y # _ \<Rightarrow> Some y)"
    using assms(1,2) by (cases bs) (simp_all add: dlist_def slist_def path_append)
  fix q assume "q \<in> insert (First h') (NextOf ` set ys)"
  then have "q \<noteq> p \<and> q \<noteq> NextOf e" using assms(2,4,5) end_slot_cases [of "First h" as] by auto
  then show "nm_cell (splice h p e s) q = nm_cell s q" by (simp add: splice_def Let_def split: option.split)
next
  have v: "nm_cell s p = (case bs of [] \<Rightarrow> None | y # _ \<Rightarrow> Some y)"
    using assms(1,2) by (cases bs) (simp_all add: dlist_def slist_def path_append)
  fix x assume "x \<in> set ys"
  then show "nm_prev (splice h p e s) x = nm_prev s x" using v assms(5) by (cases bs) (auto simp: splice_def Let_def)
qed (use assms(4) in \<open>simp add: splice_def Let_def split: option.split\<close>)

lemma remove_frame:
  assumes "dlist s h (as @ e # bs)" "dlist s h' ys" "h \<noteq> h'" "set ys \<inter> set (as @ e # bs) = {}"
  shows "dlist (dlist_remove h e s) h' ys"
proof (rule dlist_frame [OF assms(2)])
  have d: "nm_prev s e = end_slot (First h) as" "nm_cell s (NextOf e) = (case bs of [] \<Rightarrow> None | y # _ \<Rightarrow> Some y)"
    "distinct (as @ e # bs)"
    using assms(1) by (cases bs; simp add: dlist_def slist_def path_append links_append)+
  {
    fix q assume "q \<in> insert (First h') (NextOf ` set ys)"
    then have "q \<noteq> end_slot (First h) as" using assms(3,4) end_slot_cases [of "First h" as] by auto
    then show "nm_cell (dlist_remove h e s) q = nm_cell s q"
      using d by (cases bs) (auto simp: dlist_remove_def Let_def)
  next
    fix x assume "x \<in> set ys"
    then show "nm_prev (dlist_remove h e s) x = nm_prev s x"
      using d assms(4) by (cases bs) (auto simp: dlist_remove_def Let_def)
  next
    show "nm_last (dlist_remove h e s) h' = nm_last s h'" using assms(3) by (simp add: dlist_remove_def Let_def split: option.split)
  }
qed

section \<open>The macros as insertions\<close>

lemma dlist_insert_head_splice: "dlist_insert_head h e s = splice h (First h) e s"
  by (simp add: dlist_insert_head_def splice_def Let_def set_cell_def set_prev_def set_last_def fun_upd_twist split: option.split)

lemma dlist_insert_after_splice: "l \<noteq> e \<Longrightarrow> dlist_insert_after h l e s = splice h (NextOf l) e s"
  by (simp add: dlist_insert_after_def splice_def Let_def set_cell_def set_prev_def set_last_def fun_upd_twist split: option.split)

lemma dlist_insert_tail_splice:
  assumes "dlist s h xs" "e \<notin> set xs"
  shows "dlist_insert_tail h e s = splice h (end_slot (First h) xs) e s"
proof -
  have "nm_last s h = end_slot (First h) xs" "nm_cell s (end_slot (First h) xs) = None"
    using assms(1) by (simp_all add: dlist_def slist_def)
  moreover have "end_slot (First h) xs \<noteq> NextOf e" using end_slot_cases [of "First h" xs] assms(2) by auto
  ultimately show ?thesis
    by (simp add: dlist_insert_tail_def splice_def Let_def set_cell_def set_prev_def set_last_def)
qed

lemma dlist_insert_before_splice:
  assumes "dlist s h (as @ l # bs)" "e \<notin> set (as @ l # bs)"
  shows "dlist_insert_before l e s = splice h (end_slot (First h) as) e s"
proof -
  have p: "nm_prev s l = end_slot (First h) as" "nm_cell s (end_slot (First h) as) = Some l"
    using assms(1) by (simp_all add: dlist_def slist_def path_append links_append)
  have "end_slot (First h) as \<noteq> NextOf e" "l \<noteq> e" using end_slot_cases [of "First h" as] assms(2) by auto
  then show ?thesis using p
    by (simp add: dlist_insert_before_def splice_def Let_def set_cell_def set_prev_def set_last_def fun_upd_twist)
qed

text \<open>Reading a list.\<close>

lemma walk_path: "path s p xs \<Longrightarrow> nm_cell s (end_slot p xs) = None \<Longrightarrow> walk s (nm_cell s p) = Some xs"
proof (induction xs arbitrary: p)
  case (Cons x xs)
  then have "walk s (list_next x s) = Some xs" unfolding list_next_def by simp
  then show ?case using Cons.prems by (subst walk.simps) simp
qed (simp add: walk.simps)

lemma foreach_list: "slist s h xs \<Longrightarrow> foreach h s = Some xs"
  by (simp add: foreach_def list_first_def slist_def walk_path)

lemma second_end: "dlist s h xs \<Longrightarrow> xs \<noteq> [] \<Longrightarrow> second s (end_slot (First h) xs) = end_slot (First h) (butlast xs)"
proof -
  assume d: "dlist s h xs" and "xs \<noteq> []"
  then obtain as e where "xs = as @ [e]" by (metis append_butlast_last_id)
  then show ?thesis using d by (simp add: dlist_def links_append second_def)
qed

lemma dlist_last_list: "dlist s h xs \<Longrightarrow> dlist_last h s = (if xs = [] then None else Some (last xs))"
proof (cases xs rule: rev_cases)
  case Nil
  moreover assume "dlist s h xs"
  ultimately show ?thesis by (simp add: dlist_last_def dlist_def slist_def second_def)
next
  case (snoc as e)
  moreover assume d: "dlist s h xs"
  ultimately have "second s (nm_last s h) = end_slot (First h) as" using second_end [OF d] by (simp add: dlist_def)
  then show ?thesis using d snoc by (simp add: dlist_last_def dlist_def slist_def path_append)
qed

lemma dlist_prev_list:
  assumes "dlist s h (as @ e # bs)"
  shows "dlist_prev e s = (if as = [] then None else Some (last as))"
proof (cases as rule: rev_cases)
  case Nil
  have "nm_last s h = end_slot (NextOf e) bs" "nm_cell s (end_slot (NextOf e) bs) = None" "nm_prev s e = First h"
    using assms Nil by (simp_all add: dlist_def slist_def path_append links_append)
  then show ?thesis using Nil by (simp add: dlist_prev_def second_def)
next
  case (snoc cs c)
  have "nm_prev s e = NextOf c" "nm_prev s c = end_slot (First h) cs" "nm_cell s (end_slot (First h) cs) = Some c"
    using assms snoc by (simp_all add: dlist_def slist_def path_append links_append)
  then show ?thesis using snoc by (simp add: dlist_prev_def second_def)
qed

section \<open>Interfaces\<close>

text \<open>What a user of a list expects who only puts elements in front and goes over them.\<close>

locale front_list =
  fixes rep :: "'s \<Rightarrow> nat list \<Rightarrow> bool"
    and put :: "nat \<Rightarrow> 's \<Rightarrow> 's"
    and read :: "'s \<Rightarrow> nat list option"
  assumes put_rep: "rep s xs \<Longrightarrow> x \<notin> set xs \<Longrightarrow> rep (put x s) (x # xs)"
    and read_rep: "rep s xs \<Longrightarrow> read s = Some xs"
begin

lemma unique: "rep s xs \<Longrightarrow> rep s ys \<Longrightarrow> xs = ys"
  using read_rep [of s xs] read_rep [of s ys] by simp

lemma put_all: "rep s xs \<Longrightarrow> distinct ys \<Longrightarrow> set ys \<inter> set xs = {} \<Longrightarrow> rep (fold put ys s) (rev ys @ xs)"
proof (induction ys arbitrary: s xs)
  case (Cons y ys)
  have "rep (fold put ys (put y s)) (rev ys @ y # xs)" using Cons by (intro Cons.IH put_rep) auto
  then show ?case by simp
qed simp

lemma read_all: "rep s [] \<Longrightarrow> distinct ys \<Longrightarrow> read (fold put ys s) = Some (rev ys)"
  using put_all [of s "[]" ys] read_rep by auto

end

text \<open>A list to which elements are also added behind is a queue.\<close>

locale back_list = front_list +
  fixes add :: "nat \<Rightarrow> 's \<Rightarrow> 's"
  assumes add_rep: "rep s xs \<Longrightarrow> x \<notin> set xs \<Longrightarrow> rep (add x s) (xs @ [x])"
begin

lemma add_all: "rep s xs \<Longrightarrow> distinct ys \<Longrightarrow> set ys \<inter> set xs = {} \<Longrightarrow> rep (fold add ys s) (xs @ ys)"
proof (induction ys arbitrary: s xs)
  case (Cons y ys)
  have "rep (fold add ys (add y s)) ((xs @ [y]) @ ys)" using Cons by (intro Cons.IH add_rep) auto
  then show ?case by simp
qed simp

lemma read_added: "rep s [] \<Longrightarrow> distinct ys \<Longrightarrow> read (fold add ys s) = Some ys"
  using add_all [of s "[]" ys] read_rep by auto

end

lemma list_insert_head_rep: "slist s h xs \<Longrightarrow> e \<notin> set xs \<Longrightarrow> slist (list_insert_head h e s) h (e # xs)"
  using slist_splice [of s h "[]" xs e "First h"] by (simp add: list_insert_head_def Let_def)

lemma list_insert_after_rep:
  assumes "slist s h (as @ l # bs)" "e \<notin> set (as @ l # bs)"
  shows "slist (list_insert_after l e s) h (as @ l # e # bs)"
  using slist_splice [of s h "as @ [l]" bs e "NextOf l" "list_insert_after l e s"] assms
  by (simp add: list_insert_after_def Let_def)

lemma list_remove_head_rep:
  assumes "slist s h (x # xs)"
  shows "\<exists>t. list_remove_head h s = Some t \<and> slist t h xs"
proof (cases xs)
  case Nil
  then show ?thesis using assms by (simp add: list_remove_head_def slist_def)
next
  case (Cons y ys)
  let ?t = "set_cell (First h) (Some y) s"
  have "First h \<notin> slots_to (NextOf y) ys" using slots_to_sub [of "NextOf y" ys] by auto
  then have "path ?t (NextOf y) ys = path s (NextOf y) ys" by (intro path_cong) auto
  moreover have "end_slot (NextOf y) ys \<noteq> First h" using end_slot_cases [of "NextOf y" ys] by auto
  ultimately show ?thesis using assms Cons by (auto simp: list_remove_head_def slist_def)
qed

lemma dlist_slist: "dlist s h xs \<Longrightarrow> slist s h xs"
  by (simp add: dlist_def)

lemma dlist_insert_head_rep: "dlist s h xs \<Longrightarrow> e \<notin> set xs \<Longrightarrow> dlist (dlist_insert_head h e s) h (e # xs)"
  using dlist_splice [of s h "[]" xs e] by (simp add: dlist_insert_head_splice)

lemma dlist_insert_tail_rep: "dlist s h xs \<Longrightarrow> e \<notin> set xs \<Longrightarrow> dlist (dlist_insert_tail h e s) h (xs @ [e])"
  using dlist_splice [of s h xs "[]" e] by (simp add: dlist_insert_tail_splice)

interpretation single: front_list "\<lambda>s xs. slist s h xs" "list_insert_head h" "foreach h" for h
  by unfold_locales (auto simp: list_insert_head_rep foreach_list)

interpretation double: back_list "\<lambda>s xs. dlist s h xs" "dlist_insert_head h" "foreach h" "dlist_insert_tail h" for h
  by unfold_locales (auto simp: dlist_insert_head_rep dlist_insert_tail_rep foreach_list dlist_slist)

lemma init_lists: "slist (list_init h s) h []" "dlist (dlist_init h s) h []"
  by (simp_all add: slist_def dlist_def list_init_def dlist_init_def set_cell_def)

section \<open>Properties\<close>

text \<open>C17: each macro of a doubly linked list is the operation on the sequence of its elements that its name
  says, on the empty sequence as on any other: \<^verbatim>\<open>INIT\<close> makes the empty list, \<^verbatim>\<open>INSERT_HEAD\<close> and
  \<^verbatim>\<open>INSERT_TAIL\<close> add an element at either end, \<^verbatim>\<open>INSERT_AFTER\<close>, \<^verbatim>\<open>INSERT_BEFORE\<close> and
  \<^verbatim>\<open>REMOVE\<close> work at any element of the list; \<^verbatim>\<open>FOREACH\<close> goes over the elements in order,
  \<^verbatim>\<open>EMPTY\<close> and \<^verbatim>\<open>LAST\<close> say whether there is one and which is the last, \<^verbatim>\<open>NEXT\<close> and \<^verbatim>\<open>PREV\<close>
  which comes after and before one.\<close>

theorem dlist_refines:
  assumes "dlist s h xs" "e \<notin> set xs"
  shows "dlist (dlist_init h s) h [] \<and>
    dlist (dlist_insert_head h e s) h (e # xs) \<and> dlist (dlist_insert_tail h e s) h (xs @ [e]) \<and>
    foreach h s = Some xs \<and> (list_empty h s \<longleftrightarrow> xs = []) \<and>
    dlist_last h s = (if xs = [] then None else Some (last xs)) \<and>
    (\<forall>as l bs. xs = as @ l # bs \<longrightarrow>
       dlist (dlist_insert_after h l e s) h (as @ l # e # bs) \<and> dlist (dlist_insert_before l e s) h (as @ e # l # bs) \<and>
       dlist (dlist_remove h l s) h (as @ bs) \<and>
       list_next l s = (if bs = [] then None else Some (hd bs)) \<and>
       dlist_prev l s = (if as = [] then None else Some (last as)))"
proof (intro conjI allI impI)
  show "list_empty h s \<longleftrightarrow> xs = []"
    using assms(1) by (cases xs) (simp_all add: list_empty_def list_first_def dlist_def slist_def)
  fix as l bs assume xs: "xs = as @ l # bs"
  note d = assms [unfolded xs]
  show "dlist (dlist_insert_after h l e s) h (as @ l # e # bs)"
    using dlist_splice [of s h "as @ [l]" bs e "NextOf l"] d by (simp add: dlist_insert_after_splice)
  show "dlist (dlist_insert_before l e s) h (as @ e # l # bs)"
    using dlist_splice [OF d refl] by (simp add: dlist_insert_before_splice [OF d])
  show "dlist (dlist_remove h l s) h (as @ bs)" by (rule dlist_remove_rep [OF d(1)])
  show "list_next l s = (if bs = [] then None else Some (hd bs))"
    using d(1) by (cases bs) (simp_all add: list_next_def dlist_def slist_def path_append)
qed (use init_lists(2) dlist_insert_head_rep [OF assms] dlist_insert_tail_rep [OF assms] foreach_list [OF dlist_slist [OF assms(1)]]
  dlist_last_list [OF assms(1)] dlist_prev_list assms(1) in \<open>simp_all\<close>)

text \<open>The list of the head 1 with the elements 10, 20 and 30, as the macros make it.\<close>

definition three_nodes :: node_mem where
  "three_nodes = fold (dlist_insert_tail 1) [10, 20, 30] (dlist_init 1 \<lparr>nm_cell = (\<lambda>_. None), nm_prev = (\<lambda>_. First 0),
     nm_last = (\<lambda>_. First 0), nm_user = (\<lambda>_. None)\<rparr>)"

lemma three_nodes_list: "dlist three_nodes 1 [10, 20, 30]"
  using double.add_all [of _ 1 "[]" "[10, 20, 30]"] init_lists(2) unfolding three_nodes_def by simp

theorem dlist_refines_witness:
  "foreach 1 (dlist_remove 1 20 (dlist_insert_before 30 25 three_nodes)) = Some [10, 25, 30] \<and>
   dlist (dlist_insert_tail 2 40 (dlist_init 2 three_nodes)) 2 [40] \<and>
   dlist (dlist_insert_head 2 40 (dlist_init 2 three_nodes)) 2 [40]"
proof -
  have "25 \<notin> set [10, 20, 30 :: nat]" "[10, 20, 30 :: nat] = [10, 20] @ 30 # []" by simp_all
  then have b: "dlist (dlist_insert_before 30 25 three_nodes) 1 ([10, 20] @ 25 # 30 # [])"
    using dlist_refines [OF three_nodes_list, of 25] by blast
  have "5 \<notin> set ([10, 20] @ 25 # 30 # [] :: nat list)" "[10, 20] @ 25 # 30 # [] = [10] @ 20 # [25, 30 :: nat]" by simp_all
  then have "dlist (dlist_remove 1 20 (dlist_insert_before 30 25 three_nodes)) 1 ([10] @ [25, 30])"
    using dlist_refines [OF b, of 5] by blast
  then have "dlist (dlist_remove 1 20 (dlist_insert_before 30 25 three_nodes)) 1 [10, 25, 30]" by simp
  then have "foreach 1 (dlist_remove 1 20 (dlist_insert_before 30 25 three_nodes)) = Some [10, 25, 30]"
    by (intro foreach_list dlist_slist)
  then show ?thesis using dlist_refines [of "dlist_init 2 three_nodes" 2 "[]" 40] init_lists(2) by simp
qed

text \<open>An operation on one list leaves a list with another head and other elements as it was.\<close>

theorem dlist_separate:
  assumes "dlist s h (as @ l # bs)" "dlist s h' ys" "h \<noteq> h'" "set ys \<inter> set (e # as @ l # bs) = {}" "e \<notin> set (as @ l # bs)"
  shows "dlist (dlist_insert_head h e s) h' ys \<and> dlist (dlist_insert_tail h e s) h' ys \<and>
    dlist (dlist_insert_after h l e s) h' ys \<and> dlist (dlist_insert_before l e s) h' ys \<and> dlist (dlist_remove h l s) h' ys"
proof (intro conjI)
  show "dlist (dlist_insert_head h e s) h' ys"
    using splice_frame [of s h "[]" "as @ l # bs"] assms by (simp add: dlist_insert_head_splice)
  show "dlist (dlist_insert_tail h e s) h' ys"
    using splice_frame [of s h "as @ l # bs" "[]"] assms by (simp add: dlist_insert_tail_splice [OF assms(1,5)])
  show "dlist (dlist_insert_after h l e s) h' ys"
    using splice_frame [of s h "as @ [l]" bs "NextOf l"] assms by (simp add: dlist_insert_after_splice)
  show "dlist (dlist_insert_before l e s) h' ys"
    using splice_frame [of s h as "l # bs"] assms by (simp add: dlist_insert_before_splice [OF assms(1,5)])
  show "dlist (dlist_remove h l s) h' ys" using remove_frame [OF assms(1,2,3)] assms(4) by simp
qed

theorem dlist_separate_witness:
  "foreach 2 (dlist_remove 1 20 (dlist_insert_tail 2 40 (dlist_init 2 three_nodes))) = Some [40]"
proof -
  have one: "dlist (dlist_init 2 three_nodes) 1 [10, 20, 30]"
    by (rule dlist_frame [OF three_nodes_list]) (auto simp: dlist_init_def)
  have "dlist (dlist_insert_tail 2 40 (dlist_init 2 three_nodes)) 1 [10, 20, 30]"
    using splice_frame [of "dlist_init 2 three_nodes" 2 "[]" "[]" "First 2" 1 "[10, 20, 30]" 40] init_lists(2) one
      dlist_insert_tail_splice [OF init_lists(2), of 40] by simp
  moreover have "dlist (dlist_insert_tail 2 40 (dlist_init 2 three_nodes)) 2 [40]"
    using dlist_insert_tail_rep [OF init_lists(2), of 40] by simp
  ultimately have "dlist (dlist_remove 1 20 (dlist_insert_tail 2 40 (dlist_init 2 three_nodes))) 2 [40]"
    using dlist_separate [of _ 1 "[10]" 20 "[30]" 2 "[40]" 50] by simp
  then show ?thesis by (intro foreach_list dlist_slist)
qed

definition fl_ok :: "free_list \<Rightarrow> bool" where
  "fl_ok f \<longleftrightarrow> fl_count f \<le> fl_size f \<and> unat (fl_size f) \<le> length (fl_nodes f)"

definition fl_stack :: "free_list \<Rightarrow> nat option list" where
  "fl_stack f = rev (take (unat (fl_count f)) (fl_nodes f))"

lemma unat_suc_u32: "(i :: u32) < m \<Longrightarrow> unat (i + 1) = Suc (unat i)"
  using unsigned_less [of m, where 'a = nat] by (simp add: unat_word_ariths word_less_nat_alt)

lemma unat_pred_u32: "(i :: u32) \<noteq> 0 \<Longrightarrow> Suc (unat (i - 1)) = unat i"
  by (simp add: unat_minus_one unat_gt_0)

text \<open>The free nodes are a bounded stack.\<close>

theorem free_list_stack:
  assumes "fl_ok f"
  shows "(\<exists>g. free_list_push x f = Some (if length (fl_stack f) = unat (fl_size f) then None else x, g) \<and> fl_ok g \<and>
      fl_stack g = (if length (fl_stack f) = unat (fl_size f) then fl_stack f else x # fl_stack f)) \<and>
    (\<exists>g. free_list_pop f = Some (case fl_stack f of [] \<Rightarrow> None | y # _ \<Rightarrow> y, g) \<and> fl_ok g \<and> fl_stack g = tl (fl_stack f))"
proof
  have l: "length (fl_stack f) = unat (fl_count f)" "unat (fl_count f) \<le> length (fl_nodes f)"
    using assms by (auto simp: fl_ok_def fl_stack_def word_le_nat_alt)
  show "\<exists>g. free_list_push x f = Some (if length (fl_stack f) = unat (fl_size f) then None else x, g) \<and> fl_ok g \<and>
      fl_stack g = (if length (fl_stack f) = unat (fl_size f) then fl_stack f else x # fl_stack f)"
  proof (cases "fl_count f = fl_size f")
    case False
    then have less: "fl_count f < fl_size f" using assms by (auto simp: fl_ok_def intro: le_neq_trans)
    then have "unat (fl_count f) < length (fl_nodes f)" "unat (fl_count f) < unat (fl_size f)"
      using assms by (auto simp: fl_ok_def word_less_nat_alt)
    then show ?thesis using False l assms unat_suc_u32 [OF less]
      by (auto simp: free_list_push_def fl_ok_def fl_stack_def word_le_nat_alt take_Suc_conv_app_nth)
  qed (use l assms in \<open>simp add: free_list_push_def\<close>)
  show "\<exists>g. free_list_pop f = Some (case fl_stack f of [] \<Rightarrow> None | y # _ \<Rightarrow> y, g) \<and> fl_ok g \<and> fl_stack g = tl (fl_stack f)"
  proof (cases "fl_count f = 0")
    case False
    note p = unat_pred_u32 [OF False]
    then have "unat (fl_count f - 1) < length (fl_nodes f)" using l(2) by simp
    moreover from this have "fl_stack f = fl_nodes f ! unat (fl_count f - 1) # rev (take (unat (fl_count f - 1)) (fl_nodes f))"
      by (simp add: fl_stack_def take_Suc_conv_app_nth flip: p)
    ultimately show ?thesis using False assms p
      by (auto simp: free_list_pop_def fl_ok_def fl_stack_def Let_def word_le_nat_alt)
  qed (use l assms in \<open>simp add: free_list_pop_def fl_stack_def\<close>)
qed

definition two_free :: free_list where
  "two_free = \<lparr>fl_size = 2, fl_count = 1, fl_nodes = [Some 5, None]\<rparr>"

theorem free_list_stack_witness:
  "map_option fst (free_list_push (Some 7) two_free) = Some (Some 7) \<and> map_option fst (free_list_pop two_free) = Some (Some 5)"
proof -
  have "fl_ok two_free" by (simp add: fl_ok_def two_free_def)
  from free_list_stack [OF this, of "Some 7"] show ?thesis by (auto simp: fl_stack_def two_free_def)
qed

end
