(* ===== verification/WorldTasks.thy ===== *)
theory WorldTasks
  imports GameMap
begin

text \<open>
  The tasks of the world's thread, \<^verbatim>\<open>GObject/World.cpp\<close>, and the times they are called at, \<^verbatim>\<open>Common/TimeUtil.h\<close>: the
  timers of \<^verbatim>\<open>World::Init\<close>, the rounds and stages of the clan battles, the placing of the fighters, the ranks and their rewards;
  with \<^verbatim>\<open>Player::UpdatePvpRank\<close> of \<^verbatim>\<open>GObject/Player.cpp\<close>, which inserts into the same ranks.

  The clan battles' classes, the players, the mails and the configuration are not in the repository: what they answer is in
  \<open>world_env\<close> and may depend on the calls made before, which \<open>wo_calls\<close> lists in the order of the code.  The
  clock is one of them.  \<open>None\<close> is undefined behaviour.
\<close>

section \<open>Times of the day\<close>

text \<open>The sum with \<^verbatim>\<open>timezone\<close>, the seconds west of Greenwich, is of type \<^verbatim>\<open>long\<close>; \<open>quot\<close> is its division, which cuts
  towards zero.\<close>

definition quot :: "int \<Rightarrow> int \<Rightarrow> int" where
  "quot x d = (if x < 0 then - ((- x) div d) else x div d)"

definition sharp_day :: "int \<Rightarrow> int \<Rightarrow> u32 \<Rightarrow> u32" where
  "sharp_day tz c cur =
     (let t = (of_int (quot (uint cur + tz) 86400 * 86400 + tz) :: u32);
          t' = (if t > cur then t - 86400 else if t + 86400 \<le> cur then t + 86400 else t)
      in t' + of_int (c * 86400))"

definition sharp :: "nat \<Rightarrow> int \<Rightarrow> u32 \<Rightarrow> u32" where
  "sharp d c t = (t + of_int (c * int d)) div of_nat d * of_nat d"

definition sharp_hour :: "int \<Rightarrow> u32 \<Rightarrow> u32" where "sharp_hour c t = sharp 3600 c t"
definition sharp_fourty_min :: "int \<Rightarrow> u32 \<Rightarrow> u32" where "sharp_fourty_min c t = sharp 2400 c t"
definition sharp_minute :: "int \<Rightarrow> u32 \<Rightarrow> u32" where "sharp_minute c t = sharp 60 c t"

text \<open>What \<^verbatim>\<open>MkTime\<close> gives \<^verbatim>\<open>mktime\<close>: the members of the \<^verbatim>\<open>tm\<close> from \<^verbatim>\<open>tm_year\<close> to \<^verbatim>\<open>tm_sec\<close>.\<close>

definition mk_time :: "u32 \<Rightarrow> u32 \<Rightarrow> u32 \<Rightarrow> u32 \<Rightarrow> u32 \<Rightarrow> u32 \<Rightarrow> u32 list" where
  "mk_time y m d hh mm ss =
     [if y < 1900 then 0 else y - 1900,
      if m mod 13 \<noteq> 0 then m mod 13 - 1 else 0,
      if d mod 32 \<noteq> 0 then d mod 32 else 1,
      if hh mod 25 \<noteq> 0 then hh mod 24 - 1 else 0,
      if mm mod 61 \<noteq> 0 then mm mod 61 - 1 else 0,
      if ss mod 61 \<noteq> 0 then ss mod 61 - 1 else 0]"

definition get_next_my :: "u32 \<Rightarrow> u32 option \<Rightarrow> u32 \<times> u32 option" where
  "get_next_my m y = (if m \<ge> 1 \<and> m < 12 then (m + 1, y) else (1, map_option (\<lambda>y. y + 1) y))"

text \<open>\<open>mon\<close> and \<open>year\<close> are what \<^verbatim>\<open>localtime_r\<close> puts into \<^verbatim>\<open>tm_mon\<close> and \<^verbatim>\<open>tm_year\<close>.\<close>

definition one_month_days :: "u32 \<Rightarrow> u32 \<Rightarrow> u8" where
  "one_month_days tm_mon tm_year =
     (let mon = tm_mon + 1; year = tm_year + 1900; leap = (year mod 4 = 0 \<and> year mod 100 \<noteq> 0 \<or> year mod 400 = 0)
      in if mon = 2 then if leap then 29 else 28
         else if mon \<in> {1, 3, 5, 7, 8, 10, 12} then 31
         else if mon \<in> {4, 6, 9, 11} then 30 else 30)"

section \<open>State\<close>

text \<open>A battle is an address; \<open>wo_next\<close> is the second at which it goes on.\<close>

datatype world_call =
    TimerAdded string u32 u32
  | TaskRun string
  | RoundStarted nat
  | StageSet nat u32
  | RoomRemoved u32
  | FoodGiven u32
  | Settled u32
  | ClanRoomRemoved u32
  | DistributeRemoved u32
  | ReportsRemoved u32
  | BattleMade u32 u8
  | FighterPlaced u64 u16 u8 u8
  | NpcPlaced u16 u8 u8
  | BattleInserted u32 u8
  | RoomInserted u32
  | GoalAdded nat u32
  | GoalCleared nat
  | MailSent nat string
  | AwardSent nat u8
  | AwardStored u8
  | RobotRowDeleted u16
  | RobotRow u16 u32 u32
  | DrawRobot
  | BattleStatusSet u8
  | HeaderPushed u16 nat "u8 list"

record arena_member =
  am_pl :: "nat option"
  am_first :: u32
  am_robot :: u32

record rc_sort =
  rc_player :: "nat option"
  rc_total :: u32
  rc_time :: u32

record world =
  wo_next :: "nat \<Rightarrow> u32"
  wo_rooms :: "u32 \<Rightarrow> bool"
  wo_arena :: "(u16 \<times> arena_member) list"
  wo_pvp :: "rc_sort list"
  wo_ranked :: bool
  wo_calls :: "world_call list"

record distribute_info =
  di_player :: u64
  di_fighter :: u16
  di_x :: u8
  di_y :: u8

record npc_info =
  ni_fighter :: u16
  ni_x :: u8
  ni_y :: u8

record world_env =
  we_now :: "world_call list \<Rightarrow> u32"
  we_timezone :: int
  we_midnight :: "u32 \<Rightarrow> u32"
  we_min :: "u32 \<Rightarrow> u8"
  we_sec :: "u32 \<Rightarrow> u8"
  we_time_once :: nat
  we_time_tab :: nat
  we_time_cost :: "world_call list \<Rightarrow> nat \<Rightarrow> u16"
  we_stage :: "world_call list \<Rightarrow> nat \<Rightarrow> u8"
  we_city_force :: "u32 \<Rightarrow> u8 \<Rightarrow> u8"
  we_npcs :: "u8 \<Rightarrow> npc_info list option"
  we_is_player :: "u64 \<Rightarrow> bool"
  we_players :: "nat list"
  we_arena_pos :: "nat \<Rightarrow> u32"
  we_goal :: "nat \<Rightarrow> u32"
  we_member :: "nat \<Rightarrow> arena_member"
  we_member_new :: arena_member
  we_member_robot :: "u16 \<Rightarrow> u32 \<Rightarrow> arena_member"
  we_mail :: "world_call list \<Rightarrow> bool"
  we_not_empty :: "arena_member \<Rightarrow> bool"
  we_robots :: u32
  we_random :: "world_call list \<Rightarrow> u32"
  we_online :: "nat list"
  we_all :: "nat list"

definition world_note :: "world_call list \<Rightarrow> world \<Rightarrow> world" where
  "world_note cs w = w\<lparr>wo_calls := wo_calls w @ cs\<rparr>"

definition clock :: "world_env \<Rightarrow> world \<Rightarrow> u32" where
  "clock env w = we_now env (wo_calls w)"

section \<open>Messages to the players' threads\<close>

definition govern_send_info :: "world_env \<Rightarrow> world \<Rightarrow> world" where
  "govern_send_info env w = fold (\<lambda>p. world_note [HeaderPushed 0x156 p [0]]) (we_online env) w"

text \<open>How many pieces of \<^verbatim>\<open>TIME_TAB\<close> seconds of the current \<^verbatim>\<open>TIME_ONCE\<close> minutes have begun; both are constants of a
  header that is not in the repository.\<close>

definition govern_time :: "world_env \<Rightarrow> u32 \<Rightarrow> nat" where
  "govern_time env now =
     (let m = unat (we_min env now) mod we_time_once env; s = unat (we_sec env now);
          rest = (if m = 0 \<and> s = 0 then 0 else m * 60 + s)
      in if rest = 0 then 0 else if rest mod we_time_tab env = 0 then rest div we_time_tab env else rest div we_time_tab env + 1)"

definition govern_send_award :: "world_env \<Rightarrow> world \<Rightarrow> world" where
  "govern_send_award env w =
     fold (\<lambda>p w. world_note [HeaderPushed 0x155 p (word_bytes 2 (of_nat (govern_time env (clock env w)) :: u16))] w) (we_online env) w"

definition store_fresh :: "world_env \<Rightarrow> world \<Rightarrow> world" where
  "store_fresh env w = fold (\<lambda>p. world_note [HeaderPushed 0x157 p []]) (we_all env) w"

section \<open>Rounds of the clan battles\<close>

definition start_round :: "world_env \<Rightarrow> nat \<Rightarrow> world \<Rightarrow> u16 \<times> world" where
  "start_round env b w = (let w1 = world_note [RoundStarted b] w in (we_time_cost env (wo_calls w1) b, w1))"

text \<open>The difference of the two times is one of 32-bit numbers without sign.  A room is its stage and its battles, as they
  are when the loop comes to it; the pointer to a battle may be null.\<close>

definition play_battle :: "world_env \<Rightarrow> nat option \<Rightarrow> world \<Rightarrow> world" where
  "play_battle env bo w =
     (case bo of
        None \<Rightarrow> w
      | Some b \<Rightarrow>
          if wo_next w b = 0
          then let (cost, w1) = start_round env b w; now = clock env w1
               in w1\<lparr>wo_next := (wo_next w1)(b := ucast cost + now)\<rparr>
          else let now = clock env w
               in if now - wo_next w b \<le> 1
                  then let (cost, w1) = start_round env b w in w1\<lparr>wo_next := (wo_next w1)(b := ucast cost + now)\<rparr>
                  else w)"

definition one_round :: "world_env \<Rightarrow> (u8 \<times> nat option list) list \<Rightarrow> world \<Rightarrow> world" where
  "one_round env rooms w = fold (\<lambda>(stage, bs) w. if stage \<noteq> 1 then w else fold (play_battle env) bs w) rooms w"

section \<open>Stages of the clan battles\<close>

definition room_removed :: "u32 \<Rightarrow> world \<Rightarrow> world" where
  "room_removed r w = world_note [RoomRemoved r] (w\<lparr>wo_rooms := (wo_rooms w)(r := False)\<rparr>)"

text \<open>\<open>st\<close> is the status of the cities of the room \<open>r\<close>; the pointer to the battle is read before the first test.\<close>

definition stage_check_one :: "world_env \<Rightarrow> nat \<times> u32 \<Rightarrow> world \<Rightarrow> world" where
  "stage_check_one env sr w =
     (case sr of (st, r) \<Rightarrow>
        let now = clock env w;
            w1 = world_note [StageSet st now] w;
            battle = wo_rooms w1 r;
            w2 = (if we_stage env (wo_calls w1) st = 0 \<and> battle then world_note [FoodGiven r] (room_removed r w1) else w1)
        in if we_stage env (wo_calls w2) st = 2 \<and> battle
           then world_note [ClanRoomRemoved r, DistributeRemoved r, ReportsRemoved r] (room_removed r (world_note [Settled r] w2))
           else w2)"

definition stage_check :: "world_env \<Rightarrow> (nat \<times> u32) list \<Rightarrow> world \<Rightarrow> world" where
  "stage_check env = fold (stage_check_one env)"

section \<open>Placing the fighters\<close>

definition place_fighter :: "world_env \<Rightarrow> distribute_info \<Rightarrow> world_call" where
  "place_fighter env d =
     (if we_is_player env (di_player d) then FighterPlaced (di_player d) (di_fighter d) (di_x d) (di_y d)
      else NpcPlaced (di_fighter d) (di_x d) (di_y d))"

definition free_npcs :: "distribute_info list \<Rightarrow> npc_info list \<Rightarrow> npc_info list" where
  "free_npcs ds ns = filter (\<lambda>n. \<not> list_ex (\<lambda>d. di_x d = ni_x n \<and> di_y d = ni_y n) ds) ns"

text \<open>\<open>None\<close>: there is no map of that number, and the code dereferences a null pointer.  \<open>BattleMade\<close> stands for the new
  battle and the call that makes it go on at once.\<close>

definition put_map :: "world_env \<Rightarrow> u32 \<Rightarrow> u8 \<times> distribute_info list \<Rightarrow> world \<Rightarrow> world option" where
  "put_map env r md w =
     (case md of (m, ds) \<Rightarrow>
        let w1 = world_note (BattleMade r m # map (place_fighter env) ds) w
        in if we_city_force env r m = 0
           then do { ns \<leftarrow> we_npcs env m;
                     Some (world_note (map (\<lambda>n. NpcPlaced (ni_fighter n) (ni_x n) (ni_y n)) (free_npcs ds ns) @ [BattleInserted r m]) w1) }
           else Some (world_note [BattleInserted r m] w1))"

definition put_room :: "world_env \<Rightarrow> world \<Rightarrow> u32 \<times> nat \<times> (u8 \<times> distribute_info list) list \<Rightarrow> world option" where
  "put_room env w rd =
     (case rd of (r, st, maps) \<Rightarrow>
        if r = 0 \<or> we_stage env (wo_calls w) st \<noteq> 1 \<or> wo_rooms w r then Some w
        else do { w1 \<leftarrow> foldm (\<lambda>w md. put_map env r md w) w maps;
                  Some (world_note [RoomInserted r] (w1\<lparr>wo_rooms := (wo_rooms w1)(r := True)\<rparr>)) })"

definition put_fighters :: "world_env \<Rightarrow> (u32 \<times> nat \<times> (u8 \<times> distribute_info list) list) list \<Rightarrow> world \<Rightarrow> world option" where
  "put_fighters env rds w = foldm (put_room env) w rds"

section \<open>Ranks\<close>

definition lt_rcsort :: "rc_sort \<Rightarrow> rc_sort \<Rightarrow> bool" where
  "lt_rcsort a b \<longleftrightarrow> rc_total a < rc_total b \<and> rc_time a < rc_time b"

text \<open>A \<^verbatim>\<open>multiset\<close> puts a new element in front of the first one it is less than.  The order is none, but the only
  entries are those of \<open>player_enum_rc\<close> and \<open>update_pvp_rank\<close>, whose time is 0: none of them is less than another.\<close>

definition rc_insert :: "rc_sort \<Rightarrow> rc_sort list \<Rightarrow> rc_sort list" where
  "rc_insert s xs = takeWhile (\<lambda>y. \<not> lt_rcsort s y) xs @ s # dropWhile (\<lambda>y. \<not> lt_rcsort s y) xs"

definition arena_at :: "world_env \<Rightarrow> u16 \<Rightarrow> world \<Rightarrow> arena_member \<times> world" where
  "arena_at env i w =
     (case map_of (wo_arena w) i of
        Some m \<Rightarrow> (m, w)
      | None \<Rightarrow> (we_member_new env, w\<lparr>wo_arena := omap_put i (we_member_new env) (wo_arena w)\<rparr>))"

definition player_enum_rc :: "world_env \<Rightarrow> nat \<Rightarrow> world \<Rightarrow> world" where
  "player_enum_rc env p w =
     (let pos = we_arena_pos env p;
          w1 = (if pos \<noteq> 0 \<and> pos \<le> 3000
                then let (m, w') = arena_at env (ucast pos) w
                     in if am_pl m = None then w'\<lparr>wo_arena := omap_put (ucast pos) (we_member env p) (wo_arena w')\<rparr> else w'
                else w);
          goal = we_goal env p
      in if goal \<noteq> 0
         then w1\<lparr>wo_pvp := rc_insert \<lparr>rc_player = Some p, rc_total = goal, rc_time = 0\<rparr> (wo_pvp w1)\<rparr>
         else w1)"

definition init_rank :: "world_env \<Rightarrow> world \<Rightarrow> world" where
  "init_rank env w = (if wo_ranked w then w else (fold (player_enum_rc env) (we_players env) w)\<lparr>wo_ranked := True\<rparr>)"

text \<open>\<^verbatim>\<open>Player::UpdatePvpRank\<close>; \<open>pts\<close> is the variable after \<^verbatim>\<open>AddVar\<close>.\<close>

definition update_pvp_rank :: "nat \<Rightarrow> u32 \<Rightarrow> u32 \<Rightarrow> world \<Rightarrow> world" where
  "update_pvp_rank p goal pts w =
     (let w1 = world_note [GoalAdded p goal] w;
          w2 = w1\<lparr>wo_pvp := remove_first (\<lambda>s. rc_player s = Some p) (wo_pvp w1)\<rparr>;
          w3 = w2\<lparr>wo_pvp := rc_insert \<lparr>rc_player = Some p, rc_total = pts, rc_time = 0\<rparr> (wo_pvp w2)\<rparr>
      in world_note [HeaderPushed 0x101 p []] w3)"

definition arena_award :: "u16 \<Rightarrow> nat" where
  "arena_award pos = (if pos = 1 then 0 else if pos = 2 then 1 else if pos = 3 then 2 else if pos < 11 then 3
     else if pos < 21 then 4 else if pos < 51 then 5 else if pos < 101 then 6 else if pos < 201 then 7
     else if pos < 301 then 8 else if pos < 1001 then 9 else 10)"

definition arena_prizes :: "string list" where
  "arena_prizes = [''20003,200'', ''20003,180'', ''20003,160'', ''20003,140'', ''20003,120'', ''20003,100'', ''20003, 80'',
     ''20003, 60'', ''20003, 40'', ''20003, 20'', ''20003, 10'']"

definition send_arena_award :: "world_env \<Rightarrow> world \<Rightarrow> world" where
  "send_arena_award env w =
     (let w1 = init_rank env w
      in fold (\<lambda>(pos, m) w. case am_pl m of
             None \<Rightarrow> w
           | Some p \<Rightarrow> if pos = 0 then w else world_note [MailSent p (arena_prizes ! arena_award pos)] w) (wo_arena w1) w1)"

definition update_arena :: "world_env \<Rightarrow> u16 \<Rightarrow> u16 \<Rightarrow> world \<Rightarrow> world" where
  "update_arena env old i w =
     (let (m, w1) = arena_at env i w
      in if am_pl m \<noteq> None then w1
         else let w2 = (if old \<noteq> 0 then world_note [RobotRowDeleted old] w1 else w1)
              in if i \<noteq> 0 \<and> i < 3001 then world_note [RobotRow i (am_first m) (am_robot m)] w2 else w2)"

definition get_arena_member :: "world_env \<Rightarrow> u16 \<Rightarrow> world \<Rightarrow> arena_member \<times> world" where
  "get_arena_member env i w =
     (let (m, w1) = arena_at env i w
      in if we_not_empty env m then (m, w1)
         else let robot = random_below (we_random env (wo_calls w1)) (we_robots env) + 1;
                  w2 = world_note [DrawRobot] w1;
                  w3 = (if robot \<noteq> 0 \<and> robot < we_robots env
                        then w2\<lparr>wo_arena := omap_put i (we_member_robot env i robot) (wo_arena w2)\<rparr> else w2)
              in arena_at env i (update_arena env 0 i w3))"

text \<open>The tests of \<^verbatim>\<open>World_pvp_award\<close> on a position of eight bits: none above 255 can be true.\<close>

definition pvp_level :: "u8 \<Rightarrow> u8" where
  "pvp_level pos = (if pos = 1 then 1 else if pos = 2 then 2 else if pos = 3 then 3 else if pos \<le> 10 then 4
     else if pos \<le> 20 then 5 else if pos \<le> 50 then 6 else if pos \<le> 100 then 7 else if pos \<le> 200 then 8 else 9)"

fun pvp_awards :: "world_env \<Rightarrow> rc_sort list \<Rightarrow> u8 \<Rightarrow> world \<Rightarrow> world" where
  "pvp_awards env [] pos w = w"
| "pvp_awards env (s # ss) pos w =
     (case rc_player s of
        None \<Rightarrow> pvp_awards env ss pos w
      | Some p \<Rightarrow>
          let lv = pvp_level (pos + 1); w1 = world_note [GoalCleared p, AwardSent p lv] w
          in pvp_awards env ss (pos + 1) (if we_mail env (wo_calls w1) then world_note [AwardStored lv] w1 else w1))"

definition pvp_award :: "world_env \<Rightarrow> world \<Rightarrow> world" where
  "pvp_award env w = (let w1 = init_rank env w in (pvp_awards env (wo_pvp w1) 0 w1)\<lparr>wo_pvp := []\<rparr>)"

section \<open>Timers\<close>

text \<open>A timer and its two times; \<^verbatim>\<open>AddTimer\<close> calls the task at once when the first delay is 0, which is recorded too.\<close>

definition world_timer :: "string \<Rightarrow> u32 \<Rightarrow> u32 \<Rightarrow> world \<Rightarrow> world" where
  "world_timer task every wait w =
     world_note (TimerAdded task every wait # (if wait = 0 then [TaskRun task] else [])) w"

definition wait_until :: "u32 \<Rightarrow> u32 \<Rightarrow> u32" where
  "wait_until t now = ((if t < now then t + 86400 else t) - now) * 1000"

text \<open>The times of \<^verbatim>\<open>World::Init\<close>; \<open>cur\<close> is the clock when \<^verbatim>\<open>SharpDay\<close> reads it.\<close>

definition midnight_wait :: "int \<Rightarrow> u32 \<Rightarrow> u32 \<Rightarrow> u32" where
  "midnight_wait tz cur now = wait_until (sharp_day tz 1 cur - 10) now"

definition arena_award_wait :: "int \<Rightarrow> u32 \<Rightarrow> u32 \<Rightarrow> u32" where
  "arena_award_wait tz cur now = wait_until (sharp_day tz 0 cur + 21 * 3600) now"

definition store_wait :: "int \<Rightarrow> u32 \<Rightarrow> u32 \<Rightarrow> u32" where
  "store_wait tz cur now = wait_until (sharp_day tz 0 cur + (15 * 3600 + 3120)) now"

definition govern_info_wait :: "u32 \<Rightarrow> u32" where
  "govern_info_wait now = (let s = sharp_hour 1 now in ((if s < now then s + 3600 else s) + 1) * 1000)"

definition govern_award_wait :: "world_env \<Rightarrow> u32 \<Rightarrow> u32" where
  "govern_award_wait env now =
     (let m = unat (we_min env now) mod we_time_once env; s = unat (we_sec env now);
          second = (if m = 0 \<and> s = 0 then 0 else (m * 60 + s) mod we_time_tab env)
      in of_int ((int (we_time_tab env) - int second + 3) * 1000))"

definition pvp_wait :: "u32 \<Rightarrow> u32 \<Rightarrow> u32" where
  "pvp_wait day now = (let p = day + 22 * 3600 in (if p \<ge> now then p - now else 86400 + p - now) * 1000)"

definition world_init :: "world_env \<Rightarrow> world \<Rightarrow> world" where
  "world_init env w =
     (let now = clock env w; tz = we_timezone env;
          w1 = world_timer ''World_Midnight_Check'' 86400000 (midnight_wait tz (clock env w) now) w;
          w2 = world_timer ''World_Test'' 86400000 10000 w1;
          w3 = world_timer ''World_Send_Arena_Award'' 86400000 (arena_award_wait tz (clock env w2) now) w2;
          cur = clock env w3;
          w4 = store_fresh env w3;
          w5 = world_timer ''World_Store_Fresh'' 86400000 (store_wait tz cur now) w4;
          w6 = world_timer ''World_Govern_SendInfo'' 600000 (govern_info_wait now) w5;
          w7 = world_timer ''World_Govern_SendAward'' 15000 (govern_award_wait env now) w6;
          w8 = world_timer ''World_clanBattle_stageCheck'' 1000 5000 w7;
          w9 = world_timer ''world_clanBattle_putFighters'' 1000 10000 w8;
          w10 = world_timer ''World_clanBattle_OneRound'' 1000 30000 w9;
          w11 = world_timer ''World_pvp_award'' 86400000 (pvp_wait (we_midnight env now) now) (world_note [BattleStatusSet 3] w10)
      in init_rank env w11)"

section \<open>A concrete world\<close>

text \<open>Two players with points and one native on the cell (2, 2), which a city without force would send.\<close>

definition calm_world :: world_env where
  "calm_world = \<lparr>we_now = (\<lambda>_. 1000), we_timezone = - 28800, we_midnight = (\<lambda>t. t), we_min = (\<lambda>_. 0), we_sec = (\<lambda>_. 0),
     we_time_once = 10, we_time_tab = 15, we_time_cost = (\<lambda>_ _. 5), we_stage = (\<lambda>_ _. 1), we_city_force = (\<lambda>_ _. 0),
     we_npcs = (\<lambda>_. Some [\<lparr>ni_fighter = 4, ni_x = 2, ni_y = 2\<rparr>, \<lparr>ni_fighter = 4, ni_x = 3, ni_y = 2\<rparr>]),
     we_is_player = (\<lambda>_. False), we_players = [1, 2, 3], we_arena_pos = (\<lambda>_. 0), we_goal = (\<lambda>p. if p = 3 then 0 else 10 * of_nat p),
     we_member = (\<lambda>p. \<lparr>am_pl = Some p, am_first = 0, am_robot = 0\<rparr>), we_member_new = \<lparr>am_pl = None, am_first = 0, am_robot = 0\<rparr>,
     we_member_robot = (\<lambda>i r. \<lparr>am_pl = None, am_first = ucast i, am_robot = r\<rparr>), we_mail = (\<lambda>_. False),
     we_not_empty = (\<lambda>m. am_robot m \<noteq> 0), we_robots = 5, we_random = (\<lambda>_. 0), we_online = [1], we_all = [1, 2]\<rparr>"

definition quiet_world :: world where
  "quiet_world = \<lparr>wo_next = (\<lambda>_. 103), wo_rooms = (\<lambda>_. False), wo_arena = [], wo_pvp = [], wo_ranked = False, wo_calls = []\<rparr>"

section \<open>Midnight\<close>

lemma sharp_day_int:
  assumes "\<bar>tz\<bar> \<le> 43200" "172800 \<le> uint cur" "uint cur < 4294000000"
  shows "uint (sharp_day tz 0 cur) \<le> uint cur" "uint cur < uint (sharp_day tz 0 cur) + 86400"
    "(uint (sharp_day tz 0 cur) - tz) mod 86400 = 0"
proof -
  define q where "q = (uint cur + tz) div 86400 * 86400"
  define t where "t = q + tz"
  have q: "q \<le> uint cur + tz" "uint cur + tz < q + 86400" 
    using div_mult_mod_eq [of "uint cur + tz" 86400] pos_mod_sign [of 86400 "uint cur + tz"] pos_mod_bound [of 86400 "uint cur + tz"]
    unfolding q_def by linarith+
  have tb: "0 \<le> t" "t < 4294880000" "t \<le> uint cur + 86400" "uint cur - 172800 < t" using q assms unfolding t_def by linarith+
  have small: "uint (of_int v :: u32) = v" if "0 \<le> v" "v < 4294967296" for v
    using that by (simp only: uint_word_of_int) simp
  have less: "of_int v > cur \<longleftrightarrow> v > uint cur" "of_int v \<le> cur \<longleftrightarrow> v \<le> uint cur" if "0 \<le> v" "v < 4294967296" for v
    using small [OF that] by (simp_all only: word_less_def word_le_def)
  have shift: "(of_int t :: u32) - 86400 = of_int (t - 86400)" "(of_int t :: u32) + 86400 = of_int (t + 86400)" by simp_all
  have "sharp_day tz 0 cur = of_int (if t > uint cur then t - 86400 else if t + 86400 \<le> uint cur then t + 86400 else t)"
  proof -
    have "quot (uint cur + tz) 86400 * 86400 + tz = t" using assms by (simp add: quot_def q_def t_def)
    then show ?thesis unfolding sharp_day_def Let_def shift
      using less [of t] less [of "t + 86400"] tb by simp
  qed
  moreover have "0 \<le> (if t > uint cur then t - 86400 else if t + 86400 \<le> uint cur then t + 86400 else t)"
    "(if t > uint cur then t - 86400 else if t + 86400 \<le> uint cur then t + 86400 else t) < 4294967296"
    using tb assms by simp_all
  ultimately have u: "uint (sharp_day tz 0 cur) = (if t > uint cur then t - 86400 else if t + 86400 \<le> uint cur then t + 86400 else t)"
    using small by simp
  show "uint (sharp_day tz 0 cur) \<le> uint cur" "uint cur < uint (sharp_day tz 0 cur) + 86400"
    unfolding u using tb by simp_all
  have "\<exists>k. uint (sharp_day tz 0 cur) - tz = k * 86400"
  proof -
    let ?d = "(uint cur + tz) div 86400"
    have d: "t - 86400 - tz = (?d - 1) * 86400" "t + 86400 - tz = (?d + 1) * 86400" "t - tz = ?d * 86400"
      unfolding t_def q_def by simp_all
    show ?thesis
    proof (cases "t > uint cur")
      case True
      show ?thesis by (rule exI [of _ "?d - 1"]) (simp only: u if_P [OF True] d(1))
    next
      case False
      show ?thesis
      proof (cases "t + 86400 \<le> uint cur")
        case True
        show ?thesis by (rule exI [of _ "?d + 1"]) (simp only: u if_not_P [OF False] if_P [OF True] d(2))
      next
        case late: False
        show ?thesis by (rule exI [of _ ?d]) (simp only: u if_not_P [OF False] if_not_P [OF late] d(3))
      qed
    qed
  qed
  then obtain k where "uint (sharp_day tz 0 cur) - tz = k * 86400" ..
  then show "(uint (sharp_day tz 0 cur) - tz) mod 86400 = 0" by (simp only: mod_mult_self2_is_0)
qed

section \<open>Rounds\<close>

definition rounds_of :: "nat \<Rightarrow> world_call list \<Rightarrow> world_call list" where
  "rounds_of b cs = filter (\<lambda>c. c = RoundStarted b) cs"

lemma rounds_append [simp]: "rounds_of b (cs @ ds) = rounds_of b cs @ rounds_of b ds"
  by (simp add: rounds_of_def)

text \<open>A pass does to a battle only what the turns of that battle do.\<close>

lemma play_other: "bo \<noteq> Some b \<Longrightarrow> wo_next (play_battle env bo w) b = wo_next w b \<and>
    rounds_of b (wo_calls (play_battle env bo w)) = rounds_of b (wo_calls w)"
  by (auto simp: play_battle_def start_round_def world_note_def rounds_of_def Let_def split: option.splits)

lemma play_missed: "wo_next w b \<noteq> 0 \<Longrightarrow> \<not> clock env w - wo_next w b \<le> 1 \<Longrightarrow> play_battle env (Some b) w = w"
  by (simp add: play_battle_def Let_def)

text \<open>The battles of the rooms at stage 1 have their turns in one sequence.\<close>

definition turns :: "(u8 \<times> nat option list) list \<Rightarrow> nat option list" where
  "turns rooms = concat (map snd (filter (\<lambda>r. fst r = 1) rooms))"

lemma one_round_turns: "one_round env rooms w = fold (play_battle env) (turns rooms) w"
  unfolding one_round_def turns_def by (induction rooms arbitrary: w) (auto split: prod.splits)

lemma plays_missed:
  assumes "wo_next w b \<noteq> 0" "\<And>cs. \<not> we_now env cs - wo_next w b \<le> 1"
  shows "wo_next (fold (play_battle env) bs w) b = wo_next w b \<and>
    rounds_of b (wo_calls (fold (play_battle env) bs w)) = rounds_of b (wo_calls w)"
  using assms
proof (induction bs arbitrary: w)
  case (Cons bo bs)
  have s: "wo_next (play_battle env bo w) b = wo_next w b \<and> rounds_of b (wo_calls (play_battle env bo w)) = rounds_of b (wo_calls w)"
    using play_other [of bo b env w] play_missed [of w b env] Cons.prems by (cases "bo = Some b") (auto simp: clock_def)
  with Cons.IH [of "play_battle env bo w"] Cons.prems show ?case by simp
qed simp

text \<open>Once the clock has passed the second after the one a battle waits for, no pass ever plays it.\<close>

theorem battle_missed:
  assumes "wo_next w b \<noteq> 0" "\<And>cs. \<not> we_now env cs - wo_next w b \<le> 1"
  shows "wo_next (fold (one_round env) passes w) b = wo_next w b \<and>
    rounds_of b (wo_calls (fold (one_round env) passes w)) = rounds_of b (wo_calls w)"
  using assms
proof (induction passes arbitrary: w)
  case (Cons rooms passes)
  with plays_missed [OF Cons.prems, of "turns rooms"] Cons.IH [of "one_round env rooms w"] show ?case
    by (simp add: one_round_turns)
qed simp

theorem battle_missed_witness:
  "rounds_of 0 (wo_calls (fold (one_round calm_world) [[(1, [Some 0])], [(1, [Some 0])]] quiet_world)) = []"
proof -
  have due: "wo_next quiet_world 0 \<noteq> 0" by (simp add: quiet_world_def)
  have late: "\<not> we_now calm_world cs - wo_next quiet_world 0 \<le> 1" for cs
    by (simp add: quiet_world_def calm_world_def word_le_nat_alt)
  have "rounds_of 0 (wo_calls quiet_world) = []" by (simp add: quiet_world_def rounds_of_def)
  with battle_missed [OF due late] show ?thesis by (simp only:)
qed

text \<open>The passes of a clock that ticks every second.\<close>

definition tick :: "world_env \<Rightarrow> (u8 \<times> nat option list) list \<Rightarrow> u32 \<Rightarrow> world \<Rightarrow> world" where
  "tick env rooms t w = one_round (env\<lparr>we_now := (\<lambda>_. t)\<rparr>) rooms w"

lemma tick_turns: "tick env rooms t w = fold (play_battle (env\<lparr>we_now := (\<lambda>_. t)\<rparr>)) (turns rooms) w"
  by (simp add: tick_def one_round_turns)

text \<open>Playing a battle at the time \<open>t\<close> makes it wait for the cost of the round from then on.\<close>

definition next_after :: "world_env \<Rightarrow> nat \<Rightarrow> u32 \<Rightarrow> world \<Rightarrow> bool" where
  "next_after env b t w \<longleftrightarrow> (\<exists>cs. wo_next w b = ucast (we_time_cost env cs b) + t)"

definition round_count :: "nat \<Rightarrow> world \<Rightarrow> nat" where
  "round_count b w = length (rounds_of b (wo_calls w))"

lemma play_rounds:
  "round_count b w \<le> round_count b (play_battle env bo w)"
  "next_after env b t w \<Longrightarrow> next_after env b t (play_battle (env\<lparr>we_now := (\<lambda>_. t)\<rparr>) bo w)"
  by (cases bo; fastforce simp: play_battle_def start_round_def world_note_def round_count_def next_after_def clock_def Let_def)+

lemma plays_rounds:
  "round_count b w \<le> round_count b (fold (play_battle env) bs w)"
  "next_after env b t w \<Longrightarrow> next_after env b t (fold (play_battle (env\<lparr>we_now := (\<lambda>_. t)\<rparr>)) bs w)"
proof -
  show "round_count b w \<le> round_count b (fold (play_battle env) bs w)"
  proof (induction bs arbitrary: w)
    case (Cons bo bs)
    show ?case using play_rounds(1) [of b w env bo] Cons [of "play_battle env bo w"] by simp
  qed simp
  show "next_after env b t w \<Longrightarrow> next_after env b t (fold (play_battle (env\<lparr>we_now := (\<lambda>_. t)\<rparr>)) bs w)"
    by (induction bs arbitrary: w) (simp_all add: play_rounds(2))
qed

lemma play_due_once:
  assumes "wo_next w b = 0 \<or> t - wo_next w b \<le> 1"
  shows "round_count b (play_battle (env\<lparr>we_now := (\<lambda>_. t)\<rparr>) (Some b) w) = Suc (round_count b w)"
    "next_after env b t (play_battle (env\<lparr>we_now := (\<lambda>_. t)\<rparr>) (Some b) w)"
  using assms by (auto simp: play_battle_def start_round_def world_note_def round_count_def rounds_of_def next_after_def clock_def Let_def)

lemma plays_due:
  assumes "Some b \<in> set bs" "wo_next w b = 0 \<or> t - wo_next w b \<le> 1"
  shows "round_count b w < round_count b (fold (play_battle (env\<lparr>we_now := (\<lambda>_. t)\<rparr>)) bs w) \<and>
    next_after env b t (fold (play_battle (env\<lparr>we_now := (\<lambda>_. t)\<rparr>)) bs w)"
  using assms
proof (induction bs arbitrary: w)
  case (Cons bo bs)
  show ?case
  proof (cases "bo = Some b")
    case True
    then show ?thesis
      using play_due_once [OF Cons.prems(2), of env] plays_rounds(2) [of env b t _ bs]
        plays_rounds(1) [of b "play_battle (env\<lparr>we_now := (\<lambda>_. t)\<rparr>) (Some b) w" "env\<lparr>we_now := (\<lambda>_. t)\<rparr>" bs] by simp
  next
    case False
    let ?w = "play_battle (env\<lparr>we_now := (\<lambda>_. t)\<rparr>) bo w"
    have "wo_next ?w b = wo_next w b" "round_count b ?w = round_count b w"
      using play_other [OF False] by (simp_all add: round_count_def)
    then show ?thesis using Cons.IH [of ?w] Cons.prems False by simp
  qed
qed simp

lemma before_not_due: "i < k \<Longrightarrow> k < 2147483648 \<Longrightarrow> \<not> (t + of_nat i :: u32) - (t + of_nat k) \<le> 1"
proof
  assume "i < k" "k < 2147483648" and le: "(t + of_nat i :: u32) - (t + of_nat k) \<le> 1"
  have "(t + of_nat i :: u32) - (t + of_nat k) = - of_nat (k - i)" using \<open>i < k\<close> by (simp add: of_nat_diff)
  moreover have "(- of_nat (k - i) :: u32) = of_nat (4294967296 - (k - i))"
    using \<open>k < 2147483648\<close> by (simp add: of_nat_diff)
  then have "unat (- of_nat (k - i) :: u32) = 4294967296 - (k - i)"
    using \<open>i < k\<close> \<open>k < 2147483648\<close> by (simp add: unat_of_nat del: of_nat_diff)
  ultimately have "unat ((t + of_nat i :: u32) - (t + of_nat k)) = 4294967296 - (k - i)" by simp
  then show False using le \<open>k < 2147483648\<close> by (simp add: word_le_nat_alt)
qed

text \<open>A pass in each of the \<open>m\<close> seconds from \<open>t\<close> on.\<close>

definition ticks :: "world_env \<Rightarrow> (u8 \<times> nat option list) list \<Rightarrow> u32 \<Rightarrow> nat \<Rightarrow> world \<Rightarrow> world" where
  "ticks env rooms t m w = fold (\<lambda>i. tick env rooms (t + of_nat i)) [0 ..< m] w"

lemma ticks_0 [simp]: "ticks env rooms t 0 w = w"
  by (simp add: ticks_def)

lemma ticks_Suc: "ticks env rooms t (Suc m) w = tick env rooms (t + of_nat m) (ticks env rooms t m w)"
  by (simp add: ticks_def)

lemma ticks_add: "ticks env rooms t (m + n) w = ticks env rooms (t + of_nat m) n (ticks env rooms t m w)"
  by (induction n) (simp_all add: ticks_Suc add.assoc)

lemma ticks_before:
  assumes "wo_next w b = t + of_nat k" "wo_next w b \<noteq> 0" "k < 2147483648" "j \<le> k"
  shows "wo_next (ticks env rooms t j w) b = wo_next w b \<and> round_count b (ticks env rooms t j w) = round_count b w"
  using assms(4)
proof (induction j)
  case (Suc j)
  let ?w = "ticks env rooms t j w"
  have "wo_next ?w b = wo_next w b" "round_count b ?w = round_count b w" using Suc by simp_all
  then show ?case using plays_missed [of ?w b "env\<lparr>we_now := (\<lambda>_. t + of_nat j)\<rparr>" "turns rooms"]
      before_not_due [of j k t] Suc.prems assms(1-3)
    by (simp add: ticks_Suc tick_turns [of env rooms "t + of_nat j" ?w] round_count_def)
qed simp

lemma tick_due:
  assumes "Some b \<in> set (turns rooms)" "wo_next w b = 0 \<or> t - wo_next w b \<le> 1"
  shows "round_count b w < round_count b (tick env rooms t w) \<and> next_after env b t (tick env rooms t w)"
  using plays_due [OF assms] by (simp add: tick_turns)

text \<open>The cost is less than the bound, so that the battle waits for a second to come, or is due at once.\<close>

definition waits :: "nat \<Rightarrow> u32 \<Rightarrow> world \<Rightarrow> bool" where
  "waits b t w \<longleftrightarrow> wo_next w b = 0 \<or> t - wo_next w b \<le> 1 \<or> (\<exists>k < 2147483648. wo_next w b = t + of_nat k)"

lemma next_waits:
  assumes "next_after env b t w"
  shows "waits b (t + 1) w"
proof -
  obtain c :: u16 where c: "wo_next w b = ucast c + t" using assms by (auto simp: next_after_def)
  show ?thesis
  proof (cases "unat c")
    case 0
    then have "c = 0" by (simp add: unat_eq_0)
    then show ?thesis using c by (simp add: waits_def)
  next
    case (Suc k)
    have "(ucast c :: u32) = of_nat (unat c)" by simp
    then have "wo_next w b = t + 1 + of_nat k" using c Suc by (simp add: add.commute)
    moreover have "k < 2147483648" using unsigned_less [of c, where 'a = nat] Suc by simp
    ultimately show ?thesis unfolding waits_def by blast
  qed
qed

lemma played_again:
  assumes "Some b \<in> set (turns rooms)" "waits b t w"
  shows "\<exists>m. round_count b w < round_count b (ticks env rooms t m w) \<and> waits b (t + of_nat m) (ticks env rooms t m w)"
proof (cases "wo_next w b = 0 \<or> t - wo_next w b \<le> 1")
  case True
  from tick_due [OF assms(1) this, of env] have "round_count b w < round_count b (ticks env rooms t 1 w) \<and>
      waits b (t + of_nat 1) (ticks env rooms t 1 w)"
    using next_waits [of env b t "tick env rooms t w"] by (simp add: ticks_Suc)
  then show ?thesis by blast
next
  case False
  then obtain k where k: "k < 2147483648" "wo_next w b = t + of_nat k" using assms(2) by (auto simp: waits_def)
  let ?w = "ticks env rooms t k w"
  have b: "wo_next ?w b = t + of_nat k" "round_count b ?w = round_count b w"
    using ticks_before [of w b t k k env rooms] k False by simp_all
  then have "t + of_nat k - wo_next ?w b \<le> 1" by simp
  with tick_due [OF assms(1), of ?w "t + of_nat k" env] b have
    "round_count b w < round_count b (ticks env rooms t (Suc k) w) \<and>
      waits b (t + of_nat (Suc k)) (ticks env rooms t (Suc k) w)"
    using next_waits [of env b "t + of_nat k" "tick env rooms (t + of_nat k) ?w"] by (simp add: ticks_Suc add_ac)
  then show ?thesis by blast
qed

lemma played_often:
  assumes "Some b \<in> set (turns rooms)" "waits b t w"
  shows "\<exists>m. round_count b w + n \<le> round_count b (ticks env rooms t m w) \<and> waits b (t + of_nat m) (ticks env rooms t m w)"
proof (induction n)
  case 0
  show ?case by (rule exI [of _ 0]) (simp add: assms(2))
next
  case (Suc n)
  then obtain m where m: "round_count b w + n \<le> round_count b (ticks env rooms t m w)"
    "waits b (t + of_nat m) (ticks env rooms t m w)" by blast
  from played_again [OF assms(1) m(2), of env] obtain l where
    "round_count b (ticks env rooms t m w) < round_count b (ticks env rooms t (m + l) w)"
    "waits b (t + of_nat (m + l)) (ticks env rooms t (m + l) w)"
    by (auto simp: ticks_add add.assoc)
  then show ?case using m(1) by (intro exI [of _ "m + l"]) simp
qed

text \<open>C10: if a pass is made every second and the clock stands still within a pass, a battle of a room at stage 1
  that waits for a second to come plays no round in the passes before that second, plays one in the pass of that
  second (in the very first pass, if the number of that second is 0), and then waits for the second that lies
  the cost of its round later; and it goes on so: if the passes go on for long enough, it plays as many more
  rounds as one likes.  Rounds are counted by the calls of \<^verbatim>\<open>startOneRound\<close>.\<close>

theorem battle_goes_on:
  assumes "Some b \<in> set (turns rooms)" "wo_next w b = t + of_nat k" "k < 2147483648"
    "j = (if wo_next w b = 0 then 0 else k)"
  shows "length (rounds_of b (wo_calls (ticks env rooms t j w))) = length (rounds_of b (wo_calls w)) \<and>
         length (rounds_of b (wo_calls (ticks env rooms t (Suc j) w))) > length (rounds_of b (wo_calls w)) \<and>
         (\<exists>cs. wo_next (ticks env rooms t (Suc j) w) b = ucast (we_time_cost env cs b) + (t + of_nat j)) \<and>
         (\<exists>m. length (rounds_of b (wo_calls (ticks env rooms t m w))) \<ge> length (rounds_of b (wo_calls w)) + n)"
proof -
  have b: "wo_next (ticks env rooms t j w) b = wo_next w b" "round_count b (ticks env rooms t j w) = round_count b w"
    using ticks_before [OF assms(2) _ assms(3), of k env rooms] assms(4) by simp_all
  then have "wo_next (ticks env rooms t j w) b = 0 \<or> t + of_nat j - wo_next (ticks env rooms t j w) b \<le> 1"
    using assms(2,4) by simp
  note d = tick_due [OF assms(1) this, of env]
  have "waits b t w" using assms(2,3) by (auto simp: waits_def)
  with played_often [OF assms(1), of t w n env] b(2) d show ?thesis
    unfolding ticks_Suc round_count_def next_after_def by auto
qed

theorem battle_goes_on_witness:
  "length (rounds_of 0 (wo_calls (ticks calm_world [(1, [None, Some 0])] 100 3 quiet_world))) = length (rounds_of 0 (wo_calls quiet_world)) \<and>
   length (rounds_of 0 (wo_calls (ticks calm_world [(1, [None, Some 0])] 100 (Suc 3) quiet_world))) > length (rounds_of 0 (wo_calls quiet_world)) \<and>
   (\<exists>cs. wo_next (ticks calm_world [(1, [None, Some 0])] 100 (Suc 3) quiet_world) 0 =
      ucast (we_time_cost calm_world cs 0) + (100 + of_nat 3)) \<and>
   (\<exists>m. length (rounds_of 0 (wo_calls (ticks calm_world [(1, [None, Some 0])] 100 m quiet_world))) \<ge>
      length (rounds_of 0 (wo_calls quiet_world)) + 7)"
  by (rule battle_goes_on [where k = 3]) (simp_all add: turns_def quiet_world_def)

section \<open>Rewards\<close>

definition awards_of :: "world_call list \<Rightarrow> (nat \<times> u8) list" where
  "awards_of cs = concat (map (\<lambda>c. case c of AwardSent p l \<Rightarrow> [(p, l)] | _ \<Rightarrow> []) cs)"

lemma awards_append [simp]: "awards_of (cs @ ds) = awards_of cs @ awards_of ds"
  by (simp add: awards_of_def)

text \<open>The times are all 0, so no entry is less than another and each goes to the end.\<close>

lemma rc_insert_end: "list_all (\<lambda>y. rc_time y = 0) xs \<Longrightarrow> rc_time s = 0 \<Longrightarrow> rc_insert s xs = xs @ [s]"
proof -
  assume "list_all (\<lambda>y. rc_time y = 0) xs" "rc_time s = 0"
  then have "\<forall>y \<in> set xs. \<not> lt_rcsort s y" by (auto simp: lt_rcsort_def list_all_iff)
  then have "takeWhile (\<lambda>y. \<not> lt_rcsort s y) xs = xs" "dropWhile (\<lambda>y. \<not> lt_rcsort s y) xs = []" by simp_all
  then show ?thesis unfolding rc_insert_def by simp
qed

definition rc_entry :: "world_env \<Rightarrow> nat \<Rightarrow> rc_sort" where
  "rc_entry env p = \<lparr>rc_player = Some p, rc_total = we_goal env p, rc_time = 0\<rparr>"

lemma enum_pvp:
  assumes "list_all (\<lambda>y. rc_time y = 0) (wo_pvp w)"
  shows "wo_pvp (player_enum_rc env p w) = wo_pvp w @ (if we_goal env p \<noteq> 0 then [rc_entry env p] else [])"
    "wo_calls (player_enum_rc env p w) = wo_calls w"
proof -
  define w1 where "w1 = (if we_arena_pos env p \<noteq> 0 \<and> we_arena_pos env p \<le> 3000
    then let (m, w') = arena_at env (ucast (we_arena_pos env p)) w
         in if am_pl m = None then w'\<lparr>wo_arena := omap_put (ucast (we_arena_pos env p)) (we_member env p) (wo_arena w')\<rparr> else w'
    else w)"
  have w1: "wo_pvp w1 = wo_pvp w" "wo_calls w1 = wo_calls w"
    unfolding w1_def arena_at_def by (simp_all split: option.split)
  have "player_enum_rc env p w = (if we_goal env p \<noteq> 0 then w1\<lparr>wo_pvp := rc_insert (rc_entry env p) (wo_pvp w1)\<rparr> else w1)"
    unfolding player_enum_rc_def Let_def w1_def rc_entry_def ..
  then show "wo_pvp (player_enum_rc env p w) = wo_pvp w @ (if we_goal env p \<noteq> 0 then [rc_entry env p] else [])"
    "wo_calls (player_enum_rc env p w) = wo_calls w"
    using w1 rc_insert_end [OF assms, of "rc_entry env p"] by (simp_all add: rc_entry_def)
qed

text \<open>Whoever scores goes to the end of the list, whatever his points.\<close>

lemma update_pvp_rank_last:
  assumes "list_all (\<lambda>y. rc_time y = 0) (wo_pvp w)"
  shows "wo_pvp (update_pvp_rank p goal pts w) =
    remove_first (\<lambda>s. rc_player s = Some p) (wo_pvp w) @ [\<lparr>rc_player = Some p, rc_total = pts, rc_time = 0\<rparr>]"
proof -
  have "list_all (\<lambda>y. rc_time y = 0) (remove_first (\<lambda>s. rc_player s = Some p) (wo_pvp w))"
    using assms set_remove_first_subset [of _ "wo_pvp w"] by (auto simp: list_all_iff)
  then show ?thesis by (simp add: update_pvp_rank_def world_note_def Let_def rc_insert_end)
qed

lemma enum_all_pvp:
  "list_all (\<lambda>y. rc_time y = 0) (wo_pvp w) \<Longrightarrow>
    wo_pvp (fold (player_enum_rc env) ps w) = wo_pvp w @ map (rc_entry env) (filter (\<lambda>p. we_goal env p \<noteq> 0) ps) \<and>
    wo_calls (fold (player_enum_rc env) ps w) = wo_calls w"
proof (induction ps arbitrary: w)
  case (Cons p ps)
  have "list_all (\<lambda>y. rc_time y = 0) (wo_pvp (player_enum_rc env p w))"
    using Cons.prems enum_pvp [OF Cons.prems, of env p] by (simp add: rc_entry_def)
  from Cons.IH [OF this] show ?case using enum_pvp [OF Cons.prems, of env p] by simp
qed simp

lemma pvp_awards_list:
  "awards_of (wo_calls (pvp_awards env (map (rc_entry env) ps) pos w)) =
     awards_of (wo_calls w) @ zip ps (map (\<lambda>i. pvp_level (pos + of_nat i)) [1 ..< Suc (length ps)])"
proof (induction ps arbitrary: pos w)
  case (Cons p ps)
  let ?w1 = "world_note [GoalCleared p, AwardSent p (pvp_level (pos + 1))] w"
  let ?w2 = "if we_mail env (wo_calls ?w1) then world_note [AwardStored (pvp_level (pos + 1))] ?w1 else ?w1"
  have a: "awards_of (wo_calls ?w2) = awards_of (wo_calls w) @ [(p, pvp_level (pos + 1))]"
    by (simp add: world_note_def awards_of_def)
  have u: "[1 ..< Suc (length (p # ps))] = 1 # map Suc [1 ..< Suc (length ps)]"
    unfolding map_Suc_upt by (simp only: upt_conv_Cons list.size One_nat_def) (simp add: upt_conv_Cons del: upt_Suc)
  have m: "map (\<lambda>i. pvp_level (pos + of_nat i)) (map Suc [1 ..< Suc (length ps)]) =
      map (\<lambda>i. pvp_level (pos + 1 + of_nat i)) [1 ..< Suc (length ps)]" by (simp add: add.assoc)
  have "pvp_awards env (map (rc_entry env) (p # ps)) pos w = pvp_awards env (map (rc_entry env) ps) (pos + 1) ?w2"
    by (simp add: rc_entry_def Let_def)
  moreover have "zip (p # ps) (map (\<lambda>i. pvp_level (pos + of_nat i)) [1 ..< Suc (length (p # ps))]) =
      (p, pvp_level (pos + 1)) # zip ps (map (\<lambda>i. pvp_level (pos + 1 + of_nat i)) [1 ..< Suc (length ps)])"
    by (simp only: u list.map m zip_Cons_Cons of_nat_1)
  ultimately show ?case by (simp only: Cons.IH a append_assoc append_Cons append_Nil)
qed (simp add: awards_of_def)

text \<open>The first rewards go to the players with points in the order they are enumerated in, whatever their points,
  and the reward of the n-th is that of n modulo 256.\<close>

theorem pvp_award_ignores_points:
  assumes "\<not> wo_ranked w" "wo_pvp w = []"
  shows "awards_of (wo_calls (pvp_award env w)) = awards_of (wo_calls w) @
    (let ps = filter (\<lambda>p. we_goal env p \<noteq> 0) (we_players env)
     in zip ps (map (\<lambda>n. pvp_level (of_nat n)) [1 ..< Suc (length ps)]))"
proof -
  let ?w = "init_rank env w"
  have "wo_pvp ?w = map (rc_entry env) (filter (\<lambda>p. we_goal env p \<noteq> 0) (we_players env)) \<and> wo_calls ?w = wo_calls w"
    using enum_all_pvp [of w env "we_players env"] assms by (simp add: init_rank_def)
  then show ?thesis
    using pvp_awards_list [of env "filter (\<lambda>p. we_goal env p \<noteq> 0) (we_players env)" 0 ?w]
    by (simp add: pvp_award_def Let_def)
qed

theorem pvp_award_ignores_points_witness:
  "awards_of (wo_calls (pvp_award calm_world quiet_world)) = [(1, 1), (2, 2)]"
  using pvp_award_ignores_points [of quiet_world calm_world]
  by (simp add: calm_world_def quiet_world_def Let_def awards_of_def pvp_level_def)

section \<open>The timer of midnight\<close>

text \<open>\<^verbatim>\<open>SharpDay\<close> gives the last midnight of the local time, within twelve hours of Greenwich.\<close>

theorem sharp_day_is_midnight:
  assumes "\<bar>tz\<bar> \<le> 43200" "172800 \<le> uint cur" "uint cur < 4294000000"
  shows "uint (sharp_day tz 0 cur) \<le> uint cur \<and> uint cur < uint (sharp_day tz 0 cur) + 86400 \<and>
    (uint (sharp_day tz 0 cur) - tz) mod 86400 = 0"
  using sharp_day_int [OF assms] by simp

theorem sharp_day_is_midnight_witness:
  "uint (sharp_day (- 28800) 0 1460000000) \<le> 1460000000 \<and> (uint (sharp_day (- 28800) 0 1460000000) + 28800) mod 86400 = 0"
  using sharp_day_is_midnight [of "- 28800" 1460000000] by simp

text \<open>The task of midnight is first called ten seconds before the next midnight, less than a day from now.\<close>

theorem midnight_timer:
  assumes "\<bar>tz\<bar> \<le> 43200" "172800 \<le> uint now" "uint now < 4294000000"
  shows "\<exists>d. midnight_wait tz now now = of_int (d * 1000) \<and> 0 \<le> d \<and> d < 86400 \<and> (uint now + d - tz) mod 86400 = 86390"
proof -
  define m where "m = uint (sharp_day tz 0 now)"
  note b = sharp_day_int [OF assms, folded m_def]
  have sm: "sharp_day tz 1 now - 10 = of_int (m + 86390)"
    by (simp add: sharp_day_def Let_def m_def)
  have u: "uint (of_int (m + 86390) :: u32) = m + 86390"
  proof -
    have "m + 86390 < 4294967296" "0 \<le> m + 86390" using b assms(3) by (linarith, simp add: m_def)
    then show ?thesis by (simp only: uint_word_of_int) simp
  qed
  have n: "(of_int (uint now) :: u32) = now" by simp
  define d where "d = (if m + 86390 < uint now then m + 172790 else m + 86390) - uint now"
  have "midnight_wait tz now now = of_int (d * 1000)"
  proof -
    have "(of_int (m + 86390) < now) = (m + 86390 < uint now)" by (simp only: word_less_def u)
    then have "midnight_wait tz now now = ((if m + 86390 < uint now then of_int (m + 172790) else of_int (m + 86390)) - now) * 1000"
      by (simp add: midnight_wait_def wait_until_def sm)
    also have "\<dots> = (of_int (if m + 86390 < uint now then m + 172790 else m + 86390) - of_int (uint now)) * 1000" by simp
    also have "\<dots> = of_int (d * 1000)" unfolding d_def by (simp only: of_int_diff of_int_mult of_int_numeral)
    finally show ?thesis .
  qed
  moreover have "0 \<le> d" "d < 86400" using b unfolding d_def by simp_all
  moreover have "(uint now + d - tz) mod 86400 = 86390"
  proof -
    obtain k where "m - tz = k * 86400" using b(3) by (metis mod_0_imp_dvd dvd_def mult.commute)
    then have "uint now + d - tz = 86390 + (if m + 86390 < uint now then k + 1 else k) * 86400" unfolding d_def by simp
    then show ?thesis by (simp only: mod_mult_self1) simp
  qed
  ultimately show ?thesis by blast
qed

theorem midnight_timer_witness:
  "\<exists>d. midnight_wait (- 28800) 1460000000 1460000000 = of_int (d * 1000) \<and> 0 \<le> d \<and> d < 86400 \<and>
    (1460000000 + d + 28800) mod 86400 = 86390"
  using midnight_timer [of "- 28800" 1460000000] by simp

text \<open>\<^verbatim>\<open>MkTime\<close> takes the hour, the minute and the second down by one, like the month; hour 24 becomes -1.\<close>

lemma mk_time_one_early:
  assumes "0 < hh" "hh < 24" "0 < mm" "mm < 61" "0 < ss" "ss < 61"
  shows "drop 3 (mk_time y m d hh mm ss) = [hh - 1, mm - 1, ss - 1]"
proof -
  have "hh mod 25 = hh" "hh mod 24 = hh" "mm mod 61 = mm" "ss mod 61 = ss"
    using assms by (simp_all add: word_arith_nat_mod word_less_nat_alt)
  then show ?thesis using assms by (auto simp: mk_time_def)
qed

lemma mk_time_hour_24: "mk_time 2016 3 15 24 0 0 = [116, 2, 15, - 1, 0, 0]"
  by (simp add: mk_time_def)

text \<open>The delay of \<^verbatim>\<open>World_Govern_SendInfo\<close> is the time itself, not what is left until then, times 1000 and cut to 32 bits.\<close>

lemma govern_info_wait_is_absolute: "govern_info_wait 1460000000 = 4007687656 \<and> sharp_hour 1 1460000000 - 1460000000 = 1600"
  by (simp add: govern_info_wait_def sharp_hour_def sharp_def Let_def)

section \<open>Fighters and natives\<close>

text \<open>Placing the fighters of a map makes the battle, puts every fighter of the room, and natives only when the city has
  no force of its own and only on cells none of the fighters has.\<close>

theorem put_map_keeps_cells_free:
  assumes "put_map env r (m, ds) w = Some w'"
  shows "\<exists>ns :: npc_info list. wo_calls w' = wo_calls w @ BattleMade r m # map (place_fighter env) ds @
      map (\<lambda>n. NpcPlaced (ni_fighter n) (ni_x n) (ni_y n)) ns @ [BattleInserted r m] \<and>
    (\<forall>n \<in> set ns. \<forall>d \<in> set ds. (di_x d, di_y d) \<noteq> (ni_x n, ni_y n)) \<and> (we_city_force env r m \<noteq> 0 \<longrightarrow> ns = [])"
proof (cases "we_city_force env r m = 0")
  case True
  then obtain ns where ns: "w' = world_note (map (\<lambda>n. NpcPlaced (ni_fighter n) (ni_x n) (ni_y n)) (free_npcs ds ns) @ [BattleInserted r m])
      (world_note (BattleMade r m # map (place_fighter env) ds) w)"
    using assms by (auto simp: put_map_def Let_def bind_eq_Some_conv)
  have "\<forall>n \<in> set (free_npcs ds ns). \<forall>d \<in> set ds. (di_x d, di_y d) \<noteq> (ni_x n, ni_y n)"
    by (auto simp: free_npcs_def list_ex_iff)
  then show ?thesis using True unfolding ns by (intro exI [of _ "free_npcs ds ns"]) (simp add: world_note_def)
qed (use assms in \<open>auto simp: put_map_def world_note_def\<close>)

theorem put_map_keeps_cells_free_witness:
  "\<exists>w' (ns :: npc_info list). put_map calm_world 3 (1, [\<lparr>di_player = 9, di_fighter = 8, di_x = 2, di_y = 2\<rparr>]) quiet_world = Some w' \<and>
    wo_calls w' = [BattleMade 3 1, NpcPlaced 8 2 2] @ map (\<lambda>n. NpcPlaced (ni_fighter n) (ni_x n) (ni_y n)) ns @ [BattleInserted 3 1]"
proof -
  let ?ds = "[\<lparr>di_player = 9, di_fighter = 8, di_x = 2, di_y = 2\<rparr>]"
  have "\<exists>w'. put_map calm_world 3 (1, ?ds) quiet_world = Some w'"
    by (simp add: put_map_def calm_world_def Let_def)
  then obtain w' where w': "put_map calm_world 3 (1, ?ds) quiet_world = Some w'" ..
  from put_map_keeps_cells_free [OF this] w' show ?thesis
    by (force simp: quiet_world_def calm_world_def place_fighter_def)
qed

end
