(* ===== verification/WorkerLoop.thy ===== *)
theory WorkerLoop
  imports Prelude
begin

text \<open>
  \<^verbatim>\<open>WorkerRunner\<close> of \<^verbatim>\<open>Server/WorkerRunner.h\<close>: what a worker's thread does from start to end, with its timers, and how other
  threads pause, resume and stop it.

  The state has a field for each member of the class, the memory of \<^verbatim>\<open>TimerEvent\<close>s by address (\<open>rn_tes\<close>), and the
  events that libevent has been asked for (\<open>rn_lib\<close>): the function and the argument of an event, whether it is
  persistent, and the time it was added with, if it is pending.  libevent, the allocator and the code that timers, messages and
  subclasses run are parameters (\<open>runner_env\<close>); that code may call the runner's public operations (\<open>runner_op\<close>).
  \<open>rn_calls\<close> lists the code entered and what is told to others, in order.  \<open>None\<close> is undefined behaviour or code that
  does not return.
\<close>

section \<open>State\<close>

datatype timer_cb = MsgProcess | TimerProcess | Task nat

datatype event_fn = TimerFn | FirstTimeFn

record timer_event =
  te_ev :: "nat option"
  te_cb :: timer_cb
  te_interval :: u32

record lib_event =
  le_fn :: event_fn
  le_te :: nat
  le_persist :: bool
  le_wait :: "(u32 \<times> u32) option"

datatype user_code = TaskBody nat | Handlers | OnTimerBody | OnPauseBody | InitBody | UnInitBody

datatype runner_op = OpAdd u32 nat u32 | OpRemove nat | OpPause | OpResume | OpShutdown

datatype runner_call =
    Entered user_code
  | TimerMade "nat option"
  | TimerRemoved bool
  | LoopBreak
  | Traced
  | EventFreed nat
  | BaseFreed
  | HandlerMade
  | Deregistered
  | HandlerDeleted
  | LogDeleted

record runner =
  rn_active :: bool
  rn_pause :: bool
  rn_check_pause :: bool
  rn_handler :: bool
  rn_handler_down :: bool
  rn_tick :: u32
  rn_log :: bool
  rn_base :: bool
  rn_events :: "(nat \<times> nat) list"
  rn_tes :: "nat \<Rightarrow> timer_event option"
  rn_lib :: "nat \<Rightarrow> lib_event option"
  rn_break :: bool
  rn_calls :: "runner_call list"

text \<open>\<open>re_te\<close> and \<open>re_event\<close> are the addresses \<^verbatim>\<open>new(nothrow)\<close> and \<^verbatim>\<open>event_new\<close> return; \<open>re_added\<close> says that \<^verbatim>\<open>event_add\<close>
  has succeeded; \<open>re_body\<close> is what a piece of code calls of the runner.\<close>

record runner_env =
  re_te :: "runner \<Rightarrow> nat option"
  re_event :: "runner \<Rightarrow> nat option"
  re_added :: "runner \<Rightarrow> nat \<Rightarrow> bool"
  re_body :: "user_code \<Rightarrow> runner \<Rightarrow> runner_op list"
  re_base :: bool
  re_log :: bool
  re_init :: "runner \<Rightarrow> bool"

definition runner_note :: "runner_call list \<Rightarrow> runner \<Rightarrow> runner" where
  "runner_note cs r = r\<lparr>rn_calls := rn_calls r @ cs\<rparr>"

definition new_runner :: "u32 \<Rightarrow> runner" where
  "new_runner tv = \<lparr>rn_active = False, rn_pause = False, rn_check_pause = False, rn_handler = False, rn_handler_down = False,
     rn_tick = tv, rn_log = False, rn_base = False, rn_events = [], rn_tes = (\<lambda>_. None), rn_lib = (\<lambda>_. None),
     rn_break = False, rn_calls = []\<rparr>"

text \<open>An address in use is never returned: such an answer of the parameters counts as no memory.\<close>

definition new_te :: "runner_env \<Rightarrow> runner \<Rightarrow> nat option" where
  "new_te env r = (case re_te env r of Some t \<Rightarrow> if rn_tes r t = None then Some t else None | None \<Rightarrow> None)"

definition event_new :: "runner_env \<Rightarrow> runner \<Rightarrow> nat option" where
  "event_new env r = (case re_event env r of Some e \<Rightarrow> if rn_lib r e = None then Some e else None | None \<Rightarrow> None)"

section \<open>Control by other threads\<close>

definition pause :: "runner \<Rightarrow> runner" where
  "pause r = (if rn_pause r then r else r\<lparr>rn_check_pause := True, rn_pause := True\<rparr>)"

definition resume :: "runner \<Rightarrow> runner" where
  "resume r = (if \<not> rn_pause r then r else r\<lparr>rn_pause := False\<rparr>)"

definition shutdown :: "runner \<Rightarrow> runner" where
  "shutdown r = (let r1 = r\<lparr>rn_active := False\<rparr> in if rn_handler r1 then r1\<lparr>rn_handler_down := True\<rparr> else r1)"

section \<open>Timers\<close>

definition timeval_of :: "u32 \<Rightarrow> u32 \<times> u32" where
  "timeval_of ms = (ms div 1000, ms mod 1000 * 1000)"

definition put_te :: "nat \<Rightarrow> timer_event \<Rightarrow> runner \<Rightarrow> runner" where
  "put_te t x r = r\<lparr>rn_tes := (rn_tes r)(t := Some x)\<rparr>"

definition put_lib :: "nat \<Rightarrow> lib_event \<Rightarrow> runner \<Rightarrow> runner" where
  "put_lib e x r = r\<lparr>rn_lib := (rn_lib r)(e := Some x)\<rparr>"

definition delete_te :: "nat \<Rightarrow> runner \<Rightarrow> runner" where
  "delete_te t r = r\<lparr>rn_tes := (rn_tes r)(t := None)\<rparr>"

definition event_free :: "nat \<Rightarrow> runner \<Rightarrow> runner" where
  "event_free e r = r\<lparr>rn_lib := (rn_lib r)(e := None)\<rparr>"

text \<open>\<^verbatim>\<open>AddTimer\<close> up to the call of a task without a first delay: the event and its record, or nothing.\<close>

definition prepare_timer :: "runner_env \<Rightarrow> u32 \<Rightarrow> timer_cb \<Rightarrow> u32 \<Rightarrow> runner \<Rightarrow> (nat \<times> nat) option \<times> runner" where
  "prepare_timer env interval cb first r =
     (case new_te env r of
        None \<Rightarrow> (None, r)
      | Some t \<Rightarrow>
          let te = \<lparr>te_ev = None, te_cb = cb, te_interval = interval\<rparr>;
              r1 = put_te t te r;
              whole = (first = 0 \<or> first = 0xFFFFFFFF);
              le = \<lparr>le_fn = (if whole then TimerFn else FirstTimeFn), le_te = t, le_persist = whole, le_wait = None\<rparr>
          in case event_new env r1 of
               None \<Rightarrow> (None, delete_te t r1)
             | Some e \<Rightarrow>
                 let r2 = put_te t (te\<lparr>te_ev := Some e\<rparr>) (put_lib e le r1)
                 in if re_added env r2 e
                    then (Some (e, t), put_lib e (le\<lparr>le_wait := Some (timeval_of (if whole then interval else first))\<rparr>) r2)
                    else (None, delete_te t (event_free e r2)))"

definition register_timer :: "nat \<Rightarrow> nat \<Rightarrow> runner \<Rightarrow> runner" where
  "register_timer e t r = r\<lparr>rn_events := omap_put e t (rn_events r)\<rparr>"

definition drop_timer :: "nat \<Rightarrow> nat \<Rightarrow> runner \<Rightarrow> runner" where
  "drop_timer e t r = (delete_te t (event_free e r))\<lparr>rn_events := omap_del e (rn_events r)\<rparr>"

definition remove_timer :: "nat \<Rightarrow> runner \<Rightarrow> bool \<times> runner" where
  "remove_timer e r = (case map_of (rn_events r) e of Some t \<Rightarrow> (True, drop_timer e t r) | None \<Rightarrow> (False, r))"

text \<open>The public operations that code run by the worker calls; a task added without a first delay runs inside the call,
  before its timer is entered into \<^verbatim>\<open>_events\<close>.\<close>

partial_function (option) perform :: "runner_env \<Rightarrow> runner_op list \<Rightarrow> runner \<Rightarrow> runner option" where
  "perform env ops r =
     (case ops of
        [] \<Rightarrow> Some r
      | OpPause # rest \<Rightarrow> perform env rest (pause r)
      | OpResume # rest \<Rightarrow> perform env rest (resume r)
      | OpShutdown # rest \<Rightarrow> perform env rest (shutdown r)
      | OpRemove e # rest \<Rightarrow> (case remove_timer e r of (b, r1) \<Rightarrow> perform env rest (runner_note [TimerRemoved b] r1))
      | OpAdd interval n first # rest \<Rightarrow>
          (case prepare_timer env interval (Task n) first r of
             (None, r1) \<Rightarrow> perform env rest (runner_note [TimerMade None] r1)
           | (Some (e, t), r1) \<Rightarrow>
               do { r2 \<leftarrow> (if first = 0
                            then perform env (re_body env (TaskBody n) r1) (runner_note [Entered (TaskBody n)] r1)
                            else Some r1);
                    perform env rest (runner_note [TimerMade (Some e)] (register_timer e t r2)) }))"

definition enter :: "runner_env \<Rightarrow> user_code \<Rightarrow> runner \<Rightarrow> runner option" where
  "enter env c r = perform env (re_body env c r) (runner_note [Entered c] r)"

section \<open>The worker's own timers\<close>

definition ask_break :: "runner \<Rightarrow> runner" where
  "ask_break r = (if \<not> rn_active r then runner_note [LoopBreak] (r\<lparr>rn_break := True\<rparr>) else r)"

definition check_pause :: "runner_env \<Rightarrow> runner \<Rightarrow> runner option" where
  "check_pause env r =
     (if rn_check_pause r then do { r1 \<leftarrow> enter env OnPauseBody r; Some (r1\<lparr>rn_check_pause := False\<rparr>) } else Some r)"

definition do_process_msg :: "runner_env \<Rightarrow> runner \<Rightarrow> runner option" where
  "do_process_msg env r =
     (let r1 = ask_break r
      in if rn_pause r1 then check_pause env r1
         else if rn_handler r1 then enter env Handlers r1 else None)"

definition do_process_timer :: "runner_env \<Rightarrow> runner \<Rightarrow> runner option" where
  "do_process_timer env r =
     (let r1 = ask_break r
      in if rn_pause r1 then check_pause env r1 else enter env OnTimerBody r1)"

definition run_cb :: "runner_env \<Rightarrow> timer_cb \<Rightarrow> runner \<Rightarrow> runner option" where
  "run_cb env cb r =
     (case cb of MsgProcess \<Rightarrow> do_process_msg env r | TimerProcess \<Rightarrow> do_process_timer env r | Task n \<Rightarrow> enter env (TaskBody n) r)"

definition add_timer :: "runner_env \<Rightarrow> u32 \<Rightarrow> timer_cb \<Rightarrow> u32 \<Rightarrow> runner \<Rightarrow> (nat option \<times> runner) option" where
  "add_timer env interval cb first r =
     (case prepare_timer env interval cb first r of
        (None, r1) \<Rightarrow> Some (None, r1)
      | (Some (e, t), r1) \<Rightarrow>
          do { r2 \<leftarrow> (if first = 0 then run_cb env cb r1 else Some r1);
               Some (Some e, register_timer e t r2) })"

section \<open>Events\<close>

definition event_timer_process :: "runner_env \<Rightarrow> nat \<Rightarrow> runner \<Rightarrow> runner option" where
  "event_timer_process env t r = do { te \<leftarrow> rn_tes r t; run_cb env (te_cb te) r }"

text \<open>The record is read again after the task: \<open>None\<close> when the task has removed the timer.\<close>

definition event_timer_process_firsttime :: "runner_env \<Rightarrow> nat \<Rightarrow> runner \<Rightarrow> runner option" where
  "event_timer_process_firsttime env t r =
     do { te \<leftarrow> rn_tes r t;
          r1 \<leftarrow> run_cb env (te_cb te) r;
          te1 \<leftarrow> rn_tes r1 t;
          e \<leftarrow> te_ev te1;
          _ \<leftarrow> rn_lib r1 e;
          let le = \<lparr>le_fn = TimerFn, le_te = t, le_persist = True, le_wait = None\<rparr>; r2 = put_lib e le r1
          in if re_added env r2 e then Some (put_lib e (le\<lparr>le_wait := Some (timeval_of (te_interval te1))\<rparr>) r2)
             else Some (drop_timer e t r2) }"

text \<open>libevent calls the function of an event that is due; one that is not persistent is no longer pending then.\<close>

definition fire :: "runner_env \<Rightarrow> nat \<Rightarrow> runner \<Rightarrow> runner option" where
  "fire env e r =
     do { le \<leftarrow> rn_lib r e;
          let r1 = (if le_persist le then r else put_lib e (le\<lparr>le_wait := None\<rparr>) r)
          in case le_fn le of TimerFn \<Rightarrow> event_timer_process env (le_te le) r1
             | FirstTimeFn \<Rightarrow> event_timer_process_firsttime env (le_te le) r1 }"

text \<open>A step of the loop fires a pending event, in whatever order they become due, or is another thread's control.\<close>

inductive loop_step :: "runner_env \<Rightarrow> runner \<Rightarrow> runner \<Rightarrow> bool" for env where
  fired: "\<not> rn_break r \<Longrightarrow> rn_lib r e = Some le \<Longrightarrow> le_wait le \<noteq> None \<Longrightarrow> fire env e r = Some r' \<Longrightarrow> loop_step env r r'"
| paused: "loop_step env r (pause r)"
| resumed: "loop_step env r (resume r)"
| stopped: "loop_step env r (shutdown r)"

section \<open>Start and end\<close>

text \<open>\<^verbatim>\<open>event_base_loop\<close> forgets an earlier request to break off.\<close>

definition run :: "runner_env \<Rightarrow> runner \<Rightarrow> runner option" where
  "run env r =
     do { (_, r1) \<leftarrow> add_timer env 25 MsgProcess 0 r;
          (_, r2) \<leftarrow> (if rn_tick r1 > 0 then add_timer env (rn_tick r1) TimerProcess 0 r1 else Some (None, r1));
          Some (r2\<lparr>rn_active := True, rn_break := False\<rparr>) }"

text \<open>\<^verbatim>\<open>OutTrace\<close> needs the log, and \<^verbatim>\<open>TID()\<close>, which is pure in the destructor (\<open>late\<close>).\<close>

definition out_trace :: "bool \<Rightarrow> runner \<Rightarrow> runner option" where
  "out_trace late r = (if late \<or> \<not> rn_log r then None else Some (runner_note [Traced] r))"

definition destroy_event :: "bool \<Rightarrow> runner \<Rightarrow> nat \<times> nat \<Rightarrow> runner option" where
  "destroy_event late r et =
     (case et of (e, t) \<Rightarrow> do { r1 \<leftarrow> out_trace late r; Some (runner_note [EventFreed e] (delete_te t (event_free e r1))) })"

definition destroy :: "bool \<Rightarrow> runner \<Rightarrow> runner option" where
  "destroy late r =
     do { r1 \<leftarrow> foldm (destroy_event late) r (rn_events r);
          let r2 = r1\<lparr>rn_events := []\<rparr>;
          r3 \<leftarrow> (if \<not> rn_base r2 then do { r' \<leftarrow> out_trace late r2; Some (runner_note [BaseFreed] r') } else Some r2);
          r4 \<leftarrow> (if rn_handler r3
                  then do { r' \<leftarrow> out_trace late (runner_note [Deregistered] r3);
                            Some (runner_note [HandlerDeleted] (r'\<lparr>rn_handler := False\<rparr>)) }
                  else Some r3);
          Some (if rn_log r4 then runner_note [LogDeleted] (r4\<lparr>rn_log := False\<rparr>) else r4) }"

text \<open>\<^verbatim>\<open>RunnerProc\<close> up to the loop: \<open>Inl\<close> is the exception, \<open>Inr\<close> says whether \<^verbatim>\<open>Init\<close> has let the loop begin.\<close>

definition runner_start :: "runner_env \<Rightarrow> runner \<Rightarrow> (runner + bool \<times> runner) option" where
  "runner_start env r =
     (let r1 = r\<lparr>rn_log := rn_log r \<or> re_log env, rn_base := re_base env\<rparr>
      in if \<not> rn_base r1 then do { r2 \<leftarrow> destroy False r1; Some (Inl r2) }
         else do { r2 \<leftarrow> enter env InitBody r1;
                   if re_init env r1
                   then do { r3 \<leftarrow> run env (runner_note [HandlerMade] (r2\<lparr>rn_handler := True, rn_handler_down := False\<rparr>));
                             Some (Inr (True, r3)) }
                   else Some (Inr (False, r2)) })"

definition runner_stop :: "runner_env \<Rightarrow> bool \<Rightarrow> runner \<Rightarrow> runner option" where
  "runner_stop env looped r =
     do { r1 \<leftarrow> (if looped then enter env UnInitBody r else Some r); destroy False r1 }"

definition loop_over :: "runner \<Rightarrow> bool" where
  "loop_over r \<longleftrightarrow> rn_break r \<or> (\<forall>e le. rn_lib r e = Some le \<longrightarrow> le_wait le = None)"

inductive runner_proc :: "runner_env \<Rightarrow> runner \<Rightarrow> runner \<Rightarrow> bool" for env where
  looped: "runner_start env r = Some (Inr (True, r1)) \<Longrightarrow> (loop_step env)\<^sup>*\<^sup>* r1 r2 \<Longrightarrow> loop_over r2 \<Longrightarrow>
    runner_stop env True r2 = Some r3 \<Longrightarrow> runner_proc env r r3"
| refused: "runner_start env r = Some (Inr (False, r1)) \<Longrightarrow> runner_stop env False r1 = Some r2 \<Longrightarrow> runner_proc env r r2"
| thrown: "runner_start env r = Some (Inl r1) \<Longrightarrow> runner_proc env r r1"

section \<open>Who owns the timers\<close>

text \<open>\<open>P\<close> holds the timers that \<^verbatim>\<open>AddTimer\<close> has prepared and not yet entered into \<^verbatim>\<open>_events\<close>.\<close>

definition timer_at :: "(nat \<Rightarrow> nat option) \<Rightarrow> runner \<Rightarrow> nat \<Rightarrow> nat option" where
  "timer_at P r e = (case P e of Some t \<Rightarrow> Some t | None \<Rightarrow> map_of (rn_events r) e)"

definition owned :: "(nat \<Rightarrow> nat option) \<Rightarrow> runner \<Rightarrow> bool" where
  "owned P r \<longleftrightarrow> omap_ok (rn_events r) \<and> (\<forall>e. P e = None \<or> map_of (rn_events r) e = None) \<and>
     (\<forall>e. timer_at P r e = map_option le_te (rn_lib r e)) \<and>
     (\<forall>e t. timer_at P r e = Some t \<longleftrightarrow> (\<exists>x. rn_tes r t = Some x \<and> te_ev x = Some e)) \<and>
     (\<forall>t x. rn_tes r t = Some x \<longrightarrow> te_ev x \<noteq> None)"

lemma timer_at_frame: "rn_events r' = rn_events r \<Longrightarrow> timer_at P r' = timer_at P r"
  by (simp add: timer_at_def fun_eq_iff split: option.split)

lemma owned_frame:
  assumes "rn_events r' = rn_events r" "rn_tes r' = rn_tes r" "rn_lib r' = rn_lib r"
  shows "owned P r' = owned P r"
  using assms timer_at_frame [OF assms(1)] by (simp add: owned_def)

lemma owned_events: "owned P r \<Longrightarrow> omap_ok (rn_events r)"
  by (simp only: owned_def)

lemma owned_apart: "owned P r \<Longrightarrow> P e = None \<or> map_of (rn_events r) e = None"
  by (simp only: owned_def)

lemma owned_lib: "owned P r \<Longrightarrow> timer_at P r e = map_option le_te (rn_lib r e)"
  by (simp only: owned_def)

lemma owned_te: "owned P r \<Longrightarrow> timer_at P r e = Some t \<longleftrightarrow> (\<exists>x. rn_tes r t = Some x \<and> te_ev x = Some e)"
  unfolding owned_def by (elim conjE) (erule allE [of _ e], erule allE [of _ e], erule allE [of _ e], erule allE [of _ t])

lemma owned_ev: "owned P r \<Longrightarrow> rn_tes r t = Some x \<Longrightarrow> te_ev x \<noteq> None"
  unfolding owned_def by blast

lemma ownedI:
  "omap_ok (rn_events r) \<Longrightarrow> (\<And>e. P e = None \<or> map_of (rn_events r) e = None) \<Longrightarrow>
    (\<And>e. timer_at P r e = map_option le_te (rn_lib r e)) \<Longrightarrow>
    (\<And>e t. timer_at P r e = Some t \<longleftrightarrow> (\<exists>x. rn_tes r t = Some x \<and> te_ev x = Some e)) \<Longrightarrow>
    (\<And>t x. rn_tes r t = Some x \<Longrightarrow> te_ev x \<noteq> None) \<Longrightarrow> owned P r"
  unfolding owned_def by blast

lemma owned_control [simp]:
  "owned P (pause r) = owned P r" "owned P (resume r) = owned P r" "owned P (shutdown r) = owned P r"
  "owned P (runner_note cs r) = owned P r" "owned P (ask_break r) = owned P r"
  "owned P (r\<lparr>rn_check_pause := b\<rparr>) = owned P r" "owned P (r\<lparr>rn_active := b\<rparr>) = owned P r" "owned P (r\<lparr>rn_break := b\<rparr>) = owned P r"
  "owned P (r\<lparr>rn_handler := b\<rparr>) = owned P r" "owned P (r\<lparr>rn_handler_down := b\<rparr>) = owned P r"
  "owned P (r\<lparr>rn_log := b\<rparr>) = owned P r" "owned P (r\<lparr>rn_base := b\<rparr>) = owned P r"
  by (rule owned_frame; simp add: pause_def resume_def shutdown_def runner_note_def ask_break_def Let_def)+

lemma prepare_none: "prepare_timer env i cb f r = (None, r1) \<Longrightarrow> r1 = r"
  by (auto simp: prepare_timer_def new_te_def event_new_def Let_def put_te_def put_lib_def delete_te_def event_free_def
      fun_upd_idem split: option.splits if_splits)

lemma prepare_some:
  assumes "prepare_timer env i cb f r = (Some (e, t), r1)"
  shows "rn_tes r t = None" "rn_lib r e = None"
    "\<exists>le. le_te le = t \<and> le_wait le \<noteq> None \<and>
      r1 = r\<lparr>rn_tes := (rn_tes r)(t := Some \<lparr>te_ev = Some e, te_cb = cb, te_interval = i\<rparr>), rn_lib := (rn_lib r)(e := Some le)\<rparr>"
proof -
  obtain t' where t': "new_te env r = Some t'" using assms by (auto simp: prepare_timer_def split: option.splits)
  define r' where "r' = put_te t' \<lparr>te_ev = None, te_cb = cb, te_interval = i\<rparr> r"
  obtain e' where e': "event_new env r' = Some e'"
    using assms t' by (auto simp: prepare_timer_def Let_def r'_def split: option.splits)
  define le where "le = \<lparr>le_fn = if f = 0 \<or> f = 0xFFFFFFFF then TimerFn else FirstTimeFn, le_te = t', le_persist = f = 0 \<or> f = 0xFFFFFFFF,
    le_wait = Some (timeval_of (if f = 0 \<or> f = 0xFFFFFFFF then i else f))\<rparr>"
  have et: "e' = e" "t' = t" and r1: "r1 = put_lib e le (put_te t \<lparr>te_ev = Some e, te_cb = cb, te_interval = i\<rparr>
      (put_lib e (le\<lparr>le_wait := None\<rparr>) r'))"
    using assms t' e' by (auto simp: prepare_timer_def Let_def r'_def le_def split: if_splits)
  show "rn_tes r t = None" using t' et by (auto simp: new_te_def split: option.splits if_splits)
  show "rn_lib r e = None" using e' et by (auto simp: event_new_def r'_def put_te_def split: option.splits if_splits)
  show "\<exists>le. le_te le = t \<and> le_wait le \<noteq> None \<and>
      r1 = r\<lparr>rn_tes := (rn_tes r)(t := Some \<lparr>te_ev = Some e, te_cb = cb, te_interval = i\<rparr>), rn_lib := (rn_lib r)(e := Some le)\<rparr>"
    using r1 et by (intro exI [of _ le]) (simp add: r'_def le_def put_te_def put_lib_def)
qed

lemma prepare_owned:
  assumes "owned P r" "prepare_timer env i cb f r = (Some (e, t), r1)"
  shows "owned (P(e := Some t)) r1 \<and> P e = None"
proof -
  define x where "x = \<lparr>te_ev = Some e, te_cb = cb, te_interval = i\<rparr>"
  from prepare_some [OF assms(2)] obtain le where p: "rn_tes r t = None" "rn_lib r e = None" "te_ev x = Some e" "le_te le = t"
      "r1 = r\<lparr>rn_tes := (rn_tes r)(t := Some x), rn_lib := (rn_lib r)(e := Some le)\<rparr>" unfolding x_def by auto
  have "timer_at P r e = None" using owned_lib [OF assms(1), of e] p(2) by simp
  then have free: "P e = None" "map_of (rn_events r) e = None" by (auto simp: timer_at_def split: option.splits)
  have T: "timer_at (P(e := Some t)) r1 = (timer_at P r)(e := Some t)"
    unfolding p(5) by (auto simp: timer_at_def fun_eq_iff split: option.split)
  have new: "timer_at P r e' \<noteq> Some t" for e' using owned_te [OF assms(1), of e' t] p(1) by simp
  have "owned (P(e := Some t)) r1"
  proof (rule ownedI, unfold T)
    show "omap_ok (rn_events r1)" using owned_events [OF assms(1)] p(5) by simp
    show "(P(e := Some t)) e' = None \<or> map_of (rn_events r1) e' = None" for e'
      using owned_apart [OF assms(1), of e'] free p(5) by simp
    show "((timer_at P r)(e := Some t)) e' = map_option le_te (rn_lib r1 e')" for e'
      using owned_lib [OF assms(1), of e'] p by simp
    show "((timer_at P r)(e := Some t)) e' = Some t' \<longleftrightarrow> (\<exists>x. rn_tes r1 t' = Some x \<and> te_ev x = Some e')" for e' t'
      using owned_te [OF assms(1), of e' t'] new [of e'] p free by (auto simp: timer_at_def)
    show "rn_tes r1 t' = Some y \<Longrightarrow> te_ev y \<noteq> None" for t' y
      using owned_ev [OF assms(1), of t' y] p by (auto split: if_splits)
  qed
  with free show ?thesis by simp
qed

lemma register_owned:
  assumes "owned (P(e := Some t)) r" "P e = None"
  shows "owned P (register_timer e t r)"
proof -
  let ?r = "register_timer e t r"
  have T: "timer_at P ?r = timer_at (P(e := Some t)) r"
    using assms(2) by (auto simp: timer_at_def register_timer_def omap_put_get fun_eq_iff split: option.splits)
  show ?thesis
  proof (rule ownedI, unfold T)
    show "omap_ok (rn_events ?r)" using owned_events [OF assms(1)] by (simp add: register_timer_def omap_put_ok)
    show "P e' = None \<or> map_of (rn_events ?r) e' = None" for e'
      using owned_apart [OF assms(1), of e'] assms(2) by (auto simp: register_timer_def omap_put_get split: if_splits)
    show "timer_at (P(e := Some t)) r e' = map_option le_te (rn_lib ?r e')" for e'
      using owned_lib [OF assms(1)] by (simp add: register_timer_def)
    show "timer_at (P(e := Some t)) r e' = Some t' \<longleftrightarrow> (\<exists>x. rn_tes ?r t' = Some x \<and> te_ev x = Some e')" for e' t'
      using owned_te [OF assms(1)] by (simp add: register_timer_def)
    show "rn_tes ?r t' = Some y \<Longrightarrow> te_ev y \<noteq> None" for t' y
      using owned_ev [OF assms(1), of t' y] by (simp add: register_timer_def)
  qed
qed

lemma drop_owned:
  assumes "owned P r" "map_of (rn_events r) e = Some t"
  shows "owned P (drop_timer e t r)"
proof -
  let ?r = "drop_timer e t r"
  have T: "timer_at P r e = Some t" using owned_apart [OF assms(1), of e] assms(2) by (auto simp: timer_at_def)
  have D: "timer_at P ?r = (timer_at P r)(e := None)" using owned_apart [OF assms(1), of e] assms(2)
    by (auto simp: timer_at_def drop_timer_def omap_del_get fun_eq_iff delete_te_def event_free_def split: option.splits)
  have one: "timer_at P r e' = Some t \<longleftrightarrow> e' = e" for e'
    using owned_te [OF assms(1), of e t] owned_te [OF assms(1), of e' t] T by auto
  show ?thesis
  proof (rule ownedI, unfold D)
    show "omap_ok (rn_events ?r)" using owned_events [OF assms(1)] by (simp add: drop_timer_def omap_del_ok)
    show "P e' = None \<or> map_of (rn_events ?r) e' = None" for e'
      using owned_apart [OF assms(1), of e'] by (simp add: drop_timer_def omap_del_get)
    show "((timer_at P r)(e := None)) e' = map_option le_te (rn_lib ?r e')" for e'
      using owned_lib [OF assms(1)] by (simp add: drop_timer_def delete_te_def event_free_def)
    show "((timer_at P r)(e := None)) e' = Some t' \<longleftrightarrow> (\<exists>x. rn_tes ?r t' = Some x \<and> te_ev x = Some e')" for e' t'
      using owned_te [OF assms(1), of e' t'] one [of e'] T by (auto simp: drop_timer_def delete_te_def event_free_def)
    show "rn_tes ?r t' = Some y \<Longrightarrow> te_ev y \<noteq> None" for t' y
      using owned_ev [OF assms(1), of t' y] by (simp add: drop_timer_def delete_te_def event_free_def split: if_splits)
  qed
qed

lemma remove_owned: "owned P r \<Longrightarrow> owned P (snd (remove_timer e r))"
  by (auto simp: remove_timer_def drop_owned split: option.split)

lemmas perform_induct = perform.raw_induct [rotated, consumes 1, case_names step]

lemma perform_owned:
  assumes "perform env ops r = Some r'" "owned P r"
  shows "owned P r'"
  using assms
proof (induction arbitrary: P rule: perform_induct)
  case (step perform env ops r r')
  show ?case
  proof (cases ops)
    case Nil
    with step show ?thesis by simp
  next
    case (Cons op rest)
    show ?thesis
    proof (cases op)
      case (OpAdd interval n first)
      obtain h r1 where p: "prepare_timer env interval (Task n) first r = (h, r1)" by fastforce
      show ?thesis
      proof (cases h)
        case None
        then show ?thesis using step Cons OpAdd p prepare_none [of env interval "Task n" first r r1] by auto
      next
        case (Some et)
        obtain e t where et: "et = (e, t)" by fastforce
        note o = prepare_owned [OF "step.prems" p [unfolded Some et]]
        obtain r2 where r2: "(if first = 0 then perform env (re_body env (TaskBody n) r1) (runner_note [Entered (TaskBody n)] r1) else Some r1) = Some r2"
          "perform env rest (runner_note [TimerMade (Some e)] (register_timer e t r2)) = Some r'"
          using step Cons OpAdd p Some et by (auto simp: bind_eq_Some_conv)
        have "owned (P(e := Some t)) r2"
          using r2(1) o "step.IH" [of env "re_body env (TaskBody n) r1" "runner_note [Entered (TaskBody n)] r1" r2 "P(e := Some t)"]
          by (cases "first = 0") (simp_all only: owned_control simp_thms if_True if_False option.inject)
        then show ?thesis using "step.IH" [OF r2(2)] o register_owned by simp
      qed
    next
      case (OpRemove e)
      then show ?thesis using step Cons remove_owned [of P r e] by (auto split: prod.splits)
    qed (use step Cons in auto)
  qed
qed

section \<open>Code the worker calls\<close>

text \<open>What the worker relies on of the code it enters: that it leaves every timer with its owner.\<close>

locale called_code =
  fixes call :: "user_code \<Rightarrow> runner \<Rightarrow> runner option"
  assumes call_owned: "call c r = Some r' \<Longrightarrow> owned P r \<Longrightarrow> owned P r'"
begin

lemma calls_owned:
  "foldm (\<lambda>r c. call c r) r cs = Some r' \<Longrightarrow> owned P r \<Longrightarrow> owned P r'"
  by (erule foldm_inv [where I = "owned P"]) (auto intro: call_owned)

text \<open>The worker may clear its own flag afterwards.\<close>

lemma call_cleared_owned: "call c r = Some r1 \<Longrightarrow> owned P r \<Longrightarrow> owned P (r1\<lparr>rn_check_pause := b\<rparr>)"
  by (simp add: call_owned)

end

lemma enter_owned: "enter env c r = Some r' \<Longrightarrow> owned P r \<Longrightarrow> owned P r'"
  unfolding enter_def by (erule perform_owned) simp

interpretation entered: called_code "enter env" for env
  by unfold_locales (rule enter_owned)

lemma check_pause_owned: "check_pause env r = Some r' \<Longrightarrow> owned P r \<Longrightarrow> owned P r'"
  by (auto simp: check_pause_def bind_eq_Some_conv intro: entered.call_cleared_owned split: if_splits)

lemma run_cb_owned: "run_cb env cb r = Some r' \<Longrightarrow> owned P r \<Longrightarrow> owned P r'"
  by (auto simp: run_cb_def do_process_msg_def do_process_timer_def Let_def split: timer_cb.splits if_splits
      dest: entered.call_owned check_pause_owned)

lemma add_timer_owned:
  assumes "add_timer env i cb f r = Some (h, r')" "owned P r"
  shows "owned P r'"
proof (cases "prepare_timer env i cb f r")
  case (Pair m r1)
  show ?thesis
  proof (cases m)
    case None
    with assms Pair prepare_none [of env i cb f r r1] show ?thesis by (simp add: add_timer_def)
  next
    case (Some et)
    obtain e t where et: "et = (e, t)" by fastforce
    note o = prepare_owned [OF assms(2) Pair [unfolded Some et]]
    obtain r2 where r2: "(if f = 0 then run_cb env cb r1 else Some r1) = Some r2" "r' = register_timer e t r2"
      using assms(1) Pair Some et by (auto simp: add_timer_def bind_eq_Some_conv)
    have "owned (P(e := Some t)) r2" using r2(1) o run_cb_owned [of env cb r1 r2] by (cases "f = 0") simp_all
    then show ?thesis using o r2(2) register_owned by simp
  qed
qed

lemma owned_put_lib:
  assumes "owned P r" "rn_lib r e = Some le" "le_te le' = le_te le"
  shows "owned P (put_lib e le' r)"
proof -
  have T: "timer_at P (put_lib e le' r) = timer_at P r" by (rule timer_at_frame) (simp add: put_lib_def)
  show ?thesis
  proof (rule ownedI, unfold T)
    show "timer_at P r e' = map_option le_te (rn_lib (put_lib e le' r) e')" for e'
      using owned_lib [OF assms(1), of e'] assms(2,3) by (simp add: put_lib_def)
    show "timer_at P r e' = Some t \<longleftrightarrow> (\<exists>x. rn_tes (put_lib e le' r) t = Some x \<and> te_ev x = Some e')" for e' t
      using owned_te [OF assms(1), of e' t] by (simp add: put_lib_def)
    show "rn_tes (put_lib e le' r) t = Some y \<Longrightarrow> te_ev y \<noteq> None" for t y
      using owned_ev [OF assms(1), of t y] by (simp add: put_lib_def)
    show "omap_ok (rn_events (put_lib e le' r))" "P e' = None \<or> map_of (rn_events (put_lib e le' r)) e' = None" for e'
      using owned_events [OF assms(1)] owned_apart [OF assms(1), of e'] by (simp_all add: put_lib_def)
  qed
qed

text \<open>A record that is still there after its task leads to the event it was made for.\<close>

lemma owned_record:
  assumes "owned P r" "rn_tes r t = Some te"
  shows "\<exists>e le. te_ev te = Some e \<and> rn_lib r e = Some le \<and> le_te le = t \<and> timer_at P r e = Some t"
proof -
  obtain e where e: "te_ev te = Some e" using owned_ev [OF assms] by blast
  then have "timer_at P r e = Some t" using owned_te [OF assms(1), of e t] assms(2) by blast
  with e owned_lib [OF assms(1), of e] show ?thesis by (cases "rn_lib r e") auto
qed

lemma owned_event:
  assumes "owned P r" "rn_lib r e = Some le"
  shows "\<exists>te. rn_tes r (le_te le) = Some te \<and> te_ev te = Some e"
  using owned_lib [OF assms(1), of e] owned_te [OF assms(1), of e "le_te le"] assms(2) by auto

lemma timer_at_empty [simp]: "timer_at (\<lambda>_. None) r = map_of (rn_events r)"
  by (simp add: timer_at_def fun_eq_iff)

lemma first_time_cases:
  assumes "event_timer_process_firsttime env t r = Some r'"
  obtains te r1 te1 e le where "rn_tes r t = Some te" "run_cb env (te_cb te) r = Some r1" "rn_tes r1 t = Some te1"
    "te_ev te1 = Some e" "rn_lib r1 e = Some le"
    "r' = put_lib e \<lparr>le_fn = TimerFn, le_te = t, le_persist = True, le_wait = Some (timeval_of (te_interval te1))\<rparr>
        (put_lib e \<lparr>le_fn = TimerFn, le_te = t, le_persist = True, le_wait = None\<rparr> r1) \<or>
     r' = drop_timer e t (put_lib e \<lparr>le_fn = TimerFn, le_te = t, le_persist = True, le_wait = None\<rparr> r1)"
  using assms by (auto simp: event_timer_process_firsttime_def bind_eq_Some_conv Let_def split: if_splits)

lemma first_time_owned:
  assumes "event_timer_process_firsttime env t r = Some r'" "owned (\<lambda>_. None) r"
  shows "owned (\<lambda>_. None) r'"
proof -
  from first_time_cases [OF assms(1)] obtain te r1 te1 e le where s: "rn_tes r t = Some te" "run_cb env (te_cb te) r = Some r1"
    "rn_tes r1 t = Some te1" "te_ev te1 = Some e" "rn_lib r1 e = Some le" and
    r': "r' = put_lib e \<lparr>le_fn = TimerFn, le_te = t, le_persist = True, le_wait = Some (timeval_of (te_interval te1))\<rparr>
          (put_lib e \<lparr>le_fn = TimerFn, le_te = t, le_persist = True, le_wait = None\<rparr> r1) \<or>
      r' = drop_timer e t (put_lib e \<lparr>le_fn = TimerFn, le_te = t, le_persist = True, le_wait = None\<rparr> r1)" .
  have o1: "owned (\<lambda>_. None) r1" by (rule run_cb_owned [OF s(2) assms(2)])
  have t: "le_te le = t" "map_of (rn_events r1) e = Some t" using owned_record [OF o1 s(3)] s(4,5) by auto
  let ?r2 = "put_lib e \<lparr>le_fn = TimerFn, le_te = t, le_persist = True, le_wait = None\<rparr> r1"
  have o2: "owned (\<lambda>_. None) ?r2" by (rule owned_put_lib [OF o1 s(5)]) (simp add: t)
  have "owned (\<lambda>_. None) (put_lib e \<lparr>le_fn = TimerFn, le_te = t, le_persist = True, le_wait = Some (timeval_of (te_interval te1))\<rparr> ?r2)"
    by (rule owned_put_lib [OF o2, of e "\<lparr>le_fn = TimerFn, le_te = t, le_persist = True, le_wait = None\<rparr>"]) (simp_all add: put_lib_def)
  moreover have "owned (\<lambda>_. None) (drop_timer e t ?r2)" by (rule drop_owned [OF o2]) (simp add: put_lib_def t)
  ultimately show ?thesis using r' by blast
qed

lemma fire_owned:
  assumes "fire env e r = Some r'" "owned (\<lambda>_. None) r"
  shows "owned (\<lambda>_. None) r'"
proof -
  obtain le where le: "rn_lib r e = Some le" using assms(1) by (auto simp: fire_def bind_eq_Some_conv)
  let ?r1 = "if le_persist le then r else put_lib e (le\<lparr>le_wait := None\<rparr>) r"
  have "owned (\<lambda>_. None) ?r1" using assms(2) owned_put_lib [OF assms(2) le, of "le\<lparr>le_wait := None\<rparr>"] by simp
  then show ?thesis using assms(1) le
    by (auto simp: fire_def Let_def event_timer_process_def bind_eq_Some_conv split: event_fn.splits
        dest!: first_time_owned run_cb_owned split: if_splits)
qed

lemma loop_step_owned: "loop_step env r r' \<Longrightarrow> owned (\<lambda>_. None) r \<Longrightarrow> owned (\<lambda>_. None) r'"
  by (induction rule: loop_step.induct) (simp_all add: fire_owned)

lemma loop_owned: "(loop_step env)\<^sup>*\<^sup>* r r' \<Longrightarrow> owned (\<lambda>_. None) r \<Longrightarrow> owned (\<lambda>_. None) r'"
  by (induction rule: rtranclp_induct) (auto dest: loop_step_owned)

lemma run_owned: "run env r = Some r' \<Longrightarrow> owned (\<lambda>_. None) r \<Longrightarrow> owned (\<lambda>_. None) r'"
  by (auto simp: run_def bind_eq_Some_conv split: if_splits prod.splits dest!: add_timer_owned)

lemma start_owned:
  assumes "runner_start env (new_runner tv) = Some (Inr (b, r))"
  shows "owned (\<lambda>_. None) r"
proof -
  have "owned (\<lambda>_. None) (new_runner tv)" by (simp add: owned_def new_runner_def omap_ok_def)
  then show ?thesis using assms
    by (auto simp: runner_start_def Let_def bind_eq_Some_conv split: if_splits dest!: run_owned entered.call_owned)
qed

text \<open>C7: before the loop, in it and after it, every event libevent holds and every record belong to exactly one timer of
  \<^verbatim>\<open>_events\<close>, whatever the tasks add and remove and whatever fails.\<close>

theorem worker_owns_timers:
  assumes "runner_start env (new_runner tv) = Some (Inr (b, r))" "(loop_step env)\<^sup>*\<^sup>* r r'"
  shows "omap_ok (rn_events r') \<and> map_of (rn_events r') = (\<lambda>e. map_option le_te (rn_lib r' e)) \<and>
    (\<forall>e t. map_of (rn_events r') e = Some t \<longleftrightarrow> (\<exists>x. rn_tes r' t = Some x \<and> te_ev x = Some e)) \<and>
    (\<forall>t. rn_tes r' t \<noteq> None \<longleftrightarrow> t \<in> snd ` set (rn_events r'))"
proof -
  have o: "owned (\<lambda>_. None) r'" by (rule loop_owned [OF assms(2) start_owned [OF assms(1)]])
  have "rn_tes r' t \<noteq> None \<longleftrightarrow> t \<in> snd ` set (rn_events r')" for t
  proof
    assume "rn_tes r' t \<noteq> None"
    then obtain x where "rn_tes r' t = Some x" by blast
    from owned_record [OF o this] show "t \<in> snd ` set (rn_events r')" by (force dest: map_of_SomeD)
  next
    assume "t \<in> snd ` set (rn_events r')"
    then obtain e where "(e, t) \<in> set (rn_events r')" by force
    then have "map_of (rn_events r') e = Some t" using omap_ok_distinct [OF owned_events [OF o]] by simp
    then show "rn_tes r' t \<noteq> None" using owned_te [OF o, of e t] by auto
  qed
  then show ?thesis using owned_events [OF o] owned_lib [OF o] owned_te [OF o] by (simp add: fun_eq_iff)
qed

section \<open>What code run by the worker leaves alone\<close>

lemma perform_keeps:
  assumes "perform env ops r = Some r'" "I r"
    and "\<And>r. I r \<Longrightarrow> I (pause r) \<and> I (resume r) \<and> I (shutdown r)"
    and "\<And>r e t. I r \<Longrightarrow> I (register_timer e t r) \<and> I (drop_timer e t r)"
    and "\<And>r f g. I r \<Longrightarrow> I (r\<lparr>rn_tes := f, rn_lib := g\<rparr>)"
    and "\<And>r n h b. I r \<Longrightarrow> I (runner_note [Entered (TaskBody n)] r) \<and> I (runner_note [TimerMade h] r) \<and> I (runner_note [TimerRemoved b] r)"
  shows "I r'"
  using assms(1,2)
proof (induction rule: perform_induct)
  case (step perform env ops r r')
  show ?case
  proof (cases ops)
    case Nil
    with step show ?thesis by simp
  next
    case (Cons op rest)
    show ?thesis
    proof (cases op)
      case (OpAdd interval n first)
      obtain h r1 where p: "prepare_timer env interval (Task n) first r = (h, r1)" by fastforce
      show ?thesis
      proof (cases h)
        case None
        then show ?thesis using step Cons OpAdd p prepare_none [of env interval "Task n" first r r1] assms(6) by auto
      next
        case (Some et)
        obtain e t where et: "et = (e, t)" by fastforce
        have i1: "I r1" using prepare_some(3) [OF p [unfolded Some et]] assms(5) step.prems by blast
        obtain r2 where r2: "(if first = 0 then perform env (re_body env (TaskBody n) r1) (runner_note [Entered (TaskBody n)] r1) else Some r1) = Some r2"
          "perform env rest (runner_note [TimerMade (Some e)] (register_timer e t r2)) = Some r'"
          using step Cons OpAdd p Some et by (auto simp: bind_eq_Some_conv)
        have "I r2" using r2(1) i1 step.IH [of env "re_body env (TaskBody n) r1" "runner_note [Entered (TaskBody n)] r1" r2] assms(6)
          by (cases "first = 0") simp_all
        then show ?thesis using step.IH [OF r2(2)] assms(4,6) by blast
      qed
    next
      case (OpRemove e)
      have "I (snd (remove_timer e r))" using step.prems assms(4) by (simp add: remove_timer_def split: option.split)
      then show ?thesis using step Cons OpRemove assms(6) by (auto split: prod.splits)
    qed (use step Cons assms(3) in auto)
  qed
qed

text \<open>The fields only the worker itself writes.\<close>

definition same_worker :: "runner \<Rightarrow> runner \<Rightarrow> bool" where
  "same_worker a r \<longleftrightarrow> rn_base r = rn_base a \<and> rn_log r = rn_log a \<and> rn_handler r = rn_handler a \<and> rn_tick r = rn_tick a \<and>
     (rn_break a \<longrightarrow> rn_break r) \<and> (rn_active r \<longrightarrow> rn_active a) \<and> (BaseFreed \<in> set (rn_calls r) \<longrightarrow> BaseFreed \<in> set (rn_calls a))"

lemma same_worker_refl [simp]: "same_worker r r"
  by (simp add: same_worker_def)

lemma same_worker_trans: "same_worker a b \<Longrightarrow> same_worker b c \<Longrightarrow> same_worker a c"
  by (simp add: same_worker_def)

lemma perform_same: "perform env ops r = Some r' \<Longrightarrow> same_worker r r'"
  by (erule perform_keeps)
    (auto simp: same_worker_def pause_def resume_def shutdown_def Let_def register_timer_def drop_timer_def delete_te_def
      event_free_def runner_note_def)

lemma enter_same: "enter env c r = Some r' \<Longrightarrow> same_worker r r'"
  unfolding enter_def by (drule perform_same) (simp add: same_worker_def runner_note_def)

lemma ask_break_same: "same_worker r (ask_break r)"
  by (simp add: same_worker_def ask_break_def runner_note_def)

lemma check_pause_same: "check_pause env r = Some r' \<Longrightarrow> same_worker r r'"
  by (auto simp: check_pause_def bind_eq_Some_conv dest!: enter_same split: if_splits) (simp add: same_worker_def)

lemma run_cb_same: "run_cb env cb r = Some r' \<Longrightarrow> same_worker r r'"
  by (auto simp: run_cb_def do_process_msg_def do_process_timer_def Let_def split: timer_cb.splits if_splits
      dest!: enter_same check_pause_same intro: same_worker_trans [OF ask_break_same])

lemma run_cb_breaks:
  assumes "run_cb env cb r = Some r'" "\<not> rn_active r" "cb = MsgProcess \<or> cb = TimerProcess"
  shows "rn_break r'"
proof -
  have b: "rn_break (ask_break r)" using assms(2) by (simp add: ask_break_def runner_note_def)
  have "same_worker (ask_break r) r'" using assms(1,3)
    by (auto simp: run_cb_def do_process_msg_def do_process_timer_def Let_def split: if_splits dest: enter_same check_pause_same)
  with b show ?thesis by (simp add: same_worker_def)
qed

lemma fire_same: "fire env e r = Some r' \<Longrightarrow> same_worker r r'"
proof -
  assume f: "fire env e r = Some r'"
  obtain le where le: "rn_lib r e = Some le" using f by (auto simp: fire_def bind_eq_Some_conv)
  let ?r1 = "if le_persist le then r else put_lib e (le\<lparr>le_wait := None\<rparr>) r"
  have s1: "same_worker r ?r1" by (simp add: same_worker_def put_lib_def)
  have "same_worker ?r1 r'"
  proof (cases "le_fn le")
    case TimerFn
    then have "event_timer_process env (le_te le) ?r1 = Some r'" using f le by (simp add: fire_def Let_def)
    then show ?thesis unfolding event_timer_process_def bind_eq_Some_conv by (elim exE conjE) (rule run_cb_same)
  next
    case FirstTimeFn
    then have "event_timer_process_firsttime env (le_te le) ?r1 = Some r'" using f le by (simp add: fire_def Let_def)
    then show ?thesis
    proof (rule first_time_cases)
      fix te r1 te1 e le'
      assume "run_cb env (te_cb te) ?r1 = Some r1" and r': "r' = put_lib e \<lparr>le_fn = TimerFn, le_te = le_te le, le_persist = True,
          le_wait = Some (timeval_of (te_interval te1))\<rparr> (put_lib e \<lparr>le_fn = TimerFn, le_te = le_te le, le_persist = True, le_wait = None\<rparr> r1) \<or>
        r' = drop_timer e (le_te le) (put_lib e \<lparr>le_fn = TimerFn, le_te = le_te le, le_persist = True, le_wait = None\<rparr> r1)"
      then have s: "same_worker ?r1 r1" by (auto dest: run_cb_same)
      have "same_worker r1 r'" using r'
        by (elim disjE) (simp_all add: same_worker_def put_lib_def drop_timer_def delete_te_def event_free_def)
      with s show ?thesis by (rule same_worker_trans)
    qed
  qed
  with s1 show ?thesis by (rule same_worker_trans)
qed

lemma loop_step_same: "loop_step env r r' \<Longrightarrow> same_worker r r'"
  by (induction rule: loop_step.induct) (auto simp: fire_same same_worker_def pause_def resume_def shutdown_def Let_def dest: fire_same)

lemma loop_same: "(loop_step env)\<^sup>*\<^sup>* r r' \<Longrightarrow> same_worker r r'"
  by (induction rule: rtranclp_induct) (auto dest: loop_step_same intro: same_worker_trans)

text \<open>Nothing is called once the loop has been broken off.\<close>

lemma broken_silent: "(loop_step env)\<^sup>*\<^sup>* r r' \<Longrightarrow> rn_break r \<Longrightarrow> rn_break r' \<and> rn_calls r' = rn_calls r"
proof (induction rule: rtranclp_induct)
  case (step y z)
  then have y: "rn_break y" "rn_calls y = rn_calls r" by simp_all
  from step.hyps(2) y show ?case
    by (induction rule: loop_step.induct) (auto simp: pause_def resume_def shutdown_def Let_def)
qed simp

text \<open>C11: \<^verbatim>\<open>Shutdown\<close> called while the loop is running ends it: after any further steps of the loop
  (timers that fire, other threads that pause, resume or shut down the worker), if libevent then fires one of
  the worker's two own timers, which repeat, and its callback has a defined result, the loop is broken off by
  that callback, and whatever may come afterwards nothing is called any more.  That such a timer does fire is
  libevent's part and is assumed; a \<^verbatim>\<open>Shutdown\<close> before \<^verbatim>\<open>Run\<close> is outside the statement (it is lost,
  see \<open>early_shutdown_lost\<close>).\<close>

theorem shutdown_ends_loop:
  assumes "(loop_step env)\<^sup>*\<^sup>* (shutdown r0) r" "rn_lib r e = Some le" "le_fn le = TimerFn" "rn_tes r (le_te le) = Some te"
    "te_cb te = MsgProcess \<or> te_cb te = TimerProcess" "le_persist le" "fire env e r = Some r'" "(loop_step env)\<^sup>*\<^sup>* r' r''"
  shows "loop_over r'' \<and> rn_calls r'' = rn_calls r'"
proof -
  have "\<not> rn_active r" using loop_same [OF assms(1)] by (auto simp: same_worker_def shutdown_def Let_def split: if_splits)
  moreover have "run_cb env (te_cb te) r = Some r'"
    using assms(2-7) by (simp add: fire_def Let_def event_timer_process_def)
  ultimately have "rn_break r'" using run_cb_breaks assms(5) by blast
  then show ?thesis using broken_silent [OF assms(8)] by (simp add: loop_over_def)
qed

text \<open>While the worker is paused its own timers handle no message and no time; \<^verbatim>\<open>OnPause\<close> is called by the first
  of them, and only by the first.\<close>

theorem paused_worker_rests:
  assumes "rn_active r" "\<not> rn_pause r" "\<And>s. re_body env OnPauseBody s = []" "set cbs \<subseteq> {MsgProcess, TimerProcess}" "cbs \<noteq> []"
  shows "foldm (\<lambda>s cb. run_cb env cb s) (pause r) cbs =
    Some (runner_note [Entered OnPauseBody] ((pause r)\<lparr>rn_check_pause := False\<rparr>))"
proof -
  have e: "enter env OnPauseBody s = Some (runner_note [Entered OnPauseBody] s)" for s
    by (simp add: enter_def assms(3) perform.simps)
  have first: "run_cb env cb (pause r) = Some (runner_note [Entered OnPauseBody] ((pause r)\<lparr>rn_check_pause := False\<rparr>))"
    if "cb \<in> {MsgProcess, TimerProcess}" for cb
    using that assms(1,2) e by (auto simp: run_cb_def do_process_msg_def do_process_timer_def ask_break_def check_pause_def pause_def runner_note_def)
  have later: "run_cb env cb s = Some s" if "cb \<in> {MsgProcess, TimerProcess}" "rn_active s" "rn_pause s" "\<not> rn_check_pause s" for cb s
    using that by (auto simp: run_cb_def do_process_msg_def do_process_timer_def ask_break_def check_pause_def)
  have rest: "foldm (\<lambda>s cb. run_cb env cb s) s ds = Some s"
    if "set ds \<subseteq> {MsgProcess, TimerProcess}" "rn_active s" "rn_pause s" "\<not> rn_check_pause s" for s ds
    using that by (induction ds) (simp_all add: later)
  obtain cb ds where "cbs = cb # ds" using assms(5) by (cases cbs) auto
  then show ?thesis using first [of cb] rest [of ds] assms(1,2,4) by (simp add: pause_def runner_note_def)
qed

section \<open>The end\<close>

lemma destroy_events_effect:
  assumes "foldm (destroy_event late) r es = Some r'"
  shows "rn_lib r' = (\<lambda>e. if e \<in> fst ` set es then None else rn_lib r e) \<and>
    rn_tes r' = (\<lambda>t. if t \<in> snd ` set es then None else rn_tes r t) \<and> same_worker r r'"
  using assms
proof (induction es arbitrary: r)
  case (Cons et es)
  obtain e t where et: "et = (e, t)" by fastforce
  obtain r1 where r1: "destroy_event late r (e, t) = Some r1" "foldm (destroy_event late) r1 es = Some r'"
    using Cons.prems et by (auto simp: bind_eq_Some_conv)
  have "rn_lib r1 = (rn_lib r)(e := None) \<and> rn_tes r1 = (rn_tes r)(t := None) \<and> same_worker r r1"
    using r1(1) by (auto simp: destroy_event_def out_trace_def runner_note_def delete_te_def event_free_def same_worker_def
        bind_eq_Some_conv split: if_splits)
  with Cons.IH [OF r1(2)] et show ?case using same_worker_trans by (auto simp: fun_eq_iff)
qed simp

lemma destroy_frees:
  assumes "destroy late r = Some r'" "owned (\<lambda>_. None) r"
  shows "rn_lib r' = (\<lambda>_. None) \<and> rn_tes r' = (\<lambda>_. None) \<and> rn_events r' = [] \<and> \<not> rn_handler r' \<and> \<not> rn_log r' \<and>
    rn_base r' = rn_base r \<and> (rn_base r \<longrightarrow> BaseFreed \<in> set (rn_calls r') \<longrightarrow> BaseFreed \<in> set (rn_calls r))"
proof -
  obtain r1 where r1: "foldm (destroy_event late) r (rn_events r) = Some r1" using assms(1)
    by (auto simp: destroy_def bind_eq_Some_conv)
  have "rn_lib r e = None" if "e \<notin> fst ` set (rn_events r)" for e
  proof -
    have "map_of (rn_events r) e = None" using that by (simp add: map_of_eq_None_iff)
    then show ?thesis using owned_lib [OF assms(2), of e] by simp
  qed
  moreover have "rn_tes r t = None" if "t \<notin> snd ` set (rn_events r)" for t
  proof (rule ccontr)
    assume "rn_tes r t \<noteq> None"
    then obtain x where "rn_tes r t = Some x" by blast
    from owned_record [OF assms(2) this] that show False by (force dest: map_of_SomeD)
  qed
  ultimately have f: "rn_lib r1 = (\<lambda>_. None)" "rn_tes r1 = (\<lambda>_. None)" "same_worker r r1"
    using destroy_events_effect [OF r1] by (auto simp: fun_eq_iff)
  define r2 where "r2 = r1\<lparr>rn_events := []\<rparr>"
  have "same_worker r r2" "rn_lib r2 = (\<lambda>_. None)" "rn_tes r2 = (\<lambda>_. None)" "rn_events r2 = []"
    using f by (simp_all add: r2_def same_worker_def)
  then have g: "rn_base r2 = rn_base r" "rn_lib r2 = (\<lambda>_. None)" "rn_tes r2 = (\<lambda>_. None)" "rn_events r2 = []"
    "BaseFreed \<in> set (rn_calls r2) \<longrightarrow> BaseFreed \<in> set (rn_calls r)" by (simp_all add: same_worker_def)
  have "do { r3 \<leftarrow> (if \<not> rn_base r2 then do { r' \<leftarrow> out_trace late r2; Some (runner_note [BaseFreed] r') } else Some r2);
      r4 \<leftarrow> (if rn_handler r3 then do { r' \<leftarrow> out_trace late (runner_note [Deregistered] r3);
          Some (runner_note [HandlerDeleted] (r'\<lparr>rn_handler := False\<rparr>)) } else Some r3);
      Some (if rn_log r4 then runner_note [LogDeleted] (r4\<lparr>rn_log := False\<rparr>) else r4) } = Some r'"
    using assms(1) unfolding destroy_def r1 r2_def Let_def bind.bind_lunit .
  then obtain r3 r4 where r3: "(if \<not> rn_base r2 then do { r' \<leftarrow> out_trace late r2; Some (runner_note [BaseFreed] r') } else Some r2) = Some r3"
    and r4: "(if rn_handler r3 then do { r' \<leftarrow> out_trace late (runner_note [Deregistered] r3);
          Some (runner_note [HandlerDeleted] (r'\<lparr>rn_handler := False\<rparr>)) } else Some r3) = Some r4"
    and r': "r' = (if rn_log r4 then runner_note [LogDeleted] (r4\<lparr>rn_log := False\<rparr>) else r4)"
    unfolding bind_eq_Some_conv option.inject by blast
  have h3: "rn_base r3 = rn_base r" "rn_lib r3 = (\<lambda>_. None)" "rn_tes r3 = (\<lambda>_. None)" "rn_events r3 = []"
    "rn_base r \<longrightarrow> BaseFreed \<in> set (rn_calls r3) \<longrightarrow> BaseFreed \<in> set (rn_calls r)"
    using r3 g by (auto simp: out_trace_def runner_note_def split: if_splits)
  have h4: "rn_base r4 = rn_base r" "rn_lib r4 = (\<lambda>_. None)" "rn_tes r4 = (\<lambda>_. None)" "rn_events r4 = []" "\<not> rn_handler r4"
    "rn_base r \<longrightarrow> BaseFreed \<in> set (rn_calls r4) \<longrightarrow> BaseFreed \<in> set (rn_calls r)"
    using r4 h3 by (auto simp: out_trace_def runner_note_def split: if_splits)
  show ?thesis unfolding r' using h4 by (simp add: runner_note_def)
qed

lemma prepare_same: "prepare_timer env i cb f r = (Some (e, t), r1) \<Longrightarrow> same_worker r r1"
  by (drule prepare_some(3)) (auto simp: same_worker_def)

lemma add_timer_same:
  assumes "add_timer env i cb f r = Some (h, r')"
  shows "same_worker r r'"
proof (cases "prepare_timer env i cb f r")
  case (Pair m r1)
  show ?thesis
  proof (cases m)
    case None
    with assms Pair prepare_none [of env i cb f r r1] show ?thesis by (simp add: add_timer_def)
  next
    case (Some et)
    obtain e t where et: "et = (e, t)" by fastforce
    obtain r2 where r2: "(if f = 0 then run_cb env cb r1 else Some r1) = Some r2" "r' = register_timer e t r2"
      using assms(1) Pair Some et by (auto simp: add_timer_def bind_eq_Some_conv)
    have "same_worker r r1" using Pair Some et by (simp add: prepare_same)
    moreover have "same_worker r1 r2" using r2(1) run_cb_same [of env cb r1 r2] by (cases "f = 0") simp_all
    moreover have "same_worker r2 r'" using r2(2) by (simp add: same_worker_def register_timer_def)
    ultimately show ?thesis using same_worker_trans by blast
  qed
qed

lemma run_base: "run env r = Some r' \<Longrightarrow> rn_base r' = rn_base r \<and> (BaseFreed \<in> set (rn_calls r') \<longrightarrow> BaseFreed \<in> set (rn_calls r))"
  by (auto simp: run_def bind_eq_Some_conv same_worker_def split: if_splits prod.splits dest!: add_timer_same)

lemma start_base:
  "runner_start env (new_runner tv) = Some (Inr (b, r)) \<Longrightarrow> rn_base r \<and> BaseFreed \<notin> set (rn_calls r)"
  by (auto simp: runner_start_def Let_def bind_eq_Some_conv new_runner_def runner_note_def same_worker_def split: if_splits
      dest!: run_base enter_same)

lemma stop_frees:
  assumes "runner_stop env b r = Some r'" "owned (\<lambda>_. None) r" "rn_base r" "BaseFreed \<notin> set (rn_calls r)"
  shows "rn_lib r' = (\<lambda>_. None) \<and> rn_tes r' = (\<lambda>_. None) \<and> rn_events r' = [] \<and> \<not> rn_handler r' \<and> \<not> rn_log r' \<and>
    rn_base r' \<and> BaseFreed \<notin> set (rn_calls r')"
proof -
  obtain r1 where r1: "(if b then enter env UnInitBody r else Some r) = Some r1" "destroy False r1 = Some r'"
    using assms(1) unfolding runner_stop_def bind_eq_Some_conv by blast
  have "owned (\<lambda>_. None) r1" using r1(1) assms(2) by (auto split: if_splits dest: entered.call_owned)
  moreover have "rn_base r1" "BaseFreed \<notin> set (rn_calls r1)"
    using r1(1) assms(3,4) by (auto split: if_splits dest!: enter_same simp: same_worker_def)
  ultimately show ?thesis using destroy_frees [OF r1(2)] by blast
qed

lemma worker_leaves:
  assumes "runner_proc env (new_runner tv) r'" "re_base env"
  shows "rn_lib r' = (\<lambda>_. None) \<and> rn_tes r' = (\<lambda>_. None) \<and> rn_events r' = [] \<and> \<not> rn_handler r' \<and> \<not> rn_log r' \<and>
    rn_base r' \<and> BaseFreed \<notin> set (rn_calls r')"
  using assms(1)
proof (cases rule: runner_proc.cases)
  case (looped r1 r2)
  have "owned (\<lambda>_. None) r2" by (rule loop_owned [OF looped(2) start_owned [OF looped(1)]])
  moreover have "rn_base r2" "BaseFreed \<notin> set (rn_calls r2)"
    using start_base [OF looped(1)] loop_same [OF looped(2)] by (auto simp: same_worker_def)
  ultimately show ?thesis using stop_frees [OF looped(4)] by blast
next
  case (refused r1)
  then show ?thesis using stop_frees [OF refused(2) start_owned [OF refused(1)]] start_base [OF refused(1)] by blast
next
  case thrown
  then have False using assms(2) by (auto simp: runner_start_def Let_def bind_eq_Some_conv split: if_splits)
  then show ?thesis ..
qed

text \<open>C18: a worker that has run to its end has given back every event and every record, its log and its handler, but never
  the base it made.\<close>

theorem worker_leaves_base:
  assumes "runner_proc env (new_runner tv) r'" "re_base env"
  shows "rn_lib r' = (\<lambda>_. None) \<and> rn_tes r' = (\<lambda>_. None) \<and> rn_events r' = [] \<and> \<not> rn_handler r' \<and> \<not> rn_log r' \<and>
    rn_base r' \<and> BaseFreed \<notin> set (rn_calls r')"
  by (rule worker_leaves [OF assms])

text \<open>A worker that has never run cannot be destroyed: \<^verbatim>\<open>Destroy\<close> traces because there is no base, without a log and with a
  pure \<^verbatim>\<open>TID\<close>.  After a whole run the destructor does nothing.\<close>

theorem destroy_unrun: "destroy True (new_runner tv) = None"
  by (simp add: destroy_def new_runner_def out_trace_def)

theorem destroy_after_run:
  assumes "runner_proc env (new_runner tv) r'" "re_base env"
  shows "destroy True r' = Some r'"
  using worker_leaves [OF assms] by (simp add: destroy_def Let_def)

section \<open>One timer\<close>

theorem timeval_exact: "uint (fst (timeval_of ms)) * 1000 + uint (snd (timeval_of ms)) div 1000 = uint ms \<and> uint (snd (timeval_of ms)) < 1000000"
proof -
  have m: "uint (ms mod 1000) = uint ms mod 1000" "uint (ms div 1000) = uint ms div 1000" by (simp_all add: uint_mod uint_div)
  have b: "0 \<le> uint ms mod 1000" "uint ms mod 1000 < 1000" by simp_all
  have "uint (ms mod 1000 * 1000) = uint ms mod 1000 * 1000"
    using b by (simp add: uint_word_ariths m)
  then show ?thesis using m b by (simp add: timeval_of_def)
qed

text \<open>A timer with a first delay, whose task leaves the runner alone, goes on with its period after the first call, or is
  gone altogether when libevent refuses it.\<close>

theorem first_call_then_period:
  assumes "owned (\<lambda>_. None) r" "rn_lib r e = Some le" "le_fn le = FirstTimeFn" "\<not> le_persist le"
    "rn_tes r (le_te le) = Some te" "te_cb te = Task n" "\<And>s. re_body env (TaskBody n) s = []"
  shows "\<exists>r'. fire env e r = Some r' \<and> rn_calls r' = rn_calls r @ [Entered (TaskBody n)] \<and>
    (rn_lib r' e = Some \<lparr>le_fn = TimerFn, le_te = le_te le, le_persist = True, le_wait = Some (timeval_of (te_interval te))\<rparr> \<and>
       map_of (rn_events r') e = Some (le_te le) \<or>
     rn_lib r' e = None \<and> rn_tes r' (le_te le) = None \<and> map_of (rn_events r') e = None)"
proof -
  let ?r1 = "put_lib e (le\<lparr>le_wait := None\<rparr>) r"
  let ?r2 = "runner_note [Entered (TaskBody n)] ?r1"
  have ev: "te_ev te = Some e" using owned_event [OF assms(1,2)] assms(5) by simp
  have m: "map_of (rn_events r) e = Some (le_te le)" using owned_lib [OF assms(1), of e] assms(2) by simp
  have "run_cb env (te_cb te) ?r1 = Some ?r2" using assms(6,7) by (simp add: run_cb_def enter_def perform.simps)
  then have "event_timer_process_firsttime env (le_te le) ?r1 =
     (let le' = \<lparr>le_fn = TimerFn, le_te = le_te le, le_persist = True, le_wait = None\<rparr>; r3 = put_lib e le' ?r2
      in if re_added env r3 e then Some (put_lib e (le'\<lparr>le_wait := Some (timeval_of (te_interval te))\<rparr>) r3) else Some (drop_timer e (le_te le) r3))"
    using assms(5) ev by (simp add: event_timer_process_firsttime_def runner_note_def put_lib_def)
  moreover have "fire env e r = event_timer_process_firsttime env (le_te le) ?r1" using assms(2-4) by (simp add: fire_def)
  ultimately show ?thesis using m
    by (simp add: Let_def runner_note_def put_lib_def drop_timer_def delete_te_def event_free_def omap_del_get)
qed

text \<open>A task that removes its own timer in its first call makes \<^verbatim>\<open>_event_timer_process_firsttime\<close> read a record that has
  been deleted.\<close>

theorem first_call_removes_itself:
  assumes "owned (\<lambda>_. None) r" "rn_lib r e = Some le" "le_fn le = FirstTimeFn" "rn_tes r (le_te le) = Some te"
    "te_cb te = Task n" "\<And>s. re_body env (TaskBody n) s = [OpRemove e]"
  shows "fire env e r = None"
proof -
  let ?r1 = "if le_persist le then r else put_lib e (le\<lparr>le_wait := None\<rparr>) r"
  have m: "map_of (rn_events r) e = Some (le_te le)" using owned_lib [OF assms(1), of e] assms(2) by simp
  have f: "rn_events ?r1 = rn_events r" "rn_tes ?r1 = rn_tes r" by (simp_all add: put_lib_def)
  have "\<exists>r2. run_cb env (te_cb te) ?r1 = Some r2 \<and> rn_tes r2 (le_te le) = None"
    using m f assms(5,6) by (simp add: run_cb_def enter_def perform.simps remove_timer_def runner_note_def drop_timer_def delete_te_def event_free_def)
  then have "event_timer_process_firsttime env (le_te le) ?r1 = None"
    using f assms(4) by (auto simp: event_timer_process_firsttime_def)
  then show ?thesis using assms(2,3) by (simp add: fire_def Let_def)
qed

text \<open>The same timer without a first delay may remove itself.\<close>

theorem later_call_removes_itself:
  assumes "owned (\<lambda>_. None) r" "rn_lib r e = Some le" "le_fn le = TimerFn" "le_persist le" "rn_tes r (le_te le) = Some te"
    "te_cb te = Task n" "\<And>s. re_body env (TaskBody n) s = [OpRemove e]"
  shows "\<exists>r'. fire env e r = Some r' \<and> rn_lib r' e = None"
proof -
  have m: "map_of (rn_events r) e = Some (le_te le)" using owned_lib [OF assms(1), of e] assms(2) by simp
  then show ?thesis using assms
    by (simp add: fire_def event_timer_process_def run_cb_def enter_def perform.simps remove_timer_def runner_note_def drop_timer_def
        delete_te_def event_free_def)
qed

text \<open>A task that adds itself again without a first delay never returns while memory lasts.\<close>

theorem task_adds_itself:
  assumes "\<And>s. re_body env (TaskBody n) s = [OpAdd i n 0]" "\<And>s. \<exists>e t s'. prepare_timer env i (Task n) 0 s = (Some (e, t), s')"
  shows "perform env [OpAdd i n 0] r = None"
proof (rule ccontr)
  assume "perform env [OpAdd i n 0] r \<noteq> None"
  then obtain r' where "perform env [OpAdd i n 0] r = Some r'" by blast
  then have "env = env \<longrightarrow> [OpAdd i n 0] \<noteq> [OpAdd i n 0]"
    using assms
  proof (induction env ops\<equiv>"[OpAdd i n 0]" r r' rule: perform_induct)
    case (step perform env r r')
    obtain e t s' where "prepare_timer env i (Task n) 0 r = (Some (e, t), s')" using step.prems(2) by blast
    then obtain r2 where "perform env [OpAdd i n 0] (runner_note [Entered (TaskBody n)] s') = Some r2"
      using step.hyps(2) step.prems(1) by (auto simp: bind_eq_Some_conv)
    from step.hyps(1) [OF this] step.prems show ?case by blast
  qed
  then show False by simp
qed

text \<open>\<^verbatim>\<open>Run\<close> makes the worker active, whether or not it has been shut down before.\<close>

theorem early_shutdown_lost: "runner_start env (shutdown r) = Some (Inr (True, r')) \<Longrightarrow> rn_active r' \<and> \<not> rn_break r'"
  by (auto simp: runner_start_def run_def Let_def bind_eq_Some_conv split: if_splits prod.splits)

section \<open>A concrete worker\<close>

text \<open>Room for two timers, and code that asks for nothing but \<open>task\<close>.\<close>

definition plain_env :: "runner_op list \<Rightarrow> runner_env" where
  "plain_env task = \<lparr>re_te = (\<lambda>r. Some (if rn_tes r 1 = None then 1 else 2)), re_event = (\<lambda>r. Some (if rn_lib r 10 = None then 10 else 11)),
     re_added = (\<lambda>_ _. True), re_body = (\<lambda>c _. case c of TaskBody n \<Rightarrow> task | _ \<Rightarrow> []), re_base = True, re_log = True,
     re_init = (\<lambda>_. True)\<rparr>"

definition started :: runner where
  "started = \<lparr>rn_active = True, rn_pause = False, rn_check_pause = False, rn_handler = True, rn_handler_down = False,
     rn_tick = 0, rn_log = True, rn_base = True, rn_events = [(10, 1)],
     rn_tes = (\<lambda>_. None)(1 := Some \<lparr>te_ev = Some 10, te_cb = MsgProcess, te_interval = 25\<rparr>),
     rn_lib = (\<lambda>_. None)(10 := Some \<lparr>le_fn = TimerFn, le_te = 1, le_persist = True, le_wait = Some (0, 25000)\<rparr>),
     rn_break = False, rn_calls = [Entered InitBody, HandlerMade, LoopBreak, Entered Handlers]\<rparr>"

lemmas plain_simps = plain_env_def new_runner_def runner_note_def enter_def perform.simps prepare_timer_def new_te_def event_new_def
  put_te_def put_lib_def register_timer_def run_cb_def do_process_msg_def ask_break_def timeval_of_def

lemma plain_started: "runner_start (plain_env task) (new_runner 0) = Some (Inr (True, started))"
  by (simp add: runner_start_def run_def add_timer_def started_def plain_simps)

theorem worker_owns_timers_witness:
  "map_of (rn_events started) = (\<lambda>e. map_option le_te (rn_lib started e))"
  using worker_owns_timers [OF plain_started rtranclp.rtrancl_refl] by blast

lemma plain_fire: "fire (plain_env task) 10 (shutdown started) =
    Some ((shutdown started)\<lparr>rn_break := True, rn_calls := rn_calls started @ [LoopBreak, Entered Handlers]\<rparr>)"
  by (simp add: fire_def event_timer_process_def started_def shutdown_def Let_def plain_simps)

theorem shutdown_ends_loop_witness:
  "loop_over ((shutdown started)\<lparr>rn_break := True, rn_calls := rn_calls started @ [LoopBreak, Entered Handlers]\<rparr>)"
  using shutdown_ends_loop [OF rtranclp.rtrancl_refl _ _ _ _ _ plain_fire rtranclp.rtrancl_refl]
  by (simp add: started_def shutdown_def Let_def)

theorem paused_worker_rests_witness:
  "foldm (\<lambda>s cb. run_cb (plain_env []) cb s) (pause started) [MsgProcess, TimerProcess, MsgProcess] =
    Some (runner_note [Entered OnPauseBody] ((pause started)\<lparr>rn_check_pause := False\<rparr>))"
  by (rule paused_worker_rests) (simp_all add: started_def plain_env_def)

lemma plain_event:
  "rn_lib (shutdown started) 10 = Some \<lparr>le_fn = TimerFn, le_te = 1, le_persist = True, le_wait = Some (0, 25000)\<rparr>"
  "\<not> rn_break (shutdown started)"
  by (simp_all add: started_def shutdown_def)

lemma plain_run: "\<exists>r. runner_proc (plain_env []) (new_runner 0) r"
proof -
  define r2 where "r2 = (shutdown started)\<lparr>rn_break := True, rn_calls := rn_calls started @ [LoopBreak, Entered Handlers]\<rparr>"
  have "loop_step (plain_env []) started (shutdown started)" by (rule loop_step.stopped)
  moreover have "loop_step (plain_env []) (shutdown started) r2"
    unfolding r2_def by (rule loop_step.fired [OF plain_event(2) plain_event(1) _ plain_fire]) simp
  ultimately have steps: "(loop_step (plain_env []))\<^sup>*\<^sup>* started r2"
    by (rule rtranclp.rtrancl_into_rtrancl [OF r_into_rtranclp])
  have over: "loop_over r2" by (simp add: loop_over_def r2_def)
  have "\<exists>r. runner_stop (plain_env []) True r2 = Some r"
    by (simp add: runner_stop_def destroy_def destroy_event_def out_trace_def delete_te_def event_free_def started_def shutdown_def
        Let_def plain_simps r2_def)
  then obtain r where "runner_stop (plain_env []) True r2 = Some r" ..
  then show ?thesis using runner_proc.looped [OF plain_started steps over] by blast
qed

theorem worker_leaves_base_witness:
  "\<exists>r. runner_proc (plain_env []) (new_runner 0) r \<and> rn_lib r = (\<lambda>_. None) \<and> rn_base r"
proof -
  obtain r where r: "runner_proc (plain_env []) (new_runner 0) r" using plain_run ..
  have "re_base (plain_env [])" by (simp add: plain_env_def)
  from worker_leaves_base [OF r this] r show ?thesis by blast
qed

text \<open>The same worker with a timer at the address 11 that has a first delay.\<close>

definition delayed :: runner where
  "delayed = started\<lparr>rn_events := [(10, 1), (11, 2)],
     rn_tes := (rn_tes started)(2 := Some \<lparr>te_ev = Some 11, te_cb = Task 7, te_interval = 1500\<rparr>),
     rn_lib := (rn_lib started)(11 := Some \<lparr>le_fn = FirstTimeFn, le_te = 2, le_persist = False, le_wait = Some (5, 0)\<rparr>)\<rparr>"

lemma delayed_made: "add_timer (plain_env task) 1500 (Task 7) 5000 started = Some (Some 11, delayed)"
  by (simp add: add_timer_def delayed_def started_def plain_simps)

lemma delayed_owned: "owned (\<lambda>_. None) delayed"
  using add_timer_owned [OF delayed_made] start_owned [OF plain_started] by blast

lemma delayed_event:
  "rn_lib delayed 11 = Some \<lparr>le_fn = FirstTimeFn, le_te = 2, le_persist = False, le_wait = Some (5, 0)\<rparr>"
  "rn_tes delayed 2 = Some \<lparr>te_ev = Some 11, te_cb = Task 7, te_interval = 1500\<rparr>" "rn_calls delayed = rn_calls started"
  by (simp_all add: delayed_def)

theorem first_call_then_period_witness:
  "\<exists>r. fire (plain_env []) 11 delayed = Some r \<and> rn_calls r = rn_calls started @ [Entered (TaskBody 7)]"
proof -
  have b: "re_body (plain_env []) (TaskBody 7) s = []" for s by (simp add: plain_env_def)
  show ?thesis using first_call_then_period [OF delayed_owned delayed_event(1) _ _ _ _ b] delayed_event(2,3) by auto
qed

theorem first_call_removes_itself_witness: "fire (plain_env [OpRemove 11]) 11 delayed = None"
proof -
  have b: "re_body (plain_env [OpRemove 11]) (TaskBody 7) s = [OpRemove 11]" for s by (simp add: plain_env_def)
  show ?thesis using first_call_removes_itself [OF delayed_owned delayed_event(1) _ _ _ b] delayed_event(2) by simp
qed

end
