(* ===== verification/TcpServer.thy ===== *)
theory TcpServer
  imports Prelude
begin

text \<open>
  The TCP server of the practice directory, \<^verbatim>\<open>MyPro/runnable/TcpServer.cpp\<close>, \<^verbatim>\<open>TcpServer.h\<close>, \<^verbatim>\<open>TcpConduit.cpp\<close>: the
  table of connections of a slave server, the operations other threads queue for it, the master that shares the connections
  out, and a connection's life.

  libevent, the sockets, the threads, the packets' format and the unzipper are parameters.  Identifiers are \<^verbatim>\<open>int\<close>s of 32 bits:
  the number computed for a place is a \<^verbatim>\<open>size_t\<close> that is cut to an \<^verbatim>\<open>int\<close> when it is passed on.  \<^verbatim>\<open>std::set\<close> is the list of its elements in order.  \<open>None\<close> is a read outside an array or a loop that
  does not end.  The files do not compile as they are (misspelt names, and a closing brace of \<^verbatim>\<open>_accepted\<close> that stands at
  its end instead of before the handler); they are read as they are meant.
\<close>

section \<open>State\<close>

definition workers :: nat where "workers = 2"
definition conn_idx_max :: int where "conn_idx_max = 3"

record conduit =
  cd_fd :: int
  cd_uid :: int

datatype tcp_op = OpAccepted int | OpRemoved int

record slave =
  sl_idx :: nat
  sl_conduits :: "conduit option list"
  sl_empty :: "nat list"
  sl_conn_up :: "int list"
  sl_count :: u32
  sl_ops :: "tcp_op list"
  sl_running :: bool
  sl_break :: bool

text \<open>What \<^verbatim>\<open>newConduit\<close> and \<^verbatim>\<open>newConnection\<close> do: the constructor throws when there is no \<^verbatim>\<open>bufferevent\<close>.\<close>

datatype making = Made | Null | Thrown

type_synonym tcp_env = "slave \<Rightarrow> int \<Rightarrow> int \<Rightarrow> making"

fun set_insert :: "nat \<Rightarrow> nat list \<Rightarrow> nat list" where
  "set_insert x [] = [x]"
| "set_insert x (y # ys) = (if x < y then x # y # ys else if x = y then y # ys else y # set_insert x ys)"

section \<open>Operations of other threads\<close>

text \<open>A connection the server itself opens has the number \<open>stype\<close>; \<^verbatim>\<open>_connUp\<close> says where it is.\<close>

definition init_connection :: "int \<Rightarrow> slave \<Rightarrow> slave option" where
  "init_connection stype s =
     (if stype - 1 \<ge> conn_idx_max then Some s
      else if stype - 1 < 0 then None
      else do { up \<leftarrow> nth_opt (sl_conn_up s) (nat (stype - 1));
                if up \<ge> 0 then Some s
                else Some (s\<lparr>sl_conn_up := (sl_conn_up s)[nat (stype - 1) := 0], sl_ops := sl_ops s @ [OpAccepted (- stype)]\<rparr>) })"

definition lost_connection :: "int \<Rightarrow> slave \<Rightarrow> slave option" where
  "lost_connection stype s =
     (if stype - 1 < conn_idx_max
      then if stype - 1 < 0 then None else do { ups \<leftarrow> upd_opt (sl_conn_up s) (nat (stype - 1)) (- 1); Some (s\<lparr>sl_conn_up := ups\<rparr>) }
      else Some s)"

definition queue_accepted :: "int \<Rightarrow> slave \<Rightarrow> slave" where
  "queue_accepted ss s = s\<lparr>sl_ops := sl_ops s @ [OpAccepted ss]\<rparr>"

definition queue_remove :: "int \<Rightarrow> slave \<Rightarrow> slave" where
  "queue_remove i s = s\<lparr>sl_ops := sl_ops s @ [OpRemoved i]\<rparr>"

section \<open>The table of connections\<close>

definition made_of :: "tcp_env \<Rightarrow> slave \<Rightarrow> int \<Rightarrow> int \<Rightarrow> making" where
  "made_of env s ss uid = (if ss < 0 \<and> env s ss uid = Thrown then Null else env s ss uid)"

definition up_set :: "int \<Rightarrow> int \<Rightarrow> slave \<Rightarrow> slave" where
  "up_set ss v s = (if ss < 0 \<and> - 1 - ss < conn_idx_max then s\<lparr>sl_conn_up := (sl_conn_up s)[nat (- 1 - ss) := v]\<rparr> else s)"

definition uid_of :: "nat \<Rightarrow> slave \<Rightarrow> int" where
  "uid_of i s = sint (of_nat (i * workers + sl_idx s) :: 32 word)"

definition new_conduit :: "int \<Rightarrow> nat \<Rightarrow> slave \<Rightarrow> conduit" where
  "new_conduit ss i s = \<lparr>cd_fd = ss, cd_uid = uid_of i s\<rparr>"

definition fill_empty :: "tcp_env \<Rightarrow> int \<Rightarrow> nat \<Rightarrow> slave \<Rightarrow> slave" where
  "fill_empty env ss i s =
     (if made_of env s ss (uid_of i s) = Made
      then let s1 = s\<lparr>sl_empty := remove1 i (sl_empty s), sl_conduits := (sl_conduits s)[i := Some (new_conduit ss i s)]\<rparr>;
               s2 = up_set ss (uid_of i s) s1
           in s2\<lparr>sl_count := sl_count s2 + 1\<rparr>
      else up_set ss (- 1) s)"

text \<open>At the end of the table a socket for which no conduit could be made still gets a place, with a null pointer.\<close>

definition push_slot :: "tcp_env \<Rightarrow> int \<Rightarrow> slave \<Rightarrow> slave" where
  "push_slot env ss s =
     (let i = length (sl_conduits s); m = made_of env s ss (uid_of i s)
      in if m = Thrown \<or> m = Null \<and> ss < 0 then up_set ss (- 1) s
         else let s1 = s\<lparr>sl_conduits := sl_conduits s @ [if m = Made then Some (new_conduit ss i s) else None], sl_count := sl_count s + 1\<rparr>
              in up_set ss (uid_of i s) s1)"

partial_function (option) accept_conn :: "tcp_env \<Rightarrow> int \<Rightarrow> slave \<Rightarrow> slave option" where
  "accept_conn env ss s =
     (case sl_empty s of
        [] \<Rightarrow> Some (push_slot env ss s)
      | i # _ \<Rightarrow> if i < length (sl_conduits s) then Some (fill_empty env ss i s) else accept_conn env ss s)"

fun shrink :: "conduit option list \<Rightarrow> nat list \<Rightarrow> nat \<Rightarrow> conduit option list \<times> nat list" where
  "shrink cs em 0 = ([], em)"
| "shrink cs em (Suc k) =
     (let em' = remove1 k em in if k > 0 \<and> cs ! (k - 1) = None then shrink cs em' k else (take k cs, em'))"

text \<open>The division of the identifier cuts towards zero, and its result becomes a number without sign.\<close>

definition slot_of :: "int \<Rightarrow> nat" where
  "slot_of i = (if i \<ge> 0 then nat i div workers else nat ((- int (nat (- i) div workers)) mod 2 ^ 32))"

definition remove_conn :: "int \<Rightarrow> slave \<Rightarrow> slave" where
  "remove_conn i s =
     (let rid = slot_of i
      in if rid < length (sl_conduits s) \<and> sl_conduits s ! rid \<noteq> None
         then let cs = (sl_conduits s)[rid := None];
                  s1 = (if rid = length cs - 1
                        then case shrink cs (sl_empty s) (Suc rid) of (cs', em) \<Rightarrow> s\<lparr>sl_conduits := cs', sl_empty := em\<rparr>
                        else s\<lparr>sl_conduits := cs, sl_empty := set_insert rid (sl_empty s)\<rparr>)
              in if sl_count s1 > 0 then s1\<lparr>sl_count := sl_count s1 - 1\<rparr> else s1
         else s)"

definition run_op :: "tcp_env \<Rightarrow> slave \<Rightarrow> tcp_op \<Rightarrow> slave option" where
  "run_op env s oper = (case oper of OpAccepted ss \<Rightarrow> accept_conn env ss s | OpRemoved i \<Rightarrow> Some (remove_conn i s))"

definition on_op_check :: "tcp_env \<Rightarrow> slave \<Rightarrow> slave option" where
  "on_op_check env s =
     (let s1 = (if \<not> sl_running s then s\<lparr>sl_break := True\<rparr> else s)
      in if sl_ops s1 = [] then Some s1 else foldm (run_op env) (s1\<lparr>sl_ops := []\<rparr>) (sl_ops s1))"

text \<open>\<^verbatim>\<open>destroy\<close> leaves the set of empty places as it is; \<^verbatim>\<open>run\<close> starts again after it while the server is running.\<close>

definition destroy_slave :: "slave \<Rightarrow> slave" where
  "destroy_slave s = s\<lparr>sl_conduits := [], sl_count := 0\<rparr>"

text \<open>The conduits to which \<^verbatim>\<open>broadcast\<close> sends, in order.\<close>

definition broadcast :: "(conduit \<Rightarrow> bool) \<Rightarrow> slave \<Rightarrow> conduit list" where
  "broadcast active s = concat (map (\<lambda>c. case c of Some c \<Rightarrow> if active c then [c] else [] | None \<Rightarrow> []) (sl_conduits s))"

section \<open>The master\<close>

type_synonym master = "slave list"

text \<open>The first of the slaves that have the fewest connections.\<close>

fun least_from :: "nat \<Rightarrow> nat \<Rightarrow> u32 \<Rightarrow> slave list \<Rightarrow> nat" where
  "least_from i best m [] = best"
| "least_from i best m (s # ss) = (if sl_count s < m then least_from (i + 1) i (sl_count s) ss else least_from (i + 1) best m ss)"

definition least_loaded :: "master \<Rightarrow> nat" where
  "least_loaded ms = (case ms of [] \<Rightarrow> 0 | s # ss \<Rightarrow> least_from 1 0 (sl_count s) ss)"

text \<open>\<open>socks\<close> are the sockets \<^verbatim>\<open>accept\<close> returns before it fails.\<close>

definition on_server_read :: "int list \<Rightarrow> master \<Rightarrow> master" where
  "on_server_read socks ms = fold (\<lambda>ss ms. let i = least_loaded ms in ms[i := queue_accepted ss (ms ! i)]) socks ms"

text \<open>\<open>i mod workers\<close> of a negative identifier is negative or zero in C.\<close>

definition worker_of :: "int \<Rightarrow> nat option" where
  "worker_of i = (if i \<ge> 0 then Some (nat i mod workers) else if nat (- i) mod workers = 0 then Some 0 else None)"

partial_function (option) find_conn :: "master \<Rightarrow> int \<Rightarrow> conduit option option" where
  "find_conn ms i =
     (if i = - 1 then Some None
      else do { w \<leftarrow> worker_of i; s \<leftarrow> nth_opt ms w;
                if slot_of i \<ge> length (sl_conduits s) then Some None
                else do { s0 \<leftarrow> nth_opt ms 0; up \<leftarrow> nth_opt (sl_conn_up s0) (slot_of i); find_conn ms up } })"

definition master_remove :: "int \<Rightarrow> master \<Rightarrow> master option" where
  "master_remove i ms = do { w \<leftarrow> worker_of i; s \<leftarrow> nth_opt ms w; Some (ms[w := queue_remove i s]) }"

text \<open>The conduit that \<^verbatim>\<open>close\<close> closes.\<close>

definition master_close :: "int \<Rightarrow> master \<Rightarrow> conduit option option" where
  "master_close i ms =
     (if i = - 1 then Some None
      else do { w \<leftarrow> worker_of i; s \<leftarrow> nth_opt ms w;
                Some (if slot_of i \<ge> length (sl_conduits s) then None else sl_conduits s ! slot_of i) })"

definition master_close_conn :: "int \<Rightarrow> master \<Rightarrow> conduit option option" where
  "master_close_conn i ms =
     (let rid = - 1 - i
      in if rid \<ge> conn_idx_max then Some None
         else if rid < 0 then master_close i ms
         else do { s0 \<leftarrow> nth_opt ms 0; up \<leftarrow> nth_opt (sl_conn_up s0) (nat rid); master_close up ms })"

definition master_broadcast :: "(conduit \<Rightarrow> bool) \<Rightarrow> master \<Rightarrow> conduit list" where
  "master_broadcast active ms = concat (map (broadcast active) ms)"

definition get_count :: "master \<Rightarrow> u32" where
  "get_count ms = sum_list (map sl_count ms)"

definition on_timer_check :: "bool \<Rightarrow> master \<Rightarrow> master option" where
  "on_timer_check running ms =
     (if running
      then do { s \<leftarrow> nth_opt ms 0; s1 \<leftarrow> init_connection 1 s; s2 \<leftarrow> init_connection 2 s1; s3 \<leftarrow> init_connection 3 s2; Some (ms[0 := s3]) }
      else Some ms)"

section \<open>A connection\<close>

datatype conn_call = Received int "u8 list" | Disconnected | RemoveAsked int | NoLinger | ShutDown

record conn =
  cn_uid :: int
  cn_pend :: bool
  cn_write :: bool
  cn_in :: "u8 list"
  cn_out :: "u8 list"
  cn_calls :: "conn_call list"

text \<open>\<^verbatim>\<open>parsePacket\<close> gives the command, the offset of the body and the length of the packet; \<open>pe_unzip\<close> is what the unzipper
  makes of the body.  Whether \<^verbatim>\<open>new(nothrow)\<close> finds memory may depend on everything before.\<close>

record packet_env =
  pe_parse :: "u8 list \<Rightarrow> int \<times> int \<times> int"
  pe_unzip :: "u8 list \<Rightarrow> u8 list"
  pe_room :: "conn \<Rightarrow> bool"

definition conn_note :: "conn_call list \<Rightarrow> conn \<Rightarrow> conn" where
  "conn_note cs c = c\<lparr>cn_calls := cn_calls c @ cs\<rparr>"

definition conn_send :: "u8 list \<Rightarrow> conn \<Rightarrow> conn" where
  "conn_send bs c = c\<lparr>cn_out := cn_out c @ bs\<rparr>"

definition close_conn :: "conn \<Rightarrow> conn" where
  "close_conn c = conn_note [ShutDown] (c\<lparr>cn_write := False\<rparr>)"

definition force_close :: "conn \<Rightarrow> conn" where
  "force_close c = conn_note [Disconnected, RemoveAsked (cn_uid c)] (c\<lparr>cn_write := False\<rparr>)"

definition pend_close :: "conn \<Rightarrow> conn" where
  "pend_close c = (if cn_out c = [] then close_conn (c\<lparr>cn_pend := False\<rparr>) else (conn_note [NoLinger] c)\<lparr>cn_pend := True\<rparr>)"

definition on_write :: "conn \<Rightarrow> conn" where
  "on_write c = (if cn_pend c then if cn_out c \<noteq> [] then c else close_conn (c\<lparr>cn_pend := False\<rparr>) else c)"

definition on_event :: "bool \<Rightarrow> conn \<Rightarrow> conn" where
  "on_event over c = (if over then force_close c else c)"

definition receive :: "packet_env \<Rightarrow> int \<Rightarrow> int \<Rightarrow> u8 list \<Rightarrow> conn \<Rightarrow> conn option" where
  "receive env cmd off data c =
     (if off < 0 \<or> nat off > length data then None
      else if (cmd div 0x1000000) mod 2 = 1
      then if nat off + 2 > length data then None
           else let size = unat (data ! nat off) + 256 * unat (data ! (nat off + 1)); body = pe_unzip env (drop (nat off + 2) data)
                in Some (if length body \<noteq> 0 \<and> size = length body then conn_note [Received (cmd mod 0x1000000) body] c else force_close c)
      else Some (conn_note [Received cmd (drop (nat off) data)] c))"

partial_function (option) on_read :: "packet_env \<Rightarrow> conn \<Rightarrow> conn option" where
  "on_read env c =
     (case pe_parse env (cn_in c) of (cmd, off, len) \<Rightarrow>
        if cmd < 0 then Some (force_close c)
        else if len \<le> 0 then Some c
        else let data = take (nat len) (cn_in c); c1 = c\<lparr>cn_in := drop (nat len) (cn_in c)\<rparr>
             in if \<not> pe_room env c then on_read env c1
                else do { c2 \<leftarrow> receive env cmd off data c1; on_read env c2 })"

section \<open>Identifiers\<close>

text \<open>Below \<open>2 ^ 30\<close> places nothing is cut off; the place after them has the identifiers of negative sign.\<close>

lemma uid_of_small: "sl_idx s < workers \<Longrightarrow> i < 2 ^ 30 \<Longrightarrow> uid_of i s = int (i * workers + sl_idx s)"
proof -
  assume "sl_idx s < workers" "i < 2 ^ 30"
  then have n: "int (i * workers + sl_idx s) < 2 ^ 31" by (simp add: workers_def)
  have "(0 :: int) \<le> int (i * workers + sl_idx s)" by (rule of_nat_0_le_iff)
  then have l: "- (2 ^ 31) \<le> int (i * workers + sl_idx s)" by (rule order_trans [rotated]) simp
  have "uid_of i s = signed_take_bit 31 (int (i * workers + sl_idx s))" unfolding uid_of_def
    by (simp only: signed_of_nat) simp
  also have "\<dots> = int (i * workers + sl_idx s)" using n l by (intro signed_take_bit_int_eq_self) simp_all
  finally show ?thesis .
qed

lemma slot_of_uid: "sl_idx s < workers \<Longrightarrow> i < 2 ^ 30 \<Longrightarrow> slot_of (uid_of i s) = i"
  by (simp add: slot_of_def uid_of_small nat_int_add workers_def)

lemma worker_of_uid: "sl_idx s < workers \<Longrightarrow> i < 2 ^ 30 \<Longrightarrow> worker_of (uid_of i s) = Some (sl_idx s)"
  by (simp only: worker_of_def uid_of_small of_nat_0_le_iff if_True nat_int) (simp add: workers_def)

theorem identifier_wraps: "uid_of (2 ^ 30) (s\<lparr>sl_idx := 0\<rparr>) = - (2 ^ 31)"
  by (simp add: uid_of_def workers_def)

section \<open>The places\<close>

definition held :: "slave \<Rightarrow> nat \<Rightarrow> conduit option" where
  "held s i = (if i < length (sl_conduits s) then sl_conduits s ! i else None)"

definition empties :: "conduit option list \<Rightarrow> nat list" where
  "empties cs = filter (\<lambda>i. cs ! i = None) [0 ..< length cs]"

definition used :: "conduit option list \<Rightarrow> nat" where
  "used cs = length (filter (\<lambda>c. c \<noteq> None) cs)"

definition slots_ok :: "slave \<Rightarrow> bool" where
  "slots_ok s \<longleftrightarrow> sl_idx s < workers \<and> sl_empty s = empties (sl_conduits s) \<and>
     (sl_conduits s \<noteq> [] \<longrightarrow> last (sl_conduits s) \<noteq> None) \<and> sl_count s = of_nat (used (sl_conduits s)) \<and>
     (\<forall>i c. held s i = Some c \<longrightarrow> cd_uid c = uid_of i s)"

lemma empties_sorted: "sorted_wrt (<) (empties cs)"
  unfolding empties_def by (intro sorted_wrt_filter sorted_wrt_upt)

lemma set_empties [simp]: "set (empties cs) = {i. i < length cs \<and> cs ! i = None}"
  by (auto simp: empties_def)

lemma set_insert_set [simp]: "set (set_insert x xs) = insert x (set xs)"
  by (induction xs) auto

lemma set_insert_sorted: "sorted_wrt (<) xs \<Longrightarrow> sorted_wrt (<) (set_insert x xs)"
  by (induction xs) (auto intro: order.strict_trans)

lemma sorted_remove1: "sorted_wrt (<) (xs :: nat list) \<Longrightarrow> sorted_wrt (<) (remove1 x xs)"
  by (induction xs) (auto dest: set_remove1_subset [THEN subsetD])

lemma same_sets: "sorted_wrt (<) (xs :: nat list) \<Longrightarrow> sorted_wrt (<) ys \<Longrightarrow> set xs = set ys \<Longrightarrow> xs = ys"
  by (rule strict_sorted_equal)

lemma set_remove1_sorted: "sorted_wrt (<) (xs :: nat list) \<Longrightarrow> set (remove1 x xs) = set xs - {x}"
  by (simp add: strict_sorted_iff)

lemma empties_fill: "i < length cs \<Longrightarrow> remove1 i (empties cs) = empties (cs[i := Some c])"
  by (rule same_sets) (auto simp: empties_sorted sorted_remove1 set_remove1_sorted nth_list_update)

lemma empties_drop: "i < length cs \<Longrightarrow> set_insert i (empties cs) = empties (cs[i := None])"
  by (rule same_sets) (auto simp: empties_sorted set_insert_sorted nth_list_update)

lemma empties_push: "empties (cs @ [Some c]) = empties cs"
  by (rule same_sets) (auto simp: empties_sorted nth_append)

lemma used_fill: "i < length cs \<Longrightarrow> cs ! i = None \<Longrightarrow> used (cs[i := Some c]) = used cs + 1"
  by (induction cs arbitrary: i) (auto simp: used_def nth_Cons split: nat.splits)

lemma used_drop: "i < length cs \<Longrightarrow> cs ! i \<noteq> None \<Longrightarrow> used cs = used (cs[i := None]) + 1"
  by (induction cs arbitrary: i) (auto simp: used_def nth_Cons split: nat.splits)

lemma used_le: "used cs \<le> length cs"
  by (simp add: used_def)

text \<open>The loop at the end of the table takes the empty places off it, and nothing else.\<close>

lemma shrink_effect:
  assumes "k \<le> length cs" "k > 0 \<longrightarrow> cs ! (k - 1) = None" "em = empties (take (k - 1) cs) \<or> em = empties (take k cs)"
  shows "\<exists>n \<le> k. shrink cs em k = (take n cs, empties (take n cs)) \<and> (n > 0 \<longrightarrow> cs ! (n - 1) \<noteq> None) \<and>
    (\<forall>i. n \<le> i \<longrightarrow> i < k \<longrightarrow> cs ! i = None)"
  using assms
proof (induction k arbitrary: em)
  case 0
  then show ?case by (auto simp: empties_def)
next
  case (Suc k)
  have e: "remove1 k em = empties (take k cs)"
  proof (cases "em = empties (take k cs)")
    case True
    then have "k \<notin> set em" by simp
    with True show ?thesis by (simp add: remove1_idem)
  next
    case False
    then have "em = empties (take (Suc k) cs)" using Suc.prems(3) by simp
    then show ?thesis using Suc.prems(1,2)
      by (intro same_sets) (auto simp: empties_sorted sorted_remove1 set_remove1_sorted less_Suc_eq)
  qed
  show ?case
  proof (cases "k > 0 \<and> cs ! (k - 1) = None")
    case True
    have "\<exists>n \<le> k. shrink cs (empties (take k cs)) k = (take n cs, empties (take n cs)) \<and> (n > 0 \<longrightarrow> cs ! (n - 1) \<noteq> None) \<and>
        (\<forall>i. n \<le> i \<longrightarrow> i < k \<longrightarrow> cs ! i = None)"
      by (rule Suc.IH) (use True Suc.prems in auto)
    then obtain n where n: "n \<le> k" "shrink cs (empties (take k cs)) k = (take n cs, empties (take n cs))"
      "n > 0 \<longrightarrow> cs ! (n - 1) \<noteq> None" "\<forall>i. n \<le> i \<longrightarrow> i < k \<longrightarrow> cs ! i = None" by blast
    have "\<forall>i. n \<le> i \<longrightarrow> i < Suc k \<longrightarrow> cs ! i = None" using n(4) Suc.prems(2) by (auto simp: less_Suc_eq)
    then show ?thesis using n True e by (intro exI [of _ n]) (simp add: Let_def)
  next
    case False
    then show ?thesis using e Suc.prems(2) by (intro exI [of _ k]) (auto simp: Let_def less_Suc_eq)
  qed
qed

lemma used_take: "n \<le> length cs \<Longrightarrow> (\<forall>i. n \<le> i \<longrightarrow> i < length cs \<longrightarrow> cs ! i = None) \<Longrightarrow> used (take n cs) = used cs"
proof -
  assume n: "n \<le> length cs" "\<forall>i. n \<le> i \<longrightarrow> i < length cs \<longrightarrow> cs ! i = None"
  have "filter (\<lambda>c. c \<noteq> None) (drop n cs) = []" using n by (auto simp: filter_empty_conv in_set_conv_nth)
  moreover have "used cs = used (take n cs) + used (drop n cs)"
    by (metis append_take_drop_id filter_append length_append used_def)
  ultimately show ?thesis by (simp add: used_def)
qed

section \<open>The table as a map\<close>

definition free_slot :: "slave \<Rightarrow> nat" where
  "free_slot s = (LEAST i. held s i = None)"

lemma slots_ok_idx: "slots_ok s \<Longrightarrow> sl_idx s < workers"
  by (simp add: slots_ok_def)

text \<open>A removal goes by the place that the identifier names, whatever the identifier is.\<close>

lemma remove_absent: "slot_of u = i \<Longrightarrow> held s i = None \<Longrightarrow> remove_conn u s = s"
proof -
  assume "slot_of u = i" "held s i = None"
  then have "slot_of u = i" "\<not> (i < length (sl_conduits s) \<and> sl_conduits s ! i \<noteq> None)" by (auto simp: held_def)
  then show ?thesis by (simp only: remove_conn_def Let_def if_False)
qed

lemma remove_fields:
  assumes "i < length (sl_conduits s)" "sl_conduits s ! i \<noteq> None" "slot_of u = i"
  defines "r \<equiv> remove_conn u s" and "cs \<equiv> (sl_conduits s)[i := None]"
  shows "sl_conduits r = (if i = length cs - 1 then fst (shrink cs (sl_empty s) (Suc i)) else cs)"
    "sl_empty r = (if i = length cs - 1 then snd (shrink cs (sl_empty s) (Suc i)) else set_insert i (sl_empty s))"
    "sl_idx r = sl_idx s" "sl_ops r = sl_ops s" "sl_count r = (if sl_count s > 0 then sl_count s - 1 else sl_count s)"
proof -
  have "r = (let s1 = (if i = length cs - 1 then s\<lparr>sl_conduits := fst (shrink cs (sl_empty s) (Suc i)), sl_empty := snd (shrink cs (sl_empty s) (Suc i))\<rparr>
      else s\<lparr>sl_conduits := cs, sl_empty := set_insert i (sl_empty s)\<rparr>) in if sl_count s1 > 0 then s1\<lparr>sl_count := sl_count s1 - 1\<rparr> else s1)"
    using assms(1-3) unfolding r_def cs_def remove_conn_def Let_def assms(3) by (simp only: simp_thms if_True case_prod_beta)
  then show "sl_conduits r = (if i = length cs - 1 then fst (shrink cs (sl_empty s) (Suc i)) else cs)"
    "sl_empty r = (if i = length cs - 1 then snd (shrink cs (sl_empty s) (Suc i)) else set_insert i (sl_empty s))"
    "sl_idx r = sl_idx s" "sl_ops r = sl_ops s" "sl_count r = (if sl_count s > 0 then sl_count s - 1 else sl_count s)"
    by (simp_all add: Let_def)
qed

lemma remove_present:
  assumes "slots_ok s" "held s i = Some c" "length (sl_conduits s) < 2 ^ 32" "slot_of u = i"
  shows "slots_ok (remove_conn u s) \<and> held (remove_conn u s) = (held s)(i := None) \<and>
    length (sl_conduits (remove_conn u s)) \<le> length (sl_conduits s) \<and> sl_idx (remove_conn u s) = sl_idx s \<and>
    sl_ops (remove_conn u s) = sl_ops s"
proof -
  define cs where "cs = (sl_conduits s)[i := None]"
  let ?r = "remove_conn u s"
  have i: "i < length (sl_conduits s)" "sl_conduits s ! i \<noteq> None" using assms(2) by (auto simp: held_def split: if_splits)
  have len: "length cs = length (sl_conduits s)" by (simp add: cs_def)
  note fields = remove_fields [OF i assms(4), folded cs_def]
  have u: "used (sl_conduits s) = used cs + 1" unfolding cs_def by (rule used_drop [OF i])
  have ok: "sl_idx s < workers" "sl_empty s = empties (sl_conduits s)" "sl_count s = of_nat (used (sl_conduits s))"
    "\<And>j d. held s j = Some d \<Longrightarrow> cd_uid d = uid_of j s" using assms(1) by (auto simp: slots_ok_def)
  have n: "\<exists>n \<le> length cs. sl_conduits ?r = take n cs \<and> sl_empty ?r = empties (take n cs) \<and> (n > 0 \<longrightarrow> cs ! (n - 1) \<noteq> None) \<and>
      (\<forall>j. n \<le> j \<longrightarrow> j < length cs \<longrightarrow> cs ! j = None)"
  proof (cases "i = length cs - 1")
    case True
    have "sl_empty s = empties (take (Suc i - 1) cs)"
    proof -
      have L: "length (sl_conduits s) = Suc i" using True i len by simp
      show ?thesis using i unfolding ok(2) cs_def by (intro same_sets) (auto simp: empties_sorted L less_Suc_eq)
    qed
    then have "\<exists>n \<le> Suc i. shrink cs (sl_empty s) (Suc i) = (take n cs, empties (take n cs)) \<and> (n > 0 \<longrightarrow> cs ! (n - 1) \<noteq> None) \<and>
        (\<forall>j. n \<le> j \<longrightarrow> j < Suc i \<longrightarrow> cs ! j = None)"
      using i len by (intro shrink_effect) (auto simp: cs_def)
    moreover have "length cs = Suc i" using True i len by simp
    ultimately show ?thesis unfolding fields(1,2) by (auto simp del: shrink.simps)
  next
    case False
    have "cs ! (length cs - 1) \<noteq> None"
      using assms(1) False i by (auto simp: slots_ok_def cs_def last_conv_nth nth_list_update)
    then show ?thesis using empties_drop [OF i(1)] unfolding fields(1,2) if_not_P [OF False] ok(2) cs_def [symmetric]
      by (intro exI [of _ "length cs"]) simp
  qed
  then obtain n where n: "n \<le> length cs" "sl_conduits ?r = take n cs" "sl_empty ?r = empties (take n cs)" "n > 0 \<longrightarrow> cs ! (n - 1) \<noteq> None"
    "\<forall>j. n \<le> j \<longrightarrow> j < length cs \<longrightarrow> cs ! j = None" by blast
  have rest: "sl_idx ?r = sl_idx s" "sl_ops ?r = sl_ops s" "sl_count ?r = (if sl_count s > 0 then sl_count s - 1 else sl_count s)"
    by (rule fields)+
  have count: "sl_count ?r = of_nat (used (take n cs))"
  proof -
    have "used (sl_conduits s) < 2 ^ 32" using used_le [of "sl_conduits s"] assms(3) by simp
    then have "unat (sl_count s) = used (sl_conduits s)" unfolding ok(3) by (simp add: unat_of_nat)
    then have "sl_count s \<noteq> 0" using u by auto
    then show ?thesis using rest(3) ok(3) u used_take [OF n(1,5)] by (simp add: word_gt_0)
  qed
  have sl: "held ?r = (held s)(i := None)"
    using n(1,2,5) i len by (auto simp: held_def fun_eq_iff cs_def nth_list_update split: if_splits)
  have "slots_ok ?r" unfolding slots_ok_def
    using n count rest(1) ok(1,4) sl by (auto simp: uid_of_def last_conv_nth)
  then show ?thesis using sl n(1,2) len rest by simp
qed

lemma slot_end: "held s (length (sl_conduits s)) = None"
  by (simp add: held_def)

lemma up_set_fields [simp]:
  "sl_idx (up_set ss v s) = sl_idx s" "sl_conduits (up_set ss v s) = sl_conduits s" "sl_empty (up_set ss v s) = sl_empty s"
  "sl_count (up_set ss v s) = sl_count s" "sl_ops (up_set ss v s) = sl_ops s" "sl_break (up_set ss v s) = sl_break s"
  by (simp_all add: up_set_def)

lemma slots_ok_frame:
  assumes "sl_idx r = sl_idx s" "sl_conduits r = sl_conduits s" "sl_empty r = sl_empty s" "sl_count r = sl_count s"
  shows "slots_ok r = slots_ok s" "held r = held s"
  using assms by (simp_all add: slots_ok_def held_def uid_of_def fun_eq_iff)

lemma used_push: "used (cs @ [Some c]) = used cs + 1"
  by (simp add: used_def)

text \<open>Where the next connection goes: the first empty place, or the end.\<close>

lemma free_slot_eq: "slots_ok s \<Longrightarrow> free_slot s = (case sl_empty s of [] \<Rightarrow> length (sl_conduits s) | i # _ \<Rightarrow> i)"
proof (cases "sl_empty s")
  case Nil
  assume ok: "slots_ok s"
  then have "empties (sl_conduits s) = []" using Nil by (simp add: slots_ok_def)
  then have "{i. i < length (sl_conduits s) \<and> sl_conduits s ! i = None} = {}" by (metis set_empties set_empty)
  then have "\<And>i. held s i = None \<Longrightarrow> length (sl_conduits s) \<le> i" by (fastforce simp: held_def not_less [symmetric] split: if_splits)
  then have "free_slot s = length (sl_conduits s)" unfolding free_slot_def by (intro Least_equality) (auto simp: slot_end)
  with Nil show ?thesis by simp
next
  case (Cons i rest)
  assume ok: "slots_ok s"
  then have e: "empties (sl_conduits s) = i # rest" using Cons by (simp add: slots_ok_def)
  have s: "set (i # rest) = {j. j < length (sl_conduits s) \<and> sl_conduits s ! j = None}" using set_empties [of "sl_conduits s"] e by simp
  have i: "held s i = None" "i < length (sl_conduits s)" using s by (auto simp: held_def)
  have "i \<le> j" if "held s j = None" for j
  proof (cases "j < length (sl_conduits s)")
    case True
    then have "j \<in> set (i # rest)" using that unfolding s by (simp add: held_def)
    then show ?thesis using empties_sorted [of "sl_conduits s"] e by auto
  qed (use i in simp)
  then have "free_slot s = i" unfolding free_slot_def using i by (intro Least_equality) auto
  with Cons show ?thesis by simp
qed

lemma first_empty:
  assumes "slots_ok s" "sl_empty s = i # rest"
  shows "i < length (sl_conduits s)" "sl_conduits s ! i = None"
proof -
  have "i \<in> set (sl_empty s)" unfolding assms(2) by simp
  moreover have "sl_empty s = empties (sl_conduits s)" using assms(1) by (simp only: slots_ok_def)
  ultimately have "i \<in> set (empties (sl_conduits s))" by (simp only:)
  then show "i < length (sl_conduits s)" "sl_conduits s ! i = None" by simp_all
qed

lemma accept_break:
  assumes "slots_ok s" "accept_conn env ss s = Some s'"
  shows "sl_break s' = sl_break s"
  using assms(2) first_empty [OF assms(1)]
  by (auto simp: accept_conn.simps [of env ss s] push_slot_def fill_empty_def up_set_def Let_def split: list.splits if_splits)

lemma accept_refused:
  assumes "slots_ok s" "made_of env s ss (uid_of (free_slot s) s) \<noteq> Made" "made_of env s ss (uid_of (free_slot s) s) = Null \<longrightarrow> ss < 0"
  shows "accept_conn env ss s = Some (up_set ss (- 1) s)"
proof (cases "sl_empty s")
  case Nil
  then have "free_slot s = length (sl_conduits s)" using free_slot_eq [OF assms(1)] by simp
  with Nil assms(2,3) show ?thesis by (cases "made_of env s ss (uid_of (free_slot s) s)") (simp_all add: accept_conn.simps push_slot_def Let_def)
next
  case (Cons i rest)
  then have f: "free_slot s = i" using free_slot_eq [OF assms(1)] by simp
  have "i < length (sl_conduits s)" by (rule first_empty [OF assms(1) Cons])
  with Cons f assms(2) show ?thesis by (simp add: accept_conn.simps fill_empty_def)
qed

lemma accept_made:
  assumes "slots_ok s" "made_of env s ss (uid_of (free_slot s) s) = Made"
  shows "\<exists>s'. accept_conn env ss s = Some s' \<and> slots_ok s' \<and>
    held s' = (held s)(free_slot s := Some (new_conduit ss (free_slot s) s)) \<and> sl_idx s' = sl_idx s \<and> sl_ops s' = sl_ops s \<and>
    length (sl_conduits s') \<le> length (sl_conduits s) + 1"
proof (cases "sl_empty s")
  case Nil
  let ?n = "length (sl_conduits s)" and ?c = "new_conduit ss (free_slot s) s"
  have f: "free_slot s = ?n" using free_slot_eq [OF assms(1)] Nil by simp
  define s1 where "s1 = s\<lparr>sl_conduits := sl_conduits s @ [Some ?c], sl_count := sl_count s + 1\<rparr>"
  have a: "accept_conn env ss s = Some (up_set ss (uid_of ?n s) s1)"
    using Nil assms(2) by (simp add: accept_conn.simps push_slot_def Let_def f s1_def)
  have sl: "held s1 = (held s)(?n := Some ?c)" by (auto simp: held_def s1_def fun_eq_iff nth_append)
  have "slots_ok s1" unfolding slots_ok_def sl using assms(1) Nil
    by (auto simp: slots_ok_def s1_def empties_push used_push uid_of_def new_conduit_def f)
  then show ?thesis using a sl slots_ok_frame [of "up_set ss (uid_of ?n s) s1" s1] f by (simp add: s1_def)
next
  case (Cons i rest)
  let ?c = "new_conduit ss (free_slot s) s"
  have f: "free_slot s = i" using free_slot_eq [OF assms(1)] Cons by simp
  note i = first_empty [OF assms(1) Cons]
  define s1 where "s1 = s\<lparr>sl_empty := remove1 i (sl_empty s), sl_conduits := (sl_conduits s)[i := Some ?c], sl_count := sl_count s + 1\<rparr>"
  have u: "up_set ss v (s\<lparr>sl_empty := e, sl_conduits := cs\<rparr>)\<lparr>sl_count := sl_count s + 1\<rparr> =
      up_set ss v (s\<lparr>sl_empty := e, sl_conduits := cs, sl_count := sl_count s + 1\<rparr>)" for v e cs by (simp add: up_set_def)
  have a: "accept_conn env ss s = Some (up_set ss (uid_of i s) s1)"
    using Cons assms(2) i by (simp add: accept_conn.simps fill_empty_def Let_def f s1_def u [symmetric] del: remove1.simps)
  have sl: "held s1 = (held s)(i := Some ?c)" using i by (auto simp: held_def s1_def fun_eq_iff nth_list_update)
  have e: "sl_empty s1 = empties (sl_conduits s1)" using assms(1) empties_fill [OF i(1)] by (simp add: slots_ok_def s1_def)
  have l: "sl_conduits s1 \<noteq> [] \<longrightarrow> last (sl_conduits s1) \<noteq> None" using assms(1) i
    by (auto simp: slots_ok_def s1_def last_conv_nth nth_list_update)
  have n: "sl_count s1 = of_nat (used (sl_conduits s1))" using assms(1) used_fill [OF i] by (simp add: slots_ok_def s1_def)
  have "slots_ok s1" unfolding slots_ok_def sl using assms(1) e l n
    by (auto simp: slots_ok_def s1_def uid_of_def new_conduit_def f)
  then show ?thesis using a sl slots_ok_frame [of "up_set ss (uid_of i s) s1" s1] f by (simp add: s1_def)
qed

text \<open>Every operation of the table keeps it in order; a removal empties the place its identifier names.\<close>

lemma remove_refines:
  assumes "slots_ok s" "length (sl_conduits s) < 2 ^ 32"
  shows "slots_ok (remove_conn u s)" "held (remove_conn u s) = (held s)(slot_of u := None)"
    "length (sl_conduits (remove_conn u s)) \<le> length (sl_conduits s)" "sl_idx (remove_conn u s) = sl_idx s" "sl_ops (remove_conn u s) = sl_ops s"
    "sl_break (remove_conn u s) = sl_break s"
proof -
  have "slots_ok (remove_conn u s) \<and> held (remove_conn u s) = (held s)(slot_of u := None) \<and>
    length (sl_conduits (remove_conn u s)) \<le> length (sl_conduits s) \<and> sl_idx (remove_conn u s) = sl_idx s \<and> sl_ops (remove_conn u s) = sl_ops s"
  proof (cases "held s (slot_of u)")
    case None
    have "(held s)(slot_of u := None) = held s" using None by (simp add: fun_eq_iff)
    then show ?thesis using assms(1) unfolding remove_absent [OF refl None] by simp
  next
    case (Some c)
    show ?thesis by (rule remove_present [OF assms(1) Some assms(2) refl])
  qed
  then show "slots_ok (remove_conn u s)" "held (remove_conn u s) = (held s)(slot_of u := None)"
    "length (sl_conduits (remove_conn u s)) \<le> length (sl_conduits s)" "sl_idx (remove_conn u s) = sl_idx s" "sl_ops (remove_conn u s) = sl_ops s"
    by blast+
  show "sl_break (remove_conn u s) = sl_break s" by (simp add: remove_conn_def Let_def split: prod.splits)
qed

lemma held_place:
  assumes "slots_ok s" "length (sl_conduits s) < 2 ^ 30" "held s j = Some d"
  shows "slot_of (cd_uid d) = j" "worker_of (cd_uid d) = Some (sl_idx s)"
proof -
  have j: "j < 2 ^ 30" using assms(2,3) by (simp add: held_def split: if_splits)
  have u: "cd_uid d = uid_of j s" using assms(1,3) by (simp add: slots_ok_def)
  show "slot_of (cd_uid d) = j" unfolding u by (rule slot_of_uid [OF slots_ok_idx [OF assms(1)] j])
  show "worker_of (cd_uid d) = Some (sl_idx s)" unfolding u by (rule worker_of_uid [OF slots_ok_idx [OF assms(1)] j])
qed

lemma free_slot_first:
  shows "held s (free_slot s) = None" "\<forall>j < free_slot s. held s j \<noteq> None"
proof -
  show "held s (free_slot s) = None"
    unfolding free_slot_def by (rule LeastI [of "\<lambda>i. held s i = None", OF slot_end])
  show "\<forall>j < free_slot s. held s j \<noteq> None"
    unfolding free_slot_def by (intro allI impI not_less_Least [of _ "\<lambda>i. held s i = None"])
qed

text \<open>C8: a table in order with fewer than \<open>2 ^ 30\<close> places is a map from places to connections.  The identifier of a connection
  leads back to its place and its slave, and it is the connection's own; removing it takes out this connection and no other; an
  accepted socket gets the first place that is free.  After each of these operations the table is in order again.\<close>

theorem table_refines:
  assumes "slots_ok s" "length (sl_conduits s) < 2 ^ 30" "held s i = Some c"
  shows "slot_of (cd_uid c) = i \<and> worker_of (cd_uid c) = Some (sl_idx s) \<and> (\<forall>j d. held s j = Some d \<longrightarrow> cd_uid d = cd_uid c \<longrightarrow> j = i) \<and>
    slots_ok (remove_conn (cd_uid c) s) \<and> held (remove_conn (cd_uid c) s) = (held s)(i := None) \<and>
    (made_of env s ss (uid_of (free_slot s) s) = Made \<longrightarrow>
       (\<exists>s'. accept_conn env ss s = Some s' \<and> slots_ok s' \<and> held s' = (held s)(free_slot s := Some (new_conduit ss (free_slot s) s)) \<and>
          (\<forall>j < free_slot s. held s j \<noteq> None) \<and> held s (free_slot s) = None))"
proof (intro conjI impI allI)
  have len: "length (sl_conduits s) < 2 ^ 32" using assms(2) by simp
  note out = remove_refines(1,2) [OF assms(1) len, of "cd_uid c"] and at = held_place [OF assms]
  show "slot_of (cd_uid c) = i" "worker_of (cd_uid c) = Some (sl_idx s)" by (rule at)+
  show "j = i" if "held s j = Some d" "cd_uid d = cd_uid c" for j d
    using held_place(1) [OF assms(1,2) that(1)] at(1) unfolding that(2) by (rule trans [OF sym])
  show "slots_ok (remove_conn (cd_uid c) s)" by (rule out)
  show "held (remove_conn (cd_uid c) s) = (held s)(i := None)" using out(2) unfolding at(1) .
  assume "made_of env s ss (uid_of (free_slot s) s) = Made"
  from accept_made [OF assms(1) this] obtain s' where "accept_conn env ss s = Some s'" "slots_ok s'"
    "held s' = (held s)(free_slot s := Some (new_conduit ss (free_slot s) s))" by blast
  then show "\<exists>s'. accept_conn env ss s = Some s' \<and> slots_ok s' \<and> held s' = (held s)(free_slot s := Some (new_conduit ss (free_slot s) s)) \<and>
      (\<forall>j < free_slot s. held s j \<noteq> None) \<and> held s (free_slot s) = None"
    using free_slot_first by (intro exI [of _ s'] conjI)
qed


text \<open>What the queue of operations relies on of the table; \<open>n\<close> is the room that is left.\<close>

locale conn_table =
  fixes ok :: "nat \<Rightarrow> 's \<Rightarrow> bool"
    and look :: "'s \<Rightarrow> nat \<Rightarrow> 'c option"
    and place :: "'s \<Rightarrow> nat"
    and put_in :: "'s \<Rightarrow> 's option"
    and take_out :: "nat \<Rightarrow> 's \<Rightarrow> 's"
    and made :: "'s \<Rightarrow> 'c"
    and room :: nat
  assumes out_ok: "ok n s \<Longrightarrow> i < room \<Longrightarrow> ok n (take_out i s)"
    and out_look: "ok n s \<Longrightarrow> i < room \<Longrightarrow> look (take_out i s) = (look s)(i := None)"
    and in_ok: "ok (Suc n) s \<Longrightarrow> \<exists>s'. put_in s = Some s' \<and> ok n s' \<and> look s' = (look s)(place s := Some (made s))"
    and first_free: "ok n s \<Longrightarrow> place s = (LEAST i. look s i = None)"
begin

lemma place_after_out:
  assumes "ok n s" "i < room" "\<And>j. j < i \<Longrightarrow> look s j \<noteq> None"
  shows "place (take_out i s) = i"
proof -
  have "(LEAST j. look (take_out i s) j = None) = i"
    unfolding out_look [OF assms(1,2)]
  proof (rule Least_equality)
    show "i \<le> j" if "((look s)(i := None)) j = None" for j
      using that assms(3) [of j] by (cases "j < i") auto
  qed simp
  then show ?thesis using first_free [OF out_ok [OF assms(1,2)]] by simp
qed

text \<open>An entry that is taken out twice takes the next one with it.\<close>

lemma out_in_out:
  assumes "ok 1 s" "i < room" "\<And>j. j < i \<Longrightarrow> look s j \<noteq> None"
  shows "\<exists>s1. put_in (take_out i s) = Some s1 \<and> look s1 = (look s)(i := Some (made (take_out i s))) \<and>
    look (take_out i s1) = (look s)(i := None)"
proof -
  have "ok (Suc 0) (take_out i s)" using out_ok [OF assms(1,2)] unfolding One_nat_def .
  from in_ok [OF this] obtain s1 where i: "put_in (take_out i s) = Some s1 \<and> ok 0 s1 \<and>
    look s1 = (look (take_out i s))(place (take_out i s) := Some (made (take_out i s)))" ..
  note s1 = i [THEN conjunct1] i [THEN conjunct2, THEN conjunct1] i [THEN conjunct2, THEN conjunct2]
  have p: "place (take_out i s) = i" by (rule place_after_out) (fact assms)+
  have "look s1 = (look s)(i := Some (made (take_out i s)))" unfolding s1(3) p out_look [OF assms(1,2)] by simp
  moreover have "look (take_out i s1) = (look s)(i := None)"
    unfolding out_look [OF s1(2) assms(2)] s1(3) p out_look [OF assms(1,2)] by simp
  ultimately show ?thesis using s1(1) by blast
qed

end

definition table_ok :: "nat \<Rightarrow> slave \<Rightarrow> bool" where
  "table_ok n s \<longleftrightarrow> slots_ok s \<and> length (sl_conduits s) + n < 2 ^ 30"

lemma remove_table:
  assumes "table_ok n s" "i < 2 ^ 30"
  shows "table_ok n (remove_conn (uid_of i s) s) \<and> held (remove_conn (uid_of i s) s) = (held s)(i := None) \<and>
    sl_idx (remove_conn (uid_of i s) s) = sl_idx s"
proof -
  have "slots_ok s" "length (sl_conduits s) < 2 ^ 32" using assms(1) by (simp_all add: table_ok_def)
  from remove_refines [OF this, of "uid_of i s"] assms slot_of_uid [OF slots_ok_idx, of s i] show ?thesis by (simp add: table_ok_def)
qed

interpretation conns: conn_table table_ok held free_slot "accept_conn (\<lambda>_ _ _. Made) ss" "\<lambda>i s. remove_conn (uid_of i s) s"
  "\<lambda>s. new_conduit ss (free_slot s) s" "2 ^ 30" for ss
proof
  show "table_ok n s \<Longrightarrow> i < 2 ^ 30 \<Longrightarrow> table_ok n (remove_conn (uid_of i s) s)" for n s i using remove_table by blast
  show "table_ok n s \<Longrightarrow> i < 2 ^ 30 \<Longrightarrow> held (remove_conn (uid_of i s) s) = (held s)(i := None)" for n s i using remove_table by blast
  show "table_ok (Suc n) s \<Longrightarrow> \<exists>s'. accept_conn (\<lambda>_ _ _. Made) ss s = Some s' \<and> table_ok n s' \<and>
      held s' = (held s)(free_slot s := Some (new_conduit ss (free_slot s) s))" for n s
    using accept_made [of s "\<lambda>_ _ _. Made" ss] by (force simp: table_ok_def made_of_def)
  show "free_slot s = (LEAST i. held s i = None)" for s by (rule free_slot_def)
qed

text \<open>C22: identifiers are used again at once.  When a connection in the first part of the table that has no gaps is to be removed twice
  (\<^verbatim>\<open>forceClose\<close> asks for it at every call), and a socket is accepted between the two removals, the new connection stands at the same
  place under the same identifier, and the second removal closes it.\<close>

theorem late_remove_closes_new:
  assumes "slots_ok s" "length (sl_conduits s) < 2 ^ 30 - 1" "held s i = Some c" "\<And>j. j < i \<Longrightarrow> held s j \<noteq> None"
  shows "\<exists>s1 s2 d. foldm (run_op (\<lambda>_ _ _. Made)) s [OpRemoved (cd_uid c), OpAccepted ss] = Some s1 \<and>
    held s1 = (held s)(i := Some d) \<and> cd_fd d = ss \<and> cd_uid d = cd_uid c \<and>
    run_op (\<lambda>_ _ _. Made) s1 (OpRemoved (cd_uid c)) = Some s2 \<and> held s2 = (held s)(i := None)"
proof -
  have ok: "table_ok 1 s" using assms(1,2) by (simp add: table_ok_def)
  have i: "i < 2 ^ 30" using assms(2,3) by (auto simp: held_def split: if_splits)
  have u: "cd_uid c = uid_of i s" using assms(1,3) by (simp add: slots_ok_def)
  let ?r = "remove_conn (uid_of i s) s"
  from conns.out_in_out [OF ok i assms(4), of ss] obtain s1 where s1: "accept_conn (\<lambda>_ _ _. Made) ss ?r = Some s1"
    "held s1 = (held s)(i := Some (new_conduit ss (free_slot ?r) ?r))" "held (remove_conn (uid_of i s1) s1) = (held s)(i := None)" by blast
  have r: "table_ok 1 ?r" "sl_idx ?r = sl_idx s" using remove_table [OF ok i] by blast+
  have f: "free_slot ?r = i" using conns.place_after_out [OF ok i assms(4)] .
  have "sl_idx s1 = sl_idx s"
    using accept_made [of ?r "\<lambda>_ _ _. Made" ss] r s1(1) by (auto simp: table_ok_def made_of_def)
  then have "uid_of i s1 = uid_of i s" by (simp add: uid_of_def)
  moreover have "cd_fd (new_conduit ss i ?r) = ss" "cd_uid (new_conduit ss i ?r) = uid_of i s" using r(2) by (simp_all add: new_conduit_def uid_of_def)
  ultimately show ?thesis using s1 unfolding u f by (auto simp: run_op_def)
qed

text \<open>\<^verbatim>\<open>destroy\<close> forgets the connections but not the set of empty places; on a slave that is started again after
  it, the next socket makes \<^verbatim>\<open>_accepted\<close> search for ever, with the mutex held.\<close>

theorem restarted_slave_hangs:
  assumes "sl_empty s \<noteq> []"
  shows "accept_conn env ss (destroy_slave s) = None"
proof (rule ccontr)
  assume "accept_conn env ss (destroy_slave s) \<noteq> None"
  then obtain s' where "accept_conn env ss (destroy_slave s) = Some s'" by blast
  then have "sl_conduits (destroy_slave s) = [] \<longrightarrow> sl_empty (destroy_slave s) \<noteq> [] \<longrightarrow> False"
    by (rule accept_conn.raw_induct [rotated, where P = "\<lambda>e k t t'. sl_conduits t = [] \<longrightarrow> sl_empty t \<noteq> [] \<longrightarrow> False"])
      (auto split: list.splits)
  then show False using assms by (simp add: destroy_slave_def)
qed

text \<open>A socket for which there is no memory at the end of the table is counted, and its place is not empty.\<close>

lemma null_is_counted:
  assumes "slots_ok s" "sl_empty s = []" "0 \<le> ss" "env s ss (uid_of (length (sl_conduits s)) s) = Null"
  shows "\<exists>s'. accept_conn env ss s = Some s' \<and> sl_count s' = sl_count s + 1 \<and> held s' = held s \<and> sl_empty s' = []"
  using assms by (auto simp: accept_conn.simps push_slot_def made_of_def Let_def up_set_def held_def nth_append fun_eq_iff)

section \<open>The master\<close>

text \<open>\<^verbatim>\<open>find\<close> never finds a connection: it looks where a connection should be only to search on with another
  number.\<close>

theorem find_finds_nothing:
  assumes "find_conn ms i = Some c"
  shows "c = None"
  using assms
  by (rule find_conn.raw_induct [rotated, where P = "\<lambda>ms i c. c = None"])
    (auto simp: bind_eq_Some_conv split: if_splits)

text \<open>The search for the first connection of the first slave does not end when that is the first connection the server has
  opened itself.\<close>

lemma find_loops:
  assumes "ms ! 0 = s" "ms \<noteq> []" "sl_conduits s \<noteq> []" "sl_conn_up s \<noteq> []" "sl_conn_up s ! 0 = 0"
  shows "find_conn ms 0 = None"
proof (rule ccontr)
  assume "find_conn ms 0 \<noteq> None"
  then obtain c where "find_conn ms 0 = Some c" by blast
  then have "ms ! 0 = s \<and> ms \<noteq> [] \<longrightarrow> (0::int) = 0 \<longrightarrow> False"
    by (rule find_conn.raw_induct [rotated, where P = "\<lambda>ms i c. ms ! 0 = s \<and> ms \<noteq> [] \<longrightarrow> i = 0 \<longrightarrow> False"])
      (use assms(3-5) in \<open>auto simp: bind_eq_Some_conv worker_of_def workers_def slot_of_def split: if_splits\<close>)
  then show False using assms by simp
qed

lemma least_from_least:
  assumes "least_from i best m ss = r" "best < i"
  shows "(r = best \<and> (\<forall>s \<in> set ss. m \<le> sl_count s)) \<or>
    (i \<le> r \<and> r < i + length ss \<and> sl_count (ss ! (r - i)) \<le> m \<and> (\<forall>s \<in> set ss. sl_count (ss ! (r - i)) \<le> sl_count s))"
  using assms
proof (induction ss arbitrary: i best m)
  case (Cons s ss)
  show ?case
  proof (cases "sl_count s < m")
    case True
    then have "least_from (i + 1) i (sl_count s) ss = r" using Cons.prems by simp
    from Cons.IH [OF this] True show ?thesis by (force simp: nth_Cons' Suc_diff_le)
  next
    case False
    then have "least_from (i + 1) best m ss = r" using Cons.prems by simp
    from Cons.IH [OF this] False Cons.prems(2) show ?thesis by (force simp: nth_Cons' Suc_diff_le)
  qed
qed simp

lemma least_loaded_least:
  assumes "ms \<noteq> []"
  shows "least_loaded ms < length ms \<and> (\<forall>s \<in> set ms. sl_count (ms ! least_loaded ms) \<le> sl_count s)"
proof -
  obtain s ss where ms: "ms = s # ss" using assms by (cases ms) auto
  show ?thesis using least_from_least [of 1 0 "sl_count s" ss, OF refl] by (auto simp: ms least_loaded_def nth_Cons')
qed

lemma least_from_counts: "map sl_count ss = map sl_count ts \<Longrightarrow> least_from i best m ss = least_from i best m ts"
proof (induction ss arbitrary: ts i best m)
  case (Cons s ss)
  then obtain t us where "ts = t # us" by (cases ts) auto
  with Cons show ?case by simp
qed simp

lemma least_loaded_counts: "map sl_count ms = map sl_count ns \<Longrightarrow> least_loaded ms = least_loaded ns"
  by (cases ms; cases ns) (auto simp: least_loaded_def intro: least_from_counts)

text \<open>Every socket of one burst goes to the same slave, the one that had the fewest connections at its start: a connection
  counts only when the slave has taken it up.\<close>

theorem burst_goes_to_one:
  assumes "ms \<noteq> []"
  shows "on_server_read socks ms = ms[least_loaded ms := (ms ! least_loaded ms)\<lparr>sl_ops := sl_ops (ms ! least_loaded ms) @ map OpAccepted socks\<rparr>] \<and>
    (\<forall>s \<in> set ms. sl_count (ms ! least_loaded ms) \<le> sl_count s)"
proof -
  let ?i = "least_loaded ms"
  have i: "?i < length ms" using least_loaded_least [OF assms] by blast
  have "fold (\<lambda>ss ms. let i = least_loaded ms in ms[i := queue_accepted ss (ms ! i)]) socks (ms[?i := (ms ! ?i)\<lparr>sl_ops := ops\<rparr>]) =
      ms[?i := (ms ! ?i)\<lparr>sl_ops := ops @ map OpAccepted socks\<rparr>]" for ops
  proof (induction socks arbitrary: ops)
    case (Cons ss socks)
    have "least_loaded (ms[?i := (ms ! ?i)\<lparr>sl_ops := ops\<rparr>]) = ?i"
      using i by (intro least_loaded_counts) (simp add: map_update list_update_id [of "map sl_count ms" ?i, simplified nth_map [OF i]])
    then show ?case using i Cons.IH [of "ops @ [OpAccepted ss]"] by (simp add: Let_def queue_accepted_def)
  qed simp
  from this [of "sl_ops (ms ! ?i)"] show ?thesis using least_loaded_least [OF assms] by (simp add: on_server_read_def)
qed

section \<open>Closing\<close>

text \<open>A connection that is to be closed when everything has been sent is shut down once, at the first chance.\<close>

lemma pending_close:
  assumes "cn_out c \<noteq> []"
  shows "on_write (pend_close c) = pend_close c"
    "on_write ((pend_close c)\<lparr>cn_out := []\<rparr>) = (close_conn (conn_note [NoLinger] c))\<lparr>cn_pend := False, cn_out := []\<rparr>"
  using assms by (simp_all add: pend_close_def on_write_def close_conn_def conn_note_def)

section \<open>A concrete server\<close>

definition three_places :: slave where
  "three_places = \<lparr>sl_idx = 1, sl_conduits = [Some \<lparr>cd_fd = 5, cd_uid = 1\<rparr>, None, Some \<lparr>cd_fd = 7, cd_uid = 5\<rparr>], sl_empty = [1],
     sl_conn_up = [- 1, - 1, - 1], sl_count = 2, sl_ops = [OpRemoved 5, OpAccepted 9], sl_running = True, sl_break = False\<rparr>"

lemma three_ok: "slots_ok three_places"
  by (auto simp: slots_ok_def three_places_def empties_def used_def held_def uid_of_def workers_def less_Suc_eq numeral_3_eq_3 upt_rec)

lemma three_uid [simp]: "uid_of 0 three_places = 1" "uid_of 2 three_places = 5"
  by (simp_all add: uid_of_small three_places_def workers_def)

lemma three_slots: "held three_places 0 = Some \<lparr>cd_fd = 5, cd_uid = 1\<rparr>" "held three_places 2 = Some \<lparr>cd_fd = 7, cd_uid = 5\<rparr>"
  by (simp_all add: held_def three_places_def)

theorem table_refines_witness:
  "slot_of 5 = 2 \<and> worker_of 5 = Some 1 \<and> slots_ok (remove_conn 5 three_places) \<and> held (remove_conn 5 three_places) = (held three_places)(2 := None)"
proof -
  have "length (sl_conduits three_places) < 2 ^ 30" "sl_idx three_places = 1" by (simp_all add: three_places_def)
  then show ?thesis
    using table_refines [OF three_ok _ three_slots(2), of "\<lambda>_ _ _. Made" 9] by simp
qed


theorem late_remove_closes_new_witness:
  "\<exists>s1 s2 d. foldm (run_op (\<lambda>_ _ _. Made)) three_places [OpRemoved 1, OpAccepted 9] = Some s1 \<and> held s1 0 = Some d \<and> cd_fd d = 9 \<and>
    cd_uid d = 1 \<and> run_op (\<lambda>_ _ _. Made) s1 (OpRemoved 1) = Some s2 \<and> held s2 0 = None"
proof -
  have "length (sl_conduits three_places) < 2 ^ 30 - 1" by (simp add: three_places_def)
  from late_remove_closes_new [OF three_ok this three_slots(1), of 9] show ?thesis by (auto simp: fun_eq_iff)
qed

theorem restarted_slave_hangs_witness: "accept_conn (\<lambda>_ _ _. Made) 9 (destroy_slave three_places) = None"
  by (rule restarted_slave_hangs) (simp add: three_places_def)

theorem find_finds_nothing_witness: "\<exists>c. find_conn [three_places, three_places] 1 = Some c \<and> c = None"
proof -
  have "find_conn [three_places, three_places] 1 = Some None"
    by (simp add: find_conn.simps [of _ 1] find_conn.simps [of _ "- 1"] worker_of_def slot_of_def workers_def three_places_def)
  from this find_finds_nothing [OF this] show ?thesis by blast
qed

theorem burst_goes_to_one_witness:
  "on_server_read [20, 21] [three_places, three_places\<lparr>sl_count := 1\<rparr>] =
    [three_places, three_places\<lparr>sl_count := 1, sl_ops := [OpRemoved 5, OpAccepted 9, OpAccepted 20, OpAccepted 21]\<rparr>]"
  using burst_goes_to_one [of "[three_places, three_places\<lparr>sl_count := 1\<rparr>]" "[20, 21]"]
  by (simp add: least_loaded_def three_places_def word_less_nat_alt)

end
