(* ===== verification/ServerLife.thy ===== *)
theory ServerLife
  imports Dispatch
begin

text \<open>
  The server's life, \<^verbatim>\<open>Server/WorldServer.cpp\<close> and \<^verbatim>\<open>Server/Main.cpp\<close>: the making, starting, joining and shutting down of its
  threads, what it tells the state service and what it makes of that service's answers; and \<^verbatim>\<open>Common/StringTokenizer.cpp\<close>,
  which takes the list of merged servers apart.

  A function of the code is the list of its steps (\<open>server_step\<close>): what it does to a thread or to the network, or tells
  others, in the order of the code.  \<open>exec\<close> takes them until one follows a pointer that has not been set; its second result
  says whether all have been taken.  The state has the pointers and the steps taken so far.  The build is one in
  which the numbers of the threads are declared: \<^verbatim>\<open>_FB\<close> or \<^verbatim>\<open>_VT\<close> is defined (\<^verbatim>\<open>WORKER_THREAD_DC\<close> is
  not), \<^verbatim>\<open>OPEN_API_ON\<close> and \<^verbatim>\<open>_DEBUG\<close>
  are not.  \<^verbatim>\<open>Cfg::load\<close>, which has no body, \<^verbatim>\<open>rand\<close> and the bytes that curl receives are parameters.
\<close>

section \<open>Tokens\<close>

definition is_space :: "char \<Rightarrow> bool" where
  "is_space c \<longleftrightarrow> of_char c \<in> {9, 10, 11, 12, 13, 32 :: nat}"

definition trim_end :: "string \<Rightarrow> string" where
  "trim_end cs = rev (dropWhile is_space (rev cs))"

function tokenize :: "string \<Rightarrow> bool \<Rightarrow> bool \<Rightarrow> string \<Rightarrow> string list" where
  "tokenize seps ignore_empty trim [] = []"
| "tokenize seps ignore_empty trim (c # cs) =
     (let s = (if trim then dropWhile is_space (c # cs) else c # cs);
          tok = takeWhile (\<lambda>d. d \<notin> set seps) s; rest = dropWhile (\<lambda>d. d \<notin> set seps) s;
          tok' = (if trim then trim_end tok else tok);
          more = tokenize seps ignore_empty trim (tl rest)
      in if ignore_empty \<and> tok' = [] then more else tok' # more)"
  by pat_completeness auto

lemma tokenize_shorter: "length (tl (dropWhile P (if b then dropWhile Q (c # cs) else c # cs))) < Suc (length cs)"
proof -
  define xs where "xs = (if b then dropWhile Q (c # cs) else c # cs)"
  have "length xs \<le> Suc (length cs)" unfolding xs_def using length_dropWhile_le [of Q "c # cs"] by (cases b) simp_all
  then have "length (dropWhile P xs) \<le> Suc (length cs)" using length_dropWhile_le [of P xs] by linarith
  then show ?thesis unfolding xs_def [symmetric] by simp
qed

termination tokenize
  by (relation "measure (\<lambda>(_, _, _, cs). length cs)")
    (simp_all only: in_measure wf_measure case_prod_conv list.size add_Suc_right add_0_right tokenize_shorter)

definition is_digit :: "char \<Rightarrow> bool" where
  "is_digit c \<longleftrightarrow> 48 \<le> (of_char c :: nat) \<and> (of_char c :: nat) \<le> 57"

definition digits :: "string \<Rightarrow> int" where
  "digits cs = fold (\<lambda>c n. n * 10 + (int (of_char c) - 48)) (takeWhile is_digit cs) 0"

text \<open>\<^verbatim>\<open>atoi\<close> of the C library, for numbers that an \<^verbatim>\<open>int\<close> holds.\<close>

definition atoi :: "string \<Rightarrow> int" where
  "atoi cs = (case dropWhile is_space cs of
      [] \<Rightarrow> 0
    | c # ds \<Rightarrow> if c = CHR ''-'' then - digits ds else if c = CHR ''+'' then digits ds else digits (c # ds))"

text \<open>\<^verbatim>\<open>%d\<close> of \<^verbatim>\<open>snprintf\<close>.\<close>

fun dec :: "nat \<Rightarrow> string" where
  "dec n = (if n < 10 then [] else dec (n div 10)) @ [char_of (48 + n mod 10)]"

definition dec_int :: "int \<Rightarrow> string" where
  "dec_int n = (if n < 0 then CHR ''-'' # dec (nat (- n)) else dec (nat n))"

section \<open>Threads\<close>

datatype worker_kind = WorldWorker | CountryWorker | LoginWorker | LoadWorker | DBWorker nat

datatype worker_act = ThreadRun | ThreadShutdown | ThreadJoined

datatype server_step =
    MakeWorker worker_thread worker_kind
  | OnWorker worker_thread worker_act
  | PoolMade string
  | PoolDeleted string
  | SystemsLoaded
  | DataLoaded
  | TcpMade u16
  | TcpStarted
  | TcpStopped
  | TcpJoined
  | StateTold string
  | Slept nat
  | NetworkClosed

text \<open>\<open>sr_tcp\<close>: \<^verbatim>\<open>m_TcpService\<close> has been set.  Of the configuration those members that are used here.\<close>

record world_server =
  sr_workers :: "worker_thread \<Rightarrow> worker_kind option"
  sr_tcp :: bool
  sr_steps :: "server_step list"

record server_cfg =
  cf_server_num :: int
  cf_server_log_id :: u32
  cf_channel_name :: string
  cf_slug_name :: string
  cf_tcp_port :: u16
  cf_merge_list :: string
  cf_state_url :: string

definition new_server :: world_server where
  "new_server = \<lparr>sr_workers = (\<lambda>_. None), sr_tcp = False, sr_steps = []\<rparr>"

text \<open>Whether the pointer that a step follows is set.\<close>

definition step_ok :: "server_step \<Rightarrow> world_server \<Rightarrow> bool" where
  "step_ok st s =
     (case st of OnWorker w a \<Rightarrow> sr_workers s w \<noteq> None | TcpStarted \<Rightarrow> sr_tcp s | TcpStopped \<Rightarrow> sr_tcp s | TcpJoined \<Rightarrow> sr_tcp s
      | _ \<Rightarrow> True)"

definition take_step :: "server_step \<Rightarrow> world_server \<Rightarrow> world_server" where
  "take_step st s =
     (let s1 = s\<lparr>sr_steps := sr_steps s @ [st]\<rparr>
      in case st of
           MakeWorker w k \<Rightarrow> s1\<lparr>sr_workers := (sr_workers s1)(w := Some k)\<rparr>
         | TcpMade p \<Rightarrow> s1\<lparr>sr_tcp := True\<rparr>
         | _ \<Rightarrow> s1)"

fun exec :: "server_step list \<Rightarrow> world_server \<Rightarrow> world_server \<times> bool" where
  "exec [] s = (s, True)"
| "exec (st # sts) s = (if step_ok st s then exec sts (take_step st s) else (s, False))"

definition all_workers :: "worker_thread list" where
  "all_workers = [WORKER_THREAD_COUNTRY_1, WORKER_THREAD_COUNTRY_2, WORKER_THREAD_NEUTRAL, WORKER_THREAD_WORLD, WORKER_THREAD_LOGIN,
     WORKER_THREAD_SORT, WORKER_THREAD_DB, WORKER_THREAD_DB1, WORKER_THREAD_DB2, WORKER_THREAD_DB3, WORKER_THREAD_DB4, WORKER_THREAD_DB5,
     WORKER_THREAD_DB6, WORKER_THREAD_DB7, WORKER_THREAD_DB8, WORKER_THREAD_DB_LOG, WORKER_THREAD_DB_LOG1, WORKER_THREAD_LOAD]"

definition countries :: "worker_thread list" where
  "countries = filter (\<lambda>w. w \<le> WORKER_THREAD_NEUTRAL) all_workers"

definition databases :: "worker_thread list" where
  "databases = [WORKER_THREAD_DB, WORKER_THREAD_DB1, WORKER_THREAD_DB2, WORKER_THREAD_DB3, WORKER_THREAD_DB4, WORKER_THREAD_DB5,
     WORKER_THREAD_DB6, WORKER_THREAD_DB7, WORKER_THREAD_DB8, WORKER_THREAD_DB_LOG, WORKER_THREAD_DB_LOG1]"

text \<open>The argument of the database worker is 1 for the two that write the log.\<close>

definition db_kind :: "worker_thread \<Rightarrow> worker_kind" where
  "db_kind w = DBWorker (if w = WORKER_THREAD_DB_LOG \<or> w = WORKER_THREAD_DB_LOG1 then 1 else 0)"

section \<open>The state service\<close>

definition tell_state :: "server_cfg \<Rightarrow> bool \<Rightarrow> string \<Rightarrow> int \<Rightarrow> server_step list" where
  "tell_state cfg curl action num = (if \<not> curl \<or> num = 0 then []
     else [StateTold (take 4095 (cf_state_url cfg @ ''&state='' @ action @ ''&server=s'' @ dec_int num))])"

definition tell_up :: "server_cfg \<Rightarrow> bool \<Rightarrow> server_step list" where
  "tell_up cfg curl = tell_state cfg curl ''open'' (cf_server_num cfg) @
     (if cf_merge_list cfg = [] then []
      else concat (map (\<lambda>t. tell_state cfg curl ''open'' (atoi t)) (tokenize '' '' False False (cf_merge_list cfg))))"

definition tell_down :: "server_cfg \<Rightarrow> bool \<Rightarrow> server_step list" where
  "tell_down cfg curl = tell_state cfg curl ''close'' (cf_server_num cfg)"

text \<open>One call of curl's with \<open>data\<close>: the bytes are copied to the start of the buffer, and the number of them is returned.\<close>

definition recvret :: "u8 list \<Rightarrow> u8 list \<Rightarrow> nat \<times> u8 list" where
  "recvret data buf = (let n = (if length data > 1024 then 1024 else length data) in (n, take n data @ drop n buf))"

text \<open>\<^verbatim>\<open>curl_easy_perform\<close>: curl breaks off with an error when a call has returned less than it was given.\<close>

fun receive_all :: "u8 list list \<Rightarrow> u8 list \<Rightarrow> u8 list option" where
  "receive_all [] buf = Some buf"
| "receive_all (d # ds) buf = (case recvret d buf of (n, buf') \<Rightarrow> if n < length d then None else receive_all ds buf')"

definition lower :: "u8 \<Rightarrow> u8" where
  "lower b = (if 65 \<le> b \<and> b \<le> 90 then b + 32 else b)"

fun strcasestr :: "u8 list \<Rightarrow> u8 list \<Rightarrow> u8 list option" where
  "strcasestr [] pat = (if pat = [] then Some [] else None)"
| "strcasestr (b # bs) pat = (if map lower (take (length pat) (b # bs)) = map lower pat then Some (b # bs) else strcasestr bs pat)"

definition msg_word :: "u8 list" where "msg_word = [109, 115, 103]"
definition ok_word :: "u8 list" where "ok_word = [111, 107]"

text \<open>The C string in the buffer ends at its first 0; without one the search reads behind the buffer, \<open>None\<close>.\<close>

definition do_http_request :: "u8 list list option \<Rightarrow> bool option" where
  "do_http_request parts =
     (case Option.bind parts (\<lambda>ds. receive_all ds (replicate 1024 0)) of
        None \<Rightarrow> Some False
      | Some buf \<Rightarrow>
          if 0 \<notin> set buf then None
          else let text = takeWhile (\<lambda>b. b \<noteq> 0) buf
               in Some (case strcasestr text msg_word of None \<Rightarrow> False | Some m \<Rightarrow> strcasestr m ok_word \<noteq> None))"

section \<open>Start and end\<close>

text \<open>The configuration file is set by every argument behind the first \<^verbatim>\<open>--config\<close>, since \<open>status\<close> stays 1.\<close>

fun parse_command :: "bool \<Rightarrow> string list \<Rightarrow> string \<Rightarrow> string" where
  "parse_command status [] fn = fn"
| "parse_command status (a # as) fn =
     (if status then parse_command True as a else parse_command (a = ''--config'') as fn)"

text \<open>\<^verbatim>\<open>strstr(serverName, "_s")\<close>: what is before it, and what is behind it.\<close>

fun split_name :: "string \<Rightarrow> (string \<times> string) option" where
  "split_name (a # b # cs) = (if a = CHR ''_'' \<and> b = CHR ''s'' then Some ([], cs)
     else map_option (\<lambda>(x, y). (a # x, y)) (split_name (b # cs)))"
| "split_name cs = None"

definition name_arg :: "string option \<Rightarrow> server_cfg \<Rightarrow> server_cfg" where
  "name_arg name cfg =
     (case Option.bind name split_name of None \<Rightarrow> cfg
      | Some (c, n) \<Rightarrow> cfg\<lparr>cf_channel_name := c, cf_server_num := atoi n, cf_slug_name := c\<rparr>)"

text \<open>\<open>load\<close> is \<^verbatim>\<open>Cfg::load\<close>, whose body is not in the repository, and \<open>rnd\<close> what \<^verbatim>\<open>rand()\<close> returns.\<close>

definition init_cfg :: "(server_cfg \<Rightarrow> server_cfg) \<Rightarrow> int \<Rightarrow> string option \<Rightarrow> int \<Rightarrow> server_cfg \<Rightarrow> server_cfg" where
  "init_cfg load rnd name num cfg =
     (let cfg1 = load (name_arg name cfg);
          cfg2 = (if num = 0 then cfg1\<lparr>cf_server_num := uint (cf_tcp_port cfg1) + rnd mod 1000\<rparr> else cfg1\<lparr>cf_server_num := num\<rparr>)
      in cfg2\<lparr>cf_server_log_id := of_int (cf_server_num cfg2)\<rparr>)"

text \<open>The number \<^verbatim>\<open>main\<close> reads from the name of the program, and the script and the server's name from the arguments.\<close>

definition program_num :: "string \<Rightarrow> int" where
  "program_num arg0 = (case dropWhile (\<lambda>c. c \<noteq> CHR ''.'') arg0 of [] \<Rightarrow> 0 | _ # s \<Rightarrow> atoi s)"

definition main_args :: "string list \<Rightarrow> string option \<times> string option" where
  "main_args as = (case as of [] \<Rightarrow> (None, None) | [n] \<Rightarrow> (None, Some n) | s # n # _ \<Rightarrow> (Some s, Some n))"

definition server_init :: "server_step list" where
  "server_init =
     [SystemsLoaded, PoolMade ''data'', PoolMade ''object'', PoolMade ''log'', PoolMade ''lock'', MakeWorker WORKER_THREAD_WORLD WorldWorker] @
     map (\<lambda>w. MakeWorker w CountryWorker) countries @
     [MakeWorker WORKER_THREAD_LOGIN LoginWorker, MakeWorker WORKER_THREAD_LOAD LoadWorker] @
     map (\<lambda>w. MakeWorker w (db_kind w)) databases @ map (\<lambda>w. OnWorker w ThreadRun) databases @
     [DataLoaded, OnWorker WORKER_THREAD_LOAD ThreadRun]"

text \<open>\<^verbatim>\<open>tryJoin\<close> is called until it succeeds; between two calls \<^verbatim>\<open>updateState\<close> does nothing in this build.\<close>

definition server_run :: "server_cfg \<Rightarrow> bool \<Rightarrow> server_step list" where
  "server_run cfg curl =
     [OnWorker WORKER_THREAD_WORLD ThreadRun] @ map (\<lambda>w. OnWorker w ThreadRun) countries @
     [OnWorker WORKER_THREAD_LOGIN ThreadRun, TcpMade (cf_tcp_port cfg), TcpStarted] @ tell_up cfg curl @
     map (\<lambda>w. OnWorker w ThreadJoined) all_workers @ [TcpJoined]"

definition server_shutdown :: "server_cfg \<Rightarrow> bool \<Rightarrow> server_step list" where
  "server_shutdown cfg curl =
     tell_down cfg curl @ [TcpStopped, Slept 2000] @
     map (\<lambda>w. OnWorker w ThreadShutdown) (filter (\<lambda>w. w < WORKER_THREAD_DB) all_workers) @ [Slept 2000, Slept 2000] @
     map (\<lambda>w. OnWorker w ThreadShutdown) databases @ [OnWorker WORKER_THREAD_LOAD ThreadShutdown]"

definition server_uninit :: "server_cfg \<Rightarrow> bool \<Rightarrow> server_step list" where
  "server_uninit cfg curl = tell_down cfg curl @ [PoolDeleted ''object'', PoolDeleted ''data'', PoolDeleted ''log'', NetworkClosed]"


text \<open>\<^verbatim>\<open>main\<close> after it has read its arguments.\<close>

definition server_main :: "server_cfg \<Rightarrow> bool \<Rightarrow> server_step list" where
  "server_main cfg curl = server_init @ server_run cfg curl @ server_uninit cfg curl"

section \<open>Lemmas\<close>

fun join :: "char \<Rightarrow> string list \<Rightarrow> string" where
  "join c [] = []"
| "join c [t] = t"
| "join c (t # ts) = t @ c # join c ts"

lemma tokenize_unfold:
  "cs \<noteq> [] \<Longrightarrow> tokenize [c] False False cs = takeWhile (\<lambda>d. d \<noteq> c) cs # tokenize [c] False False (tl (dropWhile (\<lambda>d. d \<noteq> c) cs))"
  by (cases cs) (simp_all add: Let_def)

lemma takeWhile_none: "c \<notin> set t \<Longrightarrow> takeWhile (\<lambda>d. d \<noteq> c) t = t" "c \<notin> set t \<Longrightarrow> dropWhile (\<lambda>d. d \<noteq> c) t = []"
  by (auto simp: takeWhile_eq_all_conv dropWhile_eq_Nil_conv)

lemma takeWhile_until:
  "c \<notin> set t \<Longrightarrow> takeWhile (\<lambda>d. d \<noteq> c) (t @ c # cs) = t" "c \<notin> set t \<Longrightarrow> dropWhile (\<lambda>d. d \<noteq> c) (t @ c # cs) = c # cs"
  by (induction t) auto

lemma tokenize_join_aux:
  "\<lbrakk>\<forall>t \<in> set ts. c \<notin> set t; ts \<noteq> []; last ts \<noteq> []\<rbrakk> \<Longrightarrow> tokenize [c] False False (join c ts) = ts"
proof (induction ts rule: join.induct)
  case (2 c t)
  then show ?case using tokenize_unfold [of t c] by (simp add: takeWhile_none)
next
  case (3 c t u us)
  then show ?case using tokenize_unfold [of "t @ c # join c (u # us)" c] by (simp add: takeWhile_until)
qed simp

lemma digit_char: "d < 10 \<Longrightarrow> of_char (char_of (48 + d :: nat)) = 48 + d"
  by simp

lemma digit_is_digit: "d < 10 \<Longrightarrow> is_digit (char_of (48 + d :: nat))"
  by (simp add: is_digit_def)

declare dec.simps [simp del]

lemma dec_digits: "\<forall>c \<in> set (dec n). is_digit c"
proof (induction n rule: dec.induct)
  case (1 n)
  then show ?case using digit_is_digit [of "n mod 10"] by (cases "n < 10") (simp_all add: dec.simps [of n])
qed

lemma dec_not_empty: "dec n \<noteq> []"
  by (simp add: dec.simps [of n])

lemma digits_snoc: "\<forall>c \<in> set (cs @ [d]). is_digit c \<Longrightarrow> digits (cs @ [d]) = digits cs * 10 + (int (of_char d) - 48)"
proof -
  assume "\<forall>c \<in> set (cs @ [d]). is_digit c"
  then have h: "takeWhile is_digit (cs @ [d]) = cs @ [d]" "takeWhile is_digit cs = cs" by (simp_all add: takeWhile_eq_all_conv)
  show ?thesis unfolding digits_def h by simp
qed

lemma digits_dec: "digits (dec n) = int n"
proof (induction n rule: dec.induct)
  case (1 n)
  let ?d = "char_of (48 + n mod 10) :: char"
  have d: "is_digit ?d" "int (of_char ?d) = 48 + int (n mod 10)" using digit_is_digit [of "n mod 10"] by simp_all
  show ?case
  proof (cases "n < 10")
    case True
    then show ?thesis using d by (simp add: dec.simps [of n] digits_def)
  next
    case False
    have "digits (dec (n div 10) @ [?d]) = digits (dec (n div 10)) * 10 + (int (of_char ?d) - 48)"
      using d(1) dec_digits [of "n div 10"] by (intro digits_snoc) auto
    also have "\<dots> = int (n div 10) * 10 + int (n mod 10)" unfolding 1 [OF False] d(2) by simp
    also have "\<dots> = int n" by (metis div_mult_mod_eq of_nat_add of_nat_mult of_nat_numeral)
    finally show ?thesis using False by (simp add: dec.simps [of n])
  qed
qed

lemma digit_facts: "is_digit c \<Longrightarrow> \<not> is_space c \<and> c \<noteq> CHR ''-'' \<and> c \<noteq> CHR ''+''"
  by (auto simp: is_digit_def is_space_def)

lemma atoi_dec: "atoi (dec n) = int n"
proof (cases "dec n")
  case Nil
  then show ?thesis using dec_not_empty by blast
next
  case (Cons c cs)
  then have "is_digit c" using dec_digits [of n] by simp
  from digit_facts [OF this] show ?thesis using digits_dec [of n] by (simp add: atoi_def Cons)
qed

lemma split_name_found: "split_name c = None \<Longrightarrow> split_name (c @ CHR ''_'' # CHR ''s'' # r) = Some (c, r)"
  by (induction c rule: split_name.induct) (auto split: if_splits)

lemma exec_append: "exec (xs @ ys) s = (case exec xs s of (s1, ok) \<Rightarrow> if ok then exec ys s1 else (s1, False))"
  by (induction xs arbitrary: s) auto

definition quiet :: "server_step \<Rightarrow> bool" where
  "quiet st = (case st of MakeWorker w k \<Rightarrow> False | TcpMade p \<Rightarrow> False | _ \<Rightarrow> True)"

lemma take_quiet: "quiet st \<Longrightarrow> take_step st s = s\<lparr>sr_steps := sr_steps s @ [st]\<rparr>"
  by (cases st) (simp_all add: quiet_def take_step_def)

lemma step_ok_same: "\<lbrakk>sr_workers s' = sr_workers s; sr_tcp s' = sr_tcp s\<rbrakk> \<Longrightarrow> step_ok st s' = step_ok st s"
  by (cases st) (simp_all add: step_ok_def)

lemma exec_quiet:
  "\<forall>st \<in> set sts. quiet st \<Longrightarrow>
    exec sts s = (s\<lparr>sr_steps := sr_steps s @ takeWhile (\<lambda>st. step_ok st s) sts\<rparr>, \<forall>st \<in> set sts. step_ok st s)"
proof (induction sts arbitrary: s)
  case (Cons st sts)
  let ?s = "s\<lparr>sr_steps := sr_steps s @ [st]\<rparr>"
  have *: "step_ok st' ?s = step_ok st' s" for st' by (rule step_ok_same) simp_all
  have "exec sts ?s = (?s\<lparr>sr_steps := sr_steps ?s @ takeWhile (\<lambda>st. step_ok st s) sts\<rparr>, \<forall>st \<in> set sts. step_ok st s)"
    using Cons.IH [of ?s] Cons.prems unfolding * by simp
  moreover have "take_step st s = ?s" using Cons.prems by (intro take_quiet) simp
  ultimately show ?case by (cases "step_ok st s") simp_all
qed simp

lemma exec_make:
  "exec (map (\<lambda>w. MakeWorker w (f w)) ws) s =
    (s\<lparr>sr_workers := (\<lambda>w. if w \<in> set ws then Some (f w) else sr_workers s w),
       sr_steps := sr_steps s @ map (\<lambda>w. MakeWorker w (f w)) ws\<rparr>, True)"
proof (induction ws arbitrary: s)
  case (Cons w ws)
  let ?s = "take_step (MakeWorker w (f w)) s"
  have s: "sr_workers ?s = (sr_workers s)(w := Some (f w))" "sr_steps ?s = sr_steps s @ [MakeWorker w (f w)]" "sr_tcp ?s = sr_tcp s"
    by (simp_all add: take_step_def)
  have "step_ok (MakeWorker w (f w)) s" by (simp add: step_ok_def)
  then show ?case unfolding list.map exec.simps using Cons.IH [of ?s] s by (auto intro!: world_server.equality simp: fun_eq_iff)
qed (simp add: fun_eq_iff)


definition is_down :: "server_step \<Rightarrow> bool" where
  "is_down st = (case st of OnWorker w ThreadShutdown \<Rightarrow> True | _ \<Rightarrow> False)"

lemma quiet_on [simp]: "quiet (OnWorker w a)" "quiet (StateTold u)" "quiet TcpStarted" "quiet TcpStopped" "quiet TcpJoined" "quiet (Slept t)"
    "quiet (PoolMade p)" "quiet (PoolDeleted p)" "quiet SystemsLoaded" "quiet DataLoaded" "quiet NetworkClosed" "\<not> quiet (MakeWorker w k)"
    "\<not> quiet (TcpMade q)"
  by (simp_all add: quiet_def)

lemma ok_on [simp]: "step_ok (OnWorker w a) s = (sr_workers s w \<noteq> None)" "step_ok (StateTold u) s" "step_ok TcpStarted s = sr_tcp s"
    "step_ok TcpStopped s = sr_tcp s" "step_ok TcpJoined s = sr_tcp s" "step_ok (Slept t) s" "step_ok (PoolMade p) s"
    "step_ok (PoolDeleted p) s" "step_ok SystemsLoaded s" "step_ok DataLoaded s" "step_ok NetworkClosed s" "step_ok (MakeWorker w k) s"
    "step_ok (TcpMade q) s"
  by (simp_all add: step_ok_def)

lemma tell_state_told: "st \<in> set (tell_state cfg curl a n) \<Longrightarrow> \<exists>u. st = StateTold u"
  by (auto simp: tell_state_def split: if_splits)

lemma tell_up_told: "st \<in> set (tell_up cfg curl) \<Longrightarrow> \<exists>u. st = StateTold u"
  by (auto simp: tell_up_def split: if_splits dest: tell_state_told)

lemma tell_down_told: "st \<in> set (tell_down cfg curl) \<Longrightarrow> \<exists>u. st = StateTold u"
  by (auto simp: tell_down_def dest: tell_state_told)

lemma worker_order:
  "countries = [WORKER_THREAD_COUNTRY_1, WORKER_THREAD_COUNTRY_2, WORKER_THREAD_NEUTRAL]"
  "filter (\<lambda>w. w < WORKER_THREAD_DB) all_workers = [WORKER_THREAD_COUNTRY_1, WORKER_THREAD_COUNTRY_2, WORKER_THREAD_NEUTRAL,
     WORKER_THREAD_WORLD, WORKER_THREAD_LOGIN, WORKER_THREAD_SORT]"
  by (simp_all add: countries_def all_workers_def less_eq_worker_thread_def less_worker_thread_def)

lemma exec_all_ok:
  "\<lbrakk>\<forall>st \<in> set sts. quiet st; \<forall>st \<in> set sts. step_ok st s\<rbrakk> \<Longrightarrow> exec sts s = (s\<lparr>sr_steps := sr_steps s @ sts\<rparr>, True)"
  using exec_quiet [of sts s] takeWhile_eq_all_conv [of "\<lambda>st. step_ok st s" sts] by simp

text \<open>The server after \<^verbatim>\<open>Init\<close>: every thread but the sort thread has been made.\<close>

lemma init_done:
  "exec server_init new_server = (s, ok) \<Longrightarrow>
    ok \<and> (\<forall>w. sr_workers s w = None \<longleftrightarrow> w = WORKER_THREAD_SORT) \<and> \<not> sr_tcp s \<and> sr_steps s = server_init"
proof -
  assume e: "exec server_init new_server = (s, ok)"
  define kind where "kind w = (if w = WORKER_THREAD_WORLD then WorldWorker else if w = WORKER_THREAD_LOGIN then LoginWorker
    else if w = WORKER_THREAD_LOAD then LoadWorker else if w \<in> set countries then CountryWorker else db_kind w)" for w
  define ws where "ws = WORKER_THREAD_WORLD # countries @ [WORKER_THREAD_LOGIN, WORKER_THREAD_LOAD] @ databases"
  define pre where "pre = [SystemsLoaded, PoolMade ''data'', PoolMade ''object'', PoolMade ''log'', PoolMade ''lock'']"
  define post where "post = map (\<lambda>w. OnWorker w ThreadRun) databases @ [DataLoaded, OnWorker WORKER_THREAD_LOAD ThreadRun]"
  have init: "server_init = pre @ map (\<lambda>w. MakeWorker w (kind w)) ws @ post"
    by (simp add: server_init_def pre_def post_def ws_def kind_def worker_order databases_def)
  have ws: "(w \<in> set ws) = (w \<noteq> WORKER_THREAD_SORT)" for w by (cases w) (simp_all add: ws_def worker_order databases_def)
  have pre: "exec pre new_server = (new_server\<lparr>sr_steps := pre\<rparr>, True)"
    by (subst exec_quiet) (simp_all add: pre_def new_server_def)
  let ?s = "new_server\<lparr>sr_workers := (\<lambda>w. if w \<in> set ws then Some (kind w) else None), sr_steps := pre @ map (\<lambda>w. MakeWorker w (kind w)) ws\<rparr>"
  have nw: "sr_workers new_server w = None" for w by (simp add: new_server_def)
  have post_quiet: "\<forall>st \<in> set post. quiet st" by (auto simp: post_def)
  have post_ok: "\<forall>st \<in> set post. step_ok st ?s" by (auto simp: post_def ws databases_def)
  have post: "exec post ?s = (?s\<lparr>sr_steps := server_init\<rparr>, True)" using exec_all_ok [OF post_quiet post_ok] by (simp add: init)
  have made: "exec (map (\<lambda>w. MakeWorker w (kind w)) ws) (new_server\<lparr>sr_steps := pre\<rparr>) = (?s, True)"
    unfolding exec_make by (simp add: nw cong: if_cong)
  have "exec server_init new_server = exec post ?s" unfolding init exec_append pre by (simp add: made)
  then have "exec server_init new_server = (?s\<lparr>sr_steps := server_init\<rparr>, True)" using post by simp
  then have "s = ?s\<lparr>sr_steps := server_init\<rparr>" "ok" using e by simp_all
  then show ?thesis using ws by (simp add: new_server_def)
qed


definition run_before :: "server_step list" where
  "run_before = map (\<lambda>w. OnWorker w ThreadRun) (WORKER_THREAD_WORLD # countries @ [WORKER_THREAD_LOGIN])"

definition run_behind :: "server_cfg \<Rightarrow> bool \<Rightarrow> server_step list" where
  "run_behind cfg curl = TcpStarted # tell_up cfg curl @ map (\<lambda>w. OnWorker w ThreadJoined) all_workers @ [TcpJoined]"

lemma server_run_parts: "server_run cfg curl = run_before @ TcpMade (cf_tcp_port cfg) # run_behind cfg curl"
  by (simp add: server_run_def run_before_def run_behind_def)

lemma run_quiet: "\<forall>st \<in> set run_before. quiet st" "\<forall>st \<in> set (run_behind cfg curl). quiet st"
  by (auto simp: run_before_def run_behind_def dest!: tell_up_told)

lemma run_no_down: "filter is_down run_before = []" "filter is_down (run_behind cfg curl) = []"
  by (auto simp: run_before_def run_behind_def is_down_def filter_empty_conv dest!: tell_up_told)

lemma exec_run_before:
  "(\<And>w. w \<noteq> WORKER_THREAD_SORT \<Longrightarrow> sr_workers s w \<noteq> None) \<Longrightarrow> exec run_before s = (s\<lparr>sr_steps := sr_steps s @ run_before\<rparr>, True)"
  by (intro exec_all_ok run_quiet(1)) (auto simp: run_before_def worker_order)

lemma exec_same: "\<forall>st \<in> set sts. quiet st \<Longrightarrow> exec sts s = (s', ok) \<Longrightarrow>
    sr_workers s' = sr_workers s \<and> sr_tcp s' = sr_tcp s \<and> sr_steps s' = sr_steps s @ takeWhile (\<lambda>st. step_ok st s) sts"
  using exec_quiet [of sts s] by auto

lemma take_all_quiet: "\<forall>st \<in> set sts. quiet st \<Longrightarrow> \<forall>st \<in> set (take k sts). quiet st"
  by (meson in_set_takeD)

lemma no_down_prefix: "filter is_down sts = [] \<Longrightarrow> filter is_down (takeWhile P (take k sts)) = []"
  by (auto simp: filter_empty_conv dest!: set_takeWhileD in_set_takeD)

text \<open>The server at any moment of \<^verbatim>\<open>Run\<close>.\<close>

lemma while_running:
  assumes "exec (server_init @ take k (server_run cfg curl)) new_server = (s, ok)"
  shows "(sr_workers s w = None \<longleftrightarrow> w = WORKER_THREAD_SORT) \<and> (sr_tcp s \<longleftrightarrow> 5 < k) \<and> filter is_down (sr_steps s) = []"
proof -
  obtain s0 ok0 where i: "exec server_init new_server = (s0, ok0)" by (cases "exec server_init new_server")
  note d = init_done [OF i]
  have n0: "filter is_down (sr_steps s0) = []"
    using d by (simp add: server_init_def is_down_def worker_order databases_def)
  have r: "exec (take k (server_run cfg curl)) s0 = (s, ok)" using assms d i by (simp add: exec_append)
  have len: "length run_before = 5" by (simp add: run_before_def worker_order)
  show ?thesis
  proof (cases "k \<le> 5")
    case True
    then have "exec (take k run_before) s0 = (s, ok)" using r len by (simp add: server_run_parts)
    from exec_same [OF take_all_quiet [OF run_quiet(1)] this] show ?thesis
      using d n0 True no_down_prefix [OF run_no_down(1)] by auto
  next
    case False
    then obtain m where m: "k = 6 + m" using le_Suc_ex [of 6 k] by auto
    let ?s1 = "s0\<lparr>sr_steps := sr_steps s0 @ run_before\<rparr>"
    let ?s2 = "take_step (TcpMade (cf_tcp_port cfg)) ?s1"
    have t: "take k (server_run cfg curl) = run_before @ TcpMade (cf_tcp_port cfg) # take m (run_behind cfg curl)"
      by (simp add: server_run_parts m len)
    have "exec run_before s0 = (?s1, True)" using d by (intro exec_run_before) simp_all
    then have "exec (take m (run_behind cfg curl)) ?s2 = (s, ok)" using r by (simp add: t exec_append)
    from exec_same [OF take_all_quiet [OF run_quiet(2)] this] show ?thesis
      using d n0 m run_no_down no_down_prefix [OF run_no_down(2)] by (auto simp: take_step_def is_down_def)
  qed
qed

section \<open>Properties\<close>

text \<open>C25: \<^verbatim>\<open>Shutdown\<close>, whenever \<^verbatim>\<open>sigbreak\<close> calls it during \<^verbatim>\<open>Run\<close>, ends with a null pointer: before the network has been made it
  stops no thread at all, and afterwards it stops the five threads of the game, follows the pointer of the sort thread,
  which \<^verbatim>\<open>Init\<close> does not make, and never tells the threads of the databases to end.\<close>

theorem shutdown_stops_at_sort:
  "case exec (server_shutdown cfg' curl) (fst (exec (server_init @ take k (server_run cfg curl)) new_server)) of (s, ok) \<Rightarrow>
     \<not> ok \<and> filter is_down (sr_steps s) = (if 5 < k then map (\<lambda>w. OnWorker w ThreadShutdown)
       [WORKER_THREAD_COUNTRY_1, WORKER_THREAD_COUNTRY_2, WORKER_THREAD_NEUTRAL, WORKER_THREAD_WORLD, WORKER_THREAD_LOGIN] else [])"
proof -
  obtain s ok where s: "exec (server_init @ take k (server_run cfg curl)) new_server = (s, ok)"
    by (cases "exec (server_init @ take k (server_run cfg curl)) new_server")
  note r = while_running [OF s]
  have q: "\<forall>st \<in> set (server_shutdown cfg' curl). quiet st" by (auto simp: server_shutdown_def dest!: tell_down_told)
  have down_ok: "\<forall>st \<in> set (tell_down cfg' curl). step_ok st s" by (auto dest!: tell_down_told)
  have no_down: "filter is_down (tell_down cfg' curl) = []" by (auto simp: filter_empty_conv is_down_def dest!: tell_down_told)
  have t: "takeWhile (\<lambda>st. step_ok st s) (server_shutdown cfg' curl) = tell_down cfg' curl @
      takeWhile (\<lambda>st. step_ok st s) (drop (length (tell_down cfg' curl)) (server_shutdown cfg' curl))"
    using down_ok by (subst (2) append_take_drop_id [symmetric, of _ "length (tell_down cfg' curl)"]) (simp add: server_shutdown_def takeWhile_append2)
  show ?thesis
    using r exec_quiet [OF q, of s] no_down unfolding s
    by (simp add: t) (simp add: server_shutdown_def worker_order is_down_def)
qed


text \<open>\<^verbatim>\<open>main\<close> never comes to \<^verbatim>\<open>UnInit\<close>: \<^verbatim>\<open>Run\<close> starts every thread that has been made, tells the service that it is open, and
  joins the first five threads; the sixth is the sort thread.\<close>

theorem run_waits_for_sort:
  "case exec (server_main cfg curl) new_server of (s, ok) \<Rightarrow>
     \<not> ok \<and> sr_steps s = server_init @ run_before @ [TcpMade (cf_tcp_port cfg), TcpStarted] @ tell_up cfg curl @
       map (\<lambda>w. OnWorker w ThreadJoined)
         [WORKER_THREAD_COUNTRY_1, WORKER_THREAD_COUNTRY_2, WORKER_THREAD_NEUTRAL, WORKER_THREAD_WORLD, WORKER_THREAD_LOGIN]"
proof -
  obtain s0 ok0 where i: "exec server_init new_server = (s0, ok0)" by (cases "exec server_init new_server")
  note d = init_done [OF i]
  define s1 where "s1 = take_step (TcpMade (cf_tcp_port cfg)) (s0\<lparr>sr_steps := sr_steps s0 @ run_before\<rparr>)"
  let ?rest = "run_behind cfg curl @ server_uninit cfg curl"
  have s1: "sr_workers s1 w = None \<longleftrightarrow> w = WORKER_THREAD_SORT" "sr_tcp s1"
      "sr_steps s1 = server_init @ run_before @ [TcpMade (cf_tcp_port cfg)]" for w
    using d by (simp_all add: s1_def take_step_def)
  have m: "exec (server_main cfg curl) new_server = exec ?rest s1"
    using d i exec_run_before [of s0] by (simp add: server_main_def server_run_parts exec_append s1_def)
  have q: "\<forall>st \<in> set ?rest. quiet st" using run_quiet(2) by (auto simp: server_uninit_def dest!: tell_down_told)
  have u: "\<forall>st \<in> set (tell_up cfg curl). step_ok st s1" by (auto dest!: tell_up_told)
  have t: "takeWhile (\<lambda>st. step_ok st s1) ?rest = TcpStarted # tell_up cfg curl @ map (\<lambda>w. OnWorker w ThreadJoined)
      [WORKER_THREAD_COUNTRY_1, WORKER_THREAD_COUNTRY_2, WORKER_THREAD_NEUTRAL, WORKER_THREAD_WORLD, WORKER_THREAD_LOGIN]"
    using u s1 by (simp add: run_behind_def takeWhile_append2 all_workers_def)
  have "OnWorker WORKER_THREAD_SORT ThreadJoined \<in> set ?rest" "\<not> step_ok (OnWorker WORKER_THREAD_SORT ThreadJoined) s1"
    using s1 by (simp_all add: run_behind_def all_workers_def)
  then have "\<not> (\<forall>st \<in> set ?rest. step_ok st s1)" by blast
  then show ?thesis unfolding m exec_quiet [OF q] t using s1 by simp
qed

text \<open>Were all threads made, \<^verbatim>\<open>Shutdown\<close> would tell each of them once, in the order of their numbers: the databases after the
  threads that write to them.\<close>

theorem shutdown_tells_in_order:
  assumes "\<And>w. sr_workers s w \<noteq> None" "sr_tcp s" "filter is_down (sr_steps s) = []"
  shows "case exec (server_shutdown cfg curl) s of (s', ok) \<Rightarrow>
     ok \<and> filter is_down (sr_steps s') = map (\<lambda>w. OnWorker w ThreadShutdown) all_workers \<and>
     sorted_wrt (<) all_workers \<and> set all_workers = UNIV"
proof -
  have q: "\<forall>st \<in> set (server_shutdown cfg curl). quiet st" by (auto simp: server_shutdown_def dest!: tell_down_told)
  have ok: "\<forall>st \<in> set (server_shutdown cfg curl). step_ok st s"
    using assms by (auto simp: server_shutdown_def dest!: tell_down_told)
  have no_down: "filter is_down (tell_down cfg curl) = []" by (auto simp: filter_empty_conv is_down_def dest!: tell_down_told)
  have u: "w \<in> set all_workers" for w by (cases w) (simp_all add: all_workers_def)
  have "exec (server_shutdown cfg curl) s = (s\<lparr>sr_steps := sr_steps s @ server_shutdown cfg curl\<rparr>, True)"
    using q ok by (rule exec_all_ok)
  moreover have "filter is_down (server_shutdown cfg curl) = map (\<lambda>w. OnWorker w ThreadShutdown) all_workers"
    by (simp add: server_shutdown_def worker_order no_down is_down_def databases_def) (simp add: all_workers_def)
  moreover have "sorted_wrt (<) all_workers" by (simp add: all_workers_def less_worker_thread_def)
  ultimately show ?thesis using assms u by auto
qed

text \<open>Splitting at a separator undoes joining with it, empty tokens included, unless the last token is empty.\<close>

theorem tokens_round_trip:
  "\<lbrakk>\<forall>t \<in> set ts. c \<notin> set t; ts \<noteq> [] \<Longrightarrow> last ts \<noteq> []\<rbrakk> \<Longrightarrow> tokenize [c] False False (join c ts) = ts"
  using tokenize_join_aux [of ts c] by (cases ts) auto

theorem tokens_round_trip_witness:
  "tokenize '','' False False (join (CHR '','') [''12'', [], ''3'']) = [''12'', [], ''3'']"
  using tokens_round_trip [of "[''12'', [], ''3'']" "CHR '',''"] by simp

text \<open>The number of the server is read from the name of the program, as in \<^verbatim>\<open>server.12\<close>; started as \<^verbatim>\<open>./server.12\<close> the first dot
  is that of the path, and the number is 0, so \<^verbatim>\<open>Init\<close> draws one.\<close>

theorem number_round_trip:
  "CHR ''.'' \<notin> set prog \<Longrightarrow> program_num (prog @ CHR ''.'' # dec n) = int n \<and> program_num (''./'' @ prog @ CHR ''.'' # dec n) = 0"
  by (simp add: program_num_def takeWhile_until atoi_dec) (simp add: atoi_def digits_def is_space_def is_digit_def)

text \<open>Every part of an answer is written to the start of the buffer, so a part that is as long as the one before it hides it.\<close>

theorem later_chunk_overwrites:
  "\<lbrakk>length a \<le> length b; length b \<le> 1024\<rbrakk> \<Longrightarrow> do_http_request (Some [a, b]) = do_http_request (Some [b])"
  by (simp add: do_http_request_def recvret_def Let_def)

text \<open>An answer of 1024 bytes leaves no place for the 0 that the search needs.\<close>

theorem full_answer_unterminated:
  "\<lbrakk>length a = 1024; 0 \<notin> set a\<rbrakk> \<Longrightarrow> do_http_request (Some [a]) = None"
  by (simp add: do_http_request_def recvret_def Let_def)

end
