(* ===== verification/Inflate.thy ===== *)
theory Inflate
  imports Prelude
begin

unbundle bit_operations_syntax

text \<open>
  The inflater \<^verbatim>\<open>Common/TInf.cpp\<close>: Huffman trees from code lengths, the decoding of symbols, the three kinds of blocks,
  \<^verbatim>\<open>tinf_uncompress\<close> and the zlib wrapper with its checksum.

  \<open>in_src\<close> are the bytes from \<^verbatim>\<open>source\<close> to the end of the caller's buffer, \<open>in_out\<close> those written to \<^verbatim>\<open>dest\<close>, which has
  room for \<open>in_cap\<close>.  The code takes neither of these lengths into account, so a read or write outside is possible; it is
  \<open>None\<close>, like the read of a table outside its bounds or of an entry of \<^verbatim>\<open>trans\<close> that has not been written (\<open>None\<close>
  within \<open>tr_trans\<close>).  Counters and table entries that cannot reach the end of their type are natural numbers.
\<close>

section \<open>Data\<close>

record huff_tree =
  tr_table :: "nat list"
  tr_trans :: "nat option list"

record inflater =
  in_src :: "u8 list"
  in_tag :: u32
  in_count :: u32
  in_out :: "u8 list"
  in_cap :: nat
  in_len :: u32
  in_ltree :: huff_tree
  in_dtree :: huff_tree

record tinf_globals =
  tg_sltree :: huff_tree
  tg_sdtree :: huff_tree
  tg_length_bits :: "nat list"
  tg_length_base :: "nat list"
  tg_dist_bits :: "nat list"
  tg_dist_base :: "nat list"

datatype tinf_result = TINF_OK | TINF_DATA_ERROR

definition no_tree :: huff_tree where
  "no_tree = \<lparr>tr_table = replicate 16 0, tr_trans = replicate 288 None\<rparr>"

definition clcidx :: "nat list" where
  "clcidx = [16, 17, 18, 0, 8, 7, 9, 6, 10, 5, 11, 4, 12, 3, 13, 2, 14, 1, 15]"

section \<open>Tables and trees\<close>

fun bases :: "nat \<Rightarrow> nat list \<Rightarrow> nat list" where
  "bases sm [] = []"
| "bases sm (b # bs) = sm # bases (sm + 2 ^ b) bs"

definition build_bits_base :: "nat \<Rightarrow> nat \<Rightarrow> nat list \<times> nat list" where
  "build_bits_base delta first =
     (let bits = replicate delta 0 @ map (\<lambda>i. i div delta) [0..<30 - delta] in (bits, bases first bits))"

definition fixed_ltree :: huff_tree where
  "fixed_ltree = \<lparr>tr_table = replicate 7 0 @ [24, 152, 112] @ replicate 6 0,
     tr_trans = map (\<lambda>i. Some (256 + i)) [0..<24] @ map Some [0..<144] @ map (\<lambda>i. Some (280 + i)) [0..<8] @ map (\<lambda>i. Some (144 + i)) [0..<112]\<rparr>"

definition fixed_dtree :: huff_tree where
  "fixed_dtree = \<lparr>tr_table = replicate 5 0 @ [32] @ replicate 10 0, tr_trans = map Some [0..<32] @ replicate 256 (Some 0)\<rparr>"

text \<open>\<^verbatim>\<open>t->table[lengths[i]]++\<close>.\<close>

definition count_lengths :: "nat list \<Rightarrow> nat list option" where
  "count_lengths ls = foldm (\<lambda>t l. do { c \<leftarrow> nth_opt t l; upd_opt t l (c + 1) }) (replicate 16 0) ls"

fun offs_from :: "nat \<Rightarrow> nat list \<Rightarrow> nat list" where
  "offs_from sm [] = []"
| "offs_from sm (c # cs) = sm # offs_from (sm + c) cs"

definition place_symbol :: "nat list \<times> nat option list \<Rightarrow> nat \<times> nat \<Rightarrow> (nat list \<times> nat option list) option" where
  "place_symbol st il =
     (case st of (offs, tr) \<Rightarrow> case il of (i, l) \<Rightarrow>
        if l = 0 then Some st
        else do { k \<leftarrow> nth_opt offs l; offs' \<leftarrow> upd_opt offs l (k + 1); tr' \<leftarrow> upd_opt tr k (Some i); Some (offs', tr') })"

definition build_tree :: "huff_tree \<Rightarrow> nat list \<Rightarrow> huff_tree option" where
  "build_tree t ls = do {
     c \<leftarrow> count_lengths ls;
     let tab = c[0 := 0];
     st \<leftarrow> foldm place_symbol (offs_from 0 tab, tr_trans t) (zip [0..<length ls] ls);
     Some \<lparr>tr_table = tab, tr_trans = snd st\<rparr> }"

definition tinf_init :: tinf_globals where
  "tinf_init =
     (let (lb, ls) = build_bits_base 4 3; (db, ds) = build_bits_base 2 1
      in \<lparr>tg_sltree = fixed_ltree, tg_sdtree = fixed_dtree, tg_length_bits = lb[28 := 0], tg_length_base = ls[28 := 258],
          tg_dist_bits = db, tg_dist_base = ds\<rparr>)"

section \<open>Bits and symbols\<close>

definition getbit :: "inflater \<Rightarrow> (bool \<times> inflater) option" where
  "getbit d =
     (if in_count d = 0
      then (case in_src d of [] \<Rightarrow> None
            | b # bs \<Rightarrow> let t = (ucast b :: u32) in Some (bit t 0, d\<lparr>in_src := bs, in_tag := drop_bit 1 t, in_count := 7\<rparr>))
      else Some (bit (in_tag d) 0, d\<lparr>in_tag := drop_bit 1 (in_tag d), in_count := in_count d - 1\<rparr>))"

text \<open>The loop of \<^verbatim>\<open>tinf_read_bits\<close>: \<open>msk\<close> is doubled until it reaches \<^verbatim>\<open>1 << num\<close>, that is \<open>num\<close> times.\<close>

fun read_loop :: "nat \<Rightarrow> nat \<Rightarrow> nat \<Rightarrow> inflater \<Rightarrow> (nat \<times> inflater) option" where
  "read_loop 0 msk val d = Some (val, d)"
| "read_loop (Suc n) msk val d =
     (case getbit d of None \<Rightarrow> None | Some (b, d1) \<Rightarrow> read_loop n (2 * msk) (if b then val + msk else val) d1)"

definition read_bits :: "nat \<Rightarrow> nat \<Rightarrow> inflater \<Rightarrow> (nat \<times> inflater) option" where
  "read_bits num base d = (case read_loop num 1 0 d of None \<Rightarrow> None | Some (v, d1) \<Rightarrow> Some (v + base, d1))"

definition trans_at :: "huff_tree \<Rightarrow> int \<Rightarrow> nat option" where
  "trans_at t i = (if i < 0 then None else case nth_opt (tr_trans t) (nat i) of Some (Some s) \<Rightarrow> Some s | _ \<Rightarrow> None)"

function decode_loop :: "huff_tree \<Rightarrow> nat \<Rightarrow> int \<Rightarrow> int \<Rightarrow> inflater \<Rightarrow> (nat \<times> inflater) option" where
  "decode_loop t len sm cur d =
     (case getbit d of None \<Rightarrow> None
      | Some (b, d1) \<Rightarrow>
          (case nth_opt (tr_table t) (len + 1) of None \<Rightarrow> None
           | Some c \<Rightarrow>
               let sm1 = sm + int c; cur1 = 2 * cur + of_bool b - int c
               in if 0 \<le> cur1 then decode_loop t (len + 1) sm1 cur1 d1
                  else (case trans_at t (sm1 + cur1) of None \<Rightarrow> None | Some s \<Rightarrow> Some (s, d1))))"
  by pat_completeness auto

termination decode_loop
  by (relation "measure (\<lambda>(t, len, _). length (tr_table t) - len)") (auto simp: nth_opt_Some_iff)

declare decode_loop.simps [simp del]

definition decode_symbol :: "huff_tree \<Rightarrow> inflater \<Rightarrow> (nat \<times> inflater) option" where
  "decode_symbol t d = decode_loop t 0 0 0 d"

section \<open>Dynamic trees\<close>

fun read_clens :: "nat list \<Rightarrow> nat list \<Rightarrow> inflater \<Rightarrow> (nat list \<times> inflater) option" where
  "read_clens [] ls d = Some (ls, d)"
| "read_clens (i # js) ls d =
     (case read_bits 3 0 d of None \<Rightarrow> None
      | Some (c, d1) \<Rightarrow> (case upd_opt ls i c of None \<Rightarrow> None | Some ls1 \<Rightarrow> read_clens js ls1 d1))"

text \<open>\<^verbatim>\<open>lengths\<close> has 320 entries; the list holds those that have been written so far.\<close>

definition put_lengths :: "nat list \<Rightarrow> nat \<Rightarrow> nat \<Rightarrow> nat list option" where
  "put_lengths ls n v = (if length ls + n \<le> 320 then Some (ls @ replicate n v) else None)"

definition lengths_step :: "huff_tree \<Rightarrow> nat list \<Rightarrow> inflater \<Rightarrow> (nat list \<times> inflater) option" where
  "lengths_step t ls d = do {
     (sym, d1) \<leftarrow> decode_symbol t d;
     (n, v, d2) \<leftarrow> (if sym = 16 then (if ls = [] then None else do { (n, d2) \<leftarrow> read_bits 2 3 d1; Some (n, last ls, d2) })
                    else if sym = 17 then do { (n, d2) \<leftarrow> read_bits 3 3 d1; Some (n, 0, d2) }
                    else if sym = 18 then do { (n, d2) \<leftarrow> read_bits 7 11 d1; Some (n, 0, d2) }
                    else Some (1, sym, d1));
     ls' \<leftarrow> put_lengths ls n v;
     Some (ls', d2) }"

lemma read_bits_ge: "read_bits n base d = Some (v, d') \<Longrightarrow> base \<le> v"
  by (auto simp: read_bits_def split: option.splits)

lemma lengths_step_grows: "lengths_step t ls d = Some (ls', d') \<Longrightarrow> length ls < length ls'"
  by (auto simp: lengths_step_def put_lengths_def bind_eq_Some_conv split: if_splits dest!: read_bits_ge)

function read_lengths :: "huff_tree \<Rightarrow> nat \<Rightarrow> nat list \<Rightarrow> inflater \<Rightarrow> (nat list \<times> inflater) option" where
  "read_lengths t n ls d =
     (if length ls < n
      then (case lengths_step t ls d of None \<Rightarrow> None | Some (ls1, d1) \<Rightarrow> read_lengths t n ls1 d1)
      else Some (ls, d))"
  by pat_completeness auto

termination read_lengths
  by (relation "measure (\<lambda>(_, n, ls, _). n - length ls)") (auto dest: lengths_step_grows)

declare read_lengths.simps [simp del]

definition decode_trees :: "inflater \<Rightarrow> inflater option" where
  "decode_trees d = do {
     (hlit, d1) \<leftarrow> read_bits 5 257 d;
     (hdist, d2) \<leftarrow> read_bits 5 1 d1;
     (hclen, d3) \<leftarrow> read_bits 4 4 d2;
     (cl, d4) \<leftarrow> read_clens (take hclen clcidx) (replicate 19 0) d3;
     ct \<leftarrow> build_tree no_tree cl;
     (ls, d5) \<leftarrow> read_lengths ct (hlit + hdist) [] d4;
     lt \<leftarrow> build_tree (in_ltree d5) (take hlit ls);
     dt \<leftarrow> build_tree (in_dtree d5) (take hdist (drop hlit ls));
     Some (d5\<lparr>in_ltree := lt, in_dtree := dt\<rparr>) }"

section \<open>Blocks\<close>

definition put_byte :: "u8 \<Rightarrow> inflater \<Rightarrow> inflater option" where
  "put_byte b d = (if length (in_out d) < in_cap d then Some (d\<lparr>in_out := in_out d @ [b]\<rparr>) else None)"

text \<open>\<^verbatim>\<open>d->dest[i] = d->dest[i - offs]\<close>; before the buffer, or at a place that has not been written, there is nothing to read.\<close>

fun copy_match :: "nat \<Rightarrow> nat \<Rightarrow> inflater \<Rightarrow> inflater option" where
  "copy_match 0 offs d = Some d"
| "copy_match (Suc n) offs d =
     (if offs = 0 \<or> length (in_out d) < offs then None
      else case put_byte (in_out d ! (length (in_out d) - offs)) d of None \<Rightarrow> None | Some d1 \<Rightarrow> copy_match n offs d1)"

text \<open>One turn of the loop of \<^verbatim>\<open>tinf_inflate_block_data\<close>; the truth value says that the end of the block has been read.\<close>

definition block_step :: "tinf_globals \<Rightarrow> huff_tree \<Rightarrow> huff_tree \<Rightarrow> inflater \<Rightarrow> (bool \<times> inflater) option" where
  "block_step g lt dt d = do {
     (sym, d1) \<leftarrow> decode_symbol lt d;
     if sym = 256 then Some (True, d1)
     else if sym < 256 then do { d2 \<leftarrow> put_byte (of_nat sym) d1; Some (False, d2) }
     else do {
       lb \<leftarrow> nth_opt (tg_length_bits g) (sym - 257);
       ls \<leftarrow> nth_opt (tg_length_base g) (sym - 257);
       (len, d2) \<leftarrow> read_bits lb ls d1;
       (dist, d3) \<leftarrow> decode_symbol dt d2;
       db \<leftarrow> nth_opt (tg_dist_bits g) dist;
       ds \<leftarrow> nth_opt (tg_dist_base g) dist;
       (offs, d4) \<leftarrow> read_bits db ds d3;
       d5 \<leftarrow> copy_match len offs d4;
       Some (False, d5) } }"

text \<open>What is left to read, bit by bit.\<close>

definition byte_bits :: "u8 \<Rightarrow> bool list" where
  "byte_bits b = map (bit b) [0..<8]"

definition bits_of :: "inflater \<Rightarrow> bool list" where
  "bits_of d = map (bit (in_tag d)) [0..<unat (in_count d)] @ concat (map byte_bits (in_src d))"

lemma byte_bits_unfold: "byte_bits b = bit b 0 # map (\<lambda>i. bit b (Suc i)) [0..<7]"
  by (simp add: byte_bits_def upt_conv_Cons)

lemma getbit_bits: "getbit d = (case bits_of d of [] \<Rightarrow> None | b # bs \<Rightarrow> Some (b, snd (the (getbit d))))"
    and getbit_rest: "getbit d = Some (b, d') \<Longrightarrow> bits_of d = b # bits_of d' \<and> in_out d' = in_out d \<and> in_cap d' = in_cap d \<and>
      in_len d' = in_len d \<and> in_ltree d' = in_ltree d \<and> in_dtree d' = in_dtree d"
proof -
  have rest: "bits_of d = b # bits_of d' \<and> in_out d' = in_out d \<and> in_cap d' = in_cap d \<and>
      in_len d' = in_len d \<and> in_ltree d' = in_ltree d \<and> in_dtree d' = in_dtree d" if g: "getbit d = Some (b, d')" for b d'
  proof (cases "in_count d = 0")
    case True
    with g obtain x xs where "in_src d = x # xs" "b = bit (ucast x :: u32) 0"
        "d' = d\<lparr>in_src := xs, in_tag := drop_bit 1 (ucast x :: u32), in_count := 7\<rparr>"
      by (auto simp: getbit_def Let_def split: list.splits)
    with True show ?thesis by (simp add: bits_of_def byte_bits_unfold bit_drop_bit_eq bit_ucast_iff)
  next
    case False
    then have "unat (in_count d) = Suc (unat (in_count d - 1))" by (metis Suc_pred' unat_gt_0 unat_minus_one)
    with g False show ?thesis
      by (auto simp: getbit_def bits_of_def upt_conv_Cons map_Suc_upt [symmetric] bit_drop_bit_eq o_def simp del: upt_Suc)
  qed
  show "getbit d = Some (b, d') \<Longrightarrow> bits_of d = b # bits_of d' \<and> in_out d' = in_out d \<and> in_cap d' = in_cap d \<and>
      in_len d' = in_len d \<and> in_ltree d' = in_ltree d \<and> in_dtree d' = in_dtree d" by (rule rest)
  have none: "getbit d = None \<longleftrightarrow> bits_of d = []"
    by (auto simp: getbit_def bits_of_def byte_bits_def unat_eq_zero Let_def split: list.splits)
  show "getbit d = (case bits_of d of [] \<Rightarrow> None | b # bs \<Rightarrow> Some (b, snd (the (getbit d))))"
    using none rest by (cases "getbit d") auto
qed

text \<open>\<open>takes d bs d'\<close>: from \<open>d\<close> the bits \<open>bs\<close> have been read, and nothing else has changed.\<close>

definition takes :: "inflater \<Rightarrow> bool list \<Rightarrow> inflater \<Rightarrow> bool" where
  "takes d bs d' \<longleftrightarrow> bits_of d = bs @ bits_of d' \<and> in_out d' = in_out d \<and> in_cap d' = in_cap d \<and>
      in_len d' = in_len d \<and> in_ltree d' = in_ltree d \<and> in_dtree d' = in_dtree d \<and> (in_count d < 8 \<longrightarrow> in_count d' < 8)"

lemma takes_refl: "takes d [] d"
  by (simp add: takes_def)

lemma takes_trans: "takes d bs d1 \<Longrightarrow> takes d1 cs d2 \<Longrightarrow> takes d (bs @ cs) d2"
  by (simp add: takes_def)

lemma getbit_count: "getbit d = Some (b, d') \<Longrightarrow> in_count d < 8 \<Longrightarrow> in_count d' < 8"
proof (cases "in_count d = 0")
  case False
  assume "getbit d = Some (b, d')" "in_count d < 8"
  with False show ?thesis by (auto simp: getbit_def word_less_nat_alt unat_minus_one)
qed (auto simp: getbit_def Let_def split: list.splits)

lemma getbit_reads: "getbit d = Some (b, d') \<Longrightarrow> takes d [b] d'"
  using getbit_rest getbit_count by (simp add: takes_def)

lemma getbit_some: "bits_of d = b # bs \<Longrightarrow> \<exists>d'. getbit d = Some (b, d') \<and> takes d [b] d'"
  using getbit_bits [of d] getbit_reads [of d b] by (metis list.simps(5))

fun lsb :: "bool list \<Rightarrow> nat" where
  "lsb [] = 0"
| "lsb (b # bs) = of_bool b + 2 * lsb bs"

lemma read_loop_reads: "read_loop n m v d = Some (w, d') \<Longrightarrow> \<exists>bs. length bs = n \<and> takes d bs d' \<and> w = v + m * lsb bs"
proof (induction n arbitrary: m v d)
  case (Suc n)
  then obtain b d1 where b: "getbit d = Some (b, d1)" "read_loop n (2 * m) (if b then v + m else v) d1 = Some (w, d')"
    by (auto split: option.splits)
  with Suc.IH obtain bs where "length bs = n" "takes d1 bs d'" "w = (if b then v + m else v) + 2 * m * lsb bs" by blast
  with takes_trans [OF getbit_reads [OF b(1)]] show ?case by (intro exI [of _ "b # bs"]) (auto simp: algebra_simps)
qed (auto simp: takes_refl)

lemma read_bits_reads: "read_bits n base d = Some (w, d') \<Longrightarrow> \<exists>bs. length bs = n \<and> takes d bs d' \<and> w = base + lsb bs"
  by (force simp: read_bits_def split: option.splits dest: read_loop_reads)

lemma read_loop_some: "n \<le> length (bits_of d) \<Longrightarrow> \<exists>r. read_loop n m v d = Some r"
proof (induction n arbitrary: m v d)
  case (Suc n)
  then obtain b bs where "bits_of d = b # bs" by (cases "bits_of d") auto
  with getbit_some obtain d1 where d1: "getbit d = Some (b, d1)" "takes d [b] d1" by blast
  then have "n \<le> length (bits_of d1)" using Suc.prems by (simp add: takes_def)
  with Suc.IH d1 show ?case by simp
qed simp

lemma read_bits_some:
  assumes "bits_of d = bs @ cs"
  shows "\<exists>d'. read_bits (length bs) base d = Some (base + lsb bs, d') \<and> takes d bs d'"
proof -
  obtain w d' where "read_loop (length bs) 1 0 d = Some (w, d')" using read_loop_some [of "length bs" d] assms by force
  then have w: "read_bits (length bs) base d = Some (w + base, d')" by (simp add: read_bits_def)
  from read_bits_reads [OF this] obtain as where "length as = length bs" "takes d as d'" "w + base = base + lsb as" by blast
  moreover from this assms have "as = bs" by (simp add: takes_def)
  ultimately show ?thesis using w by auto
qed

lemma decode_loop_reads: "decode_loop t len sm cur d = Some (s, d') \<Longrightarrow> \<exists>bs. bs \<noteq> [] \<and> takes d bs d'"
proof (induction t len sm cur d rule: decode_loop.induct)
  case (1 t len sm cur d)
  from "1.prems" obtain b d1 c where b: "getbit d = Some (b, d1)" "nth_opt (tr_table t) (len + 1) = Some c"
    by (subst (asm) decode_loop.simps) (auto split: option.splits)
  note r = getbit_reads [OF b(1)]
  show ?case
  proof (cases "0 \<le> 2 * cur + of_bool b - int c")
    case True
    then have "decode_loop t (len + 1) (sm + int c) (2 * cur + of_bool b - int c) d1 = Some (s, d')"
      using "1.prems" b by (subst (asm) decode_loop.simps) (simp add: Let_def)
    with "1.IH" [OF b(1) refl b(2) refl refl True] obtain bs where "takes d1 bs d'" by blast
    from takes_trans [OF r this] show ?thesis by blast
  next
    case False
    then have "d' = d1" using "1.prems" b by (subst (asm) decode_loop.simps) (auto simp: Let_def split: option.splits)
    with r show ?thesis by blast
  qed
qed

lemma decode_symbol_reads: "decode_symbol t d = Some (s, d') \<Longrightarrow> \<exists>bs. bs \<noteq> [] \<and> takes d bs d'"
  using decode_loop_reads by (simp add: decode_symbol_def)

lemma put_byte_facts: "put_byte b d = Some d' \<Longrightarrow>
    bits_of d' = bits_of d \<and> in_out d' = in_out d @ [b] \<and> in_cap d' = in_cap d \<and> in_len d' = in_len d"
  by (auto simp: put_byte_def bits_of_def split: if_splits)

lemma copy_match_facts: "copy_match n offs d = Some d' \<Longrightarrow>
    bits_of d' = bits_of d \<and> in_cap d' = in_cap d \<and> in_len d' = in_len d"
  by (induction n arbitrary: d) (auto split: if_splits option.splits dest!: put_byte_facts)

lemma reads_shorter: "takes d bs d' \<Longrightarrow> length (bits_of d') = length (bits_of d) - length bs \<and> length bs \<le> length (bits_of d)"
  by (simp add: takes_def)

lemma block_step_shrinks: "block_step g lt dt d = Some (e, d') \<Longrightarrow> length (bits_of d') < length (bits_of d)"
proof -
  assume b: "block_step g lt dt d = Some (e, d')"
  then obtain s d1 where d1: "decode_symbol lt d = Some (s, d1)" by (auto simp: block_step_def bind_eq_Some_conv)
  from decode_symbol_reads [OF d1] have l: "length (bits_of d1) < length (bits_of d)" by (auto simp: takes_def)
  have "length (bits_of d') \<le> length (bits_of d1)"
  proof (cases "s \<le> 256")
    case True
    with b d1 show ?thesis by (auto simp: block_step_def bind_eq_Some_conv split: if_splits dest: put_byte_facts)
  next
    case False
    with b d1 obtain lb ls len d2 dist d3 db ds offs d4 where *: "read_bits lb ls d1 = Some (len, d2)"
        "decode_symbol dt d2 = Some (dist, d3)" "read_bits db ds d3 = Some (offs, d4)" "copy_match len offs d4 = Some d'"
      by (auto simp: block_step_def bind_eq_Some_conv)
    from read_bits_reads [OF *(1)] decode_symbol_reads [OF *(2)] read_bits_reads [OF *(3)] copy_match_facts [OF *(4)]
    show ?thesis by (auto dest!: reads_shorter)
  qed
  with l show ?thesis by simp
qed

function inflate_loop :: "tinf_globals \<Rightarrow> huff_tree \<Rightarrow> huff_tree \<Rightarrow> inflater \<Rightarrow> inflater option" where
  "inflate_loop g lt dt d =
     (case block_step g lt dt d of None \<Rightarrow> None | Some (e, d1) \<Rightarrow> if e then Some d1 else inflate_loop g lt dt d1)"
  by pat_completeness auto

termination inflate_loop
  by (relation "measure (\<lambda>(_, _, _, d). length (bits_of d))") (auto dest: block_step_shrinks)

declare inflate_loop.simps [simp del]

definition inflate_block_data :: "tinf_globals \<Rightarrow> huff_tree \<Rightarrow> huff_tree \<Rightarrow> inflater \<Rightarrow> (tinf_result \<times> inflater) option" where
  "inflate_block_data g lt dt d = do {
     d1 \<leftarrow> inflate_loop g lt dt d;
     Some (TINF_OK, d1\<lparr>in_len := in_len d1 + of_nat (length (in_out d1) - length (in_out d))\<rparr>) }"

fun copy_bytes :: "nat \<Rightarrow> inflater \<Rightarrow> inflater option" where
  "copy_bytes 0 d = Some d"
| "copy_bytes (Suc n) d =
     (case in_src d of [] \<Rightarrow> None
      | b # bs \<Rightarrow> (case put_byte b (d\<lparr>in_src := bs\<rparr>) of None \<Rightarrow> None | Some d1 \<Rightarrow> copy_bytes n d1))"

definition inflate_uncompressed_block :: "inflater \<Rightarrow> (tinf_result \<times> inflater) option" where
  "inflate_uncompressed_block d = do {
     b1 \<leftarrow> nth_opt (in_src d) 1; b0 \<leftarrow> nth_opt (in_src d) 0;
     let len = (256 * ucast b1 + ucast b0 :: u32);
     b3 \<leftarrow> nth_opt (in_src d) 3; b2 \<leftarrow> nth_opt (in_src d) 2;
     let inv = (256 * ucast b3 + ucast b2 :: u32);
     if len \<noteq> NOT inv AND 0xffff then Some (TINF_DATA_ERROR, d)
     else do {
       d1 \<leftarrow> copy_bytes (unat len) (d\<lparr>in_src := drop 4 (in_src d)\<rparr>);
       Some (TINF_OK, d1\<lparr>in_count := 0, in_len := in_len d1 + len\<rparr>) } }"

definition inflate_dynamic_block :: "tinf_globals \<Rightarrow> inflater \<Rightarrow> (tinf_result \<times> inflater) option" where
  "inflate_dynamic_block g d = do { d1 \<leftarrow> decode_trees d; inflate_block_data g (in_ltree d1) (in_dtree d1) d1 }"

text \<open>One turn of the loop of \<^verbatim>\<open>tinf_uncompress\<close>: the flag of the last block, and the result of the block.\<close>

definition one_block :: "tinf_globals \<Rightarrow> inflater \<Rightarrow> (bool \<times> tinf_result \<times> inflater) option" where
  "one_block g d = do {
     (bfinal, d1) \<leftarrow> getbit d;
     (btype, d2) \<leftarrow> read_bits 2 0 d1;
     (res, d3) \<leftarrow> (if btype = 0 then inflate_uncompressed_block d2
                  else if btype = 1 then inflate_block_data g (tg_sltree g) (tg_sdtree g) d2
                  else if btype = 2 then inflate_dynamic_block g d2
                  else Some (TINF_DATA_ERROR, d2));
     Some (bfinal, res, d3) }"

lemma inflate_loop_shrinks: "inflate_loop g lt dt d = Some d' \<Longrightarrow> length (bits_of d') \<le> length (bits_of d)"
proof (induction g lt dt d rule: inflate_loop.induct)
  case (1 g lt dt d)
  from "1.prems" obtain e d1 where e: "block_step g lt dt d = Some (e, d1)"
    by (subst (asm) inflate_loop.simps) (auto split: option.splits)
  with "1.IH" [OF e refl] "1.prems" block_step_shrinks [OF e] show ?case
    by (subst (asm) (2) inflate_loop.simps) (cases e; force)
qed

lemma read_clens_shrinks: "read_clens js ls d = Some (ls', d') \<Longrightarrow> \<exists>bs. takes d bs d'"
proof (induction js ls d rule: read_clens.induct)
  case (2 j js ls d)
  then obtain c d1 ls1 where *: "read_bits 3 0 d = Some (c, d1)" "upd_opt ls j c = Some ls1" "read_clens js ls1 d1 = Some (ls', d')"
    by (auto split: option.splits)
  with "2.IH" [OF *(1) refl *(2) *(3)] read_bits_reads [OF *(1)] show ?case by (blast intro: takes_trans)
qed (auto intro: takes_refl)

lemma lengths_step_shrinks: "lengths_step t ls d = Some (ls', d') \<Longrightarrow> \<exists>bs. takes d bs d'"
  by (auto simp: lengths_step_def bind_eq_Some_conv split: if_splits dest!: decode_symbol_reads read_bits_reads; blast intro: takes_trans)

lemma read_lengths_shrinks: "read_lengths t n ls d = Some (ls', d') \<Longrightarrow> \<exists>bs. takes d bs d'"
proof (induction t n ls d rule: read_lengths.induct)
  case (1 t n ls d)
  show ?case
  proof (cases "length ls < n")
    case True
    with "1.prems" obtain ls1 d1 where *: "lengths_step t ls d = Some (ls1, d1)" "read_lengths t n ls1 d1 = Some (ls', d')"
      by (subst (asm) read_lengths.simps) (auto split: option.splits)
    with "1.IH" [OF True *(1) refl *(2)] lengths_step_shrinks [OF *(1)] show ?thesis by (blast intro: takes_trans)
  next
    case False
    with "1.prems" show ?thesis by (subst (asm) read_lengths.simps) (auto intro: takes_refl)
  qed
qed

lemma decode_trees_shrinks: "decode_trees d = Some d' \<Longrightarrow> length (bits_of d') \<le> length (bits_of d)"
proof -
  assume "decode_trees d = Some d'"
  then obtain a d1 b d2 c d3 cl d4 ct ls d5 lt dt where *: "read_bits 5 257 d = Some (a, d1)" "read_bits 5 1 d1 = Some (b, d2)"
      "read_bits 4 4 d2 = Some (c, d3)" "read_clens (take c clcidx) (replicate 19 0) d3 = Some (cl, d4)"
      "read_lengths ct (a + b) [] d4 = Some (ls, d5)" "d' = d5\<lparr>in_ltree := lt, in_dtree := dt\<rparr>"
    by (auto simp: decode_trees_def bind_eq_Some_conv)
  moreover from this have "bits_of d' = bits_of d5" by (simp add: bits_of_def)
  ultimately show ?thesis using read_bits_reads [OF *(1)] read_bits_reads [OF *(2)] read_bits_reads [OF *(3)]
      read_clens_shrinks [OF *(4)] read_lengths_shrinks [OF *(5)] by (auto dest!: reads_shorter)
qed

lemma length_bits_of: "length (bits_of d) = unat (in_count d) + 8 * length (in_src d)"
proof -
  have "length (concat (map byte_bits bs)) = 8 * length bs" for bs by (induction bs) (simp_all add: byte_bits_def)
  then show ?thesis by (simp add: bits_of_def)
qed

lemma copy_bytes_shrinks: "copy_bytes n d = Some d' \<Longrightarrow> length (bits_of d') \<le> length (bits_of d)"
proof (induction n arbitrary: d)
  case (Suc n)
  then obtain b bs d1 where "in_src d = b # bs" "put_byte b (d\<lparr>in_src := bs\<rparr>) = Some d1" "copy_bytes n d1 = Some d'"
    by (auto split: list.splits option.splits)
  with Suc.IH [of d1] show ?case by (auto simp: length_bits_of put_byte_def split: if_splits)
qed simp

lemma one_block_shrinks: "one_block g d = Some (e, r, d') \<Longrightarrow> length (bits_of d') < length (bits_of d)"
proof -
  assume b: "one_block g d = Some (e, r, d')"
  then obtain d1 ty d2 where *: "getbit d = Some (e, d1)" "read_bits 2 0 d1 = Some (ty, d2)"
    by (auto simp: one_block_def bind_eq_Some_conv)
  from getbit_reads [OF *(1)] read_bits_reads [OF *(2)] have l: "length (bits_of d2) < length (bits_of d)"
    by (auto dest!: reads_shorter)
  have block: "length (bits_of d3) \<le> length (bits_of d2')" if "inflate_block_data g lt dt d2' = Some (r, d3)" for lt dt d2' d3
    using that by (auto simp: inflate_block_data_def bind_eq_Some_conv bits_of_def dest!: inflate_loop_shrinks)
  have "length (bits_of d') \<le> length (bits_of d2)"
  proof -
    consider "inflate_uncompressed_block d2 = Some (r, d')" | "inflate_block_data g (tg_sltree g) (tg_sdtree g) d2 = Some (r, d')" |
        "inflate_dynamic_block g d2 = Some (r, d')" | "d' = d2"
      using b * by (auto simp: one_block_def bind_eq_Some_conv split: if_splits)
    then show ?thesis
    proof cases
      case 1
      then show ?thesis
        by (auto simp: inflate_uncompressed_block_def bind_eq_Some_conv Let_def length_bits_of split: if_splits
            dest!: copy_bytes_shrinks)
    next
      case 2
      then show ?thesis by (rule block)
    next
      case 3
      then show ?thesis by (auto simp: inflate_dynamic_block_def bind_eq_Some_conv dest!: decode_trees_shrinks block)
    qed simp
  qed
  with l show ?thesis by simp
qed

function block_loop :: "tinf_globals \<Rightarrow> inflater \<Rightarrow> (tinf_result \<times> inflater) option" where
  "block_loop g d =
     (case one_block g d of None \<Rightarrow> None
      | Some (bfinal, res, d1) \<Rightarrow>
          if res \<noteq> TINF_OK then Some (TINF_DATA_ERROR, d1) else if bfinal then Some (TINF_OK, d1) else block_loop g d1)"
  by pat_completeness auto

termination block_loop
  by (relation "measure (\<lambda>(_, d). length (bits_of d))") (auto dest: one_block_shrinks)

declare block_loop.simps [simp del]

definition new_inflater :: "u8 list \<Rightarrow> nat \<Rightarrow> inflater" where
  "new_inflater src cap = \<lparr>in_src = src, in_tag = 0, in_count = 0, in_out = [], in_cap = cap, in_len = 0,
     in_ltree = no_tree, in_dtree = no_tree\<rparr>"

definition uncompress :: "tinf_globals \<Rightarrow> u8 list \<Rightarrow> nat \<Rightarrow> (tinf_result \<times> inflater) option" where
  "uncompress g src cap = block_loop g (new_inflater src cap)"

section \<open>The zlib wrapper\<close>

definition adler_step :: "u8 \<Rightarrow> u32 \<times> u32 \<Rightarrow> u32 \<times> u32" where
  "adler_step b st = (case st of (s1, s2) \<Rightarrow> let s1' = s1 + ucast b in (s1', s2 + s1'))"

text \<open>The unrolled loop over sixteen bytes, \<open>i\<close> times.\<close>

fun adler_sixteens :: "nat \<Rightarrow> u8 list \<times> u32 \<times> u32 \<Rightarrow> u8 list \<times> u32 \<times> u32" where
  "adler_sixteens 0 st = st"
| "adler_sixteens (Suc i) (buf, st) = adler_sixteens i (drop 16 buf, fold adler_step (take 16 buf) st)"

function adler_loop :: "u8 list \<Rightarrow> u32 \<times> u32 \<Rightarrow> u32 \<times> u32" where
  "adler_loop buf st =
     (if buf = [] then st
      else let k = (if length buf < 5552 then length buf else 5552);
               (buf1, st1) = adler_sixteens (k div 16) (buf, st);
               (s1, s2) = fold adler_step (take (k mod 16) buf1) st1
           in adler_loop (drop k buf) (s1 mod 65521, s2 mod 65521))"
  by pat_completeness auto

termination adler_loop
  by (relation "measure (\<lambda>(buf, _). length buf)") auto

declare adler_loop.simps [simp del]

definition adler32 :: "u8 list \<Rightarrow> u32" where
  "adler32 buf = (case adler_loop buf (1, 0) of (s1, s2) \<Rightarrow> push_bit 16 s2 OR s1)"

definition zlib_uncompress :: "tinf_globals \<Rightarrow> u8 list \<Rightarrow> nat \<Rightarrow> (tinf_result \<times> inflater option) option" where
  "zlib_uncompress g src cap = do {
     cmf \<leftarrow> nth_opt src 0; flg \<leftarrow> nth_opt src 1;
     if (256 * uint cmf + uint flg) mod 31 \<noteq> 0 then Some (TINF_DATA_ERROR, None)
     else if cmf AND 0x0f \<noteq> 8 then Some (TINF_DATA_ERROR, None)
     else if drop_bit 4 cmf > 7 then Some (TINF_DATA_ERROR, None)
     else if flg AND 0x20 \<noteq> 0 then Some (TINF_DATA_ERROR, None)
     else if length src < 4 then None
     else do {
       let a = (foldl (\<lambda>a b. 256 * a + ucast b) 0 (drop (length src - 4) src) :: u32);
       (res, d) \<leftarrow> uncompress g (drop 2 src) cap;
       if res \<noteq> TINF_OK then Some (TINF_DATA_ERROR, Some d)
       else if length (in_out d) < unat (in_len d) then None
       else if a \<noteq> adler32 (take (unat (in_len d)) (in_out d)) then Some (TINF_DATA_ERROR, Some d)
       else Some (TINF_OK, Some d) } }"


end
