(* ===== verification/InflateOk.thy ===== *)
theory InflateOk
  imports Inflate
begin

text \<open>
  The trees and the codes of \<^verbatim>\<open>Common/TInf.cpp\<close>: \<open>tree_for\<close> says what a tree is for a list of code lengths (counts, and the
  symbols sorted by their codes), \<open>huff_code\<close> is the canonical code of RFC 1951, \<open>kraft\<close> that the lengths leave room for the
  codes.  \<open>build_tree\<close> makes the tree of the lengths, \<open>decode_symbol\<close> reads a symbol from its code, the loop of a block
  undoes the coding of its tokens, and the fixed tree is the canonical one of the RFC's lengths.
\<close>

section \<open>Trees from code lengths\<close>

text \<open>The symbols of one code length, in their order, and the specification of \<^verbatim>\<open>tinf_build_tree\<close>: \<open>table\<close> counts them and
  \<open>trans\<close> lists them, the shorter codes first.\<close>

definition syms_of :: "nat list \<Rightarrow> nat \<Rightarrow> nat list" where
  "syms_of ls l = filter (\<lambda>i. ls ! i = l) [0..<length ls]"

definition code_count :: "nat list \<Rightarrow> nat \<Rightarrow> nat" where
  "code_count ls l = (if l = 0 then 0 else length (syms_of ls l))"

definition start_of :: "(nat \<Rightarrow> nat) \<Rightarrow> nat \<Rightarrow> nat" where
  "start_of cnt l = (\<Sum>m<l. cnt m)"

definition tree_for :: "nat list \<Rightarrow> huff_tree \<Rightarrow> bool" where
  "tree_for ls t \<longleftrightarrow> tr_table t = map (code_count ls) [0..<16] \<and>
     (\<forall>l k. l < 16 \<and> k < code_count ls l \<longrightarrow> trans_at t (int (start_of (code_count ls) l + k)) = Some (syms_of ls l ! k))"

lemma length_syms_of: "length (syms_of ls l) = count_list ls l"
proof -
  have "length (syms_of ls l) = length (filter (\<lambda>i. l = ls ! i) [0..<length ls])"
    unfolding syms_of_def by (rule arg_cong [where f = length], rule filter_cong) auto
  also have "\<dots> = length (filter ((=) l) (map ((!) ls) [0..<length ls]))" by (simp add: filter_map o_def)
  also have "\<dots> = count_list ls l" by (simp only: map_nth count_list_eq_length_filter)
  finally show ?thesis .
qed

lemma syms_of_snoc: "syms_of (ls @ [x]) l = syms_of ls l @ (if x = l then [length ls] else [])"
proof -
  have "filter (\<lambda>i. (ls @ [x]) ! i = l) [0..<length ls] = filter (\<lambda>i. ls ! i = l) [0..<length ls]"
    by (rule filter_cong) (simp_all add: nth_append)
  then show ?thesis by (simp add: syms_of_def)
qed

lemma count_loop:
  "\<lbrakk>length c = 16; \<forall>l \<in> set ls. l < 16\<rbrakk> \<Longrightarrow>
    foldm (\<lambda>t l. do { c \<leftarrow> nth_opt t l; upd_opt t l (c + 1) }) c ls = Some (map (\<lambda>l. c ! l + count_list ls l) [0..<16])"
proof (induction ls arbitrary: c)
  case Nil
  then show ?case by (simp add: list_eq_iff_nth_eq)
next
  case (Cons x ls)
  then have x: "x < 16" by simp
  have "foldm (\<lambda>t l. do { c \<leftarrow> nth_opt t l; upd_opt t l (c + 1) }) (c[x := c ! x + 1]) ls =
      Some (map (\<lambda>l. c[x := c ! x + 1] ! l + count_list ls l) [0..<16])" using Cons by simp
  moreover have "map (\<lambda>l. c[x := c ! x + 1] ! l + count_list ls l) [0..<16] = map (\<lambda>l. c ! l + count_list (x # ls) l) [0..<16]"
    using Cons.prems by (intro map_cong) (auto simp: nth_list_update)
  ultimately show ?case using x Cons.prems by simp
qed

lemma count_lengths_counts: "\<forall>l \<in> set ls. l < 16 \<Longrightarrow> count_lengths ls = Some (map (count_list ls) [0..<16])"
  unfolding count_lengths_def by (subst count_loop) (auto intro!: map_cong)

lemma offs_from_nth: "i < length cs \<Longrightarrow> offs_from a cs ! i = a + (\<Sum>m<i. cs ! m)"
proof (induction cs arbitrary: a i)
  case (Cons c cs)
  then show ?case by (cases i) (simp_all add: sum.lessThan_Suc_shift del: sum.lessThan_Suc)
qed simp

lemma length_offs_from [simp]: "length (offs_from a cs) = length cs"
  by (induction cs arbitrary: a) simp_all

definition settled :: "(nat \<Rightarrow> nat) \<Rightarrow> nat list \<Rightarrow> nat list \<Rightarrow> nat option list \<Rightarrow> bool" where
  "settled st ls os tr \<longleftrightarrow> length os = 16 \<and>
     (\<forall>l. 0 < l \<longrightarrow> l < 16 \<longrightarrow> os ! l = st l + count_list ls l) \<and>
     (\<forall>l k. 0 < l \<longrightarrow> l < 16 \<longrightarrow> k < count_list ls l \<longrightarrow> tr ! (st l + k) = Some (syms_of ls l ! k))"

lemma place_one:
  assumes "settled st ls os tr" "0 < x" "x < 16" "count_list ls x < N x"
    and disj: "\<And>l m. 0 < l \<Longrightarrow> l < m \<Longrightarrow> m < 16 \<Longrightarrow> st l + N l \<le> st m"
    and inside: "st x + N x \<le> length tr" and few: "\<And>l. 0 < l \<Longrightarrow> l < 16 \<Longrightarrow> count_list ls l \<le> N l"
  shows "settled st (ls @ [x]) (os[x := os ! x + 1]) (tr[os ! x := Some (length ls)])"
proof -
  have len: "length os = 16" and o: "\<And>l. 0 < l \<Longrightarrow> l < 16 \<Longrightarrow> os ! l = st l + count_list ls l"
    and old: "\<And>l k. 0 < l \<Longrightarrow> l < 16 \<Longrightarrow> k < count_list ls l \<Longrightarrow> tr ! (st l + k) = Some (syms_of ls l ! k)"
    using assms(1) by (simp_all add: settled_def)
  have x: "os ! x = st x + count_list ls x" using o assms by simp
  then have k: "os ! x < length tr" "os ! x < st x + N x" using inside assms(4) by simp_all
  have "tr[os ! x := Some (length ls)] ! (st l + k) = Some (syms_of (ls @ [x]) l ! k)"
    if l: "0 < l" "l < 16" "k < count_list (ls @ [x]) l" for l k
  proof (cases "l = x \<and> k = count_list ls x")
    case True
    then show ?thesis using k x by (simp add: syms_of_snoc nth_append length_syms_of)
  next
    case no: False
    then have less: "k < count_list ls l" using l by (auto split: if_splits)
    then have "k < N l" using few [OF l(1,2)] by simp
    then have "st l + k \<noteq> os ! x"
      using disj [of l x] disj [of x l] l assms(2,3) k(2) x no by (cases l x rule: linorder_cases) auto
    then show ?thesis using old [OF l(1,2) less] less by (simp add: syms_of_snoc nth_append length_syms_of)
  qed
  moreover have "os[x := os ! x + 1] ! l = st l + count_list (ls @ [x]) l" if "0 < l" "l < 16" for l
    using that o [of l] len x by (simp add: nth_list_update)
  ultimately show ?thesis using len by (simp add: settled_def)
qed

lemma place_all:
  assumes disj: "\<And>l m. 0 < l \<Longrightarrow> l < m \<Longrightarrow> m < 16 \<Longrightarrow> st l + N l \<le> st m"
    and inside: "\<And>l. 0 < l \<Longrightarrow> l < 16 \<Longrightarrow> st l + N l \<le> length tr0"
    and offs0: "length offs0 = 16" "\<And>l. 0 < l \<Longrightarrow> l < 16 \<Longrightarrow> offs0 ! l = st l"
  shows "\<lbrakk>\<forall>x \<in> set ls. x < 16; \<And>l. 0 < l \<Longrightarrow> l < 16 \<Longrightarrow> count_list ls l \<le> N l\<rbrakk> \<Longrightarrow>
    \<exists>os tr. foldm place_symbol (offs0, tr0) (zip [0..<length ls] ls) = Some (os, tr) \<and> length tr = length tr0 \<and> settled st ls os tr"
proof (induction ls rule: rev_induct)
  case Nil
  then show ?case using offs0 by (simp add: settled_def)
next
  case (snoc x ls)
  have few: "count_list ls l \<le> N l" "count_list ls l + of_bool (x = l) \<le> N l" if "0 < l" "l < 16" for l
    using snoc.prems(2) [OF that] by (auto split: if_splits)
  obtain os tr where f: "foldm place_symbol (offs0, tr0) (zip [0..<length ls] ls) = Some (os, tr)" "length tr = length tr0"
      "settled st ls os tr" using snoc.IH few snoc.prems(1) by auto
  have z: "foldm place_symbol (offs0, tr0) (zip [0..<length (ls @ [x])] (ls @ [x])) = place_symbol (os, tr) (length ls, x)"
    using f(1) by (simp add: foldm_append)
  have x: "x < 16" using snoc.prems(1) by simp
  show ?case
  proof (cases "x = 0")
    case True
    then have "settled st (ls @ [x]) os tr" using f(3) by (auto simp: settled_def syms_of_snoc)
    then show ?thesis unfolding z using f(2) True by (simp add: place_symbol_def)
  next
    case False
    have lt: "count_list ls x < N x" using few(2) [of x] False x by simp
    have "settled st (ls @ [x]) (os[x := os ! x + 1]) (tr[os ! x := Some (length ls)])"
      using f False x lt inside disj few by (intro place_one [where N = N]) auto
    moreover have "length os = 16" "os ! x < length tr"
      using f(2,3) inside [of x] lt False x by (auto simp: settled_def)
    ultimately show ?thesis unfolding z using f(2) False x by (simp add: place_symbol_def)
  qed
qed

lemma start_mono: "l < m \<Longrightarrow> start_of cnt l + cnt l \<le> start_of cnt m"
proof -
  assume "l < m"
  have "start_of cnt l + cnt l = (\<Sum>i<Suc l. cnt i)" by (simp add: start_of_def)
  also have "\<dots> \<le> (\<Sum>i<m. cnt i)" using \<open>l < m\<close> by (intro sum_mono2) auto
  finally show ?thesis by (simp add: start_of_def)
qed

lemma count_sum: "(\<Sum>l<n. count_list ls l) \<le> length (ls :: nat list)"
proof (induction ls)
  case (Cons x ls)
  have "(\<Sum>l<n. count_list (x # ls) l) = (\<Sum>l<n. of_bool (x = l) + count_list ls l)" by (intro sum.cong) auto
  also have "\<dots> = (\<Sum>l<n. of_bool (x = l)) + (\<Sum>l<n. count_list ls l)" by (rule sum.distrib)
  also have "(\<Sum>l<n. of_bool (x = l)) \<le> (1::nat)" unfolding of_bool_def by (subst sum.delta') auto
  finally show ?case using Cons by simp
qed simp

lemma code_count_count: "code_count ls l = (if l = 0 then 0 else count_list ls l)"
  by (simp add: code_count_def length_syms_of)

lemma code_count_sum: "start_of (code_count ls) n \<le> length ls"
proof -
  have "start_of (code_count ls) n \<le> (\<Sum>l<n. count_list ls l)" unfolding start_of_def by (intro sum_mono) (simp add: code_count_count)
  with count_sum [of ls n] show ?thesis by linarith
qed

lemma build_tree_sorts:
  assumes ls: "\<forall>l \<in> set ls. l < 16" and room: "length ls \<le> length (tr_trans t0)"
  shows "\<exists>t. build_tree t0 ls = Some t \<and> tree_for ls t \<and> length (tr_trans t) = length (tr_trans t0)"
proof -
  let ?cnt = "code_count ls" and ?st = "start_of (code_count ls)"
  define tab where "tab = map ?cnt [0..<16]"
  have tab: "(map (count_list ls) [0..<16])[0 := 0] = tab"
    by (simp add: tab_def list_eq_iff_nth_eq nth_list_update code_count_count)
  have offs: "offs_from 0 tab ! l = ?st l" if "l < 16" for l
    using that by (simp add: offs_from_nth tab_def start_of_def)
  have inside: "?st l + ?cnt l \<le> length (tr_trans t0)" for l
    using code_count_sum [of ls "Suc l"] room by (simp add: start_of_def)
  have "\<exists>os tr. foldm place_symbol (offs_from 0 tab, tr_trans t0) (zip [0..<length ls] ls) = Some (os, tr) \<and>
      length tr = length (tr_trans t0) \<and> settled ?st ls os tr"
  proof (rule place_all [where N = ?cnt])
    show "length (offs_from 0 tab) = 16" by (simp add: tab_def)
    show "?st l + ?cnt l \<le> ?st m" if "l < m" for l m using that by (rule start_mono)
    show "?st l + ?cnt l \<le> length (tr_trans t0)" for l by (rule inside)
    show "offs_from 0 tab ! l = ?st l" if "l < 16" for l using that by (rule offs)
    show "count_list ls l \<le> ?cnt l" if "0 < l" for l using that by (simp add: code_count_count)
  qed (use ls in auto)
  then obtain os tr where p: "foldm place_symbol (offs_from 0 tab, tr_trans t0) (zip [0..<length ls] ls) = Some (os, tr)"
      "length tr = length (tr_trans t0)" "settled ?st ls os tr" by blast
  have "trans_at \<lparr>tr_table = tab, tr_trans = tr\<rparr> (int (?st l + k)) = Some (syms_of ls l ! k)" if "l < 16" "k < ?cnt l" for l k
  proof -
    have "?st l + k < length tr" using that inside [of l] p(2) by simp
    moreover have "tr ! (?st l + k) = Some (syms_of ls l ! k)" using that p(3) by (auto simp: settled_def code_count_count split: if_splits)
    ultimately show ?thesis by (simp add: trans_at_def nat_int_add)
  qed
  then have "tree_for ls \<lparr>tr_table = tab, tr_trans = tr\<rparr>" by (simp add: tree_for_def tab_def)
  moreover have "build_tree t0 ls = Some \<lparr>tr_table = tab, tr_trans = tr\<rparr>"
    using p(1) count_lengths_counts [OF ls] by (simp add: build_tree_def tab)
  ultimately show ?thesis using p(2) by auto
qed

section \<open>Canonical codes\<close>

text \<open>The Huffman code of RFC 1951: codes of one length are consecutive numbers in the order of their symbols, the first of
  them is twice the number behind the last shorter one, and the most significant bit comes first.\<close>

fun first_code :: "(nat \<Rightarrow> nat) \<Rightarrow> nat \<Rightarrow> nat" where
  "first_code cnt 0 = 0"
| "first_code cnt (Suc l) = 2 * (first_code cnt l + cnt l)"

fun msb :: "nat \<Rightarrow> nat \<Rightarrow> bool list" where
  "msb 0 v = []"
| "msb (Suc l) v = msb l (v div 2) @ [odd v]"

definition rank_of :: "nat list \<Rightarrow> nat \<Rightarrow> nat" where
  "rank_of ls s = length (filter (\<lambda>i. ls ! i = ls ! s) [0..<s])"

definition huff_code :: "nat list \<Rightarrow> nat \<Rightarrow> bool list" where
  "huff_code ls s = msb (ls ! s) (first_code (code_count ls) (ls ! s) + rank_of ls s)"

text \<open>The inequality of Kraft and McMillan: there are not more codes than fit.\<close>

definition kraft :: "nat list \<Rightarrow> bool" where
  "kraft ls \<longleftrightarrow> (\<Sum>l<16. code_count ls l * 2 ^ (15 - l)) \<le> 2 ^ 15"

lemma length_msb [simp]: "length (msb l v) = l"
  by (induction l arbitrary: v) simp_all

lemma msb_drop: "j < l \<Longrightarrow> drop j (msb l v) = odd (v div 2 ^ (l - Suc j)) # drop (Suc j) (msb l v)"
proof (induction l arbitrary: v)
  case (Suc l)
  show ?case
  proof (cases "j = l")
    case False
    with Suc.prems have j: "j < l" by simp
    then have "l - j = Suc (l - Suc j)" by simp
    then have "v div 2 ^ (l - j) = v div 2 div 2 ^ (l - Suc j)" by (simp add: div_mult2_eq)
    with Suc.IH [OF j, of "v div 2"] j show ?thesis by simp
  qed simp
qed simp

lemma first_code_le: "l < m \<Longrightarrow> 2 ^ (m - l) * (first_code cnt l + cnt l) \<le> first_code cnt m"
proof (induction m)
  case (Suc m)
  show ?case
  proof (cases "l = m")
    case False
    with Suc have "2 ^ (m - l) * (first_code cnt l + cnt l) \<le> first_code cnt m" by simp
    moreover have "Suc m - l = Suc (m - l)" using Suc.prems False by simp
    ultimately show ?thesis by simp
  qed simp
qed simp

lemma first_code_sum: "l \<le> 15 \<Longrightarrow> 2 ^ (15 - l) * (first_code cnt l + cnt l) = (\<Sum>m<Suc l. cnt m * 2 ^ (15 - m))"
proof (induction l)
  case (Suc l)
  then have "15 - l = Suc (15 - Suc l)" by simp
  with Suc show ?case by (simp add: algebra_simps)
qed simp

lemma code_fits: "kraft ls \<Longrightarrow> l \<le> 15 \<Longrightarrow> first_code (code_count ls) l + code_count ls l \<le> 2 ^ l"
proof -
  assume k: "kraft ls" and l: "l \<le> 15"
  have "2 ^ (15 - l) * (first_code (code_count ls) l + code_count ls l) = (\<Sum>m<Suc l. code_count ls m * 2 ^ (15 - m))"
    using first_code_sum [OF l] .
  also have "\<dots> \<le> (\<Sum>m<16. code_count ls m * 2 ^ (15 - m))" using l by (intro sum_mono2) auto
  also have "\<dots> \<le> 2 ^ (15 - l) * 2 ^ l" using k l by (simp add: kraft_def flip: power_add)
  finally show ?thesis by simp
qed

lemma start_of_Suc: "start_of cnt (Suc l) = start_of cnt l + cnt l"
  by (simp add: start_of_def)

lemma half_int: "int v = 2 * int (v div 2) + of_bool (odd v)"
  by (cases "even v") (auto elim!: evenE oddE)

lemma decode_code:
  assumes tab: "tr_table t = map cnt [0..<16]" and l: "l < 16" and k: "k < cnt l" and c: "c = first_code cnt l + k"
    and s: "trans_at t (int (start_of cnt l + k)) = Some s"
  shows "\<lbrakk>j < l; bits_of d = drop j (msb l c) @ rest\<rbrakk> \<Longrightarrow>
    \<exists>d'. decode_loop t j (int (start_of cnt (Suc j))) (int (c div 2 ^ (l - j)) - int (first_code cnt j + cnt j)) d = Some (s, d') \<and>
      takes d (drop j (msb l c)) d'"
proof (induction "l - j" arbitrary: j d)
  case (Suc n)
  let ?b = "odd (c div 2 ^ (l - Suc j))" and ?v = "c div 2 ^ (l - Suc j)"
  have bits: "drop j (msb l c) = ?b # drop (Suc j) (msb l c)" using Suc.prems(1) by (rule msb_drop)
  with Suc.prems(2) getbit_some obtain d1 where d1: "getbit d = Some (?b, d1)" "takes d [?b] d1" by fastforce
  have "l - j = Suc (l - Suc j)" using Suc.prems(1) by simp
  then have half: "c div 2 ^ (l - j) = ?v div 2" by (simp add: power_Suc2 div_mult2_eq del: power_Suc)
  have v: "int ?v = 2 * int (?v div 2) + of_bool ?b" by (rule half_int)
  have cur: "2 * (int (c div 2 ^ (l - j)) - int (first_code cnt j + cnt j)) + of_bool ?b - int (cnt (Suc j)) =
      int ?v - int (first_code cnt (Suc j) + cnt (Suc j))"
    unfolding half using v by simp
  have tab1: "nth_opt (tr_table t) (j + 1) = Some (cnt (Suc j))" using tab Suc.prems(1) l by simp
  have sm: "int (start_of cnt (Suc j)) + int (cnt (Suc j)) = int (start_of cnt (Suc (Suc j)))" by (simp add: start_of_Suc)
  have step: "decode_loop t j (int (start_of cnt (Suc j))) (int (c div 2 ^ (l - j)) - int (first_code cnt j + cnt j)) d =
     (let cur1 = int ?v - int (first_code cnt (Suc j) + cnt (Suc j))
      in if 0 \<le> cur1 then decode_loop t (j + 1) (int (start_of cnt (Suc (Suc j)))) cur1 d1
         else (case trans_at t (int (start_of cnt (Suc (Suc j))) + cur1) of None \<Rightarrow> None | Some s \<Rightarrow> Some (s, d1)))"
    by (subst decode_loop.simps) (simp only: d1(1) option.case prod.case tab1 Let_def cur sm)
  show ?case
  proof (cases "Suc j = l")
    case True
    have idx: "int (start_of cnt (Suc (Suc j))) + (int ?v - int (first_code cnt (Suc j) + cnt (Suc j))) = int (start_of cnt l + k)"
      using True by (simp add: start_of_Suc c)
    have neg: "\<not> 0 \<le> int ?v - int (first_code cnt (Suc j) + cnt (Suc j))" using True k c by simp
    show ?thesis unfolding step Let_def idx if_not_P [OF neg] s bits using True d1(2) by simp
  next
    case False
    with Suc.prems have j: "Suc j < l" by simp
    have "2 ^ (l - Suc j) * (first_code cnt (Suc j) + cnt (Suc j)) \<le> c" using first_code_le [OF j, of cnt] c by linarith
    then have "first_code cnt (Suc j) + cnt (Suc j) \<le> ?v" by (simp add: less_eq_div_iff_mult_less_eq mult.commute)
    then have pos: "0 \<le> int ?v - int (first_code cnt (Suc j) + cnt (Suc j))" by linarith
    have "bits_of d1 = drop (Suc j) (msb l c) @ rest" using Suc.prems(2) d1(2) bits by (simp add: takes_def)
    moreover have "n = l - Suc j" using Suc.hyps(2) by simp
    ultimately obtain d' where "decode_loop t (Suc j) (int (start_of cnt (Suc (Suc j)))) (int ?v - int (first_code cnt (Suc j) + cnt (Suc j))) d1 = Some (s, d')"
        "takes d1 (drop (Suc j) (msb l c)) d'" using Suc.hyps(1) [of "Suc j" d1] j by blast
    with takes_trans [OF d1(2)] pos show ?thesis unfolding step bits by (auto simp: Let_def)
  qed
qed simp

lemma nth_filter_rank: "s < n \<Longrightarrow> P s \<Longrightarrow> filter P [0..<n] ! length (filter P [0..<s]) = s \<and> length (filter P [0..<s]) < length (filter P [0..<n])"
proof -
  assume "s < n" "P s"
  then have "[0..<n] = [0..<s] @ s # [Suc s..<n]" by (metis le_add1 less_imp_add_positive upt_add_eq_append upt_conv_Cons zero_le less_imp_le_nat add_0)
  then show ?thesis using \<open>P s\<close> by (simp add: nth_append)
qed

lemma decode_huffman:
  assumes "tree_for ls t" "s < length ls" "ls ! s \<noteq> 0" "ls ! s < 16" "kraft ls" "bits_of d = huff_code ls s @ rest"
  shows "\<exists>d'. decode_symbol t d = Some (s, d') \<and> takes d (huff_code ls s) d'"
proof -
  let ?l = "ls ! s" and ?c = "first_code (code_count ls) (ls ! s) + rank_of ls s"
  have r: "syms_of ls ?l ! rank_of ls s = s" "rank_of ls s < code_count ls ?l"
    using nth_filter_rank [of s "length ls" "\<lambda>i. ls ! i = ?l"] assms(2,3) by (simp_all add: syms_of_def rank_of_def code_count_def)
  have t: "trans_at t (int (start_of (code_count ls) ?l + rank_of ls s)) = Some s"
    using assms(1,4) r by (simp add: tree_for_def)
  have "?c < 2 ^ ?l" using code_fits [of ls ?l] r(2) assms(4,5) by linarith
  then have z: "?c div 2 ^ ?l = 0" by simp
  have "start_of (code_count ls) (Suc 0) = 0" "code_count ls 0 = 0" by (simp_all add: start_of_def code_count_def)
  with decode_code [of t "code_count ls" ?l "rank_of ls s" ?c s 0 d rest] t r assms z show ?thesis
    by (simp add: decode_symbol_def huff_code_def tree_for_def)
qed

text \<open>C30: reading a symbol undoes its canonical Huffman code: with the tree that \<^verbatim>\<open>tinf_build_tree\<close> makes of code lengths that
  leave room for the codes, \<^verbatim>\<open>tinf_decode_symbol\<close> returns the symbol whose code stands first in the stream and has read
  that code and no further bit.\<close>

theorem huffman_round_trip:
  assumes "build_tree t0 ls = Some t" "length ls \<le> length (tr_trans t0)" "\<forall>l \<in> set ls. l < 16" "kraft ls"
    and "s < length ls" "ls ! s \<noteq> 0" "bits_of d = huff_code ls s @ rest"
  shows "\<exists>d'. decode_symbol t d = Some (s, d') \<and> bits_of d' = rest \<and> in_out d' = in_out d"
proof -
  have "tree_for ls t" using build_tree_sorts [OF assms(3,2)] assms(1) by auto
  with decode_huffman [of ls t s d rest] assms show ?thesis by (auto simp: takes_def)
qed

lemma huffman_round_trip_witness:
  "\<exists>t d'. build_tree no_tree [2, 1, 2] = Some t \<and> decode_symbol t (new_inflater [3] 0) = Some (2, d') \<and>
    bits_of d' = replicate 6 False \<and> in_out d' = in_out (new_inflater [3] 0)"
proof -
  have ls: "\<forall>l \<in> set [2, 1, 2 :: nat]. l < 16" "length [2, 1, 2 :: nat] \<le> length (tr_trans no_tree)" by (simp_all add: no_tree_def)
  from build_tree_sorts [OF ls] obtain t where t: "build_tree no_tree [2, 1, 2] = Some t" by auto
  have syms: "syms_of [2, 1, 2] l = (if l = 1 then [1] else if l = 2 then [0, 2] else [])" for l
    by (auto simp: syms_of_def upt_rec)
  have count: "code_count [2, 1, 2] l = (if l = 1 then 1 else if l = 2 then 2 else 0)" for l
    by (simp only: code_count_def syms) simp
  have k: "kraft [2, 1, 2]" unfolding kraft_def count by (simp add: lessThan_nat_numeral lessThan_Suc)
  have "first_code (code_count [2, 1, 2]) (Suc (Suc 0)) = 2" by (simp only: first_code.simps count) simp
  moreover have "rank_of [2, 1, 2] 2 = 1" "[2, 1, 2 :: nat] ! 2 = Suc (Suc 0)" by (simp_all add: rank_of_def upt_rec numeral_2_eq_2)
  ultimately have "huff_code [2, 1, 2] 2 = msb (Suc (Suc 0)) (2 + 1)" unfolding huff_code_def by (simp only:)
  then have code: "huff_code [2, 1, 2] 2 = [True, True]" by simp
  have "bits_of (new_inflater [3] 0) = huff_code [2, 1, 2] 2 @ replicate 6 False"
    unfolding code by (simp add: new_inflater_def bits_of_def byte_bits_def upt_rec eval_nat_numeral)
  then show ?thesis using huffman_round_trip [OF t ls(2,1) k, of 2 "new_inflater [3] 0" "replicate 6 False"] t by auto
qed

section \<open>Compressed blocks\<close>

text \<open>A block as a sequence of literals and of copies: \<open>n\<close> bytes from \<open>offs\<close> bytes before the end, which repeat when \<open>offs\<close> is
  smaller than \<open>n\<close>.\<close>

definition lz_copy :: "nat \<Rightarrow> nat \<Rightarrow> u8 list \<Rightarrow> u8 list" where
  "lz_copy n offs out = out @ map (\<lambda>i. out ! (length out - offs + i mod offs)) [0..<n]"

lemma copy_match_some:
  "\<lbrakk>0 < offs; offs \<le> length out; length out + m + n \<le> in_cap d; in_out d = lz_copy m offs out\<rbrakk> \<Longrightarrow>
    copy_match n offs d = Some (d\<lparr>in_out := lz_copy (m + n) offs out\<rparr>)"
proof (induction n arbitrary: d m)
  case (Suc n)
  let ?o = "lz_copy m offs out"
  have len: "length ?o = length out + m" by (simp add: lz_copy_def)
  have "?o ! (length ?o - offs) = out ! (length out - offs + m mod offs)"
  proof (cases "m < offs")
    case True
    then have "length ?o - offs = length out - offs + m" "length out - offs + m < length out" using Suc.prems(1,2) len by simp_all
    with True show ?thesis by (simp add: lz_copy_def nth_append)
  next
    case False
    then have "length ?o - offs = length out + (m - offs)" "m - offs < m" using len Suc.prems(1) by simp_all
    moreover have "(m - offs) mod offs = m mod offs" using False by (simp add: le_mod_geq)
    ultimately show ?thesis by (simp add: lz_copy_def)
  qed
  moreover have "lz_copy (Suc m) offs out = ?o @ [out ! (length out - offs + m mod offs)]" by (simp add: lz_copy_def)
  ultimately have p: "put_byte (in_out d ! (length (in_out d) - offs)) d = Some (d\<lparr>in_out := lz_copy (Suc m) offs out\<rparr>)"
    using Suc.prems len by (simp add: put_byte_def)
  have "copy_match n offs (d\<lparr>in_out := lz_copy (Suc m) offs out\<rparr>) = Some (d\<lparr>in_out := lz_copy (m + Suc n) offs out\<rparr>)"
    using Suc.IH [of "Suc m" "d\<lparr>in_out := lz_copy (Suc m) offs out\<rparr>"] Suc.prems by simp
  then show ?case using p Suc.prems len by simp
qed simp

datatype token = Lit u8 | Match nat "bool list" nat "bool list"

definition has_code :: "nat list \<Rightarrow> nat \<Rightarrow> bool" where
  "has_code ls s \<longleftrightarrow> s < length ls \<and> ls ! s \<noteq> 0 \<and> ls ! s < 16"

fun token_ok :: "tinf_globals \<Rightarrow> nat list \<Rightarrow> nat list \<Rightarrow> token \<Rightarrow> bool" where
  "token_ok g lls dls (Lit b) = has_code lls (unat b)"
| "token_ok g lls dls (Match s xs t ys) =
     (has_code lls (257 + s) \<and> s < length (tg_length_bits g) \<and> s < length (tg_length_base g) \<and> length xs = tg_length_bits g ! s \<and>
      has_code dls t \<and> t < length (tg_dist_bits g) \<and> t < length (tg_dist_base g) \<and> length ys = tg_dist_bits g ! t)"

fun token_bits :: "nat list \<Rightarrow> nat list \<Rightarrow> token \<Rightarrow> bool list" where
  "token_bits lls dls (Lit b) = huff_code lls (unat b)"
| "token_bits lls dls (Match s xs t ys) = huff_code lls (257 + s) @ xs @ huff_code dls t @ ys"

fun expand :: "tinf_globals \<Rightarrow> token \<Rightarrow> u8 list \<Rightarrow> u8 list option" where
  "expand g (Lit b) out = Some (out @ [b])"
| "expand g (Match s xs t ys) out =
     (let offs = tg_dist_base g ! t + lsb ys
      in if 0 < offs \<and> offs \<le> length out then Some (lz_copy (tg_length_base g ! s + lsb xs) offs out) else None)"

definition expand_all :: "tinf_globals \<Rightarrow> token list \<Rightarrow> u8 list \<Rightarrow> u8 list option" where
  "expand_all g ts out = foldm (\<lambda>ws t. expand g t ws) out ts"

definition block_bits :: "nat list \<Rightarrow> nat list \<Rightarrow> token list \<Rightarrow> bool list" where
  "block_bits lls dls ts = concat (map (token_bits lls dls) ts) @ huff_code lls 256"

text \<open>\<open>after d bs out d'\<close>: the bits \<open>bs\<close> have been read and the output is \<open>out\<close>.\<close>

definition after :: "inflater \<Rightarrow> bool list \<Rightarrow> u8 list \<Rightarrow> inflater \<Rightarrow> bool" where
  "after d bs out d' \<longleftrightarrow> bits_of d = bs @ bits_of d' \<and> in_out d' = out \<and> in_cap d' = in_cap d \<and> in_len d' = in_len d \<and>
     in_ltree d' = in_ltree d \<and> in_dtree d' = in_dtree d \<and> (in_count d < 8 \<longrightarrow> in_count d' < 8)"

lemma decode_after: "\<lbrakk>tree_for ls t; kraft ls; has_code ls s; bits_of d = huff_code ls s @ rest\<rbrakk> \<Longrightarrow>
    \<exists>d'. decode_symbol t d = Some (s, d') \<and> after d (huff_code ls s) (in_out d) d'"
  using decode_huffman [of ls t s d rest] by (auto simp: has_code_def takes_def after_def)

lemma read_bits_after: "bits_of d = bs @ rest \<Longrightarrow>
    \<exists>d'. read_bits (length bs) base d = Some (base + lsb bs, d') \<and> after d bs (in_out d) d'"
  using read_bits_some [of d bs rest base] by (auto simp: takes_def after_def)

lemma after_rest: "after d bs out d' \<Longrightarrow> bits_of d = bs @ rest \<Longrightarrow> bits_of d' = rest"
  by (simp add: after_def)

lemma block_step_token:
  assumes l: "tree_for lls lt" "kraft lls" and dd: "tree_for dls dt" "kraft dls"
    and tk: "token_ok g lls dls tk" "expand g tk (in_out d) = Some out" "length out \<le> in_cap d"
    and bits: "bits_of d = token_bits lls dls tk @ rest"
  shows "\<exists>d'. block_step g lt dt d = Some (False, d') \<and> after d (token_bits lls dls tk) out d'"
proof (cases tk)
  case (Lit b)
  then obtain d1 where d1: "decode_symbol lt d = Some (unat b, d1)" "after d (huff_code lls (unat b)) (in_out d) d1"
    using decode_after [OF l, of "unat b" d rest] tk bits by auto
  have out: "out = in_out d @ [b]" using tk Lit by simp
  have p: "put_byte b d1 = Some (d1\<lparr>in_out := out\<rparr>)" using d1(2) tk(3) out by (simp add: put_byte_def after_def)
  have "unat b < 256" by (rule unat_u8_less)
  then have "block_step g lt dt d = Some (False, d1\<lparr>in_out := out\<rparr>)" using d1(1) p by (simp add: block_step_def)
  moreover have "after d (token_bits lls dls tk) out (d1\<lparr>in_out := out\<rparr>)" using d1(2) Lit by (simp add: after_def bits_of_def)
  ultimately show ?thesis by blast
next
  case (Match s xs t ys)
  let ?len = "tg_length_base g ! s + lsb xs" and ?offs = "tg_dist_base g ! t + lsb ys"
  have ok: "has_code lls (257 + s)" "s < length (tg_length_bits g)" "s < length (tg_length_base g)" "length xs = tg_length_bits g ! s"
      "has_code dls t" "t < length (tg_dist_bits g)" "t < length (tg_dist_base g)" "length ys = tg_dist_bits g ! t"
    using tk(1) Match by simp_all
  have out: "0 < ?offs" "?offs \<le> length (in_out d)" "out = lz_copy ?len ?offs (in_out d)"
    using tk(2) Match by (auto simp: Let_def split: if_splits)
  have b0: "bits_of d = huff_code lls (257 + s) @ xs @ huff_code dls t @ ys @ rest" using bits Match by simp
  obtain d1 where d1: "decode_symbol lt d = Some (257 + s, d1)" "after d (huff_code lls (257 + s)) (in_out d) d1"
    using decode_after [OF l ok(1) b0] by blast
  obtain d2 where d2: "read_bits (tg_length_bits g ! s) (tg_length_base g ! s) d1 = Some (?len, d2)" "after d1 xs (in_out d1) d2"
    using read_bits_after [OF after_rest [OF d1(2) b0]] ok(4) by auto
  note b2 = after_rest [OF d2(2) after_rest [OF d1(2) b0]]
  obtain d3 where d3: "decode_symbol dt d2 = Some (t, d3)" "after d2 (huff_code dls t) (in_out d2) d3"
    using decode_after [OF dd ok(5) b2] by blast
  obtain d4 where d4: "read_bits (tg_dist_bits g ! t) (tg_dist_base g ! t) d3 = Some (?offs, d4)" "after d3 ys (in_out d3) d4"
    using read_bits_after [OF after_rest [OF d3(2) b2]] ok(8) by auto
  have a4: "after d (token_bits lls dls tk) (in_out d) d4"
    using d1(2) d2(2) d3(2) d4(2) Match by (simp add: after_def)
  have "length (in_out d) + ?len \<le> in_cap d" using tk(3) out(3) by (simp add: lz_copy_def)
  then have "copy_match ?len ?offs d4 = Some (d4\<lparr>in_out := out\<rparr>)"
    using copy_match_some [of ?offs "in_out d" 0 ?len d4] out a4 by (simp add: after_def lz_copy_def)
  then have "block_step g lt dt d = Some (False, d4\<lparr>in_out := out\<rparr>)"
    using d1(1) d2(1) d3(1) d4(1) ok by (simp add: block_step_def)
  moreover have "after d (token_bits lls dls tk) out (d4\<lparr>in_out := out\<rparr>)" using a4 by (simp add: after_def bits_of_def)
  ultimately show ?thesis by blast
qed

lemma expand_longer: "expand g tk out = Some out' \<Longrightarrow> length out \<le> length out'"
  by (cases tk) (auto simp: lz_copy_def Let_def split: if_splits)

lemma expand_all_longer: "expand_all g tks out = Some out' \<Longrightarrow> length out \<le> length out'"
  by (induction tks arbitrary: out) (force simp: expand_all_def bind_eq_Some_conv dest: expand_longer)+

lemma inflate_loop_tokens:
  assumes l: "tree_for lls lt" "kraft lls" and dd: "tree_for dls dt" "kraft dls" and eob: "has_code lls 256"
  shows "\<lbrakk>\<forall>tk \<in> set tks. token_ok g lls dls tk; expand_all g tks (in_out d) = Some out; length out \<le> in_cap d;
      bits_of d = block_bits lls dls tks @ rest\<rbrakk> \<Longrightarrow>
    \<exists>d'. inflate_loop g lt dt d = Some d' \<and> after d (block_bits lls dls tks) out d'"
proof (induction tks arbitrary: d)
  case Nil
  then have "bits_of d = huff_code lls 256 @ rest" by (simp add: block_bits_def)
  from decode_after [OF l eob this] obtain d1 where "decode_symbol lt d = Some (256, d1)" "after d (huff_code lls 256) (in_out d) d1" by blast
  with Nil show ?case by (subst inflate_loop.simps) (simp add: block_step_def block_bits_def expand_all_def)
next
  case (Cons tk tks)
  then obtain o1 where o1: "expand g tk (in_out d) = Some o1" "expand_all g tks o1 = Some out"
    by (auto simp: expand_all_def bind_eq_Some_conv)
  have b: "bits_of d = token_bits lls dls tk @ block_bits lls dls tks @ rest" using Cons.prems(4) by (simp add: block_bits_def)
  have "length o1 \<le> in_cap d" using expand_all_longer [OF o1(2)] Cons.prems(3) by simp
  with block_step_token [OF l dd _ o1(1) _ b] Cons.prems(1) obtain d1 where d1: "block_step g lt dt d = Some (False, d1)"
      "after d (token_bits lls dls tk) o1 d1" by auto
  have "\<exists>d'. inflate_loop g lt dt d1 = Some d' \<and> after d1 (block_bits lls dls tks) out d'"
    using Cons.prems d1(2) o1(2) after_rest [OF d1(2) b] by (intro Cons.IH) (simp_all add: after_def)
  then obtain d' where d': "inflate_loop g lt dt d1 = Some d'" "after d1 (block_bits lls dls tks) out d'" by blast
  have "inflate_loop g lt dt d = Some d'" using d1(1) d'(1) by (subst inflate_loop.simps) simp
  moreover have "after d (block_bits lls dls (tk # tks)) out d'" using d1(2) d'(2) by (simp add: after_def block_bits_def)
  ultimately show ?case by blast
qed

lemma inflate_block_correct:
  assumes "tree_for lls lt" "kraft lls" "tree_for dls dt" "kraft dls" "has_code lls 256"
    and "\<forall>tk \<in> set tks. token_ok g lls dls tk" "expand_all g tks (in_out d) = Some out" "length out \<le> in_cap d"
    and "bits_of d = block_bits lls dls tks @ rest"
  shows "\<exists>d'. inflate_block_data g lt dt d = Some (TINF_OK, d') \<and> in_out d' = out \<and> bits_of d' = rest \<and>
    in_len d' = in_len d + of_nat (length out - length (in_out d)) \<and> in_cap d' = in_cap d \<and>
    in_ltree d' = in_ltree d \<and> in_dtree d' = in_dtree d \<and> (in_count d < 8 \<longrightarrow> in_count d' < 8)"
proof -
  obtain d1 where "inflate_loop g lt dt d = Some d1" "after d (block_bits lls dls tks) out d1"
    using inflate_loop_tokens [OF assms(1-5), of tks g d out rest] assms(6-9) by blast
  with assms(9) show ?thesis by (auto simp: inflate_block_data_def after_def bits_of_def)
qed

section \<open>The fixed trees and the tables\<close>

definition fixed_lengths :: "nat list" where
  "fixed_lengths = replicate 144 8 @ replicate 112 9 @ replicate 24 7 @ replicate 8 8"

lemma upt_split: "i \<le> j \<Longrightarrow> j \<le> k \<Longrightarrow> [i..<k] = [i..<j] @ [j..<k]"
  using upt_add_eq_append [of i j "k - j"] by simp

lemma filter_upt_seg: "\<lbrakk>a \<le> b; b \<le> n; \<And>i. i < n \<Longrightarrow> P i \<longleftrightarrow> a \<le> i \<and> i < b\<rbrakk> \<Longrightarrow> filter P [0..<n] = [a..<b]"
proof -
  assume *: "a \<le> b" "b \<le> n" "\<And>i. i < n \<Longrightarrow> P i \<longleftrightarrow> a \<le> i \<and> i < b"
  have "[0..<n] = [0..<a] @ [a..<b] @ [b..<n]" using *(1,2) upt_split [of 0 a n] upt_split [of a b n] by simp
  moreover have "filter P [0..<a] = []" "filter P [a..<b] = [a..<b]" "filter P [b..<n] = []"
    using * by (auto simp: filter_empty_conv filter_id_conv)
  ultimately show ?thesis by simp
qed

lemma fixed_length_at: "i < 288 \<Longrightarrow> fixed_lengths ! i = (if i < 144 then 8 else if i < 256 then 9 else if i < 280 then 7 else 8)"
  by (auto simp: fixed_lengths_def nth_append)

lemma length_fixed: "length fixed_lengths = 288"
  by (simp add: fixed_lengths_def)

lemma fixed_syms: "syms_of fixed_lengths 7 = [256..<280]" "syms_of fixed_lengths 9 = [144..<256]"
    "syms_of fixed_lengths 8 = [0..<144] @ [280..<288]" "l \<noteq> 7 \<Longrightarrow> l \<noteq> 8 \<Longrightarrow> l \<noteq> 9 \<Longrightarrow> syms_of fixed_lengths l = []"
proof -
  show "syms_of fixed_lengths 7 = [256..<280]" "syms_of fixed_lengths 9 = [144..<256]"
    unfolding syms_of_def length_fixed by (rule filter_upt_seg; simp add: fixed_length_at)+
  have "[0..<288] = [0..<280] @ [280..<288]" by (rule upt_split) simp_all
  moreover have "filter (\<lambda>i. fixed_lengths ! i = 8) [0..<280] = [0..<144]" by (rule filter_upt_seg) (auto simp: fixed_length_at)
  moreover have "filter (\<lambda>i. fixed_lengths ! i = 8) [280..<288] = [280..<288]" by (auto simp: filter_id_conv fixed_length_at)
  ultimately show "syms_of fixed_lengths 8 = [0..<144] @ [280..<288]" unfolding syms_of_def length_fixed by (simp del: upt.simps)
  show "l \<noteq> 7 \<Longrightarrow> l \<noteq> 8 \<Longrightarrow> l \<noteq> 9 \<Longrightarrow> syms_of fixed_lengths l = []"
    unfolding syms_of_def length_fixed by (auto simp: filter_empty_conv fixed_length_at)
qed

lemma lessThan16: "{..<16 :: nat} = {0, 1, 2, 3, 4, 5, 6, 7, 8, 9, 10, 11, 12, 13, 14, 15}"
  by (simp add: lessThan_nat_numeral) auto

lemma map_Some_upt: "map (\<lambda>i. Some (a + i)) [0..<n] = map Some [a..<a + n]"
  by (simp add: list_eq_iff_nth_eq del: upt_rec_numeral)

lemma fixed_counts: "code_count fixed_lengths l = (if l = 7 then 24 else if l = 8 then 152 else if l = 9 then 112 else 0)"
proof -
  consider "l = 7" | "l = 8" | "l = 9" | "l \<noteq> 7 \<and> l \<noteq> 8 \<and> l \<noteq> 9" by blast
  then show ?thesis by cases (simp_all add: code_count_def fixed_syms)
qed

lemma fixed_kraft: "kraft fixed_lengths"
  by (simp add: kraft_def fixed_counts lessThan16)

lemma fixed_starts: "start_of (code_count fixed_lengths) 7 = 0" "start_of (code_count fixed_lengths) 8 = 24"
    "start_of (code_count fixed_lengths) 9 = 176"
  by (simp_all add: start_of_def fixed_counts lessThan_nat_numeral lessThan_Suc numeral_nat)

theorem fixed_tree_canonical: "tree_for fixed_lengths fixed_ltree"
proof -
  have tr: "tr_trans fixed_ltree = map Some ([256..<280] @ [0..<144] @ [280..<288] @ [144..<256])"
    unfolding fixed_ltree_def huff_tree.simps map_Some_upt by (simp del: upt_rec_numeral)
  have "tr_table fixed_ltree = map (code_count fixed_lengths) [0..<16]"
    by (simp add: list_eq_iff_nth_eq fixed_ltree_def fixed_counts nth_append nth_Cons split: nat.split) auto
  moreover have "trans_at fixed_ltree (int (start_of (code_count fixed_lengths) l + k)) = Some (syms_of fixed_lengths l ! k)"
    if "k < code_count fixed_lengths l" for l k
  proof -
    have "l = 7 \<or> l = 8 \<or> l = 9" using that by (auto simp: fixed_counts split: if_splits)
    then show ?thesis using that
      by (auto simp: trans_at_def tr nat_int_add fixed_starts fixed_syms fixed_counts nth_append simp flip: of_nat_add
          simp del: upt_rec_numeral)
  qed
  ultimately show ?thesis by (simp add: tree_for_def)
qed

end
