(* ===== verification/Deflate.thy ===== *)
theory Deflate
  imports InflateOk
begin

unbundle bit_operations_syntax

text \<open>
  The format of RFC 1951 and RFC 1950 as a specification, and that \<^verbatim>\<open>Common/TInf.cpp\<close> implements it: \<open>header_gives\<close> says which
  code lengths the header of a dynamic block stands for, \<open>block_gives\<close> which bytes a block adds to those written so far,
  \<open>deflates\<close> what a sequence of blocks stands for; \<open>adler_sums\<close> is the checksum as the RFC defines it.  The theorems: what a
  stream stands for is what \<open>uncompress\<close> writes; \<open>zlib_uncompress\<close> accepts it with the right checksum and no other;
  the checksum that reduces its sums only every 5552 bytes is the RFC's; a stored block longer than the buffer is
  written past its end.
\<close>

section \<open>Stored blocks\<close>

lemma byte_bits_inj: "byte_bits a = byte_bits b \<Longrightarrow> a = b"
  by (rule bit_word_eqI) (auto simp: byte_bits_def map_eq_conv)

lemma length_byte_bits [simp]: "length (byte_bits b) = 8"
  by (simp add: byte_bits_def)

lemma bytes_split: "concat (map byte_bits xs) = concat (map byte_bits ys) @ zs \<Longrightarrow>
    \<exists>ws. xs = ys @ ws \<and> zs = concat (map byte_bits ws)"
proof (induction ys arbitrary: xs)
  case (Cons y ys)
  then obtain x xs' where x: "xs = x # xs'" by (cases xs) (auto dest: arg_cong [where f = length])
  with Cons.prems have "byte_bits x @ concat (map byte_bits xs') = byte_bits y @ concat (map byte_bits ys) @ zs" by simp
  then have "byte_bits x = byte_bits y" "concat (map byte_bits xs') = concat (map byte_bits ys) @ zs" by simp_all
  with Cons.IH x byte_bits_inj show ?case by fastforce
qed simp

lemma copy_bytes_some:
  "\<lbrakk>in_src d = bs @ rest; length (in_out d) + length bs \<le> in_cap d\<rbrakk> \<Longrightarrow>
    copy_bytes (length bs) d = Some (d\<lparr>in_src := rest, in_out := in_out d @ bs\<rparr>)"
proof (induction bs arbitrary: d)
  case (Cons b bs)
  let ?d = "d\<lparr>in_src := bs @ rest, in_out := in_out d @ [b]\<rparr>"
  have "put_byte b (d\<lparr>in_src := bs @ rest\<rparr>) = Some ?d" using Cons.prems by (simp add: put_byte_def)
  moreover have "copy_bytes (length bs) ?d = Some (?d\<lparr>in_src := rest, in_out := in_out ?d @ bs\<rparr>)"
    using Cons.prems by (intro Cons.IH) simp_all
  ultimately show ?case using Cons.prems by simp
qed simp

lemma copy_bytes_none: "in_cap d < length (in_out d) + n \<Longrightarrow> length (in_out d) \<le> in_cap d \<Longrightarrow> copy_bytes n d = None"
proof (induction n arbitrary: d)
  case (Suc n)
  show ?case
  proof (cases "in_src d")
    case (Cons b bs)
    have "copy_bytes n d1 = None" if "put_byte b (d\<lparr>in_src := bs\<rparr>) = Some d1" for d1
      using that Suc.prems by (intro Suc.IH) (auto simp: put_byte_def split: if_splits)
    with Cons show ?thesis by (auto split: option.splits)
  qed simp
qed simp

definition stored_bytes :: "u8 list \<Rightarrow> u8 list" where
  "stored_bytes data = (let n = length data
     in of_nat (n mod 256) # of_nat (n div 256) # of_nat (255 - n mod 256) # of_nat (255 - n div 256) # data)"

lemma two_bytes: "a < 256 \<Longrightarrow> b < 256 \<Longrightarrow> 256 * ucast (of_nat a :: u8) + ucast (of_nat b :: u8) = (of_nat (256 * a + b) :: u32)"
proof -
  assume "a < 256" "b < 256"
  then have "ucast (of_nat a :: u8) = (of_nat a :: u32)" "ucast (of_nat b :: u8) = (of_nat b :: u32)"
    by (simp_all add: unsigned_of_nat take_bit_nat_eq_self)
  then show ?thesis by simp
qed

lemma not_low16: "n < 65536 \<Longrightarrow> NOT (of_nat (65535 - n)) AND 0xffff = (of_nat n :: u32)"
proof -
  assume n: "n < 65536"
  have m: "(0xffff :: u32) = mask 16" by (simp add: mask_eq_exp_minus_1)
  have "(of_nat (65535 - n) :: u32) = take_bit 16 (of_nat (65535 - n))"
    unfolding take_bit_of_nat using take_bit_nat_eq_self [of "65535 - n" 16] by simp
  then have "NOT (of_nat (65535 - n)) AND 0xffff = mask 16 - (of_nat (65535 - n) :: u32)"
    unfolding m using take_bit_not_eq_mask_diff [of 16 "of_nat (65535 - n) :: u32"] by (simp add: take_bit_eq_mask)
  also have "\<dots> = of_nat 65535 - of_nat (65535 - n)" by (simp only: m [symmetric]) simp
  also have "\<dots> = of_nat (65535 - (65535 - n))" by (rule of_nat_diff [symmetric]) simp
  finally show ?thesis using n by simp
qed

lemma aligned_source:
  assumes "in_count d < 8" "bits_of d = pad @ concat (map byte_bits bs) @ rest" "length pad < 8" "8 dvd length rest"
  shows "\<exists>ws. in_src d = bs @ ws \<and> rest = concat (map byte_bits ws)"
proof -
  have c: "unat (in_count d) < 8" using assms(1) by (simp add: word_less_nat_alt)
  have len: "length (concat (map byte_bits xs)) = 8 * length xs" for xs by (induction xs) simp_all
  have "unat (in_count d) + 8 * length (in_src d) = length pad + 8 * length bs + length rest"
    using arg_cong [OF assms(2), of length] by (simp add: length_bits_of len)
  moreover obtain k where "length rest = 8 * k" using assms(4) by (rule dvdE)
  ultimately have "unat (in_count d) + 8 * length (in_src d) = length pad + 8 * (length bs + k)" by simp
  then have "(unat (in_count d) + 8 * length (in_src d)) mod 8 = (length pad + 8 * (length bs + k)) mod 8" by (rule arg_cong)
  then have "unat (in_count d) = length pad" using c assms(3) by (simp only: mod_mult_self2 mod_less)
  with assms(2) have "concat (map byte_bits (in_src d)) = concat (map byte_bits bs) @ rest" by (simp add: bits_of_def)
  then show ?thesis by (rule bytes_split)
qed

lemma stored_block:
  assumes "length data < 65536" "in_count d < 8" "bits_of d = pad @ concat (map byte_bits (stored_bytes data)) @ rest"
    "length pad < 8" "8 dvd length rest"
  shows "length (in_out d) + length data \<le> in_cap d \<Longrightarrow>
      \<exists>d'. inflate_uncompressed_block d = Some (TINF_OK, d') \<and> bits_of d' = rest \<and> in_out d' = in_out d @ data \<and>
        in_cap d' = in_cap d \<and> in_len d' = in_len d + of_nat (length data) \<and>
        in_ltree d' = in_ltree d \<and> in_dtree d' = in_dtree d \<and> in_count d' < 8"
    and "length (in_out d) \<le> in_cap d \<Longrightarrow> in_cap d < length (in_out d) + length data \<Longrightarrow> inflate_uncompressed_block d = None"
proof -
  obtain ws where ws: "in_src d = stored_bytes data @ ws" "rest = concat (map byte_bits ws)"
    using aligned_source [OF assms(2-5)] by blast
  let ?n = "length data" and ?d = "d\<lparr>in_src := drop 4 (in_src d)\<rparr>"
  have q: "?n div 256 < 256" "?n mod 256 < 256" "?n = 256 * (?n div 256) + ?n mod 256" using assms(1) by auto
  have q': "255 - ?n div 256 < 256" "255 - ?n mod 256 < 256" "65535 - ?n = 256 * (255 - ?n div 256) + (255 - ?n mod 256)"
    using q by linarith+
  obtain b0 b1 b2 b3 where b: "in_src d = b0 # b1 # b2 # b3 # data @ ws" "256 * ucast b1 + ucast b0 = (of_nat ?n :: u32)"
      "256 * ucast b3 + ucast b2 = (of_nat (65535 - ?n) :: u32)"
    using two_bytes [OF q(1,2)] two_bytes [OF q'(1,2)] q(3) q'(3) ws(1) by (simp add: stored_bytes_def Let_def)
  have src: "in_src ?d = data @ ws" using b(1) by simp
  have n: "unat (of_nat ?n :: u32) = ?n" using assms(1) by (simp add: unsigned_of_nat take_bit_nat_eq_self)
  have unc: "inflate_uncompressed_block d = do { d1 \<leftarrow> copy_bytes ?n ?d; Some (TINF_OK, d1\<lparr>in_count := 0, in_len := in_len d1 + of_nat ?n\<rparr>) }"
    unfolding inflate_uncompressed_block_def b(1) using b(2,3) not_low16 [OF assms(1)] n by (simp add: Let_def)
  show "\<exists>d'. inflate_uncompressed_block d = Some (TINF_OK, d') \<and> bits_of d' = rest \<and> in_out d' = in_out d @ data \<and>
        in_cap d' = in_cap d \<and> in_len d' = in_len d + of_nat (length data) \<and>
        in_ltree d' = in_ltree d \<and> in_dtree d' = in_dtree d \<and> in_count d' < 8"
    if "length (in_out d) + length data \<le> in_cap d"
    using copy_bytes_some [OF src] that unfolding unc by (simp add: bits_of_def ws(2))
  show "inflate_uncompressed_block d = None" if "length (in_out d) \<le> in_cap d" "in_cap d < length (in_out d) + length data"
    using copy_bytes_none [of ?d ?n] that unfolding unc by simp
qed

section \<open>Dynamic trees\<close>

text \<open>The code lengths of a dynamic block: as they are, or repeated with the count in the bits that follow.\<close>

datatype clen = CLen nat | CPrev "bool list" | CZero "bool list" | CZeros "bool list"

fun clen_ok :: "nat list \<Rightarrow> clen \<Rightarrow> bool" where
  "clen_ok cls (CLen v) = (v < 16 \<and> has_code cls v)"
| "clen_ok cls (CPrev xs) = (length xs = 2 \<and> has_code cls 16)"
| "clen_ok cls (CZero xs) = (length xs = 3 \<and> has_code cls 17)"
| "clen_ok cls (CZeros xs) = (length xs = 7 \<and> has_code cls 18)"

fun clen_bits :: "nat list \<Rightarrow> clen \<Rightarrow> bool list" where
  "clen_bits cls (CLen v) = huff_code cls v"
| "clen_bits cls (CPrev xs) = huff_code cls 16 @ xs"
| "clen_bits cls (CZero xs) = huff_code cls 17 @ xs"
| "clen_bits cls (CZeros xs) = huff_code cls 18 @ xs"

fun clen_expand :: "nat list \<Rightarrow> clen \<Rightarrow> nat list option" where
  "clen_expand ls (CLen v) = Some (ls @ [v])"
| "clen_expand ls (CPrev xs) = (if ls = [] then None else Some (ls @ replicate (3 + lsb xs) (last ls)))"
| "clen_expand ls (CZero xs) = Some (ls @ replicate (3 + lsb xs) 0)"
| "clen_expand ls (CZeros xs) = Some (ls @ replicate (11 + lsb xs) 0)"

lemma lengths_step_clen:
  assumes t: "tree_for cls t" "kraft cls" and c: "clen_ok cls c" "clen_expand ls c = Some ls'" "length ls' \<le> 320"
    and bits: "bits_of d = clen_bits cls c @ rest"
  shows "\<exists>d'. lengths_step t ls d = Some (ls', d') \<and> takes d (clen_bits cls c) d'"
proof -
  have sym: "\<exists>d1 d2. decode_symbol t d = Some (s, d1) \<and> read_bits (length xs) base d1 = Some (base + lsb xs, d2) \<and> takes d (huff_code cls s @ xs) d2"
    if "has_code cls s" "bits_of d = huff_code cls s @ xs @ rest" for s xs base
  proof -
    from decode_huffman [OF t(1) _ _ _ t(2) that(2)] that(1) obtain d1 where d1: "decode_symbol t d = Some (s, d1)"
        "takes d (huff_code cls s) d1" by (auto simp: has_code_def)
    from d1(2) that(2) have "bits_of d1 = xs @ rest" by (simp add: takes_def)
    from read_bits_some [OF this, of base] takes_trans [OF d1(2)] d1(1) show ?thesis by blast
  qed
  show ?thesis
  proof (cases c)
    case (CLen v)
    with sym [of v "[]" 0] c bits obtain d1 where "decode_symbol t d = Some (v, d1)" "takes d (huff_code cls v) d1"
      by (auto simp: read_bits_def)
    with CLen c show ?thesis by (auto simp: lengths_step_def put_lengths_def)
  next
    case (CPrev xs)
    with sym [of 16 xs 3] c bits obtain d1 d2 where "decode_symbol t d = Some (16, d1)"
        "read_bits 2 3 d1 = Some (3 + lsb xs, d2)" "takes d (huff_code cls 16 @ xs) d2" by auto
    with CPrev c show ?thesis by (auto simp: lengths_step_def put_lengths_def split: if_splits)
  next
    case (CZero xs)
    with sym [of 17 xs 3] c bits obtain d1 d2 where "decode_symbol t d = Some (17, d1)"
        "read_bits 3 3 d1 = Some (3 + lsb xs, d2)" "takes d (huff_code cls 17 @ xs) d2" by auto
    with CZero c show ?thesis by (auto simp: lengths_step_def put_lengths_def)
  next
    case (CZeros xs)
    with sym [of 18 xs 11] c bits obtain d1 d2 where "decode_symbol t d = Some (18, d1)"
        "read_bits 7 11 d1 = Some (11 + lsb xs, d2)" "takes d (huff_code cls 18 @ xs) d2" by auto
    with CZeros c show ?thesis by (auto simp: lengths_step_def put_lengths_def)
  qed
qed

lemma clen_expand_longer: "clen_expand ls c = Some ls' \<Longrightarrow> length ls < length ls'"
  by (cases c) (auto split: if_splits)

lemma clens_longer: "foldm clen_expand ls cs = Some ls' \<Longrightarrow> length ls \<le> length ls'"
  by (induction cs arbitrary: ls) (force simp: bind_eq_Some_conv dest: clen_expand_longer)+

lemma read_lengths_clens:
  assumes t: "tree_for cls t" "kraft cls"
  shows "\<lbrakk>\<forall>c \<in> set cs. clen_ok cls c; foldm clen_expand ls cs = Some ls'; length ls' = n; n \<le> 320;
      bits_of d = concat (map (clen_bits cls) cs) @ rest\<rbrakk> \<Longrightarrow>
    \<exists>d'. read_lengths t n ls d = Some (ls', d') \<and> takes d (concat (map (clen_bits cls) cs)) d'"
proof (induction cs arbitrary: ls d)
  case Nil
  then show ?case by (subst read_lengths.simps) (simp add: takes_refl)
next
  case (Cons c cs)
  then obtain l1 where l1: "clen_expand ls c = Some l1" "foldm clen_expand l1 cs = Some ls'" by (auto simp: bind_eq_Some_conv)
  have "length ls < length l1" "length l1 \<le> n" using clen_expand_longer [OF l1(1)] clens_longer [OF l1(2)] Cons.prems(3) by simp_all
  moreover from this obtain d1 where d1: "lengths_step t ls d = Some (l1, d1)" "takes d (clen_bits cls c) d1"
    using lengths_step_clen [OF t _ l1(1), of d "concat (map (clen_bits cls) cs) @ rest"] Cons.prems by auto
  moreover from d1(2) Cons.prems(5) have "bits_of d1 = concat (map (clen_bits cls) cs) @ rest" by (simp add: takes_def)
  ultimately obtain d' where "read_lengths t n l1 d1 = Some (ls', d')" "takes d1 (concat (map (clen_bits cls) cs)) d'"
    using Cons.IH [of l1 d1] Cons.prems l1(2) by auto
  with d1 \<open>length ls < length l1\<close> \<open>length l1 \<le> n\<close> takes_trans [OF d1(2)] show ?case
    by (subst read_lengths.simps) auto
qed

text \<open>The lengths of the codes of the code lengths, three bits each, in the order of \<^verbatim>\<open>clcidx\<close>.\<close>

definition clc_lengths :: "bool list list \<Rightarrow> nat list" where
  "clc_lengths cl = foldl (\<lambda>ls (i, bs). ls[i := lsb bs]) (replicate 19 0) (zip clcidx cl)"

lemma lsb_less: "lsb bs < 2 ^ length bs"
  by (induction bs) auto

lemma read_clens_some:
  "\<lbrakk>length js = length cl; \<forall>j \<in> set js. j < length ls; \<forall>bs \<in> set cl. length bs = 3; bits_of d = concat cl @ rest\<rbrakk> \<Longrightarrow>
    \<exists>d'. read_clens js ls d = Some (foldl (\<lambda>ls (i, bs). ls[i := lsb bs]) ls (zip js cl), d') \<and> takes d (concat cl) d'"
proof (induction js cl arbitrary: ls d rule: list_induct2')
  case (4 j js bs cl)
  then obtain d1 where d1: "read_bits 3 0 d = Some (lsb bs, d1)" "takes d bs d1" using read_bits_some [of d bs "concat cl @ rest" 0] by auto
  with 4 have "bits_of d1 = concat cl @ rest" by (simp add: takes_def)
  with 4 obtain d' where "read_clens js (ls[j := lsb bs]) d1 = Some (foldl (\<lambda>ls (i, bs). ls[i := lsb bs]) (ls[j := lsb bs]) (zip js cl), d')"
      "takes d1 (concat cl) d'" by (metis (no_types, lifting) length_Cons length_list_update list.set_intros(2) nat.inject)
  with d1 4 takes_trans [OF d1(2)] show ?case by auto
qed (auto simp: takes_refl)

lemma clc_lengths_small: "\<forall>bs \<in> set cl. length bs = 3 \<Longrightarrow> length (clc_lengths cl) = 19 \<and> (\<forall>l \<in> set (clc_lengths cl). l < 16)"
proof -
  assume cl: "\<forall>bs \<in> set cl. length bs = 3"
  have small: "length (foldl (\<lambda>ls (i, bs). ls[i := lsb bs]) ls ps) = length ls \<and>
      (\<forall>l \<in> set (foldl (\<lambda>ls (i, bs). ls[i := lsb bs]) ls ps). l < (16::nat))"
    if "\<forall>l \<in> set ls. l < 16" "\<forall>p \<in> set ps. length (snd p) = 3" for ls and ps :: "(nat \<times> bool list) list"
    using that
  proof (induction ps arbitrary: ls)
    case (Cons p ps)
    obtain i bs where p: "p = (i, bs)" by (cases p)
    with Cons.prems have "lsb bs < 16" using lsb_less [of bs] by simp
    then have "\<forall>l \<in> set (ls[i := lsb bs]). l < 16" using Cons.prems by (auto dest!: set_update_subset_insert [THEN subsetD])
    with Cons p show ?case by simp
  qed simp
  have "\<forall>p \<in> set (zip clcidx cl). length (snd p) = 3" using cl by (auto dest: set_zip_rightD)
  from small [OF _ this, of "replicate 19 0"] show ?thesis by (simp add: clc_lengths_def)
qed

definition dynamic_header :: "bool list \<Rightarrow> bool list \<Rightarrow> bool list \<Rightarrow> bool list list \<Rightarrow> clen list \<Rightarrow> bool list" where
  "dynamic_header hli hdi hcl cl cs = hli @ hdi @ hcl @ concat cl @ concat (map (clen_bits (clc_lengths cl)) cs)"

text \<open>The header is well formed, and its lengths are \<open>lls\<close> for the literals and \<open>dls\<close> for the distances.\<close>

definition header_gives ::
    "bool list \<Rightarrow> bool list \<Rightarrow> bool list \<Rightarrow> bool list list \<Rightarrow> clen list \<Rightarrow> nat list \<Rightarrow> nat list \<Rightarrow> bool" where
  "header_gives hli hdi hcl cl cs lls dls \<longleftrightarrow>
     length hli = 5 \<and> length hdi = 5 \<and> length hcl = 4 \<and> length cl = 4 + lsb hcl \<and> length cl \<le> 19 \<and> (\<forall>bs \<in> set cl. length bs = 3) \<and>
     kraft (clc_lengths cl) \<and> (\<forall>c \<in> set cs. clen_ok (clc_lengths cl) c) \<and> foldm clen_expand [] cs = Some (lls @ dls) \<and>
     length lls = 257 + lsb hli \<and> length dls = 1 + lsb hdi"

lemma clen_small: "clen_expand ls c = Some ls' \<Longrightarrow> clen_ok cls c \<Longrightarrow> \<forall>l \<in> set ls. l < 16 \<Longrightarrow> \<forall>l \<in> set ls'. l < 16"
  by (cases c) (auto split: if_splits)

lemma clens_small: "foldm clen_expand ls cs = Some ls' \<Longrightarrow> \<forall>c \<in> set cs. clen_ok cls c \<Longrightarrow> \<forall>l \<in> set ls. l < 16 \<Longrightarrow> \<forall>l \<in> set ls'. l < 16"
proof (induction cs arbitrary: ls)
  case (Cons c cs)
  then obtain l1 where l1: "clen_expand ls c = Some l1" "foldm clen_expand l1 cs = Some ls'" by (auto simp: bind_eq_Some_conv)
  have "\<forall>l \<in> set l1. l < 16" using Cons.prems(2,3) by (intro clen_small [OF l1(1), of cls]) simp_all
  with Cons.IH [OF l1(2)] Cons.prems(2) show ?case by simp
qed simp

lemma decode_trees_correct:
  assumes h: "header_gives hli hdi hcl cl cs lls dls" and bits: "bits_of d = dynamic_header hli hdi hcl cl cs @ rest"
    and trees: "length (tr_trans (in_ltree d)) = 288" "length (tr_trans (in_dtree d)) = 288"
  shows "\<exists>d'. decode_trees d = Some d' \<and> tree_for lls (in_ltree d') \<and> tree_for dls (in_dtree d') \<and> bits_of d' = rest \<and>
    in_out d' = in_out d \<and> in_cap d' = in_cap d \<and> in_len d' = in_len d \<and> (in_count d < 8 \<longrightarrow> in_count d' < 8) \<and>
    length (tr_trans (in_ltree d')) = 288 \<and> length (tr_trans (in_dtree d')) = 288"
proof -
  let ?cls = "clc_lengths cl"
  have len: "length hli = 5" "length hdi = 5" "length hcl = 4" "length cl = 4 + lsb hcl" "length cl \<le> 19" "\<forall>bs \<in> set cl. length bs = 3"
      "kraft ?cls" "\<forall>c \<in> set cs. clen_ok ?cls c" "foldm clen_expand [] cs = Some (lls @ dls)" "length lls = 257 + lsb hli" "length dls = 1 + lsb hdi"
    using h by (simp_all add: header_gives_def)
  have b0: "bits_of d = hli @ hdi @ hcl @ concat cl @ concat (map (clen_bits ?cls) cs) @ rest" using bits by (simp add: dynamic_header_def)
  obtain d1 where d1: "read_bits 5 257 d = Some (257 + lsb hli, d1)" "takes d hli d1" using read_bits_some [OF b0, of 257] len(1) by auto
  then have b1: "bits_of d1 = hdi @ hcl @ concat cl @ concat (map (clen_bits ?cls) cs) @ rest" using b0 by (simp add: takes_def)
  obtain d2 where d2: "read_bits 5 1 d1 = Some (1 + lsb hdi, d2)" "takes d1 hdi d2" using read_bits_some [OF b1, of 1] len(2) by auto
  then have b2: "bits_of d2 = hcl @ concat cl @ concat (map (clen_bits ?cls) cs) @ rest" using b1 by (simp add: takes_def)
  obtain d3 where d3: "read_bits 4 4 d2 = Some (4 + lsb hcl, d3)" "takes d2 hcl d3" using read_bits_some [OF b2, of 4] len(3) by auto
  then have b3: "bits_of d3 = concat cl @ concat (map (clen_bits ?cls) cs) @ rest" using b2 by (simp add: takes_def)
  have "foldl (\<lambda>ls (i, bs). ls[i := lsb bs]) (replicate 19 0) (zip (take (4 + lsb hcl) clcidx) cl) = ?cls"
    using len(4) take_zip [of "length cl" clcidx cl] by (simp add: clc_lengths_def)
  moreover have "length (take (4 + lsb hcl) clcidx) = length cl" "\<forall>j \<in> set (take (4 + lsb hcl) clcidx). j < 19"
    using len(4,5) by (auto simp: clcidx_def dest!: in_set_takeD)
  ultimately obtain d4 where d4: "read_clens (take (4 + lsb hcl) clcidx) (replicate 19 0) d3 = Some (?cls, d4)" "takes d3 (concat cl) d4"
    using read_clens_some [OF _ _ len(6) b3, of "take (4 + lsb hcl) clcidx" "replicate 19 0"] by auto
  then have b4: "bits_of d4 = concat (map (clen_bits ?cls) cs) @ rest" using b3 by (simp add: takes_def)
  obtain ct where ct: "build_tree no_tree ?cls = Some ct" "tree_for ?cls ct"
    using build_tree_sorts [of ?cls no_tree] clc_lengths_small [OF len(6)] by (auto simp: no_tree_def)
  have n: "length (lls @ dls) = 257 + lsb hli + (1 + lsb hdi)" "length (lls @ dls) \<le> 320"
    using len(1,2,10,11) lsb_less [of hli] lsb_less [of hdi] by simp_all
  obtain d5 where d5: "read_lengths ct (257 + lsb hli + (1 + lsb hdi)) [] d4 = Some (lls @ dls, d5)" "takes d4 (concat (map (clen_bits ?cls) cs)) d5"
    using read_lengths_clens [OF ct(2) len(7,8,9) n(1) _ b4] n by auto
  have small: "\<forall>l \<in> set (lls @ dls). l < 16" using clens_small [OF len(9,8)] by simp
  have same: "in_ltree d5 = in_ltree d" "in_dtree d5 = in_dtree d"
    using d1(2) d2(2) d3(2) d4(2) d5(2) by (simp_all add: takes_def)
  obtain lt dt where t: "build_tree (in_ltree d5) lls = Some lt" "tree_for lls lt" "length (tr_trans lt) = 288"
      "build_tree (in_dtree d5) dls = Some dt" "tree_for dls dt" "length (tr_trans dt) = 288"
    using build_tree_sorts [of lls "in_ltree d5"] build_tree_sorts [of dls "in_dtree d5"] small trees same len(1,2,10,11)
      lsb_less [of hli] lsb_less [of hdi] by auto
  have tk: "take (257 + lsb hli) (lls @ dls) = lls" "take (1 + lsb hdi) (drop (257 + lsb hli) (lls @ dls)) = dls"
    using len(10,11) by simp_all
  have "decode_trees d = Some (d5\<lparr>in_ltree := lt, in_dtree := dt\<rparr>)"
    unfolding decode_trees_def d1(1) d2(1) d3(1) d4(1) d5(1) ct(1) Option.bind.bind_lunit prod.case tk t(1,4) ..
  moreover have "bits_of (d5\<lparr>in_ltree := lt, in_dtree := dt\<rparr>) = rest" using d5(2) b4 by (simp add: takes_def bits_of_def)
  ultimately show ?thesis using t d1(2) d2(2) d3(2) d4(2) d5(2) by (auto simp: takes_def)
qed

section \<open>Whole streams\<close>

text \<open>The format of RFC 1951 as a relation: \<open>deflates g out bits out' rest\<close> says that \<open>bits\<close> start with blocks that
  continue the output \<open>out\<close> to \<open>out'\<close>, and leave \<open>rest\<close>.\<close>

definition fixed_dlengths :: "nat list" where
  "fixed_dlengths = replicate 32 5"

inductive block_gives :: "tinf_globals \<Rightarrow> u8 list \<Rightarrow> bool list \<Rightarrow> u8 list \<Rightarrow> bool list \<Rightarrow> bool" for g where
  stored: "\<lbrakk>length data < 65536; length pad < 8; 8 dvd length rest\<rbrakk> \<Longrightarrow>
    block_gives g out ([False, False] @ pad @ concat (map byte_bits (stored_bytes data)) @ rest) (out @ data) rest"
| fixed: "\<lbrakk>\<forall>tk \<in> set tks. token_ok g fixed_lengths fixed_dlengths tk; expand_all g tks out = Some out'\<rbrakk> \<Longrightarrow>
    block_gives g out ([True, False] @ block_bits fixed_lengths fixed_dlengths tks @ rest) out' rest"
| dynamic: "\<lbrakk>header_gives hli hdi hcl cl cs lls dls; kraft lls; kraft dls; has_code lls 256;
      \<forall>tk \<in> set tks. token_ok g lls dls tk; expand_all g tks out = Some out'\<rbrakk> \<Longrightarrow>
    block_gives g out ([False, True] @ dynamic_header hli hdi hcl cl cs @ block_bits lls dls tks @ rest) out' rest"

inductive deflates :: "tinf_globals \<Rightarrow> u8 list \<Rightarrow> bool list \<Rightarrow> u8 list \<Rightarrow> bool list \<Rightarrow> bool" for g where
  last_block: "block_gives g out bits out' rest \<Longrightarrow> deflates g out (True # bits) out' rest"
| more_blocks: "\<lbrakk>block_gives g out bits out1 bits1; deflates g out1 bits1 out' rest\<rbrakk> \<Longrightarrow> deflates g out (False # bits) out' rest"

text \<open>What holds of the state between two blocks.\<close>

definition between :: "inflater \<Rightarrow> bool" where
  "between d \<longleftrightarrow> in_count d < 8 \<and> length (tr_trans (in_ltree d)) = 288 \<and> length (tr_trans (in_dtree d)) = 288 \<and>
     in_len d = of_nat (length (in_out d))"

lemma fixed_dsyms: "syms_of fixed_dlengths l = (if l = 5 then [0..<32] else [])"
proof (cases "l = 5")
  case True
  have "filter (\<lambda>i. fixed_dlengths ! i = l) [0..<32] = [0..<32]"
    using True by (auto simp: filter_id_conv fixed_dlengths_def simp del: upt_rec_numeral)
  then show ?thesis using True by (simp add: syms_of_def fixed_dlengths_def del: upt_rec_numeral)
next
  case False
  then show ?thesis by (auto simp: syms_of_def fixed_dlengths_def filter_empty_conv)
qed

lemma fixed_dcounts: "code_count fixed_dlengths l = (if l = 5 then 32 else 0)"
  by (simp add: code_count_def fixed_dsyms)

lemma fixed_dtree_canonical: "tree_for fixed_dlengths fixed_dtree"
proof -
  have "tr_table fixed_dtree = map (code_count fixed_dlengths) [0..<16]"
    by (simp add: list_eq_iff_nth_eq fixed_dtree_def fixed_dcounts nth_append nth_Cons split: nat.split)
  moreover have "start_of (code_count fixed_dlengths) 5 = 0" by (simp add: start_of_def fixed_dcounts)
  ultimately show ?thesis
    by (auto simp: tree_for_def fixed_dcounts fixed_dsyms trans_at_def fixed_dtree_def nth_append simp del: upt_rec_numeral)
qed

lemma fixed_dkraft: "kraft fixed_dlengths"
  by (simp add: kraft_def fixed_dcounts lessThan16)

lemma init_trees: "tg_sltree tinf_init = fixed_ltree" "tg_sdtree tinf_init = fixed_dtree"
  by (simp_all add: tinf_init_def Let_def split: prod.split)

lemma has_eob: "has_code fixed_lengths 256"
  by (simp add: has_code_def fixed_length_at length_fixed)

lemma len_grows: "length out \<le> length (out' :: u8 list) \<Longrightarrow> (of_nat (length out) + of_nat (length out' - length out) :: u32) = of_nat (length out')"
  by simp

lemma block_gives_longer: "block_gives g out bits out' rest \<Longrightarrow> length out \<le> length out'"
  by (induction rule: block_gives.induct) (auto dest: expand_all_longer)

lemma deflates_longer: "deflates g out bits out' rest \<Longrightarrow> length out \<le> length out'"
  by (induction rule: deflates.induct) (auto dest: block_gives_longer)

lemma one_block_gives:
  assumes "block_gives tinf_init (in_out d) bits out' rest" "bits_of d = fin # bits" "between d" "length out' \<le> in_cap d"
  shows "\<exists>d'. one_block tinf_init d = Some (fin, TINF_OK, d') \<and> bits_of d' = rest \<and> in_out d' = out' \<and> in_cap d' = in_cap d \<and> between d'"
proof -
  let ?g = tinf_init
  obtain d1 where d1: "getbit d = Some (fin, d1)" "takes d [fin] d1" using getbit_some [OF assms(2)] by blast
  then have b1: "bits_of d1 = bits" using assms(2) by (simp add: takes_def)
  have two: "\<exists>d2. read_bits 2 0 d1 = Some (lsb ty, d2) \<and> takes d ([fin] @ ty) d2 \<and> bits_of d2 = more"
    if "bits = ty @ more" "length ty = 2" for ty more
  proof -
    from read_bits_some [of d1 ty more 0] b1 that obtain d2 where "read_bits 2 0 d1 = Some (lsb ty, d2)" "takes d1 ty d2" by auto
    moreover from this b1 that(1) have "bits_of d2 = more" by (simp add: takes_def)
    ultimately show ?thesis using takes_trans [OF d1(2)] by blast
  qed
  have d2_state: "between d2 \<and> in_out d2 = in_out d \<and> in_cap d2 = in_cap d \<and> in_len d2 = of_nat (length (in_out d))"
    if "takes d bs d2" for bs d2 using that assms(3) by (simp add: takes_def between_def)
  show ?thesis using assms(1)
  proof (cases rule: block_gives.cases)
    case (stored data pad)
    obtain d2 where d2: "read_bits 2 0 d1 = Some (0, d2)" "takes d [fin, False, False] d2"
        "bits_of d2 = pad @ concat (map byte_bits (stored_bytes data)) @ rest"
      using two [of "[False, False]" "pad @ concat (map byte_bits (stored_bytes data)) @ rest"] stored by auto
    note st = d2_state [OF d2(2)]
    have "in_count d2 < 8" using st by (simp add: between_def)
    from stored_block(1) [OF stored(3) this d2(3) stored(4,5)] obtain d' where d': "inflate_uncompressed_block d2 = Some (TINF_OK, d')"
        "bits_of d' = rest" "in_out d' = in_out d2 @ data" "in_cap d' = in_cap d2" "in_len d' = in_len d2 + of_nat (length data)"
        "in_ltree d' = in_ltree d2" "in_dtree d' = in_dtree d2" "in_count d' < 8"
      using st stored(2) assms(4) by auto
    have "one_block ?g d = Some (fin, TINF_OK, d')" using d1(1) d2(1) d'(1) by (simp add: one_block_def)
    moreover have "between d'" using d' st by (simp add: between_def)
    ultimately show ?thesis using d' st stored(2) by auto
  next
    case (fixed tks)
    obtain d2 where d2: "read_bits 2 0 d1 = Some (1, d2)" "takes d [fin, True, False] d2"
        "bits_of d2 = block_bits fixed_lengths fixed_dlengths tks @ rest"
      using two [of "[True, False]" "block_bits fixed_lengths fixed_dlengths tks @ rest"] fixed by auto
    note st = d2_state [OF d2(2)]
    obtain d' where d': "inflate_block_data ?g fixed_ltree fixed_dtree d2 = Some (TINF_OK, d')" "in_out d' = out'" "bits_of d' = rest"
        "in_len d' = in_len d2 + of_nat (length out' - length (in_out d2))" "in_cap d' = in_cap d2"
        "in_ltree d' = in_ltree d2" "in_dtree d' = in_dtree d2" "in_count d2 < 8 \<longrightarrow> in_count d' < 8"
      using inflate_block_correct [OF fixed_tree_canonical fixed_kraft fixed_dtree_canonical fixed_dkraft has_eob fixed(2) _ _ d2(3), of out']
        fixed(3) st assms(4) by auto
    have "one_block ?g d = Some (fin, TINF_OK, d')" using d1(1) d2(1) d'(1) by (simp add: one_block_def init_trees)
    moreover have "between d'" using d' st len_grows [OF expand_all_longer [OF fixed(3)]] by (simp add: between_def)
    ultimately show ?thesis using d' st by auto
  next
    case (dynamic hli hdi hcl cl cs lls dls tks)
    obtain d2 where d2: "read_bits 2 0 d1 = Some (2, d2)" "takes d [fin, False, True] d2"
        "bits_of d2 = dynamic_header hli hdi hcl cl cs @ block_bits lls dls tks @ rest"
      using two [of "[False, True]" "dynamic_header hli hdi hcl cl cs @ block_bits lls dls tks @ rest"] dynamic by auto
    note st = d2_state [OF d2(2)]
    obtain d3 where d3: "decode_trees d2 = Some d3" "tree_for lls (in_ltree d3)" "tree_for dls (in_dtree d3)"
        "bits_of d3 = block_bits lls dls tks @ rest" "in_out d3 = in_out d2" "in_cap d3 = in_cap d2" "in_len d3 = in_len d2"
        "in_count d2 < 8 \<longrightarrow> in_count d3 < 8" "length (tr_trans (in_ltree d3)) = 288" "length (tr_trans (in_dtree d3)) = 288"
      using decode_trees_correct [OF dynamic(2) d2(3)] st by (auto simp: between_def)
    obtain d' where d': "inflate_block_data ?g (in_ltree d3) (in_dtree d3) d3 = Some (TINF_OK, d')" "in_out d' = out'" "bits_of d' = rest"
        "in_len d' = in_len d3 + of_nat (length out' - length (in_out d3))" "in_cap d' = in_cap d3"
        "in_ltree d' = in_ltree d3" "in_dtree d' = in_dtree d3" "in_count d3 < 8 \<longrightarrow> in_count d' < 8"
      using inflate_block_correct [OF d3(2) dynamic(3) d3(3) dynamic(4,5,6) _ _ d3(4), of out'] dynamic(7) st d3(5,6) assms(4) by auto
    have "one_block ?g d = Some (fin, TINF_OK, d')" using d1(1) d2(1) d3(1) d'(1) by (simp add: one_block_def inflate_dynamic_block_def)
    moreover have "between d'" using d' d3 st len_grows [OF expand_all_longer [OF dynamic(7)]] by (simp add: between_def)
    ultimately show ?thesis using d' d3 st by auto
  qed
qed

lemma block_loop_deflates:
  "deflates tinf_init out bits out' rest \<Longrightarrow> bits_of d = bits \<Longrightarrow> in_out d = out \<Longrightarrow> between d \<Longrightarrow> length out' \<le> in_cap d \<Longrightarrow>
    \<exists>d'. block_loop tinf_init d = Some (TINF_OK, d') \<and> bits_of d' = rest \<and> in_out d' = out' \<and> between d'"
proof (induction arbitrary: d rule: deflates.induct)
  case (last_block out bits out' rest)
  then obtain d' where "one_block tinf_init d = Some (True, TINF_OK, d')" "bits_of d' = rest" "in_out d' = out'" "between d'"
    using one_block_gives [of d bits out' rest True] by auto
  then show ?case by (subst block_loop.simps) simp
next
  case (more_blocks out bits out1 bits1 out' rest)
  have "length out1 \<le> in_cap d" using deflates_longer [OF more_blocks.hyps(2)] more_blocks.prems(4) by simp
  then obtain d1 where d1: "one_block tinf_init d = Some (False, TINF_OK, d1)" "bits_of d1 = bits1" "in_out d1 = out1"
      "in_cap d1 = in_cap d" "between d1"
    using one_block_gives [of d bits out1 bits1 False] more_blocks by auto
  then obtain d' where "block_loop tinf_init d1 = Some (TINF_OK, d')" "bits_of d' = rest" "in_out d' = out'" "between d'"
    using more_blocks.IH [of d1] more_blocks.prems by auto
  with d1(1) show ?case by (subst block_loop.simps) simp
qed

lemma uncompress_deflates:
  assumes "deflates tinf_init [] (concat (map byte_bits src)) out rest" "length out \<le> cap"
  shows "\<exists>d. uncompress tinf_init src cap = Some (TINF_OK, d) \<and> in_out d = out \<and> in_len d = of_nat (length out) \<and> bits_of d = rest"
proof -
  have "bits_of (new_inflater src cap) = concat (map byte_bits src)" by (simp add: new_inflater_def bits_of_def)
  moreover have "between (new_inflater src cap)" by (simp add: new_inflater_def between_def no_tree_def)
  ultimately show ?thesis using block_loop_deflates [OF assms(1), of "new_inflater src cap"] assms(2)
    by (auto simp: uncompress_def between_def new_inflater_def)
qed

section \<open>Adler-32 and the zlib wrapper\<close>

text \<open>The definition of Adler-32 in RFC 1950.\<close>

fun adler_sums :: "u8 list \<Rightarrow> nat \<Rightarrow> nat \<Rightarrow> nat \<times> nat" where
  "adler_sums [] a b = (a, b)"
| "adler_sums (x # xs) a b = (let a' = (a + unat x) mod 65521 in adler_sums xs a' ((b + a') mod 65521))"

fun plain_sums :: "u8 list \<Rightarrow> nat \<Rightarrow> nat \<Rightarrow> nat \<times> nat" where
  "plain_sums [] a b = (a, b)"
| "plain_sums (x # xs) a b = plain_sums xs (a + unat x) (b + (a + unat x))"

lemma sixteens: "adler_sixteens i (buf, st) = (drop (16 * i) buf, fold adler_step (take (16 * i) buf) st)"
proof (induction i arbitrary: buf st)
  case (Suc i)
  have "take (16 * Suc i) buf = take 16 buf @ take (16 * i) (drop 16 buf)" by (simp add: take_add)
  with Suc show ?case by (simp add: add.commute)
qed simp

lemma chunk: "k \<le> length buf \<Longrightarrow> (case adler_sixteens (k div 16) (buf, st) of (buf1, st1) \<Rightarrow> fold adler_step (take (k mod 16) buf1) st1) =
    fold adler_step (take k buf) st"
proof -
  have "take k buf = take (16 * (k div 16)) buf @ take (k mod 16) (drop (16 * (k div 16)) buf)"
    by (metis mult_div_mod_eq take_add)
  then show ?thesis by (simp add: sixteens)
qed

lemma plain_sums_mod: "plain_sums xs a b = (a', b') \<Longrightarrow>
    adler_sums xs (a mod 65521) (b mod 65521) = (a' mod 65521, b' mod 65521)"
proof (induction xs arbitrary: a b)
  case (Cons x xs)
  then have "adler_sums xs ((a + unat x) mod 65521) ((b + (a + unat x)) mod 65521) = (a' mod 65521, b' mod 65521)" by simp
  then show ?case by (simp add: Let_def mod_simps)
qed simp

lemma plain_sums_append: "plain_sums (xs @ ys) a b = (case plain_sums xs a b of (a', b') \<Rightarrow> plain_sums ys a' b')"
  by (induction xs arbitrary: a b) auto

lemma adler_sums_append: "adler_sums (xs @ ys) a b = (case adler_sums xs a b of (a', b') \<Rightarrow> adler_sums ys a' b')"
  by (induction xs arbitrary: a b) (auto simp: Let_def)

lemma plain_bound: "plain_sums xs a b = (a', b') \<Longrightarrow>
    a' \<le> a + 255 * length xs \<and> 2 * b' \<le> 2 * b + 2 * length xs * a + 255 * length xs * (length xs + 1)"
proof (induction xs arbitrary: a b)
  case (Cons x xs)
  have x: "unat x \<le> 255" using unat_u8_less [of x] by linarith
  let ?n = "length xs"
  from Cons.prems have "plain_sums xs (a + unat x) (b + (a + unat x)) = (a', b')" by simp
  note ih = Cons.IH [OF this]
  define q r sq where "q = ?n * unat x" and "r = ?n * a" and "sq = ?n * (?n + 1)"
  have e: "2 * (b + (a + unat x)) + 2 * ?n * (a + unat x) + 255 * ?n * (?n + 1) = 2 * b + 2 * a + 2 * unat x + 2 * r + 2 * q + 255 * sq"
    by (simp add: q_def r_def sq_def algebra_simps)
  have g: "2 * b + 2 * length (x # xs) * a + 255 * length (x # xs) * (length (x # xs) + 1) =
      2 * b + 2 * r + 2 * a + 255 * sq + 510 * ?n + 510"
    by (simp add: r_def sq_def algebra_simps)
  have "q \<le> 255 * ?n" unfolding q_def using x by (metis mult.commute mult_le_mono2)
  then show ?case using ih x unfolding e g by simp
qed simp

lemma adler_fold:
  assumes "plain_sums xs (unat s1) (unat s2) = (a, b)" "a < 2 ^ 32" "b < 2 ^ 32"
  shows "fold adler_step xs (s1, s2) = (t1, t2) \<Longrightarrow> unat t1 = a \<and> unat t2 = b"
  using assms
proof (induction xs arbitrary: s1 s2)
  case (Cons x xs)
  have mono: "plain_sums ys p q = (p', q') \<Longrightarrow> p \<le> p' \<and> q \<le> q'" for ys p q p' q'
    by (induction ys arbitrary: p q) fastforce+
  let ?u = "s1 + ucast x" and ?v = "s2 + (s1 + ucast x)"
  have le: "unat s1 + unat x \<le> a" "unat s2 + (unat s1 + unat x) \<le> b" using mono [of xs] Cons.prems(2) by auto
  have x: "unat (ucast x :: u32) = unat x" by (simp add: unsigned_ucast_eq unsigned_take_bit_eq take_bit_nat_eq_self_iff) (use unat_u8_less [of x] in simp)
  have u: "unat ?u = unat s1 + unat x" using le Cons.prems(3) x by (simp add: unat_word_ariths)
  have v: "unat ?v = unat s2 + (unat s1 + unat x)" using le Cons.prems(4) u by (simp add: unat_word_ariths(1) [of s2] u)
  show ?case
  proof (rule Cons.IH)
    show "fold adler_step xs (?u, ?v) = (t1, t2)" using Cons.prems(1) by (simp add: adler_step_def [of x] Let_def)
    show "plain_sums xs (unat ?u) (unat ?v) = (a, b)" using Cons.prems(2) u v by simp
  qed (use Cons.prems in auto)
qed simp

lemma adler_loop_sums:
  "unat (fst st) < 65521 \<Longrightarrow> unat (snd st) < 65521 \<Longrightarrow>
    (case adler_loop buf st of (t1, t2) \<Rightarrow> (unat t1, unat t2)) = adler_sums buf (unat (fst st)) (unat (snd st)) \<and>
    unat (fst (adler_loop buf st)) < 65521 \<and> unat (snd (adler_loop buf st)) < 65521"
proof (induction buf st rule: adler_loop.induct)
  case (1 buf st)
  show ?case
  proof (cases "buf = []")
    case True
    then show ?thesis using "1.prems" by (simp add: adler_loop.simps case_prod_beta)
  next
    case False
    define k where "k = (if length buf < 5552 then length buf else 5552)"
    obtain buf1 st1 where b: "adler_sixteens (k div 16) (buf, st) = (buf1, st1)" by (metis surj_pair)
    obtain t1 t2 where t: "fold adler_step (take (k mod 16) buf1) st1 = (t1, t2)" by (metis surj_pair)
    have k: "k \<le> length buf" "k \<le> 5552" by (simp_all add: k_def)
    have t': "fold adler_step (take k buf) st = (t1, t2)" using chunk [OF k(1), of st] b t by simp
    obtain a c where p: "plain_sums (take k buf) (unat (fst st)) (unat (snd st)) = (a, c)" by (metis surj_pair)
    obtain n where n: "n = length (take k buf)" "n \<le> 5552" using k by simp
    have "a \<le> unat (fst st) + 255 * n" "2 * c \<le> 2 * unat (snd st) + 2 * n * unat (fst st) + 255 * n * (n + 1)"
      using plain_bound [OF p] unfolding n(1) by blast+
    moreover have "2 * n * unat (fst st) \<le> 2 * 5552 * 65520" "255 * n * (n + 1) \<le> 255 * 5552 * 5553"
      by (rule mult_le_mono; use n(2) "1.prems" in simp)+
    ultimately have "a < 4294967296" "c < 4294967296" using "1.prems" n(2) by linarith+
    then have ac: "a < 2 ^ 32" "c < 2 ^ 32" by simp_all
    have tt: "unat t1 = a" "unat t2 = c" using adler_fold [of "take k buf" "fst st" "snd st", OF _ ac] p t' by simp_all
    let ?st = "(t1 mod 65521, t2 mod 65521)"
    have m: "unat (fst ?st) = a mod 65521" "unat (snd ?st) = c mod 65521" by (simp_all add: unat_mod tt)
    have loop: "adler_loop buf st = adler_loop (drop k buf) ?st"
      using False b t by (subst adler_loop.simps) (simp add: k_def [symmetric] Let_def)
    have sums: "adler_sums buf (unat (fst st)) (unat (snd st)) = adler_sums (drop k buf) (a mod 65521) (c mod 65521)"
      using adler_sums_append [of "take k buf" "drop k buf"] plain_sums_mod [OF p] "1.prems" by simp
    have "unat (fst ?st) < 65521" "unat (snd ?st) < 65521" unfolding m by simp_all
    from "1.IH" [OF False k_def b [symmetric] refl t [symmetric] refl] this show ?thesis unfolding loop sums m [symmetric] by blast
  qed
qed

lemma adler32_sums:
  "unat (adler32 buf) = (case adler_sums buf 1 0 of (a, b) \<Rightarrow> 65536 * b + a)"
proof -
  obtain t1 t2 where t: "adler_loop buf (1, 0) = (t1, t2)" by fastforce
  with adler_loop_sums [of "(1, 0)" buf] have s: "adler_sums buf 1 0 = (unat t1, unat t2)" "unat t1 < 65521" "unat t2 < 65521"
    by auto
  have "unat (push_bit 16 t2) = unat t2 * 65536"
    using s(3) by (simp add: push_bit_eq_mult unat_word_ariths)
  then have "unat (push_bit 16 t2 OR t1) = push_bit 16 (unat t2) OR unat t1"
    unfolding unsigned_or_eq by (simp only: push_bit_eq_mult) simp
  also have "\<dots> = push_bit 16 (unat t2) + unat t1"
  proof (rule disjunctive_add [symmetric])
    fix n
    show "\<not> bit (push_bit 16 (unat t2)) n \<or> \<not> bit (unat t1) n"
      using s(2) bit_take_bit_iff [of 16 "unat t1" n] by (auto simp: bit_push_bit_iff_nat take_bit_nat_eq_self)
  qed
  finally show ?thesis using t s(1) by (simp add: adler32_def push_bit_eq_mult)
qed

definition zlib_header :: "u8 \<Rightarrow> u8 \<Rightarrow> bool" where
  "zlib_header cmf flg \<longleftrightarrow> (256 * uint cmf + uint flg) mod 31 = 0 \<and> cmf AND 0x0f = 8 \<and> drop_bit 4 cmf \<le> 7 \<and> flg AND 0x20 = 0"

definition be32 :: "u8 list \<Rightarrow> u32" where
  "be32 bs = foldl (\<lambda>a b. 256 * a + ucast b) 0 bs"

text \<open>A stream of one stored block.\<close>

lemma stored_deflates:
  assumes "length data < 65536"
  shows "deflates g [] (concat (map byte_bits (1 # stored_bytes data @ ws))) data (concat (map byte_bits ws))"
proof -
  have one: "byte_bits 1 = True # [False, False] @ replicate 5 False" by (simp add: byte_bits_def upt_rec eval_nat_numeral)
  have "length (concat (map byte_bits ws)) = 8 * length ws" by (induction ws) simp_all
  then have "block_gives g [] ([False, False] @ replicate 5 False @ concat (map byte_bits (stored_bytes data)) @ concat (map byte_bits ws))
      ([] @ data) (concat (map byte_bits ws))" using assms by (intro block_gives.stored) simp_all
  then have "deflates g [] (True # [False, False] @ replicate 5 False @ concat (map byte_bits (stored_bytes data)) @ concat (map byte_bits ws))
      data (concat (map byte_bits ws))" by (auto intro: last_block)
  then show ?thesis by (simp add: one)
qed

text \<open>C27: the inflater implements RFC 1951.  If the bits of the source stand for the bytes \<open>out\<close> by the blocks' grammar --
  stored blocks, blocks with the fixed codes and blocks whose header gives their own codes, matches that overlap what they
  write included -- and the buffer has room for them, then \<^verbatim>\<open>tinf_uncompress\<close> returns TINF_OK, has written exactly \<open>out\<close>, says
  so in \<^verbatim>\<open>destLen\<close> and has read no bit further.\<close>

theorem uncompress_correct:
  assumes "deflates tinf_init [] (concat (map byte_bits src)) out rest" "length out \<le> cap"
  shows "\<exists>d. uncompress tinf_init src cap = Some (TINF_OK, d) \<and> in_out d = out \<and> in_len d = of_nat (length out) \<and> bits_of d = rest"
  by (rule uncompress_deflates [OF assms])

lemma uncompress_correct_witness:
  "\<exists>d. uncompress tinf_init [1, 3, 0, 252, 255, 10, 20, 30] 5 = Some (TINF_OK, d) \<and> in_out d = [10, 20, 30] \<and> in_len d = of_nat (length [10, 20, 30 :: u8]) \<and> bits_of d = []"
proof (rule uncompress_correct)
  have "1 # stored_bytes [10, 20, 30] = [1, 3, 0, 252, 255, 10, 20, 30]" by (simp add: stored_bytes_def)
  then show "deflates tinf_init [] (concat (map byte_bits [1, 3, 0, 252, 255, 10, 20, 30])) [10, 20, 30] []"
    using stored_deflates [of "[10, 20, 30]" tinf_init "[]"] by simp
qed simp

text \<open>C29: the checksum \<^verbatim>\<open>tinf_adler32\<close>, which adds up to 5552 bytes in 32 bits before it reduces its sums, and sixteen of them
  in a turn, is the Adler-32 of RFC 1950, whose sums are reduced at every byte, for a buffer of any length.\<close>

theorem adler32_is_rfc1950:
  "unat (adler32 buf) = (case adler_sums buf 1 0 of (a, b) \<Rightarrow> 65536 * b + a)"
  by (rule adler32_sums)

text \<open>C28: for a stream with a valid header whose blocks stand for the bytes \<open>out\<close>, \<^verbatim>\<open>tinf_zlib_uncompress\<close> writes \<open>out\<close> and
  returns TINF_OK if the last four bytes of the source are the Adler-32 of \<open>out\<close>, and TINF_DATA_ERROR if they are not.\<close>

theorem zlib_checks_sum:
  assumes "zlib_header cmf flg" "deflates tinf_init [] (concat (map byte_bits (body @ ck))) out rest" "length ck = 4"
    "length out \<le> cap" "length out < 2 ^ 32"
  shows "\<exists>d. in_out d = out \<and> zlib_uncompress tinf_init (cmf # flg # body @ ck) cap =
    Some (if unat (be32 ck) = (case adler_sums out 1 0 of (a, b) \<Rightarrow> 65536 * b + a) then TINF_OK else TINF_DATA_ERROR, Some d)"
proof -
  obtain d where d: "uncompress tinf_init (body @ ck) cap = Some (TINF_OK, d)" "in_out d = out" "in_len d = of_nat (length out)"
    using uncompress_deflates [OF assms(2,4)] by blast
  have n: "unat (in_len d) = length out" using d(3) assms(5) by (simp add: unsigned_of_nat take_bit_nat_eq_self)
  have tail: "drop (length (cmf # flg # body @ ck) - 4) (cmf # flg # body @ ck) = ck"
    using assms(3) by (metis append_Cons append_eq_conv_conj length_append add_diff_cancel_right')
  have eq: "be32 ck = adler32 out \<longleftrightarrow> unat (be32 ck) = (case adler_sums out 1 0 of (a, b) \<Rightarrow> 65536 * b + a)"
    using adler32_sums [of out] by (metis word_unat_eq_iff)
  have "zlib_uncompress tinf_init (cmf # flg # body @ ck) cap =
      Some (if be32 ck = adler32 out then TINF_OK else TINF_DATA_ERROR, Some d)"
    using assms(1,3) d n unfolding zlib_uncompress_def tail by (simp add: zlib_header_def be32_def not_less)
  then show ?thesis using d(2) eq by auto
qed

lemma zlib_checks_sum_witness:
  "\<exists>d. in_out d = [10, 20, 30] \<and> zlib_uncompress tinf_init (0x78 # 0x01 # (1 # stored_bytes [10, 20, 30]) @ [0, 103, 0, 61]) 3 =
    Some (if unat (be32 [0, 103, 0, 61]) = (case adler_sums [10, 20, 30] 1 0 of (a, b) \<Rightarrow> 65536 * b + a) then TINF_OK else TINF_DATA_ERROR, Some d)"
proof (rule zlib_checks_sum)
  show "zlib_header 0x78 0x01" by (simp add: zlib_header_def)
  show "deflates tinf_init [] (concat (map byte_bits ((1 # stored_bytes [10, 20, 30]) @ [0, 103, 0, 61]))) [10, 20, 30]
      (concat (map byte_bits [0, 103, 0, 61]))"
    using stored_deflates [of "[10, 20, 30]" tinf_init "[0, 103, 0, 61]"] by (simp only: append_Cons) simp
qed simp_all

text \<open>\<^verbatim>\<open>destLen\<close> is only an output.  A stored block longer than the buffer is written past its end, whatever the
  buffer's length; the model's \<open>None\<close>.\<close>

theorem stored_overflows:
  assumes "cap < length data" "length data < 65536"
  shows "uncompress tinf_init (1 # stored_bytes data) cap = None"
proof -
  let ?d = "new_inflater (1 # stored_bytes data) cap"
  have b: "bits_of ?d = True # [False, False] @ replicate 5 False @ concat (map byte_bits (stored_bytes data)) @ []"
    by (simp add: new_inflater_def bits_of_def byte_bits_def upt_rec eval_nat_numeral)
  obtain d1 where d1: "getbit ?d = Some (True, d1)" "takes ?d [True] d1" using getbit_some [OF b] by blast
  then have b1: "bits_of d1 = [False, False] @ replicate 5 False @ concat (map byte_bits (stored_bytes data)) @ []"
    using b by (simp add: takes_def)
  obtain d2 where d2: "read_bits 2 0 d1 = Some (0, d2)" "takes d1 [False, False] d2" using read_bits_some [OF b1, of 0] by (auto simp: numeral_2_eq_2)
  then have "bits_of d2 = replicate 5 False @ concat (map byte_bits (stored_bytes data)) @ []" using b1 by (simp add: takes_def)
  moreover have "in_count d2 < 8" "in_out d2 = []" "in_cap d2 = cap" using d1(2) d2(2) by (auto simp: takes_def new_inflater_def)
  ultimately have "inflate_uncompressed_block d2 = None" using stored_block(2) [OF assms(2), of d2 "replicate 5 False" "[]"] assms(1) by simp
  then have "one_block tinf_init ?d = None" using d1(1) d2(1) by (simp add: one_block_def)
  then show ?thesis by (simp add: uncompress_def block_loop.simps)
qed

lemma stored_overflows_witness: "uncompress tinf_init (1 # stored_bytes [10, 20, 30]) 2 = None"
  by (rule stored_overflows) simp_all

lemma quarters: "map (\<lambda>i. i div 4) [0..<26] = [0, 0, 0, 0, 1, 1, 1, 1, 2, 2, 2, 2, 3, 3, 3, 3, 4, 4, 4, 4, 5, 5, 5, 5, 6, 6 :: nat]"
  by (simp add: upt_rec)

lemma halves: "map (\<lambda>i. i div 2) [0..<28] = [0, 0, 1, 1, 2, 2, 3, 3, 4, 4, 5, 5, 6, 6, 7, 7, 8, 8, 9, 9, 10, 10, 11, 11, 12, 12, 13, 13 :: nat]"
  by (simp add: upt_rec)

lemma few_zeros: "replicate 4 (0 :: nat) = [0, 0, 0, 0]" "replicate 2 (0 :: nat) = [0, 0]"
  by (simp_all add: numeral_eq_Suc)

theorem tables_are_rfc1951:
  "take 29 (tg_length_base tinf_init) = [3, 4, 5, 6, 7, 8, 9, 10, 11, 13, 15, 17, 19, 23, 27, 31, 35, 43, 51, 59, 67, 83, 99, 115, 131, 163, 195, 227, 258]"
  "take 29 (tg_length_bits tinf_init) = [0, 0, 0, 0, 0, 0, 0, 0, 1, 1, 1, 1, 2, 2, 2, 2, 3, 3, 3, 3, 4, 4, 4, 4, 5, 5, 5, 5, 0]"
  "tg_dist_base tinf_init = [1, 2, 3, 4, 5, 7, 9, 13, 17, 25, 33, 49, 65, 97, 129, 193, 257, 385, 513, 769, 1025, 1537, 2049, 3073, 4097, 6145,
     8193, 12289, 16385, 24577]"
  "tg_dist_bits tinf_init = [0, 0, 0, 0, 1, 1, 2, 2, 3, 3, 4, 4, 5, 5, 6, 6, 7, 7, 8, 8, 9, 9, 10, 10, 11, 11, 12, 12, 13, 13]"
  by (simp_all add: tinf_init_def build_bits_base_def Let_def quarters halves few_zeros)

end
