(* ===== verification/ObjectStore.thy ===== *)
theory ObjectStore
  imports Prelude
begin

unbundle bit_operations_syntax

text \<open>
  The containers of the game's objects: the slots of \<^verbatim>\<open>GObject/GLocalObjectManager.h\<close>, the keyed objects of
  \<^verbatim>\<open>GObject/GGlobalObjectManager.h\<close>, the two containers of \<^verbatim>\<open>GData/ObjectManager.h\<close>, and the table of messages of
  \<^verbatim>\<open>Server/SysMsg.cpp\<close> with the buffer its texts are written to.

  A pointer is a number; a null pointer is the inner \<open>None\<close>.  The outer \<open>None\<close> is undefined behaviour: a null pointer or a
  deleted object that is used, a write outside a container, an \<^verbatim>\<open>int\<close> that overflows.
\<close>

type_synonym ptr = nat

section \<open>Slots\<close>

record local_store =
  lo_objs :: "ptr option list"
  lo_empty :: "nat list"
  lo_slot :: "ptr \<Rightarrow> u32"

definition new_local :: local_store where
  "new_local = \<lparr>lo_objs = [], lo_empty = [], lo_slot = (\<lambda>_. - 1)\<rparr>"

definition set_slot :: "ptr \<Rightarrow> u32 \<Rightarrow> local_store \<Rightarrow> local_store" where
  "set_slot v i s = s\<lparr>lo_slot := (lo_slot s)(v := i)\<rparr>"

definition local_add :: "ptr \<Rightarrow> local_store \<Rightarrow> (bool \<times> local_store) option" where
  "local_add v s =
     (if lo_slot s v \<noteq> - 1 then Some (False, s)
      else case lo_empty s of
        [] \<Rightarrow> let s1 = s\<lparr>lo_objs := lo_objs s @ [Some v]\<rparr> in Some (True, set_slot v (of_nat (length (lo_objs s1) - 1)) s1)
      | i # rest \<Rightarrow>
          (case upd_opt (lo_objs s) i (Some v) of None \<Rightarrow> None
           | Some os \<Rightarrow> Some (True, (set_slot v (of_nat i) (s\<lparr>lo_objs := os\<rparr>))\<lparr>lo_empty := rest\<rparr>)))"

definition local_remove :: "ptr \<Rightarrow> local_store \<Rightarrow> local_store" where
  "local_remove v s =
     (let i = unat (lo_slot s v)
      in if i < length (lo_objs s) \<and> lo_objs s ! i \<noteq> None \<and> lo_objs s ! i = Some v
         then (set_slot v (- 1) s)\<lparr>lo_objs := (lo_objs s)[i := None], lo_empty := lo_empty s @ [i]\<rparr>
         else s)"

text \<open>\<^verbatim>\<open>operator[]\<close> asks the object at the place for its slot without looking whether there is one.\<close>

definition local_get :: "u32 \<Rightarrow> local_store \<Rightarrow> (ptr option \<times> local_store) option" where
  "local_get i s =
     (if unat i < length (lo_objs s)
      then (case lo_objs s ! unat i of None \<Rightarrow> None
            | Some v \<Rightarrow> if lo_slot s v = i then Some (Some v, s) else Some (None, s\<lparr>lo_objs := (lo_objs s)[unat i := None]\<rparr>))
      else Some (None, s))"

section \<open>Keyed objects\<close>

text \<open>\<open>gl_heap\<close> has the identifier of every object that has not been deleted.\<close>

record 'k global_store =
  gl_objs :: "'k \<Rightarrow> ptr option"
  gl_heap :: "ptr \<Rightarrow> 'k option"

definition put_object :: "'k \<Rightarrow> ptr \<Rightarrow> 'k global_store \<Rightarrow> 'k global_store" where
  "put_object k v s = s\<lparr>gl_objs := (gl_objs s)(k := Some v)\<rparr>"

text \<open>\<^verbatim>\<open>newObject\<close>: the object is at the address \<open>v\<close>; without memory the null pointer is followed.\<close>

definition new_object :: "'k \<Rightarrow> ptr option \<Rightarrow> 'k global_store \<Rightarrow> (ptr \<times> 'k global_store) option" where
  "new_object k v s =
     (case v of None \<Rightarrow> None
      | Some p \<Rightarrow> let s1 = s\<lparr>gl_heap := (gl_heap s)(p := Some k)\<rparr> in Some (p, put_object k p s1))"

definition global_add :: "ptr \<Rightarrow> 'k global_store \<Rightarrow> 'k global_store option" where
  "global_add v s = (case gl_heap s v of None \<Rightarrow> None | Some k \<Rightarrow> Some (put_object k v s))"

definition global_remove :: "'k \<Rightarrow> 'k global_store \<Rightarrow> 'k global_store" where
  "global_remove k s = s\<lparr>gl_objs := (gl_objs s)(k := None)\<rparr>"

definition global_get :: "'k global_store \<Rightarrow> 'k \<Rightarrow> ptr option" where
  "global_get s k = gl_objs s k"

definition delete_object :: "ptr \<Rightarrow> 'k global_store \<Rightarrow> 'k global_store option" where
  "delete_object v s = (if gl_heap s v = None then None else Some (s\<lparr>gl_heap := (gl_heap s)(v := None)\<rparr>))"

text \<open>\<open>order\<close> is the order in which the table is walked, which the library leaves open.\<close>

fun enumerate :: "'k list \<Rightarrow> (ptr \<Rightarrow> bool) \<Rightarrow> 'k global_store \<Rightarrow> ptr list" where
  "enumerate [] cb s = []"
| "enumerate (k # ks) cb s =
     (case gl_objs s k of None \<Rightarrow> enumerate ks cb s
      | Some v \<Rightarrow> v # (if cb v then enumerate ks cb s else []))"

definition reset_one :: "'k global_store \<Rightarrow> 'k \<Rightarrow> 'k global_store option" where
  "reset_one s k = (case gl_objs s k of None \<Rightarrow> Some s | Some v \<Rightarrow> delete_object v s)"

definition reset :: "'k list \<Rightarrow> 'k global_store \<Rightarrow> 'k global_store option" where
  "reset order s = (case foldm reset_one s order of None \<Rightarrow> None | Some s1 \<Rightarrow> Some (s1\<lparr>gl_objs := (\<lambda>_. None)\<rparr>))"

definition reset_unless :: "u64 set \<Rightarrow> u64 global_store \<Rightarrow> u64 \<Rightarrow> u64 global_store option" where
  "reset_unless keep s k =
     (if k \<in> keep then Some s
      else case gl_objs s k of None \<Rightarrow> Some s
      | Some v \<Rightarrow> (case delete_object v s of None \<Rightarrow> None | Some s1 \<Rightarrow> Some (global_remove k s1)))"

definition reset_except :: "u64 set \<Rightarrow> u64 list \<Rightarrow> u64 global_store \<Rightarrow> u64 global_store option" where
  "reset_except keep order s = foldm (reset_unless keep) s order"

text \<open>The key of a player: channel and server are \<^verbatim>\<open>int\<close>s, which the casts extend with their sign.\<close>

definition player_key :: "u64 \<Rightarrow> 32 word \<Rightarrow> 32 word \<Rightarrow> u64" where
  "player_key i channel server =
     (let pid = i AND 0xFFFF00FFFFFFFFFF OR push_bit 40 (scast channel :: u64)
      in if drop_bit 48 pid = 0 then pid OR push_bit 48 (scast server :: u64) else pid)"

definition find_player :: "u64 global_store \<Rightarrow> u64 \<Rightarrow> 32 word \<Rightarrow> 32 word \<Rightarrow> ptr option" where
  "find_player s i channel server = global_get s (player_key i channel server)"

text \<open>\<^verbatim>\<open>tolower\<close> in the C locale, and \<^verbatim>\<open>strlwr\<close>, which stops at the first 0.\<close>

definition to_lower :: "char \<Rightarrow> char" where
  "to_lower c = (let n = of_char c :: nat in if 65 \<le> n \<and> n \<le> 90 then char_of (n + 32) else c)"

definition strlwr :: "string \<Rightarrow> string" where
  "strlwr cs = map to_lower (takeWhile (\<lambda>c. c \<noteq> CHR 0x00) cs) @ dropWhile (\<lambda>c. c \<noteq> CHR 0x00) cs"

definition istring_add :: "string \<Rightarrow> ptr \<Rightarrow> string global_store \<Rightarrow> string global_store" where
  "istring_add k v s = put_object (strlwr k) v s"

definition istring_remove :: "string \<Rightarrow> string global_store \<Rightarrow> string global_store" where
  "istring_remove k s = global_remove (strlwr k) s"

definition istring_get :: "string global_store \<Rightarrow> string \<Rightarrow> ptr option" where
  "istring_get s k = global_get s (strlwr k)"

section \<open>The containers of the data tables\<close>

text \<open>The body of the loop of \<^verbatim>\<open>ObjectMapT::operator[]\<close> returns in its first turn; without a turn there is no return.\<close>

definition object_map_get :: "('k \<times> ptr) list \<Rightarrow> 'k \<Rightarrow> ptr option" where
  "object_map_get m key = (case m of [] \<Rightarrow> None | (k, v) # _ \<Rightarrow> Some v)"

definition object_map_add :: "'k::linorder \<Rightarrow> ptr \<Rightarrow> ('k \<times> ptr) list \<Rightarrow> ('k \<times> ptr) list" where
  "object_map_add k v m = omap_put k v m"

definition resize :: "nat \<Rightarrow> ptr option list \<Rightarrow> ptr option list" where
  "resize n xs = take n xs @ replicate (n - length xs) None"

definition object_list_add :: "u32 \<Rightarrow> ptr \<Rightarrow> ptr option list \<Rightarrow> ptr option list option" where
  "object_list_add i v xs =
     (let xs1 = (if length xs \<le> unat i then resize (unat ((i + 0x40) AND NOT 0x3F)) xs else xs) in upd_opt xs1 (unat i) (Some v))"

text \<open>Empty places are left out; the caller's function may end the walk.\<close>

fun object_list_enumerate :: "(ptr \<Rightarrow> bool) \<Rightarrow> ptr option list \<Rightarrow> ptr list" where
  "object_list_enumerate cb [] = []"
| "object_list_enumerate cb (None # xs) = object_list_enumerate cb xs"
| "object_list_enumerate cb (Some v # xs) = v # (if cb v then object_list_enumerate cb xs else [])"

definition object_list_get :: "ptr option list \<Rightarrow> u32 \<Rightarrow> ptr option" where
  "object_list_get xs i = (if length xs \<le> unat i then None else xs ! unat i)"

section \<open>Messages of the system\<close>

definition sysmsg_add :: "u32 \<Rightarrow> ptr \<Rightarrow> ptr option list \<Rightarrow> ptr option list option" where
  "sysmsg_add i mi ms =
     (let ms1 = (if length ms \<le> unat i then resize (unat ((i + 31) AND NOT 15)) ms else ms) in upd_opt ms1 (unat i) (Some mi))"

definition sysmsg_get :: "ptr option list \<Rightarrow> u32 \<Rightarrow> ptr option" where
  "sysmsg_get ms i = (if unat i < length ms then ms ! unat i else None)"

text \<open>The loop of \<^verbatim>\<open>sendva\<close>, \<^verbatim>\<open>sendva2\<close> and \<^verbatim>\<open>getvap\<close>: \<open>vs\<close> is what \<^verbatim>\<open>vsnprintf\<close> returns for a size and the text that is in
  the buffer then, \<open>room\<close> says whether \<^verbatim>\<open>new\<close> has memory.  The inner \<open>None\<close>: the function returns and sends nothing.\<close>

partial_function (option) grow_buffer :: "(int \<Rightarrow> int \<times> string) \<Rightarrow> (int \<Rightarrow> bool) \<Rightarrow> int \<Rightarrow> string option option" where
  "grow_buffer vs room sz =
     (if \<not> room sz then Some None
      else case vs sz of (n, text) \<Rightarrow>
        if n > - 1 \<and> n < sz then Some (Some text)
        else let sz' = (if n > - 1 then n + 1 else sz * 2) in if sz' < 2 ^ 31 then grow_buffer vs room sz' else None)"

datatype sysmsg_call = SendTo ptr u8 string | BroadcastTo u8 string

definition sendva :: "(int \<Rightarrow> int \<times> string) \<Rightarrow> (int \<Rightarrow> bool) \<Rightarrow> u8 \<Rightarrow> ptr option \<Rightarrow> sysmsg_call list option" where
  "sendva vs room ty player =
     (case grow_buffer vs room 256 of None \<Rightarrow> None
      | Some None \<Rightarrow> Some []
      | Some (Some text) \<Rightarrow> Some [case player of Some p \<Rightarrow> SendTo p ty text | None \<Rightarrow> BroadcastTo ty text])"

text \<open>\<open>server_no\<close> is what the players' \<^verbatim>\<open>GetServerNo\<close> returns.\<close>

definition sendva2 :: "(int \<Rightarrow> int \<times> string) \<Rightarrow> (int \<Rightarrow> bool) \<Rightarrow> u8 \<Rightarrow> u16 \<Rightarrow> ptr option list \<Rightarrow> (ptr \<Rightarrow> u16) \<Rightarrow> sysmsg_call list option" where
  "sendva2 vs room ty no players server_no =
     (case grow_buffer vs room 256 of None \<Rightarrow> None
      | Some None \<Rightarrow> Some []
      | Some (Some text) \<Rightarrow>
          Some (concat (map (\<lambda>p. case p of None \<Rightarrow> [] | Some q \<Rightarrow> if server_no q = no then [SendTo q ty text] else []) players)))"

definition getvap :: "(int \<Rightarrow> int \<times> string) \<Rightarrow> (int \<Rightarrow> bool) \<Rightarrow> u8 \<Rightarrow> (u8 \<times> string) option option" where
  "getvap vs room ty =
     (case grow_buffer vs room 256 of None \<Rightarrow> None | Some None \<Rightarrow> Some None | Some (Some text) \<Rightarrow> Some (Some (ty, text)))"

definition sysmsg_send :: "u8 \<Rightarrow> string \<Rightarrow> ptr option \<Rightarrow> sysmsg_call" where
  "sysmsg_send ty body player = (case player of Some p \<Rightarrow> SendTo p ty body | None \<Rightarrow> BroadcastTo ty body)"

definition msg_get :: "string \<Rightarrow> string" where
  "msg_get body = take 1023 (takeWhile (\<lambda>c. c \<noteq> CHR 0x00) body)"

definition msg_getva_append :: "string \<Rightarrow> (int \<Rightarrow> int \<times> string) \<Rightarrow> string" where
  "msg_getva_append str vs = str @ snd (vs 1023)"

definition msg_getva :: "(int \<Rightarrow> int \<times> string) \<Rightarrow> string" where
  "msg_getva vs = snd (vs 1023)"

section \<open>Slots: lemmas\<close>

definition held_at :: "local_store \<Rightarrow> nat \<Rightarrow> ptr option" where
  "held_at s i = (if i < length (lo_objs s) then lo_objs s ! i else None)"

definition local_ok :: "local_store \<Rightarrow> bool" where
  "local_ok s \<longleftrightarrow> length (lo_objs s) < 2 ^ 32 \<and>
     (\<forall>i v. held_at s i = Some v \<longleftrightarrow> lo_slot s v \<noteq> - 1 \<and> unat (lo_slot s v) = i) \<and>
     distinct (lo_empty s) \<and> set (lo_empty s) = {i. i < length (lo_objs s) \<and> lo_objs s ! i = None}"

lemma new_local_ok: "local_ok new_local"
  by (simp add: local_ok_def new_local_def held_at_def)

lemma slot_of_index: "n < 2 ^ 32 - 1 \<Longrightarrow> (of_nat n :: u32) \<noteq> - 1 \<and> unat (of_nat n :: u32) = n"
proof -
  assume n: "n < 2 ^ 32 - 1"
  then have u: "unat (of_nat n :: u32) = n" by (simp add: unsigned_of_nat take_bit_nat_eq_self)
  moreover have "unat (- 1 :: u32) = 2 ^ 32 - 1" by (simp add: unsigned_minus_1_eq_mask mask_eq_exp_minus_1)
  moreover have "(of_nat n :: u32) \<noteq> - 1"
  proof
    assume "(of_nat n :: u32) = - 1"
    then have "n = 2 ^ 32 - 1" using u \<open>unat (- 1 :: u32) = 2 ^ 32 - 1\<close> by metis
    with n show False by simp
  qed
  ultimately show ?thesis by blast
qed

lemma local_ok_slot: "local_ok s \<Longrightarrow> lo_slot s v \<noteq> - 1 \<Longrightarrow> held_at s (unat (lo_slot s v)) = Some v"
  by (simp add: local_ok_def)

text \<open>An object put at a place that was empty.\<close>

lemma local_put:
  assumes "local_ok s" "lo_slot s v = - 1" "held_at s i = None" "i < 2 ^ 32 - 1"
    and "\<And>j. held_at s' j = (if j = i then Some v else held_at s j)" "lo_slot s' = (lo_slot s)(v := of_nat i)"
    and "length (lo_objs s') < 2 ^ 32" "distinct (lo_empty s')" "set (lo_empty s') = {i. i < length (lo_objs s') \<and> lo_objs s' ! i = None}"
  shows "local_ok s'"
proof -
  have i: "(of_nat i :: u32) \<noteq> - 1" "unat (of_nat i :: u32) = i" using slot_of_index [OF assms(4)] by auto
  have "held_at s' j = Some w \<longleftrightarrow> lo_slot s' w \<noteq> - 1 \<and> unat (lo_slot s' w) = j" for j w
  proof -
    have old: "held_at s j = Some w \<longleftrightarrow> lo_slot s w \<noteq> - 1 \<and> unat (lo_slot s w) = j" using assms(1) by (simp add: local_ok_def)
    have "held_at s i \<noteq> Some w" using assms(3) by simp
    then have none: "\<not> (lo_slot s w \<noteq> - 1 \<and> unat (lo_slot s w) = i)" using assms(1) by (simp add: local_ok_def)
    show ?thesis using old none i assms(2,5,6) by auto
  qed
  then show ?thesis using assms by (simp add: local_ok_def)
qed

lemma local_add_ok:
  assumes ok: "local_ok s" and room: "length (lo_objs s) < 2 ^ 32 - 1"
  shows "\<exists>s'. local_add v s = Some (lo_slot s v = - 1, s') \<and> local_ok s' \<and>
    (if lo_slot s v = - 1 then held_at s (unat (lo_slot s' v)) = None \<and> held_at s' = (held_at s)(unat (lo_slot s' v) := Some v)
     else s' = s)"
proof (cases "lo_slot s v = - 1")
  case False
  then show ?thesis using ok by (simp add: local_add_def)
next
  case free: True
  show ?thesis
  proof (cases "lo_empty s")
    case Nil
    let ?n = "length (lo_objs s)"
    let ?s = "set_slot v (of_nat ?n) (s\<lparr>lo_objs := lo_objs s @ [Some v]\<rparr>)"
    have held: "held_at ?s j = (if j = ?n then Some v else held_at s j)" for j by (auto simp: held_at_def set_slot_def nth_append)
    have full: "lo_objs s ! i \<noteq> None" if "i < ?n" for i using ok Nil that by (auto simp: local_ok_def)
    have "local_ok ?s"
    proof (rule local_put [OF ok free])
      show "held_at s ?n = None" by (simp add: held_at_def)
      show "set (lo_empty ?s) = {i. i < length (lo_objs ?s) \<and> lo_objs ?s ! i = None}"
        using Nil full by (auto simp: set_slot_def nth_append less_Suc_eq)
    qed (use room held Nil in \<open>simp_all add: set_slot_def\<close>)
    moreover have "unat (lo_slot ?s v) = ?n" using slot_of_index [OF room] by (simp add: set_slot_def)
    moreover have "held_at s ?n = None" by (simp add: held_at_def)
    ultimately show ?thesis using free Nil held by (auto simp: local_add_def Let_def)
  next
    case (Cons i rest)
    then have i: "i < length (lo_objs s)" "lo_objs s ! i = None" using ok by (auto simp: local_ok_def)
    let ?s = "(set_slot v (of_nat i) (s\<lparr>lo_objs := (lo_objs s)[i := Some v]\<rparr>))\<lparr>lo_empty := rest\<rparr>"
    have held: "held_at ?s j = (if j = i then Some v else held_at s j)" for j
      using i by (auto simp: held_at_def set_slot_def nth_list_update)
    have e: "distinct (i # rest)" "set (i # rest) = {i. i < length (lo_objs s) \<and> lo_objs s ! i = None}"
      using ok Cons by (simp_all add: local_ok_def)
    have il: "i < 2 ^ 32 - 1" using i room by simp
    have none: "held_at s i = None" using i by (simp add: held_at_def)
    have "local_ok ?s"
    proof (rule local_put [OF ok free none il])
      have "j \<in> set rest \<longleftrightarrow> j < length (lo_objs s) \<and> (lo_objs s)[i := Some v] ! j = None" for j
        using e i by (cases "j = i") (auto simp: set_eq_iff)
      then show "set (lo_empty ?s) = {i. i < length (lo_objs ?s) \<and> lo_objs ?s ! i = None}" by (auto simp: set_slot_def)
    qed (use room held e(1) in \<open>simp_all add: set_slot_def\<close>)
    moreover have "unat (lo_slot ?s v) = i" using slot_of_index [OF il] by (simp add: set_slot_def)
    ultimately show ?thesis using free Cons i held none by (auto simp: local_add_def)
  qed
qed

lemma local_remove_ok:
  assumes ok: "local_ok s"
  shows "local_ok (local_remove v s) \<and> held_at (local_remove v s) = (\<lambda>i. if held_at s i = Some v then None else held_at s i) \<and>
    lo_slot (local_remove v s) = (lo_slot s)(v := - 1)"
proof (cases "lo_slot s v = - 1")
  case True
  then have none: "held_at s i \<noteq> Some v" for i using ok by (simp add: local_ok_def)
  moreover have "local_remove v s = s" using none [of "unat (lo_slot s v)"] by (auto simp: local_remove_def held_at_def Let_def)
  ultimately show ?thesis using ok True by (auto simp: fun_eq_iff)
next
  case False
  let ?i = "unat (lo_slot s v)" and ?s = "local_remove v s"
  have i: "held_at s ?i = Some v" using local_ok_slot [OF ok False] .
  then have i': "?i < length (lo_objs s)" "lo_objs s ! ?i = Some v" by (auto simp: held_at_def split: if_splits)
  then have r: "?s = (set_slot v (- 1) s)\<lparr>lo_objs := (lo_objs s)[?i := None], lo_empty := lo_empty s @ [?i]\<rparr>"
    by (simp add: local_remove_def Let_def)
  have held: "held_at ?s j = (if j = ?i then None else held_at s j)" for j
    unfolding r using i' by (auto simp: held_at_def set_slot_def nth_list_update)
  have iff: "held_at s j = Some w \<longleftrightarrow> lo_slot s w \<noteq> - 1 \<and> unat (lo_slot s w) = j" for j w using ok by (simp add: local_ok_def)
  have slot: "lo_slot ?s = (lo_slot s)(v := - 1)" by (simp add: r set_slot_def)
  have "held_at ?s j = Some w \<longleftrightarrow> lo_slot ?s w \<noteq> - 1 \<and> unat (lo_slot ?s w) = j" for j w
    unfolding held slot using iff [of j w] iff [of ?i w] i by auto
  moreover have "set (lo_empty ?s) = {i. i < length (lo_objs ?s) \<and> lo_objs ?s ! i = None}" "distinct (lo_empty ?s)"
    using ok i' by (auto simp: r local_ok_def set_slot_def nth_list_update)
  ultimately have "local_ok ?s" using ok by (simp add: local_ok_def r set_slot_def)
  moreover have "held_at ?s = (\<lambda>i. if held_at s i = Some v then None else held_at s i)"
    unfolding fun_eq_iff held using iff False by auto
  ultimately show ?thesis using slot by simp
qed

text \<open>C31: in every state of the slots that is well formed -- an object stands at a place just when its slot names the place, and
  the empty places are in \<^verbatim>\<open>_empty\<close>, each once -- adding an object refuses one that has a slot and changes nothing, puts any
  other at an empty place and changes no other place; removing an object clears its place alone; and both leave a well-formed
  state.\<close>

theorem slots_are_kept:
  assumes "local_ok s" "length (lo_objs s) < 2 ^ 32 - 1"
  shows "(\<exists>s'. local_add v s = Some (lo_slot s v = - 1, s') \<and> local_ok s' \<and>
      (if lo_slot s v = - 1 then held_at s (unat (lo_slot s' v)) = None \<and> held_at s' = (held_at s)(unat (lo_slot s' v) := Some v)
       else s' = s)) \<and>
    local_ok (local_remove v s) \<and> held_at (local_remove v s) = (\<lambda>i. if held_at s i = Some v then None else held_at s i)"
  using local_add_ok [OF assms] local_remove_ok [OF assms(1)] by blast

lemma slots_are_kept_witness:
  "(\<exists>s'. local_add 7 new_local = Some (lo_slot new_local 7 = - 1, s') \<and> local_ok s' \<and>
      (if lo_slot new_local 7 = - 1 then held_at new_local (unat (lo_slot s' 7)) = None \<and> held_at s' = (held_at new_local)(unat (lo_slot s' 7) := Some 7)
       else s' = new_local)) \<and>
    local_ok (local_remove 7 new_local) \<and> held_at (local_remove 7 new_local) = (\<lambda>i. if held_at new_local i = Some 7 then None else held_at new_local i)"
  by (rule slots_are_kept [OF new_local_ok]) (simp add: new_local_def)

text \<open>Between a removal and the next object at the place, asking for the slot follows a null pointer.\<close>

theorem removed_slot_is_followed:
  assumes "local_ok s" "lo_slot s v \<noteq> - 1"
  shows "local_get (lo_slot s v) s = Some (Some v, s) \<and> local_get (lo_slot s v) (local_remove v s) = None"
proof -
  let ?i = "unat (lo_slot s v)"
  have h: "held_at s ?i = Some v" using local_ok_slot [OF assms] .
  have "held_at (local_remove v s) ?i = None" using local_remove_ok [OF assms(1), of v] h by simp
  moreover have "length (lo_objs (local_remove v s)) = length (lo_objs s)" by (simp add: local_remove_def set_slot_def Let_def)
  ultimately show ?thesis using h by (auto simp: local_get_def held_at_def split: if_splits)
qed

section \<open>Keyed objects: lemmas\<close>

interpretation globals: keyed_store global_get put_object global_remove "\<lambda>_. True"
  by unfold_locales (simp_all add: global_get_def put_object_def global_remove_def)

text \<open>Every object of the table is alive and stands under its own identifier.\<close>

definition keyed_ok :: "'k global_store \<Rightarrow> bool" where
  "keyed_ok s \<longleftrightarrow> (\<forall>k v. gl_objs s k = Some v \<longrightarrow> gl_heap s v = Some k)"

lemma new_object_keyed: "keyed_ok s \<Longrightarrow> gl_heap s p = None \<Longrightarrow>
    \<exists>s'. new_object k (Some p) s = Some (p, s') \<and> keyed_ok s' \<and> global_get s' k = Some p"
  by (auto simp: new_object_def keyed_ok_def put_object_def global_get_def)

lemma reset_walk:
  "\<lbrakk>keyed_ok s; distinct ks\<rbrakk> \<Longrightarrow> foldm reset_one s ks =
    Some (s\<lparr>gl_heap := (\<lambda>v. if \<exists>k \<in> set ks. gl_objs s k = Some v then None else gl_heap s v)\<rparr>)"
proof (induction ks rule: rev_induct)
  case (snoc k ks)
  let ?h = "\<lambda>ks v. if \<exists>k \<in> set ks. gl_objs s k = Some v then None else gl_heap s v"
  have f: "foldm reset_one s ks = Some (s\<lparr>gl_heap := ?h ks\<rparr>)" using snoc by simp
  show ?case
  proof (cases "gl_objs s k")
    case None
    then have "?h (ks @ [k]) = ?h ks" by auto
    moreover have "reset_one (s\<lparr>gl_heap := ?h ks\<rparr>) k = Some (s\<lparr>gl_heap := ?h ks\<rparr>)" using None by (simp add: reset_one_def)
    ultimately show ?thesis using f by (simp add: foldm_append)
  next
    case (Some v)
    then have hv: "gl_heap s v = Some k" using snoc.prems(1) by (simp add: keyed_ok_def)
    have "gl_objs s k' \<noteq> Some v" if "k' \<in> set ks" for k'
      using that hv snoc.prems by (auto simp: keyed_ok_def)
    then have "?h ks v = Some k" using hv by auto
    then have "reset_one (s\<lparr>gl_heap := ?h ks\<rparr>) k = Some (s\<lparr>gl_heap := (?h ks)(v := None)\<rparr>)"
      using Some by (simp add: reset_one_def delete_object_def)
    moreover have "(?h ks)(v := None) = ?h (ks @ [k])" using Some by (auto simp: fun_eq_iff)
    ultimately show ?thesis using f by (simp add: foldm_append)
  qed
qed simp

theorem reset_deletes_once:
  assumes "keyed_ok s" "distinct order" "set order = {k. gl_objs s k \<noteq> None}"
  shows "reset order s = Some \<lparr>gl_objs = (\<lambda>_. None), gl_heap = (\<lambda>v. if v \<in> ran (gl_objs s) then None else gl_heap s v)\<rparr>"
proof -
  have "(\<lambda>v. if \<exists>k \<in> set order. gl_objs s k = Some v then None else gl_heap s v) = (\<lambda>v. if v \<in> ran (gl_objs s) then None else gl_heap s v)"
    unfolding assms(3) by (rule ext) (auto simp: ran_def; metis option.distinct(1))
  then show ?thesis using reset_walk [OF assms(1,2)] by (simp add: reset_def)
qed

theorem two_keys_delete_twice:
  assumes "k1 \<noteq> k2" "gl_objs s k1 = Some v" "gl_objs s k2 = Some v"
  shows "reset [k1, k2] s = None"
  using assms by (simp add: reset_def reset_one_def delete_object_def split: option.split)

lemma reset_except_walk:
  "\<lbrakk>keyed_ok s; distinct ks\<rbrakk> \<Longrightarrow> foldm (reset_unless keep) s ks =
    Some (s\<lparr>gl_objs := (\<lambda>k. if k \<in> set ks - keep then None else gl_objs s k),
      gl_heap := (\<lambda>v. if \<exists>k \<in> set ks - keep. gl_objs s k = Some v then None else gl_heap s v)\<rparr>)"
proof (induction ks rule: rev_induct)
  case (snoc k ks)
  let ?o = "\<lambda>ks k. if k \<in> set ks - keep then None else gl_objs s k"
  let ?h = "\<lambda>ks v. if \<exists>k \<in> set ks - keep. gl_objs s k = Some v then None else gl_heap s v"
  have f: "foldm (reset_unless keep) s ks = Some (s\<lparr>gl_objs := ?o ks, gl_heap := ?h ks\<rparr>)" using snoc by simp
  have new: "?o ks k = gl_objs s k" using snoc.prems(2) by simp
  show ?case
  proof (cases "k \<in> keep \<or> gl_objs s k = None")
    case True
    then have "?o (ks @ [k]) = ?o ks" "?h (ks @ [k]) = ?h ks" by (auto simp: fun_eq_iff)
    moreover have "reset_unless keep (s\<lparr>gl_objs := ?o ks, gl_heap := ?h ks\<rparr>) k = Some (s\<lparr>gl_objs := ?o ks, gl_heap := ?h ks\<rparr>)"
      using True new by (auto simp: reset_unless_def)
    ultimately show ?thesis using f by (simp add: foldm_append)
  next
    case False
    then obtain v where v: "gl_objs s k = Some v" "k \<notin> keep" by auto
    then have hv: "gl_heap s v = Some k" using snoc.prems(1) by (simp add: keyed_ok_def)
    have "gl_objs s k' \<noteq> Some v" if "k' \<in> set ks" for k'
      using that hv snoc.prems by (auto simp: keyed_ok_def)
    then have "?h ks v = Some k" using hv by auto
    then have "reset_unless keep (s\<lparr>gl_objs := ?o ks, gl_heap := ?h ks\<rparr>) k =
        Some (s\<lparr>gl_objs := (?o ks)(k := None), gl_heap := (?h ks)(v := None)\<rparr>)"
      using v new by (simp add: reset_unless_def delete_object_def global_remove_def)
    moreover have "(?h ks)(v := None) = ?h (ks @ [k])" "(?o ks)(k := None) = ?o (ks @ [k])" using v by (auto simp: fun_eq_iff)
    ultimately show ?thesis using f by (simp add: foldm_append)
  qed
qed simp

text \<open>C32: \<^verbatim>\<open>resetExcept\<close>, which erases while it walks, leaves exactly the objects whose identifiers are in the set: their
  entries stay, every other object that stood in the table is deleted, once, and nothing that stays in the table is
  deleted.\<close>

theorem reset_except_keeps:
  assumes "keyed_ok s" "distinct order" "set order = {k. gl_objs s k \<noteq> None}"
  shows "\<exists>s'. reset_except keep order s = Some s' \<and> keyed_ok s' \<and>
    (\<forall>k. global_get s' k = (if k \<in> keep then global_get s k else None)) \<and>
    (\<forall>v. gl_heap s' v \<noteq> None \<longleftrightarrow> gl_heap s v \<noteq> None \<and> (\<forall>k. gl_objs s k = Some v \<longrightarrow> k \<in> keep))"
proof -
  let ?s = "s\<lparr>gl_objs := (\<lambda>k. if k \<in> set order - keep then None else gl_objs s k),
      gl_heap := (\<lambda>v. if \<exists>k \<in> set order - keep. gl_objs s k = Some v then None else gl_heap s v)\<rparr>"
  have "reset_except keep order s = Some ?s" unfolding reset_except_def by (rule reset_except_walk [OF assms(1,2)])
  moreover have "keyed_ok ?s" using assms by (auto simp: keyed_ok_def) (metis option.inject)
  moreover have "global_get ?s k = (if k \<in> keep then global_get s k else None)" for k using assms(3) by (auto simp: global_get_def)
  moreover have "gl_heap ?s v \<noteq> None \<longleftrightarrow> gl_heap s v \<noteq> None \<and> (\<forall>k. gl_objs s k = Some v \<longrightarrow> k \<in> keep)" for v
    using assms(3) by auto
  ultimately show ?thesis by blast
qed

definition two_objects :: "u64 global_store" where
  "two_objects = \<lparr>gl_objs = (\<lambda>k. if k = 1 then Some 10 else if k = 2 then Some 20 else None),
     gl_heap = (\<lambda>v. if v = 10 then Some 1 else if v = 20 then Some 2 else None)\<rparr>"

lemma reset_except_keeps_witness:
  "\<exists>s'. reset_except {2} [1, 2] two_objects = Some s' \<and> keyed_ok s' \<and>
    (\<forall>k. global_get s' k = (if k \<in> {2} then global_get two_objects k else None)) \<and>
    (\<forall>v. gl_heap s' v \<noteq> None \<longleftrightarrow> gl_heap two_objects v \<noteq> None \<and> (\<forall>k. gl_objs two_objects k = Some v \<longrightarrow> k \<in> {2}))"
  by (rule reset_except_keeps) (auto simp: two_objects_def keyed_ok_def)

text \<open>A second object of the same identifier takes the first one's place, which nobody deletes any more.\<close>

theorem replaced_object_leaks:
  assumes "keyed_ok s" "gl_objs s k = Some v" "gl_heap s p = None" "distinct order"
    and "set order = {k'. gl_objs s k' \<noteq> None}"
  shows "\<exists>s1 s2. new_object k (Some p) s = Some (p, s1) \<and> reset order s1 = Some s2 \<and> gl_heap s2 v = Some k"
proof -
  let ?s1 = "put_object k p (s\<lparr>gl_heap := (gl_heap s)(p := Some k)\<rparr>)"
  have v: "gl_heap s v = Some k" "v \<noteq> p" using assms(1,2,3) by (auto simp: keyed_ok_def)
  have k: "keyed_ok ?s1" using assms(1,3) by (auto simp: keyed_ok_def put_object_def)
  have "set order = {k'. gl_objs ?s1 k' \<noteq> None}" using assms(2,5) by (auto simp: put_object_def)
  from reset_deletes_once [OF k assms(4) this] have "\<exists>s2. reset order ?s1 = Some s2 \<and>
      gl_heap s2 v = (if v \<in> ran (gl_objs ?s1) then None else gl_heap ?s1 v)" by auto
  moreover have "v \<notin> ran (gl_objs ?s1)" using assms(1) v by (auto simp: ran_def put_object_def keyed_ok_def split: if_splits)
  ultimately show ?thesis using v by (auto simp: new_object_def put_object_def)
qed

text \<open>Names differ in more than their case: what was added under one is found under the other; an object made by
  \<^verbatim>\<open>newObject\<close> stands under its identifier as it is and is not found if that has a capital letter.\<close>

theorem istring_finds_any_case: "strlwr k = strlwr k' \<Longrightarrow> istring_get (istring_add k v s) k' = Some v"
  by (simp add: istring_get_def istring_add_def global_get_def put_object_def)

theorem istring_new_object_hidden:
  "\<lbrakk>strlwr k \<noteq> k; istring_get s k = None; new_object k (Some p) s = Some (p, s')\<rbrakk> \<Longrightarrow> istring_get s' k = None"
  by (auto simp: istring_get_def global_get_def new_object_def put_object_def)

section \<open>The key of a player\<close>

lemma key_mask: "bit (0xFFFF00FFFFFFFFFF :: u64) n \<longleftrightarrow> n < 40 \<or> 48 \<le> n \<and> n < 64"
proof -
  have eq: "(0xFFFF00FFFFFFFFFF :: u64) = NOT (push_bit 40 (mask 8))" by (simp add: mask_eq_exp_minus_1 push_bit_eq_mult)
  show ?thesis unfolding eq by (auto simp only: bit_not_iff bit_push_bit_iff bit_mask_iff possible_bit_word) simp_all
qed

lemma small_bits: "uint (x :: u64) < 2 ^ k \<Longrightarrow> bit x n \<Longrightarrow> n < k"
proof -
  assume "uint x < 2 ^ k" "bit x n"
  then have "bit (take_bit k (uint x)) n" using bit_imp_le_length [of x n] by (simp add: take_bit_int_eq_self bit_uint_iff)
  then show "n < k" by (simp add: bit_take_bit_iff)
qed

lemma scast_uint: "0 \<le> sint (w :: 32 word) \<Longrightarrow> uint (scast w :: u64) = sint w"
proof -
  assume p: "0 \<le> sint w"
  have "sint w < 2 ^ (LENGTH(32) - 1)" by (rule sint_lt)
  then have "sint w < 2 ^ LENGTH(64)" by simp
  then show ?thesis unfolding scast_eq uint_word_of_int using p by (rule mod_pos_pos_trivial [rotated])
qed

text \<open>C33: for a channel of one byte and a server of two, the key of a player has the low 40 bits of the identifier, then the channel, then the server, unless
  the identifier has one of its own.\<close>

theorem player_key_fields:
  assumes "0 \<le> sint channel" "sint channel < 256" "0 \<le> sint server" "sint server < 65536"
  shows "take_bit 40 (player_key i channel server) = take_bit 40 i \<and>
    uint (take_bit 8 (drop_bit 40 (player_key i channel server))) = sint channel \<and>
    uint (drop_bit 48 (player_key i channel server)) = (if drop_bit 48 i = 0 then sint server else uint (drop_bit 48 i))"
proof -
  let ?c = "scast channel :: u64" and ?s = "scast server :: u64"
  let ?p = "i AND 0xFFFF00FFFFFFFFFF OR push_bit 40 ?c" and ?k = "player_key i channel server"
  have u: "uint ?c = sint channel" "uint ?s = sint server" using assms scast_uint by auto
  have c: "bit ?c n \<Longrightarrow> n < 8" and s: "bit ?s n \<Longrightarrow> n < 16" for n
    using small_bits [of ?c 8 n] small_bits [of ?s 16 n] assms u by simp_all
  have p: "bit ?p n \<longleftrightarrow> (if n < 40 then bit i n else if n < 48 then bit ?c (n - 40) else n < 64 \<and> bit i n)" for n
        unfolding bit_or_iff bit_and_iff key_mask bit_push_bit_iff possible_bit_word using c [of "n - 40"] bit_imp_le_length [of i n] by auto
  have dp: "drop_bit 48 ?p = drop_bit 48 i"
  proof (rule bit_word_eqI)
    fix n
    show "bit (drop_bit 48 ?p) n = bit (drop_bit 48 i) n"
      unfolding bit_drop_bit_eq o_def p using bit_imp_le_length [of i "48 + n"] by auto
  qed
  define k where "k n = (if n < 40 then bit i n else if n < 48 then bit ?c (n - 40) else n < 64 \<and>
      (if drop_bit 48 i = 0 then bit ?s (n - 48) else bit i n))" for n
  have no: "\<not> bit i n" if "drop_bit 48 i = 0" "48 \<le> n" for n
  proof -
    have "bit (drop_bit 48 i) (n - 48) = bit i n" using that(2) unfolding bit_drop_bit_eq o_def by simp
    then show ?thesis using that(1) by simp
  qed
  have key: "bit ?k n \<longleftrightarrow> k n" for n
  proof (cases "drop_bit 48 i = 0")
    case True
    then have "?k = ?p OR push_bit 48 ?s" by (simp only: player_key_def Let_def dp if_True simp_thms)
    then have "bit ?k n \<longleftrightarrow> bit ?p n \<or> 48 \<le> n \<and> n < 64 \<and> bit ?s (n - 48)"
      by (simp only: bit_or_iff [of ?p "push_bit 48 ?s" n] bit_push_bit_iff possible_bit_word) auto
    then show ?thesis unfolding k_def p using True no [OF True, of n] bit_imp_le_length [of ?c "n - 40"] by (cases "n < 48") auto
  next
    case False
    then have "?k = ?p" by (simp only: player_key_def Let_def dp if_False)
    then show ?thesis unfolding k_def using False by (simp only: p if_False)
  qed
  have t1: "take_bit 40 ?k = take_bit 40 i"
    by (rule bit_word_eqI) (simp only: bit_take_bit_iff key k_def, auto)
  have t2: "take_bit 8 (drop_bit 40 ?k) = ?c"
  proof (rule bit_word_eqI)
    fix n
    show "bit (take_bit 8 (drop_bit 40 ?k)) n = bit ?c n"
      unfolding bit_take_bit_iff bit_drop_bit_eq o_def key k_def using c [of n] by auto
  qed
  have t3: "drop_bit 48 ?k = (if drop_bit 48 i = 0 then ?s else drop_bit 48 i)"
  proof (rule bit_word_eqI)
    fix n
    have "bit ?s n \<Longrightarrow> n < 16" by (rule s)
    moreover have "bit (drop_bit 48 i) n = bit i (48 + n)" by (simp only: bit_drop_bit_eq o_def)
    moreover have "bit (drop_bit 48 ?k) n = k (48 + n)" by (simp only: bit_drop_bit_eq o_def key)
    ultimately show "bit (drop_bit 48 ?k) n = bit (if drop_bit 48 i = 0 then ?s else drop_bit 48 i) n"
      using bit_imp_le_length [of i "48 + n"] by (simp only: k_def split: if_split) auto
  qed
  show ?thesis unfolding t1 t2 t3 using u by auto
qed

lemma player_key_fields_witness:
  "take_bit 40 (player_key 5 3 12) = take_bit 40 5 \<and> uint (take_bit 8 (drop_bit 40 (player_key 5 3 12))) = sint (3 :: 32 word) \<and>
    uint (drop_bit 48 (player_key 5 3 12)) = (if drop_bit 48 (5 :: u64) = 0 then sint (12 :: 32 word) else uint (drop_bit 48 (5 :: u64)))"
  by (rule player_key_fields) simp_all

section \<open>Data tables and messages\<close>

lemma and_not_mask: "unat (x AND NOT (mask b) :: u32) = unat x - unat x mod 2 ^ b"
proof -
  have "NOT x AND take_bit b x = 0" by (rule bit_word_eqI) (auto simp: bit_and_iff bit_not_iff bit_take_bit_iff)
  then have "x - take_bit b x = x AND NOT (take_bit b x)" by (rule disjunctive_diff_eq_and_not)
  moreover have "x AND NOT (take_bit b x) = x AND NOT (mask b)"
    by (rule bit_word_eqI) (auto simp: bit_and_iff bit_not_iff bit_take_bit_iff bit_mask_iff)
  moreover have "unat (take_bit b x) = unat x mod 2 ^ b" by (simp only: unsigned_take_bit_eq take_bit_eq_mod [of b "unat x"])
  ultimately have "unat (x AND NOT (mask b)) = unat (x - take_bit b x)" "take_bit b x \<le> x" "unat (take_bit b x) = unat x mod 2 ^ b"
    using \<open>x - take_bit b x = x AND NOT (take_bit b x)\<close> by (simp_all add: word_le_nat_alt)
  then show ?thesis by (simp only: unat_sub)
qed

lemma round_up:
  assumes "unat (i :: u32) + unat c < 2 ^ 32" "2 ^ b \<le> unat c"
  shows "unat i < unat ((i + c) AND NOT (mask b))"
proof -
  have eq: "unat (i + c) = unat i + unat c" using assms(1) by (simp add: unat_word_ariths(1))
  have "(unat i + unat c) mod 2 ^ b < 2 ^ b" by simp
  moreover have "(unat i + unat c) mod 2 ^ b \<le> unat i + unat c" by simp
  ultimately show ?thesis unfolding and_not_mask eq using assms(2) by linarith
qed

lemma wrap_round:
  assumes "2 ^ 32 \<le> unat (i :: u32) + unat c"
  shows "unat ((i + c) AND NOT m) \<le> unat i"
proof -
  have lt: "unat i < 2 ^ 32" "unat c < 2 ^ 32" using unsigned_less [of i] unsigned_less [of c] by simp_all
  then have "unat (i + c) = unat i + unat c - 2 ^ 32" using assms by (simp add: unat_word_ariths(1) mod_if)
  then have "unat (i + c) \<le> unat i" using lt(2) by simp
  moreover have "(i + c) AND NOT m \<le> i + c" by (rule word_and_le2)
  ultimately show ?thesis by (simp add: word_le_nat_alt)
qed

lemma masks: "(0x3F :: u32) = mask 6" "(15 :: u32) = mask 4"
  by (simp_all add: mask_eq_exp_minus_1)

lemma resize_nth: "j < n \<Longrightarrow> length xs \<le> n \<Longrightarrow> resize n xs ! j = (if j < length xs then xs ! j else None)"
  by (simp add: resize_def nth_append)

lemma length_resize: "length (resize n xs) = n"
  by (simp add: resize_def)

text \<open>Both tables grow past the place and keep what they have.\<close>

lemma grow_and_put:
  assumes "length xs \<le> i \<Longrightarrow> i < n"
  shows "\<exists>ys. upd_opt (if length xs \<le> i then resize n xs else xs) i (Some v) = Some ys \<and>
    (\<forall>j. (if length ys \<le> j then None else ys ! j) = (if j = i then Some v else if length xs \<le> j then None else xs ! j))"
proof (cases "length xs \<le> i")
  case True
  then have n: "i < n" by (rule assms)
  then have "upd_opt (resize n xs) i (Some v) = Some ((resize n xs)[i := Some v])" by (simp add: length_resize)
  moreover have "(if length ((resize n xs)[i := Some v]) \<le> j then None else (resize n xs)[i := Some v] ! j) =
      (if j = i then Some v else if length xs \<le> j then None else xs ! j)" for j
    using True n by (cases "j < n") (auto simp: length_resize resize_nth nth_list_update)
  ultimately show ?thesis using True by auto
qed (auto simp: nth_list_update)

theorem object_list_add_get:
  assumes "unat i + 64 < 2 ^ 32"
  shows "\<exists>ys. object_list_add i v xs = Some ys \<and> (\<forall>j. object_list_get ys j = (if j = i then Some v else object_list_get xs j))"
proof -
  have "unat i < unat ((i + 0x40) AND NOT 0x3F)" unfolding masks(1) using assms by (intro round_up) simp_all
  from grow_and_put [OF this, of xs v] show ?thesis
    unfolding object_list_add_def object_list_get_def Let_def word_unat_eq_iff by blast
qed

theorem object_list_add_wraps:
  assumes "2 ^ 32 \<le> unat i + 64" "length xs \<le> unat i"
  shows "object_list_add i v xs = None"
proof -
  have "unat ((i + 0x40) AND NOT 0x3F) \<le> unat i" using assms(1) by (intro wrap_round) simp
  then show ?thesis using assms(2) by (simp add: object_list_add_def upd_opt_def length_resize)
qed

lemma sysmsg_get_below: "sysmsg_get ms i = (if length ms \<le> unat i then None else ms ! unat i)"
  by (simp add: sysmsg_get_def)

theorem sysmsg_add_get:
  assumes "unat i + 31 < 2 ^ 32"
  shows "\<exists>ys. sysmsg_add i v xs = Some ys \<and> (\<forall>j. sysmsg_get ys j = (if j = i then Some v else sysmsg_get xs j))"
proof -
  have "unat i < unat ((i + 31) AND NOT 15)" unfolding masks(2) using assms by (intro round_up) simp_all
  from grow_and_put [OF this, of xs v] show ?thesis
    unfolding sysmsg_add_def sysmsg_get_below Let_def word_unat_eq_iff by blast
qed

theorem object_map_get_any: "object_map_get (object_map_add k v m) key = object_map_get (object_map_add k v m) key'"
  by (simp add: object_map_get_def split: list.split)

text \<open>\<^verbatim>\<open>vsnprintf\<close> since glibc 2.1: the length of the whole text, and as much of it as there is room for.\<close>

definition glibc :: "string \<Rightarrow> int \<Rightarrow> int \<times> string" where
  "glibc text sz = (int (length text), take (nat sz - 1) text)"

lemma whole_text_grown:
  assumes "int (length text) < 2 ^ 31 - 1" "\<And>sz. room sz"
  shows "grow_buffer (glibc text) room 256 = Some (Some text)"
proof -
  have fits: "grow_buffer (glibc text) room sz = Some (Some text)" if "int (length text) < sz" for sz
    using that assms(2) by (subst grow_buffer.simps) (simp add: glibc_def)
  show ?thesis
  proof (cases "int (length text) < 256")
    case False
    then show ?thesis using fits [of "int (length text) + 1"] assms by (subst grow_buffer.simps) (simp add: glibc_def Let_def)
  qed (rule fits)
qed

theorem whole_text_sent:
  assumes "int (length text) < 2 ^ 31 - 1" "\<And>sz. room sz"
  shows "sendva (glibc text) room ty player = Some [sysmsg_send ty text player]"
  using whole_text_grown [OF assms] by (simp add: sendva_def sysmsg_send_def)

theorem getvap_whole_text:
  assumes "int (length text) < 2 ^ 31 - 1" "\<And>sz. room sz"
  shows "getvap (glibc text) room ty = Some (Some (ty, text))"
  using whole_text_grown [OF assms] by (simp add: getvap_def)

text \<open>When \<^verbatim>\<open>vsnprintf\<close> reports an error, -1 for every size, the size is doubled until the \<^verbatim>\<open>int\<close> overflows.\<close>

theorem format_error_overflows:
  assumes "\<And>sz. fst (vs sz) = - 1" "\<And>sz. room sz"
  shows "sendva vs room ty player = None"
proof -
  have "grow_buffer vs room (2 ^ n) = None" if "n \<le> 30" for n
    using that
  proof (induction "30 - n" arbitrary: n)
    case 0
    then have "n = 30" by simp
    then show ?case using assms by (subst grow_buffer.simps) (simp add: case_prod_beta)
  next
    case (Suc m)
    then have "grow_buffer vs room (2 ^ Suc n) = None" by (intro Suc.hyps(1)) simp_all
    then show ?case using assms by (subst grow_buffer.simps) (simp add: case_prod_beta Let_def mult.commute)
  qed
  from this [of 8] show ?thesis by (simp add: sendva_def)
qed

end
