(* ===== verification/Sha1.thy ===== *)
theory Sha1
  imports ByteStream
begin

unbundle bit_operations_syntax

text \<open>
  The message digests \<^verbatim>\<open>Common/SHA1Engine.cpp\<close> and \<^verbatim>\<open>Common/DigestEngine.cpp\<close>: the context with its block of data and its
  64-bit count, \<^verbatim>\<open>update\<close>, \<^verbatim>\<open>transform\<close>, \<^verbatim>\<open>digest\<close>; then SHA-1 as FIPS 180-1 defines it for a whole message, and that the
  engine computes it however the message is cut into updates.

  \<open>sc_data\<close> are the bytes of \<^verbatim>\<open>data\<close> on a machine that stores the least significant byte first (\<^verbatim>\<open>_ARCH_LITTLE_ENDIAN\<close>), as
  the code reads and writes them both as bytes and as words.  \<open>None\<close> is a byte written behind the block.
\<close>

section \<open>The engine\<close>

record sha_ctx =
  sc_digest :: "u32 list"
  sc_lo :: u32
  sc_hi :: u32
  sc_data :: "u8 list"
  sc_slop :: u32

definition new_sha :: sha_ctx where
  "new_sha = \<lparr>sc_digest = [0x67452301, 0xEFCDAB89, 0x98BADCFE, 0x10325476, 0xC3D2E1F0], sc_lo = 0, sc_hi = 0,
     sc_data = replicate 64 0, sc_slop = 0\<rparr>"

definition rev32 :: "u32 \<Rightarrow> u32" where
  "rev32 w = (let v = push_bit 16 w OR drop_bit 16 w in drop_bit 8 (v AND 0xFF00FF00) OR push_bit 8 (v AND 0x00FF00FF))"

definition byte_reverse :: "nat \<Rightarrow> u8 list \<Rightarrow> u8 list" where
  "byte_reverse n mem = concat (map (\<lambda>c. word_bytes 4 (rev32 (word_of_bytes c))) (chunks 4 (n div 4) mem)) @ drop (4 * (n div 4)) mem"

definition rotl :: "nat \<Rightarrow> u32 \<Rightarrow> u32" where
  "rotl n x = push_bit n x OR drop_bit (32 - n) x"

definition sha_f1 :: "u32 \<Rightarrow> u32 \<Rightarrow> u32 \<Rightarrow> u32" where "sha_f1 x y z = (x AND y) OR (NOT x AND z)"
definition sha_f2 :: "u32 \<Rightarrow> u32 \<Rightarrow> u32 \<Rightarrow> u32" where "sha_f2 x y z = x XOR y XOR z"
definition sha_f3 :: "u32 \<Rightarrow> u32 \<Rightarrow> u32 \<Rightarrow> u32" where "sha_f3 x y z = (x AND y) OR (x AND z) OR (y AND z)"
definition sha_f4 :: "u32 \<Rightarrow> u32 \<Rightarrow> u32 \<Rightarrow> u32" where "sha_f4 x y z = x XOR y XOR z"

definition expand_word :: "u32 list \<Rightarrow> nat \<Rightarrow> u32 list" where
  "expand_word W n = W @ [rotl 1 (W ! (n - 3) XOR W ! (n - 8) XOR W ! (n - 14) XOR W ! (n - 16))]"

type_synonym sha_state = "u32 \<times> u32 \<times> u32 \<times> u32 \<times> u32"

definition sub_round :: "(u32 \<Rightarrow> u32 \<Rightarrow> u32 \<Rightarrow> u32) \<Rightarrow> u32 \<Rightarrow> u32 list \<Rightarrow> sha_state \<Rightarrow> nat \<Rightarrow> sha_state" where
  "sub_round f k W st n = (case st of (a, b, c, d, e) \<Rightarrow> (rotl 5 a + f b c d + e + W ! n + k, a, rotl 30 b, c, d))"

definition sha_rounds :: "u32 list \<Rightarrow> sha_state \<Rightarrow> sha_state" where
  "sha_rounds W st0 =
     (let st1 = foldl (sub_round sha_f1 0x5A827999 W) st0 [0..<20];
          st2 = foldl (sub_round sha_f2 0x6ED9EBA1 W) st1 [20..<40];
          st3 = foldl (sub_round sha_f3 0x8F1BBCDC W) st2 [40..<60]
      in foldl (sub_round sha_f4 0xCA62C1D6 W) st3 [60..<80])"

definition transform :: "sha_ctx \<Rightarrow> sha_ctx" where
  "transform s =
     (let W = foldl expand_word (map word_of_bytes (chunks 4 16 (sc_data s))) [16..<80];
          h = sc_digest s
      in case sha_rounds W (h ! 0, h ! 1, h ! 2, h ! 3, h ! 4) of (a, b, c, d, e) \<Rightarrow>
           s\<lparr>sc_digest := [h ! 0 + a, h ! 1 + b, h ! 2 + c, h ! 3 + d, h ! 4 + e]\<rparr>)"

definition update_byte :: "sha_ctx \<Rightarrow> u8 \<Rightarrow> sha_ctx option" where
  "update_byte s b =
     (case upd_opt (sc_data s) (unat (sc_slop s)) b of None \<Rightarrow> None
      | Some db \<Rightarrow>
          let s1 = s\<lparr>sc_data := db, sc_slop := sc_slop s + 1\<rparr>
          in Some (if sc_slop s1 = 64 then (transform (s1\<lparr>sc_data := byte_reverse 64 db\<rparr>))\<lparr>sc_slop := 0\<rparr> else s1))"

definition update_count :: "u32 \<Rightarrow> sha_ctx \<Rightarrow> sha_ctx" where
  "update_count n s =
     (let hi = (if sc_lo s + push_bit 3 n < sc_lo s then sc_hi s + 1 else sc_hi s)
      in s\<lparr>sc_lo := sc_lo s + push_bit 3 n, sc_hi := hi + drop_bit 29 n\<rparr>)"

text \<open>\<^verbatim>\<open>update\<close> of a buffer and of a string, whose size is cast to \<^verbatim>\<open>unsigned\<close>.\<close>

definition sha_update :: "u8 list \<Rightarrow> sha_ctx \<Rightarrow> sha_ctx option" where
  "sha_update bs s = foldm update_byte (update_count (of_nat (length bs)) s) bs"

definition sha_update_string :: "u8 list \<Rightarrow> sha_ctx \<Rightarrow> sha_ctx option" where
  "sha_update_string bs s = sha_update (take (unat (of_nat (length bs) :: u32)) bs) s"

definition sha_digest :: "sha_ctx \<Rightarrow> (u8 list \<times> sha_ctx) option" where
  "sha_digest s =
     (let lo = sc_lo s; hi = sc_hi s; n = unat (drop_bit 3 lo AND 0x3F)
      in case upd_opt (sc_data s) n 0x80 of None \<Rightarrow> None
      | Some db \<Rightarrow>
          let count = n + 1;
              s1 = s\<lparr>sc_data := db\<rparr>;
              s2 = (if count > 56
                    then (let t = transform (s1\<lparr>sc_data := byte_reverse 64 (take count db @ replicate (64 - count) 0)\<rparr>)
                          in t\<lparr>sc_data := replicate 56 0 @ drop 56 (sc_data t)\<rparr>)
                    else s1\<lparr>sc_data := take count db @ replicate (56 - count) 0 @ drop 56 db\<rparr>);
              s3 = transform (s2\<lparr>sc_data := take 56 (byte_reverse 64 (sc_data s2)) @ word_bytes 4 hi @ word_bytes 4 lo\<rparr>)
          in Some (map (\<lambda>c. ucast (drop_bit (8 * (3 - c mod 4)) (sc_digest s3 ! (c div 4))) AND 0xff) [0..<20], new_sha))"

definition hex_digit :: "nat \<Rightarrow> char" where
  "hex_digit n = ''0123456789abcdef'' ! n"

definition digest_to_hex :: "u8 list \<Rightarrow> string" where
  "digest_to_hex bs = concat (map (\<lambda>c. [hex_digit (unat (drop_bit 4 c AND 0xF)), hex_digit (unat (c AND 0xF))]) bs)"

section \<open>SHA-1 of a message\<close>

text \<open>FIPS 180-1: the schedule, the functions and constants of a step, the steps of a block, the padding, the digest.\<close>

function sched :: "(nat \<Rightarrow> u32) \<Rightarrow> nat \<Rightarrow> u32" where
  "sched M t = (if t < 16 then M t
     else rotl 1 (sched M (t - 3) XOR sched M (t - 8) XOR sched M (t - 14) XOR sched M (t - 16)))"
  by pat_completeness auto

termination sched
  by (relation "measure snd") auto

declare sched.simps [simp del]

definition step_f :: "nat \<Rightarrow> u32 \<Rightarrow> u32 \<Rightarrow> u32 \<Rightarrow> u32" where
  "step_f t b c d =
     (if t < 20 then (b AND c) OR (NOT b AND d) else if t < 40 then b XOR c XOR d
      else if t < 60 then (b AND c) OR (b AND d) OR (c AND d) else b XOR c XOR d)"

definition step_k :: "nat \<Rightarrow> u32" where
  "step_k t = (if t < 20 then 0x5A827999 else if t < 40 then 0x6ED9EBA1 else if t < 60 then 0x8F1BBCDC else 0xCA62C1D6)"

definition sha_step :: "(nat \<Rightarrow> u32) \<Rightarrow> sha_state \<Rightarrow> nat \<Rightarrow> sha_state" where
  "sha_step M st t = (case st of (a, b, c, d, e) \<Rightarrow> (rotl 5 a + step_f t b c d + e + sched M t + step_k t, a, rotl 30 b, c, d))"

definition be_words :: "u8 list \<Rightarrow> nat \<Rightarrow> u32" where
  "be_words block i = word_of_bytes (rev (take 4 (drop (4 * i) block)))"

definition compress :: "sha_state \<Rightarrow> u8 list \<Rightarrow> sha_state" where
  "compress st block =
     (case st of (h0, h1, h2, h3, h4) \<Rightarrow> case foldl (sha_step (be_words block)) st [0..<80] of (a, b, c, d, e) \<Rightarrow>
        (h0 + a, h1 + b, h2 + c, h3 + d, h4 + e))"

definition sha_pad :: "u8 list \<Rightarrow> u8 list" where
  "sha_pad m = m @ [0x80] @ replicate ((119 - length m mod 64) mod 64) 0 @ rev (le_bytes 8 (8 * length m))"

definition sha_init :: sha_state where
  "sha_init = (0x67452301, 0xEFCDAB89, 0x98BADCFE, 0x10325476, 0xC3D2E1F0)"

definition hash_blocks :: "sha_state \<Rightarrow> u8 list \<Rightarrow> sha_state" where
  "hash_blocks st bs = foldl compress st (chunks 64 (length bs div 64) bs)"

definition state_words :: "sha_state \<Rightarrow> u32 list" where
  "state_words st = (case st of (a, b, c, d, e) \<Rightarrow> [a, b, c, d, e])"

definition sha1 :: "u8 list \<Rightarrow> u8 list" where
  "sha1 m = concat (map (\<lambda>w. rev (word_bytes 4 w)) (state_words (hash_blocks sha_init (sha_pad m))))"


section \<open>Words and blocks\<close>

lemma word_of_bytes_Cons: "(word_of_bytes (b # bs) :: u32) = ucast b OR push_bit 8 (word_of_bytes bs)"
proof -
  have "(word_of_bytes (b # bs) :: u32) = ucast b + push_bit 8 (word_of_bytes bs)"
    by (simp add: word_of_bytes_def push_bit_eq_mult)
  moreover have "ucast b AND push_bit 8 (word_of_bytes bs :: u32) = 0"
    by (rule bit_word_eqI) (auto simp: bit_and_iff bit_push_bit_iff bit_ucast_iff dest: bit_imp_le_length)
  ultimately show ?thesis by (simp add: disjunctive_add_eq_or)
qed

lemma halves_masks: "(0xFF00FF00 :: u32) = push_bit 8 (mask 8) OR push_bit 24 (mask 8)" "(0x00FF00FF :: u32) = mask 8 OR push_bit 16 (mask 8)"
  by (simp_all add: mask_eq_exp_minus_1 push_bit_eq_mult)

lemma rev32_bytes: "rev32 (word_of_bytes [a, b, c, d]) = word_of_bytes [d, c, b, a]"
proof (rule bit_word_eqI)
  fix n assume n: "n < LENGTH(32)"
  have z: "\<not> bit (x :: u8) i" if "8 \<le> i" for x i using that bit_imp_le_length [of x i] by auto
  have "n < 8 \<or> 8 \<le> n \<and> n < 16 \<or> 16 \<le> n \<and> n < 24 \<or> 24 \<le> n" by linarith
  then show "bit (rev32 (word_of_bytes [a, b, c, d])) n = bit (word_of_bytes [d, c, b, a] :: u32) n"
    unfolding rev32_def Let_def halves_masks word_of_bytes_Cons using n
    by (elim disjE; simp add: bit_simps z word_of_bytes_def; (auto simp: z; fail)?)
qed

lemma length_chunks [simp]: "length (chunks k n bs) = n"
  by (induction n arbitrary: bs) simp_all

lemma chunks_nth: "i < n \<Longrightarrow> chunks k n bs ! i = take k (drop (k * i) bs)"
  by (induction n arbitrary: bs i) (auto simp: nth_Cons drop_drop add.commute split: nat.split)

lemma chunks_append: "length xs = k * n \<Longrightarrow> chunks k (n + m) (xs @ ys) = chunks k n xs @ chunks k m ys"
  by (induction n arbitrary: xs) auto

lemma rev32_rev: "length c = 4 \<Longrightarrow> rev32 (word_of_bytes c) = word_of_bytes (rev c)"
  by (auto simp: numeral_eq_Suc length_Suc_conv rev32_bytes)

lemma reversed_words:
  assumes "length mem = 64"
  shows "map word_of_bytes (chunks 4 16 (byte_reverse 64 mem)) = map (be_words mem) [0..<16]"
    and "length (byte_reverse 64 mem) = 64"
    and "take 56 (byte_reverse 64 mem) = concat (map (\<lambda>c. word_bytes 4 (rev32 (word_of_bytes c))) (chunks 4 14 mem))"
proof -
  let ?f = "\<lambda>c. word_bytes 4 (rev32 (word_of_bytes c))"
  have b: "byte_reverse 64 mem = concat (map ?f (chunks 4 16 mem))" using assms by (simp add: byte_reverse_def)
  have len: "length (concat (map ?f cs)) = 4 * length cs" for cs by (induction cs) simp_all
  have "chunks 4 16 (byte_reverse 64 mem) = map ?f (chunks 4 16 mem)"
    unfolding b using chunks_concat [of "chunks 4 16 mem" ?f 4] by simp
  moreover have "word_of_bytes (?f (chunks 4 16 mem ! i)) = be_words mem i" if "i < 16" for i
  proof -
    have c: "chunks 4 16 mem ! i = take 4 (drop (4 * i) mem)" using that by (rule chunks_nth)
    have "length (take 4 (drop (4 * i) mem)) = 4" using that assms by simp
    then show ?thesis unfolding c by (simp add: word_bytes_inverse rev32_rev be_words_def)
  qed
  ultimately have "word_of_bytes (chunks 4 16 (byte_reverse 64 mem) ! i) = be_words mem i" if "i < 16" for i
    using that by simp
  then show "map word_of_bytes (chunks 4 16 (byte_reverse 64 mem)) = map (be_words mem) [0..<16]"
    by (simp add: list_eq_iff_nth_eq del: upt_rec_numeral)
  show "length (byte_reverse 64 mem) = 64" unfolding b len by simp
  have "chunks 4 (14 + 2) (take 56 mem @ drop 56 mem) = chunks 4 14 (take 56 mem) @ chunks 4 2 (drop 56 mem)"
    using assms by (intro chunks_append) simp
  moreover have "chunks 4 (14 + 2) (take 56 mem @ drop 56 mem) = chunks 4 16 mem" by simp
  moreover have "chunks 4 14 (take 56 mem) = chunks 4 14 mem"
    by (auto simp: list_eq_iff_nth_eq chunks_nth drop_take min_def simp del: upt_rec_numeral)
  ultimately have "concat (map ?f (chunks 4 16 mem)) = concat (map ?f (chunks 4 14 mem)) @ concat (map ?f (chunks 4 2 (drop 56 mem)))"
    by simp
  then show "take 56 (byte_reverse 64 mem) = concat (map ?f (chunks 4 14 mem))" unfolding b using len [of "chunks 4 14 mem"] by simp
qed

lemma expand_sched:
  assumes "length W0 = 16" "\<And>t. t < 16 \<Longrightarrow> W0 ! t = M t"
  shows "length (foldl expand_word W0 [16..<16 + k]) = 16 + k \<and> (\<forall>t < 16 + k. foldl expand_word W0 [16..<16 + k] ! t = sched M t)"
proof (induction k)
  case 0
  then show ?case using assms by (simp add: sched.simps)
next
  case (Suc k)
  let ?W = "foldl expand_word W0 [16..<16 + k]"
  have "[16..<16 + Suc k] = [16..<16 + k] @ [16 + k]" unfolding add_Suc_right by (rule upt_Suc_append) simp
  then have "foldl expand_word W0 [16..<16 + Suc k] = expand_word ?W (16 + k)" by (simp only: foldl_append foldl.simps)
  moreover have "rotl 1 (?W ! (16 + k - 3) XOR ?W ! (16 + k - 8) XOR ?W ! (16 + k - 14) XOR ?W ! (16 + k - 16)) = sched M (16 + k)"
    using Suc by (subst sched.simps) simp
  ultimately have W: "foldl expand_word W0 [16..<16 + Suc k] = ?W @ [sched M (16 + k)]" by (simp only: expand_word_def)
  show ?case unfolding W
  proof (intro conjI allI impI)
    fix t assume t: "t < 16 + Suc k"
    then have "t < 16 + k \<or> t = 16 + k" by linarith
    then show "(?W @ [sched M (16 + k)]) ! t = sched M t" using Suc.IH by (auto simp: nth_append)
  qed (use Suc.IH in simp)
qed

lemma rounds_steps:
  assumes "\<And>t. t < 80 \<Longrightarrow> W ! t = sched M t"
  shows "sha_rounds W st = foldl (sha_step M) st [0..<80]"
proof -
  have r: "foldl (sub_round f k W) st [i..<j] = foldl (sha_step M) st [i..<j]"
    if "\<And>t. i \<le> t \<Longrightarrow> t < j \<Longrightarrow> step_f t = f \<and> step_k t = k \<and> t < 80" for f k i j st
  proof (rule foldl_cong [OF refl refl])
    fix s t assume "t \<in> set [i..<j]"
    then have "step_f t = f" "step_k t = k" "t < 80" using that [of t] by auto
    then show "sub_round f k W s t = sha_step M s t" using assms [of t] by (simp add: sub_round_def sha_step_def split: prod.split)
  qed
  have upt: "[0..<80] = [0..<20] @ [20..<40] @ [40..<60] @ [60..<80]" 
    using upt_add_eq_append [of 0 60 20] upt_add_eq_append [of 0 40 20] upt_add_eq_append [of 0 20 20] by (simp del: upt_rec_numeral)
  have "step_f t = sha_f1" if "t < 20" for t using that by (simp add: step_f_def sha_f1_def fun_eq_iff)
  moreover have "step_f t = sha_f2" if "20 \<le> t" "t < 40" for t using that by (simp add: step_f_def sha_f2_def fun_eq_iff)
  moreover have "step_f t = sha_f3" if "40 \<le> t" "t < 60" for t using that by (simp add: step_f_def sha_f3_def fun_eq_iff)
  moreover have "step_f t = sha_f4" if "60 \<le> t" for t using that by (simp add: step_f_def sha_f4_def fun_eq_iff)
  ultimately show ?thesis unfolding sha_rounds_def Let_def upt foldl_append
    by (simp add: r step_k_def del: upt_rec_numeral)
qed

lemma transform_block:
  assumes "map word_of_bytes (chunks 4 16 (sc_data s)) = map (be_words block) [0..<16]" "sc_digest s = state_words h"
  shows "transform s = s\<lparr>sc_digest := state_words (compress h block)\<rparr>"
proof -
  let ?W0 = "map (be_words block) [0..<16]"
  have w: "foldl expand_word ?W0 [16..<80] ! t = sched (be_words block) t" if "t < 80" for t
    using expand_sched [of ?W0 "be_words block" 64] that by (simp del: upt_rec_numeral)
  obtain a b c d e where h: "h = (a, b, c, d, e)" by (cases h)
  have st: "(sc_digest s ! 0, sc_digest s ! 1, sc_digest s ! 2, sc_digest s ! 3, sc_digest s ! 4) = h"
    by (simp add: assms(2) h state_words_def eval_nat_numeral)
  have "sha_rounds (foldl expand_word ?W0 [16..<80]) h = foldl (sha_step (be_words block)) h [0..<80]"
    by (rule rounds_steps) (rule w)
  then show ?thesis unfolding transform_def Let_def assms(1) st
    unfolding compress_def by (simp only: h assms(2) state_words_def prod.case split: prod.split) (simp add: eval_nat_numeral)
qed

section \<open>Updates\<close>

text \<open>After the bytes \<open>m\<close>: the whole blocks have been hashed, the rest stands at the start of the data, the count is theirs.\<close>

definition data_ok :: "u8 list \<Rightarrow> sha_ctx \<Rightarrow> bool" where
  "data_ok m s \<longleftrightarrow> length (sc_data s) = 64 \<and> unat (sc_slop s) = length m mod 64 \<and>
     take (length m mod 64) (sc_data s) = drop (64 * (length m div 64)) m \<and> sc_digest s = state_words (hash_blocks sha_init m)"

definition count_ok :: "u8 list \<Rightarrow> sha_ctx \<Rightarrow> bool" where
  "count_ok m s \<longleftrightarrow> unat (sc_lo s) = 8 * length m mod 2 ^ 32 \<and> unat (sc_hi s) = 8 * length m div 2 ^ 32 mod 2 ^ 32"

lemma hash_blocks_append:
  assumes "64 dvd length xs"
  shows "hash_blocks st (xs @ ys) = hash_blocks (hash_blocks st xs) ys"
proof -
  from assms obtain n where n: "length xs = 64 * n" by (auto elim: dvdE)
  then have "length (xs @ ys) div 64 = n + length ys div 64" by simp
  then show ?thesis using chunks_append [OF n, of "length ys div 64" ys] n by (simp add: hash_blocks_def)
qed

lemma hash_blocks_short: "length ys < 64 \<Longrightarrow> hash_blocks st ys = st"
  by (simp add: hash_blocks_def)

lemma hash_blocks_one: "length ys = 64 \<Longrightarrow> hash_blocks st ys = compress st ys"
  by (simp add: hash_blocks_def)

lemma hash_blocks_rest:
  "hash_blocks st m = hash_blocks st (take (64 * (length m div 64)) m)"
proof -
  have "length (take (64 * (length m div 64)) m) = 64 * (length m div 64)" by simp
  then have "hash_blocks st (take (64 * (length m div 64)) m @ drop (64 * (length m div 64)) m) =
      hash_blocks (hash_blocks st (take (64 * (length m div 64)) m)) (drop (64 * (length m div 64)) m)"
    by (intro hash_blocks_append) simp
  moreover have "length (drop (64 * (length m div 64)) m) < 64" by (simp add: minus_mult_div_eq_mod)
  ultimately show ?thesis by (simp add: hash_blocks_short)
qed

lemma hash_blocks_last:
  assumes "length m mod 64 + length ys = 64"
  shows "hash_blocks st (m @ ys) = compress (hash_blocks st m) (drop (64 * (length m div 64)) m @ ys)"
proof -
  let ?q = "64 * (length m div 64)"
  have "hash_blocks st (take ?q m @ drop ?q m @ ys) = hash_blocks (hash_blocks st (take ?q m)) (drop ?q m @ ys)"
    by (intro hash_blocks_append) simp
  moreover have "take ?q m @ drop ?q m @ ys = m @ ys" by simp
  moreover have "length (drop ?q m @ ys) = 64" using assms by (simp add: minus_mult_div_eq_mod)
  ultimately show ?thesis using hash_blocks_one hash_blocks_rest [of st m] by metis
qed

lemma data_ok_new: "data_ok [] new_sha" "count_ok [] new_sha"
  by (simp_all add: data_ok_def count_ok_def new_sha_def hash_blocks_def sha_init_def state_words_def)

lemma update_byte_ok:
  assumes "data_ok m s"
  shows "\<exists>s'. update_byte s b = Some s' \<and> data_ok (m @ [b]) s' \<and> sc_lo s' = sc_lo s \<and> sc_hi s' = sc_hi s"
proof -
  let ?k = "length m mod 64" and ?q = "64 * (length m div 64)" and ?db = "(sc_data s)[length m mod 64 := b]"
  have s: "length (sc_data s) = 64" "unat (sc_slop s) = ?k" "take ?k (sc_data s) = drop ?q m"
      "sc_digest s = state_words (hash_blocks sha_init m)" using assms by (simp_all add: data_ok_def)
  have k: "?k < 64" by simp
  have db: "take (Suc ?k) ?db = drop ?q (m @ [b])"
    using s(1,3) k by (simp add: take_Suc_conv_app_nth)
  have u: "upd_opt (sc_data s) (unat (sc_slop s)) b = Some ?db" using s k by simp
  have slop: "unat (sc_slop s + 1) = ?k + 1" using s(2) k by (simp add: unat_word_ariths)
  then have full: "sc_slop s + 1 = 64 \<longleftrightarrow> ?k = 63" by (simp add: word_unat_eq_iff)
  show ?thesis
  proof (cases "?k = 63")
    case False
    then have m: "(length m + 1) mod 64 = ?k + 1" "(length m + 1) div 64 = length m div 64"
      using k by (simp_all add: mod_Suc div_Suc)
    have "hash_blocks sha_init (m @ [b]) = hash_blocks sha_init m"
      using m(2) hash_blocks_rest [of sha_init "m @ [b]"] hash_blocks_rest [of sha_init m] by simp
    then have "data_ok (m @ [b]) (s\<lparr>sc_data := ?db, sc_slop := sc_slop s + 1\<rparr>)"
      using s db m slop by (simp add: data_ok_def)
    then show ?thesis using u False full by (simp add: update_byte_def)
  next
    case True
    then have m: "(length m + 1) mod 64 = 0" "64 * ((length m + 1) div 64) = length m + 1"
      using mult_div_mod_eq [of 64 "length m + 1"] by (simp_all add: mod_Suc)
    have db64: "?db = drop ?q (m @ [b])" "length ?db = 64" using db True s(1) k minus_mult_div_eq_mod [of "length m" 64] by simp_all
    let ?t = "s\<lparr>sc_slop := sc_slop s + 1, sc_data := byte_reverse 64 ?db\<rparr>"
    have "transform ?t = ?t\<lparr>sc_digest := state_words (compress (hash_blocks sha_init m) ?db)\<rparr>"
      using s(4) reversed_words(1) [OF db64(2)] by (intro transform_block) simp_all
    moreover have "hash_blocks sha_init (m @ [b]) = compress (hash_blocks sha_init m) ?db"
      using hash_blocks_last [of m "[b]" sha_init] db True unfolding db64(1) by simp
    ultimately have "data_ok (m @ [b]) ((transform ?t)\<lparr>sc_slop := 0\<rparr>)" "sc_lo (transform ?t) = sc_lo s" "sc_hi (transform ?t) = sc_hi s"
      using m reversed_words(2) [OF db64(2)] by (simp_all add: data_ok_def)
    moreover have "update_byte s b = Some ((transform ?t)\<lparr>sc_slop := 0\<rparr>)"
      using u True full by (simp add: update_byte_def Let_def)
    ultimately show ?thesis by simp
  qed
qed

lemma update_bytes_ok:
  "data_ok m s \<Longrightarrow> \<exists>s'. foldm update_byte s bs = Some s' \<and> data_ok (m @ bs) s' \<and> sc_lo s' = sc_lo s \<and> sc_hi s' = sc_hi s"
proof (induction bs arbitrary: m s)
  case (Cons b bs)
  from update_byte_ok [OF Cons.prems, of b] obtain s1 where s1: "update_byte s b = Some s1" "data_ok (m @ [b]) s1"
      "sc_lo s1 = sc_lo s" "sc_hi s1 = sc_hi s" by blast
  from Cons.IH [OF s1(2)] obtain s' where "foldm update_byte s1 bs = Some s'" "data_ok (m @ b # bs) s'"
      "sc_lo s' = sc_lo s1" "sc_hi s' = sc_hi s1" by auto
  with s1 show ?case by auto
qed simp

lemma wrapped_sum: "x + y < x \<longleftrightarrow> 2 ^ 32 \<le> unat x + unat (y :: u32)"
proof -
  have "unat x < 2 ^ 32" "unat y < 2 ^ 32" using unsigned_less [of x] unsigned_less [of y] by simp_all
  then show ?thesis unfolding word_less_nat_alt by (simp add: unat_word_ariths(1) mod_if; arith)
qed

lemma unat_sum3: "unat (a + b + d :: u32) = (unat a + unat b + unat d) mod 2 ^ 32"
  by (simp add: unat_word_ariths(1) mod_simps)

lemma unat_of_bool: "unat (of_bool P :: u32) = of_bool P"
  by (cases P) simp_all

lemma carry_bit: "a < n \<Longrightarrow> b < n \<Longrightarrow> (a + b) div n = (of_bool (n \<le> a + b) :: nat)"
  by (auto simp: div_if)

lemma update_count_ok:
  assumes "count_ok m s" "length bs < 2 ^ 32"
  shows "count_ok (m @ bs) (update_count (of_nat (length bs)) s)"
proof -
  let ?n = "of_nat (length bs) :: u32" and ?M = "8 * length m" and ?N = "8 * length bs"
  have n: "unat ?n = length bs" using assms(2) by (simp add: unsigned_of_nat take_bit_nat_eq_self)
  have "length bs div 2 ^ 29 < 2 ^ 32" using assms(2) div_le_dividend [of "length bs" "2 ^ 29"] by linarith
  then have sh: "unat (push_bit 3 ?n) = ?N mod 2 ^ 32" "unat (drop_bit 29 ?n) = ?N div 2 ^ 32"
    using n by (simp_all add: push_bit_eq_mult unat_word_ariths unat_drop_bit_eq drop_bit_eq_div mult.commute)
  have c: "unat (sc_lo s) = ?M mod 2 ^ 32" "unat (sc_hi s) = ?M div 2 ^ 32 mod 2 ^ 32" using assms(1) by (simp_all add: count_ok_def)
  have lo: "unat (sc_lo s + push_bit 3 ?n) = (?M + ?N) mod 2 ^ 32"
    unfolding unat_word_ariths(1) c(1) sh(1) by (simp add: mod_add_eq)
  have carry: "sc_lo s + push_bit 3 ?n < sc_lo s \<longleftrightarrow> 2 ^ 32 \<le> ?M mod 2 ^ 32 + ?N mod 2 ^ 32"
    using wrapped_sum [of "sc_lo s" "push_bit 3 ?n"] unfolding c(1) sh(1) .
  have one: "(?M mod 2 ^ 32 + ?N mod 2 ^ 32) div 2 ^ 32 = of_bool (2 ^ 32 \<le> ?M mod 2 ^ 32 + ?N mod 2 ^ 32)"
    by (rule carry_bit) simp_all
  have "unat (sc_hi (update_count ?n s)) = (?M div 2 ^ 32 mod 2 ^ 32 + of_bool (2 ^ 32 \<le> ?M mod 2 ^ 32 + ?N mod 2 ^ 32) + ?N div 2 ^ 32) mod 2 ^ 32"
  proof -
    have "sc_hi (update_count ?n s) = sc_hi s + of_bool (2 ^ 32 \<le> ?M mod 2 ^ 32 + ?N mod 2 ^ 32) + drop_bit 29 ?n"
      unfolding update_count_def Let_def carry by simp
    then show ?thesis by (simp only: unat_sum3 c(2) sh(2)) (simp only: unat_of_bool)
  qed
  also have "\<dots> = (?M div 2 ^ 32 + ?N div 2 ^ 32 + of_bool (2 ^ 32 \<le> ?M mod 2 ^ 32 + ?N mod 2 ^ 32)) mod 2 ^ 32"
    unfolding add.assoc mod_add_left_eq by (simp only: ac_simps)
  also have "\<dots> = (?M + ?N) div 2 ^ 32 mod 2 ^ 32" unfolding one [symmetric] by (simp only: div_add1_eq [of ?M ?N])
  finally have hi: "unat (sc_hi (update_count ?n s)) = (?M + ?N) div 2 ^ 32 mod 2 ^ 32" .
  show ?thesis using lo hi by (simp add: count_ok_def update_count_def)
qed

section \<open>The digest\<close>

lemma le_bytes_append: "le_bytes (a + b) n = le_bytes a n @ le_bytes b (n div 256 ^ a)"
  by (induction a arbitrary: n) (simp_all add: div_mult2_eq)

lemma le_bytes_mod: "le_bytes k (n mod 256 ^ k) = le_bytes k n"
proof (induction k arbitrary: n)
  case (Suc k)
  have "n mod 256 ^ Suc k mod 256 = n mod 256" by (simp add: mod_mod_cancel)
  moreover have "n mod 256 ^ Suc k div 256 = n div 256 mod 256 ^ k" by (simp add: mod_mult2_eq)
  ultimately show ?case using Suc [of "n div 256"] by (simp only: le_bytes.simps)
qed simp

lemma length_field:
  assumes "unat lo = n mod 2 ^ 32" "unat hi = n div 2 ^ 32 mod 2 ^ 32"
  shows "rev (le_bytes 8 n) = rev (word_bytes 4 (hi :: u32)) @ rev (word_bytes 4 (lo :: u32))"
proof -
  have "le_bytes (4 + 4) n = le_bytes 4 n @ le_bytes 4 (n div 256 ^ 4)" by (rule le_bytes_append)
  moreover have "word_bytes 4 lo = le_bytes 4 n" "word_bytes 4 hi = le_bytes 4 (n div 256 ^ 4)"
    using le_bytes_mod [of 4 n] le_bytes_mod [of 4 "n div 256 ^ 4"] assms by (simp_all add: word_bytes_def)
  ultimately show ?thesis by simp
qed

text \<open>The last block: 56 bytes that have been reversed, and the count.\<close>

lemma last_block_words:
  assumes "length mem = 64"
  shows "map word_of_bytes (chunks 4 16 (take 56 (byte_reverse 64 mem) @ word_bytes 4 hi @ word_bytes 4 lo)) =
    map (be_words (take 56 mem @ rev (word_bytes 4 (hi :: u32)) @ rev (word_bytes 4 (lo :: u32)))) [0..<16]"
proof -
  let ?f = "\<lambda>c. word_bytes 4 (rev32 (word_of_bytes c))" and ?new = "take 56 mem @ rev (word_bytes 4 hi) @ rev (word_bytes 4 lo)"
  have l: "length (take 56 (byte_reverse 64 mem)) = 4 * 14" "length ?new = 64" using assms reversed_words(2) [OF assms] by simp_all
  have "chunks 4 (14 + 2) (take 56 (byte_reverse 64 mem) @ word_bytes 4 hi @ word_bytes 4 lo) =
      chunks 4 14 (take 56 (byte_reverse 64 mem)) @ chunks 4 2 (word_bytes 4 hi @ word_bytes 4 lo)"
    using l(1) by (rule chunks_append)
  moreover have "chunks 4 14 (take 56 (byte_reverse 64 mem)) = map ?f (chunks 4 14 mem)"
    unfolding reversed_words(3) [OF assms] using chunks_concat [of "chunks 4 14 mem" ?f 4] by simp
  moreover have "chunks 4 2 (word_bytes 4 hi @ word_bytes 4 lo) = [word_bytes 4 hi, word_bytes 4 lo]" by (simp add: numeral_2_eq_2)
  ultimately have c: "map word_of_bytes (chunks 4 16 (take 56 (byte_reverse 64 mem) @ word_bytes 4 hi @ word_bytes 4 lo)) =
      map (\<lambda>c. rev32 (word_of_bytes c)) (chunks 4 14 mem) @ [hi, lo]" by (simp add: word_bytes_inverse o_def)
  have "(map (\<lambda>c. rev32 (word_of_bytes c)) (chunks 4 14 mem) @ [hi, lo]) ! i = be_words ?new i" if "i < 16" for i
  proof -
    consider "i < 14" | "i = 14" | "i = 15" using \<open>i < 16\<close> by linarith
    then show ?thesis
    proof cases
      case 1
      then have "4 \<le> 56 - 4 * i" by linarith
      then have "take 4 (drop (4 * i) ?new) = take 4 (drop (4 * i) mem)" "length (take 4 (drop (4 * i) mem)) = 4"
        using 1 assms by (simp_all add: drop_take min_def)
      with 1 show ?thesis by (simp add: nth_append chunks_nth be_words_def rev32_rev)
    next
      case 2
      then have "take 4 (drop (4 * i) ?new) = rev (word_bytes 4 hi)" using assms by simp
      with 2 show ?thesis by (simp add: nth_append be_words_def word_bytes_inverse)
    next
      case 3
      then have "take 4 (drop (4 * i) ?new) = rev (word_bytes 4 lo)" using assms by simp
      with 3 show ?thesis by (simp add: nth_append be_words_def word_bytes_inverse)
    qed
  qed
  then show ?thesis unfolding c by (simp add: list_eq_iff_nth_eq del: upt_rec_numeral)
qed

lemma of_nat_unat_id: "of_nat (unat x) = (x :: u8)"
  by simp

lemma byte_at: "(ucast (drop_bit (8 * k) (w :: u32)) :: u8) AND 0xff = of_nat (unat w div 256 ^ k mod 256)"
proof -
  have "(0xff :: u8) = - 1" by simp
  then have "(ucast (drop_bit (8 * k) w) :: u8) AND 0xff = ucast (drop_bit (8 * k) w)" by (simp only: and.right_neutral)
  moreover have "unat (drop_bit (8 * k) w) = unat w div 256 ^ k"
    unfolding unat_drop_bit_eq by (simp add: drop_bit_eq_div power_mult)
  then have "unat (ucast (drop_bit (8 * k) w) :: u8) = unat w div 256 ^ k mod 256"
    unfolding unsigned_ucast_eq by (simp add: take_bit_eq_mod)
  then have "(ucast (drop_bit (8 * k) w) :: u8) = of_nat (unat w div 256 ^ k mod 256)" by (metis of_nat_unat_id)
  ultimately show ?thesis by (rule trans)
qed

lemma word_bytes_four: "word_bytes 4 (w :: u32) = map (\<lambda>k. of_nat (unat w div 256 ^ k mod 256)) [0..<4]"
  by (simp add: word_bytes_def le_bytes_numeral div_mult2_eq [symmetric] upt_rec)

lemma byte_of_word: "i < 4 \<Longrightarrow> rev (word_bytes 4 w) ! i = ucast (drop_bit (8 * (3 - i)) w) AND 0xff" for w :: u32
proof -
  assume i: "i < 4"
  have "rev (word_bytes 4 w) ! i = word_bytes 4 w ! (3 - i)" using i by (simp add: rev_nth)
  also have "\<dots> = of_nat (unat w div 256 ^ (3 - i) mod 256)" unfolding word_bytes_four using i nth_upt [of 0 "3 - i" 4] by simp
  finally show ?thesis unfolding byte_at .
qed

lemma digest_bytes:
  "map (\<lambda>c. ucast (drop_bit (8 * (3 - c mod 4)) (state_words h ! (c div 4))) AND 0xff) [0..<20] =
    concat (map (\<lambda>w. rev (word_bytes 4 w)) (state_words h))"
proof -
  have four: "map (\<lambda>c. ucast (drop_bit (8 * (3 - c mod 4)) (w :: u32)) AND 0xff) [0..<4] = rev (word_bytes 4 w)" for w
    by (simp add: list_eq_iff_nth_eq byte_of_word del: upt_rec_numeral)
  obtain a b c d e where h: "h = (a, b, c, d, e)" by (cases h)
  show ?thesis unfolding h state_words_def prod.case list.map concat.simps four [symmetric]
    by (simp add: upt_rec)
qed

lemma take_exact: "length xs = n \<Longrightarrow> take n (xs @ ys) = xs"
  by simp

lemma count_index: "count_ok m s \<Longrightarrow> unat (drop_bit 3 (sc_lo s) AND 0x3F) = length m mod 64"
proof -
  assume c: "count_ok m s"
  have "drop_bit 3 (sc_lo s) AND 0x3F = take_bit 6 (drop_bit 3 (sc_lo s))" by (simp add: take_bit_eq_mask mask_eq_exp_minus_1)
  then have "unat (drop_bit 3 (sc_lo s) AND 0x3F) = take_bit 6 (drop_bit 3 (unat (sc_lo s)))"
    by (simp only: unsigned_take_bit_eq unat_drop_bit_eq)
  also have "\<dots> = 8 * length m mod (8 * 2 ^ 29) div 8 mod 64" using c by (simp add: count_ok_def take_bit_eq_mod drop_bit_eq_div)
  also have "\<dots> = length m mod 2 ^ 29 mod 64" by (simp only: mult_mod_right [symmetric] nonzero_mult_div_cancel_left)
  finally show ?thesis by (simp add: mod_mod_cancel)
qed


text \<open>The two blocks that \<^verbatim>\<open>digest\<close> may need, and the words of the last one.\<close>

lemma transform_last:
  fixes hi lo :: u32
  assumes "length (sc_data s) = 64" "sc_digest s = state_words h"
  shows "sc_digest (transform (s\<lparr>sc_data := take 56 (byte_reverse 64 (sc_data s)) @ word_bytes 4 hi @ word_bytes 4 lo\<rparr>)) =
    state_words (compress h (take 56 (sc_data s) @ rev (word_bytes 4 hi) @ rev (word_bytes 4 lo)))"
proof -
  let ?s = "s\<lparr>sc_data := take 56 (byte_reverse 64 (sc_data s)) @ word_bytes 4 hi @ word_bytes 4 lo\<rparr>"
  have "transform ?s = ?s\<lparr>sc_digest := state_words (compress h (take 56 (sc_data s) @ rev (word_bytes 4 hi) @ rev (word_bytes 4 lo)))\<rparr>"
    using last_block_words [OF assms(1), of hi lo] assms(2) by (intro transform_block) simp_all
  then show ?thesis by simp
qed

lemma transform_first:
  assumes "length mem = 64" "sc_digest s = state_words h"
  shows "transform (s\<lparr>sc_data := byte_reverse 64 mem\<rparr>) = s\<lparr>sc_data := byte_reverse 64 mem, sc_digest := state_words (compress h mem)\<rparr>"
  using reversed_words(1) [OF assms(1)] assms(2) by (subst transform_block [where h = h and block = mem]) simp_all

lemma pad_one_block:
  assumes "length m mod 64 < 56"
  shows "hash_blocks st (sha_pad m) = compress (hash_blocks st m)
    (drop (64 * (length m div 64)) m @ [0x80] @ replicate (55 - length m mod 64) 0 @ rev (le_bytes 8 (8 * length m)))"
proof -
  have "119 - length m mod 64 = (55 - length m mod 64) + 64" using assms by linarith
  then have "(119 - length m mod 64) mod 64 = 55 - length m mod 64" by (simp only: mod_add_self2) simp
  then have "sha_pad m = m @ ([0x80] @ replicate (55 - length m mod 64) 0 @ rev (le_bytes 8 (8 * length m)))" by (simp only: sha_pad_def)
  moreover have "length m mod 64 + length ([0x80] @ replicate (55 - length m mod 64) 0 @ rev (le_bytes 8 (8 * length m))) = 64"
    using assms by simp
  ultimately show ?thesis by (simp only: hash_blocks_last)
qed

lemma pad_two_blocks:
  assumes "56 \<le> length m mod 64"
  shows "hash_blocks st (sha_pad m) = compress (compress (hash_blocks st m)
    (drop (64 * (length m div 64)) m @ [0x80] @ replicate (63 - length m mod 64) 0)) (replicate 56 0 @ rev (le_bytes 8 (8 * length m)))"
proof -
  let ?first = "m @ [0x80] @ replicate (63 - length m mod 64) 0" and ?len = "rev (le_bytes 8 (8 * length m))"
  have k: "length m mod 64 < 64" by simp
  have "119 - length m mod 64 = (63 - length m mod 64) + 56" "(63 - length m mod 64) + 56 < 64" using assms k by linarith+
  then have "(119 - length m mod 64) mod 64 = (63 - length m mod 64) + 56" by (simp only: mod_less)
  then have p: "sha_pad m = ?first @ replicate 56 0 @ ?len" by (simp only: sha_pad_def replicate_add append_assoc)
  have "length ?first = length m + 1 + (63 - length m mod 64)" by simp
  moreover have "\<dots> = 64 * (length m div 64 + 1)"
  proof -
    have "n + 1 + (63 - r) = 64 * (q + 1)" if "r < 64" "64 * q + r = n" for n q r :: nat using that by simp
    with k mult_div_mod_eq show ?thesis by blast
  qed
  ultimately have "length ?first = 64 * (length m div 64 + 1)" by (rule trans)
  then have "64 dvd length ?first" by simp
  then have "hash_blocks st (sha_pad m) = hash_blocks (hash_blocks st ?first) (replicate 56 0 @ ?len)"
    unfolding p by (rule hash_blocks_append)
  moreover have "hash_blocks st ?first = compress (hash_blocks st m) (drop (64 * (length m div 64)) m @ [0x80] @ replicate (63 - length m mod 64) 0)"
    using k by (intro hash_blocks_last) simp
  moreover have "length (replicate 56 0 @ ?len) = 64" by simp
  ultimately show ?thesis using hash_blocks_one [of "replicate 56 0 @ ?len"] by metis
qed

lemma digest_sha1:
  assumes "data_ok m s" "count_ok m s"
  shows "sha_digest s = Some (sha1 m, new_sha)"
proof -
  let ?k = "length m mod 64" and ?q = "64 * (length m div 64)" and ?H = "hash_blocks sha_init m"
  define db where "db = (sc_data s)[?k := 0x80]"
  define hi lo where "hi = sc_hi s" and "lo = sc_lo s"
  have s: "length (sc_data s) = 64" "take ?k (sc_data s) = drop ?q m" "sc_digest s = state_words ?H"
    using assms(1) by (simp_all add: data_ok_def)
  have k: "?k < 64" by simp
  have len: "rev (le_bytes 8 (8 * length m)) = rev (word_bytes 4 hi) @ rev (word_bytes 4 lo)"
    using assms(2) unfolding hi_def lo_def by (intro length_field) (simp_all add: count_ok_def)
  have start: "take (?k + 1) db = drop ?q m @ [0x80]" using s(1,2) k by (simp add: take_Suc_conv_app_nth db_def)
  have u: "upd_opt (sc_data s) ?k 0x80 = Some db" using s(1) k by (simp add: db_def)
  have ldb: "length db = 64" using s(1) by (simp add: db_def)
  define s2 where "s2 = (if ?k + 1 > 56
      then (transform (s\<lparr>sc_data := byte_reverse 64 (take (?k + 1) db @ replicate (64 - (?k + 1)) 0)\<rparr>))
        \<lparr>sc_data := replicate 56 0 @ drop 56 (sc_data (transform (s\<lparr>sc_data := byte_reverse 64 (take (?k + 1) db @ replicate (64 - (?k + 1)) 0)\<rparr>)))\<rparr>
      else s\<lparr>sc_data := take (?k + 1) db @ replicate (56 - (?k + 1)) 0 @ drop 56 db\<rparr>)"
  define s3 where "s3 = transform (s2\<lparr>sc_data := take 56 (byte_reverse 64 (sc_data s2)) @ word_bytes 4 hi @ word_bytes 4 lo\<rparr>)"
  have d: "sha_digest s = Some (map (\<lambda>c. ucast (drop_bit (8 * (3 - c mod 4)) (sc_digest s3 ! (c div 4))) AND 0xff) [0..<20], new_sha)"
    unfolding sha_digest_def Let_def count_index [OF assms(2)] u option.case s3_def s2_def hi_def lo_def
    by (simp add: if_distrib)
  have "sc_digest s3 = state_words (hash_blocks sha_init (sha_pad m))"
  proof (cases "?k + 1 > 56")
    case False
    then have s2: "s2 = s\<lparr>sc_data := (take (?k + 1) db @ replicate (56 - (?k + 1)) 0) @ drop 56 db\<rparr>" by (simp add: s2_def)
    have l: "length (take (?k + 1) db @ replicate (56 - (?k + 1)) 0) = 56" using False ldb by simp
    have "length (sc_data s2) = 64" "sc_digest s2 = state_words ?H" using l ldb s(3) by (simp_all add: s2)
    from transform_last [OF this] have "sc_digest s3 = state_words (compress ?H (take 56 (sc_data s2) @ rev (word_bytes 4 hi) @ rev (word_bytes 4 lo)))"
      by (simp only: s3_def)
    moreover have "sc_data s2 = (take (?k + 1) db @ replicate (56 - (?k + 1)) 0) @ drop 56 db" by (simp add: s2)
    then have "take 56 (sc_data s2) = take (?k + 1) db @ replicate (56 - (?k + 1)) 0" using take_exact [OF l, of "drop 56 db"] by metis
    then have "take 56 (sc_data s2) = drop ?q m @ [0x80] @ replicate (55 - ?k) 0" unfolding start by simp
    ultimately show ?thesis using pad_one_block [of m sha_init] False by (simp add: len)
  next
    case True
    let ?b = "take (?k + 1) db @ replicate (64 - (?k + 1)) 0"
    have lb: "length ?b = 64" using ldb k by simp
    have b: "?b = drop ?q m @ [0x80] @ replicate (63 - ?k) 0" using start by simp
    have s2: "s2 = s\<lparr>sc_digest := state_words (compress ?H ?b), sc_data := replicate 56 0 @ drop 56 (byte_reverse 64 ?b)\<rparr>"
      unfolding s2_def transform_first [OF lb s(3)] using True by simp
    have "length (sc_data s2) = 64" "sc_digest s2 = state_words (compress ?H ?b)" using reversed_words(2) [OF lb] by (simp_all add: s2)
    from transform_last [OF this] have "sc_digest s3 = state_words (compress (compress ?H ?b) (take 56 (sc_data s2) @ rev (word_bytes 4 hi) @ rev (word_bytes 4 lo)))"
      by (simp only: s3_def)
    moreover have "take 56 (sc_data s2) = replicate 56 0" by (simp add: s2)
    ultimately show ?thesis using pad_two_blocks [of m sha_init] True unfolding b by (simp add: len)
  qed
  then show ?thesis unfolding d sha1_def by (simp only: digest_bytes)
qed
lemma updates_ok:
  "\<lbrakk>data_ok m s; count_ok m s; \<forall>bs \<in> set bss. length bs < 2 ^ 32\<rbrakk> \<Longrightarrow>
    \<exists>s'. foldm (\<lambda>s bs. sha_update bs s) s bss = Some s' \<and> data_ok (m @ concat bss) s' \<and> count_ok (m @ concat bss) s'"
proof (induction bss arbitrary: m s)
  case (Cons bs bss)
  let ?s = "update_count (of_nat (length bs)) s"
  have "count_ok (m @ bs) ?s" using Cons.prems by (intro update_count_ok) simp_all
  moreover have "data_ok m ?s" using Cons.prems(1) by (simp add: data_ok_def update_count_def)
  ultimately obtain s1 where s1: "sha_update bs s = Some s1" "data_ok (m @ bs) s1" "count_ok (m @ bs) s1"
    using update_bytes_ok [of m ?s bs] by (auto simp: sha_update_def count_ok_def)
  from Cons.IH [OF s1(2,3)] Cons.prems(3) obtain s' where "foldm (\<lambda>s bs. sha_update bs s) s1 bss = Some s'"
      "data_ok (m @ concat (bs # bss)) s'" "count_ok (m @ concat (bs # bss)) s'" by auto
  with s1 show ?case by auto
qed simp

text \<open>C34: the engine computes SHA-1.  Whatever pieces a message is handed over in, the digest is the one FIPS 180-1 defines for the whole
  message -- with the words of a block read from memory and reversed, the padding in one block or two, and the count of bits carried
  over two words -- and the engine is new afterwards.\<close>

theorem engine_is_sha1:
  assumes "\<forall>bs \<in> set bss. length bs < 2 ^ 32"
  shows "\<exists>s. foldm (\<lambda>s bs. sha_update bs s) new_sha bss = Some s \<and> sha_digest s = Some (sha1 (concat bss), new_sha)"
proof -
  from updates_ok [OF data_ok_new assms] obtain s where "foldm (\<lambda>s bs. sha_update bs s) new_sha bss = Some s"
      "data_ok (concat bss) s" "count_ok (concat bss) s" by auto
  with digest_sha1 show ?thesis by blast
qed


lemma engine_is_sha1_witness:
  "\<exists>s. foldm (\<lambda>s bs. sha_update bs s) new_sha [[97], [98, 99]] = Some s \<and> sha_digest s = Some (sha1 (concat [[97], [98, 99]]), new_sha)"
  by (rule engine_is_sha1) simp

section \<open>Hexadecimal digests\<close>

definition hex_of :: "char \<Rightarrow> nat" where
  "hex_of c = (let n = of_char c in if n < 58 then n - 48 else n - 87)"

fun parse_hex :: "string \<Rightarrow> u8 list" where
  "parse_hex (a # b # cs) = of_nat (16 * hex_of a + hex_of b) # parse_hex cs"
| "parse_hex _ = []"

lemma hex_digits_read: "list_all (\<lambda>n. hex_of (hex_digit n) = n) [0..<16]"
  by (simp add: upt_rec hex_of_def hex_digit_def)

lemma hex_of_digit: "n < 16 \<Longrightarrow> hex_of (hex_digit n) = n"
  using hex_digits_read by (simp add: list_all_iff)

lemma nibbles: "unat (drop_bit 4 c AND 0xF) = unat (c :: u8) div 16" "unat (c AND 0xF) = unat c mod 16"
proof -
  have m: "unat (x AND 0xF :: u8) = unat x mod 16" for x
  proof -
    have "x AND 0xF = take_bit 4 x" by (simp add: take_bit_eq_mask mask_eq_exp_minus_1)
    then show ?thesis by (simp only: unsigned_take_bit_eq take_bit_eq_mod [of 4 "unat x"]) simp
  qed
  show "unat (c AND 0xF) = unat c mod 16" by (rule m)
  have "unat (drop_bit 4 c) = unat c div 16" unfolding unat_drop_bit_eq by (simp add: drop_bit_eq_div)
  moreover have "unat c div 16 < 16" using unat_u8_less [of c] by simp
  ultimately show "unat (drop_bit 4 c AND 0xF) = unat c div 16" unfolding m by simp
qed

lemma hex_Cons: "digest_to_hex (c # bs) = hex_digit (unat c div 16) # hex_digit (unat c mod 16) # digest_to_hex bs"
  unfolding digest_to_hex_def list.map concat.simps nibbles(1) unfolding nibbles(2) by simp

text \<open>The hexadecimal text of a digest can be read back: two digits for each byte, the high one first.\<close>

theorem hex_round_trip: "parse_hex (digest_to_hex bs) = bs \<and> length (digest_to_hex bs) = 2 * length bs"
proof (induction bs)
  case (Cons c bs)
  have "unat c div 16 < 16" "unat c mod 16 < 16" using unat_u8_less [of c] by simp_all
  then have "16 * hex_of (hex_digit (unat c div 16)) + hex_of (hex_digit (unat c mod 16)) = unat c" by (simp add: hex_of_digit)
  then have "(of_nat (16 * hex_of (hex_digit (unat c div 16)) + hex_of (hex_digit (unat c mod 16))) :: u8) = c" by (simp only: of_nat_unat_id)
  with Cons show ?case by (simp only: hex_Cons parse_hex.simps) simp
qed (simp add: digest_to_hex_def)

end
