(* ===== verification/RandomGen.thy ===== *)
theory RandomGen
  imports Sha1 "HOL-Library.Signed_Division"
begin

unbundle bit_operations_syntax

text \<open>
  The generator of random numbers \<^verbatim>\<open>Common/Random.cpp\<close>, what \<^verbatim>\<open>Common/URandom.cpp\<close> makes of it, and the bytes
  \<^verbatim>\<open>Common/RandomStream.cpp\<close> makes up when the system's device gives none, from two generators and a \<^verbatim>\<open>SHA1Engine\<close>.

  \<open>rg_info\<close> is the first word of the buffer, \<open>rg_state\<close> the others; \<open>rg_f\<close> and \<open>rg_r\<close> are \<^verbatim>\<open>_fptr\<close> and \<^verbatim>\<open>_rptr\<close> as indices into
  \<^verbatim>\<open>_state\<close>.  \<open>None\<close> is an \<^verbatim>\<open>int\<close> that overflows, a word read or written outside the buffer, a failed assertion, or a
  division by 0.
\<close>

section \<open>The generator\<close>

record rng =
  rg_type :: nat
  rg_deg :: nat
  rg_sep :: nat
  rg_info :: u32
  rg_state :: "u32 list"
  rg_f :: nat
  rg_r :: nat

definition int32 :: "int \<Rightarrow> int option" where
  "int32 i = (if - (2 ^ 31) \<le> i \<and> i < 2 ^ 31 then Some i else None)"

definition good_rand :: "u32 \<Rightarrow> u32 option" where
  "good_rand w = do {
     let x = (if sint w = 0 then 123459876 else sint w);
     let hi = x sdiv 127773;
     let lo = x smod 127773;
     a \<leftarrow> int32 (16807 * lo);
     b \<leftarrow> int32 (2836 * hi);
     y \<leftarrow> int32 (a - b);
     Some (word_of_int (if y < 0 then y + 0x7FFFFFFF else y)) }"

definition rng_next :: "rng \<Rightarrow> (u32 \<times> rng) option" where
  "rng_next g =
     (if rg_type g = 0
      then do { s \<leftarrow> nth_opt (rg_state g) 0;
                i \<leftarrow> good_rand s;
                st \<leftarrow> upd_opt (rg_state g) 0 (i AND 0x7FFFFFFF);
                Some (i AND 0x7FFFFFFF, g\<lparr>rg_state := st\<rparr>) }
      else do { vf \<leftarrow> nth_opt (rg_state g) (rg_f g);
                vr \<leftarrow> nth_opt (rg_state g) (rg_r g);
                st \<leftarrow> upd_opt (rg_state g) (rg_f g) (vf + vr);
                let i = drop_bit 1 (vf + vr) AND 0x7FFFFFFF;
                let (f, r) = (if rg_f g + 1 \<ge> rg_deg g then (0, rg_r g + 1)
                              else (rg_f g + 1, if rg_r g + 1 \<ge> rg_deg g then 0 else rg_r g + 1));
                Some (i, g\<lparr>rg_state := st, rg_f := f, rg_r := r\<rparr>) })"

primrec burn :: "nat \<Rightarrow> rng \<Rightarrow> rng option" where
  "burn 0 g = Some g"
| "burn (Suc n) g = (case rng_next g of None \<Rightarrow> None | Some (i, g1) \<Rightarrow> burn n g1)"

definition fill_state :: "nat \<Rightarrow> u32 list \<Rightarrow> u32 list option" where
  "fill_state deg st = foldm (\<lambda>st i. do { p \<leftarrow> nth_opt st (i - 1); x \<leftarrow> good_rand p; upd_opt st i x }) st [1..<deg]"

definition rng_seed :: "u32 \<Rightarrow> rng \<Rightarrow> rng option" where
  "rng_seed x g = do {
     st \<leftarrow> upd_opt (rg_state g) 0 x;
     if rg_type g = 0 then burn 50 (g\<lparr>rg_state := st\<rparr>)
     else do { st1 \<leftarrow> fill_state (rg_deg g) st;
               burn (10 * rg_deg g) (g\<lparr>rg_state := st1, rg_f := rg_sep g, rg_r := 0\<rparr>) } }"

text \<open>\<^verbatim>\<open>seed()\<close>: \<open>ws\<close> are the words that \<^verbatim>\<open>RandomInputStream\<close> delivers.\<close>

definition rng_seed_device :: "u32 list \<Rightarrow> rng \<Rightarrow> rng option" where
  "rng_seed_device ws g =
     (let n = (if rg_type g = 0 then 1 else rg_deg g)
      in if n \<le> length (rg_state g) \<and> n \<le> length ws then Some (g\<lparr>rg_state := take n ws @ drop n (rg_state g)\<rparr>) else None)"

definition rng_kind :: "nat \<Rightarrow> nat \<times> nat \<times> nat" where
  "rng_kind n = (if n < 32 then (0, 0, 0) else if n < 64 then (1, 7, 3) else if n < 128 then (2, 15, 1)
     else if n < 256 then (3, 31, 3) else (4, 63, 1))"

text \<open>\<open>buf\<close> is what the new buffer of \<open>n\<close> bytes holds, in words.\<close>

definition init_state :: "u32 \<Rightarrow> u32 list \<Rightarrow> nat \<Rightarrow> rng option" where
  "init_state s buf n =
     (if n < 8 then None
      else case rng_kind n of (ty, deg, sep) \<Rightarrow>
        (case rng_seed s \<lparr>rg_type = ty, rg_deg = deg, rg_sep = sep, rg_info = hd buf, rg_state = tl buf, rg_f = 0, rg_r = 0\<rparr> of None \<Rightarrow> None
         | Some g \<Rightarrow> Some (g\<lparr>rg_info := (if ty = 0 then of_nat ty else of_nat (5 * rg_r g + ty))\<rparr>)))"

definition new_random :: "u32 \<Rightarrow> u32 list \<Rightarrow> nat \<Rightarrow> rng option" where
  "new_random now buf n = (if 8 \<le> n \<and> n \<le> 256 then init_state now buf n else None)"

definition next_below :: "u32 \<Rightarrow> rng \<Rightarrow> (u32 \<times> rng) option" where
  "next_below n g = (case rng_next g of None \<Rightarrow> None | Some (i, g1) \<Rightarrow> if n = 0 then None else Some (i mod n, g1))"

definition next_char :: "rng \<Rightarrow> (u8 \<times> rng) option" where
  "next_char g = map_option (\<lambda>(i, g1). (ucast (drop_bit 3 i AND 0xFF), g1)) (rng_next g)"

definition next_bool :: "rng \<Rightarrow> (bool \<times> rng) option" where
  "next_bool g = map_option (\<lambda>(i, g1). (i AND 0x1000 \<noteq> 0, g1)) (rng_next g)"

definition urandom :: "u32 \<Rightarrow> rng \<Rightarrow> (u32 \<times> rng) option" where
  "urandom m g = (if m = 0 then Some (0, g) else map_option (\<lambda>(i, g1). (i mod m, g1)) (rng_next g))"

section \<open>Bytes without a device\<close>

record mixer =
  mx_engine :: sha_ctx
  mx_rnd1 :: rng
  mx_rnd2 :: rng
  mx_x :: u32

definition mix_once :: "mixer \<Rightarrow> mixer option" where
  "mix_once m = do {
     (r, g2) \<leftarrow> rng_next (mx_rnd2 m);
     e1 \<leftarrow> sha_update (word_bytes 4 r) (mx_engine m);
     e2 \<leftarrow> sha_update (word_bytes 4 (mx_x m)) e1;
     (y, g1) \<leftarrow> rng_next (mx_rnd1 m);
     Some \<lparr>mx_engine = e2, mx_rnd1 = g1, mx_rnd2 = g2, mx_x = mx_x m + y\<rparr> }"

primrec mix_times :: "nat \<Rightarrow> mixer \<Rightarrow> mixer option" where
  "mix_times 0 m = Some m"
| "mix_times (Suc n) m = (case mix_once m of None \<Rightarrow> None | Some m1 \<Rightarrow> mix_times n m1)"

text \<open>The loop over the digest: \<^verbatim>\<open>*it++\<close> in its body and \<^verbatim>\<open>++it\<close> in its head.  \<open>n\<close> is the \<^verbatim>\<open>int\<close> that counts the bytes.\<close>

fun copy_digest :: "u8 list \<Rightarrow> int \<Rightarrow> int \<Rightarrow> sha_ctx \<Rightarrow> (u8 list \<times> int \<times> sha_ctx) option" where
  "copy_digest [] n len e = Some ([], n, e)"
| "copy_digest (b # bs) n len e =
     (if n < len
      then case sha_update [b] e of None \<Rightarrow> None
        | Some e1 \<Rightarrow> (case bs of [] \<Rightarrow> None
            | _ # bs1 \<Rightarrow> (case int32 (n + 1) of None \<Rightarrow> None
                | Some n1 \<Rightarrow> (case copy_digest bs1 n1 len e1 of None \<Rightarrow> None | Some (out, n2, e2) \<Rightarrow> Some (b # out, n2, e2))))
      else Some ([], n, e))"

partial_function (option) device_loop :: "int \<Rightarrow> int \<Rightarrow> mixer \<Rightarrow> (u8 list \<times> int \<times> mixer) option" where
  "device_loop n len m =
     (if n < len
      then do {
        m1 \<leftarrow> mix_times 100 m;
        (d, e) \<leftarrow> sha_digest (mx_engine m1);
        (out, n1, e1) \<leftarrow> copy_digest d n len e;
        (out1, n2, m2) \<leftarrow> device_loop n1 len (m1\<lparr>mx_engine := e1\<rparr>);
        Some (out @ out1, n2, m2) }
      else Some ([], n, m))"

text \<open>\<open>got\<close> are the bytes of the system's device; \<open>this\<close>, \<open>buffer\<close> and \<open>junk\<close> are what the engine is fed with, \<open>x\<close> is the static
  variable, \<open>buf1\<close> and \<open>buf2\<close> are the new buffers of the two generators; the three readings of the clock give the same second
  \<open>now\<close>.  The result is what is in the buffer, the number returned, and the static variable.\<close>

definition read_from_device ::
  "u8 list \<Rightarrow> u32 \<Rightarrow> u32 \<Rightarrow> u8 list \<Rightarrow> u8 list \<Rightarrow> u8 list \<Rightarrow> u32 list \<Rightarrow> u32 list \<Rightarrow> (u8 list \<times> int \<times> u32) option" where
  "read_from_device got x now this buffer junk buf1 buf2 =
     (if got \<noteq> [] then Some (got, int (length got), x)
      else do {
        g1 \<leftarrow> new_random now buf1 256;
        g2 \<leftarrow> new_random now buf2 64;
        (y, g1') \<leftarrow> rng_next g1;
        e \<leftarrow> foldm (\<lambda>e bs. sha_update bs e) new_sha [word_bytes 4 now, this, buffer, junk];
        (out, n, m) \<leftarrow> device_loop 0 (int (length buffer)) \<lparr>mx_engine = e, mx_rnd1 = g1', mx_rnd2 = g2, mx_x = x + y\<rparr>;
        Some (out, n, mx_x m) })"


section \<open>The generator of Park and Miller\<close>

definition park_miller :: "int \<Rightarrow> int" where
  "park_miller x = 16807 * (if x = 0 then 123459876 else x) mod (2 ^ 31 - 1)"

lemma sdiv_parts: "x sdiv 127773 * 127773 + x smod 127773 = (x :: int)"
  by (rule sdiv_mult_smod_eq)

lemma sdiv_bounds:
  assumes "- (2 ^ 31) \<le> x" "x < (2 ^ 31 :: int)"
  shows "0 \<le> x \<Longrightarrow> 0 \<le> x sdiv 127773 \<and> x sdiv 127773 \<le> 16807 \<and> 0 \<le> x smod 127773 \<and> x smod 127773 < 127773"
    and "x < 0 \<Longrightarrow> - 16807 \<le> x sdiv 127773 \<and> x sdiv 127773 \<le> 0 \<and> - 127773 < x smod 127773 \<and> x smod 127773 \<le> 0"
proof -
  have eq: "x sdiv 127773 * 127773 + x smod 127773 = x" by (rule sdiv_parts)
  show "0 \<le> x \<Longrightarrow> 0 \<le> x sdiv 127773 \<and> x sdiv 127773 \<le> 16807 \<and> 0 \<le> x smod 127773 \<and> x smod 127773 < 127773"
    using eq smod_int_compares(1,2) [of x 127773] assms by simp_all
  show "x < 0 \<Longrightarrow> - 16807 \<le> x sdiv 127773 \<and> x sdiv 127773 \<le> 0 \<and> - 127773 < x smod 127773 \<and> x smod 127773 \<le> 0"
    using eq smod_int_compares(3,4) [of x 127773] assms by simp_all
qed

text \<open>No product or difference overflows, for any word.\<close>

lemma good_rand_value: "good_rand w = Some (word_of_int (park_miller (sint w)))"
proof -
  define x where "x = (if sint w = 0 then 123459876 else sint w)"
  have "- (2 ^ 31) \<le> sint w" "sint w < 2 ^ 31" using sint_ge [of w] sint_lt [of w] by simp_all
  then have x: "- (2 ^ 31) \<le> x" "x < 2 ^ 31" by (auto simp: x_def)
  define hi lo where "hi = x sdiv 127773" and "lo = x smod 127773"
  have eq: "x = 127773 * hi + lo" using sdiv_parts [of x] by (simp add: hi_def lo_def)
  have b: "0 \<le> hi \<and> hi \<le> 16807 \<and> 0 \<le> lo \<and> lo < 127773 \<or> - 16807 \<le> hi \<and> hi \<le> 0 \<and> - 127773 < lo \<and> lo \<le> 0"
    using sdiv_bounds [OF x] unfolding hi_def lo_def by (cases "0 \<le> x") simp_all
  define y where "y = 16807 * lo - 2836 * hi"
  have y: "- 2147483647 < y" "y < 2147483647" using b by (auto simp: y_def)
  have "16807 * x = y + hi * 2147483647" by (simp add: eq y_def)
  then have "16807 * x mod 2147483647 = y mod 2147483647" by (simp only: mod_mult_self1)
  also have "\<dots> = (if y < 0 then y + 2147483647 else y)"
    using y mod_pos_pos_trivial [of "y + 2147483647" 2147483647] by (auto simp: mod_pos_pos_trivial)
  finally have "park_miller (sint w) = (if y < 0 then y + 0x7FFFFFFF else y)" by (simp add: park_miller_def x_def [symmetric])
  moreover have "int32 (16807 * lo) = Some (16807 * lo)" "int32 (2836 * hi) = Some (2836 * hi)" "int32 (16807 * lo - 2836 * hi) = Some y"
    using b y by (auto simp: int32_def y_def)
  ultimately show ?thesis unfolding good_rand_def Let_def x_def [symmetric] hi_def [symmetric] lo_def [symmetric] by simp
qed

lemma park_miller_range: "0 \<le> park_miller x" "park_miller x < 2 ^ 31 - 1"
  by (simp_all add: park_miller_def)

section \<open>The additive generator\<close>

text \<open>The sequence \<open>x (n) = x (n - d) + x (n - s)\<close>.\<close>

function lag :: "nat \<Rightarrow> nat \<Rightarrow> (nat \<Rightarrow> u32) \<Rightarrow> nat \<Rightarrow> u32" where
  "lag d s x n = (if n < d \<or> d = 0 \<or> s = 0 then x n else lag d s x (n - d) + lag d s x (n - s))"
  by pat_completeness auto

termination lag
  by (relation "measure (\<lambda>(_, _, _, n). n)") auto

declare lag.simps [simp del]

definition rng_ok :: "rng \<Rightarrow> bool" where
  "rng_ok g \<longleftrightarrow> (if rg_type g = 0 then rg_state g \<noteq> []
     else 0 < rg_sep g \<and> rg_sep g < rg_deg g \<and> rg_deg g \<le> length (rg_state g) \<and> rg_r g < rg_deg g \<and> rg_f g = (rg_r g + rg_sep g) mod rg_deg g)"

text \<open>The words in the order of their age, the oldest, which is replaced next, first.\<close>

definition window :: "rng \<Rightarrow> u32 list" where
  "window g = map (\<lambda>j. rg_state g ! ((rg_f g + j) mod rg_deg g)) [0..<rg_deg g]"

definition same_kind :: "rng \<Rightarrow> rng \<Rightarrow> bool" where
  "same_kind g g' \<longleftrightarrow> rg_type g' = rg_type g \<and> rg_deg g' = rg_deg g \<and> rg_sep g' = rg_sep g \<and> rg_info g' = rg_info g \<and>
     length (rg_state g') = length (rg_state g)"

lemma low31: "drop_bit 1 (v :: u32) AND 0x7FFFFFFF = drop_bit 1 v"
proof -
  have m: "(0x7FFFFFFF :: u32) = mask 31" by (simp add: mask_eq_exp_minus_1)
  show ?thesis unfolding m by (rule bit_word_eqI) (auto simp: bit_simps dest: bit_imp_le_length)
qed

lemma next_congruential:
  assumes "rng_ok g" "rg_type g = 0"
  shows "\<exists>g'. rng_next g = Some (rg_state g' ! 0, g') \<and> rng_ok g' \<and> same_kind g g' \<and>
    rg_state g' ! 0 = word_of_int (park_miller (sint (rg_state g ! 0)))"
proof -
  let ?p = "park_miller (sint (rg_state g ! 0))"
  have "(word_of_int ?p :: u32) AND 0x7FFFFFFF = word_of_int ?p"
  proof -
    have m: "(0x7FFFFFFF :: u32) = mask 31" by (simp add: mask_eq_exp_minus_1)
    have "take_bit 31 ?p = ?p" using park_miller_range [of "sint (rg_state g ! 0)"] by (simp add: take_bit_int_eq_self)
    moreover have "take_bit 31 (word_of_int ?p :: u32) = word_of_int (take_bit 31 ?p)" by (rule take_bit_of_int)
    ultimately have "take_bit 31 (word_of_int ?p :: u32) = word_of_int ?p" by simp
    then show ?thesis unfolding m by (simp add: take_bit_eq_mask)
  qed
  then show ?thesis using assms by (auto simp: rng_next_def rng_ok_def good_rand_value same_kind_def Let_def)
qed

lemma next_additive:
  assumes "rng_ok g" "rg_type g \<noteq> 0"
  shows "\<exists>g'. rng_next g = Some (drop_bit 1 (window g ! 0 + window g ! (rg_deg g - rg_sep g)), g') \<and> rng_ok g' \<and> same_kind g g' \<and>
    window g' = tl (window g) @ [window g ! 0 + window g ! (rg_deg g - rg_sep g)]"
proof -
  let ?d = "rg_deg g" and ?s = "rg_sep g" and ?f = "rg_f g" and ?r = "rg_r g" and ?st = "rg_state g"
  have ok: "0 < ?s" "?s < ?d" "?d \<le> length ?st" "?r < ?d" "?f = (?r + ?s) mod ?d" using assms by (simp_all add: rng_ok_def)
  have f: "?f < ?d" using ok by simp
  have w0: "window g ! 0 = ?st ! ?f" using ok f by (simp add: window_def)
  have "(?f + (?d - ?s)) mod ?d = ?r"
  proof -
    have "(?f + (?d - ?s)) mod ?d = (?r + ?s + (?d - ?s)) mod ?d" unfolding ok(5) by (simp only: mod_add_left_eq)
    also have "?r + ?s + (?d - ?s) = ?r + ?d" using ok by simp
    finally show ?thesis using ok by simp
  qed
  then have ws: "window g ! (?d - ?s) = ?st ! ?r" using ok by (simp add: window_def)
  let ?v = "?st ! ?f + ?st ! ?r"
  define f' r' where "f' = (if ?f + 1 \<ge> ?d then 0 else ?f + 1)" and "r' = (if ?f + 1 \<ge> ?d then ?r + 1 else if ?r + 1 \<ge> ?d then 0 else ?r + 1)"
  have f': "f' = (?f + 1) mod ?d" 
  proof (cases "?f + 1 \<ge> ?d")
    case True
    then have "?f + 1 = ?d" using f by simp
    then show ?thesis by (simp add: f'_def)
  qed (simp add: f'_def)
  have r': "r' = (?r + 1) mod ?d \<and> r' < ?d"
  proof (cases "?f + 1 \<ge> ?d")
    case True
    then have "?f = ?d - 1" using f by simp
    have "?r + 1 < ?d"
    proof (rule ccontr)
      assume "\<not> ?r + 1 < ?d"
      then have "?r = ?d - 1" using ok by simp
      then have "?f = (?d - 1 + ?s) mod ?d" using ok by simp
      also have "?d - 1 + ?s = ?s - 1 + ?d" using ok by simp
      also have "(?s - 1 + ?d) mod ?d = (?s - 1) mod ?d" by simp
      also have "\<dots> = ?s - 1" using ok by simp
      finally show False using ok \<open>?f = ?d - 1\<close> by simp
    qed
    then show ?thesis using True by (simp add: r'_def)
  next
    case False
    show ?thesis
    proof (cases "?r + 1 \<ge> ?d")
      case True
      then have "?r + 1 = ?d" using ok by simp
      then show ?thesis using False ok by (simp add: r'_def)
    qed (use False in \<open>simp add: r'_def\<close>)
  qed
  let ?g = "g\<lparr>rg_state := ?st[?f := ?v], rg_f := f', rg_r := r'\<rparr>"
  have "rng_next g = Some (drop_bit 1 ?v, ?g)"
  proof -
    have "nth_opt ?st ?f = Some (?st ! ?f)" "nth_opt ?st ?r = Some (?st ! ?r)" "upd_opt ?st ?f ?v = Some (?st[?f := ?v])"
      using f ok(3,4) by simp_all
    then show ?thesis using assms(2) by (simp add: rng_next_def Let_def low31 [unfolded One_nat_def] f'_def r'_def)
  qed
  moreover have "f' = (r' + ?s) mod ?d" unfolding f' using r' ok(5) by (simp add: mod_simps ac_simps)
  then have "rng_ok ?g" using assms(2) ok r' by (simp add: rng_ok_def)
  moreover have "window ?g = tl (window g) @ [?v]"
  proof (rule nth_equalityI)
    fix j assume "j < length (window ?g)"
    then have j: "j < ?d" by (simp add: window_def)
    have i: "(f' + j) mod ?d = (?f + (j + 1)) mod ?d" unfolding f' by (simp add: mod_simps)
    show "window ?g ! j = (tl (window g) @ [?v]) ! j"
    proof (cases "j + 1 < ?d")
      case True
      have "(?f + (j + 1)) mod ?d \<noteq> ?f"
        using True f by (auto simp: mod_if split: if_splits)
      moreover have "j < ?d - 1" using True by simp
      ultimately show ?thesis using True i j by (simp add: window_def nth_append nth_tl)
    next
      case False
      then have "j + 1 = ?d" using j by simp
      then have "(f' + j) mod ?d = ?f" using i f by simp
      moreover have "j = ?d - 1" "?f < length ?st" using False j f ok(3) by simp_all
      ultimately show ?thesis using ok(1,2) by (simp add: window_def nth_append)
    qed
  qed (use ok in \<open>simp add: window_def\<close>)
  ultimately show ?thesis unfolding w0 ws by (auto simp: same_kind_def)
qed


primrec draws :: "nat \<Rightarrow> rng \<Rightarrow> (u32 list \<times> rng) option" where
  "draws 0 g = Some ([], g)"
| "draws (Suc n) g =
     (case rng_next g of None \<Rightarrow> None
      | Some (i, g1) \<Rightarrow> (case draws n g1 of None \<Rightarrow> None | Some (is, g2) \<Rightarrow> Some (i # is, g2)))"

lemma burn_draws: "burn n g = map_option snd (draws n g)"
  by (induction n arbitrary: g) (auto split: option.splits)

lemma lag_step: "n \<ge> d \<Longrightarrow> 0 < s \<Longrightarrow> 0 < d \<Longrightarrow> lag d s x n = lag d s x (n - d) + lag d s x (n - s)"
  by (subst lag.simps) simp

text \<open>From a state whose words are \<open>d\<close> consecutive terms of the sequence, the next terms are drawn, without their low bits.\<close>

lemma draws_additive:
  assumes "rng_ok g" "rg_type g \<noteq> 0" "window g = map (lag (rg_deg g) (rg_sep g) x) [k..<k + rg_deg g]"
  shows "\<exists>g'. draws n g = Some (map (\<lambda>i. drop_bit 1 (lag (rg_deg g) (rg_sep g) x i)) [k + rg_deg g..<k + rg_deg g + n], g') \<and>
    rng_ok g' \<and> same_kind g g' \<and> window g' = map (lag (rg_deg g) (rg_sep g) x) [k + n..<k + n + rg_deg g]"
  using assms
proof (induction n arbitrary: g k)
  case 0
  then show ?case by (simp add: same_kind_def)
next
  case (Suc n)
  let ?d = "rg_deg g" and ?s = "rg_sep g" and ?x = "lag (rg_deg g) (rg_sep g) x"
  have ok: "0 < ?s" "?s < ?d" using Suc.prems(1,2) by (simp_all add: rng_ok_def)
  have v: "window g ! 0 + window g ! (?d - ?s) = ?x (k + ?d)"
    unfolding Suc.prems(3) using ok lag_step [of ?d "k + ?d" ?s x] by simp
  have "[k..<k + ?d] = k # [Suc k..<k + ?d]" using ok by (simp add: upt_conv_Cons)
  then have "tl (window g) @ [?x (k + ?d)] = map ?x [Suc k..<Suc k + ?d]" unfolding Suc.prems(3) using ok by simp
  with next_additive [OF Suc.prems(1,2)] v obtain g1 where g1: "rng_next g = Some (drop_bit 1 (?x (k + ?d)), g1)" "rng_ok g1"
      "same_kind g g1" "window g1 = map ?x [Suc k..<Suc k + ?d]" by auto
  then have kind: "rg_deg g1 = ?d" "rg_sep g1 = ?s" "rg_type g1 \<noteq> 0" using Suc.prems(2) by (simp_all add: same_kind_def)
  from Suc.IH [OF g1(2) kind(3), of "Suc k"] g1(4) kind obtain g' where
      "draws n g1 = Some (map (\<lambda>i. drop_bit 1 (?x i)) [Suc k + ?d..<Suc k + ?d + n], g')" "rng_ok g'" "same_kind g1 g'"
      "window g' = map ?x [Suc k + n..<Suc k + n + ?d]" by auto
  moreover have "[k + ?d..<k + ?d + Suc n] = (k + ?d) # [Suc k + ?d..<Suc k + ?d + n]" by (simp add: upt_conv_Cons)
  ultimately show ?case using g1(1,3) by (auto simp: same_kind_def)
qed

text \<open>The state of a new generator: Park and Miller's sequence from the seed.\<close>

primrec pm_seq :: "u32 \<Rightarrow> nat \<Rightarrow> u32" where
  "pm_seq s 0 = s"
| "pm_seq s (Suc i) = word_of_int (park_miller (sint (pm_seq s i)))"

lemma fill_state_some:
  assumes "0 < k" "k \<le> length st" "st ! 0 = s"
  shows "\<exists>st'. fill_state k st = Some st' \<and> length st' = length st \<and> (\<forall>i < k. st' ! i = pm_seq s i)"
  using assms
proof (induction k)
  case (Suc k)
  show ?case
  proof (cases "k = 0")
    case True
    then show ?thesis using Suc.prems by (simp add: fill_state_def)
  next
    case False
    with Suc obtain st' where st': "fill_state k st = Some st'" "length st' = length st" "\<forall>i < k. st' ! i = pm_seq s i" by auto
    have "[1..<Suc k] = [1..<k] @ [k]" using False by simp
    then have "fill_state (Suc k) st = (case fill_state k st of None \<Rightarrow> None
        | Some st \<Rightarrow> do { p \<leftarrow> nth_opt st (k - 1); x \<leftarrow> good_rand p; upd_opt st k x })"
      by (simp add: fill_state_def foldm_append split: option.split)
    moreover have "st' ! (k - 1) = pm_seq s (k - 1)" "Suc (k - 1) = k" using st'(3) False by simp_all
    then have "word_of_int (park_miller (sint (st' ! (k - 1)))) = pm_seq s k" by (metis pm_seq.simps(2))
    ultimately have "fill_state (Suc k) st = Some (st'[k := pm_seq s k])"
      using st' Suc.prems(2) False by (simp add: good_rand_value)
    then show ?thesis using st' Suc.prems(2) by (auto simp: nth_list_update less_Suc_eq)
  qed
qed simp

definition seed_words :: "u32 \<Rightarrow> nat \<Rightarrow> nat \<Rightarrow> nat \<Rightarrow> u32" where
  "seed_words s deg sep j = pm_seq s ((sep + j) mod deg)"

lemma rng_seed_additive:
  assumes "rg_type g \<noteq> 0" "0 < rg_sep g" "rg_sep g < rg_deg g" "rg_deg g \<le> length (rg_state g)"
  shows "\<exists>g'. rng_seed s g = Some g' \<and> rng_ok g' \<and> same_kind g g' \<and>
    window g' = map (lag (rg_deg g) (rg_sep g) (seed_words s (rg_deg g) (rg_sep g))) [10 * rg_deg g..<10 * rg_deg g + rg_deg g]"
proof -
  let ?d = "rg_deg g" and ?s = "rg_sep g"
  have ne: "rg_state g \<noteq> []" using assms by auto
  from fill_state_some [of ?d "(rg_state g)[0 := s]" s] assms ne obtain st where
      st: "fill_state ?d ((rg_state g)[0 := s]) = Some st" "length st = length (rg_state g)" "\<forall>i < ?d. st ! i = pm_seq s i" by auto
  let ?g = "g\<lparr>rg_state := st, rg_f := ?s, rg_r := 0\<rparr>"
  have ok: "rng_ok ?g" using assms st by (simp add: rng_ok_def)
  have "window ?g = map (lag ?d ?s (seed_words s ?d ?s)) [0..<0 + ?d]"
    using st(3) assms by (auto simp: window_def lag.simps seed_words_def)
  with draws_additive [OF ok, of "seed_words s ?d ?s" 0 "10 * ?d"] assms(1)
  obtain g' outs where "draws (10 * ?d) ?g = Some (outs, g')" "rng_ok g'" "same_kind ?g g'"
      "window g' = map (lag ?d ?s (seed_words s ?d ?s)) [10 * ?d..<10 * ?d + ?d]" by auto
  then show ?thesis using st ne assms by (auto simp: rng_seed_def burn_draws same_kind_def)
qed


lemma rng_kind_fits:
  assumes "rng_kind n = (ty, d, s)" "8 \<le> n"
  shows "ty = 0 \<and> n < 32 \<or> ty \<noteq> 0 \<and> 0 < s \<and> s < d \<and> d \<le> n div 4 - 1 \<and> 32 \<le> n"
  using assms by (auto simp: rng_kind_def split: if_splits)

lemma init_state_additive:
  assumes "32 \<le> n" "length buf = n div 4" "rng_kind n = (ty, d, sep)"
  shows "\<exists>g. init_state s buf n = Some g \<and> rng_ok g \<and> rg_type g = ty \<and> rg_deg g = d \<and> rg_sep g = sep \<and> ty \<noteq> 0 \<and>
    window g = map (lag d sep (seed_words s d sep)) [10 * d..<10 * d + d]"
proof -
  have k: "ty \<noteq> 0" "0 < sep" "sep < d" "d \<le> n div 4 - 1" using rng_kind_fits [OF assms(3)] assms(1) by auto
  let ?g = "\<lparr>rg_type = ty, rg_deg = d, rg_sep = sep, rg_info = hd buf, rg_state = tl buf, rg_f = 0, rg_r = 0\<rparr>"
  from rng_seed_additive [of ?g s] k assms(2) obtain g where "rng_seed s ?g = Some g" "rng_ok g" "same_kind ?g g"
      "window g = map (lag d sep (seed_words s d sep)) [10 * d..<10 * d + d]" by auto
  then show ?thesis using assms k by (auto simp: init_state_def rng_ok_def same_kind_def window_def)
qed

text \<open>C35: what a generator of 32 bytes or more draws after it has been made from a seed: the sequence in which every word is the
  sum of the word \<open>d\<close> places and of the word \<open>sep\<close> places before it, without the low bits, starting after the words of Park and
  Miller's generator and ten times \<open>d\<close> terms that are thrown away.  No product overflows, no word outside the buffer is
  touched, whatever the buffer held, and however many numbers are drawn.\<close>

theorem random_is_additive:
  assumes "32 \<le> n" "n \<le> 256" "length buf = n div 4" "rng_kind n = (ty, d, sep)"
  shows "\<exists>g g'. new_random s buf n = Some g \<and>
    draws k g = Some (map (\<lambda>i. drop_bit 1 (lag d sep (seed_words s d sep) i)) [11 * d..<11 * d + k], g')"
proof -
  from init_state_additive [OF assms(1,3,4), of s] obtain g where g: "init_state s buf n = Some g" "rng_ok g" "rg_type g = ty"
      "rg_deg g = d" "rg_sep g = sep" "ty \<noteq> 0" "window g = map (lag d sep (seed_words s d sep)) [10 * d..<10 * d + d]" by blast
  then have "\<exists>g'. draws k g = Some (map (\<lambda>i. drop_bit 1 (lag d sep (seed_words s d sep) i)) [10 * d + d..<10 * d + d + k], g')"
    using draws_additive [OF g(2), of "seed_words s d sep" "10 * d" k] by auto
  moreover have "10 * d + d = 11 * d" by simp
  ultimately show ?thesis using g(1) assms(1,2) by (auto simp: new_random_def)
qed

lemma random_is_additive_witness:
  "\<exists>g g'. new_random 1 (replicate 8 0) 32 = Some g \<and>
    draws 2 g = Some (map (\<lambda>i. drop_bit 1 (lag 7 3 (seed_words 1 7 3) i)) [11 * 7..<11 * 7 + 2], g')"
  by (rule random_is_additive) (simp_all add: rng_kind_def)

text \<open>The smallest generators are Park and Miller's.\<close>

lemma burn_congruential:
  "rng_ok g \<Longrightarrow> rg_type g = 0 \<Longrightarrow> \<exists>g'. burn n g = Some g' \<and> rng_ok g' \<and> rg_type g' = 0 \<and>
    rg_state g' ! 0 = pm_seq (rg_state g ! 0) n"
proof (induction n arbitrary: g)
  case (Suc n)
  from next_congruential [OF Suc.prems] obtain g1 where g1: "rng_next g = Some (rg_state g1 ! 0, g1)" "rng_ok g1" "same_kind g g1"
      "rg_state g1 ! 0 = pm_seq (rg_state g ! 0) 1" by auto
  moreover have "pm_seq (pm_seq s 1) n = pm_seq s (Suc n)" for s by (induction n) simp_all
  ultimately show ?case using Suc.IH [of g1] Suc.prems(2) by (auto simp: same_kind_def)
qed simp

lemma draws_congruential:
  "rng_ok g \<Longrightarrow> rg_type g = 0 \<Longrightarrow> \<exists>g'. draws n g = Some (map (\<lambda>i. pm_seq (rg_state g ! 0) (Suc i)) [0..<n], g')"
proof (induction n arbitrary: g)
  case (Suc n)
  from next_congruential [OF Suc.prems] obtain g1 where g1: "rng_next g = Some (rg_state g1 ! 0, g1)" "rng_ok g1" "same_kind g g1"
      "rg_state g1 ! 0 = pm_seq (rg_state g ! 0) 1" by auto
  have "pm_seq (pm_seq s 1) m = pm_seq s (Suc m)" for s m by (induction m) simp_all
  moreover have "map f [0..<Suc n] = f 0 # map (\<lambda>i. f (Suc i)) [0..<n]" for f :: "nat \<Rightarrow> u32" by (simp add: upt_conv_Cons map_Suc_upt [symmetric] del: upt_Suc)
  ultimately show ?case using Suc.IH [of g1] Suc.prems(2) g1 by (auto simp: same_kind_def simp del: upt_Suc)
qed simp

theorem small_random_is_park_miller:
  assumes "8 \<le> n" "n < 32" "length buf = n div 4"
  shows "\<exists>g g'. new_random s buf n = Some g \<and> draws k g = Some (map (\<lambda>i. pm_seq s (51 + i)) [0..<k], g')"
proof -
  let ?g = "\<lparr>rg_type = 0, rg_deg = 0, rg_sep = 0, rg_info = hd buf, rg_state = (tl buf)[0 := s], rg_f = 0, rg_r = 0\<rparr>"
  have ne: "tl buf \<noteq> []" using assms by (cases buf) auto
  then have "rng_ok ?g" by (simp add: rng_ok_def)
  from burn_congruential [OF this, of 50] obtain g where g: "burn 50 ?g = Some g" "rng_ok g" "rg_type g = 0" "rg_state g ! 0 = pm_seq (rg_state ?g ! 0) 50"
    by auto
  have "rg_state ?g ! 0 = s" using ne by (cases "tl buf") simp_all
  with g(4) have s: "rg_state g ! 0 = pm_seq s 50" by (simp only:)
  let ?h = "g\<lparr>rg_info := 0\<rparr>"
  have "rng_ok ?h" "rg_type ?h = 0" using g by (simp_all add: rng_ok_def)
  from draws_congruential [OF this, of k] obtain g' where "draws k ?h = Some (map (\<lambda>i. pm_seq (pm_seq s 50) (Suc i)) [0..<k], g')"
    using s by auto
  moreover have "pm_seq (pm_seq s m) i = pm_seq s (m + i)" for m i by (induction i) simp_all
  then have "pm_seq (pm_seq s 50) (Suc i) = pm_seq s (50 + Suc i)" for i .
  then have "pm_seq (pm_seq s 50) (Suc i) = pm_seq s (51 + i)" for i by (simp del: pm_seq.simps)
  ultimately have "draws k ?h = Some (map (\<lambda>i. pm_seq s (51 + i)) [0..<k], g')" by (simp only:)
  moreover have "new_random s buf n = Some ?h"
    using assms ne g(1) by (simp add: new_random_def init_state_def rng_kind_def rng_seed_def)
  ultimately show ?thesis by auto
qed

lemma small_random_is_park_miller_witness:
  "\<exists>g g'. new_random 7 [0, 0] 8 = Some g \<and> draws 3 g = Some (map (\<lambda>i. pm_seq 7 (51 + i)) [0..<3], g')"
  by (rule small_random_is_park_miller) simp_all


section \<open>Bytes without a device: lemmas\<close>

lemma next_total: "rng_ok g \<Longrightarrow> \<exists>i g'. rng_next g = Some (i, g') \<and> rng_ok g'"
  by (cases "rg_type g = 0") (metis next_congruential, metis next_additive)

text \<open>An engine that has taken some bytes.\<close>

definition engine_ok :: "sha_ctx \<Rightarrow> bool" where
  "engine_ok e \<longleftrightarrow> (\<exists>m. data_ok m e \<and> count_ok m e)"

lemma engine_update:
  assumes "engine_ok e" "length bs < 2 ^ 32"
  shows "\<exists>e'. sha_update bs e = Some e' \<and> engine_ok e'"
proof -
  from assms(1) obtain m where "data_ok m e" "count_ok m e" by (auto simp: engine_ok_def)
  from updates_ok [OF this, of "[bs]"] assms(2) show ?thesis by (auto simp: engine_ok_def split: option.splits)
qed

lemma engine_new: "engine_ok new_sha"
  using data_ok_new by (auto simp: engine_ok_def)

lemma engine_digest: "engine_ok e \<Longrightarrow> \<exists>d. sha_digest e = Some (d, new_sha) \<and> length d = 20"
proof -
  assume "engine_ok e"
  then obtain m where "data_ok m e" "count_ok m e" by (auto simp: engine_ok_def)
  then have d: "sha_digest e = Some (sha1 m, new_sha)" by (rule digest_sha1)
  obtain a b c x y where "hash_blocks sha_init (sha_pad m) = (a, b, c, x, y)" by (metis prod.exhaust)
  then have "length (sha1 m) = 20" by (simp add: sha1_def state_words_def)
  with d show ?thesis by blast
qed

definition mixer_ok :: "mixer \<Rightarrow> bool" where
  "mixer_ok m \<longleftrightarrow> engine_ok (mx_engine m) \<and> rng_ok (mx_rnd1 m) \<and> rng_ok (mx_rnd2 m)"

lemma mix_times_ok: "mixer_ok m \<Longrightarrow> \<exists>m'. mix_times n m = Some m' \<and> mixer_ok m'"
proof (induction n arbitrary: m)
  case (Suc n)
  then have ok: "engine_ok (mx_engine m)" "rng_ok (mx_rnd1 m)" "rng_ok (mx_rnd2 m)" by (simp_all add: mixer_ok_def)
  obtain r g2 where g2: "rng_next (mx_rnd2 m) = Some (r, g2)" "rng_ok g2" using next_total [OF ok(3)] by blast
  obtain y g1 where g1: "rng_next (mx_rnd1 m) = Some (y, g1)" "rng_ok g1" using next_total [OF ok(2)] by blast
  obtain e1 where e1: "sha_update (word_bytes 4 r) (mx_engine m) = Some e1" "engine_ok e1"
    using engine_update [OF ok(1), of "word_bytes 4 r"] by auto
  obtain e2 where e2: "sha_update (word_bytes 4 (mx_x m)) e1 = Some e2" "engine_ok e2"
    using engine_update [OF e1(2), of "word_bytes 4 (mx_x m)"] by auto
  let ?m = "\<lparr>mx_engine = e2, mx_rnd1 = g1, mx_rnd2 = g2, mx_x = mx_x m + y\<rparr>"
  have "mix_once m = Some ?m" using g1(1) g2(1) e1(1) e2(1) by (simp add: mix_once_def)
  moreover have "mixer_ok ?m" using g1 g2 e2 by (simp add: mixer_ok_def)
  ultimately show ?case using Suc.IH [of ?m] by auto
qed simp

text \<open>Every second byte of a digest.\<close>

fun every_second :: "'a list \<Rightarrow> 'a list" where
  "every_second (b # c # bs) = b # every_second bs"
| "every_second bs = bs"

lemma copy_digest_ok:
  "engine_ok e \<Longrightarrow> even (length d) \<Longrightarrow> 0 \<le> n \<Longrightarrow> n \<le> len \<Longrightarrow> len < 2 ^ 31 \<Longrightarrow>
    \<exists>e' out. copy_digest d n len e = Some (out, n + int (length out), e') \<and> out = take (nat (len - n)) (every_second d) \<and> engine_ok e'"
proof (induction d arbitrary: n e rule: every_second.induct)
  case (1 b c bs)
  show ?case
  proof (cases "n < len")
    case True
    obtain e1 where e1: "sha_update [b] e = Some e1" "engine_ok e1" using engine_update [OF "1.prems"(1), of "[b]"] by auto
    have n1: "int32 (n + 1) = Some (n + 1)" using "1.prems" True by (simp add: int32_def)
    from "1.IH" [OF e1(2), of "n + 1"] "1.prems" True obtain e' out where
      r: "copy_digest bs (n + 1) len e1 = Some (out, n + 1 + int (length out), e')" "out = take (nat (len - (n + 1))) (every_second bs)" "engine_ok e'"
      by auto
    have "nat (len - n) = Suc (nat (len - (n + 1)))" using True by simp
    with r e1(1) n1 True show ?thesis by simp
  qed (use 1 in simp)
qed auto

lemma length_every_second: "length (every_second d) = (length d + 1) div 2"
  by (induction d rule: every_second.induct) auto

lemma device_loop_ok:
  "mixer_ok m \<Longrightarrow> 0 \<le> n \<Longrightarrow> n \<le> len \<Longrightarrow> len < 2 ^ 31 \<Longrightarrow> \<exists>out m'. device_loop n len m = Some (out, len, m') \<and> int (length out) = len - n"
proof (induction "nat (len - n)" arbitrary: m n rule: less_induct)
  case less
  show ?case
  proof (cases "n < len")
    case False
    then show ?thesis using less.prems by (simp add: device_loop.simps)
  next
    case True
    obtain m1 where m1: "mix_times 100 m = Some m1" "mixer_ok m1" using mix_times_ok [OF less.prems(1)] by blast
    then obtain d where d: "sha_digest (mx_engine m1) = Some (d, new_sha)" "length d = 20"
      using engine_digest by (auto simp: mixer_ok_def)
    obtain e out where e: "copy_digest d n len new_sha = Some (out, n + int (length out), e)" "out = take (nat (len - n)) (every_second d)" "engine_ok e"
      using copy_digest_ok [OF engine_new, of d n len] d(2) less.prems by auto
    let ?m = "m1\<lparr>mx_engine := e\<rparr>" and ?n = "n + int (length out)"
    have l: "length out = min (nat (len - n)) 10" unfolding e(2) using d(2) by (simp add: length_every_second)
    then have n: "n < ?n" "?n \<le> len" using True by auto
    have "mixer_ok ?m" using m1(2) e(3) by (simp add: mixer_ok_def)
    moreover have "nat (len - ?n) < nat (len - n)" using n(1) True by linarith
    ultimately obtain out' m' where r: "device_loop ?n len ?m = Some (out', len, m')" "int (length out') = len - ?n"
      using less.hyps [of ?n ?m] less.prems n by auto
    have "device_loop n len m = Some (out @ out', len, m')"
      using m1(1) d(1) e(1) r(1) True by (subst device_loop.simps) simp
    moreover have "int (length (out @ out')) = len - n" using r(2) by simp
    ultimately show ?thesis by blast
  qed
qed

text \<open>C36: when the system's device gives nothing and fewer than \<open>2 ^ 31\<close> bytes are asked for, \<^verbatim>\<open>readFromDevice\<close> returns after as many
  rounds as it takes, has written as many bytes as it was asked for and returns their number: no update of the engine leaves its
  block, the counter does not overflow, and the doubled step over the digest does not run past the digest's end, because its
  length is even.\<close>

theorem device_bytes_filled:
  assumes "length buf1 = 64" "length buf2 = 16" "length this = 8" "length buffer < 2 ^ 31" "length junk = 128"
  shows "\<exists>out x'. read_from_device [] x now this buffer junk buf1 buf2 = Some (out, int (length buffer), x') \<and> length out = length buffer"
proof -
  obtain g1 where g1: "new_random now buf1 256 = Some g1" "rng_ok g1"
    using init_state_additive [of 256 buf1 4 63 1 now] assms(1) by (auto simp: new_random_def rng_kind_def)
  obtain g2 where g2: "new_random now buf2 64 = Some g2" "rng_ok g2"
    using init_state_additive [of 64 buf2 2 15 1 now] assms(2) by (auto simp: new_random_def rng_kind_def)
  obtain y g1' where n: "rng_next g1 = Some (y, g1')" "rng_ok g1'" using next_total [OF g1(2)] by blast
  have "\<forall>bs \<in> set [word_bytes 4 now, this, buffer, junk]. length bs < 2 ^ 32" using assms by simp
  from updates_ok [OF data_ok_new this] obtain e where e: "foldm (\<lambda>e bs. sha_update bs e) new_sha [word_bytes 4 now, this, buffer, junk] = Some e"
      "engine_ok e" by (auto simp: engine_ok_def simp del: foldm.simps)
  let ?m = "\<lparr>mx_engine = e, mx_rnd1 = g1', mx_rnd2 = g2, mx_x = x + y\<rparr>"
  have "mixer_ok ?m" using e n g2 by (simp add: mixer_ok_def)
  moreover have "int (length buffer) < 2 ^ 31" using assms(4) by simp
  ultimately obtain out m where "device_loop 0 (int (length buffer)) ?m = Some (out, int (length buffer), m)"
      "int (length out) = int (length buffer)" using device_loop_ok [of ?m 0 "int (length buffer)"] by auto
  then show ?thesis using g1(1) g2(1) n(1) e(1) by (simp add: read_from_device_def del: foldm.simps)
qed

lemma device_bytes_filled_witness:
  "\<exists>out x'. read_from_device [] 0 1 (replicate 8 0) [1, 2, 3] (replicate 128 0) (replicate 64 0) (replicate 16 0) =
     Some (out, int (length [1, 2, 3 :: u8]), x') \<and> length out = length [1, 2, 3 :: u8]"
  by (rule device_bytes_filled) simp_all

text \<open>For a longer buffer the counter overflows.\<close>

lemma copy_digest_counts: "copy_digest d n len e = Some (out, n', e') \<Longrightarrow> n < 2 ^ 31 \<Longrightarrow> n' < 2 ^ 31"
  by (induction d n len e arbitrary: out rule: copy_digest.induct)
    (auto simp: int32_def split: if_splits option.splits list.splits prod.splits)

theorem device_counter_overflows:
  assumes "2 ^ 31 \<le> len"
  shows "device_loop 0 len m = None"
proof (rule ccontr)
  assume "device_loop 0 len m \<noteq> None"
  then obtain y where run: "device_loop 0 len m = Some y" by blast
  have "(0 :: int) < 2 ^ 31 \<longrightarrow> fst (snd y) < 2 ^ 31 \<and> len \<le> fst (snd y)"
    by (rule device_loop.raw_induct [where P = "\<lambda>n len m y. n < 2 ^ 31 \<longrightarrow> fst (snd y) < 2 ^ 31 \<and> len \<le> fst (snd y)", rotated, OF run])
      (force simp: bind_eq_Some_conv dest: copy_digest_counts split: if_splits)
  then show False using assms by simp
qed

end
