(* ===== verification/JsonProxy.thy ===== *)
theory JsonProxy
  imports ByteStream
begin

text \<open>
  The proxy \<^verbatim>\<open>JsonProxy/JsonProxy.cpp\<close>, which takes one request after another from its clients, hands each to the server and the
  server's answer back.

  The system is a parameter: what a call returns may depend on the calls made before (\<open>proxy_env\<close>).  The calls a turn makes are
  recorded in their order, and what a call returns is what it returns after \<^verbatim>\<open>TEMP_FAILURE_RETRY\<close>; file descriptors are the numbers of the code.  \<open>None\<close> is a write outside the buffer, or, for
  \<^verbatim>\<open>msend\<close> and \<^verbatim>\<open>mrecv\<close>, a loop that does not end.
\<close>

section \<open>The system\<close>

datatype sys_call =
    CallSocket | CallConnect int | CallAccept | CallRecv int nat | CallSend int "u8 list" | CallClose int | CallPoll int bool | CallSleep
  | CallSetOpt int

record proxy_env =
  pe_socket :: "sys_call list \<Rightarrow> int"
  pe_connect :: "sys_call list \<Rightarrow> int"
  pe_accept :: "sys_call list \<Rightarrow> int"
  pe_recv :: "sys_call list \<Rightarrow> int \<Rightarrow> nat \<Rightarrow> int \<times> u8 list"
  pe_send :: "sys_call list \<Rightarrow> int \<Rightarrow> u8 list \<Rightarrow> int"
  pe_poll :: "sys_call list \<Rightarrow> int \<times> bool"
  pe_again :: "sys_call list \<Rightarrow> bool"

record proxy =
  px_calls :: "sys_call list"
  px_conn :: int
  px_flag :: bool

definition sys :: "sys_call \<Rightarrow> proxy \<Rightarrow> proxy" where
  "sys c s = s\<lparr>px_calls := px_calls s @ [c]\<rparr>"

text \<open>\<^verbatim>\<open>recv\<close> as documented: it returns -1, or how many bytes it has written, at most as many as there is room for.\<close>

definition recv_ok :: "proxy_env \<Rightarrow> bool" where
  "recv_ok e \<longleftrightarrow> (\<forall>cs fd n r bs. pe_recv e cs fd n = (r, bs) \<longrightarrow> r = - 1 \<and> bs = [] \<or> r = int (length bs) \<and> length bs \<le> n)"

section \<open>The calls of the proxy\<close>

definition conn_asss :: "proxy_env \<Rightarrow> proxy \<Rightarrow> int \<times> proxy" where
  "conn_asss e s =
     (let fd = pe_socket e (px_calls s); s1 = sys CallSocket s
      in if fd < 0 then (- 1, s1)
         else if pe_connect e (px_calls s1) < 0 then (- 1, sys (CallConnect fd) s1)
         else (fd, sys (CallSetOpt fd) (sys (CallSetOpt fd) (sys (CallSetOpt fd) (sys (CallConnect fd) s1)))))"

definition wait4 :: "bool \<Rightarrow> proxy_env \<Rightarrow> int \<Rightarrow> proxy \<Rightarrow> int \<times> proxy" where
  "wait4 out e fd s =
     (case pe_poll e (px_calls s) of (ret, ready) \<Rightarrow> (if ret > 0 \<and> \<not> ready then - 1 else ret, sys (CallPoll fd out) s))"

text \<open>\<^verbatim>\<open>recv\<close> into the buffer at \<open>off\<close>: the state of the buffer after it.\<close>

definition recv_at :: "proxy_env \<Rightarrow> int \<Rightarrow> nat \<Rightarrow> nat \<Rightarrow> u8 list \<Rightarrow> proxy \<Rightarrow> (int \<times> u8 list \<times> proxy) option" where
  "recv_at e fd off n buf s =
     (case pe_recv e (px_calls s) fd n of (r, bs) \<Rightarrow>
        if off + length bs \<le> length buf
        then Some (r, take off buf @ bs @ drop (off + length bs) buf, sys (CallRecv fd n) s) else None)"

definition read_jason_req :: "proxy_env \<Rightarrow> int \<Rightarrow> u8 list \<Rightarrow> proxy \<Rightarrow> (nat \<times> u8 list \<times> proxy) option" where
  "read_jason_req e fd buf s = do {
     (r1, buf1, s1) \<leftarrow> recv_at e fd 0 5 buf s;
     if r1 \<noteq> 5 then Some (0, buf1, s1)
     else let len = unat (word_of_bytes (take 2 buf1) :: u16)
          in if len = 0 then Some (0, buf1, s1)
             else if len \<ge> 16 * 1024 - 6 then Some (0, buf1, s1)
             else do {
               (r2, buf2, s2) \<leftarrow> recv_at e fd 5 len buf1 s1;
               Some (if r2 \<noteq> int len then 0 else 5 + len, buf2, s2) } }"

definition read_jason_rep :: "proxy_env \<Rightarrow> int \<Rightarrow> u8 list \<Rightarrow> proxy \<Rightarrow> (nat \<times> u8 list \<times> proxy) option" where
  "read_jason_rep e fd buf s = do {
     (r1, buf1, s1) \<leftarrow> recv_at e fd 0 4 buf s;
     if r1 \<noteq> 4 then Some (0, buf1, s1)
     else let len = unat (word_of_bytes (take 2 buf1) :: u16)
          in if len = 0 then Some (0, buf1, s1)
             else do {
               (r2, buf2, s2) \<leftarrow> recv_at e fd 4 len buf1 s1;
               Some (if r2 \<noteq> int len then 0 else 4 + len, buf2, s2) } }"

section \<open>The loop of the proxy\<close>

definition close_server :: "proxy \<Rightarrow> proxy" where
  "close_server s = (sys (CallClose (px_conn s)) s)\<lparr>px_conn := - 1\<rparr>"

definition proxy_buffer :: "u8 list" where
  "proxy_buffer = replicate (16 * 1024) 0"

text \<open>The inner loop, which is left after one turn: what \<^verbatim>\<open>new_fd\<close> is then.\<close>

definition serve :: "proxy_env \<Rightarrow> int \<Rightarrow> proxy \<Rightarrow> (int \<times> proxy) option" where
  "serve e fd s = do {
     (len, buf, s1) \<leftarrow> read_jason_req e fd proxy_buffer s;
     if len = 0 then Some (- 1, sys (CallClose fd) s1)
     else
       let sd = pe_send e (px_calls s1) (px_conn s1) (take len buf); s2 = sys (CallSend (px_conn s1) (take len buf)) s1
       in if sd < 0 then Some (- 1, close_server (sys (CallClose fd) s2))
          else do {
            (len2, buf2, s3) \<leftarrow> read_jason_rep e (px_conn s2) buf s2;
            if len2 = 0 then Some (- 1, close_server (sys (CallClose fd) s3))
            else
              let cnt = pe_send e (px_calls s3) fd (take len2 buf2); s4 = sys (CallSend fd (take len2 buf2)) s3
              in if cnt \<le> 0 then Some (- 1, sys (CallClose fd) s4) else Some (fd, s4) } }"

text \<open>One turn of the outer loop; \<open>False\<close>: the program ends.\<close>

definition proxy_turn :: "proxy_env \<Rightarrow> proxy \<Rightarrow> (bool \<times> proxy) option" where
  "proxy_turn e s =
     (let (conn, s0) = (if px_conn s = - 1 then conn_asss e s else (px_conn s, s)); s1 = s0\<lparr>px_conn := conn\<rparr>
      in if conn = - 1 then Some (True, sys CallSleep (s1\<lparr>px_flag := False\<rparr>))
         else
           let s2 = s1\<lparr>px_flag := True\<rparr>; fd = pe_accept e (px_calls s2); s3 = sys CallAccept s2
           in if fd = - 1 then Some (False, s3)
              else do {
                (fd', s4) \<leftarrow> serve e fd (sys (CallSetOpt fd) s3);
                Some (True, if fd' > 0 then sys (CallClose fd') s4 else s4) })"

section \<open>Sending and receiving everything\<close>

partial_function (option) msend_loop :: "proxy_env \<Rightarrow> int \<Rightarrow> u8 list \<Rightarrow> nat \<Rightarrow> proxy \<Rightarrow> (int \<times> proxy) option" where
  "msend_loop e fd buf off s =
     (let ret = pe_send e (px_calls s) fd (drop off buf); s1 = sys (CallSend fd (drop off buf)) s
      in if ret = 0 then Some (- 1, s1)
         else if ret < 0
         then (if pe_again e (px_calls s1)
               then (case wait4 True e fd s1 of (w, s2) \<Rightarrow>
                       if w < 0 then Some (- 1, s2)
                       else if off < length buf then msend_loop e fd buf off s2 else Some (int off, s2))
               else Some (- 1, s1))
         else (let off' = off + nat ret in if off' < length buf then msend_loop e fd buf off' s1 else Some (int off', s1)))"

definition msend :: "proxy_env \<Rightarrow> int \<Rightarrow> u8 list \<Rightarrow> proxy \<Rightarrow> (int \<times> proxy) option" where
  "msend e fd buf s = msend_loop e fd buf 0 s"

partial_function (option) mrecv :: "proxy_env \<Rightarrow> int \<Rightarrow> nat \<Rightarrow> proxy \<Rightarrow> (int \<times> u8 list \<times> proxy) option" where
  "mrecv e fd n s =
     (case pe_recv e (px_calls s) fd n of (ret, bs) \<Rightarrow>
        let s1 = sys (CallRecv fd n) s
        in if ret = 0 then Some (- 1, [], s1)
           else if ret < 0
           then (if pe_again e (px_calls s1)
                 then (case wait4 False e fd s1 of (w, s2) \<Rightarrow> if w < 0 then Some (- 1, [], s2) else mrecv e fd n s2)
                 else Some (- 1, [], s1))
           else Some (ret, bs, s1))"

lemma sys_simps [simp]: "px_calls (sys c s) = px_calls s @ [c]" "px_conn (sys c s) = px_conn s" "px_flag (sys c s) = px_flag s"
  by (simp_all add: sys_def)

section \<open>The buffer\<close>

lemma recv_okD: "recv_ok e \<Longrightarrow> pe_recv e cs fd n = (r, bs) \<Longrightarrow> r = - 1 \<and> bs = [] \<or> r = int (length bs) \<and> length bs \<le> n"
  by (simp only: recv_ok_def)

lemma recv_at_fits:
  assumes "recv_ok e" "off + n \<le> length buf"
  shows "\<exists>r b1. recv_at e fd off n buf s = Some (r, b1, sys (CallRecv fd n) s) \<and> length b1 = length buf"
proof -
  obtain r bs where r: "pe_recv e (px_calls s) fd n = (r, bs)" by fastforce
  from recv_okD [OF assms(1) r] have "length bs \<le> n" by auto
  then show ?thesis using r assms(2) by (simp add: recv_at_def)
qed

lemma read_req_rejects:
  "\<lbrakk>recv_at e fd 0 5 buf s = Some (r1, b1, s1); l = unat (word_of_bytes (take 2 b1) :: u16); r1 \<noteq> 5 \<or> l = 0 \<or> 16 * 1024 - 6 \<le> l\<rbrakk> \<Longrightarrow>
    read_jason_req e fd buf s = Some (0, b1, s1)"
  by (auto simp: read_jason_req_def Let_def)

lemma read_req_goes_on:
  "\<lbrakk>recv_at e fd 0 5 buf s = Some (5, b1, s1); l = unat (word_of_bytes (take 2 b1) :: u16); 0 < l; l < 16 * 1024 - 6\<rbrakk> \<Longrightarrow>
    read_jason_req e fd buf s = map_option (\<lambda>(r2, b2, s2). (if r2 \<noteq> int l then 0 else 5 + l, b2, s2)) (recv_at e fd 5 l b1 s1)"
  by (cases "recv_at e fd 5 l b1 s1") (auto simp: read_jason_req_def Let_def)

lemma read_rep_goes_on:
  "\<lbrakk>recv_at e fd 0 4 buf s = Some (4, b1, s1); l = unat (word_of_bytes (take 2 b1) :: u16); 0 < l\<rbrakk> \<Longrightarrow>
    read_jason_rep e fd buf s = map_option (\<lambda>(r2, b2, s2). (if r2 \<noteq> int l then 0 else 4 + l, b2, s2)) (recv_at e fd 4 l b1 s1)"
  by (cases "recv_at e fd 4 l b1 s1") (auto simp: read_jason_rep_def Let_def)

text \<open>A request is read inside the buffer whatever a client sends; its length, when it is accepted, is at most two bytes less
  than the buffer's.\<close>

theorem request_fits:
  assumes "recv_ok e" "length buf = 16 * 1024"
  shows "\<exists>n buf' s'. read_jason_req e fd buf s = Some (n, buf', s') \<and> n \<le> 16 * 1024 - 2 \<and> length buf' = 16 * 1024"
proof -
  obtain r b1 where h: "length b1 = 16 * 1024" "recv_at e fd 0 5 buf s = Some (r, b1, sys (CallRecv fd 5) s)"
    using recv_at_fits [OF assms(1), of 0 5 buf fd s] assms(2) by auto
  define l where "l = unat (word_of_bytes (take 2 b1) :: u16)"
  show ?thesis
  proof (cases "r \<noteq> 5 \<or> l = 0 \<or> 16 * 1024 - 6 \<le> l")
    case True
    with h read_req_rejects [OF h(2) l_def] show ?thesis by auto
  next
    case False
    then have l: "r = 5" "0 < l" "l < 16 * 1024 - 6" by auto
    then have "5 + l \<le> length b1" unfolding h(1) by simp
    from recv_at_fits [OF assms(1) this, of fd "sys (CallRecv fd 5) s"] obtain r2 b2 s2 where
        "recv_at e fd 5 l b1 (sys (CallRecv fd 5) s) = Some (r2, b2, s2)" "length b2 = 16 * 1024"
      using h(1) by auto
    with read_req_goes_on [OF h(2) [unfolded l(1)] l_def l(2,3)] l(3) show ?thesis by auto
  qed
qed

text \<open>The answer's length is not compared with the buffer's: an answer of more than 16380 bytes that arrives whole is written past
  the end of the buffer on the stack.\<close>

theorem answer_overflows:
  assumes "length buf = 16 * 1024" "pe_recv e (px_calls s) fd 4 = (4, hdr)" "length hdr = 4"
    and "m = unat (word_of_bytes (take 2 hdr) :: u16)" "16 * 1024 - 4 < m"
    and "pe_recv e (px_calls s @ [CallRecv fd 4]) fd m = (int m, body)" "length body = m"
  shows "read_jason_rep e fd buf s = None"
proof -
  have h: "recv_at e fd 0 4 buf s = Some (4, hdr @ drop 4 buf, sys (CallRecv fd 4) s)" using assms(1-3) by (simp add: recv_at_def)
  moreover have "recv_at e fd 4 m (hdr @ drop 4 buf) (sys (CallRecv fd 4) s) = None"
    using assms(1,3,5-7) by (simp add: recv_at_def)
  moreover have "m = unat (word_of_bytes (take 2 (hdr @ drop 4 buf)) :: u16)" using assms(3,4) by simp
  ultimately show ?thesis using read_rep_goes_on [OF h] assms(5) by simp
qed

section \<open>A request and its answer\<close>

text \<open>Header and body received one after the other.\<close>

lemma read_req_whole:
  assumes "length buf = 16 * 1024" "pe_recv e (px_calls s) fd 5 = (5, hdr)" "length hdr = 5"
    and "l = unat (word_of_bytes (take 2 hdr) :: u16)" "0 < l" "l < 16 * 1024 - 6"
    and "pe_recv e (px_calls s @ [CallRecv fd 5]) fd l = (int l, body)" "length body = l"
  shows "read_jason_req e fd buf s = Some (5 + l, hdr @ body @ drop (5 + l) buf, sys (CallRecv fd l) (sys (CallRecv fd 5) s))"
proof -
  have h: "recv_at e fd 0 5 buf s = Some (5, hdr @ drop 5 buf, sys (CallRecv fd 5) s)" using assms(1-3) by (simp add: recv_at_def)
  moreover have "recv_at e fd 5 l (hdr @ drop 5 buf) (sys (CallRecv fd 5) s) =
      Some (int l, hdr @ body @ drop (5 + l) buf, sys (CallRecv fd l) (sys (CallRecv fd 5) s))"
    using assms(1,3,5-8) by (simp add: recv_at_def add.commute)
  moreover have "l = unat (word_of_bytes (take 2 (hdr @ drop 5 buf)) :: u16)" using assms(3,4) by simp
  ultimately show ?thesis using read_req_goes_on [OF h] assms(5,6) by simp
qed

lemma read_rep_whole:
  assumes "length buf = 16 * 1024" "pe_recv e (px_calls s) fd 4 = (4, hdr)" "length hdr = 4"
    and "l = unat (word_of_bytes (take 2 hdr) :: u16)" "0 < l" "l \<le> 16 * 1024 - 4"
    and "pe_recv e (px_calls s @ [CallRecv fd 4]) fd l = (int l, body)" "length body = l"
  shows "read_jason_rep e fd buf s = Some (4 + l, hdr @ body @ drop (4 + l) buf, sys (CallRecv fd l) (sys (CallRecv fd 4) s))"
proof -
  have h: "recv_at e fd 0 4 buf s = Some (4, hdr @ drop 4 buf, sys (CallRecv fd 4) s)" using assms(1-3) by (simp add: recv_at_def)
  moreover have "recv_at e fd 4 l (hdr @ drop 4 buf) (sys (CallRecv fd 4) s) =
      Some (int l, hdr @ body @ drop (4 + l) buf, sys (CallRecv fd l) (sys (CallRecv fd 4) s))"
    using assms(1,3,5-8) by (simp add: recv_at_def add.commute)
  moreover have "l = unat (word_of_bytes (take 2 (hdr @ drop 4 buf)) :: u16)" using assms(3,4) by simp
  ultimately show ?thesis using read_rep_goes_on [OF h] assms(5) by simp
qed

lemma split_message: "length xs = k + n \<Longrightarrow> 2 \<le> k \<Longrightarrow> length (take k xs) = k \<and> length (drop k xs) = n \<and> take 2 (take k xs) = take 2 xs \<and>
    take k xs @ drop k xs @ ys = xs @ ys"
  by (simp add: min_def)

lemma read_req_message:
  assumes "length buf = 16 * 1024" "l = unat (word_of_bytes (take 2 req) :: u16)" "0 < l" "l < 16 * 1024 - 6" "length req = 5 + l"
    and "pe_recv e (px_calls s) fd 5 = (5, take 5 req)" "pe_recv e (px_calls s @ [CallRecv fd 5]) fd l = (int l, drop 5 req)"
  shows "read_jason_req e fd buf s = Some (length req, req @ drop (length req) buf, sys (CallRecv fd l) (sys (CallRecv fd 5) s))"
proof -
  have two: "2 \<le> (5 :: nat)" by simp
  have p: "length (take 5 req) = 5" "length (drop 5 req) = l" "take 2 (take 5 req) = take 2 req"
      "take 5 req @ drop 5 req @ drop (5 + l) buf = req @ drop (5 + l) buf" using split_message [OF assms(5) two] by blast+
  have "read_jason_req e fd buf s = Some (5 + l, take 5 req @ drop 5 req @ drop (5 + l) buf, sys (CallRecv fd l) (sys (CallRecv fd 5) s))"
    using read_req_whole [OF assms(1,6) p(1) _ assms(3,4,7) p(2)] assms(2) p(3) by metis
  then show ?thesis unfolding p(4) assms(5) .
qed

lemma read_rep_message:
  assumes "length buf = 16 * 1024" "l = unat (word_of_bytes (take 2 ans) :: u16)" "0 < l" "l \<le> 16 * 1024 - 4" "length ans = 4 + l"
    and "pe_recv e (px_calls s) fd 4 = (4, take 4 ans)" "pe_recv e (px_calls s @ [CallRecv fd 4]) fd l = (int l, drop 4 ans)"
  shows "read_jason_rep e fd buf s = Some (length ans, ans @ drop (length ans) buf, sys (CallRecv fd l) (sys (CallRecv fd 4) s))"
proof -
  have two: "2 \<le> (4 :: nat)" by simp
  have p: "length (take 4 ans) = 4" "length (drop 4 ans) = l" "take 2 (take 4 ans) = take 2 ans"
      "take 4 ans @ drop 4 ans @ drop (4 + l) buf = ans @ drop (4 + l) buf" using split_message [OF assms(5) two] by blast+
  have "read_jason_rep e fd buf s = Some (4 + l, take 4 ans @ drop 4 ans @ drop (4 + l) buf, sys (CallRecv fd l) (sys (CallRecv fd 4) s))"
    using read_rep_whole [OF assms(1,6) p(1) _ assms(3,4,7) p(2)] assms(2) p(3) by metis
  then show ?thesis unfolding p(4) assms(5) .
qed

lemma serve_whole:
  assumes "read_jason_req e fd proxy_buffer s = Some (length req, req @ rest, s1)" "req \<noteq> []"
    and "0 \<le> pe_send e (px_calls s1) (px_conn s1) req"
    and "read_jason_rep e (px_conn s1) (req @ rest) (sys (CallSend (px_conn s1) req) s1) = Some (length ans, ans @ rest', s3)" "ans \<noteq> []"
    and "0 < pe_send e (px_calls s3) fd ans"
  shows "serve e fd s = Some (fd, sys (CallSend fd ans) s3)"
  using assms by (simp add: serve_def Let_def)

text \<open>What the system does in a turn in which everything arrives in one piece and every \<^verbatim>\<open>send\<close> takes all: \<open>req\<close> comes from the
  client \<open>fd\<close>, \<open>ans\<close> from the server \<open>c\<close>, each as a header and the rest, which is as long as the header says, at most 16377
  bytes of a request and 16380 of an answer.\<close>

definition answers :: "proxy_env \<Rightarrow> sys_call list \<Rightarrow> int \<Rightarrow> int \<Rightarrow> u8 list \<Rightarrow> u8 list \<Rightarrow> bool" where
  "answers e h fd c req ans \<longleftrightarrow>
     (let l = unat (word_of_bytes (take 2 req) :: u16); m = unat (word_of_bytes (take 2 ans) :: u16);
          h1 = h @ [CallAccept, CallSetOpt fd]; h2 = h1 @ [CallRecv fd 5]; h3 = h2 @ [CallRecv fd l, CallSend c req];
          h4 = h3 @ [CallRecv c 4]; h5 = h4 @ [CallRecv c m]
      in pe_accept e h = fd \<and> 0 < l \<and> l < 16 * 1024 - 6 \<and> length req = 5 + l \<and> 0 < m \<and> m \<le> 16 * 1024 - 4 \<and> length ans = 4 + m \<and>
         pe_recv e h1 fd 5 = (5, take 5 req) \<and> pe_recv e h2 fd l = (int l, drop 5 req) \<and>
         pe_send e (h2 @ [CallRecv fd l]) c req = int (length req) \<and>
         pe_recv e h3 c 4 = (4, take 4 ans) \<and> pe_recv e h4 c m = (int m, drop 4 ans) \<and> pe_send e h5 fd ans = int (length ans))"

lemma turn_answers:
  assumes "px_conn s \<noteq> - 1" "0 < fd" "answers e (px_calls s) fd (px_conn s) req ans"
    and "l = unat (word_of_bytes (take 2 req) :: u16)" "m = unat (word_of_bytes (take 2 ans) :: u16)"
  shows "\<exists>s3. proxy_turn e s = Some (True, sys (CallClose fd) (sys (CallSend fd ans) s3)) \<and> px_conn s3 = px_conn s \<and>
    px_calls s3 = px_calls s @ [CallAccept, CallSetOpt fd, CallRecv fd 5, CallRecv fd l, CallSend (px_conn s) req,
      CallRecv (px_conn s) 4, CallRecv (px_conn s) m]"
proof -
  let ?c = "px_conn s" and ?s = "sys (CallSetOpt fd) (sys CallAccept (s\<lparr>px_flag := True\<rparr>))"
  let ?s1 = "sys (CallRecv fd l) (sys (CallRecv fd 5) ?s)"
  let ?s2 = "sys (CallSend ?c req) ?s1"
  let ?s3 = "sys (CallRecv ?c m) (sys (CallRecv ?c 4) ?s2)"
  let ?h = "px_calls s @ [CallAccept, CallSetOpt fd]"
  note a = assms(3) [unfolded answers_def Let_def, folded assms(4,5)]
  from a have acc: "pe_accept e (px_calls s) = fd" and l: "0 < l" "l < 16 * 1024 - 6" "length req = 5 + l"
    and m: "0 < m" "m \<le> 16 * 1024 - 4" "length ans = 4 + m"
    and i1: "pe_recv e ?h fd 5 = (5, take 5 req)" "pe_recv e (?h @ [CallRecv fd 5]) fd l = (int l, drop 5 req)"
    and sent1: "pe_send e ((?h @ [CallRecv fd 5]) @ [CallRecv fd l]) ?c req = int (length req)"
    and i2: "pe_recv e ((?h @ [CallRecv fd 5]) @ [CallRecv fd l, CallSend ?c req]) ?c 4 = (4, take 4 ans)"
      "pe_recv e (((?h @ [CallRecv fd 5]) @ [CallRecv fd l, CallSend ?c req]) @ [CallRecv ?c 4]) ?c m = (int m, drop 4 ans)"
    and sent2: "pe_send e ((((?h @ [CallRecv fd 5]) @ [CallRecv fd l, CallSend ?c req]) @ [CallRecv ?c 4]) @ [CallRecv ?c m]) fd ans = int (length ans)"
    by blast+
  from sent1 have o1: "0 \<le> pe_send e ((?h @ [CallRecv fd 5]) @ [CallRecv fd l]) ?c req" by simp
  from sent2 l m have o2: "0 < pe_send e ((((?h @ [CallRecv fd 5]) @ [CallRecv fd l, CallSend ?c req]) @ [CallRecv ?c 4]) @ [CallRecv ?c m]) fd ans"
    by simp
  have cs: "px_calls ?s = ?h" "px_calls ?s1 = (?h @ [CallRecv fd 5]) @ [CallRecv fd l]"
      "px_calls ?s2 = (?h @ [CallRecv fd 5]) @ [CallRecv fd l, CallSend ?c req]"
      "px_calls ?s3 = (((?h @ [CallRecv fd 5]) @ [CallRecv fd l, CallSend ?c req]) @ [CallRecv ?c 4]) @ [CallRecv ?c m]" by simp_all
  note in1 = i1 [folded cs(1)] and out1 = o1 [folded cs(2)] and in2 = i2 [folded cs(3)] and out2 = o2 [folded cs(4)]
  have lb: "length proxy_buffer = 16 * 1024" by (simp add: proxy_buffer_def)
  have ne: "req \<noteq> []" "ans \<noteq> []" using l m by auto
  let ?b = "req @ drop (length req) proxy_buffer"
  have r: "read_jason_req e fd proxy_buffer ?s = Some (length req, ?b, ?s1)"
    by (rule read_req_message [OF lb assms(4) l in1])
  have conn: "px_conn ?s1 = ?c" by simp
  have "length ?b = 16 * 1024" using l lb by simp
  then have p: "read_jason_rep e (px_conn ?s1) ?b (sys (CallSend (px_conn ?s1) req) ?s1) = Some (length ans, ans @ drop (length ans) ?b, ?s3)"
    unfolding conn by (rule read_rep_message [OF _ assms(5) m in2])
  have "serve e fd ?s = Some (fd, sys (CallSend fd ans) ?s3)"
    using serve_whole [OF r ne(1) _ p ne(2) out2] out1 unfolding conn by blast
  then have "proxy_turn e s = Some (True, sys (CallClose fd) (sys (CallSend fd ans) ?s3))"
    using assms(1,2) acc by (simp add: proxy_turn_def Let_def)
  then show ?thesis by (intro exI [of _ ?s3] conjI) simp_all
qed

text \<open>C37: the proxy hands a request on and its answer back, byte for byte.  When a connected proxy accepts a client, the request,
  whose length field says 1 to 16377, and the answer, whose length field says 1 to 16380, each arrive in one piece, and
  \<^verbatim>\<open>send\<close> takes all it is given, the turn sends the whole request to the server once and the whole answer to the client once, closes
  the client's connection and keeps the server's.\<close>

theorem request_answered:
  assumes "px_conn s \<noteq> - 1" "0 < fd" "answers e (px_calls s) fd (px_conn s) req ans"
  shows "\<exists>s'. proxy_turn e s = Some (True, s') \<and> px_conn s' = px_conn s \<and>
    [c \<leftarrow> drop (length (px_calls s)) (px_calls s'). \<exists>f bs. c = CallSend f bs \<or> c = CallClose f] =
      [CallSend (px_conn s) req, CallSend fd ans, CallClose fd]"
  using turn_answers [OF assms refl refl] by auto

definition script_env :: proxy_env where
  "script_env = \<lparr>pe_socket = (\<lambda>_. 9), pe_connect = (\<lambda>_. 0), pe_accept = (\<lambda>_. 8),
     pe_recv = (\<lambda>h _ _. if length h = 2 then (5, [1, 0, 0, 0, 0]) else if length h = 3 then (1, [77])
        else if length h = 5 then (4, [2, 0, 0, 0]) else (2, [55, 66])),
     pe_send = (\<lambda>_ _ bs. int (length bs)), pe_poll = (\<lambda>_. (1, True)), pe_again = (\<lambda>_. False)\<rparr>"

definition connected :: proxy where
  "connected = \<lparr>px_calls = [], px_conn = 3, px_flag = True\<rparr>"

lemma one_and_two: "unat (word_of_bytes [1, 0] :: u16) = 1" "unat (word_of_bytes [2, 0] :: u16) = 2"
  by (simp_all add: word_of_bytes_def)

lemma script_answers: "answers script_env (px_calls connected) 8 (px_conn connected) [1, 0, 0, 0, 0, 77] [2, 0, 0, 0, 55, 66]"
  by (simp add: answers_def Let_def one_and_two script_env_def connected_def)

lemma script_turn: "\<exists>s'. proxy_turn script_env connected = Some (True, s')"
  using turn_answers [OF _ _ script_answers refl refl] by (auto simp: connected_def)

lemma request_answered_witness:
  "\<exists>s'. proxy_turn script_env connected = Some (True, s') \<and> px_conn s' = px_conn connected \<and>
    [c \<leftarrow> drop (length (px_calls connected)) (px_calls s'). \<exists>f bs. c = CallSend f bs \<or> c = CallClose f] =
      [CallSend (px_conn connected) [1, 0, 0, 0, 0, 77], CallSend 8 [2, 0, 0, 0, 55, 66], CallClose 8]"
  by (rule request_answered [OF _ _ script_answers]) (simp_all add: connected_def)

section \<open>Connections\<close>

text \<open>What the calls that read do to the record of calls.\<close>

lemma recv_at_calls: "recv_at e fd off n buf s = Some (r, b, s1) \<Longrightarrow> s1 = sys (CallRecv fd n) s"
  by (auto simp: recv_at_def split: prod.splits if_splits)

definition only_reads :: "proxy \<Rightarrow> proxy \<Rightarrow> bool" where
  "only_reads s s1 \<longleftrightarrow> px_conn s1 = px_conn s \<and> (\<exists>new. px_calls s1 = px_calls s @ new \<and> (\<forall>f. CallClose f \<notin> set new))"

lemma only_reads_trans: "only_reads s s1 \<Longrightarrow> only_reads s1 s2 \<Longrightarrow> only_reads s s2"
  by (auto simp: only_reads_def)

lemma only_reads_sys: "(\<And>f. c \<noteq> CallClose f) \<Longrightarrow> only_reads s (sys c s)"
  by (auto simp: only_reads_def)

lemma read_req_calls: "read_jason_req e fd buf s = Some (n, b, s1) \<Longrightarrow> only_reads s s1"
  by (auto simp: read_jason_req_def Let_def bind_eq_Some_conv split: if_splits dest!: recv_at_calls
      intro: only_reads_sys only_reads_trans [OF only_reads_sys only_reads_sys])

lemma read_rep_calls: "read_jason_rep e fd buf s = Some (n, b, s1) \<Longrightarrow> only_reads s s1"
  by (auto simp: read_jason_rep_def Let_def bind_eq_Some_conv split: if_splits dest!: recv_at_calls
      intro: only_reads_sys only_reads_trans [OF only_reads_sys only_reads_sys])

text \<open>How often a descriptor has been closed in a turn.\<close>

definition closes :: "proxy \<Rightarrow> proxy \<Rightarrow> int \<Rightarrow> nat" where
  "closes s s' f = count_list (drop (length (px_calls s)) (px_calls s')) (CallClose f)"

lemma closes_reads: "only_reads s s1 \<Longrightarrow> px_calls s2 = px_calls s1 @ new \<Longrightarrow> closes s s2 f = count_list new (CallClose f)"
  by (auto simp: only_reads_def closes_def)

text \<open>C38: no connection is closed twice and none is forgotten.  In a turn of a connected proxy the client's descriptor, when it is
  positive, is closed exactly once, however the turn goes; the server's is closed once and forgotten, or not closed and kept; no
  other descriptor is closed.\<close>

theorem every_client_closed_once:
  assumes "px_conn s \<noteq> - 1" "fd = pe_accept e (px_calls s)" "0 < fd" "fd \<noteq> px_conn s" "proxy_turn e s = Some (go, s')"
  shows "go \<and> closes s s' fd = 1 \<and> (px_conn s' = px_conn s \<and> closes s s' (px_conn s) = 0 \<or> px_conn s' = - 1 \<and> closes s s' (px_conn s) = 1) \<and>
    (\<forall>f. f \<noteq> fd \<and> f \<noteq> px_conn s \<longrightarrow> closes s s' f = 0)"
proof -
  let ?c = "px_conn s" and ?s = "sys (CallSetOpt fd) (sys CallAccept (s\<lparr>px_flag := True\<rparr>))"
  have start: "only_reads s ?s" by (auto simp: only_reads_def)
  from assms obtain fd' s4 where v: "serve e fd ?s = Some (fd', s4)" "s' = (if fd' > 0 then sys (CallClose fd') s4 else s4)" "go"
    by (auto simp: proxy_turn_def Let_def bind_eq_Some_conv)
  from v(1) obtain n buf s1 where r1: "read_jason_req e fd proxy_buffer ?s = Some (n, buf, s1)"
    by (auto simp: serve_def bind_eq_Some_conv)
  from only_reads_trans [OF start read_req_calls [OF r1]] have o1: "only_reads s s1" .
  then have c1: "px_conn s1 = ?c" by (simp add: only_reads_def)
  let ?s2 = "sys (CallSend ?c (take n buf)) s1"
  have o2: "only_reads s ?s2" using only_reads_trans [OF o1] only_reads_sys by blast
  consider "n = 0" "fd' = - 1" "s4 = sys (CallClose fd) s1"
    | "fd' = - 1" "s4 = close_server (sys (CallClose fd) ?s2)"
    | n2 b2 s3 where "read_jason_rep e ?c buf ?s2 = Some (n2, b2, s3)" "fd' = - 1" "s4 = close_server (sys (CallClose fd) s3)"
    | n2 b2 s3 where "read_jason_rep e ?c buf ?s2 = Some (n2, b2, s3)" "fd' = - 1" "s4 = sys (CallClose fd) (sys (CallSend fd (take n2 b2)) s3)"
    | n2 b2 s3 where "read_jason_rep e ?c buf ?s2 = Some (n2, b2, s3)" "fd' = fd" "s4 = sys (CallSend fd (take n2 b2)) s3"
    using v(1) r1 c1 by (auto simp: serve_def Let_def bind_eq_Some_conv split: if_splits)
  then show ?thesis
  proof cases
    case 1
    then have "px_calls s' = px_calls s1 @ [CallClose fd]" "px_conn s' = ?c" using v(2) c1 by simp_all
    with closes_reads [OF o1 this(1)] assms(4) v(3) show ?thesis by auto
  next
    case 2
    then have "px_calls s' = px_calls ?s2 @ [CallClose fd, CallClose ?c]" "px_conn s' = - 1" using v(2) c1 by (simp_all add: close_server_def)
    with closes_reads [OF o2 this(1)] assms(4) v(3) show ?thesis by auto
  next
    case 3
    from only_reads_trans [OF o2 read_rep_calls [OF 3(1)]] have o3: "only_reads s s3" .
    then have "px_calls s' = px_calls s3 @ [CallClose fd, CallClose ?c]" "px_conn s' = - 1"
      using 3 v(2) by (simp_all add: close_server_def only_reads_def)
    with closes_reads [OF o3 this(1)] assms(4) v(3) show ?thesis by auto
  next
    case 4
    from only_reads_trans [OF o2 read_rep_calls [OF 4(1)]] have o3: "only_reads s s3" .
    then have "px_calls s' = px_calls s3 @ [CallSend fd (take n2 b2), CallClose fd]" "px_conn s' = ?c"
      using 4 v(2) by (simp_all add: only_reads_def)
    with closes_reads [OF o3 this(1)] assms(4) v(3) show ?thesis by auto
  next
    case 5
    from only_reads_trans [OF o2 read_rep_calls [OF 5(1)]] have o3: "only_reads s s3" .
    then have "px_calls s' = px_calls s3 @ [CallSend fd (take n2 b2), CallClose fd]" "px_conn s' = ?c"
      using 5 v(2) assms(3) by (simp_all add: only_reads_def)
    with closes_reads [OF o3 this(1)] assms(4) v(3) show ?thesis by auto
  qed
qed

text \<open>A socket whose connection fails is not closed: a proxy without a server opens one every second.\<close>

theorem failed_connection_leaks:
  assumes "px_conn s = - 1" "0 \<le> pe_socket e (px_calls s)" "pe_connect e (px_calls s @ [CallSocket]) < 0"
  shows "\<exists>s'. proxy_turn e s = Some (True, s') \<and> px_conn s' = - 1 \<and>
    px_calls s' = px_calls s @ [CallSocket, CallConnect (pe_socket e (px_calls s)), CallSleep]"
  using assms by (simp add: proxy_turn_def conn_asss_def Let_def)


lemma every_client_closed_once_witness:
  "\<exists>go s'. proxy_turn script_env connected = Some (go, s') \<and> go \<and> closes connected s' 8 = 1"
proof -
  from script_turn obtain s' where s': "proxy_turn script_env connected = Some (True, s')" by blast
  have "closes connected s' 8 = 1"
    using every_client_closed_once [OF _ _ _ _ s', of 8] by (simp add: connected_def script_env_def)
  with s' show ?thesis by blast
qed

section \<open>Sending everything\<close>

text \<open>What the system has taken of the buffers handed to \<^verbatim>\<open>send\<close>.\<close>

fun taken :: "proxy_env \<Rightarrow> sys_call list \<Rightarrow> sys_call list \<Rightarrow> u8 list" where
  "taken e h [] = []"
| "taken e h (CallSend fd bs # cs) = take (nat (pe_send e h fd bs)) bs @ taken e (h @ [CallSend fd bs]) cs"
| "taken e h (c # cs) = taken e (h @ [c]) cs"

definition send_ok :: "proxy_env \<Rightarrow> bool" where
  "send_ok e \<longleftrightarrow> (\<forall>h fd bs. pe_send e h fd bs \<le> int (length bs))"

lemma taken_append: "taken e h (cs @ ds) = taken e h cs @ taken e (h @ cs) ds"
  by (induction e h cs rule: taken.induct) simp_all

definition sent_by :: "proxy_env \<Rightarrow> proxy \<Rightarrow> proxy \<Rightarrow> u8 list \<Rightarrow> bool" where
  "sent_by e s s' bs \<longleftrightarrow> (\<exists>new. px_calls s' = px_calls s @ new \<and> taken e (px_calls s) new = bs)"

lemma sent_by_trans: "sent_by e s s1 bs \<Longrightarrow> sent_by e s1 s2 cs \<Longrightarrow> sent_by e s s2 (bs @ cs)"
  by (auto simp: sent_by_def taken_append)

lemma sent_by_send: "sent_by e s (sys (CallSend fd bs) s) (take (nat (pe_send e (px_calls s) fd bs)) bs)"
  by (auto simp: sent_by_def)

lemma sent_by_poll: "wait4 out e fd s = (w, s1) \<Longrightarrow> sent_by e s s1 []"
  by (auto simp: wait4_def sent_by_def split: prod.splits)

lemma send_okD: "send_ok e \<Longrightarrow> pe_send e h fd bs \<le> int (length bs)"
  by (simp add: send_ok_def)

lemma send_piece:
  assumes "send_ok e" "0 < pe_send e (px_calls s) fd (drop off buf)" "off < length buf"
  defines "n \<equiv> nat (pe_send e (px_calls s) fd (drop off buf))"
  shows "off + n \<le> length buf" "take n (drop off buf) @ drop (off + n) buf = drop off buf"
proof -
  have "pe_send e (px_calls s) fd (drop off buf) \<le> int (length (drop off buf))" by (rule send_okD [OF assms(1)])
  then show "off + n \<le> length buf" using assms(2,3) by (simp add: n_def)
  show "take n (drop off buf) @ drop (off + n) buf = drop off buf" by (metis add.commute append_take_drop_id drop_drop)
qed

lemma msend_loop_sends:
  assumes run: "msend_loop e fd buf off s = Some y" and ok: "send_ok e" and off: "off < length buf" and got: "0 \<le> fst y"
  shows "fst y = int (length buf) \<and> sent_by e s (snd y) (drop off buf)"
proof -
  have "send_ok e \<longrightarrow> off < length buf \<longrightarrow> 0 \<le> fst y \<longrightarrow> fst y = int (length buf) \<and> sent_by e s (snd y) (drop off buf)"
  proof (rule msend_loop.raw_induct [where P = "\<lambda>e fd buf off s y. send_ok e \<longrightarrow> off < length buf \<longrightarrow> 0 \<le> fst y \<longrightarrow>
      fst y = int (length buf) \<and> sent_by e s (snd y) (drop off buf)", rotated, OF run], intro impI)
    fix f :: "proxy_env \<Rightarrow> int \<Rightarrow> u8 list \<Rightarrow> nat \<Rightarrow> proxy \<Rightarrow> (int \<times> proxy) option" and e :: proxy_env and fd :: int and buf :: "u8 list" and off :: nat and s :: proxy and y :: "int \<times> proxy"
    assume IH: "\<And>e fd buf off s y. f e fd buf off s = Some y \<Longrightarrow> send_ok e \<longrightarrow> off < length buf \<longrightarrow> 0 \<le> fst y \<longrightarrow>
        fst y = int (length buf) \<and> sent_by e s (snd y) (drop off buf)"
    let ?ret = "pe_send e (px_calls s) fd (drop off buf)" and ?s1 = "sys (CallSend fd (drop off buf)) s"
    assume eq: "(let ret = ?ret; s1 = ?s1
      in if ret = 0 then Some (- 1, s1)
         else if ret < 0
         then if pe_again e (px_calls s1)
              then case wait4 True e fd s1 of (w, s2) \<Rightarrow>
                if w < 0 then Some (- 1, s2) else if off < length buf then f e fd buf off s2 else Some (int off, s2)
              else Some (- 1, s1)
         else let off' = off + nat ret in if off' < length buf then f e fd buf off' s1 else Some (int off', s1)) = Some y"
    assume ok: "send_ok e" and off: "off < length buf" and got: "0 \<le> fst y"
    have piece: "sent_by e s ?s1 (take (nat ?ret) (drop off buf))" by (rule sent_by_send)
    show "fst y = int (length buf) \<and> sent_by e s (snd y) (drop off buf)"
    proof (cases "?ret < 0")
      case True
      obtain w s2 where w: "wait4 True e fd ?s1 = (w, s2)" by fastforce
      have "f e fd buf off s2 = Some y" using eq True w off got by (auto simp: Let_def split: if_splits)
      with IH ok off got have "fst y = int (length buf)" "sent_by e s2 (snd y) (drop off buf)" by blast+
      moreover have "sent_by e s s2 ([] @ [])" using piece True by (intro sent_by_trans [OF _ sent_by_poll [OF w]]) simp
      ultimately show ?thesis using sent_by_trans [of e s s2 "[] @ []" "snd y"] by fastforce
    next
      case False
      with eq got have pos: "0 < ?ret" by (auto simp: Let_def split: if_splits)
      note p = send_piece [OF ok pos off]
      show ?thesis
      proof (cases "off + nat ?ret < length buf")
        case True
        then have "f e fd buf (off + nat ?ret) ?s1 = Some y" using eq pos by (auto simp: Let_def split: if_splits)
        with IH ok True got have "fst y = int (length buf)" "sent_by e ?s1 (snd y) (drop (off + nat ?ret) buf)" by blast+
        then show ?thesis using sent_by_trans [OF piece] p(2) by metis
      next
        case False
        then have y: "y = (int (off + nat ?ret), ?s1)" "off + nat ?ret = length buf" using eq pos p(1) by (auto simp: Let_def split: if_splits)
        then have "take (nat ?ret) (drop off buf) = drop off buf" using p(2) by simp
        with piece y show ?thesis by simp
      qed
    qed
  qed
  with ok off got show ?thesis by blast
qed

text \<open>C39: what \<^verbatim>\<open>msend\<close> reports is true: a result that is not negative is the size of the buffer, and the pieces the system has taken
  are, one after the other, the buffer; a call that would block is repeated and sends nothing twice.\<close>

theorem msend_sends_all:
  assumes "send_ok e" "buf \<noteq> []" "msend e fd buf s = Some (r, s')" "0 \<le> r"
  shows "r = int (length buf) \<and> sent_by e s s' buf"
  using msend_loop_sends [of e fd buf 0 s "(r, s')"] assms by (simp add: msend_def)

text \<open>It returns when the system takes something at every call; when the peer takes nothing, \<^verbatim>\<open>poll\<close> runs into its time limit and
  returns 0, which \<^verbatim>\<open>msend\<close> does not tell from readiness: it never returns.\<close>

theorem msend_returns:
  assumes "send_ok e" "\<And>h fd bs. bs \<noteq> [] \<Longrightarrow> 0 < pe_send e h fd bs" "buf \<noteq> []"
  shows "\<exists>s'. msend e fd buf s = Some (int (length buf), s')"
proof -
  have "\<exists>s'. msend_loop e fd buf off s = Some (int (length buf), s')" if "off < length buf" for off s
    using that
  proof (induction "length buf - off" arbitrary: off s rule: less_induct)
    case less
    have pos: "0 < pe_send e (px_calls s) fd (drop off buf)" using assms(2) less.prems by simp
    note p = send_piece [OF assms(1) pos less.prems]
    let ?n = "nat (pe_send e (px_calls s) fd (drop off buf))" and ?s = "sys (CallSend fd (drop off buf)) s"
    show ?case
    proof (cases "off + ?n < length buf")
      case True
      have "length buf - (off + ?n) < length buf - off" using pos less.prems by simp
      from less.hyps [OF this True, of ?s] pos True show ?thesis by (subst msend_loop.simps) (simp add: Let_def)
    next
      case False
      then have "off + ?n = length buf" using p(1) by simp
      with pos show ?thesis by (subst msend_loop.simps) (simp add: Let_def)
    qed
  qed
  from this [of 0 s] assms(3) show ?thesis by (simp add: msend_def)
qed

theorem msend_stuck:
  assumes "\<And>h fd bs. pe_send e h fd bs = - 1" "\<And>h. pe_again e h" "\<And>h. pe_poll e h = (0, False)" "buf \<noteq> []"
  shows "msend e fd buf s = None"
proof (rule ccontr)
  assume "msend e fd buf s \<noteq> None"
  then obtain y where run: "msend_loop e fd buf 0 s = Some y" by (auto simp: msend_def)
  have "(\<forall>h fd bs. pe_send e h fd bs = - 1) \<longrightarrow> (\<forall>h. pe_again e h) \<longrightarrow> (\<forall>h. pe_poll e h = (0, False)) \<longrightarrow> 0 < length buf \<longrightarrow> False"
    by (rule msend_loop.raw_induct [where P = "\<lambda>e fd buf off s y. (\<forall>h fd bs. pe_send e h fd bs = - 1) \<longrightarrow> (\<forall>h. pe_again e h) \<longrightarrow>
      (\<forall>h. pe_poll e h = (0, False)) \<longrightarrow> off < length buf \<longrightarrow> False", rotated, OF run]) (auto simp: Let_def wait4_def)
  with assms show False by simp
qed

text \<open>\<^verbatim>\<open>mrecv\<close> returns what the first call that does not fail has received.\<close>

theorem mrecv_receives:
  assumes "recv_ok e" "mrecv e fd n s = Some (r, bs, s')" "0 \<le> r"
  shows "0 < r \<and> r = int (length bs) \<and> length bs \<le> n"
proof -
  have "recv_ok e \<longrightarrow> 0 \<le> fst (r, bs, s') \<longrightarrow> 0 < fst (r, bs, s') \<and> fst (r, bs, s') = int (length (fst (snd (r, bs, s')))) \<and> length (fst (snd (r, bs, s'))) \<le> n"
  proof (rule mrecv.raw_induct [where P = "\<lambda>e fd n s y. recv_ok e \<longrightarrow> 0 \<le> fst y \<longrightarrow> 0 < fst y \<and> fst y = int (length (fst (snd y))) \<and> length (fst (snd y)) \<le> n",
      rotated, OF assms(2)], intro impI)
    fix f :: "proxy_env \<Rightarrow> int \<Rightarrow> nat \<Rightarrow> proxy \<Rightarrow> (int \<times> u8 list \<times> proxy) option" and e :: proxy_env and fd :: int and n :: nat and s :: proxy and y :: "int \<times> u8 list \<times> proxy"
    assume IH: "\<And>e fd n s y. f e fd n s = Some y \<Longrightarrow> recv_ok e \<longrightarrow> 0 \<le> fst y \<longrightarrow>
        0 < fst y \<and> fst y = int (length (fst (snd y))) \<and> length (fst (snd y)) \<le> n"
    assume eq: "(case pe_recv e (px_calls s) fd n of (ret, bs) \<Rightarrow>
        let s1 = sys (CallRecv fd n) s
        in if ret = 0 then Some (- 1, [], s1)
           else if ret < 0
           then if pe_again e (px_calls s1)
                then case wait4 False e fd s1 of (w, s2) \<Rightarrow> if w < 0 then Some (- 1, [], s2) else f e fd n s2
                else Some (- 1, [], s1)
           else Some (ret, bs, s1)) = Some y" and ok: "recv_ok e" and got: "0 \<le> fst y"
    obtain ret bs where r: "pe_recv e (px_calls s) fd n = (ret, bs)" by fastforce
    obtain w s2 where w: "wait4 False e fd (sys (CallRecv fd n) s) = (w, s2)" by fastforce
    from recv_okD [OF ok r] have c: "ret = - 1 \<or> ret = int (length bs) \<and> length bs \<le> n" by blast
    show "0 < fst y \<and> fst y = int (length (fst (snd y))) \<and> length (fst (snd y)) \<le> n"
    proof (cases "ret < 0")
      case True
      then have "f e fd n s2 = Some y" using eq r w got by (auto simp: Let_def split: if_splits)
      with IH ok got show ?thesis by blast
    next
      case False
      with eq r got c show ?thesis by (auto simp: Let_def split: if_splits)
    qed
  qed
  then show ?thesis using assms(1,3) unfolding fst_conv snd_conv by blast
qed

lemma script_sends: "send_ok script_env"
  by (simp add: send_ok_def script_env_def)

lemma msend_sends_all_witness:
  "\<exists>s'. msend script_env 3 [1, 2, 3] connected = Some (3, s') \<and> (3 :: int) = int (length [1, 2, 3 :: u8]) \<and> sent_by script_env connected s' [1, 2, 3]"
proof -
  have "\<exists>s'. msend script_env 3 [1, 2, 3] connected = Some (int (length [1, 2, 3 :: u8]), s')"
    by (rule msend_returns [OF script_sends]) (simp_all add: script_env_def)
  then obtain s' where s': "msend script_env 3 [1, 2, 3] connected = Some (3, s')" by auto
  with msend_sends_all [OF script_sends _ s'] show ?thesis by auto
qed

end
