(* ===== verification/Spec2Isabelle.thy ===== *)
theory Spec2Isabelle
  imports ClanRound Dispatch HashList IdGen PetUse NodeList WorldTasks WorkerLoop TcpServer ServerLife Deflate ObjectStore RandomGen JsonProxy
begin

text \<open>
  \<^bold>\<open>What is modelled.\<close>  The repository collects the C++ sources of an online game's server.  Two parts of
  it are programs of their own: the tactical battle of \<^verbatim>\<open>BattleGround.h\<close> and \<^verbatim>\<open>BattleGround.cpp\<close> (in the directory of
  the A* algorithm), and the server skeleton under \<^verbatim>\<open>C++Save/Tmp/ProjectA/Core\<close>, with its packets, message
  numbers, message memory, dispatcher, hash tables and identifier generators.  The two meet in \<^verbatim>\<open>Stream\<close>,
  in the message numbers and in the identifier generators, which the battle uses for its reports.

  \<^bold>\<open>The battle.\<close>
  \<^item> \<open>Ground\<close>: the types of \<^verbatim>\<open>BattleGround.h\<close>; the record \<open>battle_ground\<close> has a field for each member of the
    class that the modelled functions use, and \<open>heap\<close>, which maps the address of a \<^verbatim>\<open>BattleFighter\<close> to the
    values of its getters.  \<open>get_around\<close>, \<open>check_up\<close>, \<open>get_distance\<close>, \<open>is_in_attack_zone\<close>,
    \<open>is_nearby_have_enemy\<close> are the functions of these names.  The lemmas relate them to \<open>hex_dist\<close>, the distance
    on the board of hexagons.
  \<^item> \<open>PathFinder\<close>: \<^verbatim>\<open>ComputeRoute\<close> and \<^verbatim>\<open>GetRoute\<close> with the open and the closed list as fields of the ground.
    The loop is a \<^verbatim>\<open>partial_function\<close>, so \<open>None\<close> is also a search that does not end; the invariant
    \<open>search_ok\<close> and the number of cells not yet closed show that it ends and what it finds.  The locale
    \<open>route_search\<close> is what the other components rely on.
  \<^item> \<open>TargetSelect\<close>: \<^verbatim>\<open>GetTarget\<close> and \<^verbatim>\<open>GetMovePosition\<close> with everything they call, over \<open>PathFinder\<close>.
    \<open>readable\<close> says when the tables are read inside their bounds and nothing is read before it is stored; the lemmas named
    \<open>_delivers\<close> show that each function then has a result, and \<open>archer_reads_uninitialised\<close> that the condition on archers is needed.
  \<^item> \<open>Deployment\<close>: \<^verbatim>\<open>InitMapFight\<close>, the positions of the camps, \<^verbatim>\<open>PushFighter\<close>, \<^verbatim>\<open>PushNpc\<close>,
    \<^verbatim>\<open>AutoEnterFighters\<close>, \<^verbatim>\<open>preStart\<close>, \<^verbatim>\<open>newFighter\<close>, \<^verbatim>\<open>setObject\<close>, the benches and the points of revival.
  \<^item> \<open>BattleRound\<close>: \<^verbatim>\<open>CheckIsStop\<close>, \<^verbatim>\<open>GetCaptureId\<close>, the order of the fighters, \<^verbatim>\<open>ArenaMove\<close> and \<^verbatim>\<open>start\<close>, with
    the report in \<open>pack\<close>.  The relation \<open>battle_step\<close> takes one fighter's turn or starts the next round; the theorem on
    reachable states is by rule induction.  \<open>std_sort\<close> has a result only where the comparator is a strict weak order.
  \<^item> \<open>ClanBattle\<close>: the battle of the clans, which \<^verbatim>\<open>FightOneRound\<close> plays one round at a time: \<^verbatim>\<open>Move\<close>, \<^verbatim>\<open>Relive\<close>,
    \<^verbatim>\<open>SyncHp\<close>, \<^verbatim>\<open>SendBattleEachInfo\<close>, \<^verbatim>\<open>SendBattleResultInfo\<close>.  The calls of the distribution, the players and
    the report tables are appended to \<open>calls\<close> in the order of the code.  The relation \<open>clan_step\<close> takes one turn;
    \<open>orderly\<close>, which adds the benches to \<open>placed\<close>, is kept.
  \<^item> \<open>ClanRound\<close>: what \<^verbatim>\<open>Relive\<close> does at a point of revival that is taken, and the end of the loop of
    \<^verbatim>\<open>FightOneRound\<close>: \<open>fed\<close> relates the length of the list of fighters to the rations given out (\<open>meals\<close>), so
    a bound on the rations bounds the number of turns; a turn without a defined result ends the loop without one.

  \<^bold>\<open>The server.\<close>
  \<^item> \<open>ByteStream\<close> (\<^verbatim>\<open>Common/Stream.h\<close>): the buffer in which packets are composed; round trips.
  \<^item> \<open>Serialize\<close> (\<^verbatim>\<open>Common/Serialize.h\<close>): one record of three functions for each specialisation of
    \<^verbatim>\<open>S11NTraits\<close>, one definition for each macro that makes a class of \<open>n\<close> members readable.  The locale \<open>codec\<close>
    says that what is written can be read back, \<open>guarded\<close> that nothing outside the packet is read; both are
    interpreted on the specialisations that keep them.
  \<^item> \<open>MsgIds\<close> (\<^verbatim>\<open>MsgID.h\<close>): the tables of message numbers.
  \<^item> \<open>MsgPool\<close> (\<^verbatim>\<open>Common/Queue.h\<close>, \<^verbatim>\<open>Common/MemBlockPool.cpp\<close>, \<^verbatim>\<open>Server/GlobalObject.cpp\<close>): queues, the ten pools
    of memory blocks; \<open>accounts\<close> says that every block ever handed out by the system is in exactly one place: in use, queued, free in one
    pool, or given back.  The locales
    \<open>fifo\<close> and \<open>block_source\<close> are the contracts the dispatcher uses.
  \<^item> \<open>Dispatch\<close> (\<^verbatim>\<open>MsgHandler/MsgHandler.cpp\<close>, \<^verbatim>\<open>MsgHandler/MsgHandler.h\<close>, \<^verbatim>\<open>MsgHandler/MsgTypes.h\<close>, \<^verbatim>\<open>Server/ServerTypes.h\<close>): a
    worker's pass over its queue.  The books are kept for every handler that keeps them.
  \<^item> \<open>HashList\<close> (\<^verbatim>\<open>Common/HashList.h\<close>, \<^verbatim>\<open>Common/HashTable.h\<close>): the open-addressing list, refined to a finite map,
    and the table of such lists behind the locale \<open>bucket\<close>.
  \<^item> \<open>IdGen\<close> (\<^verbatim>\<open>Common/AtomicVal.h\<close>, \<^verbatim>\<open>Server/OidGenerator.h\<close>): the generators of identifiers.

  \<^item> \<open>GameMap\<close> (\<^verbatim>\<open>GObject/Map.cpp\<close>): the cities, their objects and spots, and who is in them.  Packets are composed with
    \<open>ByteStream\<close> and \<open>MsgIds\<close>.  \<open>map_step\<close> lets a player enter or leave; \<open>listed_once\<close> is its invariant.

  \<^item> \<open>PetBag\<close>, \<open>PetUse\<close> (\<^verbatim>\<open>GObject/PetPackage.cpp\<close>): the gems and the equipment of the pets.  Items are values, equipment is on a heap;
    \<open>pet_step\<close> is any operation on a bag, \<open>counted\<close> and \<open>items_fit\<close> are its invariants, \<open>apart\<close> says when the loop of
    \<^verbatim>\<open>equipUpgrade\<close> reads no dead pointer.

  \<^item> \<open>NodeList\<close> (\<^verbatim>\<open>Common/Node.h\<close>): the macros of linked lists on a memory of nodes, as operations on the sequence of their
    elements; no other file uses them.  The locales \<open>front_list\<close> and \<open>back_list\<close> are their contracts.

  \<^item> \<open>WorldTasks\<close> (\<^verbatim>\<open>GObject/World.cpp\<close>, \<^verbatim>\<open>Common/TimeUtil.h\<close>): the timers of the world and what they call: rounds and
    stages of the clan battles, the placing of their fighters, ranks and rewards.  \<open>wo_calls\<close> lists what is told to others.

  \<^item> \<open>WorkerLoop\<close> (\<^verbatim>\<open>Server/WorkerRunner.h\<close>): a worker's thread from start to end.  \<open>loop_step\<close> fires a timer that is
    pending or is another thread's control; \<open>owned\<close>, which says that every event and every record belong to one timer,
    is kept whatever the tasks do.  The locale \<open>called_code\<close> is what the worker relies on of the code it enters.

  \<^item> \<open>TcpServer\<close> (\<^verbatim>\<open>MyPro/runnable/TcpServer.cpp\<close>, \<^verbatim>\<open>TcpConduit.cpp\<close>): the connections of the practice server.  A slave's table
    is refined to a map from places to connections; the locale \<open>conn_table\<close> is what its queue of operations relies on.
    Identifiers are \<^verbatim>\<open>int\<close>s of 32 bits: they name a place as long as there are fewer than \<open>2 ^ 30\<close> (\<open>identifier_wraps\<close>).

  \<^item> \<open>ServerLife\<close> (\<^verbatim>\<open>Server/WorldServer.cpp\<close>, \<^verbatim>\<open>Server/Main.cpp\<close>, \<^verbatim>\<open>Common/StringTokenizer.cpp\<close>): start and end of the server,
    as lists of steps that \<open>exec\<close> takes until one follows a null pointer, and its talk with the state service.

  \<^item> \<open>Inflate\<close> (\<^verbatim>\<open>Common/TInf.cpp\<close>): the inflater with its zlib wrapper, every function; \<open>InflateOk\<close>: trees, canonical Huffman
    codes and compressed blocks; \<open>Deflate\<close>: RFC 1951 and 1950 as a specification (\<open>block_gives\<close>, \<open>deflates\<close>) that the inflater
    is proved to implement.  The loops end because every turn reads bits.

  \<^item> \<open>ObjectStore\<close> (\<^verbatim>\<open>GObject/GLocalObjectManager.h\<close>, \<^verbatim>\<open>GObject/GGlobalObjectManager.h\<close>, \<^verbatim>\<open>GData/ObjectManager.h\<close>,
    \<^verbatim>\<open>Server/SysMsg.cpp\<close>): the containers of the game's objects and the table of messages.  \<open>local_ok\<close> and \<open>keyed_ok\<close> are the
    invariants; the table of keyed objects is an interpretation of the locale \<open>keyed_store\<close>.

  \<^item> \<open>Sha1\<close> (\<^verbatim>\<open>Common/SHA1Engine.cpp\<close>, \<^verbatim>\<open>Common/DigestEngine.cpp\<close>): the message digest, proved to be the one of FIPS 180-1
    however the message is cut; \<open>RandomGen\<close> (\<^verbatim>\<open>Common/Random.cpp\<close>, \<^verbatim>\<open>Common/URandom.cpp\<close>, \<^verbatim>\<open>Common/RandomStream.cpp\<close>): the additive
    generators, related to the recurrence \<open>lag\<close>, the congruential one to Park and Miller's, and the bytes that two of them and a digest
    make up.

  \<^item> \<open>JsonProxy\<close> (\<^verbatim>\<open>JsonProxy/JsonProxy.cpp\<close>): the proxy that hands requests to the server and answers back, as the sequence of its
    calls of the system.

  \<open>Prelude\<close> holds array reads with their bounds, ordered association lists for \<^verbatim>\<open>std::map\<close>, and the theorem
  collections.

  \<^bold>\<open>Conventions.\<close>  Integers of the source are words of their width, or numbers where positions and sizes are meant; then the
  width is written out where it matters (\<^verbatim>\<open>mod 2 ^ 64\<close> for a sum of \<^verbatim>\<open>size_t\<close>, \<open>int32\<close> for a counter that may
  overflow).  \<open>None\<close> is undefined behaviour (a read outside an array or of what has not been stored, a null pointer, an
  erased iterator, an \<^verbatim>\<open>int\<close> that overflows), a failed assertion, or a loop that does not end; a
  theorem that an operation is safe says that the result is \<open>Some\<close>.  There is one exception: \<^verbatim>\<open>ComputeRoute\<close> reads the
  cost of a neighbour before it tests whether the neighbour is an obstacle, and for an obstacle this read is outside \<^verbatim>\<open>RideSub\<close>.
  \<open>get_g_value\<close> takes an arbitrary byte for it, a field of the ground, and \<open>compute_route_same_stray\<close> shows that the search does
  not depend on it.  No fuel is used: loops that need an argument to
  end are \<^verbatim>\<open>partial_function\<close>s in the option monad, and that they return is proved.

  \<^bold>\<open>Parameters.\<close>  Code that is not in the repository is an argument: the table of maps and the players'
  settings, and what the players, the distribution and the tables answer, which may depend on the calls made before
  (\<open>game_env\<close>); the single combat \<open>duel_of\<close> (\<^verbatim>\<open>BattleProxy\<close>), the list left by \<^verbatim>\<open>std::sort\<close> (it decides
  among equals, and is used only where the comparator is a strict weak order), the memory of the system's \<^verbatim>\<open>malloc\<close> (\<open>heap\<close> of \<open>MsgPool\<close>), the players and the
  handlers of \<open>Dispatch\<close>, the hash function of \<open>HashList\<close>, the players of a city (\<open>map_env\<close>), the pets and
  the tables of their items (\<open>pet_env\<close>), the clock, the clan battles' classes and the mails (\<open>world_env\<close>), libevent, the
  allocator and the code a worker runs (\<open>runner_env\<close>), the making of conduits (\<open>tcp_env\<close>), the format of
  packets and the unzipper (\<open>packet_env\<close>), what \<^verbatim>\<open>Cfg::load\<close> makes of the configuration and what curl receives, the order in which a hash table is walked, \<^verbatim>\<open>vsnprintf\<close>, what the system's calls return to
  the proxy (\<open>proxy_env\<close>), and the bytes of the system's device and of memory that nobody has written.

  \<^bold>\<open>Not modelled.\<close>  Of the battle: the output to the console (\<^verbatim>\<open>TestCoutBattleS\<close>) and the destructor.
  \<^verbatim>\<open>HashList::assign\<close>, which does not compile.  \<^verbatim>\<open>Map::OnPlayerLevUp\<close>, whose result is never defined.
  Of \<^verbatim>\<open>PetPackage\<close> the functions that break off or use undeclared names (\<^verbatim>\<open>AttachPetGem\<close>, \<^verbatim>\<open>UpPetEquip\<close>), \<^verbatim>\<open>UnInit\<close>
  and the list of all items.  The random numbers that are made with floating point.  Of the repository: the Lua interpreter and its binding, the
  other classes copied from POCO, the wrappers of zlib (all third-party), logging, the threads and the configuration
  of the process (input and output), the other fragments of game objects (\<^verbatim>\<open>Dreamer\<close>, \<^verbatim>\<open>HoneyFall\<close>) whose base classes are missing, the other practice
  programs, and the Lua and SQL scripts.
\<close>

end
